(* ===== verification/Prelude.thy ===== *)
theory Prelude
  imports Main "HOL-Library.Word"
begin

text \<open>
  Shared material of the development: names for the fixed-width integers of the
  C++ sources, byte buffers, the collections of simplification rules the component
  theories fill, and the interface that every self-delimiting field codec of the
  wire formats (SDNV, CBOR) satisfies.
\<close>

unbundle bit_operations_syntax

section \<open>Machine integers and buffers\<close>

text \<open>
  \<open>u_char\<close>/\<open>uint8_t\<close>, \<open>uint16_t\<close>, \<open>u_int32_t\<close>/\<open>u_int\<close> and
  \<open>u_int64_t\<close>/\<open>size_t\<close> keep their width, so \<open>+\<close> and \<open>-\<close> wrap around as in
  C++. A C++ \<open>int\<close> that only holds small counts or error codes is an \<open>int\<close>.
\<close>

type_synonym u8 = "8 word"
type_synonym u16 = "16 word"
type_synonym u32 = "32 word"
type_synonym u64 = "64 word"
type_synonym bytes = "u8 list"

named_theorems wire_simps \<open>length and shape facts of encoded fields\<close>
named_theorems word_facts \<open>conversions between words and natural numbers\<close>

section \<open>Words\<close>

lemma unat_lt_u64 [word_facts]: "unat (x :: u64) < 2 ^ 64"
  using unsigned_less [of x] by simp

lemma unat_drop_bit_div: "unat (drop_bit n (w :: 'a::len word)) = unat w div 2 ^ n"
  by (metis drop_bit_eq_div unat_drop_bit_eq)

lemma drop_bit_nz_less:
  assumes "drop_bit n (w :: 'a::len word) \<noteq> 0" and "0 < n"
  shows "unat (drop_bit n w) < unat w"
proof -
  have "w \<noteq> 0" using assms(1) by auto
  then have "0 < unat w" by (simp add: unat_gt_0)
  moreover have "(1::nat) < 2 ^ n" using assms(2) by (rule one_less_power [rotated]) simp
  ultimately show ?thesis
    by (simp only: unat_drop_bit_div div_less_dividend)
qed

lemma shift_mask_join:
  "push_bit n (drop_bit n w) OR (w AND mask n) = (w :: 'a::len word)"
  by (rule bit_word_eqI) (auto simp: bit_simps)

lemma unat_succ [word_facts]:
  assumes "b \<noteq> (- 1 :: 'a::len word)"
  shows "unat (b + 1) = Suc (unat b)"
proof -
  have "1 + b \<noteq> 0" using assms by (metis add_eq_0_iff2 minus_equation_iff)
  then show ?thesis using unatSuc [of b] by (simp add: add.commute)
qed

lemma unat_pred [word_facts]:
  assumes "b \<noteq> (0 :: 'a::len word)"
  shows "unat (b - 1) = unat b - 1"
  using assms by (simp add: unat_minus_one)

lemma word_less_succ_iff [word_facts]:
  assumes "b \<noteq> (- 1 :: 'a::len word)"
  shows "x < b + 1 \<longleftrightarrow> x \<le> b"
  using assms by (simp add: word_less_nat_alt word_le_nat_alt unat_succ less_Suc_eq_le)

lemma unat_next [word_facts]: "(i :: 'a::len word) < n \<Longrightarrow> unat (i + 1) = Suc (unat i)"
  by (rule unat_succ) (use word_order.extremum_strict in blast)

lemma word_le_pred_iff [word_facts]:
  assumes "b \<noteq> (0 :: 'a::len word)"
  shows "x \<le> b - 1 \<longleftrightarrow> x < b"
proof -
  have "0 < unat b" using assms by (simp add: unat_gt_0)
  then show ?thesis using assms by (auto simp: word_less_nat_alt word_le_nat_alt unat_pred)
qed

section \<open>Self-delimiting field codecs\<close>

text \<open>
  The wire formats are sequences of self-delimiting fields. A codec has an encoder, a
  decoder that returns the value and the rest of the buffer, and the set of values it
  carries; its one law is that decoding undoes encoding whatever follows. The lemmas
  about sequences of fields are proved once, here.
\<close>

fun decode_seq :: "(bytes \<Rightarrow> ('a \<times> bytes) option) \<Rightarrow> nat \<Rightarrow> bytes \<Rightarrow> ('a list \<times> bytes) option" where
  "decode_seq dec 0 bs = Some ([], bs)"
| "decode_seq dec (Suc n) bs =
     (case dec bs of None \<Rightarrow> None
      | Some (x, bs') \<Rightarrow>
          (case decode_seq dec n bs' of None \<Rightarrow> None
           | Some (xs, rest) \<Rightarrow> Some (x # xs, rest)))"

locale field_codec =
  fixes enc :: "'a \<Rightarrow> bytes"
    and dec :: "bytes \<Rightarrow> ('a \<times> bytes) option"
    and ok :: "'a \<Rightarrow> bool"
  assumes dec_enc: "ok x \<Longrightarrow> dec (enc x @ rest) = Some (x, rest)"
    and enc_nonempty: "enc x \<noteq> []"
begin

lemma decode_seq_concat:
  "\<forall>x \<in> set xs. ok x \<Longrightarrow>
    decode_seq dec (length xs) (concat (map enc xs) @ rest) = Some (xs, rest)"
  by (induction xs) (auto simp: dec_enc)

lemma enc_inject:
  assumes "ok x" and "ok y" and "enc x @ r = enc y @ s"
  shows "x = y \<and> r = s"
proof -
  have "Some (x, r) = Some (y, s)"
    unfolding dec_enc [OF assms(1), symmetric] dec_enc [OF assms(2), symmetric]
    by (rule arg_cong [OF assms(3)])
  then show ?thesis by simp
qed

lemma enc_prefix_free:
  assumes "ok x" and "ok y" and "enc y = enc x @ s"
  shows "s = []"
  using enc_inject [OF assms(1) assms(2), of s "[]"] assms(3) by simp

lemma length_concat_enc: "length xs \<le> length (concat (map enc xs))"
proof (induction xs)
  case (Cons x xs)
  have "1 \<le> length (enc x)" using enc_nonempty [of x] by (cases "enc x") auto
  with Cons.IH show ?case by simp
qed simp

end

section \<open>Stores of ids\<close>

text \<open>
  A component that aggregates ids (a pending custody signal, the claims of a report) is used
  through one operation, adding an id it does not hold yet. The contract: with room left the
  operation succeeds, keeps the invariant and adds exactly that id; and what a client sees of the
  store depends only on the set of ids in it. The client's lemmas are about sequences of additions.
\<close>

fun fold_opt :: "('s \<Rightarrow> 'i \<Rightarrow> 's option) \<Rightarrow> 's \<Rightarrow> 'i list \<Rightarrow> 's option" where
  "fold_opt f s [] = Some s"
| "fold_opt f s (i # is) = (case f s i of None \<Rightarrow> None | Some s' \<Rightarrow> fold_opt f s' is)"

locale id_store =
  fixes inv :: "'s \<Rightarrow> bool"
    and add :: "'s \<Rightarrow> 'i \<Rightarrow> 's option"
    and ids :: "'s \<Rightarrow> 'i set"
    and valid :: "'i \<Rightarrow> bool"
    and room :: "'s \<Rightarrow> nat"
    and view :: "'s \<Rightarrow> 'v"
  assumes add_new: "inv s \<Longrightarrow> valid i \<Longrightarrow> i \<notin> ids s \<Longrightarrow> 0 < room s \<Longrightarrow>
      \<exists>s'. add s i = Some s' \<and> inv s' \<and> ids s' = insert i (ids s) \<and> room s \<le> Suc (room s')"
    and canonical: "inv s \<Longrightarrow> inv t \<Longrightarrow> ids s = ids t \<Longrightarrow> view s = view t"
begin

lemma add_all_new:
  assumes "inv s" and "distinct is" and "\<forall>i \<in> set is. valid i \<and> i \<notin> ids s" and "length is \<le> room s"
  shows "\<exists>s'. fold_opt add s is = Some s' \<and> inv s' \<and> ids s' = set is \<union> ids s"
  using assms
proof (induction "is" arbitrary: s)
  case (Cons i "is")
  obtain s1 where s1: "add s i = Some s1" "inv s1" "ids s1 = insert i (ids s)" "room s \<le> Suc (room s1)"
    using add_new [of s i] Cons.prems by auto
  obtain s2 where "fold_opt add s1 is = Some s2" "inv s2" "ids s2 = set is \<union> ids s1"
    using Cons.IH [of s1] Cons.prems s1 by auto
  then show ?case using s1 by auto
qed simp

lemma add_order_irrelevant:
  assumes "inv s" and "distinct is" and "distinct js" and "set is = set js"
    and "\<forall>i \<in> set is. valid i \<and> i \<notin> ids s" and "length is \<le> room s"
  shows "\<exists>a b. fold_opt add s is = Some a \<and> fold_opt add s js = Some b \<and> view a = view b
    \<and> ids a = set is \<union> ids s"
proof -
  have "length js = length is"
    unfolding distinct_card [OF assms(2), symmetric] distinct_card [OF assms(3), symmetric] assms(4) ..
  then have js: "\<forall>i \<in> set js. valid i \<and> i \<notin> ids s" "length js \<le> room s"
    using assms(5,6) unfolding assms(4) by simp_all
  obtain a where a: "fold_opt add s is = Some a" "inv a" "ids a = set is \<union> ids s"
    using add_all_new [OF assms(1,2,5,6)] by auto
  obtain b where b: "fold_opt add s js = Some b" "inv b" "ids b = set js \<union> ids s"
    using add_all_new [OF assms(1,3) js] by auto
  have "view a = view b"
    by (rule canonical [OF a(2) b(2)]) (simp only: a(3) b(3) assms(4))
  then show ?thesis using a b by blast
qed

end

end
