(* ===== verification/SDNV.thy ===== *)
theory SDNV
  imports Prelude
begin

text \<open>
  Self-delimiting numeric values: \<open>src/servlib/bundling/SDNV.cc\<close> and the 32-bit
  overload of \<open>src/servlib/bundling/SDNV.h\<close>. The encoder's two loops, the decoder's loop
  and its overflow test are translated as they stand; the theory shows that the encoder's
  assertions hold, that decoding undoes encoding, and which buffers the decoder refuses.
\<close>

section \<open>Operations\<close>

definition MAX_LENGTH :: nat where
  "MAX_LENGTH = 10"

text \<open>The first loop of \<open>SDNV::encode\<close>: how many 7-bit groups the value has.\<close>

function sdnv_val_len :: "u64 \<Rightarrow> nat" where
  "sdnv_val_len tmp =
     (if drop_bit 7 tmp \<noteq> 0 then Suc (sdnv_val_len (drop_bit 7 tmp)) else 1)"
  by pat_completeness auto
termination
  by (relation "measure unat") (auto intro: drop_bit_nz_less)

text \<open>
  The second loop fills the buffer backwards; the bytes already written stand behind the
  byte being written.
\<close>

function sdnv_fill :: "u8 \<Rightarrow> u64 \<Rightarrow> bytes \<Rightarrow> bytes" where
  "sdnv_fill high_bit val written =
     (let b = high_bit OR ucast (val AND 0x7f) in
      if drop_bit 7 val \<noteq> 0 then sdnv_fill 0x80 (drop_bit 7 val) (b # written)
      else b # written)"
  by pat_completeness auto
termination
  by (relation "measure (\<lambda>(h, v, w). unat v)") (auto intro: drop_bit_nz_less)

text \<open>
  \<open>SDNV::encode(val, bp, len)\<close>: \<open>None\<close> is the return value -1 (nothing written),
  \<open>Some bs\<close> the bytes written, whose number is returned.
\<close>

definition sdnv_encode :: "u64 \<Rightarrow> nat \<Rightarrow> bytes option" where
  "sdnv_encode val len = (if len < sdnv_val_len val then None else Some (sdnv_fill 0 val []))"

definition sdnv_encoding_len :: "u64 \<Rightarrow> nat" where
  "sdnv_encoding_len val = (case sdnv_encode val 16 of None \<Rightarrow> 0 | Some bs \<Rightarrow> length bs)"

text \<open>
  The loop of \<open>SDNV::decode\<close>, over the \<open>len\<close> bytes of the buffer: \<open>Inl\<close> when the
  buffer ends first, with the value stored so far.
\<close>

fun sdnv_decode_loop :: "bytes \<Rightarrow> u64 \<Rightarrow> nat \<Rightarrow> u64 + u64 \<times> nat" where
  "sdnv_decode_loop [] val val_len = Inl val"
| "sdnv_decode_loop (b # bp) val val_len =
     (let val' = push_bit 7 val OR ucast (b AND 0x7f) in
      if b AND 0x80 = 0 then Inr (val', Suc val_len)
      else sdnv_decode_loop bp val' (Suc val_len))"

text \<open>The return value (-1 on error) and the value left in \<open>*val\<close>.\<close>

definition sdnv_decode :: "bytes \<Rightarrow> int \<times> u64" where
  "sdnv_decode bp =
     (case sdnv_decode_loop bp 0 0 of
        Inl val \<Rightarrow> (-1, val)
      | Inr (val, val_len) \<Rightarrow>
          if val_len > MAX_LENGTH \<or> (val_len = MAX_LENGTH \<and> hd bp \<noteq> 0x81)
          then (-1, val) else (int val_len, val))"

text \<open>
  The overload for \<open>u_int32_t*\<close>; \<open>old\<close> is what \<open>*val\<close> held before, kept when the
  decoded value does not fit.
\<close>

definition sdnv_decode32 :: "u32 \<Rightarrow> bytes \<Rightarrow> int \<times> u32" where
  "sdnv_decode32 old bp =
     (let (ret, lval) = sdnv_decode bp in
      if lval > 0xffffffff then (-1, old) else (ret, ucast lval))"

fun sdnv_len :: "bytes \<Rightarrow> nat option" where
  "sdnv_len [] = None"
| "sdnv_len (b # bp) = (if b AND 0x80 \<noteq> 0 then map_option Suc (sdnv_len bp) else Some 1)"

text \<open>
  The idiom of every caller: decode, give up on a non-positive status, else advance the
  buffer by the status.
\<close>

definition sdnv_take :: "bytes \<Rightarrow> (u64 \<times> bytes) option" where
  "sdnv_take bp =
     (let (n, val) = sdnv_decode bp in if n > 0 then Some (val, drop (nat n) bp) else None)"

declare sdnv_val_len.simps [simp del] sdnv_fill.simps [simp del]

section \<open>The encoder\<close>

text \<open>The buffer seen front to back, without the accumulator.\<close>

function sdnv_groups :: "u8 \<Rightarrow> u64 \<Rightarrow> bytes" where
  "sdnv_groups high_bit val =
     (if drop_bit 7 val \<noteq> 0 then sdnv_groups 0x80 (drop_bit 7 val) else [])
     @ [high_bit OR ucast (val AND 0x7f)]"
  by pat_completeness auto
termination
  by (relation "measure (\<lambda>(h, v). unat v)") (auto intro: drop_bit_nz_less)

declare sdnv_groups.simps [simp del]

lemma sdnv_fill_groups: "sdnv_fill h v acc = sdnv_groups h v @ acc"
proof (induction h v acc rule: sdnv_fill.induct)
  case (1 h v acc)
  then show ?case
    by (subst sdnv_fill.simps, subst sdnv_groups.simps) (simp add: Let_def)
qed

lemma length_sdnv_groups [wire_simps]: "length (sdnv_groups h v) = sdnv_val_len v"
proof (induction h v rule: sdnv_groups.induct)
  case (1 h v)
  then show ?case by (subst sdnv_groups.simps, subst sdnv_val_len.simps) simp
qed

lemma sdnv_val_len_pos [simp]: "0 < sdnv_val_len v"
  by (subst sdnv_val_len.simps) simp

lemma sdnv_groups_nonempty [simp]: "sdnv_groups h v \<noteq> []"
  by (subst sdnv_groups.simps) simp

lemma sdnv_val_len_le_iff: "sdnv_val_len v \<le> Suc k \<longleftrightarrow> unat v < 2 ^ (7 * Suc k)"
proof (induction k arbitrary: v)
  case 0
  have "drop_bit 7 v = 0 \<longleftrightarrow> unat v < 2 ^ 7"
    by (simp add: unat_eq_zero [symmetric] unat_drop_bit_div div_eq_0_iff)
  then show ?case by (subst sdnv_val_len.simps) (auto simp: Suc_le_eq)
next
  case (Suc k)
  have less: "unat (drop_bit 7 v) < 2 ^ (7 * Suc k) \<longleftrightarrow> unat v < 2 ^ (7 * Suc (Suc k))"
    by (simp add: unat_drop_bit_div div_less_iff_less_mult power_add)
  show ?case
  proof (cases "drop_bit 7 v = 0")
    case True
    then have "unat v < 2 ^ (7 * Suc (Suc k))" using less by simp
    with True show ?thesis by (subst sdnv_val_len.simps) simp
  next
    case False
    then show ?thesis using Suc.IH [of "drop_bit 7 v"] less
      by (subst sdnv_val_len.simps) simp
  qed
qed

lemma sdnv_val_len_le_MAX: "sdnv_val_len v \<le> MAX_LENGTH"
proof -
  have "unat v < 2 ^ 64" by (rule unat_lt_u64)
  also have "(2::nat) ^ 64 \<le> 2 ^ (7 * Suc 9)" by (rule power_increasing) simp_all
  finally show ?thesis using sdnv_val_len_le_iff [of v 9] by (simp add: MAX_LENGTH_def)
qed

lemma sdnv_encoding_len_eq [simp]: "sdnv_encoding_len v = sdnv_val_len v"
  using sdnv_val_len_le_MAX [of v]
  by (simp add: sdnv_encoding_len_def sdnv_encode_def MAX_LENGTH_def sdnv_fill_groups length_sdnv_groups)

lemma sdnv_encode_Some_iff:
  "sdnv_encode v n = Some bs \<longleftrightarrow> sdnv_val_len v \<le> n \<and> bs = sdnv_groups 0 v"
  by (auto simp: sdnv_encode_def sdnv_fill_groups)

section \<open>Decoding what was encoded\<close>

lemma bit_7f_int: "bit (0x7f :: int) n \<longleftrightarrow> n < 7"
proof -
  have "(0x7f :: int) = mask 7" by (simp add: mask_eq_exp_minus_1)
  then show ?thesis by (simp only: bit_mask_iff) simp
qed

lemma bit_80_int: "bit (0x80 :: int) n \<longleftrightarrow> n = 7"
proof -
  have "(0x80 :: int) = 2 ^ 7" by simp
  then show ?thesis by (simp only: bit_exp_iff) auto
qed

lemmas group_bits = bit_simps bit_7f_int bit_80_int

lemma ucast_and_7f: "ucast (ucast (v AND 0x7f :: u64) AND 0x7f :: u8) = v AND (0x7f :: u64)"
  by (rule bit_word_eqI) (auto simp: group_bits)

lemma group_low: "(h OR ucast (v AND 0x7f :: u64)) AND 0x7f = (ucast (v AND 0x7f) AND 0x7f :: u8)"
  if "h = 0 \<or> h = (0x80 :: u8)"
  using that by (auto intro!: bit_word_eqI simp: group_bits)

lemma group_high: "((0x80 :: u8) OR ucast (v AND 0x7f :: u64)) AND 0x80 \<noteq> 0"
proof
  assume "((0x80 :: u8) OR ucast (v AND 0x7f :: u64)) AND 0x80 = 0"
  then have "\<not> bit (((0x80 :: u8) OR ucast (v AND 0x7f :: u64)) AND 0x80) 7" by simp
  then show False by (simp add: group_bits)
qed

lemma group_last: "((0 :: u8) OR ucast (v AND 0x7f :: u64)) AND 0x80 = 0"
  by (rule bit_word_eqI) (auto simp: group_bits)

lemma shift_join7: "push_bit 7 (drop_bit 7 v) OR (v AND 0x7f) = (v :: u64)"
  using shift_mask_join [of 7 v] by (simp add: mask_eq_exp_minus_1)

lemma decode_loop_more:
  "sdnv_decode_loop (sdnv_groups 0x80 v @ rest) 0 n = sdnv_decode_loop rest v (n + sdnv_val_len v)"
proof (induction "0x80 :: u8" v arbitrary: rest n rule: sdnv_groups.induct)
  case (1 v)
  let ?b = "(0x80 :: u8) OR ucast (v AND 0x7f)"
  have last: "sdnv_decode_loop (?b # rest) (drop_bit 7 v) m = sdnv_decode_loop rest v (Suc m)" for m
    using group_high [of v] shift_join7 [of v]
    by (simp add: group_low ucast_and_7f)
  show ?case
  proof (cases "drop_bit 7 v = 0")
    case True
    then show ?thesis using last [of n]
      by (subst sdnv_groups.simps, subst sdnv_val_len.simps) simp
  next
    case False
    then show ?thesis using "1" [OF False, of "?b # rest" n] last [of "n + sdnv_val_len (drop_bit 7 v)"]
      by (subst sdnv_groups.simps, subst sdnv_val_len.simps) simp
  qed
qed

lemma decode_loop_groups:
  "sdnv_decode_loop (sdnv_groups 0 v @ rest) 0 0 = Inr (v, sdnv_val_len v)"
proof -
  let ?b = "(0 :: u8) OR ucast (v AND 0x7f)"
  have last: "sdnv_decode_loop (?b # rest) (drop_bit 7 v) m = Inr (v, Suc m)" for m
    using group_last [of v] shift_join7 [of v] group_low [of 0 v]
    by (simp add: ucast_and_7f)
  show ?thesis
  proof (cases "drop_bit 7 v = 0")
    case True
    then show ?thesis using last [of 0]
      by (subst sdnv_groups.simps, subst sdnv_val_len.simps) simp
  next
    case False
    then show ?thesis using decode_loop_more [of "drop_bit 7 v" "?b # rest" 0] last
      by (subst sdnv_groups.simps, subst sdnv_val_len.simps) simp
  qed
qed

text \<open>A ten-byte encoding starts with 0x81, the only first byte the decoder accepts there.\<close>

lemma sdnv_val_len_Suc_iff:
  "sdnv_val_len v = Suc k \<longleftrightarrow>
     (if k = 0 then drop_bit 7 v = 0 else drop_bit 7 v \<noteq> 0 \<and> sdnv_val_len (drop_bit 7 v) = k)"
  using sdnv_val_len_pos [of "drop_bit 7 v"] by (auto simp: sdnv_val_len.simps [of v])

lemma hd_sdnv_groups:
  "sdnv_val_len v = Suc k \<Longrightarrow>
    hd (sdnv_groups h v) = (if k = 0 then h else 0x80) OR ucast (drop_bit (7 * k) v AND 0x7f)"
proof (induction k arbitrary: h v)
  case 0
  then have "drop_bit 7 v = 0" by (simp add: sdnv_val_len_Suc_iff)
  then show ?case by (subst sdnv_groups.simps) simp
next
  case (Suc k)
  then have nz: "drop_bit 7 v \<noteq> 0" and len: "sdnv_val_len (drop_bit 7 v) = Suc k"
    by (simp_all add: sdnv_val_len_Suc_iff [of v])
  show ?case using Suc.IH [OF len, of "0x80"] nz
    by (subst sdnv_groups.simps) (simp add: drop_bit_drop_bit hd_append add.commute)
qed

lemma ten_byte_first:
  assumes "sdnv_val_len v = 10"
  shows "hd (sdnv_groups h v) = 0x81"
proof -
  have "\<not> unat v < 2 ^ (7 * Suc 8)" using sdnv_val_len_le_iff [of v 8] assms by simp
  then have "1 \<le> unat v div 2 ^ 63" by (simp add: Suc_le_eq div_greater_zero_iff)
  moreover have "unat v div 2 ^ 63 < 2"
    using unat_lt_u64 [of v] by (simp add: div_less_iff_less_mult)
  ultimately have "unat (drop_bit 63 v) = 1" by (simp add: unat_drop_bit_div)
  then have "drop_bit 63 v = 1" by (metis unat_1 word_unat_eq_iff)
  then show ?thesis using hd_sdnv_groups [of v 9 h] assms by simp
qed

lemma sdnv_decode_groups [wire_simps]:
  "sdnv_decode (sdnv_groups 0 v @ rest) = (int (sdnv_val_len v), v)"
  using ten_byte_first [of v 0] sdnv_val_len_le_MAX [of v]
  by (auto simp: sdnv_decode_def decode_loop_groups MAX_LENGTH_def hd_append)

lemma sdnv_take_groups [wire_simps]: "sdnv_take (sdnv_groups 0 v @ rest) = Some (v, rest)"
  by (simp add: sdnv_take_def sdnv_decode_groups length_sdnv_groups)

interpretation sdnv: field_codec "sdnv_groups 0" sdnv_take "\<lambda>_. True"
  by unfold_locales (simp_all add: sdnv_take_groups)

section \<open>What the decoder accepts and returns\<close>

text \<open>The value of a run of 7-bit groups, as an unbounded number.\<close>

definition group_value :: "nat \<Rightarrow> bytes \<Rightarrow> nat" where
  "group_value acc bs = foldl (\<lambda>a b. a * 128 + unat (b AND 0x7f)) acc bs"

lemma group_value_simps [simp]:
  "group_value acc [] = acc"
  "group_value acc (b # bs) = group_value (acc * 128 + unat (b AND 0x7f)) bs"
  by (simp_all add: group_value_def)

lemma unat_low7: "unat (b AND 0x7f :: u8) < 128"
proof -
  have "b AND 0x7f \<le> (0x7f :: u8)" by (rule word_and_le1)
  then show ?thesis by (simp add: word_le_nat_alt)
qed

lemma group_value_ge: "acc \<le> group_value acc bs"
proof (induction bs arbitrary: acc)
  case (Cons b bs)
  have "acc \<le> acc * 128 + unat (b AND 0x7f)" by simp
  also have "\<dots> \<le> group_value (acc * 128 + unat (b AND 0x7f)) bs" by (rule Cons.IH)
  finally show ?case by simp
qed simp

lemma group_value_less: "group_value acc bs < (acc + 1) * 128 ^ length bs"
proof (induction bs arbitrary: acc)
  case (Cons b bs)
  have "group_value (acc * 128 + unat (b AND 0x7f)) bs
        < (acc * 128 + unat (b AND 0x7f) + 1) * 128 ^ length bs" by (rule Cons.IH)
  also have "\<dots> \<le> ((acc + 1) * 128) * 128 ^ length bs"
    using unat_low7 [of b] by (intro mult_le_mono1) simp
  finally show ?case by (simp add: algebra_simps)
qed simp

lemma unat_group_step:
  assumes "unat (val :: u64) * 128 + unat (b AND 0x7f :: u8) < 2 ^ 64"
  shows "unat (push_bit 7 val OR ucast (b AND 0x7f)) = unat val * 128 + unat (b AND 0x7f)"
proof -
  let ?low = "ucast (b AND 0x7f) :: u64"
  have or: "push_bit 7 val OR ?low = val * 128 + ?low"
  proof -
    have "push_bit 7 val OR ?low = push_bit 7 val + ?low"
      by (rule sym, rule disjunctive_add) (auto simp: group_bits)
    then show ?thesis by (simp add: push_bit_eq_mult)
  qed
  have low: "unat ?low = unat (b AND 0x7f)"
    using unat_low7 [of b] by (simp add: unsigned_ucast_eq take_bit_nat_eq_self)
  show ?thesis using assms unfolding or by (simp add: unat_word_ariths low)
qed

abbreviation continued :: "u8 \<Rightarrow> bool" where
  "continued b \<equiv> b AND 0x80 \<noteq> 0"

lemma decode_loop_cases:
  "sdnv_decode_loop bp val n =
     (let k = length (takeWhile continued bp) in
      if k = length bp then Inl (foldl (\<lambda>v b. push_bit 7 v OR ucast (b AND 0x7f)) val bp)
      else Inr (foldl (\<lambda>v b. push_bit 7 v OR ucast (b AND 0x7f)) val (take (Suc k) bp), n + Suc k))"
  by (induction bp val n rule: sdnv_decode_loop.induct) (auto simp: Let_def)

lemma unat_fold_groups:
  "group_value (unat val) bs < 2 ^ 64 \<Longrightarrow>
    unat (foldl (\<lambda>v b. push_bit 7 v OR ucast (b AND 0x7f)) (val :: u64) bs) = group_value (unat val) bs"
proof (induction bs arbitrary: val)
  case (Cons b bs)
  have "unat val * 128 + unat (b AND 0x7f) < 2 ^ 64"
    using group_value_ge [of "unat val * 128 + unat (b AND 0x7f)" bs] Cons.prems by simp
  then have "unat (push_bit 7 val OR ucast (b AND 0x7f)) = unat val * 128 + unat (b AND 0x7f)"
    by (rule unat_group_step)
  with Cons.IH [of "push_bit 7 val OR ucast (b AND 0x7f)"] Cons.prems show ?case by simp
qed simp

lemma accepted_fits:
  assumes "length bs \<le> 9 \<or> (length bs = 10 \<and> hd bs = 0x81)"
  shows "group_value 0 bs < 2 ^ 64"
proof (cases "length bs \<le> 9")
  case True
  have "group_value 0 bs < 128 ^ length bs" using group_value_less [of 0 bs] by simp
  also have "(128::nat) ^ length bs \<le> 128 ^ 9" using True by (intro power_increasing) simp_all
  finally show ?thesis by simp
next
  case False
  then obtain b bs' where bs: "bs = 0x81 # bs'" "length bs' = 9" using assms by (cases bs) auto
  have "unat ((0x81 :: u8) AND 0x7f) = 1" by simp
  then have "group_value 0 bs = group_value 1 bs'" unfolding bs by simp
  also have "\<dots> < (1 + 1) * 128 ^ 9" using group_value_less [of 1 bs'] bs(2) by simp
  finally show ?thesis by simp
qed

section \<open>Properties\<close>

text \<open>
  C26. Whatever \<open>SDNV::encode\<close> writes into a large enough buffer, \<open>SDNV::decode\<close> reads back:
  the same value, and as many bytes consumed as were written, whatever bytes follow.
\<close>

theorem sdnv_roundtrip:
  assumes "sdnv_encode v n = Some bs"
  shows "sdnv_decode (bs @ rest) = (int (length bs), v)"
  using assms by (auto simp: sdnv_encode_Some_iff sdnv_decode_groups length_sdnv_groups)

theorem sdnv_roundtrip_witness:
  "sdnv_encode 300 2 = Some [0x82, 0x2c] \<and> sdnv_decode ([0x82, 0x2c] @ [7]) = (2, 300)"
proof -
  have h: "sdnv_encode 300 2 = Some [0x82, 0x2c]"
    by (simp add: sdnv_encode_def sdnv_val_len.simps sdnv_fill.simps Let_def)
  show ?thesis using h sdnv_roundtrip [OF h, of "[7]"] by simp
qed

text \<open>
  \<open>SDNV::encode\<close> fails exactly when the buffer is shorter than \<open>SDNV::encoding_len\<close>; that
  length is the least positive number of 7-bit groups that hold the value, and never more than
  \<open>MAX_LENGTH\<close> (the assertions of the encoder).
\<close>

theorem sdnv_encode_length:
  "sdnv_encode v n =
     (if n < sdnv_encoding_len v then None else Some (sdnv_fill 0 v []))
   \<and> length (sdnv_fill 0 v []) = sdnv_encoding_len v
   \<and> 0 < sdnv_encoding_len v \<and> sdnv_encoding_len v \<le> MAX_LENGTH
   \<and> (\<forall>k. sdnv_encoding_len v \<le> Suc k \<longleftrightarrow> unat v < 2 ^ (7 * Suc k))"
  by (simp add: sdnv_encode_def sdnv_fill_groups length_sdnv_groups sdnv_val_len_le_MAX
      sdnv_val_len_le_iff del: mult_Suc_right power_Suc)

text \<open>
  C27. \<open>SDNV::decode\<close> accepts a buffer exactly when it holds a terminated run of at most nine
  groups, or of ten groups that starts with 0x81; it then returns the length of the run and the
  exact value of its groups, with no wrap-around of the 64-bit accumulator.
\<close>

theorem sdnv_decode_exact:
  "let k = length (takeWhile continued bp);
       accepted = k < length bp \<and> (k < 9 \<or> (k = 9 \<and> hd bp = 0x81))
   in fst (sdnv_decode bp) = (if accepted then int (Suc k) else -1)
      \<and> (if accepted then unat (snd (sdnv_decode bp)) = group_value 0 (take (Suc k) bp) else True)"
proof -
  let ?k = "length (takeWhile continued bp)"
  have le: "?k \<le> length bp" by (rule length_takeWhile_le)
  have "unat (foldl (\<lambda>v b. push_bit 7 v OR ucast (b AND 0x7f)) (0 :: u64) (take (Suc ?k) bp))
        = group_value 0 (take (Suc ?k) bp)"
    if "?k < length bp" "?k < 9 \<or> (?k = 9 \<and> hd bp = 0x81)"
  proof -
    have "length (take (Suc ?k) bp) = Suc ?k" using that(1) by simp
    moreover have "hd (take (Suc ?k) bp) = hd bp" by (cases bp) auto
    ultimately have "group_value 0 (take (Suc ?k) bp) < 2 ^ 64"
      using that(2) by (intro accepted_fits) auto
    then show ?thesis using unat_fold_groups [of 0] by simp
  qed
  then show ?thesis using le
    by (auto simp: sdnv_decode_def decode_loop_cases Let_def MAX_LENGTH_def)
qed

end
