(* ===== verification/Ordered_Map.thy ===== *)
theory Ordered_Map
  imports Prelude
begin

text \<open>
  \<open>std::map\<close> as the sources use it: an association list in strictly increasing key order,
  with the operations the daemon code calls (\<open>find\<close>, \<open>operator[]\<close> assignment,
  \<open>insert\<close>, \<open>erase\<close>, and iteration from \<open>lower_bound\<close>). The list is what an
  iterator walks; positions around \<open>lower_bound(k)\<close> are the two parts \<open>om_below\<close> and
  \<open>om_from\<close>, so that \<open>--iter\<close> is the last entry of the first and \<open>*iter\<close> the first
  entry of the second.
\<close>

type_synonym ('k, 'v) omap = "('k \<times> 'v) list"

section \<open>Operations\<close>

definition om_wf :: "('k::linorder, 'v) omap \<Rightarrow> bool" where
  "om_wf m = sorted_wrt (<) (map fst m)"

definition om_find :: "('k, 'v) omap \<Rightarrow> 'k \<Rightarrow> 'v option" where
  "om_find m k = map_of m k"

fun om_assign :: "'k::linorder \<Rightarrow> 'v \<Rightarrow> ('k, 'v) omap \<Rightarrow> ('k, 'v) omap" where
  "om_assign k v [] = [(k, v)]"
| "om_assign k v ((a, b) # m) =
     (if k < a then (k, v) # (a, b) # m
      else if k = a then (k, v) # m
      else (a, b) # om_assign k v m)"

definition om_insert :: "'k::linorder \<Rightarrow> 'v \<Rightarrow> ('k, 'v) omap \<Rightarrow> ('k, 'v) omap" where
  "om_insert k v m = (if om_find m k = None then om_assign k v m else m)"

definition om_erase :: "'k \<Rightarrow> ('k, 'v) omap \<Rightarrow> ('k, 'v) omap" where
  "om_erase k m = filter (\<lambda>e. fst e \<noteq> k) m"

text \<open>Mutation of the stored object through a pointer or iterator to the entry.\<close>

definition om_modify :: "'k \<Rightarrow> ('v \<Rightarrow> 'v) \<Rightarrow> ('k, 'v) omap \<Rightarrow> ('k, 'v) omap" where
  "om_modify k f m = map (\<lambda>(a, b). if a = k then (a, f b) else (a, b)) m"

definition om_below :: "'k::linorder \<Rightarrow> ('k, 'v) omap \<Rightarrow> ('k, 'v) omap" where
  "om_below k m = takeWhile (\<lambda>e. fst e < k) m"

definition om_from :: "'k::linorder \<Rightarrow> ('k, 'v) omap \<Rightarrow> ('k, 'v) omap" where
  "om_from k m = dropWhile (\<lambda>e. fst e < k) m"

section \<open>The contract of an ordered map\<close>

text \<open>
  What the daemon code relies on. The clients of a map reason from these laws only; the
  lemmas inside the locale are the ones they share.
\<close>

locale ordered_map =
  fixes wf :: "'m \<Rightarrow> bool"
    and find :: "'m \<Rightarrow> 'k::linorder \<Rightarrow> 'v option"
    and assign :: "'k \<Rightarrow> 'v \<Rightarrow> 'm \<Rightarrow> 'm"
    and ins :: "'k \<Rightarrow> 'v \<Rightarrow> 'm \<Rightarrow> 'm"
    and erase :: "'k \<Rightarrow> 'm \<Rightarrow> 'm"
  assumes find_assign: "find (assign k v m) = (find m)(k \<mapsto> v)"
    and find_ins: "find (ins k v m) = (if find m k = None then (find m)(k \<mapsto> v) else find m)"
    and find_erase: "find (erase k m) = (find m)(k := None)"
    and wf_assign: "wf m \<Longrightarrow> wf (assign k v m)"
    and wf_ins: "wf m \<Longrightarrow> wf (ins k v m)"
    and wf_erase: "wf m \<Longrightarrow> wf (erase k m)"
begin

lemma find_assign_same: "find (assign k v m) k = Some v"
  by (simp add: find_assign)

lemma find_assign_other: "j \<noteq> k \<Longrightarrow> find (assign k v m) j = find m j"
  by (simp add: find_assign)

lemma find_ins_present: "find m k = Some w \<Longrightarrow> find (ins k v m) = find m"
  by (simp add: find_ins)

lemma dom_assign: "dom (find (assign k v m)) = insert k (dom (find m))"
  by (simp add: find_assign)

lemma dom_erase: "dom (find (erase k m)) = dom (find m) - {k}"
  by (auto simp: find_erase)

lemma find_rekey:
  "j \<noteq> k \<Longrightarrow> find (ins k v (erase j m)) k = (if find m k = None then Some v else find m k)"
  by (auto simp: find_ins find_erase)

lemma wf_fold_assign: "wf m \<Longrightarrow> wf (fold (\<lambda>(k, v). assign k v) kvs m)"
  by (induction kvs arbitrary: m) (auto simp: wf_assign)

end

section \<open>The list implementation\<close>

lemma om_find_assign: "om_find (om_assign k v m) = (om_find m)(k \<mapsto> v)"
  by (induction k v m rule: om_assign.induct) (auto simp: om_find_def fun_eq_iff)

lemma om_find_erase: "om_find (om_erase k m) = (om_find m)(k := None)"
  by (induction m) (auto simp: om_find_def om_erase_def fun_eq_iff)

lemma om_keys_assign: "fst ` set (om_assign k v m) = insert k (fst ` set m)"
  by (induction k v m rule: om_assign.induct) auto

lemma om_wf_simps [simp]:
  "om_wf []"
  "om_wf ((k, v) # m) \<longleftrightarrow> (\<forall>j \<in> fst ` set m. k < j) \<and> om_wf m"
  by (auto simp: om_wf_def)

lemma om_wf_append:
  "om_wf (xs @ ys) \<longleftrightarrow> om_wf xs \<and> om_wf ys \<and> (\<forall>a \<in> fst ` set xs. \<forall>b \<in> fst ` set ys. a < b)"
  by (auto simp: om_wf_def sorted_wrt_append)

lemma om_wf_assign: "om_wf m \<Longrightarrow> om_wf (om_assign k v m)"
proof (induction k v m rule: om_assign.induct)
  case (2 k v a b m)
  then show ?case by (auto simp: om_keys_assign dest: order.strict_trans)
qed simp

lemma om_wf_erase: "om_wf m \<Longrightarrow> om_wf (om_erase k m)"
  by (induction m) (auto simp: om_erase_def)

interpretation om: ordered_map om_wf om_find om_assign om_insert om_erase
  by unfold_locales
    (auto simp: om_find_assign om_find_erase om_insert_def om_wf_assign om_wf_erase)

lemma om_split: "om_below k m @ om_from k m = m"
  by (simp add: om_below_def om_from_def)

lemma om_below_less: "e \<in> set (om_below k m) \<Longrightarrow> fst e < k"
  by (auto simp: om_below_def dest: set_takeWhileD)

lemma om_from_ge: "om_wf m \<Longrightarrow> e \<in> set (om_from k m) \<Longrightarrow> k \<le> fst e"
proof (induction m)
  case (Cons a m)
  then show ?case
    by (cases a) (fastforce simp: om_from_def split: if_splits)
qed (simp add: om_from_def)

lemma om_find_None_iff: "om_find m k = None \<longleftrightarrow> k \<notin> fst ` set m"
  by (simp add: om_find_def map_of_eq_None_iff)

lemma om_find_SomeD: "om_find m k = Some v \<Longrightarrow> (k, v) \<in> set m"
  by (simp add: om_find_def map_of_SomeD)

lemma om_find_mem: "om_wf m \<Longrightarrow> (k, v) \<in> set m \<Longrightarrow> om_find m k = Some v"
  by (induction m) (force simp: om_find_def)+

text \<open>Positional forms of the updates, when the key's place in the list is known.\<close>

lemma om_assign_append:
  "\<forall>e \<in> set xs. fst e < k \<Longrightarrow> om_assign k v (xs @ ys) = xs @ om_assign k v ys"
  by (induction xs) auto

lemma om_assign_front: "\<forall>e \<in> set ys. k < fst e \<Longrightarrow> om_assign k v ys = (k, v) # ys"
  by (cases ys) auto

lemma om_erase_id: "k \<notin> fst ` set m \<Longrightarrow> om_erase k m = m"
  by (induction m) (auto simp: om_erase_def)

lemma om_erase_mid:
  assumes "om_wf (xs @ (k, v) # ys)"
  shows "om_erase k (xs @ (k, v) # ys) = xs @ ys"
proof -
  have "k \<notin> fst ` set xs" "k \<notin> fst ` set ys" using assms by (auto simp: om_wf_append)
  then have "om_erase k xs = xs" "om_erase k ys = ys" by (simp_all add: om_erase_id)
  then show ?thesis by (simp add: om_erase_def)
qed

lemma om_modify_id: "k \<notin> fst ` set m \<Longrightarrow> om_modify k f m = m"
  by (induction m) (auto simp: om_modify_def)

lemma om_modify_append: "om_modify k f (xs @ ys) = om_modify k f xs @ om_modify k f ys"
  by (simp add: om_modify_def)

lemma om_modify_Cons:
  "om_modify k f ((a, b) # ys) = (if a = k then (a, f b) else (a, b)) # om_modify k f ys"
  by (simp add: om_modify_def)

lemma om_modify_mid:
  assumes "om_wf (xs @ (k, v) # ys)"
  shows "om_modify k f (xs @ (k, v) # ys) = xs @ (k, f v) # ys"
proof -
  have "k \<notin> fst ` set xs" "k \<notin> fst ` set ys" using assms by (auto simp: om_wf_append)
  then show ?thesis by (simp add: om_modify_append om_modify_Cons om_modify_id)
qed

lemma om_assign_mid:
  "om_wf (xs @ (k, v) # ys) \<Longrightarrow> om_assign k w (xs @ (k, v) # ys) = xs @ (k, w) # ys"
  by (subst om_assign_append) (auto simp: om_wf_append)

lemma om_find_mid: "om_wf (xs @ (k, v) # ys) \<Longrightarrow> om_find (xs @ (k, v) # ys) k = Some v"
  by (rule om_find_mem) auto

lemma om_assign_twice [simp]: "om_assign k w (om_assign k v m) = om_assign k w m"
  by (induction k v m rule: om_assign.induct) auto

lemma om_assign_fresh:
  "k \<notin> fst ` set m \<Longrightarrow> \<exists>xs ys. m = xs @ ys \<and> om_assign k v m = xs @ (k, v) # ys"
proof (induction k v m rule: om_assign.induct)
  case (2 k v a b m)
  show ?case
  proof (cases "k < a")
    case True
    then show ?thesis by (intro exI [of _ "[]"] exI [of _ "(a, b) # m"]) simp
  next
    case False
    then obtain xs ys where "m = xs @ ys" "om_assign k v m = xs @ (k, v) # ys" using 2 by auto
    then show ?thesis using False 2(2) by (intro exI [of _ "(a, b) # xs"] exI [of _ ys]) auto
  qed
qed simp

lemma om_set_assign: "k \<notin> fst ` set m \<Longrightarrow> set (om_assign k v m) = insert (k, v) (set m)"
  using om_assign_fresh [of k m v] by auto

end
