(* ===== verification/Naming.thy ===== *)
theory Naming
  imports Prelude
begin

text \<open>
  Endpoint identifiers: \<open>src/servlib/naming\<close> (EndpointID, the ipn, imc, dtn and wildcard
  schemes, the scheme table, the strings built by EndpointIDPool). A URI is the record of the
  parts that \<open>oasys::URI\<close> delivers; the glob matcher of \<open>oasys\<close> is an argument of the
  matching functions. The theory shows that node and service numbers survive printing and
  parsing, and what a wildcard pattern matches.
\<close>

section \<open>C library: decimal numbers\<close>

definition c_isspace :: "char \<Rightarrow> bool" where
  "c_isspace c = (c \<in> {CHR '' '', CHR 0x09, CHR 0x0a, CHR 0x0b, CHR 0x0c, CHR 0x0d})"

definition c_isdigit :: "char \<Rightarrow> bool" where
  "c_isdigit c = (48 \<le> (of_char c :: nat) \<and> (of_char c :: nat) \<le> 57)"

definition dec_value :: "string \<Rightarrow> nat" where
  "dec_value ds = foldl (\<lambda>a c. a * 10 + (of_char c - 48)) 0 ds"

text \<open>
  \<open>strtoull(s, &end, 10)\<close>: the value, saturated at \<open>ULLONG_MAX\<close>, negated modulo
  \<open>2^64\<close> after a minus sign, and the offset of \<open>end\<close> (0 when there are no digits).
\<close>

definition strtoull :: "string \<Rightarrow> u64 \<times> nat" where
  "strtoull s =
     (let ws = length (takeWhile c_isspace s); r = dropWhile c_isspace s;
          signed = (r \<noteq> [] \<and> (hd r = CHR ''-'' \<or> hd r = CHR ''+''));
          neg = (r \<noteq> [] \<and> hd r = CHR ''-'');
          ds = takeWhile c_isdigit (if signed then tl r else r)
      in if ds = [] then (0, 0)
         else ((if dec_value ds \<ge> 2 ^ 64 then -1
                else if neg then - of_nat (dec_value ds) else of_nat (dec_value ds)),
               ws + (if signed then 1 else 0) + length ds))"

text \<open>The decimal numeral that \<open>%zu\<close> and \<open>std::to_string\<close> print.\<close>

fun dec_string :: "nat \<Rightarrow> string" where
  "dec_string n = (if n < 10 then [] else dec_string (n div 10)) @ [char_of (48 + n mod 10)]"

declare dec_string.simps [simp del]

text \<open>\<open>std::string::find\<close> of one character; \<open>None\<close> is \<open>npos\<close>.\<close>

definition find_char :: "char \<Rightarrow> string \<Rightarrow> nat option" where
  "find_char c s = (let k = length (takeWhile (\<lambda>x. x \<noteq> c) s) in if k < length s then Some k else None)"

section \<open>Schemes, URIs and endpoint identifiers\<close>

datatype scheme = IPNScheme | IMCScheme | DTNScheme | WildcardScheme

record uri =
  uri_str :: string
  uri_valid :: bool
  uri_scheme :: string
  uri_ssp :: string
  uri_host :: string
  uri_path :: string
  uri_port_num :: nat

record endpoint_id =
  eid_uri :: uri
  eid_scheme :: "scheme option"
  eid_valid :: bool
  is_pattern :: bool
  is_null_eid :: bool
  is_node_wildcard :: bool
  is_service_wildcard :: bool
  node_num :: u64
  service_num :: u64

datatype eid_dest_type = SINGLETON | MULTINODE

definition scheme_lookup :: "string \<Rightarrow> scheme option" where
  "scheme_lookup s =
     (if s = ''dtn'' then Some DTNScheme
      else if s = ''ipn'' then Some IPNScheme
      else if s = ''imc'' then Some IMCScheme
      else if s = ''*'' then Some WildcardScheme
      else None)"

text \<open>
  The \<open>parse\<close> functions return success and the two numbers as they are left in \<open>*node\<close>
  and \<open>*service\<close>, which a failed parse may already have changed.
\<close>

definition imc_parse :: "string \<Rightarrow> u64 \<Rightarrow> u64 \<Rightarrow> bool \<times> u64 \<times> u64" where
  "imc_parse ssp node service =
     (case find_char (CHR ''.'') ssp of
        None \<Rightarrow> (False, node, service)
      | Some dot \<Rightarrow>
          if dot = 0 then (False, node, service)
          else let (node', end) = strtoull ssp in
            if end \<noteq> dot then (False, node', service)
            else let rest = drop (dot + 1) ssp; (service', end') = strtoull rest in
              if end' = 0 \<or> end' \<noteq> length rest then (False, node', service')
              else (True, node', service'))"

definition ipn_parse :: "string \<Rightarrow> u64 \<Rightarrow> u64 \<Rightarrow> bool \<times> u64 \<times> u64" where
  "ipn_parse ssp node service =
     (if ssp = ''none'' then (True, 0, 0) else imc_parse ssp node service)"

definition ipn_format :: "u64 \<Rightarrow> u64 \<Rightarrow> string" where
  "ipn_format node service = dec_string (unat node) @ ''.'' @ dec_string (unat service)"

text \<open>\<open>validate\<close> of each scheme: validity and the two wildcard flags.\<close>

definition cbhe_validate_pattern :: "string \<Rightarrow> bool \<times> bool \<times> bool" where
  "cbhe_validate_pattern ssp =
     (if ssp = ''*'' \<or> ssp = ''*.*'' then (True, True, True)
      else case find_char (CHR ''.'') ssp of
        None \<Rightarrow> (False, False, False)
      | Some dot \<Rightarrow>
          if dot = 0 then (False, False, False)
          else if snd (strtoull ssp) \<noteq> dot then (False, False, False)
          else let rest = drop (dot + 1) ssp in
            if rest = ''*'' then (True, False, True)
            else let e = snd (strtoull rest) in
              if e = 0 \<or> e \<noteq> length rest then (False, False, False)
              else (True, False, False))"

definition ipn_validate :: "uri \<Rightarrow> bool \<Rightarrow> bool \<times> bool \<times> bool" where
  "ipn_validate u pat =
     (if \<not> uri_valid u then (False, False, False)
      else if \<not> pat then (fst (ipn_parse (uri_ssp u) 0 0), False, False)
      else cbhe_validate_pattern (uri_ssp u))"

definition imc_validate :: "uri \<Rightarrow> bool \<Rightarrow> bool \<times> bool \<times> bool" where
  "imc_validate u pat =
     (if \<not> uri_valid u then (False, False, False)
      else if \<not> pat then (fst (imc_parse (uri_ssp u) 0 0), False, False)
      else cbhe_validate_pattern (uri_ssp u))"

definition dtn_validate :: "uri \<Rightarrow> bool \<Rightarrow> bool \<times> bool \<times> bool" where
  "dtn_validate u pat =
     (if \<not> uri_valid u then (False, False, False)
      else (uri_host u \<noteq> [] \<or> uri_ssp u = ''none'', False, False))"

definition wildcard_validate :: "uri \<Rightarrow> bool \<Rightarrow> bool \<times> bool \<times> bool" where
  "wildcard_validate u pat =
     (if \<not> pat \<or> uri_ssp u \<noteq> ''*'' then (False, False, False) else (True, True, True))"

fun scheme_validate :: "scheme \<Rightarrow> uri \<Rightarrow> bool \<Rightarrow> bool \<times> bool \<times> bool" where
  "scheme_validate IPNScheme u pat = ipn_validate u pat"
| "scheme_validate IMCScheme u pat = imc_validate u pat"
| "scheme_validate DTNScheme u pat = dtn_validate u pat"
| "scheme_validate WildcardScheme u pat = wildcard_validate u pat"

definition MAX_EID_PART_LENGTH :: nat where
  "MAX_EID_PART_LENGTH = 1023"

definition set_node_num :: "endpoint_id \<Rightarrow> endpoint_id" where
  "set_node_num e =
     (case eid_scheme e of
        Some IPNScheme \<Rightarrow>
          (let (_, n, s) = ipn_parse (uri_ssp (eid_uri e)) 0 0
           in e\<lparr>node_num := n, service_num := s, is_null_eid := False\<rparr>)
      | Some IMCScheme \<Rightarrow>
          (let (_, n, s) = imc_parse (uri_ssp (eid_uri e)) 0 0
           in e\<lparr>node_num := n, service_num := s, is_null_eid := False\<rparr>)
      | Some DTNScheme \<Rightarrow>
          e\<lparr>node_num := 0, service_num := 0, is_null_eid := (uri_ssp (eid_uri e) = ''none'')\<rparr>
      | _ \<Rightarrow> e\<lparr>node_num := 0, service_num := 0, is_null_eid := False\<rparr>)"

definition eid_blank :: "uri \<Rightarrow> bool \<Rightarrow> endpoint_id" where
  "eid_blank u pat =
     \<lparr>eid_uri = u, eid_scheme = None, eid_valid = False, is_pattern = pat, is_null_eid = False,
      is_node_wildcard = False, is_service_wildcard = False, node_num = 0, service_num = 0\<rparr>"

text \<open>\<open>EndpointID::validate\<close> on a freshly assigned URI.\<close>

definition eid_validate :: "uri \<Rightarrow> bool \<Rightarrow> endpoint_id" where
  "eid_validate u pat =
     (let e = eid_blank u pat in
      if \<not> uri_valid u then e
      else if length (uri_scheme u) > MAX_EID_PART_LENGTH then e
      else if length (uri_ssp u) > MAX_EID_PART_LENGTH then e
      else case scheme_lookup (uri_scheme u) of
        None \<Rightarrow> set_node_num (e\<lparr>eid_valid := True\<rparr>)
      | Some sch \<Rightarrow>
          let (v, nw, sw) = scheme_validate sch u pat in
          if v then set_node_num (e\<lparr>eid_scheme := Some sch, eid_valid := True,
                                     is_node_wildcard := nw, is_service_wildcard := sw\<rparr>)
          else e\<lparr>eid_scheme := Some sch\<rparr>)"

text \<open>The pool's \<open>dtn:none\<close>.\<close>

definition null_eid :: endpoint_id where
  "null_eid = eid_validate
     \<lparr>uri_str = ''dtn:none'', uri_valid = True, uri_scheme = ''dtn'', uri_ssp = ''none'',
      uri_host = [], uri_path = ''none'', uri_port_num = 0\<rparr> False"

text \<open>Endpoint ids are interned, so that equality of the shared pointers is equality of the URI.\<close>

definition same_eid :: "endpoint_id \<Rightarrow> endpoint_id \<Rightarrow> bool" where
  "same_eid a b = (uri_str (eid_uri a) = uri_str (eid_uri b))"

definition is_ipn_scheme :: "endpoint_id \<Rightarrow> bool" where
  "is_ipn_scheme e = (eid_scheme e = Some IPNScheme)"

definition is_imc_scheme :: "endpoint_id \<Rightarrow> bool" where
  "is_imc_scheme e = (eid_scheme e = Some IMCScheme)"

definition is_dtn_scheme :: "endpoint_id \<Rightarrow> bool" where
  "is_dtn_scheme e = (eid_scheme e = Some DTNScheme)"

definition is_cbhe_compat :: "endpoint_id \<Rightarrow> bool" where
  "is_cbhe_compat e = (is_ipn_scheme e \<or> is_imc_scheme e \<or> is_null_eid e)"

definition subsume_ipn :: "endpoint_id \<Rightarrow> endpoint_id \<Rightarrow> bool" where
  "subsume_ipn e other = (is_ipn_scheme e \<and> is_ipn_scheme other \<and> node_num e = node_num other)"

text \<open>\<open>match\<close> of each scheme; \<open>glob\<close> is \<open>oasys::Glob::fixed_glob\<close>.\<close>

definition cbhe_match :: "scheme \<Rightarrow> endpoint_id \<Rightarrow> endpoint_id \<Rightarrow> bool" where
  "cbhe_match this pat e =
     (if eid_scheme e \<noteq> Some this then False
      else if is_node_wildcard pat then True
      else if node_num pat \<noteq> node_num e then False
      else if is_service_wildcard pat then True
      else service_num pat = service_num e)"

definition dtn_match :: "(string \<Rightarrow> string \<Rightarrow> bool) \<Rightarrow> endpoint_id \<Rightarrow> endpoint_id \<Rightarrow> bool" where
  "dtn_match glob pat e =
     (let pu = eid_uri pat; eu = eid_uri e;
          ppath = (if length (uri_path pu) \<ge> 2 \<and> drop (length (uri_path pu) - 2) (uri_path pu) = ''/*''
                   then take (length (uri_path pu) - 2) (uri_path pu) @ ''*'' else uri_path pu)
      in if eid_scheme e \<noteq> Some DTNScheme then False
         else if uri_ssp pu = ''none'' \<or> uri_ssp eu = ''none'' then False
         else if uri_host pu = ''*'' \<and> uri_path pu = [] then True
         else if \<not> (glob (uri_host pu) (uri_host eu) \<or> glob (uri_host eu) (uri_host pu)) then False
         else if uri_port_num pu \<noteq> uri_port_num eu then False
         else glob ppath (uri_path eu) \<or> glob (uri_path eu) ppath)"

definition eid_match :: "(string \<Rightarrow> string \<Rightarrow> bool) \<Rightarrow> endpoint_id \<Rightarrow> endpoint_id \<Rightarrow> bool" where
  "eid_match glob pat e =
     (if \<not> eid_valid pat then False
      else if \<not> eid_valid e then False
      else case eid_scheme pat of
        Some IPNScheme \<Rightarrow> cbhe_match IPNScheme pat e
      | Some IMCScheme \<Rightarrow> cbhe_match IMCScheme pat e
      | Some DTNScheme \<Rightarrow> dtn_match glob pat e
      | Some WildcardScheme \<Rightarrow> True
      | None \<Rightarrow> if \<not> uri_valid (eid_uri e) then False
                else glob (uri_str (eid_uri pat)) (uri_str (eid_uri e)))"

definition match_ipn :: "endpoint_id \<Rightarrow> u64 \<Rightarrow> bool" where
  "match_ipn pat test_node_num =
     (eid_valid pat \<and> eid_scheme pat = Some IPNScheme
      \<and> (is_node_wildcard pat \<or> node_num pat = test_node_num))"

fun scheme_dest_type :: "scheme \<Rightarrow> uri \<Rightarrow> eid_dest_type" where
  "scheme_dest_type IPNScheme u = SINGLETON"
| "scheme_dest_type IMCScheme u = MULTINODE"
| "scheme_dest_type WildcardScheme u = MULTINODE"
| "scheme_dest_type DTNScheme u =
     (if take 2 (uri_path u) = ''/~'' then MULTINODE
      else if CHR ''*'' \<in> set (uri_host u) then MULTINODE
      else SINGLETON)"

definition unknown_eid_dest_type_default :: eid_dest_type where
  "unknown_eid_dest_type_default = MULTINODE"

definition eid_dest_type_of :: "endpoint_id \<Rightarrow> eid_dest_type" where
  "eid_dest_type_of e =
     (case eid_scheme e of None \<Rightarrow> unknown_eid_dest_type_default
      | Some sch \<Rightarrow> scheme_dest_type sch (eid_uri e))"

fun scheme_is_singleton :: "scheme \<Rightarrow> uri \<Rightarrow> bool" where
  "scheme_is_singleton IPNScheme u = True"
| "scheme_is_singleton IMCScheme u = False"
| "scheme_is_singleton WildcardScheme u = False"
| "scheme_is_singleton DTNScheme u =
     (if take 2 (uri_path u) = ''/~'' then False
      else if CHR ''*'' \<in> set (uri_host u) then False
      else True)"

definition eid_is_singleton :: "endpoint_id \<Rightarrow> bool" where
  "eid_is_singleton e =
     (case eid_scheme e of None \<Rightarrow> unknown_eid_dest_type_default = SINGLETON
      | Some sch \<Rightarrow> scheme_is_singleton sch (eid_uri e))"

text \<open>The specific parts that \<open>EndpointIDPool::make_eid_ipn\<close> and \<open>append_pattern_wild_ipn\<close>
  put behind the scheme.\<close>

definition make_eid_ipn_str :: "u64 \<Rightarrow> u64 \<Rightarrow> string" where
  "make_eid_ipn_str n s = ''ipn:'' @ dec_string (unat n) @ ''.'' @ dec_string (unat s)"

definition append_pattern_wild_ipn_str :: "u64 \<Rightarrow> string" where
  "append_pattern_wild_ipn_str n = ''ipn:'' @ dec_string (unat n) @ ''.*''"

section \<open>Decimal numerals\<close>

lemma digit_char: "d < 10 \<Longrightarrow> (of_char (char_of (48 + d) :: char) :: nat) = 48 + d"
  by (simp add: of_char_of)

lemma dec_string_nonempty [simp]: "dec_string n \<noteq> []"
  by (subst dec_string.simps) simp

lemma dec_string_digits: "\<forall>c \<in> set (dec_string n). c_isdigit c"
proof (induction n rule: dec_string.induct)
  case (1 n)
  have "c_isdigit (char_of (48 + n mod 10))"
    by (simp add: c_isdigit_def digit_char)
  with "1" show ?case by (subst dec_string.simps) auto
qed

lemma dec_value_snoc: "dec_value (ds @ [c]) = dec_value ds * 10 + (of_char c - 48)"
  by (simp add: dec_value_def)

lemma dec_value_string: "dec_value (dec_string n) = n"
proof (induction n rule: dec_string.induct)
  case (1 n)
  show ?case
  proof (cases "n < 10")
    case True
    then show ?thesis by (subst dec_string.simps) (simp add: dec_value_def digit_char)
  next
    case False
    then show ?thesis using "1"
      by (subst dec_string.simps) (simp add: dec_value_snoc digit_char)
  qed
qed

lemma digit_not_special:
  assumes "c_isdigit c"
  shows "\<not> c_isspace c" "c \<noteq> CHR ''-''" "c \<noteq> CHR ''+''" "c \<noteq> CHR ''.''" "c \<noteq> CHR ''*''"
  using assms by (auto simp: c_isdigit_def c_isspace_def)

lemma strtoull_dec_string:
  assumes "n < 2 ^ 64" and "rest = [] \<or> \<not> c_isdigit (hd rest)"
  shows "strtoull (dec_string n @ rest) = (of_nat n, length (dec_string n))"
proof -
  obtain c cs where d: "dec_string n = c # cs" by (cases "dec_string n") auto
  have digs: "\<forall>x \<in> set (dec_string n). c_isdigit x" by (rule dec_string_digits)
  then have c: "c_isdigit c" by (simp add: d)
  have ws: "takeWhile c_isspace (dec_string n @ rest) = []"
    and r: "dropWhile c_isspace (dec_string n @ rest) = dec_string n @ rest"
    using digit_not_special(1) [OF c] by (simp_all add: d)
  have h: "hd (dec_string n @ rest) = c" by (simp add: d)
  have t: "takeWhile c_isdigit (dec_string n @ rest) = dec_string n"
    using digs assms(2) by (cases rest) (auto simp: takeWhile_append takeWhile_eq_all_conv)
  show ?thesis
    using assms(1) digit_not_special(2,3) [OF c]
    by (simp add: strtoull_def ws r h t Let_def dec_value_string)
qed

lemma strtoull_dec_string_end:
  "n < 2 ^ 64 \<Longrightarrow> strtoull (dec_string n) = (of_nat n, length (dec_string n))"
  using strtoull_dec_string [of n "[]"] by simp

lemma find_dot: "find_char (CHR ''.'') (dec_string n @ CHR ''.'' # rest) = Some (length (dec_string n))"
proof -
  have "\<forall>x \<in> set (dec_string n). x \<noteq> CHR ''.''"
    using dec_string_digits [of n] digit_not_special(4) by blast
  then have "takeWhile (\<lambda>x. x \<noteq> CHR ''.'') (dec_string n @ CHR ''.'' # rest) = dec_string n"
    by (subst takeWhile_append2) auto
  then show ?thesis by (simp add: find_char_def)
qed

lemma dec_string_not_none: "dec_string n @ CHR ''.'' # rest \<noteq> ''none''"
proof -
  obtain c cs where d: "dec_string n = c # cs" by (cases "dec_string n") auto
  then have "c_isdigit c" using dec_string_digits [of n] by simp
  then have "c \<noteq> CHR ''n''" by (auto simp: c_isdigit_def)
  then show ?thesis by (simp add: d)
qed

lemma dec_string_head_not_star: "hd (dec_string n) \<noteq> CHR ''*''"
proof -
  have "hd (dec_string n) \<in> set (dec_string n)" by simp
  then show ?thesis using dec_string_digits [of n] digit_not_special(5) by blast
qed

lemmas dec_facts = strtoull_dec_string strtoull_dec_string_end find_dot dec_string_not_none

section \<open>Endpoint identifiers built from numbers\<close>

lemma length_dec_string: "n < 10 ^ Suc k \<Longrightarrow> length (dec_string n) \<le> Suc k"
proof (induction k arbitrary: n)
  case 0
  then show ?case by (subst dec_string.simps) simp
next
  case (Suc k)
  then have "n div 10 < 10 ^ Suc k" by (simp add: div_less_iff_less_mult)
  then have "length (dec_string (n div 10)) \<le> Suc k" by (rule Suc.IH)
  then show ?case by (subst dec_string.simps) simp
qed

lemma length_dec_string_u64: "length (dec_string (unat (n :: u64))) \<le> 20"
proof -
  have "unat n < 2 ^ 64" by (rule unat_lt_u64)
  also have "(2::nat) ^ 64 \<le> 10 ^ Suc 19" by simp
  finally show ?thesis using length_dec_string [of "unat n" 19] by simp
qed

lemma strtoull_node: "strtoull (dec_string (unat (n :: u64)) @ CHR ''.'' # rest) = (n, length (dec_string (unat n)))"
  using strtoull_dec_string [OF unat_lt_u64, of "CHR ''.'' # rest" n] by (simp add: c_isdigit_def)

lemma strtoull_service: "strtoull (dec_string (unat (s :: u64))) = (s, length (dec_string (unat s)))"
  using strtoull_dec_string_end [OF unat_lt_u64, of s] by simp

lemma ipn_parse_format: "ipn_parse (ipn_format n s) n0 s0 = (True, n, s)"
  by (simp add: ipn_parse_def imc_parse_def ipn_format_def find_dot dec_string_not_none
      strtoull_node strtoull_service Let_def)

text \<open>A service wildcard is no number: the parse fails after the node was stored.\<close>

lemma ipn_parse_wild: "ipn_parse (dec_string (unat n) @ ''.*'') n0 s0 = (False, n, 0)"
proof -
  have "strtoull ''*'' = (0, 0)" by (simp add: strtoull_def c_isspace_def c_isdigit_def)
  then show ?thesis
    by (simp add: ipn_parse_def imc_parse_def find_dot dec_string_not_none strtoull_node Let_def)
qed

lemma ipn_validate_wild:
  assumes "uri_valid u" and "uri_ssp u = dec_string (unat (n :: u64)) @ ''.*''"
  shows "ipn_validate u True = (True, False, True)"
proof -
  have "hd (uri_ssp u) \<noteq> CHR ''*''"
    using dec_string_head_not_star [of "unat n"] by (simp add: assms(2) hd_append)
  then have "uri_ssp u \<noteq> ''*''" "uri_ssp u \<noteq> ''*.*''" by auto
  then show ?thesis
    using assms by (simp add: ipn_validate_def cbhe_validate_pattern_def find_dot strtoull_node)
qed

lemma eid_validate_ipn:
  assumes "uri_valid u" and "uri_scheme u = ''ipn''" and "uri_ssp u = ipn_format n s"
  shows "eid_validate u False =
     (eid_blank u False)\<lparr>eid_scheme := Some IPNScheme, eid_valid := True, node_num := n, service_num := s\<rparr>"
proof -
  have "length (uri_ssp u) \<le> MAX_EID_PART_LENGTH"
    using length_dec_string_u64 [of n] length_dec_string_u64 [of s] assms(3)
    by (simp add: MAX_EID_PART_LENGTH_def ipn_format_def)
  then show ?thesis using assms
    by (simp add: eid_validate_def Let_def scheme_lookup_def ipn_validate_def set_node_num_def
        ipn_parse_format eid_blank_def MAX_EID_PART_LENGTH_def)
qed

lemma eid_validate_ipn_wild:
  assumes "uri_valid u" and "uri_scheme u = ''ipn''" and "uri_ssp u = dec_string (unat n) @ ''.*''"
  shows "eid_validate u True =
     (eid_blank u True)\<lparr>eid_scheme := Some IPNScheme, eid_valid := True,
        is_service_wildcard := True, node_num := n, service_num := 0\<rparr>"
proof -
  have "length (uri_ssp u) \<le> MAX_EID_PART_LENGTH"
    using length_dec_string_u64 [of n] assms(3) by (simp add: MAX_EID_PART_LENGTH_def)
  then show ?thesis using assms ipn_validate_wild [OF assms(1,3)]
    by (simp add: eid_validate_def Let_def scheme_lookup_def set_node_num_def
        ipn_parse_wild eid_blank_def MAX_EID_PART_LENGTH_def)
qed

lemma is_singleton_dest_type: "eid_is_singleton e \<longleftrightarrow> eid_dest_type_of e = SINGLETON"
proof (cases "eid_scheme e")
  case (Some sch)
  then show ?thesis by (cases sch) (simp_all add: eid_is_singleton_def eid_dest_type_of_def)
qed (simp add: eid_is_singleton_def eid_dest_type_of_def)

section \<open>Properties\<close>

text \<open>
  Parsing what \<open>IPNScheme::format\<close> prints gives back the node and service numbers, over the
  whole 64-bit range and whatever the two variables held before.
\<close>

theorem ipn_format_parse: "ipn_parse (ipn_format n s) n0 s0 = (True, n, s)"
  by (rule ipn_parse_format)

text \<open>
  The pattern that \<open>EndpointIDPool::append_pattern_wild_ipn\<close> builds for a node is valid and
  matches exactly the valid endpoint identifiers of the ipn scheme with that node number, whatever
  their service number and whatever the glob matcher does.
\<close>

theorem wild_ipn_pattern_match:
  assumes "uri_valid u" and "uri_scheme u = ''ipn''"
    and "append_pattern_wild_ipn_str n = ''ipn:'' @ uri_ssp u"
  shows "eid_valid (eid_validate u True)
    \<and> (eid_match glob (eid_validate u True) e \<longleftrightarrow>
         eid_valid e \<and> is_ipn_scheme e \<and> node_num e = n)"
proof -
  have ssp: "uri_ssp u = dec_string (unat n) @ ''.*''"
    using assms(3) by (simp add: append_pattern_wild_ipn_str_def)
  show ?thesis
    unfolding eid_validate_ipn_wild [OF assms(1,2) ssp]
    by (auto simp: eid_match_def cbhe_match_def is_ipn_scheme_def eid_blank_def)
qed

theorem wild_ipn_pattern_match_witness:
  "let u = \<lparr>uri_str = ''ipn:12.*'', uri_valid = True, uri_scheme = ''ipn'', uri_ssp = ''12.*'',
            uri_host = [], uri_path = [], uri_port_num = 0\<rparr>;
       v = u\<lparr>uri_str := ''ipn:12.7'', uri_ssp := ''12.7''\<rparr>
   in eid_valid (eid_validate u True)
      \<and> (eid_match (=) (eid_validate u True) (eid_validate v False) \<longleftrightarrow>
           eid_valid (eid_validate v False) \<and> is_ipn_scheme (eid_validate v False)
           \<and> node_num (eid_validate v False) = 12)"
proof -
  let ?u = "\<lparr>uri_str = ''ipn:12.*'', uri_valid = True, uri_scheme = ''ipn'', uri_ssp = ''12.*'',
            uri_host = [], uri_path = [], uri_port_num = 0\<rparr>"
  have h: "append_pattern_wild_ipn_str 12 = ''ipn:'' @ uri_ssp ?u"
    by (simp add: append_pattern_wild_ipn_str_def dec_string.simps char_of_def bit_0)
  show ?thesis
    unfolding Let_def
    by (rule wild_ipn_pattern_match [OF _ _ h]) simp_all
qed

text \<open>\<open>strtoull\<close> takes a sign and saturates, so the scheme accepts numbers that no node has.\<close>

lemma ipn_parse_negative_accepted: "ipn_parse ''-1.1'' 0 0 = (True, -1, 1)"
  by (simp add: ipn_parse_def imc_parse_def find_char_def strtoull_def c_isspace_def c_isdigit_def
      dec_value_def)

end
