(* ===== verification/Pending_Acs.thy ===== *)
theory Pending_Acs
  imports SDNV Ordered_Map Naming
begin

text \<open>
  The pending aggregate custody signal: \<open>AcsEntry\<close> and \<open>PendingAcs\<close> of
  \<open>src/servlib/bundling/AggregateCustodySignal.h\<close>, and the two halves of adding a custody id
  to one in \<open>src/servlib/bundling/BundleDaemonACS.cc\<close>: \<open>determine_acs_changes\<close> decides
  what to do and what it costs, \<open>apply_acs_changes\<close> does it. The theory shows that a map of
  fill entries stays a minimal, ordered description of the set of custody ids, that the payload
  length and the id count stay exact, and that the assertions of the code never fire.
\<close>

section \<open>Data\<close>

record acs_entry =
  left_edge :: u64
  diff_to_prev_right_edge :: u64
  length_of_fill :: u64
  sdnv_length :: int

type_synonym acs_map = "(u64, acs_entry) omap"

record pending_acs =
  key :: string
  pacs_id :: u32
  custody_eid :: endpoint_id
  succeeded :: bool
  reason :: u32
  acs_payload_length :: u32
  num_custody_ids :: u32
  acs_entry_map :: acs_map
  acs_expiration_timer :: "(string \<times> u32) option"
  in_datastore :: bool
  queued_for_datastore :: bool
  params_revision :: u32
  acs_delay :: u32
  acs_size :: u32
  bp_version :: int

datatype ae_operation =
    AE_OP_NOOP
  | AE_OP_INSERT_FIRST_ENTRY
  | AE_OP_INSERT_ENTRY
  | AE_OP_INSERT_ENTRY_AT_END
  | AE_OP_EXTEND_ENTRY
  | AE_OP_PREPEND_ENTRY

text \<open>
  What \<open>determine_acs_changes\<close> hands to \<open>apply_acs_changes\<close> through its reference
  parameters. The pointers \<open>entry\<close> and \<open>next_entry\<close> are the keys of the entries they
  point to.
\<close>

record acs_change =
  ae_op :: ae_operation
  chg_entry :: "u64 option"
  chg_next :: "u64 option"
  new_entry_size :: int
  new_next_size :: int
  new_entry_diff :: u64
  new_next_diff :: u64
  delta :: int

definition no_change :: acs_change where
  "no_change = \<lparr>ae_op = AE_OP_NOOP, chg_entry = None, chg_next = None, new_entry_size = 0,
     new_next_size = 0, new_entry_diff = 0, new_next_diff = 0, delta = 0\<rparr>"

section \<open>Operations\<close>

abbreviation enc_len :: "u64 \<Rightarrow> int" where
  "enc_len v \<equiv> int (sdnv_encoding_len v)"

definition add_acs_entry :: "acs_map \<Rightarrow> u64 \<Rightarrow> u64 \<Rightarrow> u64 \<Rightarrow> int \<Rightarrow> acs_map" where
  "add_acs_entry aemap left fill_len diff slen =
     om_insert left \<lparr>left_edge = left, diff_to_prev_right_edge = diff, length_of_fill = fill_len,
                     sdnv_length = slen\<rparr> aemap"

text \<open>The branch of \<open>determine_acs_changes\<close> where no entry starts at or after the id.\<close>

definition determine_past_end :: "acs_map \<Rightarrow> u64 \<Rightarrow> acs_change" where
  "determine_past_end m custody_id =
     (if m \<noteq> [] then
        let (k, entry) = last m in
        if custody_id = left_edge entry + length_of_fill entry then
          let tlen = length_of_fill entry + 1;
              size' = enc_len (diff_to_prev_right_edge entry) + enc_len tlen
          in no_change\<lparr>ae_op := AE_OP_EXTEND_ENTRY, chg_entry := Some k, new_entry_size := size',
                       delta := size' - sdnv_length entry\<rparr>
        else
          let diff' = custody_id - (left_edge entry + (length_of_fill entry - 1));
              size' = enc_len diff' + 1
          in no_change\<lparr>ae_op := AE_OP_INSERT_ENTRY_AT_END, chg_entry := Some k,
                       new_entry_size := size', new_entry_diff := diff', delta := size'\<rparr>
      else
        let size' = enc_len custody_id + 1
        in no_change\<lparr>ae_op := AE_OP_INSERT_FIRST_ENTRY, new_entry_size := size',
                     new_entry_diff := custody_id, delta := size'\<rparr>)"

text \<open>
  The id lies one below the found entry and closes the gap to its predecessor: the two entries
  are merged at once (the operation that is left to do is none). A missing predecessor and the
  two assertions of the source are the \<open>None\<close> results.
\<close>

definition determine_fill_gap :: "pending_acs \<Rightarrow> u64 \<Rightarrow> (pending_acs \<times> acs_change) option" where
  "determine_fill_gap p custody_id =
     (let m = acs_entry_map p; lo = om_below custody_id m; (k, entry) = hd (om_from custody_id m) in
      if lo = [] then None
      else
        let (pk, prev) = last lo;
            old_size = sdnv_length entry + sdnv_length prev;
            fill' = length_of_fill prev + (length_of_fill entry + 1);
            size' = enc_len (diff_to_prev_right_edge prev) + enc_len fill'
        in if custody_id \<noteq> left_edge prev + length_of_fill prev then None
           else if size' > old_size then None
           else Some (p\<lparr>acs_entry_map := om_erase k (om_modify pk
                          (\<lambda>e. e\<lparr>length_of_fill := fill', sdnv_length := size'\<rparr>) m),
                        num_custody_ids := num_custody_ids p + 1,
                        acs_payload_length := acs_payload_length p + of_int (size' - old_size)\<rparr>,
                      no_change))"

definition determine_acs_changes :: "pending_acs \<Rightarrow> u64 \<Rightarrow> (pending_acs \<times> acs_change) option" where
  "determine_acs_changes p custody_id =
     (let m = acs_entry_map p in
      case om_from custody_id m of
        [] \<Rightarrow> Some (p, determine_past_end m custody_id)
      | (k, entry) # _ \<Rightarrow>
          if custody_id = left_edge entry then Some (p, no_change)
          else if custody_id = left_edge entry - 1 then
            if diff_to_prev_right_edge entry = 2 \<and> left_edge entry \<noteq> 2
            then determine_fill_gap p custody_id
            else
              let tlen = length_of_fill entry + 1;
                  diff' = diff_to_prev_right_edge entry - 1;
                  size' = enc_len diff' + enc_len tlen
              in Some (p, no_change\<lparr>ae_op := AE_OP_PREPEND_ENTRY, chg_entry := Some k,
                            new_entry_size := size', new_entry_diff := diff',
                            delta := size' - sdnv_length entry\<rparr>)
          else if custody_id > 1
                  \<and> custody_id = left_edge entry - diff_to_prev_right_edge entry + 1 then
            let lo = om_below custody_id m in
            if lo = [] then None
            else
              let (pk, prev) = last lo;
                  old_size = sdnv_length prev + sdnv_length entry;
                  tlen = length_of_fill prev + 1;
                  ediff = diff_to_prev_right_edge prev;
                  size' = enc_len ediff + enc_len tlen;
                  ndiff = diff_to_prev_right_edge entry - 1;
                  nsize = enc_len ndiff + enc_len (length_of_fill entry)
              in if left_edge prev + length_of_fill prev \<noteq> custody_id then None
                 else Some (p, no_change\<lparr>ae_op := AE_OP_EXTEND_ENTRY, chg_entry := Some pk,
                              chg_next := Some k, new_entry_size := size', new_next_size := nsize,
                              new_entry_diff := ediff, new_next_diff := ndiff,
                              delta := size' + nsize - old_size\<rparr>)
          else
            let ediff = diff_to_prev_right_edge entry - (left_edge entry - custody_id);
                size' = enc_len ediff + 1;
                ndiff = left_edge entry - custody_id;
                nsize = enc_len ndiff + enc_len (length_of_fill entry)
            in Some (p, no_change\<lparr>ae_op := AE_OP_INSERT_ENTRY, chg_entry := Some k,
                          chg_next := Some k, new_entry_size := size', new_next_size := nsize,
                          new_entry_diff := ediff, new_next_diff := ndiff,
                          delta := size' + nsize - sdnv_length entry\<rparr>))"

text \<open>
  \<open>apply_acs_changes\<close>: the new pending ACS, with the timer it started if it opened a new
  one (delay in milliseconds). \<open>None\<close> is the assertion that an empty payload has no entries.
\<close>

definition update_next :: "acs_change \<Rightarrow> acs_map \<Rightarrow> acs_map" where
  "update_next chg m =
     (case chg_next chg of None \<Rightarrow> m
      | Some nk \<Rightarrow> om_modify nk (\<lambda>e. e\<lparr>diff_to_prev_right_edge := new_next_diff chg,
                                        sdnv_length := new_next_size chg\<rparr>) m)"

definition apply_acs_changes ::
    "pending_acs \<Rightarrow> acs_change \<Rightarrow> u64 \<Rightarrow> (pending_acs \<times> u32 option) option" where
  "apply_acs_changes p chg custody_id =
     (if ae_op chg = AE_OP_NOOP then Some (p, None)
      else if acs_payload_length p = 0 then
        if acs_entry_map p \<noteq> [] then None
        else
          let size' = enc_len custody_id + 1 in
          Some (p\<lparr>acs_entry_map := add_acs_entry (acs_entry_map p) custody_id 1 custody_id size',
                  acs_payload_length := of_int size', num_custody_ids := 1,
                  acs_expiration_timer := Some (key p, pacs_id p)\<rparr>,
                Some (acs_delay p * 1000))
      else
        let p1 = p\<lparr>num_custody_ids := num_custody_ids p + 1,
                   acs_payload_length := acs_payload_length p + of_int (delta chg)\<rparr>;
            m = acs_entry_map p
        in case ae_op chg of
             AE_OP_EXTEND_ENTRY \<Rightarrow>
               (case chg_entry chg of None \<Rightarrow> None
                | Some k \<Rightarrow> Some (p1\<lparr>acs_entry_map := update_next chg (om_modify k
                    (\<lambda>e. e\<lparr>length_of_fill := length_of_fill e + 1,
                           sdnv_length := new_entry_size chg\<rparr>) m)\<rparr>, None))
           | AE_OP_PREPEND_ENTRY \<Rightarrow>
               (case chg_entry chg of None \<Rightarrow> None
                | Some k \<Rightarrow>
                    (case om_find m k of None \<Rightarrow> None
                     | Some e \<Rightarrow> Some (p1\<lparr>acs_entry_map := om_insert custody_id
                         (e\<lparr>left_edge := custody_id, length_of_fill := length_of_fill e + 1,
                            sdnv_length := new_entry_size chg,
                            diff_to_prev_right_edge := new_entry_diff chg\<rparr>) (om_erase k m)\<rparr>, None)))
           | AE_OP_NOOP \<Rightarrow> Some (p, None)
           | _ \<Rightarrow> Some (p1\<lparr>acs_entry_map := update_next chg
                   (add_acs_entry m custody_id 1 (new_entry_diff chg) (new_entry_size chg))\<rparr>, None))"

section \<open>The invariant of the entry map\<close>

text \<open>
  \<open>acs_chain r lo m\<close>: the entries of \<open>m\<close> describe non-empty fills of custody ids that
  start at \<open>lo\<close> or later and leave at least one id free between each other; each stores the
  distance to the right edge before it (\<open>r\<close> for the first) and the SDNV length of its two
  numbers.
\<close>

definition fill_end :: "u64 \<times> acs_entry \<Rightarrow> nat" where
  "fill_end x = unat (fst x) + unat (length_of_fill (snd x))"

definition entry_ok :: "nat \<Rightarrow> nat \<Rightarrow> u64 \<Rightarrow> acs_entry \<Rightarrow> bool" where
  "entry_ok r lo k e \<longleftrightarrow>
     k = left_edge e \<and> lo \<le> unat k \<and> r < unat k \<and> 0 < unat (length_of_fill e)
     \<and> fill_end (k, e) \<le> 2 ^ 64 \<and> unat (diff_to_prev_right_edge e) = unat k - r
     \<and> sdnv_length e = enc_len (diff_to_prev_right_edge e) + enc_len (length_of_fill e)"

fun acs_chain :: "nat \<Rightarrow> nat \<Rightarrow> acs_map \<Rightarrow> bool" where
  "acs_chain r lo [] = True"
| "acs_chain r lo ((k, e) # m) =
     (entry_ok r lo k e \<and> acs_chain (fill_end (k, e) - 1) (fill_end (k, e) + 1) m)"

definition fill_ids :: "u64 \<times> acs_entry \<Rightarrow> nat set" where
  "fill_ids x = {unat (fst x) ..< fill_end x}"

definition acs_ids :: "acs_map \<Rightarrow> nat set" where
  "acs_ids m = (\<Union>x \<in> set m. fill_ids x)"

definition acs_bytes :: "acs_map \<Rightarrow> int" where
  "acs_bytes m = (\<Sum>x \<leftarrow> m. sdnv_length (snd x))"

definition right_edge :: "nat \<Rightarrow> acs_map \<Rightarrow> nat" where
  "right_edge r m =
     (if m = [] then r else fill_end (last m) - 1)"

definition next_free :: "nat \<Rightarrow> acs_map \<Rightarrow> nat" where
  "next_free lo m =
     (if m = [] then lo else fill_end (last m) + 1)"

lemma entry_okD:
  assumes "entry_ok r lo k e"
  shows "left_edge e = k" "lo \<le> unat k" "r < unat k" "0 < unat (length_of_fill e)"
    "fill_end (k, e) \<le> 2 ^ 64" "unat (diff_to_prev_right_edge e) = unat k - r"
    "sdnv_length e = enc_len (diff_to_prev_right_edge e) + enc_len (length_of_fill e)"
  using assms by (auto simp: entry_ok_def)

lemma acs_chain_append:
  "acs_chain r lo (xs @ ys) \<longleftrightarrow> acs_chain r lo xs \<and> acs_chain (right_edge r xs) (next_free lo xs) ys"
  by (induction r lo xs rule: acs_chain.induct) (auto simp: right_edge_def next_free_def)

lemma right_edge_snoc [simp]:
  "right_edge r (xs @ [x]) = fill_end x - 1"
  "next_free lo (xs @ [x]) = fill_end x + 1"
  "right_edge r [] = r"
  "next_free lo [] = lo"
  by (simp_all add: right_edge_def next_free_def)

lemma acs_ids_simps [simp]:
  "acs_ids [] = {}"
  "acs_ids (x # m) = fill_ids x \<union> acs_ids m"
  "acs_ids (m @ n) = acs_ids m \<union> acs_ids n"
  by (auto simp: acs_ids_def)

lemma acs_bytes_simps [simp]:
  "acs_bytes [] = 0"
  "acs_bytes (x # m) = sdnv_length (snd x) + acs_bytes m"
  "acs_bytes (m @ n) = acs_bytes m + acs_bytes n"
  by (auto simp: acs_bytes_def)

lemma acs_chain_lower: "acs_chain r lo m \<Longrightarrow> x \<in> set m \<Longrightarrow> lo \<le> unat (fst x)"
proof (induction r lo m rule: acs_chain.induct)
  case (2 r lo k e m)
  then have ok: "entry_ok r lo k e" by simp
  then have "lo \<le> unat k" "unat k \<le> fill_end (k, e)" by (auto dest: entry_okD simp: fill_end_def)
  then show ?case using "2" by (cases "x = (k, e)") auto
qed simp

lemma acs_chain_om_wf: "acs_chain r lo m \<Longrightarrow> om_wf m"
proof (induction r lo m rule: acs_chain.induct)
  case (2 r lo k e m)
  have "k < fst x" if "x \<in> set m" for x
    using acs_chain_lower [OF _ that, of "fill_end (k, e) - 1" "fill_end (k, e) + 1"] "2.prems"
    by (auto simp: word_less_nat_alt fill_end_def)
  with "2" show ?case by auto
qed simp

lemma acs_chain_weaken: "acs_chain r lo m \<Longrightarrow> lo' \<le> lo \<Longrightarrow> acs_chain r lo' m"
  by (cases m) (auto simp: entry_ok_def)

lemma acs_bytes_pos: "acs_chain r lo m \<Longrightarrow> m \<noteq> [] \<Longrightarrow> 0 < acs_bytes m"
proof (induction r lo m rule: acs_chain.induct)
  case (2 r lo k e m)
  have "0 < enc_len (diff_to_prev_right_edge e) + enc_len (length_of_fill e)"
    by (simp add: add_pos_pos)
  then show ?case using "2" by (cases "m = []") (auto simp: entry_ok_def)
qed simp

lemma acs_chain_mid:
  "acs_chain r lo (xs @ (k, e) # ys) \<longleftrightarrow>
     acs_chain r lo xs \<and> entry_ok (right_edge r xs) (next_free lo xs) k e
     \<and> acs_chain (fill_end (k, e) - 1) (fill_end (k, e) + 1) ys"
  by (simp add: acs_chain_append)

lemma finite_acs_ids [simp]: "finite (acs_ids m)"
  by (simp add: acs_ids_def fill_ids_def)

lemma sdnv_val_len_mono: "unat a \<le> unat b \<Longrightarrow> sdnv_val_len a \<le> sdnv_val_len b"
proof -
  assume le: "unat a \<le> unat b"
  obtain k where k: "sdnv_val_len b = Suc k" using sdnv_val_len_pos [of b] by (cases "sdnv_val_len b") auto
  then have "unat b < 2 ^ (7 * Suc k)" using sdnv_val_len_le_iff [of b k] by simp
  with le have "unat a < 2 ^ (7 * Suc k)" by simp
  then show ?thesis using sdnv_val_len_le_iff [of a k] k by simp
qed

section \<open>The steps on the entry list\<close>

lemma unat_ge_one: "0 < unat (x :: u64) \<longleftrightarrow> x \<noteq> 0"
  by (simp add: unat_gt_0)

lemma after_fill_iff:
  "unat k + unat n \<le> 2 ^ 64 \<Longrightarrow> c \<noteq> 0 \<Longrightarrow> c = k + n \<longleftrightarrow> unat (c :: u64) = unat k + unat n"
  using unat_lt_u64 [of c]
  by (cases "unat k + unat n = 2 ^ 64") (auto simp: word_unat_eq_iff unat_word_ariths)

lemma before_iff:
  assumes "k \<noteq> 0"
  shows "c = k - 1 \<longleftrightarrow> unat (c :: u64) + 1 = unat k"
proof -
  have "0 < unat k" using assms by (simp add: unat_gt_0)
  then show ?thesis using assms by (auto simp: word_unat_eq_iff unat_pred)
qed

lemma after_prev_iff:
  assumes "r < unat k" and "unat d = unat k - r"
  shows "c = k - d + 1 \<longleftrightarrow> unat (c :: u64) = r + 1"
proof -
  have "d \<le> k" using assms by (simp add: word_le_nat_alt)
  then have "unat (k - d) = r" using assms by (simp add: unat_sub)
  moreover have "r + 1 < 2 ^ 64" using assms(1) unat_lt_u64 [of k] by linarith
  ultimately show ?thesis by (auto simp: word_unat_eq_iff unat_word_ariths)
qed

lemma unat_plus_one: "unat (n :: u64) + 1 < 2 ^ 64 \<Longrightarrow> unat (n + 1) = unat n + 1"
  by (simp add: unat_word_ariths)

text \<open>Appending an id right behind a fill, in the middle of the list or at its end.\<close>

lemma extend_step:
  assumes chain: "acs_chain r lo (xs @ (k, e) # ys)" and c: "unat (c :: u64) = fill_end (k, e)"
    and e': "left_edge e' = left_edge e" "diff_to_prev_right_edge e' = diff_to_prev_right_edge e"
      "length_of_fill e' = length_of_fill e + 1"
      "sdnv_length e' = enc_len (diff_to_prev_right_edge e) + enc_len (length_of_fill e + 1)"
    and ys: "acs_chain (unat c) (unat c + 2) ys'"
  shows "acs_chain r lo (xs @ (k, e') # ys')"
    and "fill_ids (k, e') = insert (unat c) (fill_ids (k, e))"
proof -
  have ok: "entry_ok (right_edge r xs) (next_free lo xs) k e" using chain by (simp add: acs_chain_mid)
  then have k: "0 < unat k" by (auto dest: entry_okD(3))
  have bound: "fill_end (k, e) < 2 ^ 64" using c unat_lt_u64 [of c] by simp
  then have "unat (length_of_fill e) + 1 < 2 ^ 64" using k by (simp add: fill_end_def)
  then have n: "unat (length_of_fill e + 1) = unat (length_of_fill e) + 1" by (rule unat_plus_one)
  then have fe: "fill_end (k, e') = unat c + 1" using c by (simp add: fill_end_def e')
  show "acs_chain r lo (xs @ (k, e') # ys')"
  proof -
    have "entry_ok (right_edge r xs) (next_free lo xs) k e'"
      unfolding entry_ok_def fe using entry_okD [OF ok] bound c n by (simp add: e')
    then show ?thesis using chain ys by (simp add: acs_chain_mid fe)
  qed
  show "fill_ids (k, e') = insert (unat c) (fill_ids (k, e))"
    using c by (auto simp: fill_ids_def fe) (simp_all add: fill_end_def)
qed

lemma insert_step:
  assumes xs: "acs_chain r lo xs" and above: "right_edge r xs < unat c" "next_free lo xs \<le> unat c"
    and d: "unat d = unat c - right_edge r xs"
    and ys: "acs_chain (unat c) (unat c + 2) ys"
    and e: "e = \<lparr>left_edge = c, diff_to_prev_right_edge = d, length_of_fill = 1,
               sdnv_length = enc_len d + 1\<rparr>"
  shows "acs_chain r lo (xs @ (c, e) # ys)" and "fill_ids (c, e) = {unat c}"
proof -
  have "sdnv_val_len 1 = 1" by (subst sdnv_val_len.simps) simp
  moreover have fe: "fill_end (c, e) = unat c + 1" by (simp add: fill_end_def e)
  moreover have "unat c + 1 \<le> 2 ^ 64" using unat_lt_u64 [of c] by linarith
  ultimately show "acs_chain r lo (xs @ (c, e) # ys)"
    using xs above d ys by (simp add: acs_chain_mid entry_ok_def) (simp add: e)
  show "fill_ids (c, e) = {unat c}" by (auto simp: fill_ids_def fe)
qed

text \<open>The entry behind the new id keeps its ids; only its stored distance changes.\<close>

lemma rebase_step:
  assumes "acs_chain r lo ((k, e) # ys)" and "r' < unat k" "lo' \<le> unat k" and "unat d = unat k - r'"
    and "e' = e\<lparr>diff_to_prev_right_edge := d, sdnv_length := enc_len d + enc_len (length_of_fill e)\<rparr>"
  shows "acs_chain r' lo' ((k, e') # ys)" and "fill_ids (k, e') = fill_ids (k, e)"
  using assms by (auto simp: fill_ids_def fill_end_def entry_ok_def)

lemma prepend_step:
  assumes chain: "acs_chain r lo (xs @ (k, e) # ys)" and c: "unat c + 1 = unat k"
    and room: "right_edge r xs < unat c" "next_free lo xs \<le> unat c"
    and e': "e' = e\<lparr>left_edge := c, length_of_fill := length_of_fill e + 1,
        sdnv_length := enc_len (diff_to_prev_right_edge e - 1) + enc_len (length_of_fill e + 1),
        diff_to_prev_right_edge := diff_to_prev_right_edge e - 1\<rparr>"
  shows "acs_chain r lo (xs @ (c, e') # ys)"
    and "fill_ids (c, e') = insert (unat c) (fill_ids (k, e))"
proof -
  have ok: "entry_ok (right_edge r xs) (next_free lo xs) k e" using chain by (simp add: acs_chain_mid)
  then have bound: "fill_end (k, e) \<le> 2 ^ 64"
    and diff: "unat (diff_to_prev_right_edge e) = unat k - right_edge r xs"
    by (rule entry_okD)+
  have "unat (length_of_fill e) + 1 < 2 ^ 64" using bound c room(1) by (simp add: fill_end_def)
  then have n: "unat (length_of_fill e + 1) = unat (length_of_fill e) + 1" by (rule unat_plus_one)
  have "0 < unat (diff_to_prev_right_edge e)" using diff c room by linarith
  then have "diff_to_prev_right_edge e \<noteq> 0" by (simp add: unat_gt_0)
  then have d: "unat (diff_to_prev_right_edge e - 1) = unat c - right_edge r xs"
    using diff c by (simp add: unat_pred)
  have fe: "fill_end (c, e') = fill_end (k, e)" using c n by (simp add: fill_end_def e')
  show "acs_chain r lo (xs @ (c, e') # ys)"
  proof -
    have "entry_ok (right_edge r xs) (next_free lo xs) c e'"
      unfolding entry_ok_def fe using room bound n d by (simp add: e')
    then show ?thesis using chain by (simp add: acs_chain_mid fe)
  qed
  show "fill_ids (c, e') = insert (unat c) (fill_ids (k, e))"
    using c by (auto simp: fill_ids_def fe) (simp add: fill_end_def)
qed

lemma merge_step:
  assumes chain: "acs_chain r lo (xs @ (pk, p) # (k, e) # ys)"
    and c: "unat (c :: u64) = fill_end (pk, p)" "unat c + 1 = unat k"
    and p': "p' = p\<lparr>length_of_fill := length_of_fill p + (length_of_fill e + 1),
        sdnv_length := enc_len (diff_to_prev_right_edge p)
                       + enc_len (length_of_fill p + (length_of_fill e + 1))\<rparr>"
  shows "acs_chain r lo (xs @ (pk, p') # ys)"
    and "fill_ids (pk, p') = insert (unat c) (fill_ids (pk, p) \<union> fill_ids (k, e))"
proof -
  have ok: "entry_ok (right_edge r xs) (next_free lo xs) pk p" using chain by (simp add: acs_chain_mid)
  then have pos: "0 < unat pk" by (auto dest: entry_okD(3))
  have "entry_ok (fill_end (pk, p) - 1) (fill_end (pk, p) + 1) k e" using chain by (simp add: acs_chain_mid)
  then have bound: "fill_end (k, e) \<le> 2 ^ 64" by (rule entry_okD)
  have lt: "unat (length_of_fill p) + (unat (length_of_fill e) + 1) < 2 ^ 64"
    using bound c pos by (simp add: fill_end_def)
  then have "unat (length_of_fill e + 1) = unat (length_of_fill e) + 1"
    by (intro unat_plus_one) linarith
  then have n: "unat (length_of_fill p + (length_of_fill e + 1))
               = unat (length_of_fill p) + (unat (length_of_fill e) + 1)"
    using lt by (simp add: unat_word_ariths)
  have fe: "fill_end (pk, p') = fill_end (k, e)" using c n by (simp add: fill_end_def p')
  show "acs_chain r lo (xs @ (pk, p') # ys)"
  proof -
    have "entry_ok (right_edge r xs) (next_free lo xs) pk p'"
      unfolding entry_ok_def fe using entry_okD [OF ok] bound n by (simp add: p')
    then show ?thesis using chain by (simp add: acs_chain_mid fe)
  qed
  show "fill_ids (pk, p') = insert (unat c) (fill_ids (pk, p) \<union> fill_ids (k, e))"
    using c by (auto simp: fill_ids_def fe) (simp_all add: fill_end_def)
qed

section \<open>One id added to the entry list\<close>

text \<open>
  \<open>adds_id m c d m'\<close> is what every branch of the code has to achieve on the entry list:
  the new list is again a minimal description, of one id more, and \<open>d\<close> bytes longer.
\<close>

definition adds_id :: "acs_map \<Rightarrow> u64 \<Rightarrow> int \<Rightarrow> acs_map \<Rightarrow> bool" where
  "adds_id m c d m' \<longleftrightarrow>
     acs_chain 0 1 m' \<and> acs_ids m' = insert (unat c) (acs_ids m) \<and> acs_bytes m' = acs_bytes m + d
     \<and> d \<le> 40"

lemma enc_len_le: "enc_len v \<le> 10"
  using sdnv_val_len_le_MAX [of v] by (simp add: MAX_LENGTH_def)

lemma enc_len_sum_le:
  "0 \<le> x \<Longrightarrow> enc_len a + enc_len b - x \<le> 40"
  "0 \<le> x \<Longrightarrow> enc_len a + 1 + (enc_len b + enc_len c) - x \<le> 40"
  "0 \<le> x \<Longrightarrow> enc_len a + enc_len b + (enc_len c + enc_len d) - x \<le> 40"
  "enc_len a + 1 \<le> 40"
  using enc_len_le [of a] enc_len_le [of b] enc_len_le [of c] enc_len_le [of d] by linarith+

lemma sdnv_length_nonneg:
  "acs_chain r lo (xs @ (k, e) # ys) \<Longrightarrow> 0 \<le> sdnv_length e"
  "acs_chain r lo (xs @ (k, e) # (k', e') # ys) \<Longrightarrow> 0 \<le> sdnv_length e'"
  by (auto simp: acs_chain_mid entry_ok_def)

lemma adds_id_first:
  assumes "c \<noteq> 0"
  shows "adds_id [] c (enc_len c + 1) (add_acs_entry [] c 1 c (enc_len c + 1))"
proof -
  have "0 < unat c" using assms by (simp add: unat_gt_0)
  then show ?thesis
    using insert_step [of 0 1 "[]" c c "[]", OF _ _ _ _ _ refl] enc_len_le [of c]
    by (simp add: adds_id_def add_acs_entry_def om_insert_def om_find_def)
qed

lemma acs_chain_right_edge:
  "acs_chain r lo (xs @ [(k, e)]) \<Longrightarrow> unat k < fill_end (k, e) \<and> fill_end (k, e) \<le> 2 ^ 64 \<and> 0 < unat k"
  by (auto simp: acs_chain_mid entry_ok_def fill_end_def)

lemma adds_id_extend_last:
  assumes chain: "acs_chain 0 1 (xs @ [(k, e)])" and c: "unat (c :: u64) = fill_end (k, e)"
    and f: "f = (\<lambda>e. e\<lparr>length_of_fill := length_of_fill e + 1, sdnv_length := s\<rparr>)"
    and s: "s = enc_len (diff_to_prev_right_edge e) + enc_len (length_of_fill e + 1)"
  shows "adds_id (xs @ [(k, e)]) c (s - sdnv_length e) (om_modify k f (xs @ [(k, e)]))"
proof -
  have mod: "om_modify k f (xs @ [(k, e)]) = xs @ [(k, f e)]"
    using acs_chain_om_wf [OF chain] by (rule om_modify_mid)
  have "acs_chain 0 1 (xs @ [(k, f e)])"
    and "fill_ids (k, f e) = insert (unat c) (fill_ids (k, e))"
    using extend_step [OF chain c, of "f e" "[]"] by (simp_all add: f s)
  moreover have "s - sdnv_length e \<le> 40"
    unfolding s by (rule enc_len_sum_le) (rule sdnv_length_nonneg(1) [OF chain])
  ultimately show ?thesis by (auto simp: mod adds_id_def) (simp add: f)
qed

lemma adds_id_insert_end:
  assumes chain: "acs_chain 0 1 (xs @ [(k, e)])" and c: "fill_end (k, e) < unat (c :: u64)"
    and d: "d = c - (left_edge e + (length_of_fill e - 1))"
  shows "adds_id (xs @ [(k, e)]) c (enc_len d + 1)
           (add_acs_entry (xs @ [(k, e)]) c 1 d (enc_len d + 1))"
proof -
  have ok: "entry_ok (right_edge 0 xs) (next_free 1 xs) k e" using chain by (simp add: acs_chain_mid)
  have edge: "unat k < fill_end (k, e)" using acs_chain_right_edge [OF chain] by simp
  have "length_of_fill e \<noteq> 0" using entry_okD(4) [OF ok] by (auto simp: unat_gt_0)
  then have "unat (k + (length_of_fill e - 1)) = fill_end (k, e) - 1"
    using c unat_lt_u64 [of c] entry_okD(4) [OF ok]
    by (simp add: unat_word_ariths fill_end_def unat_pred)
  moreover from this have "k + (length_of_fill e - 1) \<le> c" using c by (simp add: word_le_nat_alt)
  ultimately have d: "unat d = unat c - (fill_end (k, e) - 1)"
    using d entry_okD(1) [OF ok] by (simp add: unat_sub)
  have below: "\<forall>x \<in> set (xs @ [(k, e)]). fst x < c"
    using acs_chain_om_wf [OF chain] edge c
    by (fastforce simp: om_wf_append word_less_nat_alt)
  then have "c \<notin> fst ` set (xs @ [(k, e)])" by auto
  then have "add_acs_entry (xs @ [(k, e)]) c 1 d (enc_len d + 1)
      = (xs @ [(k, e)]) @ [(c, \<lparr>left_edge = c, diff_to_prev_right_edge = d, length_of_fill = 1,
           sdnv_length = enc_len d + 1\<rparr>)]"
    using om_assign_append [OF below, of _ "[]"]
    by (simp add: add_acs_entry_def om_insert_def om_find_None_iff)
  then show ?thesis
    using insert_step [OF chain _ _ _ _ refl, of c d "[]"] c d edge enc_len_le [of d]
    by (auto simp: adds_id_def)
qed

lemma adds_id_insert_mid:
  assumes chain: "acs_chain 0 1 (xs @ (k, e) # ys)" and c: "unat (c :: u64) + 1 < unat k"
    and room: "right_edge 0 xs < unat c" "next_free 1 xs \<le> unat c"
    and below: "\<forall>x \<in> set xs. fst x < c"
    and d: "d = diff_to_prev_right_edge e - (left_edge e - c)" and nd: "nd = left_edge e - c"
    and ns: "ns = enc_len nd + enc_len (length_of_fill e)"
  shows "adds_id (xs @ (k, e) # ys) c (enc_len d + 1 + ns - sdnv_length e)
           (om_modify k (\<lambda>e. e\<lparr>diff_to_prev_right_edge := nd, sdnv_length := ns\<rparr>)
             (add_acs_entry (xs @ (k, e) # ys) c 1 d (enc_len d + 1)))"
proof -
  let ?e = "\<lparr>left_edge = c, diff_to_prev_right_edge = d, length_of_fill = 1,
             sdnv_length = enc_len d + 1\<rparr>"
  let ?n = "e\<lparr>diff_to_prev_right_edge := nd, sdnv_length := ns\<rparr>"
  have ok: "entry_ok (right_edge 0 xs) (next_free 1 xs) k e" using chain by (simp add: acs_chain_mid)
  have "c \<le> k" using c by (simp add: word_le_nat_alt)
  then have unk: "unat (left_edge e - c) = unat k - unat c"
    using entry_okD(1) [OF ok] by (simp add: unat_sub)
  then have "left_edge e - c \<le> diff_to_prev_right_edge e"
    using room entry_okD(6) [OF ok] by (simp add: word_le_nat_alt)
  then have ud: "unat d = unat c - right_edge 0 xs"
    using unk entry_okD(6) [OF ok] c room by (simp add: d unat_sub)
  have wf: "om_wf (xs @ (k, e) # ys)" using chain by (rule acs_chain_om_wf)
  have kc: "c < k" using c by (simp add: word_less_nat_alt)
  have above: "\<forall>x \<in> set ((k, e) # ys). c < fst x"
    using wf kc by (auto simp: om_wf_append dest: order.strict_trans)
  then have "c \<notin> fst ` set (xs @ (k, e) # ys)" using below by fastforce
  then have ins: "add_acs_entry (xs @ (k, e) # ys) c 1 d (enc_len d + 1) = (xs @ [(c, ?e)]) @ (k, e) # ys"
    using om_assign_append [OF below, of ?e "(k, e) # ys"] om_assign_front [OF above, of ?e]
    by (simp add: add_acs_entry_def om_insert_def om_find_None_iff)
  have wf': "om_wf ((xs @ [(c, ?e)]) @ (k, e) # ys)"
    using wf below above by (auto simp: om_wf_append)
  have new: "om_modify k (\<lambda>e. e\<lparr>diff_to_prev_right_edge := nd, sdnv_length := ns\<rparr>)
      (add_acs_entry (xs @ (k, e) # ys) c 1 d (enc_len d + 1)) = xs @ (c, ?e) # (k, ?n) # ys"
    unfolding ins om_modify_mid [OF wf'] by simp
  have rb: "acs_chain (unat c) (unat c + 2) ((k, ?n) # ys)" "fill_ids (k, ?n) = fill_ids (k, e)"
    using rebase_step [of "right_edge 0 xs" "next_free 1 xs" k e ys "unat c" "unat c + 2" nd ?n]
      chain c unk by (simp_all add: acs_chain_append nd ns)
  have xs: "acs_chain 0 1 xs" using chain by (simp add: acs_chain_append)
  moreover have "enc_len d + 1 + ns - sdnv_length e \<le> 40"
    unfolding ns by (rule enc_len_sum_le) (rule sdnv_length_nonneg(1) [OF chain])
  ultimately show ?thesis
    unfolding new adds_id_def
    using insert_step [OF xs room ud rb(1) refl] rb(2) by auto
qed

lemma adds_id_extend_mid:
  assumes chain: "acs_chain 0 1 (xs @ (pk, p) # (k, e) # ys)"
    and c: "unat (c :: u64) = fill_end (pk, p)" "unat c + 1 < unat k"
    and s: "s = enc_len (diff_to_prev_right_edge p) + enc_len (length_of_fill p + 1)"
    and nd: "nd = diff_to_prev_right_edge e - 1" and ns: "ns = enc_len nd + enc_len (length_of_fill e)"
  shows "adds_id (xs @ (pk, p) # (k, e) # ys) c (s + ns - (sdnv_length p + sdnv_length e))
           (om_modify k (\<lambda>e. e\<lparr>diff_to_prev_right_edge := nd, sdnv_length := ns\<rparr>)
             (om_modify pk (\<lambda>e. e\<lparr>length_of_fill := length_of_fill e + 1, sdnv_length := s\<rparr>)
               (xs @ (pk, p) # (k, e) # ys)))"
proof -
  let ?p = "p\<lparr>length_of_fill := length_of_fill p + 1, sdnv_length := s\<rparr>"
  let ?n = "e\<lparr>diff_to_prev_right_edge := nd, sdnv_length := ns\<rparr>"
  have wf: "om_wf (xs @ (pk, p) # (k, e) # ys)" using chain by (rule acs_chain_om_wf)
  then have wf': "om_wf ((xs @ [(pk, ?p)]) @ (k, e) # ys)" by (simp add: om_wf_append)
  have new: "om_modify k (\<lambda>e. e\<lparr>diff_to_prev_right_edge := nd, sdnv_length := ns\<rparr>)
             (om_modify pk (\<lambda>e. e\<lparr>length_of_fill := length_of_fill e + 1, sdnv_length := s\<rparr>)
               (xs @ (pk, p) # (k, e) # ys)) = xs @ (pk, ?p) # (k, ?n) # ys"
    using om_modify_mid [OF wf'] by (simp add: om_modify_mid [OF wf])
  have okp: "entry_ok (right_edge 0 xs) (next_free 1 xs) pk p"
    and ck: "acs_chain (fill_end (pk, p) - 1) (fill_end (pk, p) + 1) ((k, e) # ys)"
    using chain by (simp_all add: acs_chain_mid)
  have oke: "entry_ok (fill_end (pk, p) - 1) (fill_end (pk, p) + 1) k e" using ck by simp
  have pos: "0 < fill_end (pk, p)" using entry_okD(4) [OF okp] by (simp add: fill_end_def)
  have diff: "unat (diff_to_prev_right_edge e) = unat k - (unat c - 1)"
    using entry_okD(6) [OF oke] c by simp
  then have "diff_to_prev_right_edge e \<noteq> 0" using c by (auto simp: unat_gt_0)
  then have und: "unat nd = unat k - unat c" using diff c pos by (simp add: nd unat_pred)
  have rb: "acs_chain (unat c) (unat c + 2) ((k, ?n) # ys)" "fill_ids (k, ?n) = fill_ids (k, e)"
    using rebase_step [OF ck, of "unat c" "unat c + 2" nd ?n] c und by (simp_all add: ns)
  have "acs_chain 0 1 (xs @ (pk, ?p) # (k, ?n) # ys)"
    and "fill_ids (pk, ?p) = insert (unat c) (fill_ids (pk, p))"
    using extend_step [OF chain c(1), of ?p "(k, ?n) # ys"] rb(1) by (simp_all add: s)
  moreover have "s + ns - (sdnv_length p + sdnv_length e) \<le> 40"
    unfolding s ns
    by (rule enc_len_sum_le, rule add_nonneg_nonneg; (rule sdnv_length_nonneg, rule chain))
  ultimately show ?thesis unfolding new using rb(2) by (auto simp: adds_id_def)
qed

lemma adds_id_prepend:
  assumes chain: "acs_chain 0 1 (xs @ (k, e) # ys)" and c: "unat (c :: u64) + 1 = unat k"
    and room: "right_edge 0 xs < unat c" "next_free 1 xs \<le> unat c"
    and below: "\<forall>x \<in> set xs. fst x < c"
    and d: "d = diff_to_prev_right_edge e - 1"
    and s: "s = enc_len d + enc_len (length_of_fill e + 1)"
  shows "adds_id (xs @ (k, e) # ys) c (s - sdnv_length e)
           (om_insert c (e\<lparr>left_edge := c, length_of_fill := length_of_fill e + 1,
              sdnv_length := s, diff_to_prev_right_edge := d\<rparr>) (om_erase k (xs @ (k, e) # ys)))"
proof -
  let ?e = "e\<lparr>left_edge := c, length_of_fill := length_of_fill e + 1,
              sdnv_length := s, diff_to_prev_right_edge := d\<rparr>"
  have wf: "om_wf (xs @ (k, e) # ys)" using chain by (rule acs_chain_om_wf)
  have "c < k" using c by (simp add: word_less_nat_alt)
  then have above: "\<forall>x \<in> set ys. c < fst x"
    using wf by (auto simp: om_wf_append dest: order.strict_trans)
  then have "c \<notin> fst ` set (xs @ ys)" using below by fastforce
  then have new: "om_insert c ?e (om_erase k (xs @ (k, e) # ys)) = xs @ (c, ?e) # ys"
    unfolding om_erase_mid [OF wf]
    using om_assign_append [OF below, of ?e ys] om_assign_front [OF above, of ?e]
    by (simp add: om_insert_def om_find_None_iff)
  have "acs_chain 0 1 (xs @ (c, ?e) # ys)"
    and "fill_ids (c, ?e) = insert (unat c) (fill_ids (k, e))"
    using prepend_step [OF chain c room, of ?e] by (simp_all add: s d)
  moreover have "s - sdnv_length e \<le> 40"
    unfolding s by (rule enc_len_sum_le) (rule sdnv_length_nonneg(1) [OF chain])
  ultimately show ?thesis unfolding new by (auto simp: adds_id_def)
qed

lemma adds_id_merge:
  assumes chain: "acs_chain 0 1 (xs @ (pk, p) # (k, e) # ys)"
    and c: "unat (c :: u64) = fill_end (pk, p)" "unat c + 1 = unat k"
    and n: "n = length_of_fill p + (length_of_fill e + 1)"
    and s: "s = enc_len (diff_to_prev_right_edge p) + enc_len n"
  shows "adds_id (xs @ (pk, p) # (k, e) # ys) c (s - (sdnv_length e + sdnv_length p))
           (om_erase k (om_modify pk (\<lambda>e. e\<lparr>length_of_fill := n, sdnv_length := s\<rparr>)
             (xs @ (pk, p) # (k, e) # ys)))"
proof -
  let ?p = "p\<lparr>length_of_fill := n, sdnv_length := s\<rparr>"
  have wf: "om_wf (xs @ (pk, p) # (k, e) # ys)" using chain by (rule acs_chain_om_wf)
  then have wf': "om_wf ((xs @ [(pk, ?p)]) @ (k, e) # ys)" by (simp add: om_wf_append)
  have new: "om_erase k (om_modify pk (\<lambda>e. e\<lparr>length_of_fill := n, sdnv_length := s\<rparr>)
             (xs @ (pk, p) # (k, e) # ys)) = xs @ (pk, ?p) # ys"
    using om_erase_mid [OF wf'] by (simp add: om_modify_mid [OF wf])
  have "acs_chain 0 1 (xs @ (pk, ?p) # ys)"
    and "fill_ids (pk, ?p) = insert (unat c) (fill_ids (pk, p) \<union> fill_ids (k, e))"
    using merge_step [OF chain c, of ?p] by (simp_all add: s n)
  moreover have "s - (sdnv_length e + sdnv_length p) \<le> 40"
    unfolding s
    by (rule enc_len_sum_le, rule add_nonneg_nonneg; (rule sdnv_length_nonneg, rule chain))
  ultimately show ?thesis unfolding new by (auto simp: adds_id_def)
qed

text \<open>The assertion of the merge: one joined fill never needs more bytes than the two fills.\<close>

lemma sdnv_val_len_join:
  assumes "unat n = unat a + unat b + 1"
  shows "sdnv_val_len n \<le> sdnv_val_len a + sdnv_val_len b + 1"
proof -
  define j where "j = max (sdnv_val_len a) (sdnv_val_len b)"
  have pos: "0 < j" using sdnv_val_len_pos [of a] by (simp add: j_def less_max_iff_disj)
  then obtain i where i: "j = Suc i" by (cases j) auto
  have "sdnv_val_len a \<le> Suc i" "sdnv_val_len b \<le> Suc i" using i by (auto simp: j_def)
  then have "unat a < 2 ^ (7 * Suc i)" "unat b < 2 ^ (7 * Suc i)"
    by (simp_all add: sdnv_val_len_le_iff)
  then have "unat n < 2 * 2 ^ (7 * Suc i)" using assms by linarith
  also have "\<dots> \<le> (2 :: nat) ^ (7 * Suc (Suc i))"
    unfolding power_Suc [symmetric] by (rule power_increasing) simp_all
  finally have "sdnv_val_len n \<le> Suc (Suc i)" by (simp only: sdnv_val_len_le_iff)
  moreover have "Suc i \<le> sdnv_val_len a + sdnv_val_len b" using i by (auto simp: j_def)
  ultimately show ?thesis by simp
qed

section \<open>Adding an id to a pending ACS\<close>

text \<open>
  The sequence of the two calls, without the size test the daemon makes between them
  (\<open>handle_add_bundle_to_acs\<close>, \<open>add_bibe_bundle_to_acs\<close>).
\<close>

definition add_custody_id :: "pending_acs \<Rightarrow> u64 \<Rightarrow> (pending_acs \<times> u32 option) option" where
  "add_custody_id p c =
     (case determine_acs_changes p c of None \<Rightarrow> None
      | Some (p1, chg) \<Rightarrow> apply_acs_changes p1 chg c)"

definition pacs_inv :: "pending_acs \<Rightarrow> bool" where
  "pacs_inv p \<longleftrightarrow>
     acs_chain 0 1 (acs_entry_map p)
     \<and> uint (acs_payload_length p) = acs_bytes (acs_entry_map p)
     \<and> num_custody_ids p = of_nat (card (acs_ids (acs_entry_map p)))"

text \<open>An id the code handles: it is new, or it is the left edge of a fill (a duplicate it sees).\<close>

definition fresh_or_left_edge :: "acs_map \<Rightarrow> u64 \<Rightarrow> bool" where
  "fresh_or_left_edge m c \<longleftrightarrow> unat c \<notin> acs_ids m \<or> c \<in> fst ` set m"

text \<open>What the two halves have to agree on, for an id that is new.\<close>

definition change_ok :: "pending_acs \<Rightarrow> u64 \<Rightarrow> pending_acs \<times> acs_change \<Rightarrow> bool" where
  "change_ok p c r \<longleftrightarrow>
     (case r of (p1, chg) \<Rightarrow>
        if ae_op chg = AE_OP_NOOP
        then \<exists>m' d. adds_id (acs_entry_map p) c d m'
               \<and> p1 = p\<lparr>acs_entry_map := m', num_custody_ids := num_custody_ids p + 1,
                        acs_payload_length := acs_payload_length p + of_int d\<rparr>
        else p1 = p \<and> (acs_payload_length p \<noteq> 0 \<longrightarrow> acs_entry_map p \<noteq> [] \<longrightarrow>
               (\<exists>m'. apply_acs_changes p chg c =
                   Some (p\<lparr>num_custody_ids := num_custody_ids p + 1,
                          acs_payload_length := acs_payload_length p + of_int (delta chg),
                          acs_entry_map := m'\<rparr>, None)
                 \<and> adds_id (acs_entry_map p) c (delta chg) m'))
             \<and> (acs_entry_map p = [] \<longrightarrow> delta chg = enc_len c + 1))"

lemma change_ok_noop:
  "adds_id (acs_entry_map p) c d m' \<Longrightarrow>
   change_ok p c (p\<lparr>acs_entry_map := m', num_custody_ids := num_custody_ids p + 1,
     acs_payload_length := acs_payload_length p + of_int d\<rparr>, no_change)"
  by (auto simp: change_ok_def no_change_def)

lemma change_ok_op:
  assumes "ae_op chg \<noteq> AE_OP_NOOP" and "acs_entry_map p \<noteq> []"
    and "adds_id (acs_entry_map p) c (delta chg) m'"
    and "acs_payload_length p \<noteq> 0 \<Longrightarrow> apply_acs_changes p chg c =
          Some (p\<lparr>num_custody_ids := num_custody_ids p + 1,
                   acs_payload_length := acs_payload_length p + of_int (delta chg),
                   acs_entry_map := m'\<rparr>, None)"
  shows "change_ok p c (p, chg)"
  using assms by (auto simp: change_ok_def)

lemma fresh_behind:
  assumes "acs_chain r lo (xs @ (k, e) # ys)" and "k < c" and "unat c \<notin> acs_ids (xs @ (k, e) # ys)"
  shows "fill_end (k, e) \<le> unat c"
  using assms by (auto simp: fill_ids_def word_less_nat_alt)

lemma past_end_ok:
  assumes chain: "acs_chain 0 1 (acs_entry_map p)" and c: "c \<noteq> 0"
    and fresh: "unat c \<notin> acs_ids (acs_entry_map p)"
    and all: "\<forall>x \<in> set (acs_entry_map p). fst x < c"
  shows "change_ok p c (p, determine_past_end (acs_entry_map p) c)"
proof (cases "acs_entry_map p" rule: rev_cases)
  case Nil
  then show ?thesis
    by (auto simp: change_ok_def determine_past_end_def no_change_def Let_def)
next
  case (snoc xs x)
  obtain k e where x: "x = (k, e)" by (cases x)
  have m: "acs_entry_map p = xs @ [(k, e)]" using snoc x by simp
  have ch: "acs_chain 0 1 (xs @ [(k, e)])" using chain m by simp
  have ok: "left_edge e = k" using ch by (simp add: acs_chain_mid entry_ok_def)
  have behind: "fill_end (k, e) \<le> unat c"
    using fresh_behind [of 0 1 xs k e "[]" c] ch all fresh by (simp add: m)
  have at: "c = left_edge e + length_of_fill e \<longleftrightarrow> unat c = fill_end (k, e)"
    using after_fill_iff [of k "length_of_fill e" c] acs_chain_right_edge [OF ch] c
    by (simp add: ok fill_end_def)
  show ?thesis
  proof (cases "unat c = fill_end (k, e)")
    case True
    let ?s = "enc_len (diff_to_prev_right_edge e) + enc_len (length_of_fill e + 1)"
    let ?chg = "no_change\<lparr>ae_op := AE_OP_EXTEND_ENTRY, chg_entry := Some k, new_entry_size := ?s,
                  delta := ?s - sdnv_length e\<rparr>"
    have "determine_past_end (acs_entry_map p) c = ?chg"
      using True at by (simp add: determine_past_end_def m Let_def)
    moreover have "change_ok p c (p, ?chg)"
      by (rule change_ok_op)
        (use adds_id_extend_last [OF ch True refl refl] m in
          \<open>simp_all add: apply_acs_changes_def update_next_def no_change_def Let_def\<close>)
    ultimately show ?thesis by simp
  next
    case False
    then have lt: "fill_end (k, e) < unat c" using behind by simp
    let ?d = "c - (left_edge e + (length_of_fill e - 1))"
    let ?chg = "no_change\<lparr>ae_op := AE_OP_INSERT_ENTRY_AT_END, chg_entry := Some k,
                  new_entry_size := enc_len ?d + 1, new_entry_diff := ?d, delta := enc_len ?d + 1\<rparr>"
    have "determine_past_end (acs_entry_map p) c = ?chg"
      using False at by (simp add: determine_past_end_def m Let_def)
    moreover have "change_ok p c (p, ?chg)"
      by (rule change_ok_op)
        (use adds_id_insert_end [OF ch lt refl] m in
          \<open>simp_all add: apply_acs_changes_def update_next_def no_change_def Let_def\<close>)
    ultimately show ?thesis by simp
  qed
qed

text \<open>The id lies before the entry \<open>(k, e)\<close>; \<open>xs\<close> are the entries that start below it.\<close>

lemma room_before:
  assumes chain: "acs_chain 0 1 (xs @ (k, e) # ys)" and c: "c \<noteq> 0" "\<forall>x \<in> set xs. fst x < c"
    and fresh: "unat c \<notin> acs_ids (xs @ (k, e) # ys)"
  shows "right_edge 0 xs < unat c" and "next_free 1 xs \<le> unat c + 1"
    and "xs \<noteq> [] \<Longrightarrow> 1 < right_edge 0 xs + 1 \<and> next_free 1 xs = right_edge 0 xs + 2"
proof -
  have pos: "0 < unat c" using c by (simp add: unat_gt_0)
  have *: "right_edge 0 xs < unat c \<and> next_free 1 xs \<le> unat c + 1
      \<and> (xs \<noteq> [] \<longrightarrow> 1 < right_edge 0 xs + 1 \<and> next_free 1 xs = right_edge 0 xs + 2)"
  proof (cases xs rule: rev_cases)
    case (snoc zs z)
    obtain pk q where z: "z = (pk, q)" by (cases z)
    have ch: "acs_chain 0 1 (zs @ (pk, q) # (k, e) # ys)" using chain snoc z by simp
    then have "entry_ok (right_edge 0 zs) (next_free 1 zs) pk q" by (simp add: acs_chain_mid)
    then have "0 < unat pk" "0 < unat (length_of_fill q)" by (auto simp: entry_ok_def)
    moreover have "fill_end (pk, q) \<le> unat c"
      using fresh_behind [OF ch, of c] c fresh snoc z by simp
    ultimately show ?thesis using snoc z by (simp add: fill_end_def)
  qed (use pos in simp)
  show "right_edge 0 xs < unat c" "next_free 1 xs \<le> unat c + 1"
    "xs \<noteq> [] \<Longrightarrow> 1 < right_edge 0 xs + 1 \<and> next_free 1 xs = right_edge 0 xs + 2"
    using * by auto
qed

lemma fill_gap_ok:
  assumes m: "acs_entry_map p = zs @ (pk, q) # (k, e) # ys"
    and split: "om_below c (acs_entry_map p) = zs @ [(pk, q)]" "om_from c (acs_entry_map p) = (k, e) # ys"
    and chain: "acs_chain 0 1 (zs @ (pk, q) # (k, e) # ys)"
    and c: "unat c = fill_end (pk, q)" "unat c + 1 = unat k" "c \<noteq> 0"
  shows "\<exists>r. determine_fill_gap p c = Some r \<and> change_ok p c r"
proof -
  let ?n = "length_of_fill q + (length_of_fill e + 1)"
  let ?s = "enc_len (diff_to_prev_right_edge q) + enc_len ?n"
  have okq: "entry_ok (right_edge 0 zs) (next_free 1 zs) pk q"
    and oke: "entry_ok (fill_end (pk, q) - 1) (fill_end (pk, q) + 1) k e"
    using chain by (simp_all add: acs_chain_mid)
  have "unat (length_of_fill q) + unat (length_of_fill e) + 1 < 2 ^ 64"
    using entry_okD(5) [OF oke] entry_okD(3) [OF okq] c by (simp add: fill_end_def)
  then have "unat ?n = unat (length_of_fill q) + unat (length_of_fill e) + 1"
    by (simp add: unat_word_ariths)
  then have "sdnv_val_len ?n \<le> sdnv_val_len (length_of_fill q) + sdnv_val_len (length_of_fill e) + 1"
    by (rule sdnv_val_len_join)
  moreover have "0 < sdnv_val_len (diff_to_prev_right_edge e)" by (rule sdnv_val_len_pos)
  ultimately have size: "?s \<le> sdnv_length e + sdnv_length q"
    using entry_okD(7) [OF okq] entry_okD(7) [OF oke] by (simp del: sdnv_val_len_pos)
  have at: "c = left_edge q + length_of_fill q"
    using after_fill_iff [of pk "length_of_fill q" c] c entry_okD(1,5) [OF okq] by (simp add: fill_end_def)
  let ?m = "om_erase k (om_modify pk (\<lambda>e. e\<lparr>length_of_fill := ?n, sdnv_length := ?s\<rparr>) (acs_entry_map p))"
  let ?d = "?s - (sdnv_length e + sdnv_length q)"
  let ?p = "p\<lparr>acs_entry_map := ?m, num_custody_ids := num_custody_ids p + 1,
               acs_payload_length := acs_payload_length p + of_int ?d\<rparr>"
  have "determine_fill_gap p c = Some (?p, no_change)"
    using size by (simp add: determine_fill_gap_def split at [symmetric] Let_def)
  moreover have "adds_id (acs_entry_map p) c ?d ?m"
    using adds_id_merge [OF chain c(1,2) refl refl] by (simp add: m)
  then have "change_ok p c (?p, no_change)" by (rule change_ok_noop)
  ultimately show ?thesis by blast
qed

lemma before_entry_ok:
  assumes m: "acs_entry_map p = xs @ (k, e) # ys"
    and split: "om_below c (acs_entry_map p) = xs" "om_from c (acs_entry_map p) = (k, e) # ys"
    and chain: "acs_chain 0 1 (xs @ (k, e) # ys)"
    and c: "c \<noteq> 0" "c < k" and below: "\<forall>x \<in> set xs. fst x < c"
    and fresh: "unat c \<notin> acs_ids (xs @ (k, e) # ys)"
  shows "\<exists>r. determine_acs_changes p c = Some r \<and> change_ok p c r"
proof -
  note room = room_before [OF chain c(1) below fresh]
  have ok: "entry_ok (right_edge 0 xs) (next_free 1 xs) k e" using chain by (simp add: acs_chain_mid)
  have pos: "0 < unat c" "0 < unat k" using c by (auto simp: unat_gt_0)
  have le: "left_edge e = k" using entry_okD(1) [OF ok] .
  have ck: "c \<noteq> left_edge e" using c le by auto
  have pred: "c = left_edge e - 1 \<longleftrightarrow> unat c + 1 = unat k"
    unfolding le by (rule before_iff) (use pos in \<open>auto simp: unat_gt_0\<close>)
  have after: "c = left_edge e - diff_to_prev_right_edge e + 1 \<longleftrightarrow> unat c = right_edge 0 xs + 1"
    unfolding le by (rule after_prev_iff [OF entry_okD(3,6) [OF ok]])
  have diff2: "diff_to_prev_right_edge e = 2 \<longleftrightarrow> unat k - right_edge 0 xs = 2"
    using entry_okD(6) [OF ok] by (auto simp: word_unat_eq_iff)
  have k2: "left_edge e = 2 \<longleftrightarrow> unat k = 2" by (auto simp: le word_unat_eq_iff)
  have unat1: "1 < c \<longleftrightarrow> 1 < unat c" by (simp add: word_less_nat_alt)
  note simps = determine_acs_changes_def split pred after diff2 k2 unat1 ck Let_def
  have ckn: "unat c < unat k" using c by (simp add: word_less_nat_alt)
  have ne: "acs_entry_map p \<noteq> []" by (simp add: m)
  have nf: "xs = [] \<Longrightarrow> next_free 1 xs = 1" "xs = [] \<Longrightarrow> right_edge 0 xs = 0" by simp_all
  consider (gap) "unat c + 1 = unat k" "unat k - right_edge 0 xs = 2" "unat k \<noteq> 2"
    | (prepend) "unat c + 1 = unat k" "\<not> (unat k - right_edge 0 xs = 2 \<and> unat k \<noteq> 2)"
    | (extend) "unat c + 1 \<noteq> unat k" "1 < unat c" "unat c = right_edge 0 xs + 1"
    | (insert) "unat c + 1 \<noteq> unat k" "\<not> (1 < unat c \<and> unat c = right_edge 0 xs + 1)"
    by blast
  then show ?thesis
  proof cases
    case gap
    then have "xs \<noteq> []" using nf by auto
    then obtain zs pk q where xs: "xs = zs @ [(pk, q)]" by (cases xs rule: rev_cases) auto
    then have "unat c = fill_end (pk, q)" using gap room(1) by simp
    then have "\<exists>r. determine_fill_gap p c = Some r \<and> change_ok p c r"
      using fill_gap_ok [of p zs pk q k e ys c] m split chain gap(1) c(1) by (simp add: xs)
    then show ?thesis using gap by (simp add: simps)
  next
    case prepend
    then have "next_free 1 xs \<le> unat c" using room pos nf by (cases "xs = []") auto
    note add = adds_id_prepend [OF chain prepend(1) room(1) this below refl refl, folded m]
    let ?s = "enc_len (diff_to_prev_right_edge e - 1) + enc_len (length_of_fill e + 1)"
    let ?chg = "no_change\<lparr>ae_op := AE_OP_PREPEND_ENTRY, chg_entry := Some k, new_entry_size := ?s,
                  new_entry_diff := diff_to_prev_right_edge e - 1, delta := ?s - sdnv_length e\<rparr>"
    have "determine_acs_changes p c = Some (p, ?chg)" using prepend by (auto simp: simps)
    moreover have "change_ok p c (p, ?chg)"
      by (rule change_ok_op [OF _ ne])
        (use add om_find_mid [OF acs_chain_om_wf [OF chain], folded m] in
          \<open>simp_all add: apply_acs_changes_def no_change_def Let_def\<close>)
    ultimately show ?thesis by blast
  next
    case extend
    then have "xs \<noteq> []" using nf by auto
    then obtain zs pk q where xs: "xs = zs @ [(pk, q)]" by (cases xs rule: rev_cases) auto
    have ch: "acs_chain 0 1 (zs @ (pk, q) # (k, e) # ys)" using chain xs by simp
    have m': "acs_entry_map p = zs @ (pk, q) # (k, e) # ys" using m xs by simp
    have fe: "unat c = fill_end (pk, q)" using extend room xs by simp
    have "entry_ok (right_edge 0 zs) (next_free 1 zs) pk q" using ch by (simp add: acs_chain_mid)
    then have at: "left_edge q + length_of_fill q = c"
      using after_fill_iff [of pk "length_of_fill q" c] c fe
      by (auto simp: fill_end_def entry_ok_def)
    note add = adds_id_extend_mid [OF ch fe _ refl refl refl, folded m']
    let ?s = "enc_len (diff_to_prev_right_edge q) + enc_len (length_of_fill q + 1)"
    let ?nd = "diff_to_prev_right_edge e - 1" let ?ns = "enc_len ?nd + enc_len (length_of_fill e)"
    let ?chg = "no_change\<lparr>ae_op := AE_OP_EXTEND_ENTRY, chg_entry := Some pk, chg_next := Some k,
                  new_entry_size := ?s, new_next_size := ?ns,
                  new_entry_diff := diff_to_prev_right_edge q, new_next_diff := ?nd,
                  delta := ?s + ?ns - (sdnv_length q + sdnv_length e)\<rparr>"
    have "determine_acs_changes p c = Some (p, ?chg)" using extend at by (simp add: simps xs)
    moreover have "change_ok p c (p, ?chg)"
      by (rule change_ok_op [OF _ ne])
        (use add ckn extend in \<open>simp_all add: apply_acs_changes_def update_next_def no_change_def Let_def\<close>)
    ultimately show ?thesis by blast
  next
    case insert
    then have "next_free 1 xs \<le> unat c" using room pos nf by (cases "xs = []") auto
    note add = adds_id_insert_mid [OF chain _ room(1) this below refl refl refl, folded m]
    let ?nd = "left_edge e - c" let ?d = "diff_to_prev_right_edge e - ?nd"
    let ?ns = "enc_len ?nd + enc_len (length_of_fill e)"
    let ?chg = "no_change\<lparr>ae_op := AE_OP_INSERT_ENTRY, chg_entry := Some k, chg_next := Some k,
                  new_entry_size := enc_len ?d + 1, new_next_size := ?ns, new_entry_diff := ?d,
                  new_next_diff := ?nd, delta := enc_len ?d + 1 + ?ns - sdnv_length e\<rparr>"
    have "determine_acs_changes p c = Some (p, ?chg)" using insert by (auto simp: simps)
    moreover have "change_ok p c (p, ?chg)"
      by (rule change_ok_op [OF _ ne])
        (use add ckn insert in \<open>simp_all add: apply_acs_changes_def update_next_def no_change_def Let_def\<close>)
    ultimately show ?thesis by blast
  qed
qed


lemma determine_ok:
  assumes "acs_chain 0 1 (acs_entry_map p)" and "c \<noteq> 0" and "unat c \<notin> acs_ids (acs_entry_map p)"
  shows "\<exists>r. determine_acs_changes p c = Some r \<and> change_ok p c r"
proof -
  let ?m = "acs_entry_map p"
  have below: "\<forall>x \<in> set (om_below c ?m). fst x < c" by (auto dest: om_below_less)
  show ?thesis
  proof (cases "om_from c ?m")
    case Nil
    then have "\<forall>x \<in> set ?m. fst x < c" using below om_split [of c ?m] by simp
    then show ?thesis using past_end_ok [OF assms] Nil by (simp add: determine_acs_changes_def Let_def)
  next
    case (Cons x ys)
    obtain k e where x: "x = (k, e)" by (cases x)
    have m: "?m = om_below c ?m @ (k, e) # ys" using om_split [of c ?m] Cons x by simp
    have "c \<le> k" using om_from_ge [OF acs_chain_om_wf [OF assms(1)], of "(k, e)" c] Cons x by simp
    moreover have "c \<noteq> k"
    proof
      assume "c = k"
      moreover have "entry_ok (right_edge 0 (om_below c ?m)) (next_free 1 (om_below c ?m)) k e"
        using assms(1) m by (metis acs_chain_mid)
      then have "unat k \<in> fill_ids (k, e)" by (simp add: fill_ids_def fill_end_def entry_ok_def)
      ultimately show False using assms(3) m by (metis UnI1 UnI2 acs_ids_simps(2,3))
    qed
    ultimately have "c < k" by simp
    then show ?thesis
      using before_entry_ok [OF m refl _ _ assms(2) _ below] Cons x m assms by simp
  qed
qed

lemma left_edge_noop:
  assumes "acs_chain 0 1 (acs_entry_map p)" and "c \<in> fst ` set (acs_entry_map p)"
  shows "determine_acs_changes p c = Some (p, no_change)"
proof -
  let ?m = "acs_entry_map p"
  have wf: "om_wf ?m" using assms(1) by (rule acs_chain_om_wf)
  obtain e xs ys where m: "?m = xs @ (c, e) # ys" using assms(2) by (auto dest!: split_list)
  have "\<forall>x \<in> set xs. fst x < c" using wf m by (auto simp: om_wf_append)
  then have "om_from c ?m = (c, e) # ys" unfolding m om_from_def by (subst dropWhile_append2) auto
  moreover have "left_edge e = c" using assms(1) m by (simp add: acs_chain_mid entry_ok_def)
  ultimately show ?thesis by (simp add: determine_acs_changes_def Let_def)
qed

lemma adds_id_count:
  "adds_id m c d m' \<Longrightarrow> unat c \<notin> acs_ids m \<Longrightarrow> card (acs_ids m') = card (acs_ids m) + 1"
  by (simp add: adds_id_def)

lemma payload_plus:
  assumes "uint (n :: u32) = b" and "0 \<le> b + d" and "b + d < 2 ^ 32"
  shows "uint (n + of_int d) = b + d"
proof -
  have "n + of_int d = of_int (b + d)" by (simp flip: assms(1))
  then show ?thesis using assms(2,3) by (simp only: uint_word_of_int) (simp add: mod_pos_pos_trivial)
qed

lemma pacs_inv_updated:
  assumes "pacs_inv p" and "adds_id (acs_entry_map p) c d m'" and "unat c \<notin> acs_ids (acs_entry_map p)"
    and "uint (acs_payload_length p) + 40 < 2 ^ 32"
    and "acs_entry_map p' = m'" "num_custody_ids p' = num_custody_ids p + 1"
      "acs_payload_length p' = acs_payload_length p + of_int d"
  shows "pacs_inv p' \<and> acs_ids (acs_entry_map p') = insert (unat c) (acs_ids (acs_entry_map p))
    \<and> uint (acs_payload_length p') \<le> uint (acs_payload_length p) + 40"
proof -
  have a: "acs_chain 0 1 m'" "acs_bytes m' = acs_bytes (acs_entry_map p) + d" "d \<le> 40"
    and ids: "acs_ids m' = insert (unat c) (acs_ids (acs_entry_map p))"
    using assms(2) by (auto simp: adds_id_def)
  have "m' \<noteq> []" using ids by auto
  then have "0 \<le> acs_bytes m'" using acs_bytes_pos [OF a(1)] by simp
  then have pl: "uint (acs_payload_length p') = acs_bytes m'"
    unfolding assms(7) a(2)
    by (intro payload_plus) (use assms(1,4) a in \<open>auto simp: pacs_inv_def\<close>)
  show ?thesis
    using pl a ids assms(1,4,5,6) adds_id_count [OF assms(2,3)] by (auto simp: pacs_inv_def)
qed

lemma pacs_payload_zero_iff:
  "pacs_inv p \<Longrightarrow> acs_payload_length p = 0 \<longleftrightarrow> acs_entry_map p = []"
  using acs_bytes_pos [of 0 1 "acs_entry_map p"] by (cases "acs_entry_map p") (auto simp: pacs_inv_def uint_0_iff)

lemma add_custody_id_ok:
  assumes inv: "pacs_inv p" and c: "c \<noteq> 0" and fresh: "unat c \<notin> acs_ids (acs_entry_map p)"
    and room: "uint (acs_payload_length p) + 40 < 2 ^ 32"
  shows "\<exists>p' t. add_custody_id p c = Some (p', t) \<and> pacs_inv p'
    \<and> acs_ids (acs_entry_map p') = insert (unat c) (acs_ids (acs_entry_map p))
    \<and> uint (acs_payload_length p') \<le> uint (acs_payload_length p) + 40
    \<and> t = (if acs_entry_map p = [] then Some (acs_delay p * 1000) else None)"
proof -
  have chain: "acs_chain 0 1 (acs_entry_map p)" using inv by (simp add: pacs_inv_def)
  obtain p1 chg where det: "determine_acs_changes p c = Some (p1, chg)" and ok: "change_ok p c (p1, chg)"
    using determine_ok [OF chain c fresh] by auto
  have zero: "acs_payload_length p = 0 \<longleftrightarrow> acs_entry_map p = []" using inv by (rule pacs_payload_zero_iff)
  show ?thesis
  proof (cases "acs_entry_map p = []")
    case True
    then have chg: "p1 = p" "ae_op chg = AE_OP_INSERT_FIRST_ENTRY"
      using det by (auto simp: determine_acs_changes_def determine_past_end_def om_from_def
          no_change_def Let_def)
    let ?m = "add_acs_entry [] c 1 c (enc_len c + 1)"
    let ?p = "p\<lparr>acs_entry_map := ?m, acs_payload_length := of_int (enc_len c + 1), num_custody_ids := 1,
                 acs_expiration_timer := Some (key p, pacs_id p)\<rparr>"
    have "add_custody_id p c = Some (?p, Some (acs_delay p * 1000))"
      using chg det True zero by (simp add: add_custody_id_def apply_acs_changes_def Let_def)
    moreover have "num_custody_ids p = 0" using inv True by (simp add: pacs_inv_def)
    ultimately show ?thesis
      using pacs_inv_updated [OF inv _ fresh room, of "enc_len c + 1" ?m ?p] adds_id_first [OF c] True zero
      by simp
  next
    case False
    show ?thesis
    proof (cases "ae_op chg = AE_OP_NOOP")
      case True
      then obtain m' d where a: "adds_id (acs_entry_map p) c d m'"
        and p1: "p1 = p\<lparr>acs_entry_map := m', num_custody_ids := num_custody_ids p + 1,
                        acs_payload_length := acs_payload_length p + of_int d\<rparr>"
        using ok by (auto simp: change_ok_def)
      have "add_custody_id p c = Some (p1, None)"
        using det True by (simp add: add_custody_id_def apply_acs_changes_def)
      then show ?thesis
        using pacs_inv_updated [OF inv a fresh room, of p1] False by (simp add: p1)
    next
      case op: False
      then obtain m' where a: "adds_id (acs_entry_map p) c (delta chg) m'" and p1: "p1 = p"
        and app: "apply_acs_changes p chg c =
          Some (p\<lparr>num_custody_ids := num_custody_ids p + 1,
                   acs_payload_length := acs_payload_length p + of_int (delta chg),
                   acs_entry_map := m'\<rparr>, None)"
        using ok False zero by (auto simp: change_ok_def)
      let ?p = "p\<lparr>num_custody_ids := num_custody_ids p + 1,
                   acs_payload_length := acs_payload_length p + of_int (delta chg),
                   acs_entry_map := m'\<rparr>"
      have "add_custody_id p c = Some (?p, None)" using app det p1 by (simp add: add_custody_id_def)
      then show ?thesis using pacs_inv_updated [OF inv a fresh room, of ?p] False by simp
    qed
  qed
qed

section \<open>The entry map is determined by its ids\<close>

lemma acs_ids_lower: "acs_chain r lo m \<Longrightarrow> n \<in> acs_ids m \<Longrightarrow> lo \<le> n"
  using acs_chain_lower [of r lo m] by (auto simp: acs_ids_def fill_ids_def intro: order_trans)

lemma acs_ids_bound: "acs_chain r lo m \<Longrightarrow> n \<in> acs_ids m \<Longrightarrow> n < 2 ^ 64"
  by (induction r lo m rule: acs_chain.induct) (auto simp: fill_ids_def entry_ok_def)

lemma acs_chain_head:
  assumes "acs_chain r lo ((k, e) # m)"
  shows "unat k \<in> acs_ids ((k, e) # m)" and "fill_end (k, e) \<notin> acs_ids ((k, e) # m)"
    and "{unat k ..< fill_end (k, e)} \<subseteq> acs_ids ((k, e) # m)"
    and "\<forall>n \<in> acs_ids ((k, e) # m). unat k \<le> n"
    and "acs_ids m = {n \<in> acs_ids ((k, e) # m). fill_end (k, e) \<le> n}"
proof -
  have pos: "unat k < fill_end (k, e)" using assms by (auto simp: entry_ok_def fill_end_def)
  have tl: "n \<in> acs_ids m \<Longrightarrow> fill_end (k, e) + 1 \<le> n" for n
    using acs_ids_lower [of "fill_end (k, e) - 1" "fill_end (k, e) + 1" m n] assms by simp
  show "unat k \<in> acs_ids ((k, e) # m)" "fill_end (k, e) \<notin> acs_ids ((k, e) # m)"
    "{unat k ..< fill_end (k, e)} \<subseteq> acs_ids ((k, e) # m)"
    "\<forall>n \<in> acs_ids ((k, e) # m). unat k \<le> n"
    "acs_ids m = {n \<in> acs_ids ((k, e) # m). fill_end (k, e) \<le> n}"
    using pos tl by (fastforce simp: fill_ids_def)+
qed

lemma acs_chain_canonical:
  "acs_chain r lo m \<Longrightarrow> acs_chain r lo m' \<Longrightarrow> acs_ids m = acs_ids m' \<Longrightarrow> m = m'"
proof (induction r lo m arbitrary: m' rule: acs_chain.induct)
  case (1 r lo)
  show ?case
  proof (cases m')
    case (Cons x n)
    then show ?thesis using acs_chain_head(1) [of r lo "fst x" "snd x" n] "1.prems" by simp
  qed simp
next
  case (2 r lo k e m)
  note h = acs_chain_head [OF "2.prems"(1)]
  obtain k' e' n where m': "m' = (k', e') # n"
    using h(1) "2.prems"(3) by (cases m') auto
  note h' = acs_chain_head [OF "2.prems"(2) [unfolded m']]
  have eq: "acs_ids ((k, e) # m) = acs_ids ((k', e') # n)" using "2.prems"(3) m' by simp
  have "unat k = unat k'" using h(1,4) h'(1,4) unfolding eq by (meson order_antisym)
  then have k: "k' = k" by (simp add: word_unat_eq_iff)
  have fe: "fill_end (k', e') = fill_end (k, e)"
  proof (rule ccontr)
    assume "fill_end (k', e') \<noteq> fill_end (k, e)"
    then consider "fill_end (k, e) \<in> {unat k' ..< fill_end (k', e')}"
      | "fill_end (k', e') \<in> {unat k ..< fill_end (k, e)}"
      by (cases "fill_end (k, e) < fill_end (k', e')") (auto simp: fill_end_def k)
    then show False using h(2,3) h'(2,3) unfolding eq by cases (metis subsetD)+
  qed
  have "acs_ids m = acs_ids n" unfolding h(5) h'(5) eq fe ..
  then have "m = n" using "2.IH" [of n] "2.prems"(1,2) m' fe by simp
  moreover have "e = e'"
  proof (rule acs_entry.equality)
    have ok: "entry_ok r lo k e" "entry_ok r lo k e'" using "2.prems"(1,2) by (simp_all add: m' k)
    note d = entry_okD [OF ok(1)] and d' = entry_okD [OF ok(2)]
    show "left_edge e = left_edge e'" using d(1) d'(1) by simp
    show diff: "diff_to_prev_right_edge e = diff_to_prev_right_edge e'"
      using d(6) d'(6) by (simp add: word_unat_eq_iff)
    show fill: "length_of_fill e = length_of_fill e'"
      using fe by (simp add: fill_end_def k word_unat_eq_iff)
    show "sdnv_length e = sdnv_length e'" unfolding d(7) d'(7) diff fill ..
  qed simp
  ultimately show ?case by (simp add: m' k)
qed

section \<open>A pending ACS is a store of custody ids\<close>

definition add_id :: "pending_acs \<Rightarrow> u64 \<Rightarrow> pending_acs option" where
  "add_id p c = map_option fst (add_custody_id p c)"

definition custody_ids :: "pending_acs \<Rightarrow> u64 set" where
  "custody_ids p = {c. unat c \<in> acs_ids (acs_entry_map p)}"

definition pacs_room :: "pending_acs \<Rightarrow> nat" where
  "pacs_room p = nat ((2 ^ 32 - 1 - uint (acs_payload_length p)) div 40)"

lemma acs_ids_custody_ids: "pacs_inv p \<Longrightarrow> acs_ids (acs_entry_map p) = unat ` custody_ids p"
proof -
  assume "pacs_inv p"
  then have "n = unat (of_nat n :: u64)" if "n \<in> acs_ids (acs_entry_map p)" for n
    using acs_ids_bound [of 0 1 "acs_entry_map p" n] that
    by (simp add: pacs_inv_def unsigned_of_nat take_bit_nat_eq_self)
  then show ?thesis unfolding custody_ids_def
    by (metis (mono_tags, lifting) image_eqI image_iff mem_Collect_eq subsetI subset_antisym)
qed

interpretation acs: id_store pacs_inv add_id custody_ids "\<lambda>c. c \<noteq> 0" pacs_room
  "\<lambda>p. (acs_entry_map p, acs_payload_length p, num_custody_ids p)"
proof unfold_locales
  fix p c assume p: "pacs_inv p" "c \<noteq> 0" "c \<notin> custody_ids p" "0 < pacs_room p"
  have "uint (acs_payload_length p) + 40 < 2 ^ 32"
    using p(4) by (simp add: pacs_room_def)
  then obtain p' t where p': "add_custody_id p c = Some (p', t)" "pacs_inv p'"
    "acs_ids (acs_entry_map p') = insert (unat c) (acs_ids (acs_entry_map p))"
    "uint (acs_payload_length p') \<le> uint (acs_payload_length p) + 40"
    using add_custody_id_ok [of p c] p by (auto simp: custody_ids_def)
  have "pacs_room p \<le> Suc (pacs_room p')"
    using p'(4) by (simp add: pacs_room_def)
  then show "\<exists>s'. add_id p c = Some s' \<and> pacs_inv s' \<and> custody_ids s' = insert c (custody_ids p)
      \<and> pacs_room p \<le> Suc (pacs_room s')"
    using p' by (auto simp: add_id_def custody_ids_def word_unat_eq_iff)
next
  fix p q assume pq: "pacs_inv p" "pacs_inv q" "custody_ids p = custody_ids q"
  have "acs_entry_map p = acs_entry_map q"
  proof (rule acs_chain_canonical)
    show "acs_chain 0 1 (acs_entry_map p)" "acs_chain 0 1 (acs_entry_map q)"
      using pq(1,2) by (simp_all add: pacs_inv_def)
    show "acs_ids (acs_entry_map p) = acs_ids (acs_entry_map q)"
      unfolding acs_ids_custody_ids [OF pq(1)] acs_ids_custody_ids [OF pq(2)] pq(3) ..
  qed
  then show "(acs_entry_map p, acs_payload_length p, num_custody_ids p)
      = (acs_entry_map q, acs_payload_length q, num_custody_ids q)"
    using pq(1,2) by (simp add: pacs_inv_def word_uint_eq_iff)
qed

section \<open>Properties\<close>

definition empty_pacs :: pending_acs where
  "empty_pacs = \<lparr>key = ''k'', pacs_id = 1, custody_eid = null_eid, succeeded = True, reason = 0,
     acs_payload_length = 0, num_custody_ids = 0, acs_entry_map = [], acs_expiration_timer = None,
     in_datastore = False, queued_for_datastore = False, params_revision = 0, acs_delay = 1,
     acs_size = 1000, bp_version = 6\<rparr>"

lemma empty_pacs_inv: "pacs_inv empty_pacs"
  by (simp add: pacs_inv_def empty_pacs_def)

text \<open>
  C12. Adding a custody id that the pending ACS does not hold always succeeds (no assertion of
  \<open>determine_acs_changes\<close> or \<open>apply_acs_changes\<close> fires, whichever of the seven branches is
  taken), keeps the entry map a minimal ordered chain of fills with the exact payload length and
  id count, adds exactly that id, and starts the expiration timer exactly when the ACS was empty.
\<close>
theorem add_custody_id_correct:
  assumes "pacs_inv p" and "c \<noteq> 0" and "unat c \<notin> acs_ids (acs_entry_map p)"
    and "uint (acs_payload_length p) + 40 < 2 ^ 32"
  shows "\<exists>p' t. add_custody_id p c = Some (p', t) \<and> pacs_inv p'
    \<and> acs_ids (acs_entry_map p') = insert (unat c) (acs_ids (acs_entry_map p))
    \<and> t = (if acs_entry_map p = [] then Some (acs_delay p * 1000) else None)"
  using add_custody_id_ok [OF assms] by blast

theorem add_custody_id_correct_witness:
  "\<exists>p' t. add_custody_id empty_pacs 7 = Some (p', t) \<and> pacs_inv p'
    \<and> acs_ids (acs_entry_map p') = {7} \<and> t = Some 1000"
  using add_custody_id_correct [OF empty_pacs_inv, of 7] by (simp add: empty_pacs_def)

text \<open>
  The pending ACS does not depend on the order in which custody ids arrive: two sequences of
  the same new ids end in the same entry map, payload length and id count, which describe exactly
  the old and the new ids.
\<close>
theorem acs_order_irrelevant:
  assumes "pacs_inv p" and "distinct is" and "distinct js" and "set is = set js"
    and "\<forall>i \<in> set is. i \<noteq> 0 \<and> i \<notin> custody_ids p" and "length is \<le> pacs_room p"
  shows "\<exists>a b. fold_opt add_id p is = Some a \<and> fold_opt add_id p js = Some b
    \<and> acs_entry_map a = acs_entry_map b \<and> acs_payload_length a = acs_payload_length b
    \<and> num_custody_ids a = num_custody_ids b \<and> custody_ids a = set is \<union> custody_ids p"
  using acs.add_order_irrelevant [OF assms] by auto

theorem acs_order_irrelevant_witness:
  "\<exists>a b. fold_opt add_id empty_pacs [3, 1, 2] = Some a \<and> fold_opt add_id empty_pacs [1, 2, 3] = Some b
    \<and> acs_entry_map a = acs_entry_map b \<and> custody_ids a = {1, 2, 3}"
proof -
  have none: "custody_ids empty_pacs = {}" by (simp add: custody_ids_def empty_pacs_def)
  have room: "length [3, 1, 2 :: u64] \<le> pacs_room empty_pacs" by (simp add: pacs_room_def empty_pacs_def)
  have same: "set [3, 1, 2 :: u64] = set [1, 2, 3]" by auto
  have dist: "distinct [3, 1, 2 :: u64]" "distinct [1, 2, 3 :: u64]" by simp_all
  have new: "\<forall>i \<in> set [3, 1, 2 :: u64]. i \<noteq> 0 \<and> i \<notin> custody_ids empty_pacs" by (simp add: none)
  show ?thesis
    using acs_order_irrelevant [OF empty_pacs_inv dist same new room] unfolding none same by auto
qed

text \<open>
  An id that is the left edge of a fill is recognised as a duplicate: nothing of the pending
  ACS changes and no timer is started.
\<close>
theorem duplicate_left_edge_ignored:
  assumes "pacs_inv p" and "c \<in> fst ` set (acs_entry_map p)"
  shows "add_custody_id p c = Some (p, None)"
  using assms left_edge_noop [of p c]
  by (simp add: pacs_inv_def add_custody_id_def apply_acs_changes_def no_change_def)

text \<open>
  A duplicate inside a fill is not recognised: after the ids 1 and 2, the id 2 again appends an
  entry with the distance 0 and counts a third id.
\<close>

definition two_ids :: pending_acs where
  "two_ids = empty_pacs\<lparr>acs_entry_map :=
       [(1, \<lparr>left_edge = 1, diff_to_prev_right_edge = 1, length_of_fill = 2, sdnv_length = 2\<rparr>)],
     acs_payload_length := 2, num_custody_ids := 2\<rparr>"

lemma small_sdnv [simp]: "sdnv_val_len 0 = 1" "sdnv_val_len 1 = 1" "sdnv_val_len 2 = 1" "sdnv_val_len 3 = 1"
  by (subst sdnv_val_len.simps, simp)+

lemma two_ids_inv: "pacs_inv two_ids"
  by (simp add: pacs_inv_def two_ids_def empty_pacs_def entry_ok_def fill_end_def fill_ids_def)

theorem duplicate_left_edge_ignored_witness: "add_custody_id two_ids 1 = Some (two_ids, None)"
  by (rule duplicate_left_edge_ignored [OF two_ids_inv]) (simp add: two_ids_def)

text \<open>
  The detection of duplicates is incomplete. With the fill 1 to 2 pending, the id 2, which is not the left edge of the
  fill, is added a second time, with a distance of 0 to the previous right edge, and counted again, so that the
  invariant is lost.
\<close>
lemma duplicate_inside_fill_corrupts:
  "\<exists>p'. add_custody_id two_ids 2 = Some (p', None) \<and> num_custody_ids p' = 3
     \<and> map (\<lambda>(k, e). (k, diff_to_prev_right_edge e)) (acs_entry_map p') = [(1, 1), (2, 0)]
     \<and> acs_ids (acs_entry_map p') = {1, 2} \<and> \<not> pacs_inv p'"
  by (auto simp: add_custody_id_def determine_acs_changes_def determine_past_end_def om_from_def
      two_ids_def empty_pacs_def no_change_def apply_acs_changes_def update_next_def add_acs_entry_def
      om_insert_def om_find_def Let_def pacs_inv_def entry_ok_def fill_end_def fill_ids_def)

end
