(* ===== verification/Cbor_Util.thy ===== *)
theory Cbor_Util
  imports Prelude
begin

text \<open>
  \<open>src/servlib/bundling/CborUtil.cc\<close>: the writer of CBOR heads, the length function, and the
  two checksums of the block headers. The theory shows that a head that is written decodes to the
  same type and argument, and that the table-driven CRC-32C, eight bytes at a time, computes the
  bit-by-bit definition of the checksum for every buffer and every alignment.
\<close>

section \<open>Heads\<close>

definition CborIntegerType :: u8 where "CborIntegerType = 0x00"
definition CborByteStringType :: u8 where "CborByteStringType = 0x40"
definition CborArrayType :: u8 where "CborArrayType = 0x80"

definition uint64_encoding_len :: "u64 \<Rightarrow> nat" where
  "uint64_encoding_len val =
     (if val < 24 then 1
      else if val \<le> 0xff then 2
      else if val \<le> 0xffff then 3
      else if val \<le> 0xffffffff then 5
      else 9)"

text \<open>
  The loop that writes the argument. The constant that is shifted is a 32-bit \<open>unsigned\<close>: a
  shift by 32 bits or more is undefined in C++, and is the result \<open>None\<close>.
\<close>

fun cbor_size_bytes :: "nat \<Rightarrow> u64 \<Rightarrow> bytes option" where
  "cbor_size_bytes 0 uval = Some []"
| "cbor_size_bytes (Suc r) uval =
     (let bits_to_shift = 8 * r in
      if bits_to_shift \<ge> 32 then None
      else let msk = ucast (push_bit bits_to_shift (0xff :: u32)) :: u64 in
        map_option ((#) (ucast (drop_bit bits_to_shift (uval AND msk)))) (cbor_size_bytes r uval))"

text \<open>
  The three outcomes of \<open>encode_header_and_size\<close>: -1, the number of bytes needed (no buffer
  was given), or 0 with the bytes written at \<open>in_use\<close> and the value of \<open>encoded_len\<close>.
  Lengths are below \<open>2^63\<close>.
\<close>

datatype cbor_enc = Enc_Error | Enc_Need int | Enc_Done bytes int

definition encode_header_and_size :: "bool \<Rightarrow> u64 \<Rightarrow> u64 \<Rightarrow> u8 \<Rightarrow> u64 \<Rightarrow> cbor_enc option" where
  "encode_header_and_size has_buf buflen in_use cbor_type uval =
     (let (need_bytes, major_type_byte) =
        (if uval < 24 then (1, cbor_type OR ucast (uval AND 0xff))
         else if uval \<le> 0xff then (2, cbor_type + 24)
         else if uval \<le> 0xffff then (3, cbor_type + 25)
         else if uval \<le> 0xffffffff then (5, cbor_type + 26)
         else (9, cbor_type + 27));
        total = int need_bytes + uint in_use
      in if \<not> has_buf then Some (Enc_Need total)
         else if sint (buflen - in_use) < int need_bytes then Some Enc_Error
         else map_option (\<lambda>bs. Enc_Done (major_type_byte # bs) total) (cbor_size_bytes (need_bytes - 1) uval))"

definition encode_byte_string_header :: "bool \<Rightarrow> u64 \<Rightarrow> u64 \<Rightarrow> u64 \<Rightarrow> cbor_enc option" where
  "encode_byte_string_header has_buf buflen in_use n =
     encode_header_and_size has_buf buflen in_use CborByteStringType n"

definition encode_array_header :: "bool \<Rightarrow> u64 \<Rightarrow> u64 \<Rightarrow> u64 \<Rightarrow> cbor_enc option" where
  "encode_array_header has_buf buflen in_use n =
     encode_header_and_size has_buf buflen in_use CborArrayType n"

definition encode_uint64 :: "bool \<Rightarrow> u64 \<Rightarrow> u64 \<Rightarrow> u64 \<Rightarrow> cbor_enc option" where
  "encode_uint64 has_buf buflen in_use n =
     encode_header_and_size has_buf buflen in_use CborIntegerType n"

section \<open>Checksums\<close>

definition crc16_bit :: "u16 \<Rightarrow> u16" where
  "crc16_bit crc = (if crc AND 1 \<noteq> 0 then drop_bit 1 crc XOR 0xa001 else drop_bit 1 crc)"

definition crc16 :: "bytes \<Rightarrow> u16" where
  "crc16 data = foldl (\<lambda>crc b. (crc16_bit ^^ 8) (crc XOR ucast b)) 0 data"

definition POLY :: u32 where "POLY = 0x82f63b78"

definition crc32c_bit :: "u32 \<Rightarrow> u32" where
  "crc32c_bit crc = (if crc AND 1 \<noteq> 0 then drop_bit 1 crc XOR POLY else drop_bit 1 crc)"

definition crc32c_row0 :: "u32 list" where
  "crc32c_row0 = map (\<lambda>n. (crc32c_bit ^^ 8) (of_nat n)) [0..<256]"

definition crc32c_next :: "u32 \<Rightarrow> u32" where
  "crc32c_next crc = crc32c_row0 ! unat (crc AND 0xff) XOR drop_bit 8 crc"

definition crc32c_table :: "u32 list list" where
  "crc32c_table = map (\<lambda>k. map (\<lambda>n. (crc32c_next ^^ k) (crc32c_row0 ! n)) [0..<256]) [0..<8]"

text \<open>The byte loop; \<open>crc\<close> is a 64-bit variable, the table entries have 32 bits.\<close>

definition crc32c_byte :: "u64 \<Rightarrow> u8 \<Rightarrow> u64" where
  "crc32c_byte crc b =
     ucast (crc32c_table ! 0 ! unat ((crc XOR ucast b) AND 0xff)) XOR drop_bit 8 crc"

fun crc32c_align :: "u64 \<Rightarrow> nat \<Rightarrow> bytes \<Rightarrow> u64 \<times> bytes" where
  "crc32c_align crc addr [] = (crc, [])"
| "crc32c_align crc addr (b # bs) =
     (if addr mod 8 \<noteq> 0 then crc32c_align (crc32c_byte crc b) (addr + 1) bs else (crc, b # bs))"

fun le_qword :: "bytes \<Rightarrow> u64" where
  "le_qword [] = 0"
| "le_qword (b # bs) = ucast b OR push_bit 8 (le_qword bs)"

definition crc32c_qword :: "u64 \<Rightarrow> bytes \<Rightarrow> u64" where
  "crc32c_qword crc0 bs =
     (let crc = crc0 XOR le_qword bs;
          T = (\<lambda>k i. ucast (crc32c_table ! k ! unat (i :: u64)) :: u64)
      in T 7 (crc AND 0xff) XOR T 6 (drop_bit 8 crc AND 0xff) XOR T 5 (drop_bit 16 crc AND 0xff)
         XOR T 4 (drop_bit 24 crc AND 0xff) XOR T 3 (drop_bit 32 crc AND 0xff)
         XOR T 2 (drop_bit 40 crc AND 0xff) XOR T 1 (drop_bit 48 crc AND 0xff) XOR T 0 (drop_bit 56 crc))"

fun crc32c_qwords :: "u64 \<Rightarrow> bytes \<Rightarrow> u64 \<times> bytes" where
  "crc32c_qwords crc (b0 # b1 # b2 # b3 # b4 # b5 # b6 # b7 # bs) =
     crc32c_qwords (crc32c_qword crc [b0, b1, b2, b3, b4, b5, b6, b7]) bs"
| "crc32c_qwords crc bs = (crc, bs)"

text \<open>\<open>addr\<close> is the address of the buffer, which decides how many bytes come before the quadwords.\<close>

definition crc32c_sw :: "u32 \<Rightarrow> nat \<Rightarrow> bytes \<Rightarrow> u32" where
  "crc32c_sw crci addr buf =
     (let (crc1, rest1) = crc32c_align (ucast (crci XOR 0xffffffff)) addr buf;
          (crc2, rest2) = crc32c_qwords crc1 rest1
      in ucast (foldl crc32c_byte crc2 rest2) XOR 0xffffffff)"

section \<open>The table-driven checksum\<close>

text \<open>The definition of the checksum: one bit at a time.\<close>

definition crc32c_ref :: "u32 \<Rightarrow> bytes \<Rightarrow> u32" where
  "crc32c_ref crci buf =
     foldl (\<lambda>crc b. (crc32c_bit ^^ 8) (crc XOR ucast b)) (crci XOR 0xffffffff) buf XOR 0xffffffff"

text \<open>The same step on 64 bits, where the whole argument is a linear map.\<close>

definition wide_bit :: "u64 \<Rightarrow> u64" where
  "wide_bit x = drop_bit 1 x XOR (if bit x 0 then ucast POLY else 0)"

lemma wide_bit_xor: "wide_bit (x XOR y) = wide_bit x XOR wide_bit y"
  by (rule bit_word_eqI) (auto simp: wide_bit_def bit_simps)

lemma wide_bits_xor: "(wide_bit ^^ n) (x XOR y) = (wide_bit ^^ n) x XOR (wide_bit ^^ n) y"
  by (induction n) (simp_all add: wide_bit_xor)

lemma wide_bit_ucast: "wide_bit (ucast c) = ucast (crc32c_bit c)"
proof -
  have odd: "c AND 1 \<noteq> 0 \<longleftrightarrow> bit c 0" by (simp add: bit_0 and_one_eq odd_iff_mod_2_eq_one)
  show ?thesis
    by (rule bit_word_eqI)
      (auto simp: wide_bit_def crc32c_bit_def odd bit_simps dest: bit_imp_le_length)
qed

lemma wide_bits_ucast: "(wide_bit ^^ n) (ucast c) = ucast ((crc32c_bit ^^ n) c)"
  by (induction n) (simp_all add: wide_bit_ucast)

text \<open>Shifted out bits cost nothing as long as no set bit reaches the end.\<close>

lemma wide_bits_push:
  "(\<And>j. bit b j \<Longrightarrow> j + n < 64) \<Longrightarrow> (wide_bit ^^ n) (push_bit n b) = b"
proof (induction n)
  case (Suc n)
  have "wide_bit (push_bit (Suc n) b) = push_bit n b"
  proof (rule bit_word_eqI)
    fix i assume "i < LENGTH(64)"
    then show "bit (wide_bit (push_bit (Suc n) b)) i = bit (push_bit n b) i"
      using Suc.prems [of "i - n"] by (auto simp: wide_bit_def bit_simps simp del: push_bit_Suc)
  qed
  moreover have "(wide_bit ^^ n) (push_bit n b) = b"
    by (rule Suc.IH) (use Suc.prems in fastforce)
  ultimately show ?case by (simp add: funpow_swap1)
qed simp

lemma wide_bits_push_byte:
  "n \<le> 56 \<Longrightarrow> (wide_bit ^^ (n + k)) (push_bit n (ucast (b :: u8))) = (wide_bit ^^ k) (ucast b)"
proof -
  assume le: "n \<le> 56"
  have "(wide_bit ^^ n) (push_bit n (ucast b)) = ucast b"
    by (rule wide_bits_push) (use le in \<open>auto simp: bit_simps dest: bit_imp_le_length\<close>)
  then show ?thesis by (simp add: add.commute [of n] funpow_add)
qed

lemma index_low_byte:
  "unat (x AND 0xff :: u64) = unat (ucast x :: u8)"
  "unat (y AND 0xff :: u32) = unat (ucast y :: u8)"
proof -
  have "(0xff :: u64) = mask 8" "(0xff :: u32) = mask 8" by (simp_all add: mask_eq_exp_minus_1)
  then have "x AND 0xff = take_bit 8 x" "y AND 0xff = take_bit 8 y" by (simp_all only: take_bit_eq_mask)
  then show "unat (x AND 0xff :: u64) = unat (ucast x :: u8)" "unat (y AND 0xff :: u32) = unat (ucast y :: u8)"
    by (simp_all only: unsigned_take_bit_eq unsigned_ucast_eq) simp_all
qed

lemma byte_up: "(ucast (ucast (b :: u8) :: u32) :: u64) = ucast b"
  by (rule bit_word_eqI) (auto simp: bit_simps dest: bit_imp_le_length)

lemma ucast_up_down: "(ucast (ucast (a :: u32) :: u64) :: u32) = a"
  by (rule bit_word_eqI) (auto simp: bit_simps)

lemma ucast_inj32:
  assumes "(ucast (a :: u32) :: u64) = ucast b"
  shows "a = b"
  using arg_cong [OF assms, of "ucast :: u64 \<Rightarrow> u32"] by (simp only: ucast_up_down)

lemma row0_byte: "crc32c_row0 ! unat (b :: u8) = (crc32c_bit ^^ 8) (ucast b)"
proof -
  have "unat b < 256" using unsigned_less [of b] by simp
  then show ?thesis by (simp add: crc32c_row0_def)
qed

lemma next_eq: "crc32c_next c = (crc32c_bit ^^ 8) c"
proof -
  let ?lo = "ucast c :: u8" and ?hi = "ucast (drop_bit 8 c) :: u64"
  have "(ucast c :: u64) = push_bit 8 ?hi XOR ucast ?lo"
    by (rule bit_word_eqI) (auto simp: bit_simps dest: bit_imp_le_length)
  then have "(wide_bit ^^ 8) (ucast c) = (wide_bit ^^ 8) (push_bit 8 ?hi) XOR (wide_bit ^^ 8) (ucast ?lo)"
    by (simp only: wide_bits_xor)
  moreover have "(wide_bit ^^ 8) (push_bit 8 ?hi) = ?hi"
    by (rule wide_bits_push) (auto simp: bit_simps dest: bit_imp_le_length)
  moreover have "(wide_bit ^^ 8) (ucast ?lo) = ucast (crc32c_row0 ! unat ?lo)"
    using wide_bits_ucast [of 8 "ucast ?lo"] by (simp only: row0_byte byte_up)
  ultimately have "ucast ((crc32c_bit ^^ 8) c) = (?hi XOR ucast (crc32c_row0 ! unat ?lo))"
    by (simp only: wide_bits_ucast)
  also have "\<dots> = ucast (crc32c_next c)"
    by (rule bit_word_eqI)
      (auto simp: crc32c_next_def index_low_byte bit_simps dest: bit_imp_le_length)
  finally show ?thesis by (rule ucast_inj32 [symmetric])
qed

lemma table_byte:
  assumes "k < 8"
  shows "(ucast (crc32c_table ! k ! unat (b :: u8)) :: u64) = (wide_bit ^^ (8 * Suc k)) (ucast b)"
proof -
  have "unat b < 256" using unsigned_less [of b] by simp
  then have "crc32c_table ! k ! unat b = ((crc32c_bit ^^ 8) ^^ k) ((crc32c_bit ^^ 8) (ucast b))"
    using assms by (simp add: crc32c_table_def row0_byte next_eq [abs_def])
  also have "\<dots> = (crc32c_bit ^^ (8 * Suc k)) (ucast b)"
    by (simp only: funpow_mult funpow_add [THEN fun_cong, unfolded comp_apply, symmetric] mult_Suc_right add.commute)
  finally have "(ucast (crc32c_table ! k ! unat b) :: u64) = ucast ((crc32c_bit ^^ (8 * Suc k)) (ucast b))"
    by (rule arg_cong)
  also have "\<dots> = (wide_bit ^^ (8 * Suc k)) (ucast b)"
    by (simp only: wide_bits_ucast [symmetric] byte_up)
  finally show ?thesis .
qed


text \<open>A byte step is eight wide steps, and a quadword step is sixty-four.\<close>

definition narrow :: "u64 \<Rightarrow> bool" where
  "narrow crc \<longleftrightarrow> (\<exists>c :: u32. crc = ucast c)"

lemma byte_step:
  assumes "narrow crc"
  shows "crc32c_byte crc b = (wide_bit ^^ 8) (crc XOR ucast b)" and "narrow (crc32c_byte crc b)"
proof -
  obtain c :: u32 where c: "crc = ucast c" using assms by (auto simp: narrow_def)
  let ?lo = "ucast (crc XOR ucast b) :: u8" and ?hi = "drop_bit 8 crc"
  have "crc XOR ucast b = push_bit 8 ?hi XOR ucast ?lo"
    by (rule bit_word_eqI) (auto simp: bit_simps dest: bit_imp_le_length)
  then have "(wide_bit ^^ 8) (crc XOR ucast b) = (wide_bit ^^ 8) (push_bit 8 ?hi XOR ucast ?lo)"
    by (rule arg_cong)
  also have "\<dots> = (wide_bit ^^ 8) (push_bit 8 ?hi) XOR (wide_bit ^^ 8) (ucast ?lo)"
    by (rule wide_bits_xor)
  finally have "(wide_bit ^^ 8) (crc XOR ucast b)
      = (wide_bit ^^ 8) (push_bit 8 ?hi) XOR (wide_bit ^^ 8) (ucast ?lo)" .
  moreover have "(wide_bit ^^ 8) (push_bit 8 ?hi) = ?hi"
    by (rule wide_bits_push) (auto simp: bit_simps c dest: bit_imp_le_length)
  moreover have "(wide_bit ^^ 8) (ucast ?lo) = ucast (crc32c_table ! 0 ! unat ?lo)"
    using table_byte [of 0 ?lo] by simp
  ultimately show eq: "crc32c_byte crc b = (wide_bit ^^ 8) (crc XOR ucast b)"
    by (simp add: crc32c_byte_def index_low_byte xor.commute)
  have "crc XOR ucast b = ucast (c XOR ucast b)"
    by (rule bit_word_eqI) (auto simp: bit_simps c dest: bit_imp_le_length)
  then show "narrow (crc32c_byte crc b)" unfolding eq by (auto simp: narrow_def wide_bits_ucast)
qed

lemma le_qword_bits: "bit (le_qword bs) j \<Longrightarrow> j < 8 * length bs"
proof (induction bs arbitrary: j)
  case (Cons b bs)
  have "j - 8 < 8 * length bs" if "bit (le_qword bs) (j - 8)" using Cons.IH that .
  then show ?case using Cons.prems by (auto simp: bit_simps dest: bit_imp_le_length)
qed simp

lemma bytes_step:
  "narrow crc \<Longrightarrow> length bs \<le> 8 \<Longrightarrow>
   foldl crc32c_byte crc bs = (wide_bit ^^ (8 * length bs)) (crc XOR le_qword bs) \<and> narrow (foldl crc32c_byte crc bs)"
proof (induction bs arbitrary: crc)
  case (Cons b bs)
  let ?n = "8 * length bs"
  have low: "(ucast b :: u64) OR push_bit 8 (le_qword bs) = ucast b XOR push_bit 8 (le_qword bs)"
    by (rule bit_word_eqI) (auto simp: bit_simps dest: bit_imp_le_length)
  have push: "(wide_bit ^^ 8) (push_bit 8 (le_qword bs)) = le_qword bs"
    by (rule wide_bits_push) (use Cons.prems(2) in \<open>auto dest!: le_qword_bits\<close>)
  have "foldl crc32c_byte crc (b # bs) = (wide_bit ^^ ?n) (crc32c_byte crc b XOR le_qword bs)"
    using Cons.IH [OF byte_step(2) [OF Cons.prems(1)], of b] Cons.prems(2) by simp
  also have "\<dots> = (wide_bit ^^ ?n) ((wide_bit ^^ 8) ((crc XOR ucast b) XOR push_bit 8 (le_qword bs)))"
    unfolding byte_step(1) [OF Cons.prems(1)] wide_bits_xor [of 8 "crc XOR ucast b"] push ..
  also have "\<dots> = (wide_bit ^^ (8 * length (b # bs))) (crc XOR le_qword (b # bs))"
    unfolding le_qword.simps low xor.assoc list.size(4) mult_Suc_right add.commute [of 8] funpow_add comp_apply
    by (simp only: One_nat_def mult_Suc_right add_mult_distrib2 mult_1_right funpow_add comp_apply mult_0_right funpow_0)
  finally have eq: "foldl crc32c_byte crc (b # bs)
      = (wide_bit ^^ (8 * length (b # bs))) (crc XOR le_qword (b # bs))" .
  have "narrow (foldl crc32c_byte (crc32c_byte crc b) bs)"
    by (rule conjunct2 [OF Cons.IH [OF byte_step(2) [OF Cons.prems(1)]]]) (use Cons.prems(2) in simp)
  then have "narrow (foldl crc32c_byte crc (b # bs))" by (simp only: foldl_Cons)
  with eq show ?case by blast
qed simp

lemma peel_byte:
  assumes "m < 8"
  shows "(wide_bit ^^ (8 * Suc m)) y
    = ucast (crc32c_table ! m ! unat (y AND 0xff)) XOR (wide_bit ^^ (8 * m)) (drop_bit 8 y)"
proof -
  let ?lo = "ucast y :: u8"
  have y: "y = ucast ?lo XOR push_bit 8 (drop_bit 8 y)"
    by (rule bit_word_eqI) (auto simp: bit_simps dest: bit_imp_le_length)
  have push: "(wide_bit ^^ 8) (push_bit 8 (drop_bit 8 y)) = drop_bit 8 y"
    by (rule wide_bits_push) (auto simp: bit_simps dest: bit_imp_le_length)
  have "(wide_bit ^^ (8 * Suc m)) y
      = (wide_bit ^^ (8 * Suc m)) (ucast ?lo) XOR (wide_bit ^^ (8 * Suc m)) (push_bit 8 (drop_bit 8 y))"
    unfolding wide_bits_xor [symmetric] by (rule arg_cong [OF y])
  moreover have "(wide_bit ^^ (8 * Suc m)) (push_bit 8 (drop_bit 8 y)) = (wide_bit ^^ (8 * m)) (drop_bit 8 y)"
    by (simp only: mult_Suc_right add.commute [of 8] funpow_add comp_apply push)
  ultimately show ?thesis by (simp only: table_byte [OF assms] index_low_byte)
qed

lemma qword_step:
  assumes "narrow crc" and "length bs = 8"
  shows "crc32c_qword crc bs = foldl crc32c_byte crc bs"
proof -
  let ?x = "crc XOR le_qword bs"
  have last: "drop_bit 56 y AND 0xff = drop_bit 56 y" for y :: u64
  proof -
    have "(0xff :: u64) = mask 8" by (simp add: mask_eq_exp_minus_1)
    then have "drop_bit 56 y AND 0xff = take_bit 8 (drop_bit 56 y)" by (simp only: take_bit_eq_mask)
    also have "\<dots> = drop_bit 56 y" by (rule bit_word_eqI) (auto simp: bit_simps dest: bit_imp_le_length)
    finally show ?thesis .
  qed
  have "(wide_bit ^^ 64) ?x = crc32c_qword crc bs"
    using peel_byte [of 7 ?x] peel_byte [of 6 "drop_bit 8 ?x"] peel_byte [of 5 "drop_bit 16 ?x"]
      peel_byte [of 4 "drop_bit 24 ?x"] peel_byte [of 3 "drop_bit 32 ?x"] peel_byte [of 2 "drop_bit 40 ?x"]
      peel_byte [of 1 "drop_bit 48 ?x"] peel_byte [of 0 "drop_bit 56 ?x"]
    by (simp add: crc32c_qword_def Let_def last del: drop_bit_xor)
  then show ?thesis using bytes_step [OF assms(1), of bs] assms(2) by simp
qed

lemma qwords_step:
  "narrow crc \<Longrightarrow> crc32c_qwords crc bs = (crc', rest) \<Longrightarrow>
   narrow crc' \<and> foldl crc32c_byte crc' rest = foldl crc32c_byte crc bs"
proof (induction crc bs rule: crc32c_qwords.induct)
  case (1 crc b0 b1 b2 b3 b4 b5 b6 b7 bs)
  let ?bs = "[b0, b1, b2, b3, b4, b5, b6, b7]"
  have q: "crc32c_qword crc ?bs = foldl crc32c_byte crc ?bs" by (rule qword_step [OF "1.prems"(1)]) simp
  have n: "narrow (crc32c_qword crc ?bs)" 
    unfolding q by (rule conjunct2 [OF bytes_step [OF "1.prems"(1)]]) simp
  show ?case using "1.IH" [OF n] "1.prems"(2) by (simp add: q)
qed simp_all

lemma align_step:
  "narrow crc \<Longrightarrow> crc32c_align crc addr bs = (crc', rest) \<Longrightarrow>
   narrow crc' \<and> foldl crc32c_byte crc' rest = foldl crc32c_byte crc bs"
  by (induction crc addr bs rule: crc32c_align.induct) (auto simp: byte_step(2) split: if_splits)

lemma fold_byte_ref:
  "foldl crc32c_byte (ucast c) bs = ucast (foldl (\<lambda>crc b. (crc32c_bit ^^ 8) (crc XOR ucast b)) c bs)"
proof (induction bs arbitrary: c)
  case (Cons b bs)
  have "(ucast c :: u64) XOR ucast b = ucast (c XOR ucast b)"
    by (rule bit_word_eqI) (auto simp: bit_simps dest: bit_imp_le_length)
  then have "crc32c_byte (ucast c) b = ucast ((crc32c_bit ^^ 8) (c XOR ucast b))"
    by (subst byte_step(1)) (auto simp: narrow_def wide_bits_ucast)
  then show ?case using Cons.IH by simp
qed simp

text \<open>
  C28. The table-driven CRC-32C, with its alignment loop, its eight bytes at a time and its tail
  loop, equals the bit-by-bit definition for every start value, every buffer and every address of
  the buffer.
\<close>
theorem crc32c_sw_correct: "crc32c_sw crci addr buf = crc32c_ref crci buf"
proof -
  let ?c = "ucast (crci XOR 0xffffffff) :: u64"
  obtain c1 r1 where a: "crc32c_align ?c addr buf = (c1, r1)" by (cases "crc32c_align ?c addr buf")
  obtain c2 r2 where q: "crc32c_qwords c1 r1 = (c2, r2)" by (cases "crc32c_qwords c1 r1")
  have n: "narrow ?c" unfolding narrow_def by blast
  have "foldl crc32c_byte c2 r2 = foldl crc32c_byte ?c buf"
    using align_step [OF n a] qwords_step [OF _ q] by simp
  then show ?thesis
    by (simp add: crc32c_sw_def a q crc32c_ref_def fold_byte_ref ucast_up_down)
qed

section \<open>Heads decode to what was encoded\<close>

text \<open>
  The reader of a head as RFC 8949 defines it: the major type in the upper three bits of the first
  byte, the argument in its lower five or in the 1, 2, 4 or 8 big-endian bytes that follow.
\<close>

definition be_value :: "bytes \<Rightarrow> u64" where
  "be_value bs = foldl (\<lambda>v b. push_bit 8 v OR ucast b) 0 bs"

definition cbor_take_head :: "bytes \<Rightarrow> ((u8 \<times> u64) \<times> bytes) option" where
  "cbor_take_head bs =
     (case bs of [] \<Rightarrow> None
      | b # rest \<Rightarrow>
          let major = b AND 0xe0; info = b AND 0x1f;
              n = (if info = 24 then 1 else if info = 25 then 2 else if info = 26 then 4
                   else if info = 27 then 8 else 0)
          in if info < 24 then Some ((major, ucast info), rest)
             else if n = 0 \<or> length rest < n then None
             else Some ((major, be_value (take n rest)), drop n rest))"

definition cbor_head :: "u8 \<times> u64 \<Rightarrow> bytes" where
  "cbor_head tv = (case encode_header_and_size True 9 0 (fst tv) (snd tv) of
     Some (Enc_Done bs n) \<Rightarrow> bs | _ \<Rightarrow> [0xff])"

definition cbor_head_ok :: "u8 \<times> u64 \<Rightarrow> bool" where
  "cbor_head_ok tv \<longleftrightarrow>
     fst tv \<in> set [0x00, 0x20, 0x40, 0x60, 0x80, 0xa0, 0xc0, 0xe0] \<and> snd tv \<le> 0xffffffff"

lemma mask_ff: "(0xff :: u32) = mask 8"
  by (simp add: mask_eq_exp_minus_1)

lemma size_byte:
  assumes "k \<le> 24"
  shows "(ucast (drop_bit k (v AND ucast (push_bit k (0xff :: u32)) :: u64)) :: u8) = ucast (drop_bit k v)"
  using assms unfolding mask_ff by (intro bit_word_eqI) (auto simp: bit_simps dest: bit_imp_le_length)

lemma size_bytes_step:
  "r \<le> 3 \<Longrightarrow> cbor_size_bytes (Suc r) v = map_option ((#) (ucast (drop_bit (8 * r) v))) (cbor_size_bytes r v)"
  using size_byte [of "8 * r" v] by (simp add: Let_def)

lemma size_bytes_eq:
  "cbor_size_bytes 1 v = Some [ucast v]"
  "cbor_size_bytes 2 v = Some [ucast (drop_bit 8 v), ucast v]"
  "cbor_size_bytes 4 v = Some [ucast (drop_bit 24 v), ucast (drop_bit 16 v), ucast (drop_bit 8 v), ucast v]"
  using size_bytes_step [of 0 v] size_bytes_step [of 1 v] size_bytes_step [of 2 v] size_bytes_step [of 3 v]
  by (simp_all add: eval_nat_numeral del: cbor_size_bytes.simps(2))

lemma small_bits:
  assumes "unat (v :: u64) < 2 ^ n" and "bit v j"
  shows "j < n"
proof -
  have "bit (unat v) j" using assms(2) by (auto simp: bit_simps dest: bit_imp_le_length)
  moreover have "take_bit n (unat v) = unat v" using assms(1) by (simp add: take_bit_nat_eq_self_iff)
  ultimately show ?thesis by (metis bit_take_bit_iff)
qed

lemma be_value_bytes:
  "unat v < 2 ^ 8 \<Longrightarrow> be_value [ucast v] = v"
  "unat v < 2 ^ 16 \<Longrightarrow> be_value [ucast (drop_bit 8 v), ucast v] = v"
  "unat v < 2 ^ 32 \<Longrightarrow>
     be_value [ucast (drop_bit 24 v), ucast (drop_bit 16 v), ucast (drop_bit 8 v), ucast v] = v"
  unfolding be_value_def
  by (rule bit_word_eqI,
      auto simp: bit_simps dest: small_bits [where n = 8, simplified] small_bits [where n = 16, simplified]
        small_bits [where n = 32, simplified] bit_imp_le_length)+

lemma head_byte_table:
  "\<forall>t \<in> set [0x00, 0x20, 0x40, 0x60, 0x80, 0xa0, 0xc0, 0xe0 :: u8].
     (\<forall>u \<in> set (map of_nat [0..<24]). (t OR u) AND 0xe0 = t \<and> (t OR u) AND 0x1f = u)
     \<and> (\<forall>u \<in> set [24, 25, 26, 27]. (t + u) AND 0xe0 = t \<and> (t + u) AND 0x1f = u)"
  by code_simp

lemma head_byte:
  assumes "t \<in> set [0x00, 0x20, 0x40, 0x60, 0x80, 0xa0, 0xc0, 0xe0 :: u8]"
  shows "u < 24 \<Longrightarrow> (t OR u) AND 0xe0 = t" "u < 24 \<Longrightarrow> (t OR u) AND 0x1f = u"
    "u \<in> set [24, 25, 26, 27] \<Longrightarrow> (t + u) AND 0xe0 = t"
    "u \<in> set [24, 25, 26, 27] \<Longrightarrow> (t + u) AND 0x1f = u"
proof -
  have "u \<in> set (map of_nat [0..<24])" if "u < 24"
  proof -
    have "unat u < 24" using that by (simp add: word_less_nat_alt)
    then have "u \<in> of_nat ` {0..<24}" by (intro image_eqI [of _ _ "unat u"]) simp_all
    then show ?thesis by simp
  qed
  then show "u < 24 \<Longrightarrow> (t OR u) AND 0xe0 = t" "u < 24 \<Longrightarrow> (t OR u) AND 0x1f = u"
    using head_byte_table assms by blast+
  show "u \<in> set [24, 25, 26, 27] \<Longrightarrow> (t + u) AND 0xe0 = t"
    "u \<in> set [24, 25, 26, 27] \<Longrightarrow> (t + u) AND 0x1f = u"
    using head_byte_table assms by blast+
qed

lemma cbor_head_cases:
  assumes "v \<le> 0xffffffff"
  shows "cbor_head (t, v) =
    (if v < 24 then [t OR ucast (v AND 0xff)]
     else if v \<le> 0xff then [t + 24, ucast v]
     else if v \<le> 0xffff then [t + 25, ucast (drop_bit 8 v), ucast v]
     else [t + 26, ucast (drop_bit 24 v), ucast (drop_bit 16 v), ucast (drop_bit 8 v), ucast v])"
  using assms size_bytes_eq [of v]
  by (simp add: cbor_head_def encode_header_and_size_def)

lemma ucast_small_byte:
  assumes "v < 24"
  shows "ucast (v AND 0xff :: u64) = (ucast v :: u8)" and "(ucast v :: u8) < 24"
    and "ucast (ucast v :: u8) = v"
proof -
  have ff: "(0xff :: u64) = mask 8" by (simp add: mask_eq_exp_minus_1)
  show "ucast (v AND 0xff :: u64) = (ucast v :: u8)"
    unfolding ff by (rule bit_word_eqI) (auto simp: bit_simps)
  have v: "unat v < 24" using assms by (simp add: word_less_nat_alt)
  then have "unat (ucast v :: u8) = unat v" by (simp add: unsigned_ucast_eq take_bit_nat_eq_self_iff)
  then show "(ucast v :: u8) < 24" using v by (simp add: word_less_nat_alt)
  show "ucast (ucast v :: u8) = v"
    by (rule bit_word_eqI) (use v small_bits [of v 5] in \<open>fastforce simp: bit_simps\<close>)
qed

lemma cbor_take_head_ok:
  assumes "cbor_head_ok (t, v)"
  shows "cbor_take_head (cbor_head (t, v) @ rest) = Some ((t, v), rest)"
proof -
  have t: "t \<in> set [0x00, 0x20, 0x40, 0x60, 0x80, 0xa0, 0xc0, 0xe0]" and v: "v \<le> 0xffffffff"
    using assms by (auto simp: cbor_head_ok_def)
  note hb = head_byte [OF t]
  show ?thesis
  proof (cases "v < 24")
    case True
    then show ?thesis
      using ucast_small_byte [OF True] hb(1,2) [OF ucast_small_byte(2) [OF True]]
      by (simp add: cbor_head_cases [OF v] cbor_take_head_def Let_def)
  next
    case False
    then show ?thesis
      using v hb(3,4) [of 24] hb(3,4) [of 25] hb(3,4) [of 26] be_value_bytes [of v]
      by (simp add: cbor_head_cases [OF v] cbor_take_head_def Let_def word_le_nat_alt)
  qed
qed

lemma cbor_head_nonempty: "cbor_head tv \<noteq> []"
  by (auto simp: cbor_head_def encode_header_and_size_def Let_def
      split: option.splits cbor_enc.splits if_splits)

interpretation cbor: field_codec cbor_head cbor_take_head cbor_head_ok
  by unfold_locales (metis cbor_take_head_ok surj_pair, rule cbor_head_nonempty)

text \<open>
  C29. A sequence of CBOR heads (integers, string headers, array headers) with arguments up to
  \<open>UINT32_MAX\<close> is read back as it was written, whatever follows it in the buffer.
\<close>
theorem cbor_heads_roundtrip:
  assumes "\<forall>tv \<in> set tvs. cbor_head_ok tv"
  shows "decode_seq cbor_take_head (length tvs) (concat (map cbor_head tvs) @ rest) = Some (tvs, rest)"
  using assms by (rule cbor.decode_seq_concat)

theorem cbor_heads_roundtrip_witness:
  "decode_seq cbor_take_head 2 (concat (map cbor_head [(0x80, 2), (0, 70000)]) @ [7])
     = Some ([(0x80, 2), (0, 70000)], [7])"
proof -
  have "\<forall>tv \<in> set [(0x80, 2), (0, 70000)]. cbor_head_ok tv" by (simp add: cbor_head_ok_def)
  from cbor_heads_roundtrip [OF this, of "[7]"] show ?thesis by (simp only: list.size numeral_2_eq_2 One_nat_def)  simp
qed

text \<open>
  \<open>encode_header_and_size\<close> needs exactly the number of bytes that
  \<open>uint64_encoding_len\<close> announces, with or without a buffer, and refuses a buffer that is shorter;
  with room enough it succeeds for every argument up to \<open>UINT32_MAX\<close>.
\<close>
theorem encode_header_size:
  "encode_header_and_size False buflen in_use t v = Some (Enc_Need (int (uint64_encoding_len v) + uint in_use))
   \<and> (sint (buflen - in_use) < int (uint64_encoding_len v) \<longrightarrow>
        encode_header_and_size True buflen in_use t v = Some Enc_Error)
   \<and> (int (uint64_encoding_len v) \<le> sint (buflen - in_use) \<and> v \<le> 0xffffffff \<longrightarrow>
        (\<exists>bs. encode_header_and_size True buflen in_use t v
                = Some (Enc_Done bs (int (uint64_encoding_len v) + uint in_use))
              \<and> length bs = uint64_encoding_len v))"
  using size_bytes_eq [of v]
  by (auto simp: encode_header_and_size_def uint64_encoding_len_def)

theorem encode_header_size_witness:
  "encode_header_and_size True 1 0 0 300 = Some Enc_Error
   \<and> (\<exists>bs. encode_header_and_size True 9 0 0 300 = Some (Enc_Done bs 3) \<and> length bs = 3)"
  using encode_header_size [of 1 0 0 300] encode_header_size [of 9 0 0 300]
  by (simp add: uint64_encoding_len_def)

text \<open>
  For an argument above \<open>UINT32_MAX\<close> the writer reaches a shift of a 32-bit constant by 32
  bits or more, whatever the room in the buffer, although the head has the size it asks for.
\<close>
theorem encode_header_large_undefined:
  assumes "0xffffffff < v" and "9 \<le> sint (buflen - in_use)"
  shows "encode_header_and_size True buflen in_use t v = None"
proof -
  have "\<not> v \<le> 0xffffffff" using assms(1) by simp
  moreover have "v \<le> 0xffff \<Longrightarrow> v \<le> 0xffffffff" by (erule order_trans) simp
  moreover have "v \<le> 0xff \<Longrightarrow> v \<le> 0xffffffff" by (erule order_trans) simp
  moreover have "v < 24 \<Longrightarrow> v \<le> 0xffffffff" by (drule order.strict_implies_order, erule order_trans) simp
  ultimately have "\<not> v < 24 \<and> \<not> v \<le> 0xff \<and> \<not> v \<le> 0xffff \<and> \<not> v \<le> 0xffffffff" by blast
  moreover have "cbor_size_bytes 8 v = None" by (simp add: eval_nat_numeral)
  ultimately show ?thesis using assms(2) by (simp add: encode_header_and_size_def)
qed

theorem encode_header_large_undefined_witness: "encode_header_and_size True 20 0 0 0x100000000 = None"
  by (rule encode_header_large_undefined) simp_all

end
