(* ===== verification/Acs_Signal.thy ===== *)
theory Acs_Signal
  imports Pending_Acs Cbor_Util
begin

text \<open>
  The aggregate custody signal on the wire: \<open>create_aggregate_custody_signal\<close> turns a pending
  ACS into the payload of an administrative bundle and clears the pending ACS,
  \<open>parse_aggregate_custody_signal\<close> reads such a payload
  (\<open>src/servlib/bundling/AggregateCustodySignal.cc\<close>). The theory shows that the assertions of
  the writer hold for every pending ACS that satisfies the invariant, that the writer fills exactly
  the bytes that were accounted for, and that the reader recovers the entries.
\<close>

section \<open>Data\<close>

definition ADMIN_AGGREGATE_CUSTODY_SIGNAL :: u8 where
  "ADMIN_AGGREGATE_CUSTODY_SIGNAL = 0x04"

definition CUSTODY_REDUNDANT_RECEPTION :: u8 where
  "CUSTODY_REDUNDANT_RECEPTION = 0x03"

text \<open>The parts of a bundle that the creation of an administrative record sets.\<close>

record admin_bundle =
  b_source :: endpoint_id
  b_dest :: endpoint_id
  b_replyto :: endpoint_id
  b_custodian :: endpoint_id
  b_is_admin :: bool
  b_expiration_secs :: u64
  b_payload :: bytes

record acs_data =
  admin_type :: u8
  admin_flags :: u8
  d_succeeded :: bool
  d_redundant :: bool
  d_reason :: u8
  d_entry_map :: acs_map

section \<open>The writer\<close>

text \<open>
  The loop over the entries: \<open>right_edge\<close> of the entry before and the room left in the buffer.
  \<open>None\<close> is a failed assertion.
\<close>

fun acs_write_entries :: "acs_map \<Rightarrow> u64 \<Rightarrow> nat \<Rightarrow> bytes option" where
  "acs_write_entries [] right len = Some []"
| "acs_write_entries ((k, entry) # m) right len =
     (let diff = left_edge entry - right in
      if diff \<noteq> diff_to_prev_right_edge entry then None
      else case sdnv_encode diff len of
        None \<Rightarrow> None
      | Some b1 \<Rightarrow>
          (case sdnv_encode (length_of_fill entry) (len - length b1) of
             None \<Rightarrow> None
           | Some b2 \<Rightarrow>
               if int (length b1 + length b2) \<noteq> sdnv_length entry then None
               else map_option (\<lambda>rest. b1 @ b2 @ rest)
                 (acs_write_entries m (left_edge entry + (length_of_fill entry - 1))
                   (len - length b1 - length b2))))"

text \<open>
  \<open>next_id\<close> is the id that \<open>GlobalStore::next_pacsid\<close> hands out. A signal to the null
  endpoint is refused after the source of the bundle was set, and the pending ACS is kept. The
  \<open>int\<close> that holds the signal length is exact for payloads below \<open>2^31 - 2\<close>.
\<close>

definition create_aggregate_custody_signal ::
    "admin_bundle \<Rightarrow> pending_acs \<Rightarrow> endpoint_id \<Rightarrow> u32 \<Rightarrow> (admin_bundle \<times> pending_acs) option" where
  "create_aggregate_custody_signal bundle pacs source next_id =
     (let bundle1 = bundle\<lparr>b_source := source\<rparr> in
      if same_eid (custody_eid pacs) null_eid then Some (bundle1, pacs)
      else
        let bundle2 = bundle1\<lparr>b_dest := custody_eid pacs, b_replyto := null_eid,
              b_custodian := null_eid, b_is_admin := True, b_expiration_secs := 86400\<rparr>;
            signal_len = 1 + 1 + unat (acs_payload_length pacs);
            byte0 = push_bit 4 ADMIN_AGGREGATE_CUSTODY_SIGNAL;
            byte1 = push_bit 7 (if succeeded pacs then 1 else 0) OR ucast (reason pacs AND 0x7f)
        in case acs_write_entries (acs_entry_map pacs) 0 (signal_len - 2) of
             None \<Rightarrow> None
           | Some body \<Rightarrow>
               Some (bundle2\<lparr>b_payload := byte0 # byte1 # body\<rparr>,
                     pacs\<lparr>pacs_id := next_id, acs_payload_length := 0, num_custody_ids := 0,
                          acs_entry_map := []\<rparr>))"

text \<open>
  The BIBE form of the signal (\<open>create_bibe_custody_signal\<close>) is a sequence of CBOR heads, written
  one after the other into a buffer of a precomputed size; each has to fit (\<open>None\<close> is the failed
  assertion). Here the source of the bundle is set after the test for the null endpoint.
\<close>

fun bibe_write :: "(u8 \<times> u64) list \<Rightarrow> nat \<Rightarrow> bytes option" where
  "bibe_write [] nfree = Some []"
| "bibe_write (f # fs) nfree =
     (case encode_header_and_size True (of_nat nfree) 0 (fst f) (snd f) of
        Some (Enc_Done bs n) \<Rightarrow> map_option ((@) bs) (bibe_write fs (nfree - length bs))
      | _ \<Rightarrow> None)"

definition bibe_fields :: "pending_acs \<Rightarrow> (u8 \<times> u64) list" where
  "bibe_fields pacs =
     [(CborArrayType, 2), (CborIntegerType, 4), (CborArrayType, 2),
      (CborIntegerType, ucast (reason pacs)),
      (CborArrayType, of_nat (length (acs_entry_map pacs)))]
     @ concat (map (\<lambda>(k, entry). [(CborArrayType, 2), (CborIntegerType, left_edge entry),
                                   (CborIntegerType, length_of_fill entry)]) (acs_entry_map pacs))"

definition create_bibe_custody_signal ::
    "admin_bundle \<Rightarrow> pending_acs \<Rightarrow> endpoint_id \<Rightarrow> u32 \<Rightarrow> (admin_bundle \<times> pending_acs) option" where
  "create_bibe_custody_signal bundle pacs source next_id =
     (if same_eid (custody_eid pacs) null_eid then Some (bundle, pacs)
      else
        let bundle1 = bundle\<lparr>b_source := source, b_dest := custody_eid pacs, b_replyto := null_eid,
              b_custodian := null_eid, b_is_admin := True, b_expiration_secs := 86400\<rparr>;
            max_size = 3 + 9 + length (acs_entry_map pacs) * 19
        in case bibe_write (bibe_fields pacs) max_size of
             None \<Rightarrow> None
           | Some body \<Rightarrow>
               Some (bundle1\<lparr>b_payload := body\<rparr>,
                     pacs\<lparr>pacs_id := next_id, acs_payload_length := 0, num_custody_ids := 0,
                          acs_entry_map := []\<rparr>))"

section \<open>The reader\<close>

lemma sdnv_take_shorter [termination_simp]: "sdnv_take bs = Some (v, r) \<Longrightarrow> length r < length bs"
  by (cases bs) (auto simp: sdnv_take_def sdnv_decode_def Let_def split: if_splits prod.splits)

text \<open>
  The loop: \<open>SDNV::decode\<close> fails with -1 or returns at least 1, so the buffer shrinks. \<open>None\<close>
  is \<open>return false\<close>. Entries are added with \<open>insert\<close>, which keeps an entry that is there;
  the fields the reader does not set stay 0.
\<close>

function acs_parse_entries :: "bytes \<Rightarrow> u64 \<Rightarrow> acs_map \<Rightarrow> acs_map option" where
  "acs_parse_entries bp right m =
     (if bp = [] then Some m
      else case sdnv_take bp of
        None \<Rightarrow> None
      | Some (diff, bp1) \<Rightarrow>
          (case sdnv_take bp1 of
             None \<Rightarrow> None
           | Some (fill_len, bp2) \<Rightarrow>
               let left = right + diff in
               if left = 0 then None
               else if fill_len > 0xffffffffffffffff - left + 1 then None
               else acs_parse_entries bp2 (left + (fill_len - 1))
                 (om_insert left \<lparr>left_edge = left, diff_to_prev_right_edge = 0,
                    length_of_fill = fill_len, sdnv_length = 0\<rparr> m)))"
  by pat_completeness auto
termination
  by (relation "measure (\<lambda>(bp, r, m). length bp)") (auto dest!: sdnv_take_shorter)

declare acs_parse_entries.simps [simp del]

definition parse_aggregate_custody_signal :: "bytes \<Rightarrow> acs_data option" where
  "parse_aggregate_custody_signal bp =
     (case bp of
        [] \<Rightarrow> None
      | b0 # bp1 \<Rightarrow>
          if drop_bit 4 b0 \<noteq> ADMIN_AGGREGATE_CUSTODY_SIGNAL then None
          else (case bp1 of
            [] \<Rightarrow> None
          | b1 # bp2 \<Rightarrow>
              (case acs_parse_entries bp2 0 [] of
                 None \<Rightarrow> None
               | Some m \<Rightarrow>
                   if length m > 0 then
                     Some \<lparr>admin_type = drop_bit 4 b0, admin_flags = b0 AND 0xf,
                           d_succeeded = (drop_bit 7 b1 \<noteq> 0),
                           d_redundant = (b1 AND 0x7f = CUSTODY_REDUNDANT_RECEPTION),
                           d_reason = b1 AND 0x7f, d_entry_map = m\<rparr>
                   else None)))"

definition reason_to_str :: "u8 \<Rightarrow> string" where
  "reason_to_str r =
     (if r = 0 then ''no additional info''
      else if r = 3 then ''redundant reception''
      else if r = 4 then ''depleted storage''
      else if r = 5 then ''eid unintelligible''
      else if r = 6 then ''no route to dest''
      else if r = 7 then ''no timely contact''
      else if r = 8 then ''block unintelligible''
      else ''unknown reason '' @ dec_string (unat r))"

section \<open>What the writer writes\<close>

definition entry_bytes :: "u64 \<times> acs_entry \<Rightarrow> bytes" where
  "entry_bytes x = sdnv_groups 0 (diff_to_prev_right_edge (snd x)) @ sdnv_groups 0 (length_of_fill (snd x))"

definition wire_bytes :: "acs_map \<Rightarrow> bytes" where
  "wire_bytes m = concat (map entry_bytes m)"

lemma wire_bytes_simps [simp]:
  "wire_bytes [] = []"
  "wire_bytes ((k, e) # m)
     = sdnv_groups 0 (diff_to_prev_right_edge e) @ sdnv_groups 0 (length_of_fill e) @ wire_bytes m"
  by (simp_all add: wire_bytes_def entry_bytes_def)

lemma length_wire_bytes [wire_simps]: "acs_chain r lo m \<Longrightarrow> int (length (wire_bytes m)) = acs_bytes m"
  by (induction r lo m rule: acs_chain.induct) (auto simp: length_sdnv_groups entry_ok_def)

lemma entry_right_edge:
  assumes "entry_ok r lo k e"
  shows "unat (left_edge e + (length_of_fill e - 1)) = fill_end (k, e) - 1"
proof -
  have "length_of_fill e \<noteq> 0" using entry_okD(4) [OF assms] by (auto simp: unat_gt_0)
  then show ?thesis
    using entry_okD(1,4,5) [OF assms] by (simp add: unat_word_ariths fill_end_def unat_pred)
qed

lemma entry_distance:
  assumes "entry_ok (unat right) lo k e"
  shows "left_edge e - right = diff_to_prev_right_edge e"
    and "right + diff_to_prev_right_edge e = left_edge e"
proof -
  have "right \<le> k" using entry_okD(3) [OF assms] by (simp add: word_le_nat_alt)
  then have "unat (k - right) = unat (diff_to_prev_right_edge e)"
    using entry_okD(6) [OF assms] by (simp add: unat_sub)
  then show *: "left_edge e - right = diff_to_prev_right_edge e"
    unfolding entry_okD(1) [OF assms] by (rule iffD2 [OF word_unat_eq_iff])
  show "right + diff_to_prev_right_edge e = left_edge e" by (simp flip: *)
qed

lemma acs_write_entries_ok:
  "acs_chain (unat right) lo m \<Longrightarrow> acs_write_entries m right (length (wire_bytes m)) = Some (wire_bytes m)"
proof (induction m arbitrary: right lo)
  case (Cons x m)
  obtain k e where x: "x = (k, e)" by (cases x)
  have ok: "entry_ok (unat right) lo k e" using Cons.prems x by simp
  have "acs_chain (unat (left_edge e + (length_of_fill e - 1))) (fill_end (k, e) + 1) m"
    unfolding entry_right_edge [OF ok] using Cons.prems x by simp
  note ih = Cons.IH [OF this]
  show ?case
    using ih entry_okD(7) [OF ok] entry_distance(1) [OF ok]
    by (simp add: x sdnv_encode_def sdnv_fill_groups length_sdnv_groups)
qed simp

section \<open>What the reader reads\<close>

definition wire_entry :: "acs_entry \<Rightarrow> acs_entry" where
  "wire_entry e = e\<lparr>diff_to_prev_right_edge := 0, sdnv_length := 0\<rparr>"

definition wire_map :: "acs_map \<Rightarrow> acs_map" where
  "wire_map m = map (\<lambda>(k, e). (k, wire_entry e)) m"

lemma acs_ids_wire_map [simp]: "acs_ids (wire_map m) = acs_ids m"
  by (auto simp: acs_ids_def wire_map_def fill_ids_def fill_end_def wire_entry_def)

lemma keys_wire_map [simp]: "fst ` set (wire_map m) = fst ` set m"
  by (force simp: wire_map_def)

lemma acs_parse_entries_ok:
  "acs_chain (unat right) lo m \<Longrightarrow> \<forall>x \<in> set acc. unat (fst x) < lo \<Longrightarrow>
   acs_parse_entries (wire_bytes m) right acc = Some (acc @ wire_map m)"
proof (induction m arbitrary: right lo acc)
  case (Cons x m)
  obtain k e where x: "x = (k, e)" by (cases x)
  have ok: "entry_ok (unat right) lo k e" using Cons.prems x by simp
  have left: "right + diff_to_prev_right_edge e = k" using entry_distance(2) [OF ok] entry_okD(1) [OF ok] by simp
  have k0: "k \<noteq> 0" using entry_okD(3) [OF ok] by auto
  let ?e = "\<lparr>left_edge = k, diff_to_prev_right_edge = 0, length_of_fill = length_of_fill e, sdnv_length = 0\<rparr>"
  have we: "?e = wire_entry e" using entry_okD(1) [OF ok] by (simp add: wire_entry_def)
  have below: "\<forall>y \<in> set acc. fst y < k"
    using Cons.prems(2) entry_okD(2) [OF ok] by (auto simp: word_less_nat_alt)
  then have "k \<notin> fst ` set acc" by auto
  then have ins: "om_insert k ?e acc = acc @ [(k, ?e)]"
    using om_assign_append [OF below, of ?e "[]"] by (simp add: om_insert_def om_find_None_iff)
  have "unat (- k) = 2 ^ 64 - unat k"
    using k0 unat_sub_if' [of 0 k] by (simp add: unat_gt_0)
  moreover have big: "18446744073709551616 - k = - k" by simp
  ultimately have nofl: "\<not> - k < length_of_fill e"
    using entry_okD(5) [OF ok] by (simp add: word_less_nat_alt fill_end_def)
  have "acs_chain (unat (left_edge e + (length_of_fill e - 1))) (fill_end (k, e) + 1) m"
    unfolding entry_right_edge [OF ok] using Cons.prems x by simp
  moreover have "\<forall>y \<in> set (acc @ [(k, ?e)]). unat (fst y) < fill_end (k, e) + 1"
    using Cons.prems(2) entry_okD(2) [OF ok] by (auto simp: fill_end_def)
  ultimately have "acs_parse_entries (wire_bytes m) (left_edge e + (length_of_fill e - 1)) (acc @ [(k, ?e)])
      = Some ((acc @ [(k, ?e)]) @ wire_map m)"
    by (rule Cons.IH)
  then show ?case
    using nofl k0 entry_okD(1) [OF ok]
    by (subst acs_parse_entries.simps)
      (simp add: x sdnv_take_groups left ins [unfolded we] we wire_map_def big)
qed (simp add: acs_parse_entries.simps wire_map_def)

section \<open>Properties\<close>

lemma length_wire_pacs:
  assumes "pacs_inv p"
  shows "length (wire_bytes (acs_entry_map p)) = unat (acs_payload_length p)"
proof -
  have "int (length (wire_bytes (acs_entry_map p))) = uint (acs_payload_length p)"
    using assms length_wire_bytes [of 0 1 "acs_entry_map p"] by (simp add: pacs_inv_def)
  then have "nat (int (length (wire_bytes (acs_entry_map p)))) = nat (uint (acs_payload_length p))"
    by (rule arg_cong)
  then show ?thesis by (simp only: nat_int unat_eq_nat_uint)
qed

lemma write_pacs_ok:
  assumes "pacs_inv p"
  shows "acs_write_entries (acs_entry_map p) 0 (unat (acs_payload_length p)) = Some (wire_bytes (acs_entry_map p))"
proof -
  have "acs_chain (unat (0 :: u64)) 1 (acs_entry_map p)" using assms by (simp add: pacs_inv_def)
  from acs_write_entries_ok [OF this] show ?thesis unfolding length_wire_pacs [OF assms] .
qed

lemma status_byte:
  "(push_bit 7 (if s then 1 else 0) OR ucast (r AND 0x7f :: u32) :: u8) AND 0x7f = ucast (r AND 0x7f)"
  "drop_bit 7 (ucast (r AND 0x7f :: u32) :: u8) = 0"
  by (rule bit_word_eqI, auto simp: group_bits)+

text \<open>
  C24. Creating the signal of a pending ACS that satisfies the invariant never fails an assertion;
  the payload is two bytes longer than the accounted length, and reading it back gives the same
  status, the same reason and entries with the same fills, hence exactly the custody ids that were
  pending. The pending ACS is left empty, under its new id, and satisfies the invariant again.
\<close>
theorem acs_signal_roundtrip:
  assumes "pacs_inv p" and "acs_entry_map p \<noteq> []" and "\<not> same_eid (custody_eid p) null_eid"
  shows "\<exists>b' p' d. create_aggregate_custody_signal b p src i = Some (b', p')
    \<and> length (b_payload b') = unat (acs_payload_length p) + 2 \<and> b_dest b' = custody_eid p
    \<and> parse_aggregate_custody_signal (b_payload b') = Some d
    \<and> d_succeeded d = succeeded p \<and> d_reason d = ucast (reason p AND 0x7f)
    \<and> d_entry_map d = wire_map (acs_entry_map p) \<and> acs_ids (d_entry_map d) = acs_ids (acs_entry_map p)
    \<and> pacs_inv p' \<and> acs_entry_map p' = [] \<and> pacs_id p' = i"
proof -
  let ?m = "acs_entry_map p"
  have chain: "acs_chain (unat (0 :: u64)) 1 ?m" using assms by (simp add: pacs_inv_def)
  have w: "acs_write_entries ?m 0 (unat (acs_payload_length p)) = Some (wire_bytes ?m)"
    using assms(1) by (rule write_pacs_ok)
  note len = length_wire_pacs [OF assms(1)]
  have r: "acs_parse_entries (wire_bytes ?m) 0 [] = Some (wire_map ?m)"
    using acs_parse_entries_ok [OF chain, of "[]"] by simp
  have ne: "wire_map ?m \<noteq> []" using assms(2) by (simp add: wire_map_def)
  show ?thesis
    using assms(3) w len r ne
    by (simp add: create_aggregate_custody_signal_def parse_aggregate_custody_signal_def Let_def
        status_byte ADMIN_AGGREGATE_CUSTODY_SIGNAL_def pacs_inv_def)
qed

definition demo_bundle :: admin_bundle where
  "demo_bundle = \<lparr>b_source = null_eid, b_dest = null_eid, b_replyto = null_eid, b_custodian = null_eid,
     b_is_admin = False, b_expiration_secs = 0, b_payload = []\<rparr>"

definition demo_eid :: endpoint_id where
  "demo_eid = eid_validate
     \<lparr>uri_str = ''ipn:5.0'', uri_valid = True, uri_scheme = ''ipn'', uri_ssp = ''5.0'',
      uri_host = [], uri_path = [], uri_port_num = 0\<rparr> False"

lemma demo_eid_not_null: "\<not> same_eid demo_eid null_eid"
  by (simp add: same_eid_def demo_eid_def null_eid_def eid_validate_def eid_blank_def Let_def
      set_node_num_def split: option.splits prod.splits scheme.splits)

theorem acs_signal_roundtrip_witness:
  "\<exists>b' p' d. create_aggregate_custody_signal demo_bundle (two_ids\<lparr>custody_eid := demo_eid\<rparr>) demo_eid 9 = Some (b', p')
    \<and> parse_aggregate_custody_signal (b_payload b') = Some d \<and> acs_ids (d_entry_map d) = {1, 2}"
proof -
  have "pacs_inv (two_ids\<lparr>custody_eid := demo_eid\<rparr>)" using two_ids_inv by (simp add: pacs_inv_def)
  moreover have "acs_ids (acs_entry_map two_ids) = {1, 2}"
    by (auto simp: two_ids_def fill_ids_def fill_end_def)
  moreover have "acs_entry_map two_ids \<noteq> []" by (simp add: two_ids_def)
  ultimately show ?thesis
    using acs_signal_roundtrip [of "two_ids\<lparr>custody_eid := demo_eid\<rparr>" demo_bundle demo_eid 9] demo_eid_not_null
    by auto
qed

section \<open>The BIBE form\<close>

lemma length_cbor_head [wire_simps]: "cbor_head_ok f \<Longrightarrow> length (cbor_head f) = uint64_encoding_len (snd f)"
  by (cases f) (simp add: cbor_head_ok_def cbor_head_cases uint64_encoding_len_def)

lemma length_cbor_heads [wire_simps]:
  "\<forall>f \<in> set fs. cbor_head_ok f \<Longrightarrow>
   length (concat (map cbor_head fs)) = sum_list (map (uint64_encoding_len \<circ> snd) fs)"
  by (induction fs) (auto simp: length_cbor_head)

lemma encode_in_room:
  assumes ok: "cbor_head_ok f" and room: "uint64_encoding_len (snd f) \<le> nfree" "nfree < 2 ^ 63"
  shows "encode_header_and_size True (of_nat nfree) 0 (fst f) (snd f)
      = Some (Enc_Done (cbor_head f) (int (uint64_encoding_len (snd f))))"
proof -
  obtain t v where f: "f = (t, v)" by (cases f)
  have v: "v \<le> 0xffffffff" using ok f by (simp add: cbor_head_ok_def)
  have nine: "uint64_encoding_len v \<le> 9" by (simp add: uint64_encoding_len_def)
  have "sint (of_nat nfree :: u64) = int nfree"
    using room(2) by (simp add: signed_of_nat signed_take_bit_int_eq_self)
  then have "\<not> sint (of_nat nfree :: u64) < int (uint64_encoding_len v)" using room f by simp
  then show ?thesis
    using v size_bytes_eq [of v]
    by (simp add: f cbor_head_cases encode_header_and_size_def uint64_encoding_len_def split: if_splits)
qed

lemma bibe_write_ok:
  "\<forall>f \<in> set fs. cbor_head_ok f \<Longrightarrow> sum_list (map (uint64_encoding_len \<circ> snd) fs) \<le> nfree \<Longrightarrow> nfree < 2 ^ 63 \<Longrightarrow>
   bibe_write fs nfree = Some (concat (map cbor_head fs))"
proof (induction fs arbitrary: nfree)
  case (Cons f fs)
  have ok: "cbor_head_ok f" and le: "uint64_encoding_len (snd f) \<le> nfree" using Cons.prems by auto
  note e = encode_in_room [OF ok le Cons.prems(3)]
  have "bibe_write fs (nfree - length (cbor_head f)) = Some (concat (map cbor_head fs))"
    by (rule Cons.IH) (use Cons.prems length_cbor_head [OF ok] in auto)
  then show ?case by (simp add: e)
qed simp

definition bibe_ok :: "pending_acs \<Rightarrow> bool" where
  "bibe_ok p \<longleftrightarrow> reason p < 24 \<and> length (acs_entry_map p) < 2 ^ 32
     \<and> (\<forall>(k, e) \<in> set (acs_entry_map p). left_edge e \<le> 0xffffffff \<and> length_of_fill e \<le> 0xffffffff)"

lemma bibe_fields_ok:
  assumes "bibe_ok p"
  shows "\<forall>f \<in> set (bibe_fields p). cbor_head_ok f"
    and "sum_list (map (uint64_encoding_len \<circ> snd) (bibe_fields p)) \<le> 3 + 9 + length (acs_entry_map p) * 19"
    and "3 + 9 + length (acs_entry_map p) * 19 < 2 ^ 63"
proof -
  have r: "ucast (reason p) < (24 :: u64)"
    using assms by (simp add: bibe_ok_def word_less_nat_alt unsigned_ucast_eq)
      (simp add: take_bit_nat_eq_self)
  then have r': "ucast (reason p) \<le> (0xffffffff :: u64)" by (rule order.trans [OF order.strict_implies_order]) simp
  have n: "of_nat (length (acs_entry_map p)) \<le> (0xffffffff :: u64)"
    using assms by (simp add: bibe_ok_def word_le_nat_alt unsigned_of_nat take_bit_nat_eq_self)
  show "\<forall>f \<in> set (bibe_fields p). cbor_head_ok f"
    using assms n r'
    by (auto simp: bibe_fields_def bibe_ok_def cbor_head_ok_def CborArrayType_def CborIntegerType_def)
  have "sum_list (map (uint64_encoding_len \<circ> snd) (concat (map (\<lambda>(k, entry). [(CborArrayType, 2),
      (CborIntegerType, left_edge entry), (CborIntegerType, length_of_fill entry)]) m))) \<le> length m * 19" for m :: acs_map
    by (induction m) (auto simp: uint64_encoding_len_def)
  moreover have "uint64_encoding_len (of_nat (length (acs_entry_map p))) \<le> 5"
    using n by (simp add: uint64_encoding_len_def)
  ultimately show "sum_list (map (uint64_encoding_len \<circ> snd) (bibe_fields p)) \<le> 3 + 9 + length (acs_entry_map p) * 19"
    using r by (simp add: bibe_fields_def) (simp add: uint64_encoding_len_def add_mono)
  show "3 + 9 + length (acs_entry_map p) * 19 < 2 ^ 63" using assms by (simp add: bibe_ok_def)
qed

text \<open>
  C30. The BIBE form of the signal fits the buffer size that is computed for it and reads back, head
  by head, as the nested arrays of the disposition code and the fills, as long as every custody id
  and fill length is at most \<open>UINT32_MAX\<close>; the pending ACS is cleared.
\<close>
theorem bibe_signal_roundtrip:
  assumes "bibe_ok p" and "\<not> same_eid (custody_eid p) null_eid"
  shows "\<exists>b' p'. create_bibe_custody_signal b p src i = Some (b', p')
    \<and> decode_seq cbor_take_head (length (bibe_fields p)) (b_payload b') = Some (bibe_fields p, [])
    \<and> length (b_payload b') \<le> 12 + 19 * length (acs_entry_map p)
    \<and> acs_entry_map p' = [] \<and> acs_payload_length p' = 0"
proof -
  note f = bibe_fields_ok [OF assms(1)]
  have w: "bibe_write (bibe_fields p) (3 + 9 + length (acs_entry_map p) * 19) = Some (concat (map cbor_head (bibe_fields p)))"
    by (rule bibe_write_ok [OF f])
  have "length (concat (map cbor_head (bibe_fields p))) \<le> 12 + 19 * length (acs_entry_map p)"
    unfolding length_cbor_heads [OF f(1)] using f(2) by simp
  then show ?thesis
    using assms(2) w cbor.decode_seq_concat [OF f(1), of "[]"]
    by (simp add: create_bibe_custody_signal_def Let_def)
qed

theorem bibe_signal_roundtrip_witness:
  "\<exists>b' p'. create_bibe_custody_signal demo_bundle (two_ids\<lparr>custody_eid := demo_eid\<rparr>) demo_eid 9 = Some (b', p')
    \<and> decode_seq cbor_take_head 8 (b_payload b')
        = Some ([(0x80, 2), (0, 4), (0x80, 2), (0, 0), (0x80, 1), (0x80, 2), (0, 1), (0, 2)], [])"
proof -
  let ?p = "two_ids\<lparr>custody_eid := demo_eid\<rparr>"
  have ok: "bibe_ok ?p" by (simp add: bibe_ok_def two_ids_def empty_pacs_def)
  have fs: "bibe_fields ?p = [(0x80, 2), (0, 4), (0x80, 2), (0, 0), (0x80, 1), (0x80, 2), (0, 1), (0, 2)]"
    by (simp add: bibe_fields_def two_ids_def empty_pacs_def CborArrayType_def CborIntegerType_def)
  have n: "length (bibe_fields ?p) = 8" by (simp add: fs)
  have "\<not> same_eid (custody_eid ?p) null_eid" using demo_eid_not_null by simp
  then show ?thesis
    using bibe_signal_roundtrip [OF ok, of demo_bundle demo_eid 9] unfolding n unfolding fs by blast
qed

end
