(* ===== verification/Custody_List.thy ===== *)
theory Custody_List
  imports Ordered_Map "HOL-Library.Char_ord" "HOL-Library.List_Lexorder"
begin

text \<open>
  \<open>src/servlib/bundling/CustodyList.cc\<close>: the bundles in custody, one map from custody id to bundle
  for each destination, with the counter from which the ids are taken. Bundles are named by their
  bundle id; the maps are those of \<open>src/servlib/bundling/BundleListIntMap.cc\<close>. The theory shows
  that ids are never given out twice for a destination and that a bundle is found under its id
  until it is erased.
\<close>

section \<open>Data and operations\<close>

type_synonym bundleid = nat

record dest_list =
  last_id :: u64
  ids_in_custody :: "(u64, bundleid) omap"

type_synonym custody_list = "(string, dest_list) omap"

definition cl_dest :: "custody_list \<Rightarrow> string \<Rightarrow> dest_list" where
  "cl_dest cl dest =
     (case om_find cl dest of None \<Rightarrow> \<lparr>last_id = 0, ids_in_custody = []\<rparr> | Some l \<Rightarrow> l)"

text \<open>
  \<open>insert\<close>: the id the bundle carries afterwards and the new list. \<open>None\<close> is the assertion of
  \<open>BundleListIntMap::add_bundle\<close> that the key is new. A bundle that is on the list of its
  destination already (under any id) is left alone there.
\<close>

definition cl_insert :: "custody_list \<Rightarrow> string \<Rightarrow> u64 \<Rightarrow> bundleid \<Rightarrow> (u64 \<times> custody_list) option" where
  "cl_insert cl dest custody_id b =
     (let l = cl_dest cl dest;
          (id', last') = (if custody_id = 0 then (last_id l + 1, last_id l + 1)
                          else if custody_id > last_id l then (custody_id, custody_id)
                          else (custody_id, last_id l));
          put = (\<lambda>m. om_assign dest \<lparr>last_id = last', ids_in_custody = m\<rparr> cl)
      in if b \<in> snd ` set (ids_in_custody l) then Some (id', put (ids_in_custody l))
         else if om_find (ids_in_custody l) id' \<noteq> None then None
         else Some (id', put (om_insert id' b (ids_in_custody l))))"

definition cl_erase :: "custody_list \<Rightarrow> string \<Rightarrow> u64 \<Rightarrow> bool \<times> custody_list" where
  "cl_erase cl dest custody_id =
     (case om_find cl dest of
        None \<Rightarrow> (False, cl)
      | Some l \<Rightarrow>
          (om_find (ids_in_custody l) custody_id \<noteq> None,
           om_assign dest (l\<lparr>ids_in_custody := om_erase custody_id (ids_in_custody l)\<rparr>) cl))"

definition cl_find :: "custody_list \<Rightarrow> string \<Rightarrow> u64 \<Rightarrow> bundleid option" where
  "cl_find cl dest custody_id =
     (case om_find cl dest of None \<Rightarrow> None | Some l \<Rightarrow> om_find (ids_in_custody l) custody_id)"

definition last_custody_id :: "custody_list \<Rightarrow> string \<Rightarrow> u64" where
  "last_custody_id cl dest = (case om_find cl dest of None \<Rightarrow> 0 | Some l \<Rightarrow> last_id l)"

definition cl_clear :: "custody_list \<Rightarrow> custody_list" where
  "cl_clear cl = []"

definition cl_size :: "custody_list \<Rightarrow> nat" where
  "cl_size cl = (\<Sum>(d, l) \<leftarrow> cl. length (ids_in_custody l))"

definition cl_empty :: "custody_list \<Rightarrow> bool" where
  "cl_empty cl = (cl_size cl = 0)"

section \<open>The invariant\<close>

text \<open>Every id in custody is at most the last one given out; zero is never an id.\<close>

definition dest_ok :: "dest_list \<Rightarrow> bool" where
  "dest_ok l \<longleftrightarrow> om_wf (ids_in_custody l) \<and> (\<forall>i \<in> fst ` set (ids_in_custody l). 0 < i \<and> i \<le> last_id l)"

definition cl_inv :: "custody_list \<Rightarrow> bool" where
  "cl_inv cl \<longleftrightarrow> om_wf cl \<and> (\<forall>(d, l) \<in> set cl. dest_ok l)"

lemma cl_inv_dest: "cl_inv cl \<Longrightarrow> dest_ok (cl_dest cl d)"
  by (auto simp: cl_inv_def cl_dest_def dest_ok_def split: option.splits dest!: om_find_SomeD)

lemma set_om_assign: "set (om_assign k v m) \<subseteq> insert (k, v) (set m)"
  by (induction k v m rule: om_assign.induct) auto

lemma cl_inv_assign: "cl_inv cl \<Longrightarrow> dest_ok l \<Longrightarrow> cl_inv (om_assign d l cl)"
  using set_om_assign [of d l cl] by (auto simp: cl_inv_def om.wf_assign)

lemma last_custody_id_dest: "last_custody_id cl d = last_id (cl_dest cl d)"
  by (simp add: last_custody_id_def cl_dest_def split: option.splits)

lemma cl_find_dest: "cl_find cl d i = om_find (ids_in_custody (cl_dest cl d)) i"
  by (simp add: cl_find_def cl_dest_def om_find_def split: option.splits)

lemma cl_dest_assign: "cl_dest (om_assign d l cl) e = (if e = d then l else cl_dest cl e)"
  by (simp add: cl_dest_def om.find_assign)

lemma fresh_id:
  assumes "dest_ok l" and "last_id l \<noteq> -1"
  shows "om_find (ids_in_custody l) (last_id l + 1) = None" and "last_id l < last_id l + 1"
proof -
  have "unat (last_id l + 1) = Suc (unat (last_id l))" by (rule unat_succ [OF assms(2)])
  then show *: "last_id l < last_id l + 1" by (simp add: word_less_nat_alt)
  show "om_find (ids_in_custody l) (last_id l + 1) = None"
    unfolding om_find_None_iff using assms(1) * by (force simp: dest_ok_def)
qed

lemma dest_ok_insert:
  assumes "dest_ok l" and "0 < i" and "last_id l \<le> n" and "i \<le> n"
  shows "dest_ok \<lparr>last_id = n, ids_in_custody = om_insert i b (ids_in_custody l)\<rparr>"
proof -
  have "fst ` set (om_insert i b (ids_in_custody l)) \<subseteq> insert i (fst ` set (ids_in_custody l))"
    by (simp add: om_insert_def om_keys_assign subset_insertI)
  moreover have "0 < j \<and> j \<le> n" if "j \<in> insert i (fst ` set (ids_in_custody l))" for j
    using that assms by (auto simp: dest_ok_def intro: order_trans)
  moreover have "om_wf (om_insert i b (ids_in_custody l))"
    using assms(1) by (simp add: dest_ok_def om.wf_ins)
  ultimately show ?thesis unfolding dest_ok_def dest_list.simps by blast
qed

lemma cl_erase_effect:
  assumes "cl_inv cl"
  shows "cl_inv (snd (cl_erase cl d i))"
    and "cl_find (snd (cl_erase cl d i)) = (\<lambda>e j. if e = d \<and> j = i then None else cl_find cl e j)"
    and "last_custody_id (snd (cl_erase cl d i)) e = last_custody_id cl e"
    and "fst (cl_erase cl d i) \<longleftrightarrow> cl_find cl d i \<noteq> None"
proof -
  have "cl_inv (snd (cl_erase cl d i))
    \<and> cl_find (snd (cl_erase cl d i)) = (\<lambda>e j. if e = d \<and> j = i then None else cl_find cl e j)
    \<and> last_custody_id (snd (cl_erase cl d i)) e = last_custody_id cl e
    \<and> (fst (cl_erase cl d i) \<longleftrightarrow> cl_find cl d i \<noteq> None)"
  proof (cases "om_find cl d")
    case None
    then show ?thesis using assms by (auto simp: cl_erase_def cl_find_def fun_eq_iff)
  next
    case (Some l)
    then have "dest_ok l" using cl_inv_dest [OF assms, of d] by (simp add: cl_dest_def)
    then have "dest_ok (l\<lparr>ids_in_custody := om_erase i (ids_in_custody l)\<rparr>)"
      using om.wf_erase [of "ids_in_custody l" i] by (auto simp: dest_ok_def om_erase_def)
    then have "cl_inv (om_assign d (l\<lparr>ids_in_custody := om_erase i (ids_in_custody l)\<rparr>) cl)"
      using assms by (intro cl_inv_assign)
    moreover have "l = cl_dest cl d" using Some by (simp add: cl_dest_def)
    ultimately show ?thesis
      using Some by (auto simp: cl_erase_def cl_find_dest cl_dest_assign om.find_erase fun_eq_iff last_custody_id_dest)
  qed
  then show "cl_inv (snd (cl_erase cl d i))"
    "cl_find (snd (cl_erase cl d i)) = (\<lambda>e j. if e = d \<and> j = i then None else cl_find cl e j)"
    "last_custody_id (snd (cl_erase cl d i)) e = last_custody_id cl e"
    "fst (cl_erase cl d i) \<longleftrightarrow> cl_find cl d i \<noteq> None"
    by auto
qed

lemma cl_find_beyond: "cl_inv cl \<Longrightarrow> last_custody_id cl d < i \<Longrightarrow> cl_find cl d i = None"
  using cl_inv_dest [of cl d]
  by (auto simp: cl_find_dest last_custody_id_dest om_find_None_iff dest_ok_def)

section \<open>Properties\<close>

text \<open>
  C31. Taking a bundle without an id into custody succeeds while ids are left, gives it an id that
  is larger than every id given out for that destination before, makes it findable under exactly
  that destination and id, leaves every other entry as it was, and keeps the invariant that no
  held id exceeds the last one given out.
\<close>
theorem custody_insert_new:
  assumes "cl_inv cl" and "last_custody_id cl d \<noteq> -1" and "b \<notin> snd ` set (ids_in_custody (cl_dest cl d))"
  shows "\<exists>i cl'. cl_insert cl d 0 b = Some (i, cl') \<and> cl_inv cl'
    \<and> last_custody_id cl d < i \<and> last_custody_id cl' d = i \<and> cl_find cl d i = None
    \<and> cl_find cl' = (\<lambda>e j. if e = d \<and> j = i then Some b else cl_find cl e j)"
proof -
  let ?l = "cl_dest cl d" let ?i = "last_id ?l + 1"
  let ?n = "\<lparr>last_id = ?i, ids_in_custody = om_insert ?i b (ids_in_custody ?l)\<rparr>"
  have l: "dest_ok ?l" using assms(1) by (rule cl_inv_dest)
  have last: "last_id ?l \<noteq> -1" using assms(2) by (simp add: last_custody_id_dest)
  note f = fresh_id [OF l last]
  have pos: "0 < ?i" using f(2) by (rule order.strict_trans1 [rotated]) simp
  have ok: "dest_ok ?n" using dest_ok_insert [OF l pos, of ?i] f(2) by simp
  have "cl_insert cl d 0 b = Some (?i, om_assign d ?n cl)"
    using assms(3) f(1) by (simp add: cl_insert_def Let_def)
  moreover have "cl_inv (om_assign d ?n cl)" using assms(1) ok by (rule cl_inv_assign)
  moreover have "cl_find (om_assign d ?n cl) = (\<lambda>e j. if e = d \<and> j = ?i then Some b else cl_find cl e j)"
    using f(1) by (auto simp: fun_eq_iff cl_find_dest cl_dest_assign om.find_ins)
  ultimately show ?thesis using f by (auto simp: last_custody_id_dest cl_dest_assign cl_find_dest)
qed

theorem custody_insert_new_witness:
  "\<exists>i cl'. cl_insert [] ''bpv6'' 0 7 = Some (i, cl') \<and> cl_inv cl' \<and> cl_find cl' ''bpv6'' i = Some 7"
proof -
  have "cl_inv []" by (simp add: cl_inv_def)
  moreover have "last_custody_id [] ''bpv6'' \<noteq> -1" by (simp add: last_custody_id_def om_find_def)
  moreover have "7 \<notin> snd ` set (ids_in_custody (cl_dest [] ''bpv6''))" by (simp add: cl_dest_def om_find_def)
  ultimately show ?thesis using custody_insert_new [of "[]" "''bpv6''" 7] by auto
qed

text \<open>
  Erasing reports whether the id was held, removes exactly that id, keeps the invariant and
  never lowers the counter, so that an erased id is not given out again.
\<close>
theorem custody_erase:
  assumes "cl_inv cl"
  shows "\<exists>r cl'. cl_erase cl d i = (r, cl') \<and> cl_inv cl' \<and> (r \<longleftrightarrow> cl_find cl d i \<noteq> None)
    \<and> cl_find cl' = (\<lambda>e j. if e = d \<and> j = i then None else cl_find cl e j)
    \<and> (\<forall>e. last_custody_id cl' e = last_custody_id cl e)"
  by (cases "cl_erase cl d i") (use cl_erase_effect [OF assms, of d i] in simp)

theorem custody_erase_witness:
  "\<exists>r cl'. cl_erase [] ''bpv6'' 1 = (r, cl') \<and> cl_inv cl' \<and> \<not> r"
  using custody_erase [of "[]" "''bpv6''" 1] by (auto simp: cl_inv_def cl_find_def om_find_def)

end
