(* ===== verification/Acs_Daemon.thy ===== *)
theory Acs_Daemon
  imports Acs_Signal Custody_List
begin

text \<open>
  \<open>src/servlib/bundling/BundleDaemonACS.cc\<close>: the thread that aggregates custody signals. Its
  state holds the route overrides of the ACS parameters, the pending ACS of every combination of
  custodian, outcome and reason, the custody list and the statistics; what it does to its
  surroundings (bundles posted, timers scheduled, the datastore) is recorded in the state as well.
  The theory shows that no custody id is lost between the pending ACS and the signals that are
  sent, that the size limit is kept, that stale timers do nothing, and that an incoming signal
  releases exactly the bundles in custody that it names.
\<close>

section \<open>State\<close>

record acs_route_params =
  rp_endpoint :: endpoint_id
  rp_enabled :: bool
  rp_delay :: u32
  rp_size :: u32
  rp_match_len :: u32

record acs_stats =
  st_accepted :: u32
  st_released :: u32
  st_redundant :: u32
  st_total_released :: u32
  st_not_found :: u32
  st_generated :: u32
  st_reloaded :: u32
  st_invalid :: u32

text \<open>What the daemon reads and writes of a bundle.\<close>

record cust_bundle =
  custody_dest :: string
  custodyid :: u64
  local_custody :: bool
  bibe_custody :: bool
  cb_dest :: endpoint_id
  cb_custodian :: endpoint_id
  cteb_custodyid :: u64
  cteb_blocks :: "bytes list"

record add_event =
  ev_custody_eid :: endpoint_id
  ev_succeeded :: bool
  ev_reason :: u32
  ev_custody_id :: u64

text \<open>Calls into the bundle daemon and its other parts, in the order they are made.\<close>

datatype daemon_action =
    CancelCustodyTimers bundleid
  | StoreUpdate bundleid
  | RouterCustodyReleased bundleid
  | TryToDelete bundleid

record acs_daemon =
  acs_enabled :: bool
  default_size :: u32
  default_delay :: u32
  acs_route_params_list :: "acs_route_params list"
  acs_params_revision :: u32
  pending_acs_map :: "string \<rightharpoonup> pending_acs"
  next_pacsid :: u32
  custody :: custody_list
  bundles :: "bundleid \<Rightarrow> cust_bundle"
  stats :: acs_stats
  local_eid :: endpoint_id
  local_eid_ipn :: endpoint_id
  posted :: "admin_bundle list"
  timers :: "(string \<times> u32 \<times> u32) list"
  pacs_store :: "string \<rightharpoonup> pending_acs"
  eventq :: "add_event list"
  custody_bundles :: "bundleid list"
  actions :: "daemon_action list"

section \<open>Parameters\<close>

definition eid_str :: "endpoint_id \<Rightarrow> string" where
  "eid_str e = uri_str (eid_uri e)"

fun update_first :: "('a \<Rightarrow> bool) \<Rightarrow> ('a \<Rightarrow> 'a) \<Rightarrow> 'a list \<Rightarrow> 'a list option" where
  "update_first P f [] = None"
| "update_first P f (x # xs) =
     (if P x then Some (f x # xs) else map_option ((#) x) (update_first P f xs))"

fun remove_first :: "('a \<Rightarrow> bool) \<Rightarrow> 'a list \<Rightarrow> 'a list option" where
  "remove_first P [] = None"
| "remove_first P (x # xs) = (if P x then Some xs else map_option ((#) x) (remove_first P xs))"

definition set_route_acs_params :: "acs_daemon \<Rightarrow> endpoint_id \<Rightarrow> bool \<Rightarrow> u32 \<Rightarrow> u32 \<Rightarrow> acs_daemon" where
  "set_route_acs_params d pat enabled delay size' =
     (let len = of_nat (length (eid_str pat));
          upd = (\<lambda>arp. arp\<lparr>rp_match_len := of_nat (length (eid_str (rp_endpoint arp))),
                           rp_enabled := enabled, rp_delay := delay, rp_size := size'\<rparr>);
          l' = (case update_first (\<lambda>arp. eid_str (rp_endpoint arp) = eid_str pat) upd
                     (acs_route_params_list d) of
                  Some l \<Rightarrow> l
                | None \<Rightarrow> acs_route_params_list d @
                    [\<lparr>rp_endpoint = pat, rp_enabled = enabled, rp_delay = delay, rp_size = size',
                      rp_match_len = len\<rparr>])
      in d\<lparr>acs_route_params_list := l', acs_params_revision := acs_params_revision d + 1\<rparr>)"

definition delete_route_acs_params :: "acs_daemon \<Rightarrow> endpoint_id \<Rightarrow> int \<times> acs_daemon" where
  "delete_route_acs_params d pat =
     (let (ret, l') = (case remove_first (\<lambda>arp. eid_str (rp_endpoint arp) = eid_str pat)
                              (acs_route_params_list d) of
                         Some l \<Rightarrow> (0, l) | None \<Rightarrow> (-1, acs_route_params_list d))
      in (ret, d\<lparr>acs_route_params_list := l', acs_params_revision := acs_params_revision d + 1\<rparr>))"

text \<open>The search for the longest pattern that matches, shared by the two getters.\<close>

fun best_match :: "(endpoint_id \<Rightarrow> bool) \<Rightarrow> acs_route_params list \<Rightarrow> acs_route_params option \<Rightarrow> acs_route_params option" where
  "best_match m [] best = best"
| "best_match m (arp # l) best =
     best_match m l
       (if m (rp_endpoint arp) then
          (case best of None \<Rightarrow> Some arp
           | Some b \<Rightarrow> if rp_match_len arp > rp_match_len b then Some arp else Some b)
        else best)"

text \<open>Result, new revision, delay and size (the values behind the pointer arguments).\<close>

definition get_acs_params_for_endpoint ::
    "(string \<Rightarrow> string \<Rightarrow> bool) \<Rightarrow> acs_daemon \<Rightarrow> endpoint_id \<Rightarrow> u32 \<Rightarrow> u32 \<Rightarrow> u32 \<Rightarrow> bool \<times> u32 \<times> u32 \<times> u32" where
  "get_acs_params_for_endpoint glob d ep revision delay size' =
     (if revision \<noteq> acs_params_revision d then
        (case best_match (\<lambda>pat. eid_match glob pat ep) (acs_route_params_list d) None of
           Some arp \<Rightarrow> (True, acs_params_revision d, rp_delay arp, rp_size arp)
         | None \<Rightarrow> (True, acs_params_revision d, default_delay d, default_size d))
      else (False, revision, delay, size'))"

definition acs_enabled_for_endpoint :: "(string \<Rightarrow> string \<Rightarrow> bool) \<Rightarrow> acs_daemon \<Rightarrow> endpoint_id \<Rightarrow> bool" where
  "acs_enabled_for_endpoint glob d ep =
     (if acs_params_revision d > 1 then
        (case best_match (\<lambda>pat. eid_match glob pat ep) (acs_route_params_list d) None of
           Some arp \<Rightarrow> rp_enabled arp | None \<Rightarrow> acs_enabled d)
      else acs_enabled d)"

section \<open>Pending signals\<close>

definition hex_digit :: "nat \<Rightarrow> char" where
  "hex_digit n = (if n < 10 then char_of (48 + n) else char_of (87 + n))"

fun hex_string :: "nat \<Rightarrow> string" where
  "hex_string n = (if n < 16 then [hex_digit n] else hex_string (n div 16) @ [hex_digit (n mod 16)])"

declare hex_string.simps [simp del]

definition pacs_key :: "endpoint_id \<Rightarrow> bool \<Rightarrow> u32 \<Rightarrow> string" where
  "pacs_key eid success reason' =
     (let h = hex_string (unat reason') in
      eid_str eid @ (if success then ''~success~'' else ''~fail~'')
      @ (if length h < 2 then CHR ''0'' # h else h))"

definition new_pending_acs :: "string \<Rightarrow> pending_acs" where
  "new_pending_acs k =
     \<lparr>key = k, pacs_id = 0, custody_eid = null_eid, succeeded = False, reason = 0,
      acs_payload_length = 0, num_custody_ids = 0, acs_entry_map = [], acs_expiration_timer = None,
      in_datastore = False, queued_for_datastore = False, params_revision = 0, acs_delay = 0,
      acs_size = 0, bp_version = -1\<rparr>"

definition put_pacs :: "acs_daemon \<Rightarrow> pending_acs \<Rightarrow> acs_daemon" where
  "put_pacs d p = d\<lparr>pending_acs_map := (pending_acs_map d)(key p \<mapsto> p)\<rparr>"

text \<open>\<open>update_pending_acs_store\<close>: the store is updated or added to; the object is in it then.\<close>

definition update_pending_acs_store :: "acs_daemon \<Rightarrow> pending_acs \<Rightarrow> acs_daemon \<times> pending_acs" where
  "update_pending_acs_store d p =
     (let p' = (if in_datastore p then p else p\<lparr>in_datastore := True\<rparr>)
      in (d\<lparr>pacs_store := (pacs_store d)(key p \<mapsto> p)\<rparr>, p'))"

definition new_bundle :: admin_bundle where
  "new_bundle = \<lparr>b_source = null_eid, b_dest = null_eid, b_replyto = null_eid, b_custodian = null_eid,
     b_is_admin = False, b_expiration_secs = 0, b_payload = []\<rparr>"

text \<open>
  \<open>generate_acs\<close> and, for version 7, \<open>bibe_generate_acs\<close>. \<open>next_pacsid\<close> of the global store
  is advanced when the pending ACS is cleared, which the creation of a signal to the null endpoint
  does not reach. \<open>None\<close> is a failed assertion.
\<close>

definition create_signal :: "acs_daemon \<Rightarrow> pending_acs \<Rightarrow> (admin_bundle \<times> pending_acs) option" where
  "create_signal d p =
     (let src = (if is_ipn_scheme (custody_eid p) then local_eid_ipn d else local_eid d)
      in if bp_version p = 7
         then create_bibe_custody_signal new_bundle p src (next_pacsid d)
         else create_aggregate_custody_signal new_bundle p src (next_pacsid d))"

definition generate_acs :: "acs_daemon \<Rightarrow> pending_acs \<Rightarrow> bool \<Rightarrow> (acs_daemon \<times> pending_acs) option" where
  "generate_acs d p update_datastore =
     (case (if acs_payload_length p > 0 then
              map_option (\<lambda>(b, p').
                (d\<lparr>posted := posted d @ [b],
                   next_pacsid := (if same_eid (custody_eid p) null_eid then next_pacsid d else next_pacsid d + 1),
                   stats := (stats d)\<lparr>st_generated := st_generated (stats d) + 1\<rparr>\<rparr>, p'))
                (create_signal d p)
            else Some (d, p)) of
        None \<Rightarrow> None
      | Some (d', p') \<Rightarrow> Some (if update_datastore then update_pending_acs_store d' p' else (d', p')))"

definition cancel_timer :: "acs_daemon \<Rightarrow> (string \<times> u32) option \<Rightarrow> acs_daemon" where
  "cancel_timer d t =
     (case t of None \<Rightarrow> d
      | Some (k, i) \<Rightarrow> d\<lparr>timers := filter (\<lambda>(k', i', ms). \<not> (k' = k \<and> i' = i)) (timers d)\<rparr>)"

text \<open>
  The common part of the two operations that add an id, from the call of
  \<open>determine_acs_changes\<close> on.
\<close>

definition acs_refresh :: "(string \<Rightarrow> string \<Rightarrow> bool) \<Rightarrow> acs_daemon \<Rightarrow> pending_acs \<Rightarrow> bool \<times> pending_acs" where
  "acs_refresh glob d p =
     (let (changed, rev', delay', size') =
        get_acs_params_for_endpoint glob d (custody_eid p) (params_revision p) (acs_delay p) (acs_size p)
      in (changed, p\<lparr>params_revision := rev', acs_delay := delay', acs_size := size'\<rparr>))"

definition must_send :: "pending_acs \<Rightarrow> int \<Rightarrow> bool \<Rightarrow> u32 \<Rightarrow> bool" where
  "must_send p dl changed old_delay \<longleftrightarrow>
     (acs_size p > 0 \<and> acs_payload_length p > 0 \<and> acs_payload_length p + of_int dl > acs_size p)
     \<or> (changed \<and> acs_delay p < old_delay)"

definition finish_add :: "acs_daemon \<Rightarrow> pending_acs \<Rightarrow> u32 option \<Rightarrow> acs_daemon" where
  "finish_add d p t =
     (let d1 = (case t of None \<Rightarrow> d
                | Some ms \<Rightarrow> d\<lparr>timers := timers d @ [(key p, pacs_id p, ms)]\<rparr>);
          (d2, p2) = update_pending_acs_store d1 p
      in put_pacs d2 p2)"

definition add_to_pending ::
    "(string \<Rightarrow> string \<Rightarrow> bool) \<Rightarrow> acs_daemon \<Rightarrow> pending_acs \<Rightarrow> u64 \<Rightarrow> acs_daemon option" where
  "add_to_pending glob d p custody_id =
     (case determine_acs_changes p custody_id of None \<Rightarrow> None
      | Some (p1, chg) \<Rightarrow>
          let old_delay = acs_delay p1; (changed, p2) = acs_refresh glob d p1 in
          case (if must_send p2 (delta chg) changed old_delay
                then generate_acs (cancel_timer d (acs_expiration_timer p2))
                       (p2\<lparr>acs_expiration_timer := None\<rparr>) False
                else Some (d, p2)) of
            None \<Rightarrow> None
          | Some (d3, p3) \<Rightarrow>
              (case apply_acs_changes p3 chg custody_id of None \<Rightarrow> None
               | Some (p4, t) \<Rightarrow> Some (finish_add d3 p4 t)))"

definition handle_add_bundle_to_acs ::
    "(string \<Rightarrow> string \<Rightarrow> bool) \<Rightarrow> acs_daemon \<Rightarrow> add_event \<Rightarrow> acs_daemon option" where
  "handle_add_bundle_to_acs glob d ev =
     (let k = pacs_key (ev_custody_eid ev) (ev_succeeded ev) (ev_reason ev);
          (d1, p) = (case pending_acs_map d k of
             Some p \<Rightarrow> (d, p)
           | None \<Rightarrow>
               let p = (new_pending_acs k)\<lparr>pacs_id := next_pacsid d, custody_eid := ev_custody_eid ev,
                         succeeded := ev_succeeded ev, reason := ev_reason ev, bp_version := 6\<rparr>
               in (put_pacs (d\<lparr>next_pacsid := next_pacsid d + 1\<rparr>) p, p))
      in add_to_pending glob d1 p (ev_custody_id ev))"

text \<open>
  \<open>add_bibe_bundle_to_acs\<close>: the assignment to the result of \<open>custody_eid()\<close>, which returns a
  copy of the shared pointer, leaves the custodian at \<open>dtn:none\<close>.
\<close>

definition add_bibe_bundle_to_acs ::
    "(string \<Rightarrow> string \<Rightarrow> bool) \<Rightarrow> acs_daemon \<Rightarrow> int \<Rightarrow> endpoint_id \<Rightarrow> u64 \<Rightarrow> bool \<Rightarrow> u8 \<Rightarrow> acs_daemon option" where
  "add_bibe_bundle_to_acs glob d bpv custody_eid' transmission_id success reason' =
     (let k = pacs_key custody_eid' success (ucast reason');
          (d1, p) = (case pending_acs_map d k of
             Some p \<Rightarrow> (d, p)
           | None \<Rightarrow>
               let p = (new_pending_acs k)\<lparr>pacs_id := next_pacsid d, succeeded := success,
                         reason := ucast reason', bp_version := bpv\<rparr>
               in (put_pacs (d\<lparr>next_pacsid := next_pacsid d + 1\<rparr>) p, p))
      in add_to_pending glob d1 p transmission_id)"

definition handle_acs_expired :: "acs_daemon \<Rightarrow> string \<Rightarrow> u32 \<Rightarrow> acs_daemon option" where
  "handle_acs_expired d k i =
     (case pending_acs_map d k of
        None \<Rightarrow> Some d
      | Some p \<Rightarrow>
          if i \<noteq> pacs_id p then Some d
          else map_option (\<lambda>(d', p'). put_pacs d' p') (generate_acs d p True))"

text \<open>
  \<open>load_pendingacs\<close>: every stored pending ACS is sent at once and then deleted from the store;
  none of them enters the map of pending ACSs.
\<close>

fun load_pendingacs :: "acs_daemon \<Rightarrow> pending_acs list \<Rightarrow> acs_daemon option" where
  "load_pendingacs d [] = Some d"
| "load_pendingacs d (p # ps) =
     (case generate_acs d (p\<lparr>in_datastore := True, queued_for_datastore := True\<rparr>) False of
        None \<Rightarrow> None
      | Some (d', p') \<Rightarrow> map_option (\<lambda>d''. d''\<lparr>pacs_store := (pacs_store d'')(key p := None)\<rparr>) (load_pendingacs d' ps))"

section \<open>Custody\<close>

definition update_bundle :: "acs_daemon \<Rightarrow> bundleid \<Rightarrow> (cust_bundle \<Rightarrow> cust_bundle) \<Rightarrow> acs_daemon" where
  "update_bundle d b f = d\<lparr>bundles := (bundles d)(b := f (bundles d b))\<rparr>"

text \<open>
  \<open>accept_custody\<close>. The custody id is written by \<open>CustodyList::insert\<close>; the CTEB block is the
  SDNV of the id followed by the name of the custodian.
\<close>

definition list_insert :: "acs_daemon \<Rightarrow> bundleid \<Rightarrow> acs_daemon option" where
  "list_insert d b =
     (case cl_insert (custody d) (custody_dest (bundles d b)) (custodyid (bundles d b)) b of
        None \<Rightarrow> None
      | Some (i, cl) \<Rightarrow> Some (update_bundle (d\<lparr>custody := cl\<rparr>) b (\<lambda>x. x\<lparr>custodyid := i\<rparr>)))"

definition cteb_payload :: "u64 \<Rightarrow> endpoint_id \<Rightarrow> bytes option" where
  "cteb_payload i custodian =
     (let idlen = sdnv_encoding_len i; custlen = length (eid_str custodian) in
      if idlen = 0 then None
      else case sdnv_encode i (idlen + custlen) of
        None \<Rightarrow> None
      | Some bs \<Rightarrow> if length bs \<noteq> idlen then None
                   else Some (bs @ map (\<lambda>c. of_nat (of_char c)) (eid_str custodian)))"

definition accept_custody :: "(string \<Rightarrow> string \<Rightarrow> bool) \<Rightarrow> acs_daemon \<Rightarrow> bundleid \<Rightarrow> acs_daemon option" where
  "accept_custody glob d b =
     (if custodyid (bundles d b) > 0 then
        map_option (\<lambda>d'. d'\<lparr>stats := (stats d')\<lparr>st_reloaded := st_reloaded (stats d') + 1\<rparr>\<rparr>) (list_insert d b)
      else if acs_enabled_for_endpoint glob d (cb_dest (bundles d b)) then
        (case list_insert d b of None \<Rightarrow> None
         | Some d' \<Rightarrow>
             (case cteb_payload (custodyid (bundles d' b)) (cb_custodian (bundles d' b)) of
                None \<Rightarrow> None
              | Some blk \<Rightarrow>
                  Some (update_bundle (d'\<lparr>stats := (stats d')\<lparr>st_accepted := st_accepted (stats d') + 1\<rparr>\<rparr>) b
                          (\<lambda>x. x\<lparr>cteb_blocks := cteb_blocks x @ [blk]\<rparr>))))
      else Some d)"

definition erase_from_custodyid_list :: "acs_daemon \<Rightarrow> bundleid \<Rightarrow> acs_daemon" where
  "erase_from_custodyid_list d b =
     (let x = bundles d b in
      if custodyid x > 0 then
        update_bundle (d\<lparr>custody := snd (cl_erase (custody d) (custody_dest x) (custodyid x)),
                         stats := (stats d)\<lparr>st_total_released := st_total_released (stats d) + 1\<rparr>\<rparr>)
          b (\<lambda>x. x\<lparr>custodyid := 0\<rparr>)
      else d)"

definition generate_custody_signal ::
    "(string \<Rightarrow> string \<Rightarrow> bool) \<Rightarrow> acs_daemon \<Rightarrow> bundleid \<Rightarrow> bool \<Rightarrow> u32 \<Rightarrow> bool \<times> acs_daemon" where
  "generate_custody_signal glob d b success reason' =
     (if acs_enabled_for_endpoint glob d (cb_custodian (bundles d b)) then
        (True, d\<lparr>eventq := \<lparr>ev_custody_eid = cb_custodian (bundles d b), ev_succeeded = success,
                           ev_reason = reason', ev_custody_id = cteb_custodyid (bundles d b)\<rparr> # eventq d\<rparr>)
      else (False, d))"

definition bibe_accept_custody :: "acs_daemon \<Rightarrow> bundleid \<Rightarrow> acs_daemon option" where
  "bibe_accept_custody d b = (if custodyid (bundles d b) \<noteq> 0 then None else list_insert d b)"

definition bibe_erase_from_custodyid_list :: "acs_daemon \<Rightarrow> bundleid \<Rightarrow> acs_daemon" where
  "bibe_erase_from_custodyid_list d b =
     (let x = bundles d b in
      if custodyid x > 0 then
        update_bundle (d\<lparr>custody := snd (cl_erase (custody d) (custody_dest x) (custodyid x))\<rparr>)
          b (\<lambda>x. x\<lparr>custodyid := 0\<rparr>)
      else d)"

text \<open>\<open>BundleDaemon::release_custody\<close>, which the processing of a signal calls for every bundle.\<close>

definition release_custody :: "acs_daemon \<Rightarrow> bundleid \<Rightarrow> acs_daemon" where
  "release_custody d b =
     (let x = bundles d b in
      if \<not> local_custody x \<and> \<not> bibe_custody x then d
      else
        let d1 = d\<lparr>actions := actions d @ [CancelCustodyTimers b]\<rparr>;
            d2 = update_bundle d1 b (\<lambda>x.
              (if local_custody x then x\<lparr>cb_custodian := null_eid, local_custody := False\<rparr> else x)\<lparr>bibe_custody := False\<rparr>);
            d3 = d2\<lparr>actions := actions d2 @ [StoreUpdate b], custody_bundles := remove1 b (custody_bundles d2)\<rparr>;
            d4 = erase_from_custodyid_list d3 b
        in d4\<lparr>actions := actions d4 @ [RouterCustodyReleased b]\<rparr>)"

text \<open>
  One custody id of a signal: a counted miss, a bundle without custody (skipped), or a release.
\<close>

definition process_cid :: "acs_daemon \<Rightarrow> string \<Rightarrow> bool \<Rightarrow> u64 \<Rightarrow> acs_daemon" where
  "process_cid d dest redundant cid =
     (case cl_find (custody d) dest cid of
        None \<Rightarrow> d\<lparr>stats := (stats d)\<lparr>st_not_found := st_not_found (stats d) + 1\<rparr>\<rparr>
      | Some b \<Rightarrow>
          if \<not> local_custody (bundles d b) \<and> \<not> bibe_custody (bundles d b) then d
          else
            let d1 = (if redundant
                      then d\<lparr>stats := (stats d)\<lparr>st_redundant := st_redundant (stats d) + 1\<rparr>\<rparr>
                      else d\<lparr>stats := (stats d)\<lparr>st_released := st_released (stats d) + 1\<rparr>\<rparr>);
                d2 = release_custody d1 b
            in d2\<lparr>actions := actions d2 @ [TryToDelete b]\<rparr>)"

text \<open>The inner loop over one fill: it stops at the first id beyond the last one given out.\<close>

function process_fill :: "acs_daemon \<Rightarrow> string \<Rightarrow> bool \<Rightarrow> u64 \<Rightarrow> acs_entry \<Rightarrow> u64 \<Rightarrow> acs_daemon" where
  "process_fill d dest redundant lastid entry idx =
     (if idx < length_of_fill entry then
        let cid = left_edge entry + idx in
        if cid > lastid then d
        else process_fill (process_cid d dest redundant cid) dest redundant lastid entry (idx + 1)
      else d)"
  by pat_completeness auto
termination
  by (relation "measure (\<lambda>(d, dest, r, lastid, e, idx). unat (length_of_fill e) - unat idx)")
    (auto simp: unat_next, simp add: word_less_nat_alt)

declare process_fill.simps [simp del]

definition process_acs :: "acs_daemon \<Rightarrow> string \<Rightarrow> acs_data \<Rightarrow> acs_daemon" where
  "process_acs d dest data =
     (let redundant = d_redundant data; release = d_succeeded data \<or> redundant;
          invalid = d\<lparr>stats := (stats d)\<lparr>st_invalid := st_invalid (stats d) + 1\<rparr>\<rparr>
      in if \<not> release then invalid
         else if length (d_entry_map data) = 0 then invalid
         else let lastid = last_custody_id (custody d) dest in
           foldl (\<lambda>d' (k, entry). process_fill d' dest redundant lastid entry 0) d (d_entry_map data))"

section \<open>Sending a pending ACS\<close>

definition signal_ids :: "admin_bundle \<Rightarrow> nat set" where
  "signal_ids b =
     (case parse_aggregate_custody_signal (b_payload b) of None \<Rightarrow> {}
      | Some data \<Rightarrow> acs_ids (d_entry_map data))"

definition pacs_ok :: "pending_acs \<Rightarrow> bool" where
  "pacs_ok p \<longleftrightarrow> pacs_inv p \<and> \<not> same_eid (custody_eid p) null_eid \<and> bp_version p = 6"

lemma pacs_ok_empty:
  "pacs_ok p \<Longrightarrow> acs_entry_map p' = [] \<Longrightarrow> acs_payload_length p' = 0 \<Longrightarrow> num_custody_ids p' = 0 \<Longrightarrow>
   custody_eid p' = custody_eid p \<Longrightarrow> bp_version p' = bp_version p \<Longrightarrow> pacs_ok p'"
  by (simp add: pacs_ok_def pacs_inv_def)

lemma create_signal_ok:
  assumes "pacs_ok p" and "acs_payload_length p > 0"
  shows "\<exists>b. create_signal d p = Some (b, p\<lparr>pacs_id := next_pacsid d, acs_payload_length := 0,
           num_custody_ids := 0, acs_entry_map := []\<rparr>)
         \<and> signal_ids b = acs_ids (acs_entry_map p) \<and> b_dest b = custody_eid p"
proof -
  have inv: "pacs_inv p" "\<not> same_eid (custody_eid p) null_eid" using assms by (auto simp: pacs_ok_def)
  have ne: "acs_entry_map p \<noteq> []" using pacs_payload_zero_iff [OF inv(1)] assms(2) by auto
  let ?src = "if is_ipn_scheme (custody_eid p) then local_eid_ipn d else local_eid d"
  have chain: "acs_chain (unat (0 :: u64)) 1 (acs_entry_map p)" using inv(1) by (simp add: pacs_inv_def)
  have r: "acs_parse_entries (wire_bytes (acs_entry_map p)) 0 [] = Some (wire_map (acs_entry_map p))"
    using acs_parse_entries_ok [OF chain, of "[]"] by simp
  have "wire_map (acs_entry_map p) \<noteq> []" using ne by (simp add: wire_map_def)
  then show ?thesis
    using inv(2) assms(1) write_pacs_ok [OF inv(1)] r
    by (simp add: create_signal_def pacs_ok_def create_aggregate_custody_signal_def Let_def signal_ids_def
        parse_aggregate_custody_signal_def status_byte ADMIN_AGGREGATE_CUSTODY_SIGNAL_def)
qed

text \<open>What \<open>generate_acs\<close> achieves: the ids are on their way, the pending ACS starts afresh.\<close>

lemma generate_acs_ok:
  assumes "pacs_ok p"
  shows "\<exists>d' p' new. generate_acs d p False = Some (d', p') \<and> pacs_ok p' \<and> acs_entry_map p' = []
    \<and> posted d' = posted d @ new \<and> (\<Union>b \<in> set new. signal_ids b) = acs_ids (acs_entry_map p)
    \<and> pending_acs_map d' = pending_acs_map d \<and> key p' = key p \<and> acs_size p' = acs_size p
    \<and> acs_delay p' = acs_delay p"
proof (cases "acs_payload_length p > 0")
  case True
  obtain b where b: "create_signal d p = Some (b, p\<lparr>pacs_id := next_pacsid d, acs_payload_length := 0,
      num_custody_ids := 0, acs_entry_map := []\<rparr>)" "signal_ids b = acs_ids (acs_entry_map p)"
    using create_signal_ok [OF assms True] by blast
  show ?thesis
    using True b assms by (auto simp: generate_acs_def pacs_ok_def pacs_inv_def intro!: exI [of _ "[b]"])
next
  case False
  then have "acs_entry_map p = []"
    using assms pacs_payload_zero_iff [of p] by (simp add: pacs_ok_def word_gt_0)
  then show ?thesis using False assms by (auto simp: generate_acs_def intro!: exI [of _ "[]"])
qed

section \<open>Adding an id\<close>

text \<open>The three parameters of a pending ACS play no part in where an id goes.\<close>

definition with_params :: "u32 \<Rightarrow> u32 \<Rightarrow> u32 \<Rightarrow> pending_acs \<Rightarrow> pending_acs" where
  "with_params r dl sz p = p\<lparr>params_revision := r, acs_delay := dl, acs_size := sz\<rparr>"

lemma with_params_fields [simp]:
  "acs_entry_map (with_params r dl sz p) = acs_entry_map p"
  "acs_payload_length (with_params r dl sz p) = acs_payload_length p"
  "num_custody_ids (with_params r dl sz p) = num_custody_ids p"
  "key (with_params r dl sz p) = key p"
  "custody_eid (with_params r dl sz p) = custody_eid p"
  "bp_version (with_params r dl sz p) = bp_version p"
  "acs_size (with_params r dl sz p) = sz"
  "acs_delay (with_params r dl sz p) = dl"
  by (simp_all add: with_params_def)

lemma pacs_ok_with_params [simp]: "pacs_ok (with_params r dl sz p) = pacs_ok p"
  by (simp add: pacs_ok_def pacs_inv_def)

lemma determine_fill_gap_params:
  "determine_fill_gap (with_params r dl sz p) c
     = map_option (\<lambda>(p1, chg). (with_params r dl sz p1, chg)) (determine_fill_gap p c)"
  by (simp add: determine_fill_gap_def with_params_def Let_def split: prod.splits)

lemma determine_params:
  "determine_acs_changes (with_params r dl sz p) c
     = map_option (\<lambda>(p1, chg). (with_params r dl sz p1, chg)) (determine_acs_changes p c)"
  by (cases "om_from c (acs_entry_map p)")
    (simp_all add: determine_acs_changes_def determine_fill_gap_params Let_def case_prod_beta
      if_distrib [where f = "map_option _"] cong: if_cong)

lemma determine_keeps:
  assumes "determine_acs_changes p c = Some (p1, chg)"
  shows "params_revision p1 = params_revision p \<and> acs_delay p1 = acs_delay p \<and> acs_size p1 = acs_size p
    \<and> custody_eid p1 = custody_eid p \<and> key p1 = key p \<and> bp_version p1 = bp_version p"
  using assms
  by (auto simp: determine_acs_changes_def determine_fill_gap_def Let_def
      split: list.splits prod.splits if_splits)

lemma apply_keeps:
  assumes "apply_acs_changes p chg c = Some (p1, t)"
  shows "acs_size p1 = acs_size p \<and> custody_eid p1 = custody_eid p \<and> key p1 = key p \<and> bp_version p1 = bp_version p"
  using assms
  by (auto simp: apply_acs_changes_def Let_def split: if_splits ae_operation.splits option.splits)

lemma finish_add_effect:
  "\<exists>p'. pending_acs_map (finish_add d p t) = (pending_acs_map d)(key p \<mapsto> p') \<and> posted (finish_add d p t) = posted d
    \<and> key p' = key p \<and> acs_entry_map p' = acs_entry_map p \<and> acs_payload_length p' = acs_payload_length p
    \<and> acs_size p' = acs_size p \<and> pacs_ok p' = pacs_ok p"
  by (auto simp: finish_add_def update_pending_acs_store_def put_pacs_def Let_def pacs_ok_def pacs_inv_def
      split: option.splits)

lemma first_entry_ok:
  assumes "pacs_ok p" and "acs_entry_map p = []" and "ae_op chg \<noteq> AE_OP_NOOP" and "c \<noteq> 0"
  shows "\<exists>p' t. apply_acs_changes p chg c = Some (p', t) \<and> pacs_ok p' \<and> acs_ids (acs_entry_map p') = {unat c}
    \<and> uint (acs_payload_length p') \<le> 11 \<and> key p' = key p \<and> acs_size p' = acs_size p"
proof -
  let ?m = "add_acs_entry [] c 1 c (enc_len c + 1)"
  let ?p = "p\<lparr>acs_entry_map := ?m, acs_payload_length := of_int (enc_len c + 1), num_custody_ids := 1,
               acs_expiration_timer := Some (key p, pacs_id p)\<rparr>"
  have inv: "pacs_inv p" using assms(1) by (simp add: pacs_ok_def)
  have zero: "acs_payload_length p = 0" using pacs_payload_zero_iff [OF inv] assms(2) by simp
  have n: "num_custody_ids p = 0" using inv assms(2) by (simp add: pacs_inv_def)
  have "apply_acs_changes p chg c = Some (?p, Some (acs_delay p * 1000))"
    using assms(2,3) zero by (simp add: apply_acs_changes_def Let_def)
  moreover have "pacs_inv ?p \<and> acs_ids (acs_entry_map ?p) = insert (unat c) (acs_ids (acs_entry_map p))
      \<and> uint (acs_payload_length ?p) \<le> uint (acs_payload_length p) + 40"
    by (rule pacs_inv_updated [OF inv, of c "enc_len c + 1" ?m])
      (use adds_id_first [OF assms(4)] assms(2) zero n in simp_all)
  moreover have "uint (of_int (enc_len c + 1) :: u32) = enc_len c + 1"
    using payload_plus [of 0 0 "enc_len c + 1"] enc_len_le [of c] by simp
  ultimately show ?thesis using assms(1,2) enc_len_le [of c] by (auto simp: pacs_ok_def)
qed

lemma no_send_bound:
  assumes "\<not> must_send p dl changed old" and "acs_payload_length p \<noteq> 0" and "acs_size p > 0"
  shows "uint (acs_payload_length p + of_int dl) \<le> uint (acs_size p)"
proof -
  have "0 < acs_payload_length p" using assms(2) by (simp add: word_gt_0)
  then have "\<not> acs_size p < acs_payload_length p + of_int dl" using assms(1,3) by (simp add: must_send_def)
  then show ?thesis by (simp add: word_less_def)
qed

lemma determine_noop_delta:
  "determine_acs_changes p c = Some (p1, chg) \<Longrightarrow> ae_op chg = AE_OP_NOOP \<Longrightarrow> delta chg = 0"
  by (auto simp: determine_acs_changes_def determine_fill_gap_def determine_past_end_def no_change_def Let_def
      split: list.splits prod.splits if_splits)

text \<open>The size of what stays pending when nothing had to be sent.\<close>

lemma not_sent_size:
  assumes inv: "pacs_inv q" and det: "determine_acs_changes q c = Some (q1, chg)" and ch: "change_ok q c (q1, chg)"
    and app: "apply_acs_changes q1 chg c = Some (q2, t)" and ok: "pacs_ok q" and c: "c \<noteq> 0"
    and small: "\<not> must_send q1 (delta chg) changed old" and sz: "acs_size q1 > 0"
  shows "uint (acs_payload_length q2) \<le> max (uint (acs_size q1)) 11"
proof (cases "acs_entry_map q = []")
  case True
  then have "ae_op chg = AE_OP_INSERT_FIRST_ENTRY" "q1 = q"
    using det by (auto simp: determine_acs_changes_def determine_past_end_def om_from_def no_change_def Let_def)
  then show ?thesis using first_entry_ok [OF ok True, of chg c] app c by auto
next
  case False
  have zq: "acs_payload_length q \<noteq> 0" using pacs_payload_zero_iff [OF inv] False by simp
  show ?thesis
  proof (cases "ae_op chg = AE_OP_NOOP")
    case True
    then have q2: "q2 = q1" "delta chg = 0"
      using app determine_noop_delta [OF det] by (auto simp: apply_acs_changes_def)
    then show ?thesis
      using no_send_bound [OF small _ sz] by (cases "acs_payload_length q1 = 0") auto
  next
    case op: False
    then have "q1 = q" "acs_payload_length q2 = acs_payload_length q1 + of_int (delta chg)"
      using ch app zq False by (auto simp: change_ok_def)
    then show ?thesis using no_send_bound [OF small _ sz] zq by simp
  qed
qed

lemma add_to_pending_ok:
  assumes ok: "pacs_ok p" and c: "c \<noteq> 0" and fresh: "unat c \<notin> acs_ids (acs_entry_map p)"
    and room: "uint (acs_payload_length p) + 40 < 2 ^ 32"
  shows "\<exists>d' p' new. add_to_pending glob d p c = Some d'
    \<and> pending_acs_map d' = (pending_acs_map d)(key p \<mapsto> p') \<and> key p' = key p \<and> pacs_ok p'
    \<and> posted d' = posted d @ new
    \<and> acs_ids (acs_entry_map p') \<union> (\<Union>b \<in> set new. signal_ids b) = insert (unat c) (acs_ids (acs_entry_map p))
    \<and> (acs_size p' > 0 \<longrightarrow> uint (acs_payload_length p') \<le> max (uint (acs_size p')) 11)"
proof -
  obtain changed r dl sz where params: "get_acs_params_for_endpoint glob d (custody_eid p) (params_revision p)
      (acs_delay p) (acs_size p) = (changed, r, dl, sz)"
    by (metis prod_cases4)
  define q where "q = with_params r dl sz p"
  have q: "pacs_ok q" "unat c \<notin> acs_ids (acs_entry_map q)" "uint (acs_payload_length q) + 40 < 2 ^ 32"
    using ok fresh room by (simp_all add: q_def)
  have inv: "pacs_inv q" and chain: "acs_chain 0 1 (acs_entry_map q)"
    using q(1) by (auto simp: pacs_ok_def pacs_inv_def)
  obtain p1 chg where det: "determine_acs_changes p c = Some (p1, chg)"
    using determine_ok [of p c] ok c fresh by (auto simp: pacs_ok_def pacs_inv_def)
  define q1 where "q1 = with_params r dl sz p1"
  have detq: "determine_acs_changes q c = Some (q1, chg)" by (simp add: q_def q1_def determine_params det)
  have ref: "acs_refresh glob d p1 = (changed, q1)"
    using determine_keeps [OF det] params by (simp add: acs_refresh_def q1_def with_params_def)
  obtain q2 t where add: "apply_acs_changes q1 chg c = Some (q2, t)" "pacs_inv q2"
      "acs_ids (acs_entry_map q2) = insert (unat c) (acs_ids (acs_entry_map q))"
    using add_custody_id_ok [OF inv c q(2,3)] by (auto simp: add_custody_id_def detq)
  have kq1: "key q1 = key p" "acs_size q1 = sz" "custody_eid q1 = custody_eid p" "bp_version q1 = bp_version p"
    using determine_keeps [OF det] by (simp_all add: q1_def)
  have q2: "pacs_ok q2" "key q2 = key p" "acs_size q2 = sz"
    using apply_keeps [OF add(1)] kq1 add(2) ok by (simp_all add: pacs_ok_def)
  have ch: "change_ok q c (q1, chg)" using determine_ok [OF chain c q(2)] detq by simp
  have noop: "ae_op chg = AE_OP_NOOP \<Longrightarrow> q2 = q1" using add(1) by (simp add: apply_acs_changes_def)
  have op: "ae_op chg \<noteq> AE_OP_NOOP \<Longrightarrow> q1 = q" using ch by (simp add: change_ok_def)
  have res: "\<exists>d' p'. Some (finish_add d3 p4 u) = Some d' \<and> pending_acs_map d' = (pending_acs_map d3)(key p4 \<mapsto> p')
      \<and> key p' = key p4 \<and> pacs_ok p' = pacs_ok p4 \<and> posted d' = posted d3
      \<and> acs_entry_map p' = acs_entry_map p4 \<and> acs_payload_length p' = acs_payload_length p4
      \<and> acs_size p' = acs_size p4" for d3 p4 u
    using finish_add_effect [of d3 p4 u] by auto
  show ?thesis
  proof (cases "must_send q1 (delta chg) changed (acs_delay p1)")
    case False
    have size: "acs_size q2 > 0 \<longrightarrow> uint (acs_payload_length q2) \<le> max (uint (acs_size q2)) 11"
      using not_sent_size [OF inv detq ch add(1) q(1) c False] kq1 q2 by simp
    have "add_to_pending glob d p c = Some (finish_add d q2 t)"
      using False by (simp add: add_to_pending_def det ref add(1))
    then show ?thesis
      using res [of d q2 t] q2 size add(3) by (auto simp: q_def intro!: exI [of _ "[]"])
  next
    case True
    have "pacs_ok q1" using noop op q(1) q2(1) by (cases "ae_op chg = AE_OP_NOOP") auto
    then have "pacs_ok (q1\<lparr>acs_expiration_timer := None\<rparr>)" by (simp add: pacs_ok_def pacs_inv_def)
    from generate_acs_ok [OF this, of "cancel_timer d (acs_expiration_timer q1)"]
    obtain d3 p3 new where gen: "generate_acs (cancel_timer d (acs_expiration_timer q1))
        (q1\<lparr>acs_expiration_timer := None\<rparr>) False = Some (d3, p3)" "pacs_ok p3" "acs_entry_map p3 = []"
      "posted d3 = posted d @ new" "(\<Union>b \<in> set new. signal_ids b) = acs_ids (acs_entry_map q1)"
      "pending_acs_map d3 = pending_acs_map d" "key p3 = key p" "acs_size p3 = sz"
      using kq1 by (auto simp: cancel_timer_def split: option.splits prod.splits)
    obtain p4 u where p4: "apply_acs_changes p3 chg c = Some (p4, u)" "pacs_ok p4" "key p4 = key p" "acs_size p4 = sz"
      "uint (acs_payload_length p4) \<le> 11"
      "acs_ids (acs_entry_map p4) \<union> acs_ids (acs_entry_map q1) = insert (unat c) (acs_ids (acs_entry_map p))"
    proof (cases "ae_op chg = AE_OP_NOOP")
      case True
      then have "apply_acs_changes p3 chg c = Some (p3, None)" by (simp add: apply_acs_changes_def)
      moreover have "acs_payload_length p3 = 0"
        using gen(2,3) pacs_payload_zero_iff [of p3] by (simp add: pacs_ok_def)
      ultimately show ?thesis using that gen add(3) noop [OF True] by (auto simp: q_def)
    next
      case False
      then show ?thesis
        using that first_entry_ok [OF gen(2,3) False c] gen op [OF False] by (auto simp: q_def)
    qed
    have "add_to_pending glob d p c = Some (finish_add d3 p4 u)"
      using True by (simp add: add_to_pending_def det ref gen(1) p4(1))
    moreover obtain p' where "pending_acs_map (finish_add d3 p4 u) = (pending_acs_map d)(key p \<mapsto> p')"
      "key p' = key p" "pacs_ok p'" "posted (finish_add d3 p4 u) = posted d @ new"
      "acs_entry_map p' = acs_entry_map p4" "uint (acs_payload_length p') \<le> 11"
      using res [of d3 p4 u] p4 gen by auto
    ultimately show ?thesis
      using p4(6) gen(5)
      by (intro exI [of _ "finish_add d3 p4 u"] exI [of _ p'] exI [of _ new]) (simp add: le_max_iff_disj)
  qed
qed

section \<open>Processing a received signal\<close>

text \<open>Bundles and custody list agree: what is held is held under the bundle's own id, in custody.\<close>

definition cust_inv :: "acs_daemon \<Rightarrow> bool" where
  "cust_inv d \<longleftrightarrow> cl_inv (custody d)
     \<and> (\<forall>dest i b. cl_find (custody d) dest i = Some b \<longrightarrow>
          custody_dest (bundles d b) = dest \<and> custodyid (bundles d b) = i
          \<and> (local_custody (bundles d b) \<or> bibe_custody (bundles d b)))"

lemma held_id_pos: "cust_inv d \<Longrightarrow> cl_find (custody d) dest i = Some b \<Longrightarrow> 0 < i"
  using cl_inv_dest [of "custody d" dest] 
  by (force simp: cust_inv_def cl_find_dest dest_ok_def dest: om_find_SomeD)

lemma release_custody_effect:
  assumes "cust_inv d" and "cl_find (custody d) dest i = Some b"
  shows "cust_inv (release_custody d b)"
    and "cl_find (custody (release_custody d b)) = (\<lambda>e j. if e = dest \<and> j = i then None else cl_find (custody d) e j)"
proof -
  have b: "custody_dest (bundles d b) = dest" "custodyid (bundles d b) = i"
    "local_custody (bundles d b) \<or> bibe_custody (bundles d b)" and cl: "cl_inv (custody d)"
    using assms by (auto simp: cust_inv_def)
  have pos: "0 < custodyid (bundles d b)" using held_id_pos [OF assms] b by simp
  have c: "custody (release_custody d b) = snd (cl_erase (custody d) dest i)"
    using b pos by (auto simp: release_custody_def erase_from_custodyid_list_def update_bundle_def Let_def)
  have other: "b' \<noteq> b \<Longrightarrow> bundles (release_custody d b) b' = bundles d b'" for b'
    by (auto simp: release_custody_def erase_from_custodyid_list_def update_bundle_def Let_def)
  show fnd: "cl_find (custody (release_custody d b)) = (\<lambda>e j. if e = dest \<and> j = i then None else cl_find (custody d) e j)"
    unfolding c by (rule cl_erase_effect(2) [OF cl])
  have "b' \<noteq> b" if "cl_find (custody (release_custody d b)) e j = Some b'" for e j b'
  proof
    assume "b' = b"
    moreover have "cl_find (custody d) e j = Some b'" "\<not> (e = dest \<and> j = i)"
      using that unfolding fnd by (auto split: if_splits)
    ultimately show False using assms(1) b(1,2) unfolding cust_inv_def by blast
  qed
  then show "cust_inv (release_custody d b)"
    using assms(1) other cl_erase_effect(1) [OF cl, of dest i]
    by (auto simp: cust_inv_def c [symmetric] fnd split: if_splits)
qed

lemma process_cid_effect:
  assumes "cust_inv d"
  shows "cust_inv (process_cid d dest red cid)"
    and "cl_find (custody (process_cid d dest red cid)) = (\<lambda>e j. if e = dest \<and> j = cid then None else cl_find (custody d) e j)"
proof -
  have "cust_inv (process_cid d dest red cid) \<and> cl_find (custody (process_cid d dest red cid))
    = (\<lambda>e j. if e = dest \<and> j = cid then None else cl_find (custody d) e j)"
  proof (cases "cl_find (custody d) dest cid")
    case None
    then show ?thesis using assms by (auto simp: process_cid_def cust_inv_def fun_eq_iff)
  next
    case (Some b)
    let ?d = "if red then d\<lparr>stats := (stats d)\<lparr>st_redundant := st_redundant (stats d) + 1\<rparr>\<rparr>
                     else d\<lparr>stats := (stats d)\<lparr>st_released := st_released (stats d) + 1\<rparr>\<rparr>"
    have inv: "cust_inv ?d" and fnd: "cl_find (custody ?d) dest cid = Some b"
      using assms Some by (auto simp: cust_inv_def)
    have flags: "local_custody (bundles d b) \<or> bibe_custody (bundles d b)"
      using assms Some by (auto simp: cust_inv_def)
    have eq: "process_cid d dest red cid = (release_custody ?d b)\<lparr>actions := actions (release_custody ?d b) @ [TryToDelete b]\<rparr>"
      using Some flags by (auto simp: process_cid_def Let_def)
    have cu: "cust_inv (x\<lparr>actions := a\<rparr>) = cust_inv x" for x a by (simp add: cust_inv_def)
    have same: "custody ?d = custody d" by simp
    show ?thesis
      unfolding eq cu using release_custody_effect [OF inv fnd] unfolding same by simp
  qed
  then show "cust_inv (process_cid d dest red cid)" "cl_find (custody (process_cid d dest red cid))
      = (\<lambda>e j. if e = dest \<and> j = cid then None else cl_find (custody d) e j)" by auto
qed

lemma process_fill_effect:
  "cust_inv d \<Longrightarrow> \<forall>j > lastid. cl_find (custody d) dest j = None \<Longrightarrow>
   unat (left_edge e) + unat (length_of_fill e) \<le> 2 ^ 64 \<Longrightarrow>
   cust_inv (process_fill d dest red lastid e idx)
   \<and> cl_find (custody (process_fill d dest red lastid e idx))
     = (\<lambda>f j. if f = dest \<and> unat (left_edge e) + unat idx \<le> unat j
                \<and> unat j < unat (left_edge e) + unat (length_of_fill e) then None else cl_find (custody d) f j)"
proof (induction d dest red lastid e idx rule: process_fill.induct)
  case (1 d dest red lastid e idx)
  show ?case
  proof (cases "idx < length_of_fill e")
    case False
    then have "process_fill d dest red lastid e idx = d" by (subst process_fill.simps) simp
    then show ?thesis using "1.prems" False by (auto simp: fun_eq_iff word_less_nat_alt)
  next
    case True
    define cid where "cid = left_edge e + idx"
    have ucid: "unat cid = unat (left_edge e) + unat idx"
      using True "1.prems"(3) by (simp add: cid_def unat_word_ariths word_less_nat_alt)
    have uidx: "unat (idx + 1) = Suc (unat idx)" using True by (rule unat_next)
    show ?thesis
    proof (cases "cid > lastid")
      case beyond: True
      then have "process_fill d dest red lastid e idx = d"
        using True by (subst process_fill.simps) (simp add: cid_def Let_def)
      moreover have "cl_find (custody d) dest j = None" if "unat cid \<le> unat j" for j
      proof -
        have "lastid < j" using beyond that by (simp add: word_less_nat_alt)
        then show ?thesis using "1.prems"(2) by simp
      qed
      ultimately show ?thesis using "1.prems"(1) by (auto simp: fun_eq_iff ucid)
    next
      case False
      let ?d = "process_cid d dest red cid"
      note eff = process_cid_effect [OF "1.prems"(1), of dest red cid]
      have "process_fill d dest red lastid e idx = process_fill ?d dest red lastid e (idx + 1)"
        using True False by (subst process_fill.simps) (simp add: cid_def Let_def)
      moreover have "cust_inv (process_fill ?d dest red lastid e (idx + 1))
          \<and> cl_find (custody (process_fill ?d dest red lastid e (idx + 1)))
            = (\<lambda>f j. if f = dest \<and> unat (left_edge e) + unat (idx + 1) \<le> unat j
                \<and> unat j < unat (left_edge e) + unat (length_of_fill e) then None else cl_find (custody ?d) f j)"
        unfolding cid_def
        by (rule "1.IH" [OF True refl]) (use False eff "1.prems" in \<open>simp_all add: cid_def\<close>)
      moreover have "j = cid \<longleftrightarrow> unat j = unat (left_edge e) + unat idx" for j
        by (simp add: word_unat_eq_iff ucid)
      moreover have "unat idx < unat (length_of_fill e)" using True by (simp add: word_less_nat_alt)
      ultimately show ?thesis by (auto simp: fun_eq_iff eff(2) uidx)
    qed
  qed
qed

lemma process_fills_effect:
  "cust_inv d \<Longrightarrow> \<forall>j > lastid. cl_find (custody d) dest j = None \<Longrightarrow>
   \<forall>(k, e) \<in> set m. k = left_edge e \<and> unat (left_edge e) + unat (length_of_fill e) \<le> 2 ^ 64 \<Longrightarrow>
   d' = foldl (\<lambda>d' (k, entry). process_fill d' dest red lastid entry 0) d m \<Longrightarrow>
   cust_inv d' \<and> cl_find (custody d')
     = (\<lambda>f j. if f = dest \<and> unat j \<in> acs_ids m then None else cl_find (custody d) f j)"
proof (induction m arbitrary: d)
  case (Cons x m)
  obtain k e where x: "x = (k, e)" by (cases x)
  have k: "k = left_edge e" "unat (left_edge e) + unat (length_of_fill e) \<le> 2 ^ 64" using Cons.prems(3) x by auto
  let ?d = "process_fill d dest red lastid e 0"
  note eff = process_fill_effect [OF Cons.prems(1,2) k(2), of red 0]
  have "cust_inv d' \<and> cl_find (custody d')
      = (\<lambda>f j. if f = dest \<and> unat j \<in> acs_ids m then None else cl_find (custody ?d) f j)"
    by (rule Cons.IH) (use eff Cons.prems x in auto)
  then show ?case using eff by (auto simp: x k fun_eq_iff fill_ids_def fill_end_def)
qed simp

section \<open>Properties\<close>

definition acs_map_ok :: "acs_daemon \<Rightarrow> bool" where
  "acs_map_ok d \<longleftrightarrow> (\<forall>k p. pending_acs_map d k = Some p \<longrightarrow> key p = k \<and> pacs_ok p)"

definition pending_ids :: "acs_daemon \<Rightarrow> string \<Rightarrow> nat set" where
  "pending_ids d k = (case pending_acs_map d k of None \<Rightarrow> {} | Some p \<Rightarrow> acs_ids (acs_entry_map p))"

definition pending_bytes :: "acs_daemon \<Rightarrow> string \<Rightarrow> int" where
  "pending_bytes d k = (case pending_acs_map d k of None \<Rightarrow> 0 | Some p \<Rightarrow> uint (acs_payload_length p))"

lemma handle_add_ok:
  assumes map: "acs_map_ok d" and eid: "\<not> same_eid (ev_custody_eid ev) null_eid" and c: "ev_custody_id ev \<noteq> 0"
    and k: "k = pacs_key (ev_custody_eid ev) (ev_succeeded ev) (ev_reason ev)"
    and fresh: "unat (ev_custody_id ev) \<notin> pending_ids d k" and room: "pending_bytes d k + 40 < 2 ^ 32"
  shows "\<exists>d' p' new. handle_add_bundle_to_acs glob d ev = Some d' \<and> acs_map_ok d'
    \<and> posted d' = posted d @ new \<and> pending_acs_map d' = (pending_acs_map d)(k \<mapsto> p')
    \<and> pending_ids d' k \<union> (\<Union>b \<in> set new. signal_ids b) = insert (unat (ev_custody_id ev)) (pending_ids d k)
    \<and> (acs_size p' > 0 \<longrightarrow> pending_bytes d' k \<le> max (uint (acs_size p')) 11)"
proof -
  obtain d1 p where hd: "handle_add_bundle_to_acs glob d ev = add_to_pending glob d1 p (ev_custody_id ev)"
    and p: "pacs_ok p" "key p = k" "acs_ids (acs_entry_map p) = pending_ids d k"
      "uint (acs_payload_length p) = pending_bytes d k"
    and d1: "posted d1 = posted d" "(pending_acs_map d1)(k := None) = (pending_acs_map d)(k := None)"
  proof (cases "pending_acs_map d k")
    case None
    let ?p = "(new_pending_acs k)\<lparr>pacs_id := next_pacsid d, custody_eid := ev_custody_eid ev,
        succeeded := ev_succeeded ev, reason := ev_reason ev, bp_version := 6\<rparr>"
    have "handle_add_bundle_to_acs glob d ev
        = add_to_pending glob (put_pacs (d\<lparr>next_pacsid := next_pacsid d + 1\<rparr>) ?p) ?p (ev_custody_id ev)"
      using None by (simp add: handle_add_bundle_to_acs_def Let_def flip: k)
    moreover have "pacs_ok ?p" using eid by (simp add: pacs_ok_def pacs_inv_def new_pending_acs_def)
    ultimately show ?thesis
      using that None by (auto simp: new_pending_acs_def pending_ids_def pending_bytes_def put_pacs_def)
  next
    case (Some p)
    then have "handle_add_bundle_to_acs glob d ev = add_to_pending glob d p (ev_custody_id ev)"
      by (simp add: handle_add_bundle_to_acs_def Let_def flip: k)
    then show ?thesis using that Some map by (auto simp: acs_map_ok_def pending_ids_def pending_bytes_def)
  qed
  obtain d' p' new where r: "add_to_pending glob d1 p (ev_custody_id ev) = Some d'"
    "pending_acs_map d' = (pending_acs_map d1)(k \<mapsto> p')" "key p' = k" "pacs_ok p'" "posted d' = posted d @ new"
    "acs_ids (acs_entry_map p') \<union> (\<Union>b \<in> set new. signal_ids b) = insert (unat (ev_custody_id ev)) (pending_ids d k)"
    "acs_size p' > 0 \<longrightarrow> uint (acs_payload_length p') \<le> max (uint (acs_size p')) 11"
    using add_to_pending_ok [OF p(1) c, of glob d1] fresh room p d1 by auto
  have upd: "pending_acs_map d' = (pending_acs_map d)(k \<mapsto> p')"
    using d1(2) r(2) by (metis fun_upd_upd)
  then have "acs_map_ok d'" using map r(3,4) by (auto simp: acs_map_ok_def)
  then show ?thesis
    using hd r upd
    by (intro exI [of _ d'] exI [of _ p'] exI [of _ new]) (simp add: pending_ids_def pending_bytes_def)
qed

text \<open>
  C11. No custody id is lost: when the daemon adds a new custody id to the pending ACS of its
  custodian, outcome and reason (creating the pending ACS, sending it first because it would grow
  too large or because the delay was lowered), the ids still pending together with the ids in the
  signals that were posted, read back from their payloads, are exactly the ids pending before and
  the new one; every pending ACS keeps its invariant and no other pending ACS changes.
\<close>
theorem custody_ids_never_lost:
  assumes "acs_map_ok d" and "\<not> same_eid (ev_custody_eid ev) null_eid" and "ev_custody_id ev \<noteq> 0"
    and "k = pacs_key (ev_custody_eid ev) (ev_succeeded ev) (ev_reason ev)"
    and "unat (ev_custody_id ev) \<notin> pending_ids d k" and "pending_bytes d k + 40 < 2 ^ 32"
  shows "\<exists>d' new. handle_add_bundle_to_acs glob d ev = Some d' \<and> acs_map_ok d'
    \<and> posted d' = posted d @ new
    \<and> pending_ids d' k \<union> (\<Union>b \<in> set new. signal_ids b) = insert (unat (ev_custody_id ev)) (pending_ids d k)
    \<and> (\<forall>j. j \<noteq> k \<longrightarrow> pending_acs_map d' j = pending_acs_map d j)"
  using handle_add_ok [OF assms] by (metis fun_upd_other)

definition demo_stats :: acs_stats where
  "demo_stats = \<lparr>st_accepted = 0, st_released = 0, st_redundant = 0, st_total_released = 0, st_not_found = 0,
     st_generated = 0, st_reloaded = 0, st_invalid = 0\<rparr>"

definition demo_daemon :: acs_daemon where
  "demo_daemon = \<lparr>acs_enabled = True, default_size = 1000, default_delay = 30, acs_route_params_list = [],
     acs_params_revision = 1, pending_acs_map = Map.empty, next_pacsid = 0, custody = [],
     bundles = (\<lambda>_. \<lparr>custody_dest = ''bpv6'', custodyid = 0, local_custody = False, bibe_custody = False,
       cb_dest = demo_eid, cb_custodian = demo_eid, cteb_custodyid = 0, cteb_blocks = []\<rparr>),
     stats = demo_stats, local_eid = demo_eid, local_eid_ipn = demo_eid, posted = [], timers = [],
     pacs_store = Map.empty, eventq = [], custody_bundles = [], actions = []\<rparr>"

definition demo_event :: add_event where
  "demo_event = \<lparr>ev_custody_eid = demo_eid, ev_succeeded = True, ev_reason = 0, ev_custody_id = 5\<rparr>"

lemma demo_fields [simp]:
  "posted demo_daemon = []" "pending_acs_map demo_daemon = Map.empty" "custody demo_daemon = []"
  "ev_custody_eid demo_event = demo_eid" "ev_succeeded demo_event" "ev_reason demo_event = 0"
  "ev_custody_id demo_event = 5"
  by (simp_all add: demo_event_def demo_daemon_def)

lemma demo_facts:
  "acs_map_ok demo_daemon" "\<not> same_eid (ev_custody_eid demo_event) null_eid" "ev_custody_id demo_event \<noteq> 0"
  "unat (ev_custody_id demo_event) \<notin> pending_ids demo_daemon k" "pending_bytes demo_daemon k + 40 < 2 ^ 32"
  "pending_ids demo_daemon k = {}"
  using demo_eid_not_null
  by (simp_all add: acs_map_ok_def pending_ids_def pending_bytes_def)

theorem custody_ids_never_lost_witness:
  "\<exists>d' new. handle_add_bundle_to_acs (=) demo_daemon demo_event = Some d' \<and> posted d' = new
    \<and> pending_ids d' (pacs_key demo_eid True 0) \<union> (\<Union>b \<in> set new. signal_ids b) = {5}"
  using custody_ids_never_lost [OF demo_facts(1,2,3) refl demo_facts(4,5), of "(=)"]
  by (auto simp: demo_facts(6))

section \<open>The size limit\<close>

text \<open>
  The configured limit for a custodian, as the settings mean it: that of a route pattern that matches it, of the
  greatest length, or the default when none does. \<open>limits_current\<close>: a pending ACS that carries the revision of the
  settings has the configured limit; no revision is greater, and none is the 0 of a new pending ACS.
\<close>

definition configured_size :: "(string \<Rightarrow> string \<Rightarrow> bool) \<Rightarrow> acs_daemon \<Rightarrow> endpoint_id \<Rightarrow> u32 \<Rightarrow> bool" where
  "configured_size glob d e n \<longleftrightarrow>
     (let routes = filter (\<lambda>arp. eid_match glob (rp_endpoint arp) e) (acs_route_params_list d) in
      if routes = [] then n = default_size d
      else \<exists>arp \<in> set routes. rp_size arp = n \<and> (\<forall>arp' \<in> set routes. rp_match_len arp' \<le> rp_match_len arp))"

definition limits_current :: "(string \<Rightarrow> string \<Rightarrow> bool) \<Rightarrow> acs_daemon \<Rightarrow> bool" where
  "limits_current glob d \<longleftrightarrow> acs_params_revision d \<noteq> 0 \<and>
     (\<forall>k p. pending_acs_map d k = Some p \<longrightarrow> params_revision p \<le> acs_params_revision d \<and>
        (params_revision p = acs_params_revision d \<longrightarrow> configured_size glob d (custody_eid p) (acs_size p)))"

lemma best_match_spec:
  assumes "\<And>b. best = Some b \<Longrightarrow> b \<in> S \<and> (\<forall>a \<in> S. rp_match_len a \<le> rp_match_len b)" and "best = None \<Longrightarrow> S = {}"
    and "T = S \<union> set (filter (\<lambda>arp. m (rp_endpoint arp)) l)"
  shows "case best_match m l best of None \<Rightarrow> T = {} | Some b \<Rightarrow> b \<in> T \<and> (\<forall>a \<in> T. rp_match_len a \<le> rp_match_len b)"
  using assms
proof (induction l arbitrary: best S)
  case Nil
  then show ?case by (cases best) auto
next
  case (Cons arp l)
  let ?best = "if m (rp_endpoint arp) then (case best of None \<Rightarrow> Some arp
      | Some b \<Rightarrow> if rp_match_len arp > rp_match_len b then Some arp else Some b) else best"
  let ?S = "if m (rp_endpoint arp) then insert arp S else S"
  have "b \<in> ?S \<and> (\<forall>a \<in> ?S. rp_match_len a \<le> rp_match_len b)" if "?best = Some b" for b
    using that Cons.prems(1,2) by (cases best) (force split: if_splits)+
  moreover have "?best = None \<Longrightarrow> ?S = {}" using Cons.prems(2) by (cases best) (auto split: if_splits)
  moreover have "T = ?S \<union> set (filter (\<lambda>arp. m (rp_endpoint arp)) l)" using Cons.prems(3) by auto
  ultimately have "case best_match m l ?best of None \<Rightarrow> T = {} | Some b \<Rightarrow> b \<in> T \<and> (\<forall>a \<in> T. rp_match_len a \<le> rp_match_len b)"
    by (rule Cons.IH)
  then show ?case by simp
qed

lemma refresh_configured:
  assumes "r \<noteq> acs_params_revision d \<or> configured_size glob d e sz"
    and "get_acs_params_for_endpoint glob d e r dl sz = (changed, r', dl', sz')"
  shows "r' = acs_params_revision d \<and> configured_size glob d e sz'"
proof -
  let ?m = "\<lambda>pat. eid_match glob pat e"
  have "case best_match ?m (acs_route_params_list d) None of None \<Rightarrow> set (filter (\<lambda>arp. ?m (rp_endpoint arp)) (acs_route_params_list d)) = {}
      | Some b \<Rightarrow> b \<in> set (filter (\<lambda>arp. ?m (rp_endpoint arp)) (acs_route_params_list d))
          \<and> (\<forall>a \<in> set (filter (\<lambda>arp. ?m (rp_endpoint arp)) (acs_route_params_list d)). rp_match_len a \<le> rp_match_len b)"
    by (rule best_match_spec [where S = "{}"]) auto
  then show ?thesis
    using assms by (auto simp: get_acs_params_for_endpoint_def configured_size_def Let_def filter_empty_conv split: option.splits if_splits)
qed

text \<open>The settings change by whole revisions, which keeps \<open>limits_current\<close> as long as the revision does not wrap around.\<close>

lemma new_revision_current:
  assumes "limits_current glob d" and "acs_params_revision d \<noteq> -1"
    and "acs_params_revision d' = acs_params_revision d + 1" and "pending_acs_map d' = pending_acs_map d"
  shows "limits_current glob d'"
proof -
  have less: "acs_params_revision d < acs_params_revision d + 1"
    using assms(2) unatSuc [of "acs_params_revision d"] by (simp add: word_less_nat_alt add.commute add_eq_0_iff)
  then show ?thesis using assms by (force simp: limits_current_def)
qed

lemma set_route_limits_current:
  "\<lbrakk>limits_current glob d; acs_params_revision d \<noteq> -1\<rbrakk> \<Longrightarrow> limits_current glob (set_route_acs_params d pat enabled delay sz)"
  by (erule new_revision_current) (simp_all add: set_route_acs_params_def Let_def)

lemma delete_route_limits_current:
  "\<lbrakk>limits_current glob d; acs_params_revision d \<noteq> -1\<rbrakk> \<Longrightarrow> limits_current glob (snd (delete_route_acs_params d pat))"
  by (erule new_revision_current) (simp_all add: delete_route_acs_params_def Let_def split: prod.splits)

text \<open>What adding an id does to the settings of the pending ACS: they are refreshed first, and stay from then on.\<close>

abbreviation settings where
  "settings d \<equiv> (default_size d, acs_route_params_list d, acs_params_revision d)"

lemma generate_keeps_settings:
  assumes "generate_acs d p False = Some (d', p')"
  shows "settings d' = settings d \<and> pending_acs_map d' = pending_acs_map d \<and> custody_eid p' = custody_eid p \<and> key p' = key p
    \<and> acs_size p' = acs_size p \<and> params_revision p' = params_revision p"
  using assms
  by (auto simp: generate_acs_def create_signal_def create_aggregate_custody_signal_def create_bibe_custody_signal_def Let_def
      split: if_splits option.splits)

lemma apply_keeps_revision: "apply_acs_changes p chg c = Some (p1, t) \<Longrightarrow> params_revision p1 = params_revision p"
  by (auto simp: apply_acs_changes_def Let_def split: if_splits ae_operation.splits option.splits)

lemma finish_add_settings:
  "settings (finish_add d p t) = settings d \<and> (\<exists>p'. pending_acs_map (finish_add d p t) = (pending_acs_map d)(key p \<mapsto> p')
     \<and> custody_eid p' = custody_eid p \<and> acs_size p' = acs_size p \<and> params_revision p' = params_revision p)"
  by (auto simp: finish_add_def update_pending_acs_store_def put_pacs_def Let_def split: option.splits)

lemma add_to_pending_limit:
  assumes add: "add_to_pending glob d p c = Some d'"
    and cur: "params_revision p \<noteq> acs_params_revision d \<or> configured_size glob d (custody_eid p) (acs_size p)"
  shows "settings d' = settings d \<and> (\<exists>p'. pending_acs_map d' = (pending_acs_map d)(key p \<mapsto> p') \<and> custody_eid p' = custody_eid p
      \<and> params_revision p' = acs_params_revision d \<and> configured_size glob d (custody_eid p) (acs_size p'))"
proof -
  obtain p1 chg where det: "determine_acs_changes p c = Some (p1, chg)"
    using add by (auto simp: add_to_pending_def split: option.splits)
  obtain changed r dl sz where params: "get_acs_params_for_endpoint glob d (custody_eid p) (params_revision p)
      (acs_delay p) (acs_size p) = (changed, r, dl, sz)"
    by (metis prod_cases4)
  define p2 where "p2 = p1\<lparr>params_revision := r, acs_delay := dl, acs_size := sz\<rparr>"
  have ref: "acs_refresh glob d p1 = (changed, p2)"
    using determine_keeps [OF det] params by (simp add: acs_refresh_def p2_def)
  have sz: "r = acs_params_revision d \<and> configured_size glob d (custody_eid p) sz" by (rule refresh_configured [OF cur params])
  obtain d3 p3 p4 t where g: "(if must_send p2 (delta chg) changed (acs_delay p1)
        then generate_acs (cancel_timer d (acs_expiration_timer p2)) (p2\<lparr>acs_expiration_timer := None\<rparr>) False
        else Some (d, p2)) = Some (d3, p3)" "apply_acs_changes p3 chg c = Some (p4, t)" "d' = finish_add d3 p4 t"
    using add by (auto simp: add_to_pending_def det ref split: option.splits)
  have k: "settings d3 = settings d" "pending_acs_map d3 = pending_acs_map d" "custody_eid p3 = custody_eid p" "key p3 = key p"
    "acs_size p3 = sz" "params_revision p3 = r"
    using g(1) determine_keeps [OF det]
    by (auto simp: p2_def cancel_timer_def dest!: generate_keeps_settings split: if_splits option.splits prod.splits)
  show ?thesis
    using finish_add_settings [of d3 p4 t] apply_keeps [OF g(2)] apply_keeps_revision [OF g(2)] k sz g(3) by auto
qed

lemma handle_add_limit:
  assumes add: "handle_add_bundle_to_acs glob d ev = Some d'" and cur: "limits_current glob d"
    and k: "k = pacs_key (ev_custody_eid ev) (ev_succeeded ev) (ev_reason ev)"
    and keys: "\<And>p. pending_acs_map d k = Some p \<Longrightarrow> key p = k"
  shows "limits_current glob d' \<and> settings d' = settings d \<and> (\<exists>p'. pending_acs_map d' k = Some p'
      \<and> custody_eid p' = (case pending_acs_map d k of None \<Rightarrow> ev_custody_eid ev | Some p \<Rightarrow> custody_eid p)
      \<and> configured_size glob d (custody_eid p') (acs_size p'))"
proof -
  define p where "p = (case pending_acs_map d k of Some p \<Rightarrow> p | None \<Rightarrow> (new_pending_acs k)\<lparr>pacs_id := next_pacsid d,
      custody_eid := ev_custody_eid ev, succeeded := ev_succeeded ev, reason := ev_reason ev, bp_version := 6\<rparr>)"
  define d1 where "d1 = (case pending_acs_map d k of Some p \<Rightarrow> d | None \<Rightarrow> put_pacs (d\<lparr>next_pacsid := next_pacsid d + 1\<rparr>) p)"
  have h: "add_to_pending glob d1 p (ev_custody_id ev) = Some d'"
    using add by (auto simp: handle_add_bundle_to_acs_def d1_def p_def Let_def k split: option.splits)
  have conf: "configured_size glob d1 = configured_size glob d" "settings d1 = settings d" "key p = k"
      "(pending_acs_map d1)(k := None) = (pending_acs_map d)(k := None)"
    using keys by (auto simp: d1_def p_def configured_size_def put_pacs_def new_pending_acs_def fun_eq_iff split: option.splits)
  have "params_revision p \<noteq> acs_params_revision d1 \<or> configured_size glob d1 (custody_eid p) (acs_size p)"
    using cur conf by (auto simp: p_def limits_current_def new_pending_acs_def split: option.splits)
  from add_to_pending_limit [OF h this] obtain p' where p': "settings d' = settings d" "pending_acs_map d' = (pending_acs_map d)(k \<mapsto> p')"
      "custody_eid p' = custody_eid p" "params_revision p' = acs_params_revision d" "configured_size glob d (custody_eid p) (acs_size p')"
    using conf by (metis fun_upd_upd prod.inject)
  moreover have "configured_size glob d' = configured_size glob d" using p'(1) by (simp add: configured_size_def fun_eq_iff)
  ultimately show ?thesis using cur by (auto simp: limits_current_def p_def new_pending_acs_def split: option.splits)
qed

lemma expired_limits_current:
  assumes "handle_acs_expired d k i = Some d'" and "limits_current glob d" and "acs_map_ok d"
  shows "limits_current glob d'"
proof (cases "d' = d")
  case False
  then obtain p d1 p1 where p: "pending_acs_map d k = Some p" "generate_acs d p False = Some (d1, p1)"
      "d' = put_pacs (fst (update_pending_acs_store d1 p1)) (snd (update_pending_acs_store d1 p1))"
    using assms(1) by (auto simp: handle_acs_expired_def generate_acs_def split: option.splits if_splits)
  then have d': "settings d' = settings d" "\<exists>q. pending_acs_map d' = (pending_acs_map d)(k \<mapsto> q) \<and> custody_eid q = custody_eid p
      \<and> acs_size q = acs_size p \<and> params_revision q = params_revision p"
    using generate_keeps_settings [OF p(2)] assms(3) by (auto simp: acs_map_ok_def update_pending_acs_store_def put_pacs_def Let_def)
  moreover have "configured_size glob d' = configured_size glob d" using d'(1) by (simp add: configured_size_def fun_eq_iff)
  ultimately show ?thesis using assms(2) p(1) by (auto simp: limits_current_def split: if_splits)
qed (use assms(2) in simp)

text \<open>
  C32. The configured size limit is kept: when an id has been added, the limit that the pending ACS goes by is the
  one configured for its custodian (of the longest route pattern that matches, else the default), and unless that is
  0, for no limit, the payload that stays pending is within it (or is a single first entry, of at most 11 bytes). The pending
  ACS is that of the custodian, outcome and reason of the event, created for this custodian when there was none. It
  is assumed that each pending ACS with the current revision of the settings has the configured limit, which this operation, the
  timers and every change of the routes keep: the default is taken as set at the start, since a later change of it by the \<open>acs\<close> command does
  not count as a revision. The id is new, not 0 and its custodian not \<open>dtn:none\<close>.
\<close>
theorem pending_size_bounded:
  assumes "acs_map_ok d" and "\<not> same_eid (ev_custody_eid ev) null_eid" and "ev_custody_id ev \<noteq> 0"
    and "k = pacs_key (ev_custody_eid ev) (ev_succeeded ev) (ev_reason ev)"
    and "unat (ev_custody_id ev) \<notin> pending_ids d k" and "pending_bytes d k + 40 < 2 ^ 32" and "limits_current glob d"
  shows "\<exists>d' p' limit. handle_add_bundle_to_acs glob d ev = Some d' \<and> limits_current glob d' \<and> pending_acs_map d' k = Some p'
    \<and> custody_eid p' = (case pending_acs_map d k of None \<Rightarrow> ev_custody_eid ev | Some p \<Rightarrow> custody_eid p)
    \<and> configured_size glob d (custody_eid p') limit \<and> acs_size p' = limit
    \<and> (limit = 0 \<or> uint (acs_payload_length p') \<le> max (uint limit) 11)"
proof -
  obtain d' p' where h: "handle_add_bundle_to_acs glob d ev = Some d'" "pending_acs_map d' = (pending_acs_map d)(k \<mapsto> p')"
    "acs_size p' > 0 \<longrightarrow> pending_bytes d' k \<le> max (uint (acs_size p')) 11"
    using handle_add_ok [OF assms(1-6), of glob] by blast
  moreover have "pending_acs_map d k = Some p \<Longrightarrow> key p = k" for p using assms(1) by (simp add: acs_map_ok_def)
  note handle_add_limit [OF h(1) assms(7,4) this]
  ultimately show ?thesis by (auto simp: pending_bytes_def word_gt_0)
qed

lemma demo_limits: "limits_current (=) demo_daemon" and demo_limit: "configured_size (=) demo_daemon e n \<longleftrightarrow> n = 1000"
  by (simp_all add: limits_current_def configured_size_def demo_daemon_def)

theorem pending_size_bounded_witness:
  "\<exists>d' p'. handle_add_bundle_to_acs (=) demo_daemon demo_event = Some d' \<and> limits_current (=) d'
    \<and> pending_acs_map d' (pacs_key demo_eid True 0) = Some p' \<and> custody_eid p' = demo_eid
    \<and> acs_size p' = 1000 \<and> uint (acs_payload_length p') \<le> 1000"
  using pending_size_bounded [OF demo_facts(1,2,3) refl demo_facts(4,5) demo_limits]
  by (auto simp: demo_limit)



text \<open>
  C19. A signal that releases custody (success, or redundant reception) takes out of the custody
  list exactly the bundles of its destination whose custody ids it names, whatever order the fills
  have and however far they reach beyond the last id given out; every other entry is kept.
\<close>
theorem acs_releases_exactly:
  assumes "cust_inv d" and "d_succeeded data \<or> d_redundant data"
    and "\<forall>(k, e) \<in> set (d_entry_map data). k = left_edge e \<and> unat (left_edge e) + unat (length_of_fill e) \<le> 2 ^ 64"
  shows "cust_inv (process_acs d dest data)
    \<and> cl_find (custody (process_acs d dest data)) e i
      = (if e = dest \<and> unat i \<in> acs_ids (d_entry_map data) then None else cl_find (custody d) e i)"
proof (cases "d_entry_map data = []")
  case True
  then show ?thesis using assms(1,2) by (auto simp: process_acs_def cust_inv_def Let_def)
next
  case False
  let ?last = "last_custody_id (custody d) dest"
  have "\<forall>j > ?last. cl_find (custody d) dest j = None"
    using assms(1) cl_find_beyond by (auto simp: cust_inv_def)
  from process_fills_effect [OF assms(1) this assms(3) refl, of "d_redundant data"]
  show ?thesis using False assms(2) by (auto simp: process_acs_def Let_def)
qed

definition demo_custody :: acs_daemon where
  "demo_custody = demo_daemon\<lparr>custody := [(''bpv6'', \<lparr>last_id = 2, ids_in_custody = [(1, 10), (2, 20)]\<rparr>)],
     bundles := (bundles demo_daemon)(10 := (bundles demo_daemon 10)\<lparr>custodyid := 1, local_custody := True\<rparr>,
                                      20 := (bundles demo_daemon 20)\<lparr>custodyid := 2, local_custody := True\<rparr>)\<rparr>"

definition demo_signal :: acs_data where
  "demo_signal = \<lparr>admin_type = 4, admin_flags = 0, d_succeeded = True, d_redundant = False, d_reason = 0,
     d_entry_map = [(2, \<lparr>left_edge = 2, diff_to_prev_right_edge = 0, length_of_fill = 4, sdnv_length = 0\<rparr>)]\<rparr>"

theorem acs_releases_exactly_witness:
  "cl_find (custody (process_acs demo_custody ''bpv6'' demo_signal)) ''bpv6'' 2 = None
   \<and> cl_find (custody (process_acs demo_custody ''bpv6'' demo_signal)) ''bpv6'' 1 = Some 10"
proof -
  have inv: "cust_inv demo_custody"
    by (auto simp: cust_inv_def demo_custody_def demo_daemon_def cl_inv_def dest_ok_def cl_find_def om_find_def
        split: if_splits)
  have rel: "d_succeeded demo_signal \<or> d_redundant demo_signal" by (simp add: demo_signal_def)
  have fit: "\<forall>(k, e) \<in> set (d_entry_map demo_signal). k = left_edge e \<and> unat (left_edge e) + unat (length_of_fill e) \<le> 2 ^ 64"
    by (simp add: demo_signal_def)
  have ids: "acs_ids (d_entry_map demo_signal) = {2..<6}"
    by (simp add: demo_signal_def fill_ids_def fill_end_def)
  show ?thesis
    using acs_releases_exactly [OF inv rel fit, of "''bpv6''" "''bpv6''" 2]
      acs_releases_exactly [OF inv rel fit, of "''bpv6''" "''bpv6''" 1]
    by (simp add: ids) (simp add: demo_custody_def cl_find_def om_find_def)
qed

text \<open>
  C40. A pending ACS that is created for BIBE custody never reaches its custodian: it is filed under
  the key of the custodian but keeps \<open>dtn:none\<close> as its endpoint (the assignment goes to a copy), so
  that when its timer fires the daemon posts an empty bundle and the custody ids stay pending.
\<close>
theorem bibe_acs_not_sent:
  assumes "pending_acs_map d k = None" and "k = pacs_key eid success (ucast r)" and "c \<noteq> 0"
  shows "\<exists>d' p. add_bibe_bundle_to_acs glob d 7 eid c success r = Some d' \<and> pending_acs_map d' k = Some p
    \<and> custody_eid p = null_eid \<and> acs_ids (acs_entry_map p) = {unat c}
    \<and> (\<exists>d''. handle_acs_expired d' k (pacs_id p) = Some d'' \<and> posted d'' = posted d @ [new_bundle]
         \<and> pending_ids d'' k = {unat c})"
proof -
  let ?p = "(new_pending_acs k)\<lparr>pacs_id := next_pacsid d, succeeded := success, reason := ucast r, bp_version := 7\<rparr>"
  let ?d1 = "put_pacs (d\<lparr>next_pacsid := next_pacsid d + 1\<rparr>) ?p"
  have det: "determine_acs_changes ?p c = Some (?p, no_change\<lparr>ae_op := AE_OP_INSERT_FIRST_ENTRY,
      new_entry_size := enc_len c + 1, new_entry_diff := c, delta := enc_len c + 1\<rparr>)" (is "_ = Some (_, ?chg)")
    by (simp add: determine_acs_changes_def determine_past_end_def om_from_def new_pending_acs_def Let_def)
  obtain changed r' dl sz where "get_acs_params_for_endpoint glob ?d1 (custody_eid ?p) (params_revision ?p)
      (acs_delay ?p) (acs_size ?p) = (changed, r', dl, sz)"
    by (metis prod_cases4)
  then have ref: "acs_refresh glob ?d1 ?p = (changed, with_params r' dl sz ?p)"
    unfolding acs_refresh_def with_params_def by simp
  let ?q = "with_params r' dl sz ?p"
  have empty: "acs_entry_map ?p = []" "acs_payload_length ?p = 0" "custody_eid ?p = null_eid" "acs_delay ?p = 0"
    "num_custody_ids ?p = 0" "key ?p = k"
    by (simp_all add: new_pending_acs_def)
  have send: "\<not> must_send ?q n changed (acs_delay ?p)" for n
    by (simp add: must_send_def empty del: pending_acs.simps)
  let ?m = "add_acs_entry [] c 1 c (enc_len c + 1)"
  let ?q1 = "?q\<lparr>acs_entry_map := ?m, acs_payload_length := of_int (enc_len c + 1), num_custody_ids := 1,
                acs_expiration_timer := Some (key ?q, pacs_id ?q)\<rparr>"
  have app: "apply_acs_changes ?q ?chg c = Some (?q1, Some (acs_delay ?q * 1000))"
    by (simp add: apply_acs_changes_def no_change_def new_pending_acs_def with_params_def Let_def)
  have ids: "acs_ids ?m = {unat c}" using adds_id_first [OF assms(3)] by (simp add: adds_id_def)
  have pl: "0 < acs_payload_length ?q1"
  proof -
    have "uint (of_int (enc_len c + 1) :: u32) = enc_len c + 1"
      using payload_plus [of 0 0 "enc_len c + 1"] enc_len_le [of c] by simp
    then have "uint (of_int (enc_len c + 1) :: u32) \<noteq> 0" by simp
    then show ?thesis by (auto simp: word_gt_0)
  qed
  let ?d2 = "finish_add ?d1 ?q1 (Some (acs_delay ?q * 1000))"
  let ?q2 = "?q1\<lparr>in_datastore := True\<rparr>"
  have add: "add_bibe_bundle_to_acs glob d 7 eid c success r = Some ?d2"
    using assms(1) send ref app
    by (simp add: add_bibe_bundle_to_acs_def add_to_pending_def det Let_def flip: assms(2))
  have d2: "pending_acs_map ?d2 k = Some ?q2" "posted ?d2 = posted d"
    by (simp_all add: finish_add_def update_pending_acs_store_def put_pacs_def with_params_def new_pending_acs_def)
  have "create_signal ?d2 ?q2 = Some (new_bundle, ?q2)"
    by (simp add: create_signal_def create_bibe_custody_signal_def same_eid_def with_params_def new_pending_acs_def)
  then have "\<exists>d''. handle_acs_expired ?d2 k (pacs_id ?q2) = Some d'' \<and> posted d'' = posted d @ [new_bundle]
      \<and> pending_ids d'' k = {unat c}"
    using d2 pl ids empty(6)
    by (simp add: handle_acs_expired_def generate_acs_def update_pending_acs_store_def put_pacs_def pending_ids_def)
  then show ?thesis using add d2 ids empty(3) by (intro exI [of _ ?d2] exI [of _ ?q2]) simp
qed

theorem bibe_acs_not_sent_witness:
  "\<exists>d' p. add_bibe_bundle_to_acs (=) demo_daemon 7 demo_eid 5 True 0 = Some d'
    \<and> pending_acs_map d' (pacs_key demo_eid True 0) = Some p \<and> custody_eid p = null_eid"
  using bibe_acs_not_sent [of demo_daemon "pacs_key demo_eid True (ucast (0 :: u8))" demo_eid True 0 5 "(=)"]
  by auto

end
