(* ===== verification/Ltp_Segment.thy ===== *)
theory Ltp_Segment
  imports SDNV Ordered_Map Naming
begin

text \<open>
  The segments of the Licklider Transmission Protocol, \<open>src/servlib/ltp/LTPCommon.cc\<close> from
  \<open>LTPSegment\<close> on: the common header, data, report, report-ack, cancel and cancel-ack segments, each
  with its encoder and its parser. A parser works on the received bytes and a cursor; a read outside
  the buffer, which the sources do not guard against everywhere, is the error \<open>Bad_Read\<close>, a field
  that does not decode is \<open>Bad_Field\<close> (the sources return -1). The theory shows that every segment
  the encoders build within the ranges they support is parsed back, and names inputs outside them.
\<close>

section \<open>Segments\<close>

definition LTP_SEGMENT_UNKNOWN :: int where "LTP_SEGMENT_UNKNOWN = 0"
definition LTP_SEGMENT_DS :: int where "LTP_SEGMENT_DS = 1"
definition LTP_SEGMENT_RS :: int where "LTP_SEGMENT_RS = 2"
definition LTP_SEGMENT_RAS :: int where "LTP_SEGMENT_RAS = 3"
definition LTP_SEGMENT_CS_BR :: int where "LTP_SEGMENT_CS_BR = 4"
definition LTP_SEGMENT_CAS_BR :: int where "LTP_SEGMENT_CAS_BR = 5"
definition LTP_SEGMENT_CS_BS :: int where "LTP_SEGMENT_CS_BS = 6"
definition LTP_SEGMENT_CAS_BS :: int where "LTP_SEGMENT_CAS_BS = 7"

lemmas segment_types = LTP_SEGMENT_UNKNOWN_def LTP_SEGMENT_DS_def LTP_SEGMENT_RS_def LTP_SEGMENT_RAS_def
  LTP_SEGMENT_CS_BR_def LTP_SEGMENT_CAS_BR_def LTP_SEGMENT_CS_BS_def LTP_SEGMENT_CAS_BS_def

definition RED_SEGMENT :: int where "RED_SEGMENT = 1"
definition GREEN_SEGMENT :: int where "GREEN_SEGMENT = 2"

record ltp_segment =
  segment_type :: int
  red_green_none :: int
  is_checkpoint :: bool
  is_redendofblock :: bool
  is_greenendofblock :: bool
  is_valid :: bool
  is_security_enabled :: bool
  version_number :: u8
  control_flags :: u8
  header_exts :: nat
  trailer_exts :: nat
  packet :: bytes
  packet_len :: nat
  engine_id :: u64
  session_id :: u64
  serial_number :: u64
  checkpoint_id :: u64
  client_service_id :: u32
  cipher_suite :: u32
  cipher_key_id :: u32
  is_deleted :: bool

record ltp_data_segment = ltp_segment +
  start_byte :: u64
  stop_byte :: u64
  payload :: bytes
  payload_length :: u64
  offset :: u64
  queued_to_send :: bool

record ltp_report_segment = ltp_segment +
  lower_bounds :: u64
  upper_bounds :: u64
  claims :: u64
  claimed_bytes :: u64
  claim_map :: "(u64, u64) omap"

record ltp_cancel_segment = ltp_segment +
  reason_code :: u8

section \<open>Writing fields\<close>

text \<open>
  The two overloads of \<open>Encode_Field\<close> pass \<open>sizeof(infield)\<close> as the room in the buffer: 8 bytes for
  a 64-bit, 4 for a 32-bit field. A value that needs more is logged and left out.
\<close>

definition encode_field :: "nat \<Rightarrow> u64 \<Rightarrow> 'a ltp_segment_scheme \<Rightarrow> 'a ltp_segment_scheme" where
  "encode_field size_of infield s =
     (case sdnv_encode infield size_of of
        None \<Rightarrow> s
      | Some bs \<Rightarrow> s\<lparr>packet := packet s @ bs, packet_len := packet_len s + length bs\<rparr>)"

definition encode_field64 :: "u64 \<Rightarrow> 'a ltp_segment_scheme \<Rightarrow> 'a ltp_segment_scheme" where
  "encode_field64 v s = encode_field 8 v s"

definition encode_field32 :: "u32 \<Rightarrow> 'a ltp_segment_scheme \<Rightarrow> 'a ltp_segment_scheme" where
  "encode_field32 v s = encode_field 4 (ucast v) s"

definition append_byte :: "u8 \<Rightarrow> 'a ltp_segment_scheme \<Rightarrow> 'a ltp_segment_scheme" where
  "append_byte b s = s\<lparr>packet := packet s @ [b], packet_len := packet_len s + 1\<rparr>"

definition poke_first :: "u8 \<Rightarrow> bytes \<Rightarrow> bytes" where
  "poke_first b p = b # tl p"

definition create_ltp_header :: "'a ltp_segment_scheme \<Rightarrow> 'a ltp_segment_scheme" where
  "create_ltp_header s =
     append_byte 0 (encode_field64 (session_id s) (encode_field64 (engine_id s)
       (s\<lparr>packet := [control_flags s], packet_len := 1\<rparr>)))"

section \<open>The common parser\<close>

datatype ltp_error = Bad_Read | Bad_Field

text \<open>\<open>SDNV::decode\<close> at the cursor, with \<open>CHECK_DECODE_STATUS\<close>.\<close>

definition ltp_take :: "bytes \<Rightarrow> nat \<Rightarrow> ltp_error + u64 \<times> nat" where
  "ltp_take bp cur =
     (if cur > length bp then Inl Bad_Read
      else let (n, v) = sdnv_decode (drop cur bp) in
        if n > 0 then Inr (v, cur + nat n) else Inl Bad_Field)"

definition ltp_take32 :: "bytes \<Rightarrow> nat \<Rightarrow> ltp_error + u32 \<times> nat" where
  "ltp_take32 bp cur =
     (if cur > length bp then Inl Bad_Read
      else let (n, v) = sdnv_decode32 0 (drop cur bp) in
        if n > 0 then Inr (v, cur + nat n) else Inl Bad_Field)"

definition ltp_byte :: "bytes \<Rightarrow> nat \<Rightarrow> ltp_error + u8" where
  "ltp_byte bp cur = (if cur < length bp then Inr (bp ! cur) else Inl Bad_Read)"

text \<open>The colour and the checkpoint and end-of-block marks from the four flag bits.\<close>

definition set_type_flags :: "u8 \<Rightarrow> 'a ltp_segment_scheme \<Rightarrow> 'a ltp_segment_scheme" where
  "set_type_flags b s =
     (let cf = b AND 0x0f;
          ctr_flag = (cf AND 0x08 \<noteq> 0); exc_flag = (cf AND 0x04 \<noteq> 0);
          flag_1 = (cf AND 0x02 \<noteq> 0); flag_0 = (cf AND 0x01 \<noteq> 0);
          s0 = s\<lparr>control_flags := cf, is_redendofblock := False, is_greenendofblock := False,
                 is_checkpoint := False, is_valid := True, red_green_none := 0\<rparr>;
          s1 = (if \<not> ctr_flag then
                  if \<not> exc_flag then
                    if flag_1 then s0\<lparr>red_green_none := RED_SEGMENT, is_checkpoint := True,
                                      is_redendofblock := flag_0\<rparr>
                    else s0\<lparr>red_green_none := RED_SEGMENT, is_checkpoint := flag_0\<rparr>
                  else
                    if flag_1 then s0\<lparr>red_green_none := GREEN_SEGMENT, is_checkpoint := True,
                                      is_greenendofblock := flag_0\<rparr>
                    else s0\<lparr>red_green_none := GREEN_SEGMENT\<rparr>
                else s0)
      in s1\<lparr>version_number := drop_bit 4 b\<rparr>)"

text \<open>
  The loop over the header extensions. \<open>seg_len\<close> is only set by the first authentication tag, and
  the other branches skip \<open>seg_len\<close> bytes rather than the length just read.
\<close>

fun parse_exts :: "nat \<Rightarrow> bytes \<Rightarrow> nat \<Rightarrow> bool \<Rightarrow> u32 \<Rightarrow> 'a ltp_segment_scheme
    \<Rightarrow> ltp_error + nat \<times> 'a ltp_segment_scheme" where
  "parse_exts 0 bp cur header_found seg_len s = Inr (cur, s)"
| "parse_exts (Suc n) bp cur header_found seg_len s =
     (case ltp_byte bp cur of Inl e \<Rightarrow> Inl e
      | Inr test_tag \<Rightarrow>
          (case ltp_take32 bp (cur + 1) of Inl e \<Rightarrow> Inl e
           | Inr (test_len, cur1) \<Rightarrow>
               if test_tag = 0 \<and> \<not> header_found then
                 (case ltp_byte bp cur1 of Inl e \<Rightarrow> Inl e
                  | Inr suite \<Rightarrow>
                      let s1 = s\<lparr>cipher_suite := ucast suite, cipher_key_id := -1, is_security_enabled := True\<rparr> in
                      if test_len - 1 > 0 then
                        (case ltp_take32 bp (cur1 + 1) of Inl e \<Rightarrow> Inl e
                         | Inr (kid, cur2) \<Rightarrow> parse_exts n bp cur2 True test_len (s1\<lparr>cipher_key_id := kid\<rparr>))
                      else parse_exts n bp (cur1 + 1) True test_len s1)
               else parse_exts n bp (cur1 + unat seg_len) header_found seg_len s))"

text \<open>
  \<open>LTPSegment::Parse_Buffer\<close>: the cursor behind the header and the segment. The extension byte is a
  signed \<open>char\<close>, so that security counts as enabled for 1 to 127 only.
\<close>

definition parse_header :: "bytes \<Rightarrow> 'a ltp_segment_scheme \<Rightarrow> ltp_error + nat \<times> 'a ltp_segment_scheme" where
  "parse_header bp s =
     (case ltp_byte bp 0 of Inl e \<Rightarrow> Inl e
      | Inr b \<Rightarrow>
          (case ltp_take bp 1 of Inl e \<Rightarrow> Inl e
           | Inr (eng, cur1) \<Rightarrow>
               (case ltp_take bp cur1 of Inl e \<Rightarrow> Inl e
                | Inr (ses, cur2) \<Rightarrow>
                    (case ltp_byte bp cur2 of Inl e \<Rightarrow> Inl e
                     | Inr one \<Rightarrow>
                         let hexts = unat (drop_bit 4 one);
                             s1 = (set_type_flags b s)\<lparr>engine_id := eng, session_id := ses, header_exts := hexts,
                               trailer_exts := unat (one AND 0x0f), is_security_enabled := (0 < one \<and> one < 0x80)\<rparr>
                         in (case parse_exts hexts bp (cur2 + 1) False 0 s1 of Inl e \<Rightarrow> Inl e
                             | Inr (cur, s2) \<Rightarrow>
                                 Inr (cur, if cur > length bp then s2\<lparr>is_valid := False\<rparr> else s2))))))"

definition parse_engine :: "bytes \<Rightarrow> u64" where
  "parse_engine bp = snd (sdnv_decode (drop 1 bp))"

definition parse_session :: "bytes \<Rightarrow> u64" where
  "parse_session bp =
     (let (n, eng) = sdnv_decode (drop 1 bp) in
      if n > 0 then snd (sdnv_decode (drop (1 + nat n) bp)) else 0)"

definition segtypeflags_to_segtype :: "u8 \<Rightarrow> int" where
  "segtypeflags_to_segtype f =
     (let ctrl_flag = (f AND 0x08 \<noteq> 0); exc_flag = (f AND 0x04 \<noteq> 0);
          flag_1 = (f AND 0x02 \<noteq> 0); flag_0 = (f AND 0x01 \<noteq> 0)
      in if \<not> ctrl_flag then LTP_SEGMENT_DS
         else if \<not> exc_flag then
           if \<not> flag_1 then (if flag_0 then LTP_SEGMENT_RAS else LTP_SEGMENT_RS) else -1
         else if \<not> flag_1 then (if flag_0 then LTP_SEGMENT_CAS_BS else LTP_SEGMENT_CS_BS)
         else (if flag_0 then LTP_SEGMENT_CAS_BR else LTP_SEGMENT_CS_BR))"

definition parse_engine_and_session :: "bytes \<Rightarrow> bool \<times> u64 \<times> u64 \<times> int" where
  "parse_engine_and_session bp =
     (let seg_type = segtypeflags_to_segtype (hd bp); (n, eng) = sdnv_decode (drop 1 bp) in
      if n > 0 then
        let (m, ses) = sdnv_decode (drop (1 + nat n) bp) in (m > 0, eng, ses, seg_type)
      else (False, eng, 0, seg_type))"

section \<open>Data segments\<close>

definition is_red :: "'a ltp_segment_scheme \<Rightarrow> bool" where
  "is_red s = (red_green_none s = RED_SEGMENT)"

definition is_green :: "'a ltp_segment_scheme \<Rightarrow> bool" where
  "is_green s = (red_green_none s = GREEN_SEGMENT)"

definition set_rgn :: "int \<Rightarrow> 'a ltp_segment_scheme \<Rightarrow> 'a ltp_segment_scheme" where
  "set_rgn new_color s =
     s\<lparr>control_flags := (if new_color = GREEN_SEGMENT then control_flags s OR 0x04
                         else if new_color = RED_SEGMENT then control_flags s AND 0x0b
                         else control_flags s),
       red_green_none := new_color\<rparr>"

definition set_checkpoint_id :: "u64 \<Rightarrow> 'a ltp_segment_scheme \<Rightarrow> 'a ltp_segment_scheme" where
  "set_checkpoint_id new_chkpt s = s\<lparr>checkpoint_id := new_chkpt, is_checkpoint := (new_chkpt > 0)\<rparr>"

definition set_control :: "u8 \<Rightarrow> 'a ltp_segment_scheme \<Rightarrow> 'a ltp_segment_scheme" where
  "set_control cb s = s\<lparr>packet := poke_first cb (packet s), control_flags := cb\<rparr>"

definition set_endofblock :: "'a ltp_segment_scheme \<Rightarrow> 'a ltp_segment_scheme" where
  "set_endofblock s =
     set_control (control_flags s OR 0x03)
       (if is_red s then s\<lparr>is_redendofblock := True\<rparr>
        else if is_green s then s\<lparr>is_greenendofblock := True\<rparr> else s)"

definition unset_endofblock :: "'a ltp_segment_scheme \<Rightarrow> 'a ltp_segment_scheme" where
  "unset_endofblock s =
     set_control (control_flags s AND 0x0c)
       (if is_red s then s\<lparr>is_redendofblock := False\<rparr>
        else if is_green s then s\<lparr>is_greenendofblock := False\<rparr> else s)"

definition encode_checkpoint_bit :: "'a ltp_segment_scheme \<Rightarrow> 'a ltp_segment_scheme" where
  "encode_checkpoint_bit s = set_control (control_flags s OR 0x01) (s\<lparr>is_checkpoint := True\<rparr>)"

definition set_segment_color_flags :: "'a ltp_segment_scheme \<Rightarrow> 'a ltp_segment_scheme" where
  "set_segment_color_flags s =
     set_control (if is_green s then control_flags s OR 0x04 else control_flags s AND 0x0b) s"

definition encode_ltp_ds_header :: "ltp_data_segment \<Rightarrow> ltp_data_segment" where
  "encode_ltp_ds_header s =
     (let s1 = set_segment_color_flags s;
          s2 = (if is_red s1 \<and> is_checkpoint s1 then encode_checkpoint_bit s1 else s1);
          s3 = (if is_redendofblock s2 \<or> is_greenendofblock s2 then set_endofblock s2 else s2);
          s4 = encode_field64 (payload_length s3) (encode_field64 (offset s3)
                 (encode_field32 (client_service_id s3) (create_ltp_header s3)))
      in if is_red s4 \<and> is_checkpoint s4
         then encode_field64 (serial_number s4) (encode_field64 (checkpoint_id s4) s4) else s4)"

definition ds_encode_buffer :: "bytes \<Rightarrow> u64 \<Rightarrow> bool \<Rightarrow> bool \<Rightarrow> ltp_data_segment \<Rightarrow> ltp_data_segment" where
  "ds_encode_buffer data start checkpoint eob s =
     (let len = of_nat (length data);
          s1 = s\<lparr>payload_length := len\<rparr>;
          s2 = (if is_red s1 then s1\<lparr>is_redendofblock := eob, is_checkpoint := checkpoint\<rparr>
                else if is_green s1 then s1\<lparr>is_checkpoint := False, is_greenendofblock := eob\<rparr> else s1);
          s3 = s2\<lparr>offset := start, start_byte := start, stop_byte := start + len - 1\<rparr>
      in (encode_ltp_ds_header s3)\<lparr>payload := data\<rparr>)"

definition ds_encode_all :: "ltp_data_segment \<Rightarrow> ltp_data_segment" where
  "ds_encode_all s = encode_ltp_ds_header (s\<lparr>packet := [], packet_len := 0\<rparr>)"

text \<open>The bytes that go out, for a segment whose payload is held in memory.\<close>

definition ds_as_new_string :: "ltp_data_segment \<Rightarrow> bytes" where
  "ds_as_new_string s = take (packet_len s) (packet s) @ take (unat (payload_length s)) (payload s)"

text \<open>
  \<open>LTPDataSegment::Parse_Buffer\<close>: the return value and the segment. The test that the payload lies
  within the buffer compares two values that were converted to \<open>int\<close>; the copy then reads
  \<open>payload_length\<close> bytes.
\<close>

definition as_int :: "u64 \<Rightarrow> int" where
  "as_int v = sint (ucast v :: u32)"

definition ds_parse_payload :: "bytes \<Rightarrow> nat \<Rightarrow> ltp_data_segment \<Rightarrow> ltp_error + int \<times> ltp_data_segment" where
  "ds_parse_payload bp cur s =
     (if payload_length s > 0 then
        if as_int (of_nat cur + payload_length s) > as_int (of_nat (length bp))
        then Inr (-1, s\<lparr>is_valid := False\<rparr>)
        else if cur + unat (payload_length s) > length bp then Inl Bad_Read
        else Inr (if is_valid s then 0 else 1, s\<lparr>payload := take (unat (payload_length s)) (drop cur bp)\<rparr>)
      else Inr (1, s\<lparr>is_valid := False\<rparr>))"

definition ds_parse_buffer :: "bytes \<Rightarrow> ltp_data_segment \<Rightarrow> ltp_error + int \<times> ltp_data_segment" where
  "ds_parse_buffer bp s =
     (case parse_header bp s of Inl e \<Rightarrow> Inl e
      | Inr (cur, s1) \<Rightarrow>
          (case ltp_take32 bp cur of Inl e \<Rightarrow> Inl e
           | Inr (csid, cur1) \<Rightarrow>
               (case ltp_take bp cur1 of Inl e \<Rightarrow> Inl e
                | Inr (off, cur2) \<Rightarrow>
                    (case ltp_take bp cur2 of Inl e \<Rightarrow> Inl e
                     | Inr (plen, cur3) \<Rightarrow>
                         let s2 = s1\<lparr>segment_type := LTP_SEGMENT_DS, client_service_id := csid, offset := off,
                                     payload_length := plen, start_byte := off, stop_byte := off + plen - 1\<rparr>
                         in if is_red s2 \<and> is_checkpoint s2 then
                              (case ltp_take bp cur3 of Inl e \<Rightarrow> Inl e
                               | Inr (ckpt, cur4) \<Rightarrow>
                                   (case ltp_take bp cur4 of Inl e \<Rightarrow> Inl e
                                    | Inr (ser, cur5) \<Rightarrow>
                                        ds_parse_payload bp cur5 (s2\<lparr>checkpoint_id := ckpt, serial_number := ser\<rparr>)))
                            else ds_parse_payload bp cur3 s2))))"

section \<open>Report, acknowledgement and cancel segments\<close>

fun rs_encode_claims :: "(u64, u64) omap \<Rightarrow> u64 \<Rightarrow> 'a ltp_segment_scheme \<Rightarrow> 'a ltp_segment_scheme" where
  "rs_encode_claims [] lower s = s"
| "rs_encode_claims ((off, len) # m) lower s =
     rs_encode_claims m lower (encode_field64 len (encode_field64 (off - lower) s))"

definition rs_encode_counters :: "ltp_report_segment \<Rightarrow> ltp_report_segment" where
  "rs_encode_counters s =
     encode_field64 (claims s) (encode_field64 (lower_bounds s) (encode_field64 (upper_bounds s)
       (encode_field64 (checkpoint_id s) (encode_field64 (serial_number s) s))))"

definition rs_encode_all :: "(u64, u64) omap \<Rightarrow> ltp_report_segment \<Rightarrow> ltp_report_segment" where
  "rs_encode_all m s =
     rs_encode_claims m (lower_bounds s) (rs_encode_counters (create_ltp_header (s\<lparr>packet := []\<rparr>)))"

text \<open>The constructor of an outgoing report; \<open>s\<close> is the base segment of the session.\<close>

definition new_report_segment ::
    "ltp_report_segment \<Rightarrow> u64 \<Rightarrow> u64 \<Rightarrow> u64 \<Rightarrow> u64 \<Rightarrow> u64 \<Rightarrow> (u64, u64) omap \<Rightarrow> ltp_report_segment" where
  "new_report_segment s serial ckpt lower upper cbytes m =
     rs_encode_all m ((create_ltp_header (s\<lparr>segment_type := LTP_SEGMENT_RS, checkpoint_id := ckpt, control_flags := 0x08\<rparr>))
       \<lparr>serial_number := serial, lower_bounds := lower, upper_bounds := upper,
        claims := of_nat (length m), claimed_bytes := cbytes\<rparr>)"

fun rs_parse_claims :: "nat \<Rightarrow> bytes \<Rightarrow> nat \<Rightarrow> ltp_report_segment \<Rightarrow> ltp_error + nat \<times> ltp_report_segment" where
  "rs_parse_claims 0 bp cur s = Inr (cur, s)"
| "rs_parse_claims (Suc n) bp cur s =
     (case ltp_take bp cur of Inl e \<Rightarrow> Inl e
      | Inr (off, cur1) \<Rightarrow>
          (case ltp_take bp cur1 of Inl e \<Rightarrow> Inl e
           | Inr (len, cur2) \<Rightarrow>
               rs_parse_claims n bp cur2 (s\<lparr>claim_map := om_assign off len (claim_map s),
                                           claimed_bytes := claimed_bytes s + len\<rparr>)))"

text \<open>The number of claims is converted to \<open>int\<close>: a negative one is an empty loop.\<close>

definition rs_parse_buffer :: "bytes \<Rightarrow> ltp_report_segment \<Rightarrow> ltp_error + int \<times> ltp_report_segment" where
  "rs_parse_buffer bp s0 =
     (let s = s0\<lparr>claimed_bytes := 0\<rparr> in
      case parse_header bp s of Inl e \<Rightarrow> Inl e
      | Inr (cur, s1) \<Rightarrow>
          if \<not> is_valid s1 then Inr (-1, s1)
          else
            (case ltp_take bp cur of Inl e \<Rightarrow> Inl e
             | Inr (ser, cur1) \<Rightarrow>
              (case ltp_take bp cur1 of Inl e \<Rightarrow> Inl e
               | Inr (ckpt, cur2) \<Rightarrow>
                (case ltp_take bp cur2 of Inl e \<Rightarrow> Inl e
                 | Inr (upper, cur3) \<Rightarrow>
                  (case ltp_take bp cur3 of Inl e \<Rightarrow> Inl e
                   | Inr (lower, cur4) \<Rightarrow>
                    (case ltp_take bp cur4 of Inl e \<Rightarrow> Inl e
                     | Inr (cnt, cur5) \<Rightarrow>
                        (case rs_parse_claims (nat (as_int cnt)) bp cur5
                             (s1\<lparr>segment_type := LTP_SEGMENT_RS, serial_number := ser, checkpoint_id := ckpt,
                                 upper_bounds := upper, lower_bounds := lower, claims := cnt\<rparr>) of
                           Inl e \<Rightarrow> Inl e
                         | Inr (cur6, s2) \<Rightarrow>
                             if cur6 > length bp then Inr (1, s2\<lparr>is_valid := False\<rparr>) else Inr (0, s2))))))))"

definition new_report_ack :: "ltp_segment \<Rightarrow> u64 \<Rightarrow> ltp_segment" where
  "new_report_ack s serial =
     (let s1 = encode_field64 serial ((create_ltp_header (s\<lparr>segment_type := LTP_SEGMENT_RAS, control_flags := 0x09\<rparr>))
                 \<lparr>serial_number := serial\<rparr>)
      in s1\<lparr>packet := poke_first 0x09 (packet s1)\<rparr>)"

definition ras_parse_buffer :: "bytes \<Rightarrow> ltp_segment \<Rightarrow> ltp_error + int \<times> ltp_segment" where
  "ras_parse_buffer bp s =
     (case parse_header bp s of Inl e \<Rightarrow> Inl e
      | Inr (cur, s1) \<Rightarrow>
          if \<not> is_valid s1 then Inr (-1, s1)
          else (case ltp_take bp cur of Inl e \<Rightarrow> Inl e
            | Inr (ser, cur1) \<Rightarrow>
                let s2 = s1\<lparr>segment_type := LTP_SEGMENT_RAS, serial_number := ser\<rparr> in
                if cur1 > length bp then Inr (1, s2\<lparr>is_valid := False\<rparr>) else Inr (0, s2)))"

definition cancel_flag_byte :: "int \<Rightarrow> u8" where
  "cancel_flag_byte t = (if t = LTP_SEGMENT_CS_BS then 0x0c else if t = LTP_SEGMENT_CS_BR then 0x0e else 0x0c)"

definition new_cancel_segment :: "ltp_cancel_segment \<Rightarrow> int \<Rightarrow> u8 \<Rightarrow> ltp_cancel_segment" where
  "new_cancel_segment s seg_type rc =
     (let s1 = append_byte rc (create_ltp_header (s\<lparr>segment_type := seg_type\<rparr>))
      in s1\<lparr>packet := poke_first (cancel_flag_byte seg_type) (packet s1), reason_code := rc\<rparr>)"

text \<open>The reason code is read before the cursor is compared with the length.\<close>

definition cs_parse_buffer :: "bytes \<Rightarrow> int \<Rightarrow> ltp_cancel_segment \<Rightarrow> ltp_error + int \<times> ltp_cancel_segment" where
  "cs_parse_buffer bp seg_type s =
     (case parse_header bp s of Inl e \<Rightarrow> Inl e
      | Inr (cur, s1) \<Rightarrow>
          if \<not> is_valid s1 then Inr (-1, s1)
          else (case ltp_byte bp cur of Inl e \<Rightarrow> Inl e
            | Inr rc \<Rightarrow> Inr (0, s1\<lparr>segment_type := seg_type, reason_code := rc\<rparr>)))"

definition new_cancel_ack :: "ltp_segment \<Rightarrow> u8 \<Rightarrow> ltp_segment" where
  "new_cancel_ack s control_byte =
     (create_ltp_header (s\<lparr>packet_len := 0, control_flags := control_byte\<rparr>))
       \<lparr>segment_type := (if control_byte = 0x0f then LTP_SEGMENT_CAS_BR else LTP_SEGMENT_CAS_BS)\<rparr>"

definition cas_parse_buffer :: "bytes \<Rightarrow> int \<Rightarrow> ltp_segment \<Rightarrow> ltp_error + int \<times> ltp_segment" where
  "cas_parse_buffer bp seg_type s =
     (case parse_header bp s of Inl e \<Rightarrow> Inl e
      | Inr (cur, s1) \<Rightarrow>
          if \<not> is_valid s1 then Inr (-1, s1) else Inr (0, s1\<lparr>segment_type := seg_type\<rparr>))"

section \<open>Decoding any segment\<close>

definition base_segment :: ltp_segment where
  "base_segment = \<lparr>segment_type = 0, red_green_none = 0, is_checkpoint = False, is_redendofblock = False,
     is_greenendofblock = False, is_valid = True, is_security_enabled = False, version_number = 0,
     control_flags = 0, header_exts = 0, trailer_exts = 0, packet = [], packet_len = 0, engine_id = 0,
     session_id = 0, serial_number = 0, checkpoint_id = 0, client_service_id = 0, cipher_suite = -1, cipher_key_id = -1,
     is_deleted = False\<rparr>"

definition blank_data_segment :: ltp_data_segment where
  "blank_data_segment = ltp_segment.extend base_segment
     (ltp_data_segment.fields 0 0 [] 0 0 False)"

definition blank_report_segment :: ltp_report_segment where
  "blank_report_segment = ltp_segment.extend base_segment (ltp_report_segment.fields 0 0 0 0 [])"

definition blank_cancel_segment :: ltp_cancel_segment where
  "blank_cancel_segment = ltp_segment.extend base_segment (ltp_cancel_segment.fields 0)"

datatype any_segment =
    Seg_DS ltp_data_segment
  | Seg_RS ltp_report_segment
  | Seg_RAS ltp_segment
  | Seg_CS ltp_cancel_segment
  | Seg_CAS ltp_segment
  | Seg_Invalid int

text \<open>
  \<open>DecodeBuffer\<close>: the constructors call the parsers and mark the segment invalid when they do not
  return 0. A field that does not decode leaves a segment of the same class that is marked invalid
  and holds the fields read so far; it is \<open>Seg_Invalid\<close> with the type of the class. \<open>None\<close> is the
  null pointer for the undefined segment types.
\<close>

definition mark_valid :: "int \<times> 'a ltp_segment_scheme \<Rightarrow> 'a ltp_segment_scheme" where
  "mark_valid r = (if fst r \<noteq> 0 then (snd r)\<lparr>is_valid := False\<rparr> else snd r)"

definition on_parsed :: "('a \<Rightarrow> any_segment) \<Rightarrow> ltp_error + 'a \<Rightarrow> int \<Rightarrow> ltp_error + any_segment option" where
  "on_parsed f r t =
     (case r of Inl Bad_Read \<Rightarrow> Inl Bad_Read | Inl Bad_Field \<Rightarrow> Inr (Some (Seg_Invalid t)) | Inr x \<Rightarrow> Inr (Some (f x)))"

definition decode_buffer :: "bytes \<Rightarrow> ltp_error + any_segment option" where
  "decode_buffer bp =
     (case ltp_byte bp 0 of Inl e \<Rightarrow> Inl e
      | Inr b \<Rightarrow>
          let control_flags = b AND 0x0f;
              ctrl_flag = (control_flags AND 0x08 \<noteq> 0); exc_flag = (control_flags AND 0x04 \<noteq> 0);
              flag_1 = (control_flags AND 0x02 \<noteq> 0); flag_0 = (control_flags AND 0x01 \<noteq> 0)
          in if \<not> ctrl_flag then
               on_parsed (\<lambda>r. Seg_DS (mark_valid r)) (ds_parse_buffer bp blank_data_segment) LTP_SEGMENT_DS
             else if \<not> exc_flag then
               if \<not> flag_1 then
                 if \<not> flag_0 then
                   on_parsed (\<lambda>r. Seg_RS (mark_valid r)) (rs_parse_buffer bp blank_report_segment) LTP_SEGMENT_RS
                 else on_parsed (\<lambda>r. Seg_RAS (mark_valid r)) (ras_parse_buffer bp base_segment) LTP_SEGMENT_RAS
               else Inr None
             else if flag_1 then
               if \<not> flag_0 then
                 on_parsed (\<lambda>r. Seg_CS (mark_valid r)) (cs_parse_buffer bp LTP_SEGMENT_CS_BR blank_cancel_segment) LTP_SEGMENT_CS_BR
               else on_parsed (\<lambda>r. Seg_CAS (mark_valid r)) (cas_parse_buffer bp LTP_SEGMENT_CAS_BR base_segment) LTP_SEGMENT_CAS_BR
             else
               if \<not> flag_0 then
                 on_parsed (\<lambda>r. Seg_CS (mark_valid r)) (cs_parse_buffer bp LTP_SEGMENT_CS_BS blank_cancel_segment) LTP_SEGMENT_CS_BS
               else on_parsed (\<lambda>r. Seg_CAS (mark_valid r)) (cas_parse_buffer bp LTP_SEGMENT_CAS_BS base_segment) LTP_SEGMENT_CAS_BS)"

section \<open>Reading what was written\<close>

text \<open>\<open>cursor bp cur rest\<close>: the bytes from the cursor on are \<open>rest\<close>.\<close>

definition cursor :: "bytes \<Rightarrow> nat \<Rightarrow> bytes \<Rightarrow> bool" where
  "cursor bp cur rest \<longleftrightarrow> cur \<le> length bp \<and> drop cur bp = rest"

lemma cursor_start: "cursor bp 0 bp"
  by (simp add: cursor_def)

lemma cursor_length: "cursor bp cur rest \<Longrightarrow> length bp = cur + length rest"
  by (auto simp: cursor_def)

lemma cursor_skip: "cursor bp cur (xs @ rest) \<Longrightarrow> cursor bp (cur + length xs) rest"
  by (auto simp: cursor_def drop_drop add.commute [of _ cur] dest: arg_cong [of _ _ length])
    (metis append_eq_conv_conj drop_drop add.commute)

lemma byte_at:
  assumes "cursor bp cur (b # rest)"
  shows "ltp_byte bp cur = Inr b" and "cursor bp (cur + 1) rest"
proof -
  have "cur < length bp" using assms by (auto simp: cursor_def) (metis drop_all list.distinct(1) not_less)
  then show "ltp_byte bp cur = Inr b"
    using assms by (simp add: ltp_byte_def cursor_def nth_via_drop)
  show "cursor bp (cur + 1) rest" using cursor_skip [of bp cur "[b]" rest] assms by simp
qed

lemma take_at:
  assumes "cursor bp cur (sdnv_groups 0 v @ rest)"
  shows "ltp_take bp cur = Inr (v, cur + sdnv_val_len v)" and "cursor bp (cur + sdnv_val_len v) rest"
proof -
  show "ltp_take bp cur = Inr (v, cur + sdnv_val_len v)"
    using assms by (simp add: ltp_take_def cursor_def sdnv_decode_groups)
  show "cursor bp (cur + sdnv_val_len v) rest"
    using cursor_skip [OF assms] by (simp add: length_sdnv_groups)
qed

lemma take32_at:
  assumes "cursor bp cur (sdnv_groups 0 (ucast (v :: u32)) @ rest)"
  shows "ltp_take32 bp cur = Inr (v, cur + sdnv_val_len (ucast v))"
    and "cursor bp (cur + sdnv_val_len (ucast v)) rest"
proof -
  have "unat v < 2 ^ 32" using unsigned_less [of v] by simp
  then have "(ucast v :: u64) \<le> 0xffffffff"
    by (simp add: word_le_nat_alt unsigned_ucast_eq take_bit_nat_eq_self)
  moreover have "(ucast (ucast v :: u64) :: u32) = v" by (rule bit_word_eqI) (auto simp: bit_simps)
  ultimately show "ltp_take32 bp cur = Inr (v, cur + sdnv_val_len (ucast v))"
    using assms by (simp add: ltp_take32_def cursor_def sdnv_decode_groups sdnv_decode32_def not_less)
  show "cursor bp (cur + sdnv_val_len (ucast v)) rest"
    using cursor_skip [OF assms] by (simp add: length_sdnv_groups)
qed

definition header_bytes :: "u8 \<Rightarrow> u64 \<Rightarrow> u64 \<Rightarrow> bytes" where
  "header_bytes cb eng ses = [cb] @ sdnv_groups 0 eng @ sdnv_groups 0 ses @ [0]"

lemma parse_header_ok:
  assumes "bp = header_bytes cb eng ses @ rest"
  shows "\<exists>cur. parse_header bp s = Inr (cur, (set_type_flags cb s)\<lparr>engine_id := eng, session_id := ses,
           header_exts := 0, trailer_exts := 0, is_security_enabled := False\<rparr>) \<and> cursor bp cur rest"
proof -
  have c0: "cursor bp 0 (cb # sdnv_groups 0 eng @ sdnv_groups 0 ses @ 0 # rest)"
    using cursor_start [of bp] by (simp add: assms header_bytes_def)
  note b0 = byte_at [OF c0]
  note e = take_at [OF b0(2)]
  note t = take_at [OF e(2)]
  note b1 = byte_at [OF t(2)]
  have le: "\<not> 0 + 1 + sdnv_val_len eng + sdnv_val_len ses + 1 > length bp" using b1(2) by (simp add: cursor_def)
  show ?thesis
    using b1(2) le b0(1) e(1) t(1) b1(1) by (simp add: parse_header_def Let_def)
qed

section \<open>What the encoders write\<close>

definition fits :: "nat \<Rightarrow> u64 \<Rightarrow> bool" where
  "fits n v \<longleftrightarrow> sdnv_val_len v \<le> n"

lemma fits_iff: "fits 8 v \<longleftrightarrow> unat v < 2 ^ 56" "fits 4 v \<longleftrightarrow> unat v < 2 ^ 28"
  using sdnv_val_len_le_iff [of v 7] sdnv_val_len_le_iff [of v 3] by (simp_all add: fits_def)

lemma encode_field_fits:
  "fits n v \<Longrightarrow> encode_field n v s
     = s\<lparr>packet := packet s @ sdnv_groups 0 v, packet_len := packet_len s + length (sdnv_groups 0 v)\<rparr>"
  by (simp add: encode_field_def sdnv_encode_def fits_def sdnv_fill_groups)

lemma create_ltp_header_fits:
  "fits 8 (engine_id s) \<Longrightarrow> fits 8 (session_id s) \<Longrightarrow>
   create_ltp_header s = s\<lparr>packet := header_bytes (control_flags s) (engine_id s) (session_id s),
     packet_len := length (header_bytes (control_flags s) (engine_id s) (session_id s))\<rparr>"
  by (simp add: create_ltp_header_def encode_field64_def encode_field_fits append_byte_def header_bytes_def)

text \<open>The control byte of a data segment and what the parser makes of it.\<close>

definition ds_control :: "bool \<Rightarrow> bool \<Rightarrow> bool \<Rightarrow> u8" where
  "ds_control red ckpt eob = (if red then (if eob then 0x03 else if ckpt then 0x01 else 0)
                              else (if eob then 0x07 else 0x04))"

definition ds_tail :: "ltp_data_segment \<Rightarrow> bytes" where
  "ds_tail s = sdnv_groups 0 (ucast (client_service_id s)) @ sdnv_groups 0 (offset s) @ sdnv_groups 0 (payload_length s)
     @ (if is_red s \<and> is_checkpoint s then sdnv_groups 0 (checkpoint_id s) @ sdnv_groups 0 (serial_number s) else [])"

definition ds_ready :: "ltp_data_segment \<Rightarrow> bool" where
  "ds_ready s \<longleftrightarrow> (is_red s \<or> is_green s) \<and> control_flags s \<in> {0, 4}
     \<and> fits 8 (engine_id s) \<and> fits 8 (session_id s) \<and> fits 4 (ucast (client_service_id s))
     \<and> fits 8 (checkpoint_id s) \<and> fits 8 (serial_number s)"

lemma encode_ds_header_ok:
  assumes ready: "ds_ready s" and fit: "fits 8 (offset s)" "fits 8 (payload_length s)"
    and eob: "is_red s \<Longrightarrow> is_redendofblock s = e \<and> \<not> is_greenendofblock s"
      "is_green s \<Longrightarrow> is_greenendofblock s = e \<and> \<not> is_redendofblock s"
    and cb: "cb = ds_control (is_red s) (is_checkpoint s) e"
  shows "encode_ltp_ds_header s = s\<lparr>control_flags := cb,
      packet := header_bytes cb (engine_id s) (session_id s) @ ds_tail s,
      packet_len := length (header_bytes cb (engine_id s) (session_id s) @ ds_tail s)\<rparr>"
proof (cases "is_red s")
  case True
  then have ng: "\<not> is_green s" by (auto simp: is_red_def is_green_def RED_SEGMENT_def GREEN_SEGMENT_def)
  have "control_flags s AND 0x0b = 0" using ready by (auto simp: ds_ready_def)
  then show ?thesis
    using True ng ready fit eob(1) cb
    by (cases "is_checkpoint s"; cases e)
      (simp_all add: encode_ltp_ds_header_def set_segment_color_flags_def set_control_def poke_first_def
        encode_checkpoint_bit_def set_endofblock_def is_red_def is_green_def RED_SEGMENT_def GREEN_SEGMENT_def
        create_ltp_header_fits encode_field64_def encode_field32_def encode_field_fits ds_ready_def ds_tail_def
        ds_control_def)
next
  case False
  then have g: "is_green s" using ready by (simp add: ds_ready_def)
  have "control_flags s OR 0x04 = 0x04" using ready by (auto simp: ds_ready_def)
  then show ?thesis
    using False g ready fit eob(2) cb
    by (cases e)
      (simp_all add: encode_ltp_ds_header_def set_segment_color_flags_def set_control_def poke_first_def
        set_endofblock_def is_red_def is_green_def RED_SEGMENT_def GREEN_SEGMENT_def
        create_ltp_header_fits encode_field64_def encode_field32_def encode_field_fits ds_ready_def ds_tail_def
        ds_control_def)
qed

lemma ds_control_flags:
  "red_green_none (set_type_flags (ds_control red ckpt eob) s) = (if red then RED_SEGMENT else GREEN_SEGMENT)"
  "is_redendofblock (set_type_flags (ds_control red ckpt eob) s) = (red \<and> eob)"
  "is_greenendofblock (set_type_flags (ds_control red ckpt eob) s) = (\<not> red \<and> eob)"
  "red \<Longrightarrow> is_checkpoint (set_type_flags (ds_control red ckpt eob) s) = (ckpt \<or> eob)"
  "is_valid (set_type_flags (ds_control red ckpt eob) s)"
  by (auto simp: set_type_flags_def ds_control_def Let_def)

lemma parse_payload_ok:
  assumes "cursor bp cur data" and "data \<noteq> []" and "payload_length s = of_nat (length data)" and "length bp < 2 ^ 31"
    and "is_valid s"
  shows "ds_parse_payload bp cur s = Inr (0, s\<lparr>payload := data\<rparr>)"
proof -
  have len: "length bp = cur + length data" using assms(1) by (rule cursor_length)
  have u: "unat (of_nat (length data) :: u64) = length data"
    using len assms(4) by (simp add: unsigned_of_nat take_bit_nat_eq_self)
  have "as_int (of_nat cur + of_nat (length data)) = as_int (of_nat (length bp))" by (simp add: len)
  moreover have "(0 :: u64) < of_nat (length data)" using u assms(2) by (simp add: word_less_nat_alt)
  moreover have "take (length data) (drop cur bp) = data" using assms(1) by (simp add: cursor_def)
  ultimately show ?thesis
    using assms(3,5) len u by (simp add: ds_parse_payload_def)
qed

lemma ds_parse_ok:
  assumes bp: "bp = header_bytes (ds_control red ckpt eob) eng ses @ sdnv_groups 0 (ucast csid) @ sdnv_groups 0 off
      @ sdnv_groups 0 plen @ (if red \<and> ckpt then sdnv_groups 0 ck @ sdnv_groups 0 ser else []) @ data"
    and data: "data \<noteq> []" "plen = of_nat (length data)" "length bp < 2 ^ 31" and eob: "red \<and> eob \<longrightarrow> ckpt"
  shows "\<exists>s'. ds_parse_buffer bp s = Inr (0, s') \<and> engine_id s' = eng \<and> session_id s' = ses
    \<and> client_service_id s' = csid \<and> offset s' = off \<and> start_byte s' = off \<and> payload_length s' = plen
    \<and> stop_byte s' = off + plen - 1 \<and> payload s' = data \<and> is_red s' = red \<and> is_green s' = (\<not> red)
    \<and> is_redendofblock s' = (red \<and> eob) \<and> is_greenendofblock s' = (\<not> red \<and> eob)
    \<and> (red \<longrightarrow> is_checkpoint s' = ckpt) \<and> (red \<and> ckpt \<longrightarrow> checkpoint_id s' = ck \<and> serial_number s' = ser)
    \<and> is_valid s'"
proof -
  let ?s1 = "(set_type_flags (ds_control red ckpt eob) s)\<lparr>engine_id := eng, session_id := ses,
           header_exts := 0, trailer_exts := 0, is_security_enabled := False\<rparr>"
  obtain cur where h: "parse_header bp s = Inr (cur, ?s1)"
    and c: "cursor bp cur (sdnv_groups 0 (ucast csid) @ sdnv_groups 0 off @ sdnv_groups 0 plen
      @ (if red \<and> ckpt then sdnv_groups 0 ck @ sdnv_groups 0 ser else []) @ data)"
    using parse_header_ok [OF bp, of s] by blast
  note t1 = take32_at [OF c]
  note t2 = take_at [OF t1(2)]
  note t3 = take_at [OF t2(2)]
  let ?s2 = "?s1\<lparr>segment_type := LTP_SEGMENT_DS, client_service_id := csid, offset := off,
        payload_length := plen, start_byte := off, stop_byte := off + plen - 1\<rparr>"
  have ckpt: "is_red ?s2 \<and> is_checkpoint ?s2 \<longleftrightarrow> red \<and> ckpt"
    using eob ds_control_flags [of red ckpt eob s]
    by (auto simp: is_red_def RED_SEGMENT_def GREEN_SEGMENT_def)
  have pre: "ds_parse_buffer bp s = (if red \<and> ckpt then
        (case ltp_take bp (cur + sdnv_val_len (ucast csid) + sdnv_val_len off + sdnv_val_len plen) of Inl e \<Rightarrow> Inl e
         | Inr (ckpt', cur4) \<Rightarrow> (case ltp_take bp cur4 of Inl e \<Rightarrow> Inl e
            | Inr (ser', cur5) \<Rightarrow> ds_parse_payload bp cur5 (?s2\<lparr>checkpoint_id := ckpt', serial_number := ser'\<rparr>)))
      else ds_parse_payload bp (cur + sdnv_val_len (ucast csid) + sdnv_val_len off + sdnv_val_len plen) ?s2)"
    unfolding ds_parse_buffer_def h using t1(1) t2(1) t3(1) ckpt by (simp add: Let_def)
  show ?thesis
  proof (cases "red \<and> ckpt")
    case True
    then have c4: "cursor bp (cur + sdnv_val_len (ucast csid) + sdnv_val_len off + sdnv_val_len plen)
        (sdnv_groups 0 ck @ sdnv_groups 0 ser @ data)" using t3(2) by simp
    note t4 = take_at [OF c4]
    note t5 = take_at [OF t4(2)]
    have "ds_parse_buffer bp s = Inr (0, ?s2\<lparr>checkpoint_id := ck, serial_number := ser, payload := data\<rparr>)"
      unfolding pre using True t4(1) t5(1)
        parse_payload_ok [OF t5(2) data(1), of "?s2\<lparr>checkpoint_id := ck, serial_number := ser\<rparr>"] data(2,3)
        ds_control_flags(5) [of red ckpt eob s] by simp
    then show ?thesis
      using True eob ds_control_flags [of red ckpt eob s]
      by (simp add: is_red_def is_green_def RED_SEGMENT_def GREEN_SEGMENT_def)
  next
    case False
    then have c4: "cursor bp (cur + sdnv_val_len (ucast csid) + sdnv_val_len off + sdnv_val_len plen) data"
      using t3(2) by auto
    have "ds_parse_buffer bp s = Inr (0, ?s2\<lparr>payload := data\<rparr>)"
      unfolding pre using False parse_payload_ok [OF c4 data(1), of ?s2] data(2,3)
        ds_control_flags(5) [of red ckpt eob s] by auto
    then show ?thesis
      using False eob ds_control_flags [of red ckpt eob s]
      by (auto simp: is_red_def is_green_def RED_SEGMENT_def GREEN_SEGMENT_def)
  qed
qed

section \<open>Properties\<close>

lemma ds_encode_buffer_ok:
  assumes ready: "ds_ready s" and marks: "\<not> is_redendofblock s" "\<not> is_greenendofblock s"
    and fit: "fits 8 start" and small: "length data < 2 ^ 31"
  shows "ds_as_new_string (ds_encode_buffer data start ckpt eob s)
    = header_bytes (ds_control (is_red s) ckpt eob) (engine_id s) (session_id s)
      @ sdnv_groups 0 (ucast (client_service_id s)) @ sdnv_groups 0 start @ sdnv_groups 0 (of_nat (length data))
      @ (if is_red s \<and> ckpt then sdnv_groups 0 (checkpoint_id s) @ sdnv_groups 0 (serial_number s) else []) @ data"
proof -
  have ug: "unat (of_nat (length data) :: u64) = length data"
    using small by (simp add: unsigned_of_nat take_bit_nat_eq_self)
  have fl: "fits 8 (of_nat (length data))" using ug small by (simp add: fits_iff)
  let ?n = "of_nat (length data) :: u64"
  define s3 where "s3 = (if is_red s then s\<lparr>payload_length := ?n, is_redendofblock := eob, is_checkpoint := ckpt\<rparr>
     else s\<lparr>payload_length := ?n, is_checkpoint := False, is_greenendofblock := eob\<rparr>)
     \<lparr>offset := start, start_byte := start, stop_byte := start + ?n - 1\<rparr>"
  have rg: "is_green s \<longleftrightarrow> \<not> is_red s"
    using ready by (auto simp: ds_ready_def is_red_def is_green_def RED_SEGMENT_def GREEN_SEGMENT_def)
  have f3: "is_red s3 = is_red s" "is_green s3 = is_green s" "engine_id s3 = engine_id s" "session_id s3 = session_id s"
    "client_service_id s3 = client_service_id s" "checkpoint_id s3 = checkpoint_id s" "serial_number s3 = serial_number s"
    "control_flags s3 = control_flags s" "offset s3 = start" "payload_length s3 = ?n"
    "is_redendofblock s3 = (is_red s \<and> eob)" "is_greenendofblock s3 = (\<not> is_red s \<and> eob)"
    "is_checkpoint s3 = (is_red s \<and> ckpt)"
    using marks by (simp_all add: s3_def is_red_def is_green_def)
  have ready3: "ds_ready s3" using ready by (simp add: ds_ready_def f3)
  let ?cb = "ds_control (is_red s3) (is_checkpoint s3) eob"
  have enc: "encode_ltp_ds_header s3 = s3\<lparr>control_flags := ?cb,
      packet := header_bytes ?cb (engine_id s3) (session_id s3) @ ds_tail s3,
      packet_len := length (header_bytes ?cb (engine_id s3) (session_id s3) @ ds_tail s3)\<rparr>"
    by (rule encode_ds_header_ok [OF ready3]) (simp_all add: f3 fit fl rg)
  have new: "ds_encode_buffer data start ckpt eob s = (encode_ltp_ds_header s3)\<lparr>payload := data\<rparr>"
    using rg by (simp add: ds_encode_buffer_def Let_def s3_def is_red_def is_green_def)
  have cb: "?cb = ds_control (is_red s) ckpt eob" by (simp add: f3 ds_control_def)
  show ?thesis
    unfolding new enc ds_as_new_string_def cb by (simp add: ds_tail_def f3 ug)
qed

text \<open>
  C21. A data segment that the sender builds is parsed by the receiver to the same session, client
  service, position in the block, colour, end-of-block mark, checkpoint and serial numbers and
  payload, provided every number fits the room its field is given (64-bit fields below \<open>2^56\<close>,
  the client service id below \<open>2^28\<close>) and a red end of block is a checkpoint.
\<close>
theorem ltp_data_segment_roundtrip:
  assumes "ds_ready s" and "\<not> is_redendofblock s" and "\<not> is_greenendofblock s" and "fits 8 start"
    and "is_red s \<and> eob \<longrightarrow> ckpt" and "data \<noteq> []"
    and "length (ds_as_new_string (ds_encode_buffer data start ckpt eob s)) < 2 ^ 31" and "length data < 2 ^ 31"
  shows "\<exists>s'. ds_parse_buffer (ds_as_new_string (ds_encode_buffer data start ckpt eob s)) blank = Inr (0, s')
    \<and> engine_id s' = engine_id s \<and> session_id s' = session_id s \<and> client_service_id s' = client_service_id s
    \<and> offset s' = start \<and> stop_byte s' = start + of_nat (length data) - 1 \<and> payload s' = data
    \<and> is_red s' = is_red s \<and> is_redendofblock s' = (is_red s \<and> eob) \<and> is_greenendofblock s' = (\<not> is_red s \<and> eob)
    \<and> (is_red s \<longrightarrow> is_checkpoint s' = ckpt)
    \<and> (is_red s \<and> ckpt \<longrightarrow> checkpoint_id s' = checkpoint_id s \<and> serial_number s' = serial_number s)"
proof -
  note enc = ds_encode_buffer_ok [OF assms(1,2,3,4,8), of ckpt eob]
  show ?thesis
    using ds_parse_ok [OF enc assms(6) refl assms(7) assms(5), of blank] by auto
qed

definition demo_ds :: ltp_data_segment where
  "demo_ds = blank_data_segment\<lparr>red_green_none := RED_SEGMENT, engine_id := 5, session_id := 9, checkpoint_id := 3,
     client_service_id := 1\<rparr>"

lemma demo_ds_ready: "ds_ready demo_ds" "\<not> is_redendofblock demo_ds" "\<not> is_greenendofblock demo_ds" "is_red demo_ds"
  by (simp_all add: ds_ready_def demo_ds_def blank_data_segment_def base_segment_def ltp_segment.defs
      ltp_data_segment.defs is_red_def fits_iff)

theorem ltp_data_segment_roundtrip_witness:
  "\<exists>s'. ds_parse_buffer (ds_as_new_string (ds_encode_buffer [1, 2, 3] 100 True True demo_ds)) blank_data_segment = Inr (0, s')
    \<and> offset s' = 100 \<and> payload s' = [1, 2, 3] \<and> is_redendofblock s'"
proof -
  have f: "fits 8 100" by (simp add: fits_iff)
  have len: "length (ds_as_new_string (ds_encode_buffer [1, 2, 3] 100 True True demo_ds)) < 2 ^ 31"
  proof -
    have small: "sdnv_val_len v \<le> 10" for v using sdnv_val_len_le_MAX [of v] by (simp add: MAX_LENGTH_def)
    show ?thesis
      unfolding ds_encode_buffer_ok [OF demo_ds_ready(1-3) f, of "[1, 2, 3]" True True, simplified]
      using small [of "engine_id demo_ds"] small [of "session_id demo_ds"] small [of "ucast (client_service_id demo_ds)"]
        small [of 100] small [of 3] small [of "checkpoint_id demo_ds"] small [of "serial_number demo_ds"]
      by (simp add: header_bytes_def length_sdnv_groups demo_ds_ready(4))
  qed
  show ?thesis
    using ltp_data_segment_roundtrip [OF demo_ds_ready(1-3) f _ _ len, of blank_data_segment] demo_ds_ready(4) by auto
qed

section \<open>Report segments\<close>

definition claim_bytes :: "u64 \<Rightarrow> (u64, u64) omap \<Rightarrow> bytes" where
  "claim_bytes lower m = concat (map (\<lambda>(off, len). sdnv_groups 0 (off - lower) @ sdnv_groups 0 len) m)"

lemma claim_bytes_simps [simp]:
  "claim_bytes lower [] = []"
  "claim_bytes lower ((off, len) # m) = sdnv_groups 0 (off - lower) @ sdnv_groups 0 len @ claim_bytes lower m"
  by (simp_all add: claim_bytes_def)

definition claims_fit :: "u64 \<Rightarrow> (u64, u64) omap \<Rightarrow> bool" where
  "claims_fit lower m \<longleftrightarrow> (\<forall>(off, len) \<in> set m. fits 8 (off - lower) \<and> fits 8 len)"

lemma rs_encode_claims_ok:
  "claims_fit lower m \<Longrightarrow> rs_encode_claims m lower s
     = s\<lparr>packet := packet s @ claim_bytes lower m, packet_len := packet_len s + length (claim_bytes lower m)\<rparr>"
  by (induction m lower s rule: rs_encode_claims.induct)
    (auto simp: claims_fit_def encode_field64_def encode_field_fits)

definition rel_claims :: "u64 \<Rightarrow> (u64, u64) omap \<Rightarrow> (u64, u64) omap" where
  "rel_claims lower m = map (\<lambda>(off, len). (off - lower, len)) m"

lemma om_assign_end:
  "\<forall>e \<in> set m. fst e < k \<Longrightarrow> om_assign k v m = m @ [(k, v)]"
  using om_assign_append [of m k v "[]"] by simp

lemma rs_parse_claims_ok:
  "cursor bp cur (claim_bytes lower m @ rest) \<Longrightarrow> om_wf (acc @ rel_claims lower m) \<Longrightarrow> claim_map s = acc \<Longrightarrow>
   \<exists>cur'. rs_parse_claims (length m) bp cur s = Inr (cur', s\<lparr>claim_map := acc @ rel_claims lower m,
            claimed_bytes := claimed_bytes s + sum_list (map snd m)\<rparr>) \<and> cursor bp cur' rest"
proof (induction m arbitrary: cur acc s)
  case Nil
  then show ?case by (simp add: rel_claims_def)
next
  case (Cons x m)
  obtain off len where x: "x = (off, len)" by (cases x)
  have c: "cursor bp cur (sdnv_groups 0 (off - lower) @ sdnv_groups 0 len @ claim_bytes lower m @ rest)"
    using Cons.prems(1) x by simp
  note t1 = take_at [OF c]
  note t2 = take_at [OF t1(2)]
  have "\<forall>e \<in> set acc. fst e < off - lower"
    using Cons.prems(2) x by (force simp: om_wf_append rel_claims_def)
  then have ins: "om_assign (off - lower) len acc = acc @ [(off - lower, len)]" by (rule om_assign_end)
  let ?s = "s\<lparr>claim_map := acc @ [(off - lower, len)], claimed_bytes := claimed_bytes s + len\<rparr>"
  have "\<exists>cur'. rs_parse_claims (length m) bp (cur + sdnv_val_len (off - lower) + sdnv_val_len len) ?s
      = Inr (cur', ?s\<lparr>claim_map := (acc @ [(off - lower, len)]) @ rel_claims lower m,
            claimed_bytes := claimed_bytes ?s + sum_list (map snd m)\<rparr>) \<and> cursor bp cur' rest"
    by (rule Cons.IH [OF t2(2)]) (use Cons.prems(2) x in \<open>simp_all add: rel_claims_def\<close>)
  then show ?case
    using Cons.prems(3) t1(1) t2(1) ins by (simp add: x rel_claims_def add.assoc)
qed

definition rs_ready :: "ltp_report_segment \<Rightarrow> bool" where
  "rs_ready s \<longleftrightarrow> fits 8 (engine_id s) \<and> fits 8 (session_id s)"

lemma new_report_packet:
  assumes "rs_ready s" and "fits 8 serial" "fits 8 ckpt" "fits 8 lower" "fits 8 upper"
    and "claims_fit lower m" and "length m < 2 ^ 31"
  shows "packet (new_report_segment s serial ckpt lower upper cbytes m)
    = header_bytes 0x08 (engine_id s) (session_id s) @ sdnv_groups 0 serial @ sdnv_groups 0 ckpt @ sdnv_groups 0 upper
      @ sdnv_groups 0 lower @ sdnv_groups 0 (of_nat (length m)) @ claim_bytes lower m"
proof -
  have "unat (of_nat (length m) :: u64) = length m"
    using assms(7) by (simp add: unsigned_of_nat take_bit_nat_eq_self)
  then have "fits 8 (of_nat (length m))" using assms(7) by (simp add: fits_iff)
  then show ?thesis
    using assms
    by (simp add: new_report_segment_def rs_encode_all_def rs_encode_counters_def rs_ready_def
        create_ltp_header_fits encode_field64_def encode_field_fits rs_encode_claims_ok)
qed

lemma rs_type_flags: "is_valid (set_type_flags 0x08 s)" "segtypeflags_to_segtype 0x08 = LTP_SEGMENT_RS"
  by (simp_all add: set_type_flags_def segtypeflags_to_segtype_def Let_def)

lemma as_int_of_nat: "n < 2 ^ 31 \<Longrightarrow> as_int (of_nat n) = int n"
proof -
  assume n: "n < 2 ^ 31"
  have "(ucast (of_nat n :: u64) :: u32) = of_nat n"
    by (simp add: word_unat_eq_iff unsigned_ucast_eq unsigned_of_nat)
  then show ?thesis using n by (simp add: as_int_def signed_of_nat signed_take_bit_int_eq_self)
qed

lemma new_report_parse:
  assumes "rs_ready s" and "fits 8 serial" "fits 8 ckpt" "fits 8 lower" "fits 8 upper"
    and "claims_fit lower m" and "length m < 2 ^ 31" and "om_wf (rel_claims lower m)"
  shows "\<exists>s'. rs_parse_buffer (packet (new_report_segment s serial ckpt lower upper cbytes m)) blank_report_segment = Inr (0, s')
    \<and> engine_id s' = engine_id s \<and> session_id s' = session_id s \<and> serial_number s' = serial \<and> checkpoint_id s' = ckpt
    \<and> lower_bounds s' = lower \<and> upper_bounds s' = upper \<and> claim_map s' = rel_claims lower m
    \<and> claimed_bytes s' = sum_list (map snd m)"
proof -
  let ?bp = "packet (new_report_segment s serial ckpt lower upper cbytes m)"
  note p = new_report_packet [OF assms(1-7), of cbytes]
  let ?b = "blank_report_segment\<lparr>claimed_bytes := 0\<rparr>"
  let ?s1 = "(set_type_flags 0x08 ?b)\<lparr>engine_id := engine_id s, session_id := session_id s,
           header_exts := 0, trailer_exts := 0, is_security_enabled := False\<rparr>"
  obtain cur where h: "parse_header ?bp ?b = Inr (cur, ?s1)"
    and c: "cursor ?bp cur (sdnv_groups 0 serial @ sdnv_groups 0 ckpt @ sdnv_groups 0 upper
      @ sdnv_groups 0 lower @ sdnv_groups 0 (of_nat (length m)) @ claim_bytes lower m)"
    using parse_header_ok [OF p, of ?b] by blast
  note t1 = take_at [OF c]
  note t2 = take_at [OF t1(2)]
  note t3 = take_at [OF t2(2)]
  note t4 = take_at [OF t3(2)]
  note t5 = take_at [OF t4(2)]
  let ?s2 = "?s1\<lparr>segment_type := LTP_SEGMENT_RS, serial_number := serial, checkpoint_id := ckpt,
             upper_bounds := upper, lower_bounds := lower, claims := of_nat (length m)\<rparr>"
  have empty: "claim_map ?s2 = []"
    by (simp add: set_type_flags_def blank_report_segment_def ltp_segment.defs ltp_report_segment.defs Let_def)
  obtain cur6 where cl: "rs_parse_claims (length m) ?bp (cur + sdnv_val_len serial + sdnv_val_len ckpt + sdnv_val_len upper
      + sdnv_val_len lower + sdnv_val_len (of_nat (length m))) ?s2 = Inr (cur6, ?s2\<lparr>claim_map := [] @ rel_claims lower m,
            claimed_bytes := claimed_bytes ?s2 + sum_list (map snd m)\<rparr>)" and c6: "cursor ?bp cur6 []"
    using rs_parse_claims_ok [of ?bp _ lower m "[]" "[]" ?s2] t5(2) assms(8) empty by auto
  have zero: "claimed_bytes ?s2 = 0" by (simp add: set_type_flags_def Let_def)
  have "\<not> cur6 > length ?bp" using c6 by (simp add: cursor_def)
  then show ?thesis
    using h t1(1) t2(1) t3(1) t4(1) t5(1) cl as_int_of_nat [OF assms(7)] zero rs_type_flags(1) [of ?b]
    by (simp add: rs_parse_buffer_def Let_def)
qed

text \<open>
  C22. A report segment reaches the sender of the block with the same serial and checkpoint numbers,
  bounds and claims; the claims are carried relative to the lower bound, in increasing order, and
  the number of claimed bytes the reader adds up is the sum of their lengths.
\<close>
theorem ltp_report_roundtrip:
  assumes "rs_ready s" and "fits 8 serial" "fits 8 ckpt" "fits 8 lower" "fits 8 upper"
    and "claims_fit lower m" and "length m < 2 ^ 31" and "om_wf (rel_claims lower m)"
  shows "\<exists>s'. rs_parse_buffer (packet (new_report_segment s serial ckpt lower upper cbytes m)) blank_report_segment = Inr (0, s')
    \<and> engine_id s' = engine_id s \<and> session_id s' = session_id s \<and> serial_number s' = serial \<and> checkpoint_id s' = ckpt
    \<and> lower_bounds s' = lower \<and> upper_bounds s' = upper \<and> claim_map s' = rel_claims lower m
    \<and> claimed_bytes s' = sum_list (map snd m)"
  using new_report_parse [OF assms] .

definition demo_rs :: ltp_report_segment where
  "demo_rs = blank_report_segment\<lparr>engine_id := 5, session_id := 9\<rparr>"

theorem ltp_report_roundtrip_witness:
  "\<exists>s'. rs_parse_buffer (packet (new_report_segment demo_rs 7 3 100 160 20 [(100, 10), (120, 10)])) blank_report_segment
      = Inr (0, s') \<and> claim_map s' = [(0, 10), (20, 10)] \<and> claimed_bytes s' = 20"
proof -
  have "rs_ready demo_rs"
    by (simp add: rs_ready_def demo_rs_def fits_iff blank_report_segment_def base_segment_def ltp_segment.defs)
  moreover have "claims_fit 100 [(100, 10), (120, 10)]" by (simp add: claims_fit_def fits_iff)
  moreover have "om_wf (rel_claims 100 [(100, 10), (120, 10)])" by (simp add: rel_claims_def)
  ultimately show ?thesis
    using ltp_report_roundtrip [of demo_rs 7 3 100 160 "[(100, 10), (120, 10)]" 20]
    by (auto simp: fits_iff rel_claims_def)
qed

section \<open>Acknowledgements and cancellation\<close>

lemma poke_header: "poke_first cb (header_bytes cb' eng ses @ xs) = header_bytes cb eng ses @ xs"
  by (simp add: poke_first_def header_bytes_def)

lemma control_valid:
  "cb \<in> {0x08, 0x09, 0x0c, 0x0d, 0x0e, 0x0f} \<Longrightarrow> is_valid (set_type_flags cb s)"
  by (auto simp: set_type_flags_def Let_def)

lemma report_ack_roundtrip:
  assumes "fits 8 (engine_id s)" and "fits 8 (session_id s)" and "fits 8 serial"
  shows "\<exists>s'. ras_parse_buffer (packet (new_report_ack s serial)) base_segment = Inr (0, s')
    \<and> engine_id s' = engine_id s \<and> session_id s' = session_id s \<and> serial_number s' = serial"
proof -
  let ?bp = "packet (new_report_ack s serial)"
  have p: "?bp = header_bytes 0x09 (engine_id s) (session_id s) @ sdnv_groups 0 serial"
    using assms by (simp add: new_report_ack_def create_ltp_header_fits encode_field64_def encode_field_fits poke_header)
  obtain cur where h: "parse_header ?bp base_segment
      = Inr (cur, (set_type_flags 0x09 base_segment)\<lparr>engine_id := engine_id s, session_id := session_id s,
           header_exts := 0, trailer_exts := 0, is_security_enabled := False\<rparr>)"
    and c: "cursor ?bp cur (sdnv_groups 0 serial @ [])"
    using parse_header_ok [OF p, of base_segment] by auto
  note t = take_at [OF c]
  have "\<not> cur + sdnv_val_len serial > length ?bp" using t(2) by (simp add: cursor_def)
  then show ?thesis
    using h t(1) control_valid [of 9 base_segment] by (simp add: ras_parse_buffer_def Let_def)
qed

lemma cancel_flags:
  assumes "t \<in> {LTP_SEGMENT_CS_BS, LTP_SEGMENT_CS_BR}"
  shows "cancel_flag_byte t \<in> {0x0c, 0x0e}" and "segtypeflags_to_segtype (cancel_flag_byte t) = t"
  using assms by (auto simp: cancel_flag_byte_def segtypeflags_to_segtype_def Let_def)

lemma cancel_roundtrip:
  assumes "fits 8 (engine_id s)" and "fits 8 (session_id s)" and "t \<in> {LTP_SEGMENT_CS_BS, LTP_SEGMENT_CS_BR}"
  shows "\<exists>s'. cs_parse_buffer (packet (new_cancel_segment s t rc)) t blank_cancel_segment = Inr (0, s')
    \<and> engine_id s' = engine_id s \<and> session_id s' = session_id s \<and> reason_code s' = rc \<and> segment_type s' = t"
    and "segtypeflags_to_segtype (hd (packet (new_cancel_segment s t rc))) = t"
proof -
  let ?bp = "packet (new_cancel_segment s t rc)"
  have p: "?bp = header_bytes (cancel_flag_byte t) (engine_id s) (session_id s) @ [rc]"
    using assms(1,2) by (simp add: new_cancel_segment_def create_ltp_header_fits append_byte_def poke_header)
  obtain cur where h: "parse_header ?bp blank_cancel_segment
      = Inr (cur, (set_type_flags (cancel_flag_byte t) blank_cancel_segment)\<lparr>engine_id := engine_id s,
           session_id := session_id s, header_exts := 0, trailer_exts := 0, is_security_enabled := False\<rparr>)"
    and c: "cursor ?bp cur [rc]"
    using parse_header_ok [OF p, of blank_cancel_segment] by blast
  have "is_valid (set_type_flags (cancel_flag_byte t) blank_cancel_segment)"
    by (rule control_valid) (use cancel_flags(1) [OF assms(3)] in auto)
  then show "\<exists>s'. cs_parse_buffer ?bp t blank_cancel_segment = Inr (0, s')
    \<and> engine_id s' = engine_id s \<and> session_id s' = session_id s \<and> reason_code s' = rc \<and> segment_type s' = t"
    using h byte_at(1) [OF c] by (simp add: cs_parse_buffer_def)
  show "segtypeflags_to_segtype (hd ?bp) = t"
    using cancel_flags(2) [OF assms(3)] by (simp add: p header_bytes_def)
qed

lemma cancel_ack_roundtrip:
  assumes "fits 8 (engine_id s)" and "fits 8 (session_id s)" and "cb \<in> {0x0d, 0x0f}"
  shows "\<exists>s'. cas_parse_buffer (packet (new_cancel_ack s cb)) (segtypeflags_to_segtype cb) base_segment = Inr (0, s')
    \<and> engine_id s' = engine_id s \<and> session_id s' = session_id s \<and> segment_type s' = segment_type (new_cancel_ack s cb)"
proof -
  let ?bp = "packet (new_cancel_ack s cb)"
  have p: "?bp = header_bytes cb (engine_id s) (session_id s) @ []"
    using assms(1,2) by (simp add: new_cancel_ack_def create_ltp_header_fits)
  obtain cur where h: "parse_header ?bp base_segment
      = Inr (cur, (set_type_flags cb base_segment)\<lparr>engine_id := engine_id s, session_id := session_id s,
           header_exts := 0, trailer_exts := 0, is_security_enabled := False\<rparr>)"
    using parse_header_ok [OF p, of base_segment] by blast
  have "is_valid (set_type_flags cb base_segment)"
    by (rule control_valid) (use assms(3) in auto)
  moreover have "segtypeflags_to_segtype cb = (if cb = 0x0f then LTP_SEGMENT_CAS_BR else LTP_SEGMENT_CAS_BS)"
    using assms(3) by (auto simp: segtypeflags_to_segtype_def Let_def)
  ultimately show ?thesis using h by (simp add: cas_parse_buffer_def new_cancel_ack_def)
qed

text \<open>
  C23. The acknowledgement of a report carries the report's serial number back; a cancel segment and
  its acknowledgement carry the session, the direction (which decides the segment type the receiver
  assigns) and, for the cancel segment, the reason.
\<close>
theorem ltp_control_roundtrip:
  assumes "fits 8 (engine_id s)" and "fits 8 (session_id s)" and "fits 8 (engine_id c)" and "fits 8 (session_id c)"
    and "fits 8 serial" and "t \<in> {LTP_SEGMENT_CS_BS, LTP_SEGMENT_CS_BR}" and "cb \<in> {0x0d, 0x0f}"
  shows "(\<exists>s'. ras_parse_buffer (packet (new_report_ack s serial)) base_segment = Inr (0, s')
            \<and> engine_id s' = engine_id s \<and> session_id s' = session_id s \<and> serial_number s' = serial)
    \<and> (\<exists>s'. cs_parse_buffer (packet (new_cancel_segment c t rc)) t blank_cancel_segment = Inr (0, s')
            \<and> engine_id s' = engine_id c \<and> session_id s' = session_id c \<and> reason_code s' = rc \<and> segment_type s' = t)
    \<and> segtypeflags_to_segtype (hd (packet (new_cancel_segment c t rc))) = t
    \<and> (\<exists>s'. cas_parse_buffer (packet (new_cancel_ack s cb)) (segtypeflags_to_segtype cb) base_segment = Inr (0, s')
            \<and> engine_id s' = engine_id s \<and> session_id s' = session_id s \<and> segment_type s' = segment_type (new_cancel_ack s cb))"
  using report_ack_roundtrip [OF assms(1,2,5)] cancel_roundtrip [OF assms(3,4,6)] cancel_ack_roundtrip [OF assms(1,2,7)]
  by blast

theorem ltp_control_roundtrip_witness:
  "\<exists>s'. ras_parse_buffer (packet (new_report_ack (base_segment\<lparr>engine_id := 5, session_id := 300\<rparr>) 77)) base_segment = Inr (0, s')
     \<and> session_id s' = 300 \<and> serial_number s' = 77"
proof -
  let ?s = "base_segment\<lparr>engine_id := 5, session_id := 300\<rparr>"
  let ?c = "blank_cancel_segment\<lparr>engine_id := 5, session_id := 300\<rparr>"
  have f: "fits 8 5" "fits 8 300" "fits 8 77" by (simp_all add: fits_iff)
  have "\<exists>s'. ras_parse_buffer (packet (new_report_ack ?s 77)) base_segment = Inr (0, s')
      \<and> engine_id s' = engine_id ?s \<and> session_id s' = session_id ?s \<and> serial_number s' = 77"
    using ltp_control_roundtrip [where s = ?s and c = ?c and serial = 77 and t = LTP_SEGMENT_CS_BS and cb = 15 and rc = 0] f by simp
  then show ?thesis by auto
qed

section \<open>Dispatch\<close>

text \<open>The type of a decoded segment: the one its parser has assigned.\<close>

fun any_type :: "any_segment \<Rightarrow> int" where
  "any_type (Seg_DS s) = LTP_SEGMENT_DS"
| "any_type (Seg_RS s) = LTP_SEGMENT_RS"
| "any_type (Seg_RAS s) = LTP_SEGMENT_RAS"
| "any_type (Seg_CS s) = segment_type s"
| "any_type (Seg_CAS s) = segment_type s"
| "any_type (Seg_Invalid t) = t"

fun any_valid :: "any_segment \<Rightarrow> bool" where
  "any_valid (Seg_DS s) = is_valid s"
| "any_valid (Seg_RS s) = is_valid s"
| "any_valid (Seg_RAS s) = is_valid s"
| "any_valid (Seg_CS s) = is_valid s"
| "any_valid (Seg_CAS s) = is_valid s"
| "any_valid (Seg_Invalid t) = False"

text \<open>What one branch of \<open>DecodeBuffer\<close> guarantees.\<close>

definition dispatch_ok :: "int \<Rightarrow> any_segment option \<Rightarrow> bool" where
  "dispatch_ok t r \<longleftrightarrow> (case r of None \<Rightarrow> False | Some g \<Rightarrow> any_valid g \<longrightarrow> any_type g = t)"

lemma on_parsed_ok:
  assumes "on_parsed f p t = Inr r" and "\<And>y. p = Inr y \<Longrightarrow> any_valid (f y) \<Longrightarrow> any_type (f y) = t"
  shows "dispatch_ok t r"
  using assms by (auto simp: on_parsed_def dispatch_ok_def split: sum.splits ltp_error.splits)

lemma cs_branch_ok:
  assumes "on_parsed (\<lambda>r. Seg_CS (mark_valid r)) (cs_parse_buffer bp t s) t = Inr r"
  shows "dispatch_ok t r"
  by (rule on_parsed_ok [OF assms])
    (auto simp: cs_parse_buffer_def mark_valid_def split: sum.splits if_splits)

lemma cas_branch_ok:
  assumes "on_parsed (\<lambda>r. Seg_CAS (mark_valid r)) (cas_parse_buffer bp t s) t = Inr r"
  shows "dispatch_ok t r"
  by (rule on_parsed_ok [OF assms])
    (auto simp: cas_parse_buffer_def mark_valid_def split: sum.splits if_splits)

lemma ds_branch_ok: "on_parsed (\<lambda>r. Seg_DS (mark_valid r)) p LTP_SEGMENT_DS = Inr r \<Longrightarrow> dispatch_ok LTP_SEGMENT_DS r"
  by (erule on_parsed_ok) simp

lemma rs_branch_ok: "on_parsed (\<lambda>r. Seg_RS (mark_valid r)) p LTP_SEGMENT_RS = Inr r \<Longrightarrow> dispatch_ok LTP_SEGMENT_RS r"
  by (erule on_parsed_ok) simp

lemma ras_branch_ok: "on_parsed (\<lambda>r. Seg_RAS (mark_valid r)) p LTP_SEGMENT_RAS = Inr r \<Longrightarrow> dispatch_ok LTP_SEGMENT_RAS r"
  by (erule on_parsed_ok) simp

lemma flag_bits:
  fixes b :: u8
  shows "(b AND 0x0f) AND 0x08 = b AND 0x08" "(b AND 0x0f) AND 0x04 = b AND 0x04"
    "(b AND 0x0f) AND 0x02 = b AND 0x02" "(b AND 0x0f) AND 0x01 = b AND 0x01"
  by (simp_all add: and.assoc)

text \<open>
  The receiver thread sorts datagrams by the type it computes from the flag byte
  (\<open>SegTypeFlags_to_SegType\<close>); \<open>DecodeBuffer\<close> builds the object. The two agree: a valid segment has
  exactly the type the flag byte says, and no object is built exactly for the two undefined types.
\<close>
theorem ltp_dispatch_agrees:
  assumes "decode_buffer bp = Inr r"
  shows "(r = None \<longleftrightarrow> segtypeflags_to_segtype (hd bp) = -1)
    \<and> (\<forall>g. r = Some g \<and> any_valid g \<longrightarrow> any_type g = segtypeflags_to_segtype (hd bp))"
proof -
  let ?t = "segtypeflags_to_segtype (hd bp)"
  have b: "ltp_byte bp 0 = Inr (hd bp)"
    using assms by (auto simp: decode_buffer_def ltp_byte_def hd_conv_nth split: if_splits)
  have "r = None \<and> ?t = -1 \<or> ?t \<noteq> -1 \<and> dispatch_ok ?t r"
    using assms unfolding decode_buffer_def b Let_def sum.case flag_bits segtypeflags_to_segtype_def
    by (cases "hd bp AND 8 = 0"; cases "hd bp AND 4 = 0"; cases "hd bp AND 2 = 0"; cases "hd bp AND 1 = 0")
      (simp_all add: ds_branch_ok rs_branch_ok ras_branch_ok cs_branch_ok cas_branch_ok
        segment_types(1-8) [THEN arg_cong [where f = "\<lambda>t. t = -1"]])
  then show ?thesis by (cases r) (auto simp: dispatch_ok_def)
qed

theorem ltp_dispatch_agrees_witness:
  "decode_buffer [0x0e, 5, 9, 0, 2] \<noteq> Inr None
   \<and> decode_buffer [0x0a, 5, 9, 0] = Inr None"
proof -
  have "decode_buffer [0x0a, 5, 9, 0] = Inr None" by (simp add: decode_buffer_def ltp_byte_def Let_def)
  then show ?thesis
    using ltp_dispatch_agrees [of "[0x0e, 5, 9, 0, 2]" None]
    by (auto simp: segtypeflags_to_segtype_def segment_types Let_def)
qed

section \<open>Ranges\<close>

text \<open>
  \<open>Encode_Field\<close> passes \<open>sizeof(infield)\<close> as the room for the encoding. A 64-bit field is
  therefore written exactly when it is below $2^{56}$ and a 32-bit field exactly when it is below
  $2^{28}$; any other value is left out of the segment and the packet stays as it was.
\<close>
theorem ltp_field_range:
  "encode_field64 v s = (if unat v < 2 ^ 56
      then s\<lparr>packet := packet s @ sdnv_fill 0 v [], packet_len := packet_len s + sdnv_encoding_len v\<rparr> else s)
   \<and> encode_field32 w s = (if unat w < 2 ^ 28
      then s\<lparr>packet := packet s @ sdnv_fill 0 (ucast w) [], packet_len := packet_len s + sdnv_encoding_len (ucast w)\<rparr> else s)"
proof -
  have f: "encode_field n x s = (if fits n x
      then s\<lparr>packet := packet s @ sdnv_fill 0 x [], packet_len := packet_len s + sdnv_encoding_len x\<rparr> else s)" for n x
    by (simp add: encode_field_def sdnv_encode_def fits_def sdnv_fill_groups length_sdnv_groups sdnv_encoding_len_def)
  have "unat w < 2 ^ 32" using unsigned_less [of w] by simp
  then have "unat w < 2 ^ 64" by simp
  then have "unat (ucast w :: u64) = unat w" by (simp add: unsigned_ucast_eq take_bit_nat_eq_self)
  then show ?thesis using f [of 8 v] f [of 4 "ucast w"] by (simp add: encode_field64_def encode_field32_def fits_iff)
qed

lemma as_int_small: "unat v < 2 ^ 31 \<Longrightarrow> as_int v = int (unat v)"
  using as_int_of_nat [of "unat v"] by simp

text \<open>
  C34. As long as the received datagram and the length field are below $2^{30}$, the comparison of the
  payload length with the buffer is exact: the payload is accepted only when all of it has arrived,
  is rejected otherwise, and no byte outside the datagram is read.
\<close>
theorem ltp_payload_guard:
  assumes "cur \<le> length bp" and "length bp < 2 ^ 30" and "0 < payload_length s" and "unat (payload_length s) < 2 ^ 30"
  shows "ds_parse_payload bp cur s =
    (if cur + unat (payload_length s) \<le> length bp
     then Inr (if is_valid s then 0 else 1, s\<lparr>payload := take (unat (payload_length s)) (drop cur bp)\<rparr>)
     else Inr (-1, s\<lparr>is_valid := False\<rparr>))"
proof -
  let ?v = "of_nat cur + payload_length s"
  have c: "unat (of_nat cur :: u64) = cur" using assms(1,2) by (simp add: unsigned_of_nat take_bit_nat_eq_self)
  have v: "unat ?v = cur + unat (payload_length s)"
    using assms(1,2,4) c by (simp add: unat_word_ariths)
  then have "as_int ?v = int (cur + unat (payload_length s))"
    using assms(1,2,4) by (simp add: as_int_small)
  moreover have "as_int (of_nat (length bp)) = int (length bp)"
    using assms(2) by (intro as_int_of_nat) simp
  ultimately have "as_int ?v > as_int (of_nat (length bp)) \<longleftrightarrow> \<not> cur + unat (payload_length s) \<le> length bp"
    by (simp only: of_nat_less_iff not_le)
  then show ?thesis using assms(3) by (simp add: ds_parse_payload_def not_less)
qed

theorem ltp_payload_guard_witness:
  "ds_parse_payload [7, 8, 9] 1 (blank_data_segment\<lparr>payload_length := 3\<rparr>)
     = Inr (-1, blank_data_segment\<lparr>payload_length := 3, is_valid := False\<rparr>)"
  using ltp_payload_guard [of 1 "[7, 8, 9]" "blank_data_segment\<lparr>payload_length := 3\<rparr>"] by simp

lemma as_int_wraps:
  assumes "n \<le> 14" shows "as_int (of_nat n + 0x100000000) = int n"
proof -
  have "(ucast (of_nat n + 0x100000000 :: u64) :: u32) = of_nat n"
    by (simp add: unsigned_ucast_eq word_unat_eq_iff unat_word_ariths unsigned_of_nat take_bit_eq_mod mod_mod_cancel)
  then show ?thesis
    using assms by (simp add: as_int_def signed_of_nat signed_take_bit_int_eq_self)
qed

text \<open>
  Beyond that range the comparison is between truncated values: a segment that announces a
  payload of $2^{32}$ bytes and carries three passes the test, and the copy leaves the datagram.
\<close>
theorem ltp_payload_overread:
  "ds_parse_buffer [0x00, 5, 9, 0, 1, 0, 0x90, 0x80, 0x80, 0x80, 0x00, 1, 2, 3] blank_data_segment = Inl Bad_Read"
proof -
  define bp :: bytes where "bp = [0x00, 5, 9, 0, 1, 0, 0x90, 0x80, 0x80, 0x80, 0x00, 1, 2, 3]"
  have e: "bp = header_bytes 0 5 9 @ sdnv_groups 0 (ucast (1 :: u32)) @ sdnv_groups 0 0 @ sdnv_groups 0 0x100000000 @ [1, 2, 3]"
    by (simp add: bp_def header_bytes_def sdnv_groups.simps)
  obtain cur where h: "parse_header bp blank_data_segment = Inr (cur, (set_type_flags 0 blank_data_segment)
      \<lparr>engine_id := 5, session_id := 9, header_exts := 0, trailer_exts := 0, is_security_enabled := False\<rparr>)"
    and c: "cursor bp cur (sdnv_groups 0 (ucast (1 :: u32)) @ sdnv_groups 0 0 @ sdnv_groups 0 0x100000000 @ [1, 2, 3])"
    using parse_header_ok [OF e, of blank_data_segment] by blast
  note t1 = take32_at [OF c]
  note t2 = take_at [OF t1(2)]
  note t3 = take_at [OF t2(2)]
  let ?c = "cur + sdnv_val_len (ucast (1 :: u32)) + sdnv_val_len 0 + sdnv_val_len 0x100000000"
  have "?c \<le> length bp" using t3(2) by (simp add: cursor_def)
  then have le: "?c \<le> 14" by (simp add: bp_def)
  have a: "as_int (of_nat ?c + 0x100000000) = int ?c" using le by (rule as_int_wraps)
  have "as_int (of_nat (length bp)) = 14" by (simp add: bp_def as_int_def)
  then have "ds_parse_payload bp ?c x = Inl Bad_Read" if "payload_length x = 0x100000000" for x
    using a le that by (simp add: ds_parse_payload_def bp_def)
  then show ?thesis
    using h t1(1) t2(1) t3(1) unfolding bp_def [symmetric]
    by (simp add: ds_parse_buffer_def Let_def set_type_flags_def)
qed

end
