(* ===== verification/Ltp_Contig.thy ===== *)
theory Ltp_Contig
  imports Ordered_Map
begin

text \<open>
  The map of contiguous blocks of an LTP session, \<open>check_red_contig_blocks\<close> of
  \<open>src/servlib/ltp/LTPCommon.cc\<close>. The receiver keeps, for every maximal run of red bytes it holds,
  the first and the last byte, together with the number of bytes from the start of the block on
  that have arrived without a gap. The theory gives the map its meaning, the set of bytes received,
  and shows that the routine implements the union with the segment for every segment that is new or
  wholly received already; it also names the two kinds of overlap it mishandles.
\<close>

section \<open>The routine\<close>

type_synonym contig_blocks = "(u64, u64) omap"

text \<open>
  The body of the routine up to the final statement: the returned \<open>overlap\<close>, the reference argument
  \<open>duplicate\<close>, the map, and the bounds of the contiguous block the segment is in. \<open>None\<close> is a failed
  assertion. The iterator \<open>bound_iter\<close> is the head of \<open>om_from start_byte m\<close>, the one before it the
  last entry of \<open>om_below start_byte m\<close>.
\<close>

definition reaches :: "u64 \<Rightarrow> u64 \<Rightarrow> bool" where
  "reaches stop_byte k \<longleftrightarrow> stop_byte = k \<or> stop_byte + 1 = k"

definition contig_at_end :: "contig_blocks \<Rightarrow> u64 \<Rightarrow> u64 \<Rightarrow> (bool \<times> bool \<times> contig_blocks \<times> u64 \<times> u64) option" where
  "contig_at_end m start_byte stop_byte =
     (if om_below start_byte m \<noteq> [] then
        let (pk, pv) = last (om_below start_byte m) in
        if pv \<ge> stop_byte then
          if pk \<le> start_byte then Some (True, True, m, start_byte, stop_byte) else None
        else if pv = start_byte \<or> pv + 1 = start_byte then
          Some (pv = start_byte, False, om_assign pk stop_byte m, pk, stop_byte)
        else Some (False, False, om_assign start_byte stop_byte m, start_byte, stop_byte)
      else Some (False, False, om_assign start_byte stop_byte m, start_byte, stop_byte))"

definition contig_between ::
    "contig_blocks \<Rightarrow> u64 \<Rightarrow> u64 \<Rightarrow> u64 \<times> u64 \<Rightarrow> u64 \<times> u64 \<Rightarrow> bool \<times> bool \<times> contig_blocks \<times> u64 \<times> u64" where
  "contig_between m start_byte stop_byte = (\<lambda>(pk, pv) (bk, bv).
     if pv \<ge> stop_byte then (True, True, m, start_byte, stop_byte)
     else if pv \<ge> start_byte then
       if reaches stop_byte bk then (True, False, om_erase bk (om_assign pk bv (om_assign pk stop_byte m)), pk, bv)
       else (True, False, om_assign pk stop_byte m, pk, stop_byte)
     else if pv + 1 = start_byte then
       if reaches stop_byte bk
       then (stop_byte = bk, False, om_erase bk (om_assign pk bv (om_assign pk stop_byte m)), pk, bv)
       else (False, False, om_assign pk stop_byte m, pk, stop_byte)
     else
       if reaches stop_byte bk then (stop_byte = bk, False, om_erase bk (om_assign start_byte bv m), start_byte, bv)
       else (False, False, om_assign start_byte stop_byte m, start_byte, stop_byte))"

definition contig_before ::
    "contig_blocks \<Rightarrow> u64 \<Rightarrow> u64 \<Rightarrow> u64 \<times> u64 \<Rightarrow> bool \<times> bool \<times> contig_blocks \<times> u64 \<times> u64" where
  "contig_before m start_byte stop_byte = (\<lambda>(bk, bv).
     let top = (if bv > stop_byte then bv else stop_byte) in
     if bk \<le> stop_byte then (True, False, om_erase bk (om_assign start_byte top m), start_byte, top)
     else if reaches stop_byte bk
     then (stop_byte = bk, False, om_erase bk (om_assign start_byte top (om_assign start_byte stop_byte m)), start_byte, top)
     else (False, False, om_assign start_byte stop_byte m, start_byte, stop_byte))"

definition contig_step :: "contig_blocks \<Rightarrow> u64 \<Rightarrow> u64 \<Rightarrow> (bool \<times> bool \<times> contig_blocks \<times> u64 \<times> u64) option" where
  "contig_step m start_byte stop_byte =
     (case om_from start_byte m of
        [] \<Rightarrow> contig_at_end m start_byte stop_byte
      | (bk, bv) # _ \<Rightarrow>
          if bk = start_byte then
            if bv \<ge> stop_byte then Some (True, True, m, start_byte, stop_byte) else None
          else if om_below start_byte m \<noteq> []
          then Some (contig_between m start_byte stop_byte (last (om_below start_byte m)) (bk, bv))
          else Some (contig_before m start_byte stop_byte (bk, bv)))"

text \<open>The routine: the result, \<open>duplicate\<close>, the map and \<open>first_contiguous_bytes_\<close>.\<close>

definition check_red_contig_blocks ::
    "contig_blocks \<Rightarrow> u64 \<Rightarrow> u64 \<Rightarrow> u64 \<Rightarrow> (bool \<times> bool \<times> contig_blocks \<times> u64) option" where
  "check_red_contig_blocks m first_contiguous_bytes start_byte stop_byte =
     map_option (\<lambda>(overlap, duplicate, m', contig_start_byte, contig_stop_byte).
       (overlap, duplicate, m',
        if \<not> duplicate \<and> contig_start_byte = 0 then contig_stop_byte + 1 else first_contiguous_bytes))
       (contig_step m start_byte stop_byte)"

section \<open>Meaning and invariant\<close>

definition blk_bytes :: "contig_blocks \<Rightarrow> u64 set" where
  "blk_bytes m = (\<Union>(k, v) \<in> set m. {k..v})"

text \<open>Blocks are in order, not empty, and separated by at least one byte that has not arrived.\<close>

fun blocks_ok :: "contig_blocks \<Rightarrow> bool" where
  "blocks_ok [] \<longleftrightarrow> True"
| "blocks_ok ((k, v) # m) \<longleftrightarrow> k \<le> v \<and> v \<noteq> -1 \<and> (\<forall>(j, w) \<in> set m. v + 1 < j) \<and> blocks_ok m"

text \<open>\<open>first_contiguous_bytes_\<close> is the length of the prefix that has arrived.\<close>

definition prefix_len :: "u64 set \<Rightarrow> u64 \<Rightarrow> bool" where
  "prefix_len B fc \<longleftrightarrow> (\<forall>x < fc. x \<in> B) \<and> fc \<notin> B"

definition contig_inv :: "contig_blocks \<Rightarrow> u64 \<Rightarrow> bool" where
  "contig_inv m fc \<longleftrightarrow> blocks_ok m \<and> prefix_len (blk_bytes m) fc"

lemma blk_bytes_simps [simp]:
  "blk_bytes [] = {}"
  "blk_bytes ((k, v) # m) = {k..v} \<union> blk_bytes m"
  "blk_bytes (xs @ ys) = blk_bytes xs \<union> blk_bytes ys"
  by (auto simp: blk_bytes_def)

lemma blk_bytesI: "(k, v) \<in> set m \<Longrightarrow> k \<le> x \<Longrightarrow> x \<le> v \<Longrightarrow> x \<in> blk_bytes m"
  unfolding blk_bytes_def by (rule UN_I [of "(k, v)"]) auto

lemma succ_less: "v \<noteq> (-1 :: u64) \<Longrightarrow> v < v + 1"
  by (simp add: word_less_nat_alt unat_succ)

lemma succ_le_iff: "v \<noteq> (-1 :: u64) \<Longrightarrow> v + 1 \<le> j \<longleftrightarrow> v < j"
  by (simp add: word_less_nat_alt word_le_nat_alt unat_succ Suc_le_eq)

lemma blocks_ok_append:
  "blocks_ok (xs @ ys) \<longleftrightarrow> blocks_ok xs \<and> blocks_ok ys \<and> (\<forall>(k, v) \<in> set xs. \<forall>(j, w) \<in> set ys. v + 1 < j)"
  by (induction xs rule: blocks_ok.induct) auto

lemma blocks_ok_entry: "blocks_ok m \<Longrightarrow> (k, v) \<in> set m \<Longrightarrow> k \<le> v \<and> v \<noteq> -1"
  by (induction m rule: blocks_ok.induct) auto

lemma blocks_ok_wf: "blocks_ok m \<Longrightarrow> om_wf m"
proof (induction m rule: blocks_ok.induct)
  case (2 k v m)
  have "k < j" if "(j, w) \<in> set m" for j w
  proof -
    have "k \<le> v" "v < v + 1" "v + 1 < j" using 2 that by (auto simp: succ_less)
    then show ?thesis by (meson order.strict_trans order.strict_trans1)
  qed
  then show ?case using 2 by auto
qed simp

text \<open>A run of received bytes lies within one block.\<close>

lemma run_in_block:
  assumes "blocks_ok m" and "start \<le> stop" and "{start..stop} \<subseteq> blk_bytes m"
  shows "\<exists>k v. (k, v) \<in> set m \<and> k \<le> start \<and> stop \<le> v"
proof -
  have "start \<in> blk_bytes m" using assms by auto
  then obtain k v where kv: "(k, v) \<in> set m" "k \<le> start" "start \<le> v" by (auto simp: blk_bytes_def)
  obtain xs ys where m: "m = xs @ (k, v) # ys" using split_list [OF kv(1)] by blast
  have v: "v \<noteq> -1" using blocks_ok_entry [OF assms(1) kv(1)] by simp
  have "v + 1 \<notin> blk_bytes m"
  proof
    assume "v + 1 \<in> blk_bytes m"
    then obtain j w where jw: "(j, w) \<in> set m" "j \<le> v + 1" "v + 1 \<le> w" by (auto simp: blk_bytes_def)
    have "v < w" using jw(3) v by (simp add: succ_le_iff)
    consider "(j, w) \<in> set xs" | "j = k \<and> w = v" | "(j, w) \<in> set ys" using jw(1) m by auto
    then show False
    proof cases
      case 1
      then have "w + 1 < k" "w \<noteq> -1"
        using assms(1) blocks_ok_entry [OF assms(1) jw(1)] unfolding m blocks_ok_append by auto
      then have "w < v" using kv(2,3) by (meson order.strict_trans order.strict_trans2 succ_less order.trans)
      then show False using \<open>v < w\<close> by simp
    next
      case 2 then show False using \<open>v < w\<close> by simp
    next
      case 3
      then have "v + 1 < j" using assms(1) unfolding m blocks_ok_append by auto
      then show False using jw(2) by simp
    qed
  qed
  then have "\<not> (start \<le> v + 1 \<and> v + 1 \<le> stop)" using assms(3) by auto
  moreover have "start \<le> v + 1" using kv(3) succ_less [OF v] by (meson order.trans less_imp_le)
  ultimately have "stop \<le> v" using v by (metis not_less succ_le_iff)
  then show ?thesis using kv by blast
qed

section \<open>New segments\<close>

text \<open>The position of a segment that shares no byte with the map.\<close>

definition fits_between :: "contig_blocks \<Rightarrow> u64 \<Rightarrow> u64 \<Rightarrow> contig_blocks \<Rightarrow> bool" where
  "fits_between xs a b ys \<longleftrightarrow> a \<le> b \<and> b \<noteq> -1 \<and> blocks_ok (xs @ ys)
     \<and> (\<forall>(k, v) \<in> set xs. v < a) \<and> (\<forall>(k, v) \<in> set ys. b < k)"

lemma fits_between_position:
  assumes "blocks_ok m" and "start \<le> stop" and "stop \<noteq> -1" and "{start..stop} \<inter> blk_bytes m = {}"
  shows "fits_between (om_below start m) start stop (om_from start m)"
proof -
  have m: "om_below start m @ om_from start m = m" by (rule om_split)
  have "v < start" if kv: "(k, v) \<in> set (om_below start m)" for k v
  proof -
    have "(k, v) \<in> set m" using kv m by (metis Un_iff set_append)
    moreover have "k < start" using om_below_less [OF kv] by simp
    ultimately have "start \<le> v \<Longrightarrow> start \<in> blk_bytes m" by (auto intro: blk_bytesI)
    moreover have "start \<notin> blk_bytes m" using assms(2,4) by auto
    ultimately show ?thesis by (meson not_less)
  qed
  moreover have "stop < k" if kv: "(k, v) \<in> set (om_from start m)" for k v
  proof -
    have mem: "(k, v) \<in> set m" using kv m by (metis Un_iff set_append)
    have "start \<le> k" using om_from_ge [OF blocks_ok_wf [OF assms(1)] kv] by simp
    moreover have "k \<in> blk_bytes m" using mem blocks_ok_entry [OF assms(1) mem] by (auto intro: blk_bytesI)
    ultimately have "\<not> k \<le> stop" using assms(4) by auto
    then show ?thesis by simp
  qed
  ultimately show ?thesis using assms(1-3) m by (auto simp: fits_between_def)
qed

text \<open>
  The three shapes of an update: a block of its own, the extension of the block below, and the
  extension of the block above; the last two may happen together.
\<close>

lemma new_block:
  assumes "fits_between xs a b ys" and "\<forall>(k, v) \<in> set xs. v + 1 \<noteq> a" and "\<forall>(k, v) \<in> set ys. b + 1 \<noteq> k"
  shows "blocks_ok (xs @ (a, b) # ys)" and "om_assign a b (xs @ ys) = xs @ (a, b) # ys"
proof -
  have "v + 1 < a" if "(k, v) \<in> set xs" for k v
  proof -
    have "v < a" "v \<noteq> -1" "v + 1 \<noteq> a"
      using assms(1,2) that blocks_ok_entry [of "xs @ ys" k v] by (auto simp: fits_between_def)
    then show ?thesis using succ_le_iff [of v a] by simp
  qed
  moreover have "b + 1 < k" if "(k, v) \<in> set ys" for k v
  proof -
    have "b < k" "b \<noteq> -1" "b + 1 \<noteq> k" using assms(1,3) that by (auto simp: fits_between_def)
    then show ?thesis using succ_le_iff [of b k] by simp
  qed
  ultimately show "blocks_ok (xs @ (a, b) # ys)"
    using assms(1) unfolding fits_between_def blocks_ok_append by auto
  have "k < a" if "(k, v) \<in> set xs" for k v
    using assms(1) that blocks_ok_entry [of "xs @ ys" k v] by (auto simp: fits_between_def intro: order.strict_trans1)
  moreover have "a < k" if "(k, v) \<in> set ys" for k v
    using assms(1) that by (auto simp: fits_between_def intro: order.strict_trans1)
  ultimately show "om_assign a b (xs @ ys) = xs @ (a, b) # ys"
    by (subst om_assign_append) (auto intro!: om_assign_front)
qed

lemma extend_below:
  assumes "fits_between (xs @ [(pk, pv)]) a b ys" and "pv + 1 = a"
  shows "fits_between xs pk b ys" and "om_assign pk b (xs @ [(pk, pv)] @ ys) = xs @ (pk, b) # ys"
    and "{pk..pv} \<union> {a..b} = {pk..b}" and "\<forall>(k, v) \<in> set xs. v + 1 \<noteq> pk"
proof -
  have ok: "blocks_ok (xs @ (pk, pv) # ys)" and ab: "a \<le> b" "b \<noteq> -1" and ysb: "\<forall>(k, v) \<in> set ys. b < k"
    using assms(1) by (auto simp: fits_between_def)
  have p: "pk \<le> pv" "pv \<noteq> -1" "pv < a"
    using ok assms(1) unfolding blocks_ok_append by (auto simp: fits_between_def)
  have below: "v < pk \<and> v + 1 < pk" if "(k, v) \<in> set xs" for k v
  proof -
    have "v + 1 < pk" "v \<noteq> -1" using ok that blocks_ok_entry [OF ok, of k v] unfolding blocks_ok_append by auto
    then show ?thesis using succ_less [of v] by (meson order.strict_trans)
  qed
  then show "\<forall>(k, v) \<in> set xs. v + 1 \<noteq> pk" by auto
  have "pk \<le> b" using p ab by (meson order.trans less_imp_le)
  moreover have "blocks_ok (xs @ ys)" using ok unfolding blocks_ok_append by auto
  ultimately show "fits_between xs pk b ys" using below ab ysb by (auto simp: fits_between_def)
  show "om_assign pk b (xs @ [(pk, pv)] @ ys) = xs @ (pk, b) # ys"
    using om_assign_mid [of xs pk pv ys b] blocks_ok_wf [OF ok] by simp
  have "x \<le> pv \<or> a \<le> x" for x using p(2) assms(2) succ_le_iff [of pv x] by auto
  moreover have "pk \<le> x" if "a \<le> x" for x using that p by (meson order.trans less_imp_le)
  moreover have "x \<le> b" if "x \<le> pv" for x using that p ab by (meson order.trans less_imp_le)
  ultimately show "{pk..pv} \<union> {a..b} = {pk..b}" by (auto simp: set_eq_iff)
qed

lemma extend_above:
  assumes "fits_between xs a b ((bk, bv) # ys)" and "b + 1 = bk" and "\<forall>(k, v) \<in> set xs. v + 1 \<noteq> a"
  shows "blocks_ok (xs @ (a, bv) # ys)" and "om_erase bk (om_assign a bv (xs @ (bk, bv) # ys)) = xs @ (a, bv) # ys"
    and "om_erase bk (xs @ (a, bv) # (bk, bv) # ys) = xs @ (a, bv) # ys"
    and "{a..b} \<union> {bk..bv} = {a..bv}"
proof -
  have ok: "blocks_ok (xs @ (bk, bv) # ys)" and ab: "a \<le> b" "b \<noteq> -1" "b < bk"
    and xsa: "\<And>k v. (k, v) \<in> set xs \<Longrightarrow> v < a"
    using assms(1) by (auto simp: fits_between_def)
  have bkv: "bk \<le> bv" "bv \<noteq> -1" using ok unfolding blocks_ok_append by auto
  have abv: "a < bk" "a \<le> bv" using ab bkv by (meson order.trans order.strict_trans1 less_imp_le)+
  have xs: "v + 1 < a" "k < a" if "(k, v) \<in> set xs" for k v
  proof -
    have "k \<le> v" "v \<noteq> -1" "v < a" "v + 1 \<noteq> a" using blocks_ok_entry [OF ok, of k v] that xsa assms(3) by auto
    then show "v + 1 < a" "k < a" using succ_le_iff [of v a] by (auto intro: order.strict_trans1)
  qed
  show main: "blocks_ok (xs @ (a, bv) # ys)"
    using ok xs abv bkv unfolding blocks_ok_append by auto
  have ysk: "bk < k" if "(k, v) \<in> set ys" for k v
    using blocks_ok_wf [OF ok] that by (auto simp: om_wf_append)
  have wf: "om_wf ((xs @ [(a, bv)]) @ (bk, bv) # ys)"
    using blocks_ok_wf [OF ok] xs(2) abv ysk by (fastforce simp: om_wf_append)
  then show e: "om_erase bk (xs @ (a, bv) # (bk, bv) # ys) = xs @ (a, bv) # ys"
    using om_erase_mid [of "xs @ [(a, bv)]" bk bv ys] by simp
  have "om_assign a bv (xs @ (bk, bv) # ys) = xs @ (a, bv) # (bk, bv) # ys"
    using xs(2) abv(1) ysk by (subst om_assign_append) auto
  then show "om_erase bk (om_assign a bv (xs @ (bk, bv) # ys)) = xs @ (a, bv) # ys" using e by simp
  have "x \<le> b \<or> bk \<le> x" for x using ab(2) assms(2) succ_le_iff [of b x] by auto
  moreover have "x \<le> bv" if "x \<le> b" for x using that ab bkv by (meson order.trans less_imp_le)
  moreover have "a \<le> x" if "bk \<le> x" for x using that abv by (meson order.trans less_imp_le)
  ultimately show "{a..b} \<union> {bk..bv} = {a..bv}" by (auto simp: set_eq_iff)
qed

lemma apart_below:
  assumes "fits_between (xs @ [(pk, pv)]) a b ys" and "pv + 1 \<noteq> a"
  shows "\<forall>(k, v) \<in> set (xs @ [(pk, pv)]). v + 1 \<noteq> a"
proof -
  have "v + 1 < a" if "(k, v) \<in> set xs" for k v
  proof -
    have "v + 1 < pk" "pk \<le> pv" "pv < a" using assms(1) that by (auto simp: fits_between_def blocks_ok_append)
    then show ?thesis by (meson order.strict_trans order.strict_trans1)
  qed
  then show ?thesis using assms(2) by auto
qed

lemma apart_above:
  assumes "fits_between xs a b ((bk, bv) # ys)" and "b + 1 \<noteq> bk"
  shows "\<forall>(k, v) \<in> set ((bk, bv) # ys). b + 1 \<noteq> k"
proof -
  have "b < bk" "b \<noteq> -1" "om_wf ((bk, bv) # ys)"
    using assms(1) blocks_ok_wf [of "xs @ (bk, bv) # ys"] by (auto simp: fits_between_def om_wf_append)
  then have "b + 1 < k" if "(k, v) \<in> set ys" for k v
    using that succ_le_iff [of b bk] by (force intro: order.strict_trans1)
  then show ?thesis using assms(2) by auto
qed

lemma below_snoc:
  assumes "om_below a m \<noteq> []"
  shows "\<exists>xs pk pv. om_below a m = xs @ [(pk, pv)] \<and> last (om_below a m) = (pk, pv)"
  using assms by (metis append_butlast_last_id surj_pair)

text \<open>The segment and its block after an update.\<close>

definition step_ok :: "contig_blocks \<Rightarrow> u64 \<Rightarrow> u64 \<Rightarrow> contig_blocks \<Rightarrow> u64 \<Rightarrow> u64 \<Rightarrow> bool" where
  "step_ok m a b m' c1 c2 \<longleftrightarrow>
     blocks_ok m' \<and> blk_bytes m' = blk_bytes m \<union> {a..b} \<and> (c1, c2) \<in> set m' \<and> c1 \<le> a \<and> b \<le> c2"

lemma contig_at_end_new:
  assumes "fits_between m a b []" and "om_below a m = m"
  shows "\<exists>m' c1 c2. contig_at_end m a b = Some (False, False, m', c1, c2) \<and> step_ok m a b m' c1 c2"
proof (cases "m = []")
  case True
  then show ?thesis using assms by (auto simp: contig_at_end_def step_ok_def fits_between_def)
next
  case False
  then obtain xs pk pv where x: "m = xs @ [(pk, pv)]" "last m = (pk, pv)"
    using below_snoc [of a m] assms(2) by auto
  note f = assms(1) [unfolded x(1)]
  have lt: "pv < a" "a \<le> b" "pk \<le> pv" using f by (auto simp: fits_between_def blocks_ok_append)
  then have nge: "\<not> pv \<ge> b" "pv \<noteq> a" by auto
  show ?thesis
  proof (cases "pv + 1 = a")
    case True
    note e = extend_below [OF f True]
    have "contig_at_end m a b = Some (False, False, xs @ [(pk, b)], pk, b)"
      using assms(2) x nge True e(2) by (simp add: contig_at_end_def)
    moreover have "step_ok m a b (xs @ [(pk, b)]) pk b"
      using new_block(1) [OF e(1,4)] e(3) lt x by (auto simp: step_ok_def)
    ultimately show ?thesis by blast
  next
    case no: False
    note n = new_block [OF assms(1), unfolded x(1), OF apart_below [OF f no]]
    have "contig_at_end m a b = Some (False, False, m @ [(a, b)], a, b)"
      using assms(2) x nge no n(2) by (simp add: contig_at_end_def)
    moreover have "step_ok m a b (m @ [(a, b)]) a b"
      using n(1) x by (auto simp: step_ok_def)
    ultimately show ?thesis by blast
  qed
qed

lemma contig_before_new:
  assumes "fits_between [] a b ((bk, bv) # ys)"
  shows "\<exists>m' c1 c2. contig_before ((bk, bv) # ys) a b (bk, bv) = (False, False, m', c1, c2)
    \<and> step_ok ((bk, bv) # ys) a b m' c1 c2"
proof -
  have lt: "b < bk" "bk \<le> bv" "a \<le> b" "a \<le> bv" "a < bk" and nle: "\<not> bk \<le> b" "bv > b" "b \<noteq> bk"
    using assms by (auto simp: fits_between_def)
  show ?thesis
  proof (cases "b + 1 = bk")
    case True
    note e = extend_above [OF assms True, simplified]
    have "contig_before ((bk, bv) # ys) a b (bk, bv) = (False, False, (a, bv) # ys, a, bv)"
      using nle True e(3) lt by (simp add: contig_before_def reaches_def)
    moreover have "step_ok ((bk, bv) # ys) a b ((a, bv) # ys) a bv"
      using e(1,4) lt nle by (auto simp: step_ok_def)
    ultimately show ?thesis by blast
  next
    case False
    note n = new_block [OF assms _ apart_above [OF assms False], simplified]
    have "contig_before ((bk, bv) # ys) a b (bk, bv) = (False, False, (a, b) # (bk, bv) # ys, a, b)"
      using nle False lt by (simp add: contig_before_def reaches_def)
    moreover have "step_ok ((bk, bv) # ys) a b ((a, b) # (bk, bv) # ys) a b"
      using n(1) by (auto simp: step_ok_def)
    ultimately show ?thesis by blast
  qed
qed

lemma contig_between_new:
  assumes "fits_between (xs @ [(pk, pv)]) a b ((bk, bv) # ys)"
  defines "m \<equiv> xs @ [(pk, pv)] @ (bk, bv) # ys"
  shows "\<exists>m' c1 c2. contig_between m a b (pk, pv) (bk, bv) = (False, False, m', c1, c2) \<and> step_ok m a b m' c1 c2"
proof -
  have lt: "pk \<le> pv" "pv < a" "a \<le> b" "b < bk" "bk \<le> bv"
    using assms(1) by (auto simp: fits_between_def blocks_ok_append)
  then have nge: "\<not> pv \<ge> b" "\<not> pv \<ge> a" "b \<noteq> bk" "b \<le> bv" "pk \<le> a" by auto
  show ?thesis
  proof (cases "pv + 1 = a")
    case p: True
    note e = extend_below [OF assms(1) p]
    show ?thesis
    proof (cases "b + 1 = bk")
      case True
      note f = extend_above [OF e(1) True e(4)]
      have "om_wf (xs @ (pk, pv) # (bk, bv) # ys)"
        using assms(1) by (auto simp: fits_between_def intro: blocks_ok_wf)
      then have "om_assign pk bv m = xs @ (pk, bv) # (bk, bv) # ys"
        using om_assign_mid [of xs pk pv "(bk, bv) # ys" bv] by (simp add: m_def)
      then have "contig_between m a b (pk, pv) (bk, bv) = (False, False, xs @ (pk, bv) # ys, pk, bv)"
        using nge p True f(3) by (simp add: contig_between_def reaches_def)
      moreover have "step_ok m a b (xs @ (pk, bv) # ys) pk bv"
        using f(1,4) e(3) nge by (auto simp: step_ok_def m_def)
      ultimately show ?thesis by blast
    next
      case False
      note n = new_block(1) [OF e(1,4) apart_above [OF e(1) False]]
      have "contig_between m a b (pk, pv) (bk, bv) = (False, False, xs @ (pk, b) # (bk, bv) # ys, pk, b)"
        using nge p False e(2) by (simp add: contig_between_def reaches_def m_def)
      moreover have "step_ok m a b (xs @ (pk, b) # (bk, bv) # ys) pk b"
        using n e(3) nge by (auto simp: step_ok_def m_def)
      ultimately show ?thesis by blast
    qed
  next
    case np: False
    note ap = apart_below [OF assms(1) np]
    show ?thesis
    proof (cases "b + 1 = bk")
      case True
      note f = extend_above [OF assms(1) True ap]
      have "contig_between m a b (pk, pv) (bk, bv) = (False, False, (xs @ [(pk, pv)]) @ (a, bv) # ys, a, bv)"
        using nge np True f(2) by (simp add: contig_between_def reaches_def m_def)
      moreover have "step_ok m a b ((xs @ [(pk, pv)]) @ (a, bv) # ys) a bv"
        using f(1,4) nge by (auto simp: step_ok_def m_def)
      ultimately show ?thesis by blast
    next
      case False
      note n = new_block [OF assms(1) ap apart_above [OF assms(1) False]]
      have "contig_between m a b (pk, pv) (bk, bv) = (False, False, (xs @ [(pk, pv)]) @ (a, b) # (bk, bv) # ys, a, b)"
        using nge np False n(2) by (simp add: contig_between_def reaches_def m_def)
      moreover have "step_ok m a b ((xs @ [(pk, pv)]) @ (a, b) # (bk, bv) # ys) a b"
        using n(1) by (auto simp: step_ok_def m_def)
      ultimately show ?thesis by blast
    qed
  qed
qed

lemma contig_step_new:
  assumes "blocks_ok m" and "a \<le> b" and "b \<noteq> -1" and "{a..b} \<inter> blk_bytes m = {}"
  shows "\<exists>m' c1 c2. contig_step m a b = Some (False, False, m', c1, c2) \<and> step_ok m a b m' c1 c2"
proof -
  note f = fits_between_position [OF assms]
  have m: "om_below a m @ om_from a m = m" by (rule om_split)
  show ?thesis
  proof (cases "om_from a m")
    case Nil
    then show ?thesis using contig_at_end_new [of m a b] f m by (simp add: contig_step_def)
  next
    case (Cons e ys)
    obtain bk bv where e: "e = (bk, bv)" by (cases e)
    have "b < bk" using f Cons e by (simp add: fits_between_def)
    then have ne: "bk \<noteq> a" using assms(2) by auto
    show ?thesis
    proof (cases "om_below a m = []")
      case True
      then have "m = (bk, bv) # ys" using m Cons e by simp
      then show ?thesis
        using contig_before_new [of a b bk bv ys] f True Cons e ne by (simp add: contig_step_def)
    next
      case False
      then obtain xs pk pv where x: "om_below a m = xs @ [(pk, pv)]" "last (om_below a m) = (pk, pv)"
        using below_snoc by blast
      have "m = xs @ [(pk, pv)] @ (bk, bv) # ys" using m Cons e x by simp
      then show ?thesis
        using contig_between_new [of xs pk pv a b bk bv ys] f x Cons e ne False by (simp add: contig_step_def)
    qed
  qed
qed

section \<open>Segments already received\<close>

lemma block_position:
  assumes "blocks_ok m" and "(k, v) \<in> set m" and "k < a" and "a \<le> v"
  shows "\<exists>xs. om_below a m = xs @ [(k, v)] \<and> (\<forall>(j, w) \<in> set (om_from a m). a < j)"
proof -
  obtain xs ys where m: "m = xs @ (k, v) # ys" using split_list [OF assms(2)] by blast
  have wf: "om_wf m" by (rule blocks_ok_wf [OF assms(1)])
  have ys: "a < j" if "(j, w) \<in> set ys" for j w
  proof -
    have "v + 1 < j" "v \<noteq> -1" using assms(1) that unfolding m blocks_ok_append by auto
    then show ?thesis using assms(4) succ_less [of v] by (meson order.strict_trans order.strict_trans1)
  qed
  have xs: "\<forall>e \<in> set xs. fst e < a" using wf assms(3) unfolding m om_wf_append by (auto intro: order.strict_trans)
  have y: "ys = [] \<or> \<not> fst (hd ys) < a" using ys [of "fst (hd ys)" "snd (hd ys)"] by (cases ys) auto
  have "om_below a m = xs @ [(k, v)]" "om_from a m = ys"
    using xs y assms(3) unfolding om_below_def om_from_def m
    by (cases ys; simp add: takeWhile_append2 dropWhile_append2)+
  then show ?thesis using ys by auto
qed

lemma contig_step_seen:
  assumes "blocks_ok m" and "a \<le> b" and "{a..b} \<subseteq> blk_bytes m"
  shows "contig_step m a b = Some (True, True, m, a, b)"
proof -
  obtain k v where kv: "(k, v) \<in> set m" "k \<le> a" "b \<le> v" using run_in_block [OF assms] by blast
  show ?thesis
  proof (cases "k = a")
    case True
    obtain xs ys where m: "m = xs @ (k, v) # ys" using split_list [OF kv(1)] by blast
    have "\<forall>e \<in> set xs. fst e < a" using blocks_ok_wf [OF assms(1)] True unfolding m om_wf_append by auto
    then have "om_from a m = (k, v) # ys" using True by (simp add: m om_from_def dropWhile_append2)
    then show ?thesis using True kv(3) by (simp add: contig_step_def)
  next
    case False
    then have "k < a" "a \<le> v" using kv assms(2) by auto
    then obtain xs where x: "om_below a m = xs @ [(k, v)]" and y: "\<forall>(j, w) \<in> set (om_from a m). a < j"
      using block_position [OF assms(1) kv(1)] by blast
    show ?thesis
    proof (cases "om_from a m")
      case Nil
      then show ?thesis using x kv by (simp add: contig_step_def contig_at_end_def)
    next
      case (Cons e ys)
      then have "fst e \<noteq> a" using y by (cases e) auto
      then show ?thesis using Cons x kv by (cases e) (simp add: contig_step_def contig_between_def)
    qed
  qed
qed

section \<open>The received prefix\<close>

lemma block_unique:
  assumes "blocks_ok m" and "(k, v) \<in> set m" and "(j, w) \<in> set m" and "k \<le> x" "x \<le> v" "j \<le> x" "x \<le> w"
  shows "k = j \<and> v = w"
proof -
  have sep: "\<not> (v1 + 1 < k2 \<and> v1 \<noteq> -1 \<and> x \<le> v1 \<and> k2 \<le> x)" for v1 k2 :: u64
    using succ_less [of v1] by (meson order.strict_trans order.strict_trans2 not_less)
  obtain xs ys where m: "m = xs @ (k, v) # ys" using split_list [OF assms(2)] by blast
  have "(j, w) \<notin> set xs"
    using assms sep [of w k] blocks_ok_entry [OF assms(1,3)] unfolding m blocks_ok_append by auto
  moreover have "(j, w) \<notin> set ys"
    using assms sep [of v j] blocks_ok_entry [OF assms(1,2)] unfolding m blocks_ok_append by auto
  ultimately show ?thesis using assms(3) m by auto
qed

lemma prefix_len_block:
  assumes "blocks_ok m" and "(0, v) \<in> set m"
  shows "prefix_len (blk_bytes m) (v + 1)"
proof -
  have v: "v \<noteq> -1" using blocks_ok_entry [OF assms] by simp
  have "x \<in> blk_bytes m" if "x < v + 1" for x
    using that v assms(2) by (auto simp: word_less_succ_iff intro: blk_bytesI)
  moreover have "v + 1 \<notin> blk_bytes m"
  proof
    assume top: "v + 1 \<in> blk_bytes m"
    have "x \<in> blk_bytes m" if "x \<le> v + 1" for x
    proof (cases "x = v + 1")
      case False
      then have "x \<le> v" using that v word_less_succ_iff [of v x] by (simp add: order.order_iff_strict)
      then show ?thesis using blk_bytesI [OF assms(2)] by simp
    qed (simp add: top)
    then have "{0..v + 1} \<subseteq> blk_bytes m" by auto
    then obtain j w where "(j, w) \<in> set m" "j \<le> 0" "v + 1 \<le> w"
      using run_in_block [OF assms(1), of 0 "v + 1"] by auto
    moreover from this have "w = v"
      using block_unique [OF assms(1,2), of j w 0] by auto
    ultimately show False using v by (simp add: succ_le_iff)
  qed
  ultimately show ?thesis by (simp add: prefix_len_def)
qed

lemma prefix_len_keep:
  assumes "step_ok m a b m' c1 c2" and "prefix_len (blk_bytes m) fc" and "c1 \<noteq> 0"
  shows "prefix_len (blk_bytes m') fc"
proof -
  have ok: "blocks_ok m'" and B: "blk_bytes m' = blk_bytes m \<union> {a..b}" and c: "(c1, c2) \<in> set m'" "c1 \<le> a" "b \<le> c2"
    using assms(1) by (simp_all add: step_ok_def)
  have below: "\<forall>x < fc. x \<in> blk_bytes m'" using assms(2) B by (simp add: prefix_len_def)
  have "fc \<notin> blk_bytes m'"
  proof
    assume fc: "fc \<in> blk_bytes m'"
    then have "fc \<in> {a..b}" using assms(2) B by (simp add: prefix_len_def)
    then have in_c: "c1 \<le> fc" "fc \<le> c2" using c by auto
    have "{0..fc} \<subseteq> blk_bytes m'" using below fc by (auto simp: order.order_iff_strict)
    then obtain j w where jw: "(j, w) \<in> set m'" "j \<le> 0" "fc \<le> w"
      using run_in_block [OF ok, of 0 fc] by auto
    then show False using block_unique [OF ok c(1) jw(1) in_c] assms(3) by auto
  qed
  then show ?thesis using below by (simp add: prefix_len_def)
qed

lemma check_red_contig_blocks_new:
  assumes "contig_inv m fc" and "a \<le> b" and "b \<noteq> -1" and "{a..b} \<inter> blk_bytes m = {}"
  shows "\<exists>m' fc'. check_red_contig_blocks m fc a b = Some (False, False, m', fc')
    \<and> contig_inv m' fc' \<and> blk_bytes m' = blk_bytes m \<union> {a..b}"
proof -
  obtain m' c1 c2 where s: "contig_step m a b = Some (False, False, m', c1, c2)" "step_ok m a b m' c1 c2"
    using contig_step_new [of m a b] assms by (auto simp: contig_inv_def)
  let ?fc = "if c1 = 0 then c2 + 1 else fc"
  have "prefix_len (blk_bytes m') ?fc"
    using prefix_len_block [of m' c2] prefix_len_keep [OF s(2)] s(2) assms(1)
    by (auto simp: step_ok_def contig_inv_def)
  then show ?thesis using s by (auto simp: check_red_contig_blocks_def step_ok_def contig_inv_def)
qed

lemma check_red_contig_blocks_seen:
  assumes "contig_inv m fc" and "a \<le> b" and "{a..b} \<subseteq> blk_bytes m"
  shows "check_red_contig_blocks m fc a b = Some (True, True, m, fc)"
  using contig_step_seen [of m a b] assms by (simp add: check_red_contig_blocks_def contig_inv_def)

text \<open>
  C18. The map of contiguous blocks refines the set of bytes received. For a segment that is wholly
  new or wholly received already, \<open>check_red_contig_blocks\<close> passes its assertions, reports a
  duplicate exactly in the second case, keeps the blocks maximal and apart, adds exactly the bytes of
  the segment to the set, and leaves in \<open>first_contiguous_bytes_\<close> the length of the received prefix.
\<close>
theorem contig_refines_union:
  assumes "contig_inv m fc" and "a \<le> b" and "b \<noteq> -1"
    and "{a..b} \<inter> blk_bytes m = {} \<or> {a..b} \<subseteq> blk_bytes m"
  shows "\<exists>m' fc'. check_red_contig_blocks m fc a b = Some ({a..b} \<subseteq> blk_bytes m, {a..b} \<subseteq> blk_bytes m, m', fc')
    \<and> contig_inv m' fc' \<and> blk_bytes m' = blk_bytes m \<union> {a..b}"
proof (cases "{a..b} \<subseteq> blk_bytes m")
  case True
  then show ?thesis using check_red_contig_blocks_seen [OF assms(1,2)] assms(1) by auto
next
  case False
  then show ?thesis using check_red_contig_blocks_new [OF assms(1-3)] assms(4) by auto
qed

theorem contig_refines_union_witness:
  "\<exists>m' fc'. check_red_contig_blocks [(0, 9), (20, 29)] 10 10 19 = Some (False, False, m', fc')
     \<and> blk_bytes m' = {0..29}"
proof -
  have B: "blk_bytes [(0, 9), (20, 29)] = {0..9} \<union> {20..29}" by simp
  have ok: "blocks_ok [(0, 9), (20, 29)]" by simp
  have inv: "contig_inv [(0, 9), (20, 29)] 10"
    using prefix_len_block [OF ok, of 9] ok by (simp add: contig_inv_def)
  have dis: "{10..19} \<inter> ({0..9} \<union> {20..29}) = ({} :: u64 set)"
  proof -
    have "\<not> (x \<le> 19 \<and> 20 \<le> x)" "\<not> (x \<le> 9 \<and> 10 \<le> x)" for x :: u64
      by (simp_all add: word_le_nat_alt)
    then show ?thesis by auto
  qed
  have "(10 :: u64) \<in> {10..19}" by simp
  then have nsub: "\<not> {10..19} \<subseteq> {0..9} \<union> {20..29 :: u64}" using dis by blast
  have "{0..9} \<union> {20..29} \<union> {10..19} = {0..29 :: u64}"
    by (auto simp: word_le_nat_alt)
  then show ?thesis
    using contig_refines_union [OF inv, of 10 19] dis nsub by (auto simp: B)
qed

section \<open>Segments that overlap in part\<close>

text \<open>
  A segment that starts where a received block starts and reaches beyond its end fails the
  assertion of \<open>check_red_contig_blocks\<close>: a peer that segments a block anew on retransmission, or sends
  such a segment on purpose, stops the node.
\<close>
theorem contig_overlap_aborts:
  assumes "blocks_ok m" and "(k, v) \<in> set m" and "v < b"
  shows "check_red_contig_blocks m fc k b = None"
proof -
  obtain xs ys where m: "m = xs @ (k, v) # ys" using split_list [OF assms(2)] by blast
  have "\<forall>e \<in> set xs. fst e < k" using blocks_ok_wf [OF assms(1)] unfolding m om_wf_append by auto
  then have "om_from k m = (k, v) # ys" by (simp add: m om_from_def dropWhile_append2)
  then show ?thesis using assms(3) by (simp add: check_red_contig_blocks_def contig_step_def)
qed

theorem contig_overlap_aborts_witness: "check_red_contig_blocks [(0, 9)] 10 0 14 = None"
  using contig_overlap_aborts [of "[(0, 9)]" 0 9 14 10] by simp

text \<open>
  A segment that starts inside the last block and reaches beyond its end is taken for a new one:
  neither overlap nor duplicate is reported, and the map is left with two blocks that share bytes.
\<close>
theorem contig_overlap_missed:
  assumes "blocks_ok (xs @ [(k, v)])" and "k < a" and "a < v" and "v < b"
  shows "\<exists>m' fc'. check_red_contig_blocks (xs @ [(k, v)]) fc a b = Some (False, False, m', fc')
    \<and> (k, v) \<in> set m' \<and> (a, b) \<in> set m' \<and> \<not> blocks_ok m'"
proof -
  let ?m = "xs @ [(k, v)]"
  have below: "\<forall>e \<in> set ?m. fst e < a"
    using blocks_ok_wf [OF assms(1)] assms(2) by (auto simp: om_wf_append intro: order.strict_trans)
  then have pos: "om_below a ?m = ?m" "om_from a ?m = []"
    by (auto simp: om_below_def om_from_def takeWhile_eq_all_conv)
  have "v \<noteq> -1" using assms(1) by (simp add: blocks_ok_append)
  then have "v + 1 \<noteq> a" using assms(3) succ_less [of v] by auto
  moreover have "\<not> v \<ge> b" "v \<noteq> a" using assms(3,4) by auto
  ultimately have s: "check_red_contig_blocks ?m fc a b = Some (False, False, om_assign a b ?m, if a = 0 then b + 1 else fc)"
    using pos by (simp add: check_red_contig_blocks_def contig_step_def contig_at_end_def)
  have "om_assign a b ?m = ?m @ [(a, b)]"
    using om_assign_append [of ?m a b "[]"] below by simp
  moreover have "\<not> blocks_ok (?m @ [(a, b)])"
  proof
    assume "blocks_ok (?m @ [(a, b)])"
    then have "v + 1 < a" by (simp add: blocks_ok_append)
    from order.strict_trans [OF succ_less [OF \<open>v \<noteq> -1\<close>] this] show False using assms(3) by simp
  qed
  ultimately show ?thesis using s by simp
qed

theorem contig_overlap_missed_witness:
  "\<exists>m' fc'. check_red_contig_blocks [(0, 9)] 10 5 14 = Some (False, False, m', fc') \<and> \<not> blocks_ok m'"
  using contig_overlap_missed [of "[]" 0 9 5 14 10] by auto

end
