(* ===== verification/Ltp_Session.thy ===== *)
theory Ltp_Session
  imports Ltp_Segment Ltp_Contig
begin

text \<open>
  \<open>LTPSession\<close> of \<open>src/servlib/ltp/LTPCommon.cc\<close>: the segments of one block, at the receiver (which
  reassembles) and at the sender (which keeps what has not been acknowledged). Sessions keep their
  data in memory; the disk files of large sessions are not modelled. The loop that trims overlapping
  segments may run forever, so it takes fuel; \<open>None\<close> is a failed assertion or fuel used up. The main
  result is reassembly: whatever the order of arrival and however often segments are repeated, the
  session reports itself full exactly when every byte has arrived and then holds the block.
\<close>

section \<open>State\<close>

type_synonym ds_map = "(u64, ltp_data_segment) omap"

record ltp_session =
  red_segments :: ds_map
  green_segments :: ds_map
  red_contig_blocks :: contig_blocks
  first_contiguous_bytes :: u64
  red_eob_received :: bool
  red_complete :: bool
  green_complete :: bool
  red_processed :: bool
  green_processed :: bool
  expected_red_bytes :: u64
  expected_green_bytes :: u64
  red_bytes_received :: u64
  total_red_segments :: u64
  report_segments :: "(u64, ltp_report_segment) omap"
  ds_offset_to_upperbounds :: "(u64, u64) omap"
  checkpoints :: "(u64, int) omap"
  sess_checkpoint_id :: u64
  report_serial_number :: u64
  sess_engine_id :: u64
  sess_session_id :: u64

text \<open>\<open>init\<close>; the two counters start at random 14-bit numbers, which are arguments.\<close>

definition session_init :: "u64 \<Rightarrow> u64 \<Rightarrow> u64 \<Rightarrow> u64 \<Rightarrow> ltp_session" where
  "session_init eng ses ckpt serial =
     \<lparr>red_segments = [], green_segments = [], red_contig_blocks = [], first_contiguous_bytes = 0,
      red_eob_received = False, red_complete = False, green_complete = False, red_processed = False,
      green_processed = False, expected_red_bytes = 0, expected_green_bytes = 0, red_bytes_received = 0,
      total_red_segments = 0, report_segments = [], ds_offset_to_upperbounds = [], checkpoints = [],
      sess_checkpoint_id = ckpt, report_serial_number = serial, sess_engine_id = eng, sess_session_id = ses\<rparr>"

definition is_endofblock :: "'a ltp_segment_scheme \<Rightarrow> bool" where
  "is_endofblock s \<longleftrightarrow> is_redendofblock s \<or> is_greenendofblock s"

section \<open>Counters and checkpoints\<close>

definition session_set_checkpoint_id :: "u64 \<Rightarrow> ltp_session \<Rightarrow> ltp_session" where
  "session_set_checkpoint_id c s = s\<lparr>sess_checkpoint_id := c\<rparr>"

definition get_next_checkpoint_id :: "ltp_session \<Rightarrow> u64 \<times> ltp_session" where
  "get_next_checkpoint_id s = (sess_checkpoint_id s + 1, s\<lparr>sess_checkpoint_id := sess_checkpoint_id s + 1\<rparr>)"

definition get_next_report_serial_number :: "ltp_session \<Rightarrow> u64 \<times> ltp_session" where
  "get_next_report_serial_number s =
     (report_serial_number s + 1, s\<lparr>report_serial_number := report_serial_number s + 1\<rparr>)"

definition add_checkpoint_seg :: "ltp_data_segment \<Rightarrow> ltp_session \<Rightarrow> ltp_session" where
  "add_checkpoint_seg ds s =
     s\<lparr>checkpoints := om_assign (checkpoint_id ds) (sint (stop_byte ds)) (checkpoints s)\<rparr>"

definition flag_checkpoint_as_claimed :: "u64 \<Rightarrow> ltp_session \<Rightarrow> ltp_session" where
  "flag_checkpoint_as_claimed c s = s\<lparr>checkpoints := om_assign c (-99) (checkpoints s)\<rparr>"

definition find_checkpoint_stop_byte :: "u64 \<Rightarrow> ltp_session \<Rightarrow> int" where
  "find_checkpoint_stop_byte c s = (case om_find (checkpoints s) c of None \<Rightarrow> -1 | Some b \<Rightarrow> b)"

definition first_redseg_offset :: "ltp_session \<Rightarrow> int" where
  "first_redseg_offset s = (case red_segments s of [] \<Rightarrow> -1 | (k, ds) # _ \<Rightarrow> sint (offset ds))"

definition rs_claimed_entire_session :: "ltp_session \<Rightarrow> ltp_session" where
  "rs_claimed_entire_session s = s\<lparr>checkpoints := [], red_segments := []\<rparr>"

definition remove_segments :: "ltp_session \<Rightarrow> ltp_session" where
  "remove_segments s = s\<lparr>checkpoints := [], red_segments := [], green_segments := [], report_segments := []\<rparr>"

text \<open>\<open>Set_EOB\<close> also marks the segment it is given.\<close>

definition set_eob :: "ltp_data_segment \<Rightarrow> ltp_session \<Rightarrow> ltp_session \<times> ltp_data_segment" where
  "set_eob sop s =
     (if is_red sop then (s\<lparr>expected_red_bytes := stop_byte sop + 1, red_complete := True\<rparr>, set_endofblock sop)
      else if is_green sop
      then (s\<lparr>green_complete := True, expected_green_bytes := stop_byte sop + 1\<rparr>, set_endofblock sop)
      else (s, sop))"

section \<open>Overlapping segments\<close>

text \<open>
  One pass of \<open>Check_Overlap\<close>: the entries it visits, from the one above the start byte down, and
  what it finds: nothing, a duplicate, a stored segment that the new one covers and that is to be
  erased, or the new segment with its start or its length adjusted.
\<close>

datatype overlap_status =
    LOOKUP_COMPLETE
  | DUPLICATE_SEGMENT
  | DELETED_SEGMENT ltp_data_segment
  | ADJUSTED_SEGMENT ltp_data_segment

definition overlap_visit :: "ds_map \<Rightarrow> u64 \<Rightarrow> ltp_data_segment list" where
  "overlap_visit segs start =
     (let upto = takeWhile (\<lambda>e. fst e \<le> start) segs; above = dropWhile (\<lambda>e. fst e \<le> start) segs
      in map snd ((case above of [] \<Rightarrow> [] | e # _ \<Rightarrow> [e]) @ rev upto))"

text \<open>\<open>memmove\<close> within the payload buffer: the bytes behind the moved ones stay as they are.\<close>

definition trim_left :: "ltp_data_segment \<Rightarrow> ltp_data_segment \<Rightarrow> ltp_data_segment" where
  "trim_left this ds =
     (let adjust = stop_byte this - offset ds; p = payload ds; n = unat adjust
      in ds\<lparr>payload := drop n p @ drop (length p - n) p,
            offset := offset ds + adjust, payload_length := payload_length ds - adjust,
            start_byte := offset ds + adjust,
            stop_byte := offset ds + adjust + (payload_length ds - adjust) - 1\<rparr>)"

definition trim_right :: "ltp_data_segment \<Rightarrow> ltp_data_segment \<Rightarrow> ltp_data_segment" where
  "trim_right this ds =
     (let adjust = (start_byte this - 1) - start_byte ds
      in ds\<lparr>payload_length := payload_length ds - adjust,
            stop_byte := start_byte ds + (payload_length ds - adjust - 1)\<rparr>)"

fun overlap_walk :: "ltp_data_segment list \<Rightarrow> ltp_data_segment \<Rightarrow> overlap_status" where
  "overlap_walk [] ds = LOOKUP_COMPLETE"
| "overlap_walk (this # rest) ds =
     (if start_byte ds > stop_byte this then LOOKUP_COMPLETE
      else
        let left_overlap = (start_byte ds \<le> stop_byte this \<and> start_byte ds \<ge> start_byte this);
            right_overlap = (stop_byte ds \<le> stop_byte this \<and> stop_byte ds \<ge> start_byte this)
        in if left_overlap \<and> right_overlap then DUPLICATE_SEGMENT
           else if start_byte ds \<le> start_byte this \<and> stop_byte ds \<ge> stop_byte this then DELETED_SEGMENT this
           else if left_overlap then ADJUSTED_SEGMENT (trim_left this ds)
           else if right_overlap then ADJUSTED_SEGMENT (trim_right this ds)
           else overlap_walk rest ds)"

definition check_overlap :: "ds_map \<Rightarrow> ltp_data_segment \<Rightarrow> overlap_status" where
  "check_overlap segs ds = overlap_walk (overlap_visit segs (start_byte ds)) ds"

text \<open>
  The loop of \<open>CheckAndTrim\<close> over one of the two maps: whether to insert, the map, the counter of
  red bytes and the segment.
\<close>

fun trim_loop :: "nat \<Rightarrow> ds_map \<Rightarrow> u64 \<Rightarrow> ltp_data_segment \<Rightarrow> (bool \<times> ds_map \<times> u64 \<times> ltp_data_segment) option" where
  "trim_loop 0 segs bytes ds = None"
| "trim_loop (Suc fuel) segs bytes ds =
     (case check_overlap segs ds of
        LOOKUP_COMPLETE \<Rightarrow> Some (True, segs, bytes, ds)
      | DUPLICATE_SEGMENT \<Rightarrow> Some (False, segs, bytes, ds)
      | DELETED_SEGMENT this \<Rightarrow>
          trim_loop fuel (om_erase (start_byte this) segs) (bytes - payload_length this) ds
      | ADJUSTED_SEGMENT ds' \<Rightarrow> trim_loop fuel segs bytes ds')"

definition check_and_trim :: "nat \<Rightarrow> ltp_session \<Rightarrow> ltp_data_segment \<Rightarrow> (bool \<times> ltp_session \<times> ltp_data_segment) option" where
  "check_and_trim fuel s ds =
     (if red_green_none ds = RED_SEGMENT then
        if om_find (red_segments s) (start_byte ds) \<noteq> None then Some (False, s, ds)
        else map_option (\<lambda>(ok, segs, bytes, ds'). (ok, s\<lparr>red_segments := segs, red_bytes_received := bytes\<rparr>, ds'))
          (trim_loop fuel (red_segments s) (red_bytes_received s) ds)
      else if red_green_none ds = GREEN_SEGMENT then
        if om_find (green_segments s) (start_byte ds) \<noteq> None then Some (False, s, ds)
        else map_option (\<lambda>(ok, segs, bytes, ds'). (ok, s\<lparr>green_segments := segs, red_bytes_received := bytes\<rparr>, ds'))
          (trim_loop fuel (green_segments s) (red_bytes_received s) ds)
      else Some (False, s, ds))"

section \<open>Adding segments\<close>

definition store_red :: "ltp_data_segment \<Rightarrow> ltp_session \<Rightarrow> ltp_session" where
  "store_red ds s =
     s\<lparr>expected_red_bytes := (if expected_red_bytes s < stop_byte ds + 1 then stop_byte ds + 1 else expected_red_bytes s),
       red_complete := (red_complete s \<or> is_endofblock ds),
       total_red_segments := total_red_segments s + 1,
       red_bytes_received := red_bytes_received s + payload_length ds,
       red_segments := om_assign (start_byte ds) ds (red_segments s)\<rparr>"

definition store_green :: "ltp_data_segment \<Rightarrow> ltp_session \<Rightarrow> ltp_session" where
  "store_green ds s =
     s\<lparr>expected_green_bytes := (if expected_green_bytes s < stop_byte ds + 1 then stop_byte ds + 1 else expected_green_bytes s),
       green_segments := om_assign (start_byte ds) ds (green_segments s)\<rparr>"

definition add_segment_incoming ::
    "nat \<Rightarrow> ltp_data_segment \<Rightarrow> bool \<Rightarrow> ltp_session \<Rightarrow> (int \<times> ltp_session) option" where
  "add_segment_incoming fuel ds check_for_overlap s =
     (if red_processed s then Some (-1, s)
      else
        let s0 = (if is_redendofblock ds then s\<lparr>red_eob_received := True\<rparr> else s) in
        if red_green_none ds = RED_SEGMENT then
          (case (if check_for_overlap
                 then check_red_contig_blocks (red_contig_blocks s0) (first_contiguous_bytes s0) (start_byte ds) (stop_byte ds)
                 else Some (False, False, red_contig_blocks s0, first_contiguous_bytes s0)) of
             None \<Rightarrow> None
           | Some (overlap, duplicate, m, fc) \<Rightarrow>
               let s1 = s0\<lparr>red_contig_blocks := m, first_contiguous_bytes := fc\<rparr> in
               if duplicate then Some (-1, s1)
               else (case (if overlap then check_and_trim fuel s1 ds else Some (True, s1, ds)) of
                       None \<Rightarrow> None
                     | Some (ok, s2, ds2) \<Rightarrow> Some (if ok then (0, store_red ds2 s2) else (-1, s2))))
        else if red_green_none ds = GREEN_SEGMENT then
          map_option (\<lambda>(ok, s1, ds1). if ok then (0, store_green ds1 s1) else (-1, s1)) (check_and_trim fuel s0 ds)
        else Some (-1, s0))"

definition add_segment_outgoing :: "ltp_data_segment \<Rightarrow> ltp_session \<Rightarrow> int \<times> ltp_session" where
  "add_segment_outgoing ds s =
     (let s0 = (if is_redendofblock ds then s\<lparr>red_eob_received := True\<rparr> else s) in
      if red_green_none ds = RED_SEGMENT then (0, store_red ds s0)
      else if red_green_none ds = GREEN_SEGMENT then (0, store_green ds s0)
      else (-1, s0))"

section \<open>Completion\<close>

definition is_red_full :: "ltp_session \<Rightarrow> u64" where
  "is_red_full s =
     (if red_eob_received s \<and> red_complete s \<and> \<not> red_processed s \<and> red_bytes_received s = expected_red_bytes s
      then red_bytes_received s else 0)"

definition is_green_full :: "ltp_session \<Rightarrow> u64" where
  "is_green_full s =
     (if \<not> green_complete s \<or> green_processed s then 0
      else
        let total_bytes = sum_list (map (payload_length \<circ> snd) (green_segments s)) in
        if total_bytes = expected_green_bytes s then total_bytes else 0)"

definition get_all_red_data :: "ltp_session \<Rightarrow> (ds_map \<times> ltp_session) option" where
  "get_all_red_data s = (if is_red_full s > 0 then Some (red_segments s, s\<lparr>red_processed := True\<rparr>) else None)"

definition get_all_green_data :: "ltp_session \<Rightarrow> ds_map \<times> ltp_session" where
  "get_all_green_data s = (green_segments s, s\<lparr>green_processed := True\<rparr>)"

section \<open>Claims\<close>

text \<open>
  \<open>RemoveClaimedSegments\<close>: the walk over the red segments from the entry before \<open>lower_bound\<close> on.
  The result of one entry: it stays, it is dropped, or it stays and is to be sent again.
\<close>

datatype claim_action = Keep | Drop | Claimed | Resend

definition claim_entry :: "u64 \<Rightarrow> u64 \<Rightarrow> u64 \<Rightarrow> u64 \<Rightarrow> ltp_data_segment \<Rightarrow> claim_action option" where
  "claim_entry ckpt lower claim_offset upper ds =
     (if is_deleted ds then Some Drop
      else if stop_byte ds < lower then Some Keep
      else if offset ds \<ge> upper then None
      else if stop_byte ds < claim_offset then
        Some (if is_checkpoint ds \<and> checkpoint_id ds \<noteq> ckpt then Keep else Resend)
      else if offset ds \<ge> claim_offset \<and> stop_byte ds < upper then
        Some (if is_checkpoint ds \<and> checkpoint_id ds \<noteq> ckpt then Keep else Claimed)
      else Some Resend)"

fun claim_walk :: "u64 \<Rightarrow> u64 \<Rightarrow> u64 \<Rightarrow> u64 \<Rightarrow> ds_map \<Rightarrow> ds_map \<Rightarrow> nat \<times> ds_map \<times> ds_map" where
  "claim_walk ckpt lower claim_offset upper [] retransmit = (0, [], retransmit)"
| "claim_walk ckpt lower claim_offset upper ((k, ds) # rest) retransmit =
     (case claim_entry ckpt lower claim_offset upper ds of
        None \<Rightarrow> (0, (k, ds) # rest, retransmit)
      | Some act \<Rightarrow>
          let (n, rest', rt) = claim_walk ckpt lower claim_offset upper rest
                (if act = Resend then om_assign (start_byte ds) ds retransmit else retransmit)
          in (if act = Claimed then Suc n else n,
              if act = Drop \<or> act = Claimed then rest' else (k, ds) # rest', rt))"

definition remove_claimed_segments :: "u64 \<Rightarrow> u64 \<Rightarrow> u64 \<Rightarrow> u64 \<Rightarrow> ds_map \<Rightarrow> ltp_session \<Rightarrow> nat \<times> ds_map \<times> ltp_session" where
  "remove_claimed_segments ckpt lower claim_offset upper retransmit s =
     (let below = om_below lower (red_segments s); from = om_from lower (red_segments s);
          skipped = butlast below;
          (n, segs, rt) = claim_walk ckpt lower claim_offset upper
             ((if below = [] then [] else [last below]) @ from) retransmit
      in (n, rt, s\<lparr>red_segments := skipped @ segs\<rparr>))"

section \<open>Tilings\<close>

text \<open>Chunks of a block at increasing positions that do not overlap.\<close>

fun fitting :: "nat \<Rightarrow> (nat \<times> bytes) list \<Rightarrow> bytes \<Rightarrow> bool" where
  "fitting pos [] blk \<longleftrightarrow> pos \<le> length blk"
| "fitting pos ((k, p) # r) blk \<longleftrightarrow>
     pos \<le> k \<and> k + length p \<le> length blk \<and> p = take (length p) (drop k blk) \<and> fitting (k + length p) r blk"

definition covered :: "(nat \<times> bytes) list \<Rightarrow> nat set" where
  "covered l = (\<Union>(k, p) \<in> set l. {k..<k + length p})"

abbreviation chunk_sum :: "(nat \<times> bytes) list \<Rightarrow> nat" where
  "chunk_sum l \<equiv> sum_list (map (\<lambda>e. length (snd e)) l)"

lemma covered_simps [simp]: "covered [] = {}" "covered ((k, p) # r) = {k..<k + length p} \<union> covered r"
  by (auto simp: covered_def)

lemma fitting_sum: "fitting pos l blk \<Longrightarrow> pos + chunk_sum l \<le> length blk"
  by (induction pos l blk rule: fitting.induct) auto

lemma fitting_above: "fitting pos l blk \<Longrightarrow> x \<in> covered l \<Longrightarrow> pos \<le> x \<and> x < length blk"
  by (induction pos l blk rule: fitting.induct) auto

lemma fitting_concat:
  "fitting pos l blk \<Longrightarrow> pos + chunk_sum l = length blk \<Longrightarrow> concat (map snd l) = drop pos blk"
proof (induction pos l blk rule: fitting.induct)
  case (2 pos k p r blk)
  have "k + length p + chunk_sum r \<le> length blk" using fitting_sum [of "k + length p" r blk] 2(2) by simp
  then have k: "pos = k" using 2(2,3) by simp
  have "concat (map snd r) = drop (k + length p) blk" using 2 k by simp
  moreover have "p = take (length p) (drop k blk)" using 2(2) by simp
  ultimately have "concat (map snd ((k, p) # r)) = take (length p) (drop k blk) @ drop (length p) (drop k blk)"
    by (simp add: add.commute)
  then show ?case using k by (simp only: append_take_drop_id)
qed simp

lemma fitting_cover:
  "fitting pos l blk \<Longrightarrow> {pos..<length blk} \<subseteq> covered l \<Longrightarrow> pos + chunk_sum l = length blk"
proof (induction pos l blk rule: fitting.induct)
  case (2 pos k p r blk)
  have above: "x \<in> covered r \<Longrightarrow> k + length p \<le> x" for x using fitting_above [of "k + length p" r blk] 2(2) by simp
  have k: "k = pos"
  proof (rule ccontr)
    assume "k \<noteq> pos"
    then have lt: "pos < k" "pos < length blk" using 2(2) by auto
    then have "pos \<in> covered ((k, p) # r)" using 2(3) by auto
    then show False using above [of pos] lt by auto
  qed
  have "{k + length p..<length blk} \<subseteq> covered r"
  proof
    fix x assume x: "x \<in> {k + length p..<length blk}"
    then have "x \<in> {pos..<length blk}" using k by auto
    then have "x \<in> covered ((k, p) # r)" using 2(3) by blast
    then show "x \<in> covered r" using x by auto
  qed
  then show ?case using 2 k by simp
qed auto

lemma fitting_full:
  "fitting pos l blk \<Longrightarrow> pos + chunk_sum l = length blk \<Longrightarrow> covered l = {pos..<length blk}"
proof (induction pos l blk rule: fitting.induct)
  case (2 pos k p r blk)
  have "k + length p + chunk_sum r \<le> length blk" using fitting_sum [of "k + length p" r blk] 2(2) by simp
  then have "pos = k" using 2(2,3) by simp
  then show ?case using 2 by auto
qed simp

section \<open>Segments of a block\<close>

definition seg_range :: "ltp_data_segment \<Rightarrow> u64 set" where
  "seg_range d = {start_byte d..stop_byte d}"

text \<open>A red segment as the sender of \<open>blk\<close> cuts it.\<close>

definition piece :: "bytes \<Rightarrow> ltp_data_segment \<Rightarrow> bool" where
  "piece blk d \<longleftrightarrow> length blk < 2 ^ 63 \<and> red_green_none d = RED_SEGMENT \<and> \<not> is_greenendofblock d \<and> payload d \<noteq> []
     \<and> unat (start_byte d) + length (payload d) \<le> length blk
     \<and> payload d = take (length (payload d)) (drop (unat (start_byte d)) blk)
     \<and> payload_length d = of_nat (length (payload d)) \<and> stop_byte d = start_byte d + payload_length d - 1
     \<and> (is_redendofblock d \<longleftrightarrow> unat (start_byte d) + length (payload d) = length blk)"

lemma piece_facts:
  assumes "piece blk d"
  shows "unat (payload_length d) = length (payload d)"
    and "unat (stop_byte d) + 1 = unat (start_byte d) + length (payload d)"
    and "unat (stop_byte d + 1) = unat (start_byte d) + length (payload d)"
    and "start_byte d \<le> stop_byte d" and "stop_byte d \<noteq> -1"
    and "x \<in> seg_range d \<longleftrightarrow> unat (start_byte d) \<le> unat x \<and> unat x < unat (start_byte d) + length (payload d)"
proof -
  let ?a = "start_byte d" and ?n = "length (payload d)"
  have n: "0 < ?n" "unat ?a + ?n < 2 ^ 63" using assms by (auto simp: piece_def)
  show pl: "unat (payload_length d) = ?n"
    using assms n by (simp add: piece_def unsigned_of_nat take_bit_nat_eq_self)
  have sum: "unat (?a + payload_length d) = unat ?a + ?n" using n pl by (simp add: unat_word_ariths)
  then have nz: "?a + payload_length d \<noteq> 0" using n by (metis add_gr_0 less_irrefl unat_0)
  have stop: "stop_byte d = ?a + payload_length d - 1" using assms by (simp add: piece_def)
  show s1: "unat (stop_byte d) + 1 = unat ?a + ?n" using unat_pred [OF nz] sum n stop by simp
  show "unat (stop_byte d + 1) = unat ?a + ?n" using stop sum by simp
  show "?a \<le> stop_byte d" using s1 n(1) unfolding word_le_nat_alt by linarith
  show "stop_byte d \<noteq> -1" using stop nz by auto
  show "x \<in> seg_range d \<longleftrightarrow> unat ?a \<le> unat x \<and> unat x < unat ?a + ?n"
    using s1 by (auto simp: seg_range_def word_le_nat_alt)
qed

definition seg_view :: "ds_map \<Rightarrow> (nat \<times> bytes) list" where
  "seg_view segs = map (\<lambda>(k, d). (unat k, payload d)) segs"

definition seg_bytes :: "ds_map \<Rightarrow> u64 set" where
  "seg_bytes segs = (\<Union>(k, d) \<in> set segs. seg_range d)"

text \<open>Stored pieces under their start bytes, no two of which share a byte.\<close>

definition pieces_ok :: "bytes \<Rightarrow> ds_map \<Rightarrow> bool" where
  "pieces_ok blk segs \<longleftrightarrow> om_wf segs \<and> (\<forall>k d. (k, d) \<in> set segs \<longrightarrow> k = start_byte d \<and> piece blk d)
     \<and> (\<forall>k d j e. (k, d) \<in> set segs \<longrightarrow> (j, e) \<in> set segs \<longrightarrow> k \<noteq> j \<longrightarrow> seg_range d \<inter> seg_range e = {})"

lemma pieces_okD:
  assumes "pieces_ok blk m"
  shows "om_wf m" and "(k, d) \<in> set m \<Longrightarrow> k = start_byte d" and "(k, d) \<in> set m \<Longrightarrow> piece blk d"
    and "(k, d) \<in> set m \<Longrightarrow> (j, e) \<in> set m \<Longrightarrow> k \<noteq> j \<Longrightarrow> seg_range d \<inter> seg_range e = {}"
  using assms unfolding pieces_ok_def by blast+

lemma seg_view_simps [simp]:
  "seg_view [] = []" "seg_view ((k, d) # m) = (unat k, payload d) # seg_view m"
  by (simp_all add: seg_view_def)

lemma pieces_ok_Cons: "pieces_ok blk ((k, d) # m) \<Longrightarrow> pieces_ok blk m"
  unfolding pieces_ok_def by (auto 4 2)

lemma pieces_next:
  assumes "pieces_ok blk ((k, d) # m)" and "(j, e) \<in> set m"
  shows "unat k + length (payload d) \<le> unat j"
proof -
  have mem: "(k, d) \<in> set ((k, d) # m)" "(j, e) \<in> set ((k, d) # m)" using assms(2) by simp_all
  note D = pieces_okD [OF assms(1)]
  have kj: "k < j" using D(1) assms(2) by force
  note pd = D(3) [OF mem(1)] and pe = D(3) [OF mem(2)] and kd = D(2) [OF mem(1)] and je = D(2) [OF mem(2)]
  have "seg_range d \<inter> seg_range e = {}" using D(4) [OF mem] kj by simp
  moreover have "j \<in> seg_range e" using piece_facts(4) [OF pe] je by (simp add: seg_range_def)
  ultimately have "j \<notin> seg_range d" by auto
  then have "\<not> (unat (start_byte d) \<le> unat j \<and> unat j < unat (start_byte d) + length (payload d))"
    using piece_facts(6) [OF pd, of j] by simp
  then show ?thesis using kj unfolding word_less_nat_alt kd by linarith
qed

lemma pieces_fitting:
  assumes "pieces_ok blk m" and "\<forall>k d. (k, d) \<in> set m \<longrightarrow> pos \<le> unat k" and "pos \<le> length blk"
  shows "fitting pos (seg_view m) blk"
  using assms
proof (induction m arbitrary: pos)
  case (Cons e m)
  obtain k d where e: "e = (k, d)" by (cases e)
  have "piece blk d" "k = start_byte d" using pieces_okD(2,3) [OF Cons.prems(1)] e by auto
  then have p: "unat k + length (payload d) \<le> length blk" "payload d = take (length (payload d)) (drop (unat k) blk)"
    by (simp_all add: piece_def)
  have "fitting (unat k + length (payload d)) (seg_view m) blk"
  proof (rule Cons.IH)
    show "pieces_ok blk m" using Cons.prems(1) e pieces_ok_Cons by blast
    show "\<forall>j d'. (j, d') \<in> set m \<longrightarrow> unat k + length (payload d) \<le> unat j"
      using pieces_next [of blk k d m] Cons.prems(1) e by blast
  qed (rule p(1))
  moreover have "pos \<le> unat k" using Cons.prems(2) e by simp
  ultimately show ?case using e p by (simp del: take_drop)
qed simp

lemma pieces_fitting0: "pieces_ok blk m \<Longrightarrow> fitting 0 (seg_view m) blk"
  by (rule pieces_fitting) auto

lemma covered_pieces:
  assumes "pieces_ok blk m"
  shows "unat x \<in> covered (seg_view m) \<longleftrightarrow> x \<in> seg_bytes m"
proof -
  have "unat x \<in> covered (seg_view m) \<longleftrightarrow> (\<exists>k d. (k, d) \<in> set m \<and> unat k \<le> unat x \<and> unat x < unat k + length (payload d))"
    by (force simp: covered_def seg_view_def)
  also have "\<dots> \<longleftrightarrow> (\<exists>k d. (k, d) \<in> set m \<and> x \<in> seg_range d)"
    using assms piece_facts(6) unfolding pieces_ok_def by metis
  finally show ?thesis by (force simp: seg_bytes_def)
qed

text \<open>The bytes of a block, and the three ways to say that all have arrived.\<close>

definition all_bytes :: "bytes \<Rightarrow> u64 set" where
  "all_bytes blk = {x. unat x < length blk}"

lemma pieces_full:
  assumes "pieces_ok blk m" and "length blk < 2 ^ 63"
  shows "chunk_sum (seg_view m) = length blk \<longleftrightarrow> seg_bytes m = all_bytes blk"
proof
  note f = pieces_fitting0 [OF assms(1)]
  assume "chunk_sum (seg_view m) = length blk"
  then have "covered (seg_view m) = {0..<length blk}" using fitting_full [OF f] by simp
  then show "seg_bytes m = all_bytes blk"
    using covered_pieces [OF assms(1)] by (auto simp: all_bytes_def)
next
  note f = pieces_fitting0 [OF assms(1)]
  assume all: "seg_bytes m = all_bytes blk"
  have "{0..<length blk} \<subseteq> covered (seg_view m)"
  proof
    fix n assume "n \<in> {0..<length blk}"
    then have n: "n < length blk" by simp
    then have u: "unat (of_nat n :: u64) = n" using assms(2) by (simp add: unsigned_of_nat take_bit_nat_eq_self)
    then have "(of_nat n :: u64) \<in> seg_bytes m" using all n by (simp add: all_bytes_def)
    then show "n \<in> covered (seg_view m)" using covered_pieces [OF assms(1), of "of_nat n"] u by simp
  qed
  then show "chunk_sum (seg_view m) = length blk" using fitting_cover [OF f] by simp
qed

lemma pieces_concat:
  assumes "pieces_ok blk m" and "length blk < 2 ^ 63" and "seg_bytes m = all_bytes blk"
  shows "concat (map (payload \<circ> snd) m) = blk"
proof -
  have "map snd (seg_view m) = map (payload \<circ> snd) m" by (auto simp: seg_view_def)
  then show ?thesis
    using fitting_concat [OF pieces_fitting0 [OF assms(1)]] pieces_full [OF assms(1,2)] assms(3) by simp
qed

section \<open>Reassembly\<close>

definition reassembly_inv :: "bytes \<Rightarrow> ltp_session \<Rightarrow> bool" where
  "reassembly_inv blk s \<longleftrightarrow>
     contig_inv (red_contig_blocks s) (first_contiguous_bytes s)
     \<and> pieces_ok blk (red_segments s) \<and> blk_bytes (red_contig_blocks s) = seg_bytes (red_segments s)
     \<and> unat (red_bytes_received s) = chunk_sum (seg_view (red_segments s))
     \<and> (\<forall>k d. (k, d) \<in> set (red_segments s) \<longrightarrow> unat (stop_byte d) + 1 \<le> unat (expected_red_bytes s))
     \<and> unat (expected_red_bytes s) \<le> length blk
     \<and> (red_eob_received s \<longleftrightarrow> (\<exists>k d. (k, d) \<in> set (red_segments s) \<and> is_redendofblock d))
     \<and> (red_complete s \<longleftrightarrow> red_eob_received s) \<and> \<not> red_processed s"

lemma reassembly_invD:
  assumes "reassembly_inv blk s"
  shows "contig_inv (red_contig_blocks s) (first_contiguous_bytes s)" and "pieces_ok blk (red_segments s)"
    and "blk_bytes (red_contig_blocks s) = seg_bytes (red_segments s)"
    and "unat (red_bytes_received s) = chunk_sum (seg_view (red_segments s))"
    and "(k, d) \<in> set (red_segments s) \<Longrightarrow> unat (stop_byte d) + 1 \<le> unat (expected_red_bytes s)"
    and "unat (expected_red_bytes s) \<le> length blk"
    and "red_eob_received s \<longleftrightarrow> (\<exists>k d. (k, d) \<in> set (red_segments s) \<and> is_redendofblock d)"
    and "red_complete s \<longleftrightarrow> red_eob_received s" and "\<not> red_processed s"
  using assms unfolding reassembly_inv_def by blast+

lemma reassembly_init: "reassembly_inv blk (session_init eng ses ckpt serial)"
  by (simp add: reassembly_inv_def session_init_def contig_inv_def prefix_len_def pieces_ok_def seg_bytes_def)

lemma seg_bytesI: "(k, d) \<in> set m \<Longrightarrow> x \<in> seg_range d \<Longrightarrow> x \<in> seg_bytes m"
  unfolding seg_bytes_def by force

lemma seg_bytesE:
  assumes "x \<in> seg_bytes m" obtains k d where "(k, d) \<in> set m" "x \<in> seg_range d"
  using assms unfolding seg_bytes_def by force

lemma piece_first: "piece blk d \<Longrightarrow> start_byte d \<in> seg_range d"
  using piece_facts(4) [of blk d] by (simp add: seg_range_def)

lemma piece_last: "piece blk d \<Longrightarrow> stop_byte d \<in> seg_range d"
  using piece_facts(4) [of blk d] by (simp add: seg_range_def)

text \<open>A new piece is stored.\<close>

lemma fresh_key:
  assumes "pieces_ok blk m" and "piece blk d" and "seg_range d \<inter> seg_bytes m = {}"
  shows "start_byte d \<notin> fst ` set m"
proof
  assume "start_byte d \<in> fst ` set m"
  then obtain e where e: "(start_byte d, e) \<in> set m" by force
  then have "start_byte d \<in> seg_range e"
    using pieces_okD(2,3) [OF assms(1) e] piece_first by metis
  then show False using assms(3) seg_bytesI [OF e] piece_first [OF assms(2)] by blast
qed

lemma pieces_ok_store:
  assumes "pieces_ok blk m" and "piece blk d" and "seg_range d \<inter> seg_bytes m = {}"
  defines "m' \<equiv> om_assign (start_byte d) d m"
  shows "pieces_ok blk m'" and "set m' = insert (start_byte d, d) (set m)"
    and "seg_bytes m' = seg_bytes m \<union> seg_range d"
    and "chunk_sum (seg_view m') = chunk_sum (seg_view m) + length (payload d)"
proof -
  note fk = fresh_key [OF assms(1-3)]
  show st: "set m' = insert (start_byte d, d) (set m)" using om_set_assign [OF fk] by (simp add: m'_def)
  show "seg_bytes m' = seg_bytes m \<union> seg_range d" by (auto simp: seg_bytes_def st)
  obtain xs ys where "m = xs @ ys" "m' = xs @ (start_byte d, d) # ys" using om_assign_fresh [OF fk] m'_def by blast
  then show "chunk_sum (seg_view m') = chunk_sum (seg_view m) + length (payload d)" by (simp add: seg_view_def)
  have "om_wf m'" unfolding m'_def by (rule om_wf_assign [OF pieces_okD(1) [OF assms(1)]])
  moreover have "k = start_byte e \<and> piece blk e" if "(k, e) \<in> set m'" for k e
    using that assms(2) pieces_okD(2,3) [OF assms(1), of k e] unfolding st by auto
  moreover have "seg_range e \<inter> seg_range f = {}" if mem: "(k, e) \<in> set m'" "(j, f) \<in> set m'" "k \<noteq> j" for k e j f
  proof -
    have new: "seg_range d \<inter> seg_range g = {}" if "(i, g) \<in> set m" for i g
      using assms(3) seg_bytesI [OF that] by blast
    consider "(k, e) \<in> set m" "(j, f) \<in> set m" | "e = d" "(j, f) \<in> set m" | "f = d" "(k, e) \<in> set m"
      using mem unfolding st by auto
    then show ?thesis using pieces_okD(4) [OF assms(1)] mem(3) new by cases blast+
  qed
  ultimately show "pieces_ok blk m'" unfolding pieces_ok_def by blast
qed

lemma eob_iff: "piece blk d \<Longrightarrow> is_endofblock d \<longleftrightarrow> is_redendofblock d"
  by (simp add: piece_def is_endofblock_def)

lemma add_new_piece:
  assumes "reassembly_inv blk s" and "piece blk d" and "seg_range d \<inter> seg_bytes (red_segments s) = {}"
  shows "\<exists>s'. add_segment_incoming fuel d True s = Some (0, s') \<and> reassembly_inv blk s'
    \<and> seg_bytes (red_segments s') = seg_bytes (red_segments s) \<union> seg_range d
    \<and> red_segments s' = om_assign (start_byte d) d (red_segments s)"
proof -
  note I = reassembly_invD [OF assms(1)]
  note P = pieces_ok_store [OF I(2) assms(2,3)]
  note pf = piece_facts [OF assms(2)]
  have dis: "{start_byte d..stop_byte d} \<inter> blk_bytes (red_contig_blocks s) = {}"
    using assms(3) I(3) by (simp add: seg_range_def)
  obtain m fc where c: "check_red_contig_blocks (red_contig_blocks s) (first_contiguous_bytes s) (start_byte d) (stop_byte d)
      = Some (False, False, m, fc)" "contig_inv m fc" "blk_bytes m = blk_bytes (red_contig_blocks s) \<union> seg_range d"
    using check_red_contig_blocks_new [OF I(1) pf(4,5) dis] by (auto simp: seg_range_def)
  define s1 where "s1 = (if is_redendofblock d then s\<lparr>red_eob_received := True\<rparr> else s)\<lparr>red_contig_blocks := m, first_contiguous_bytes := fc\<rparr>"
  have red: "red_green_none d = RED_SEGMENT" using assms(2) by (simp add: piece_def)
  have add: "add_segment_incoming fuel d True s = Some (0, store_red d s1)"
    using I(9) red c(1) by (simp add: add_segment_incoming_def s1_def Let_def)
  let ?s = "store_red d s1"
  have segs: "red_segments ?s = om_assign (start_byte d) d (red_segments s)" by (simp add: store_red_def s1_def)
  have N: "unat (start_byte d) + length (payload d) \<le> length blk" "length blk < 2 ^ 63" using assms(2) by (auto simp: piece_def)
  have "chunk_sum (seg_view (red_segments ?s)) \<le> length blk"
    using fitting_sum [OF pieces_fitting0 [OF P(1)]] segs by simp
  then have "unat (red_bytes_received s) + length (payload d) < 2 ^ 64" using I(4) P(4) segs N by simp
  then have bytes: "unat (red_bytes_received ?s) = chunk_sum (seg_view (red_segments ?s))"
    using I(4) P(4) segs pf(1) by (simp add: store_red_def s1_def unat_word_ariths)
  have exp: "expected_red_bytes ?s = (if expected_red_bytes s < stop_byte d + 1 then stop_byte d + 1 else expected_red_bytes s)"
    by (simp add: store_red_def s1_def)
  have up: "unat (expected_red_bytes ?s) \<le> length blk" using exp I(6) pf(3) N by simp
  have lo: "unat (stop_byte e) + 1 \<le> unat (expected_red_bytes ?s)" if "(k, e) \<in> set (red_segments ?s)" for k e
    using that I(5) [of k e] pf(2,3) unfolding segs P(2) exp by (auto simp: word_less_nat_alt)
  have eob: "red_eob_received ?s \<longleftrightarrow> (\<exists>k e. (k, e) \<in> set (red_segments ?s) \<and> is_redendofblock e)"
    unfolding segs P(2) using I(7) by (auto simp: store_red_def s1_def)
  have comp: "red_complete ?s \<longleftrightarrow> red_eob_received ?s" "\<not> red_processed ?s"
    using I(8,9) eob_iff [OF assms(2)] by (auto simp: store_red_def s1_def)
  have contig: "red_contig_blocks ?s = m" "first_contiguous_bytes ?s = fc" by (simp_all add: store_red_def s1_def)
  have "reassembly_inv blk ?s"
    unfolding reassembly_inv_def contig
    using c(2) c(3) [unfolded I(3)] P(1,3) [folded segs] bytes lo up eob comp by simp
  then show ?thesis using add P(3) segs by auto
qed

lemma last_byte_eob:
  assumes "reassembly_inv blk s" and "piece blk d" and "is_redendofblock d" and "seg_range d \<subseteq> seg_bytes (red_segments s)"
  shows "red_eob_received s"
proof -
  have "stop_byte d \<in> seg_bytes (red_segments s)" using assms(4) piece_last [OF assms(2)] by blast
  then obtain k e where e: "(k, e) \<in> set (red_segments s)" "stop_byte d \<in> seg_range e" by (rule seg_bytesE)
  have pe: "piece blk e" using pieces_okD(3) [OF reassembly_invD(2) [OF assms(1)] e(1)] .
  have "unat (stop_byte d) + 1 = length blk" using piece_facts(2) [OF assms(2)] assms(2,3) by (simp add: piece_def)
  moreover have "unat (stop_byte d) < unat (start_byte e) + length (payload e)"
    using e(2) piece_facts(6) [OF pe] by simp
  ultimately have "unat (start_byte e) + length (payload e) = length blk" using pe by (simp add: piece_def)
  then have "is_redendofblock e" using pe by (simp add: piece_def)
  then show ?thesis using reassembly_invD(7) [OF assms(1)] e(1) by blast
qed

lemma add_seen_piece:
  assumes "reassembly_inv blk s" and "piece blk d" and "seg_range d \<subseteq> seg_bytes (red_segments s)"
  shows "add_segment_incoming fuel d True s = Some (-1, s)"
proof -
  note I = reassembly_invD [OF assms(1)]
  have "(if is_redendofblock d then s\<lparr>red_eob_received := True\<rparr> else s) = s"
    using last_byte_eob [OF assms(1,2) _ assms(3)] by auto
  moreover have "check_red_contig_blocks (red_contig_blocks s) (first_contiguous_bytes s) (start_byte d) (stop_byte d)
      = Some (True, True, red_contig_blocks s, first_contiguous_bytes s)"
    using check_red_contig_blocks_seen [OF I(1) piece_facts(4) [OF assms(2)]] assms(3) I(3) by (simp add: seg_range_def)
  ultimately show ?thesis using I(9) assms(2) by (simp add: add_segment_incoming_def piece_def Let_def)
qed

text \<open>The reception of a list of segments.\<close>

definition receive :: "nat \<Rightarrow> ltp_session \<Rightarrow> ltp_data_segment \<Rightarrow> ltp_session option" where
  "receive fuel s d = map_option snd (add_segment_incoming fuel d True s)"

definition same_cuts :: "ltp_data_segment list \<Rightarrow> bool" where
  "same_cuts ds \<longleftrightarrow> (\<forall>d \<in> set ds. \<forall>e \<in> set ds. seg_range d = seg_range e \<or> seg_range d \<inter> seg_range e = {})"

lemma receive_all:
  assumes "reassembly_inv blk s" and "\<forall>d \<in> set ds. piece blk d" and "seg_bytes (red_segments s) = (\<Union>d \<in> set seen. seg_range d)"
    and "same_cuts (seen @ ds)"
  shows "\<exists>s'. fold_opt (receive fuel) s ds = Some s' \<and> reassembly_inv blk s'
    \<and> seg_bytes (red_segments s') = (\<Union>d \<in> set (seen @ ds). seg_range d)"
  using assms
proof (induction ds arbitrary: s seen)
  case (Cons d ds)
  have pd: "piece blk d" using Cons.prems(2) by simp
  have "\<exists>s1. receive fuel s d = Some s1 \<and> reassembly_inv blk s1
    \<and> seg_bytes (red_segments s1) = seg_bytes (red_segments s) \<union> seg_range d"
  proof (cases "\<exists>e \<in> set seen. seg_range d = seg_range e")
    case True
    then have "seg_range d \<subseteq> seg_bytes (red_segments s)" using Cons.prems(3) by auto
    then show ?thesis
      using add_seen_piece [OF Cons.prems(1) pd] Cons.prems(1) by (auto simp: receive_def)
  next
    case False
    then have "seg_range d \<inter> seg_bytes (red_segments s) = {}"
      using Cons.prems(3,4) by (auto simp: same_cuts_def)
    then show ?thesis
      using add_new_piece [OF Cons.prems(1) pd, where fuel = fuel] by (auto simp: receive_def)
  qed
  then obtain s1 where s1: "receive fuel s d = Some s1" "reassembly_inv blk s1"
    "seg_bytes (red_segments s1) = (\<Union>e \<in> set (seen @ [d]). seg_range e)"
    using Cons.prems(3) by (auto simp: Un_commute)
  obtain s' where "fold_opt (receive fuel) s1 ds = Some s'" "reassembly_inv blk s'"
    "seg_bytes (red_segments s') = (\<Union>e \<in> set ((seen @ [d]) @ ds). seg_range e)"
    using Cons.IH [OF s1(2) _ s1(3)] Cons.prems(2,4) by auto
  then show ?case using s1(1) by auto
qed auto

lemma reassembly_full:
  assumes "reassembly_inv blk s" and "blk \<noteq> []" and "length blk < 2 ^ 63"
  shows "is_red_full s = (if seg_bytes (red_segments s) = all_bytes blk then of_nat (length blk) else 0)"
proof -
  note I = reassembly_invD [OF assms(1)]
  have N: "unat (of_nat (length blk) :: u64) = length blk" using assms(3) by (simp add: unsigned_of_nat take_bit_nat_eq_self)
  have full: "chunk_sum (seg_view (red_segments s)) = length blk \<longleftrightarrow> seg_bytes (red_segments s) = all_bytes blk"
    by (rule pieces_full [OF I(2) assms(3)])
  show ?thesis
  proof (cases "seg_bytes (red_segments s) = all_bytes blk")
    case True
    have "(of_nat (length blk - 1) :: u64) \<in> all_bytes blk"
      using assms(2,3) by (simp add: all_bytes_def unsigned_of_nat take_bit_nat_eq_self)
    then obtain k e where e: "(k, e) \<in> set (red_segments s)" "(of_nat (length blk - 1) :: u64) \<in> seg_range e"
      using True seg_bytesE by metis
    have pe: "piece blk e" using pieces_okD(3) [OF I(2) e(1)] .
    have "length blk - 1 < unat (start_byte e) + length (payload e)"
      using e(2) piece_facts(6) [OF pe] assms(3) by (simp add: unsigned_of_nat take_bit_nat_eq_self)
    then have end_e: "unat (start_byte e) + length (payload e) = length blk" using pe assms(2) by (simp add: piece_def)
    then have "is_redendofblock e" using pe by (simp add: piece_def)
    then have flags: "red_eob_received s" "red_complete s" using I(7,8) e(1) by blast+
    have "unat (expected_red_bytes s) = length blk" using I(5) [OF e(1)] I(6) piece_facts(2) [OF pe] end_e by simp
    moreover have "unat (red_bytes_received s) = length blk" using I(4) full True by simp
    ultimately have "red_bytes_received s = of_nat (length blk)" "expected_red_bytes s = of_nat (length blk)"
      using N by (simp_all add: word_unat_eq_iff)
    then show ?thesis using flags I(9) True by (simp add: is_red_full_def)
  next
    case False
    have "\<not> (red_eob_received s \<and> red_bytes_received s = expected_red_bytes s)"
    proof
      assume a: "red_eob_received s \<and> red_bytes_received s = expected_red_bytes s"
      then obtain k e where e: "(k, e) \<in> set (red_segments s)" "is_redendofblock e" using I(7) by blast
      have pe: "piece blk e" using pieces_okD(3) [OF I(2) e(1)] .
      have "unat (expected_red_bytes s) = length blk"
        using I(5) [OF e(1)] I(6) piece_facts(2) [OF pe] pe e(2) by (simp add: piece_def)
      then show False using a I(4) full False by simp
    qed
    then show ?thesis using False by (auto simp: is_red_full_def)
  qed
qed

text \<open>
  C8. Reassembly. Let the segments received be pieces of a block, cut at the same places, in any
  order and with any repetition. Then no assertion fails, the session is full exactly when every byte
  of the block has arrived, it then reports the length of the block, and the payloads in the order of
  the map are the block.
\<close>
theorem ltp_reassembly:
  assumes "blk \<noteq> []" and "\<forall>d \<in> set ds. piece blk d" and "same_cuts ds" and "length blk < 2 ^ 63"
  shows "\<exists>s. fold_opt (receive fuel) (session_init eng ses ckpt serial) ds = Some s
    \<and> is_red_full s = (if (\<Union>d \<in> set ds. seg_range d) = all_bytes blk then of_nat (length blk) else 0)
    \<and> ((\<Union>d \<in> set ds. seg_range d) = all_bytes blk \<longrightarrow> concat (map (payload \<circ> snd) (red_segments s)) = blk)"
proof -
  have "seg_bytes (red_segments (session_init eng ses ckpt serial)) = (\<Union>d \<in> set []. seg_range d)"
    by (simp add: session_init_def seg_bytes_def)
  then obtain s where s: "fold_opt (receive fuel) (session_init eng ses ckpt serial) ds = Some s" "reassembly_inv blk s"
    "seg_bytes (red_segments s) = (\<Union>d \<in> set ds. seg_range d)"
    using receive_all [OF reassembly_init assms(2), of eng ses ckpt serial "[]" fuel] assms(3) by auto
  then show ?thesis
    using reassembly_full [OF s(2) assms(1,4)] pieces_concat [OF reassembly_invD(2) [OF s(2)] assms(4)] by auto
qed

definition demo_piece :: "u64 \<Rightarrow> bytes \<Rightarrow> bool \<Rightarrow> ltp_data_segment" where
  "demo_piece a p eob = blank_data_segment\<lparr>red_green_none := RED_SEGMENT, is_redendofblock := eob, is_checkpoint := eob,
     start_byte := a, stop_byte := a + of_nat (length p) - 1, payload := p, payload_length := of_nat (length p), offset := a\<rparr>"

lemma demo_piece_sel [simp]:
  "start_byte (demo_piece a p eob) = a" "stop_byte (demo_piece a p eob) = a + of_nat (length p) - 1"
  "payload (demo_piece a p eob) = p" "payload_length (demo_piece a p eob) = of_nat (length p)"
  "red_green_none (demo_piece a p eob) = RED_SEGMENT" "is_redendofblock (demo_piece a p eob) = eob"
  "\<not> is_greenendofblock (demo_piece a p eob)"
  by (simp_all add: demo_piece_def blank_data_segment_def base_segment_def ltp_segment.defs ltp_data_segment.defs)

theorem ltp_reassembly_witness:
  "\<exists>s. fold_opt (receive 1) (session_init 5 9 100 200)
        [demo_piece 2 [3, 4] True, demo_piece 0 [1, 2] False, demo_piece 2 [3, 4] True] = Some s
     \<and> is_red_full s = 4 \<and> concat (map (payload \<circ> snd) (red_segments s)) = [1, 2, 3, 4]"
proof -
  let ?blk = "[1, 2, 3, 4] :: bytes"
  let ?ds = "[demo_piece 2 [3, 4] True, demo_piece 0 [1, 2] False, demo_piece 2 [3, 4] True]"
  have p: "\<forall>d \<in> set ?ds. piece ?blk d" by (simp add: piece_def)
  have r: "seg_range (demo_piece 2 [3, 4] True) = {2..3}" "seg_range (demo_piece 0 [1, 2] False) = {0..1}"
    by (simp_all add: seg_range_def)
  have "{2..3} \<inter> {0..1} = ({} :: u64 set)" by (auto simp: word_le_nat_alt)
  then have c: "same_cuts ?ds" using r by (auto simp: same_cuts_def)
  have "(\<Union>d \<in> set ?ds. seg_range d) = all_bytes ?blk"
    using r by (auto simp: all_bytes_def word_le_nat_alt)
  then show ?thesis
    using ltp_reassembly [OF _ p c, of 1 5 9 100 200] by auto
qed

section \<open>Overlaps in part\<close>

lemma trim_left_touching:
  assumes "start_byte ds = stop_byte this" and "offset ds = start_byte ds"
    and "stop_byte ds = start_byte ds + payload_length ds - 1"
  shows "trim_left this ds = ds"
  using assms by (simp add: trim_left_def)

text \<open>
  C36. The adjustment of a segment whose start lies in a stored segment moves it to the last byte of
  the stored one rather than to the byte behind it. A segment that starts exactly at the last byte of
  the nearest stored segment and reaches beyond is therefore adjusted by nothing, and the loop of
  \<open>CheckAndTrim\<close> runs forever, with the lock of the session held: no amount of fuel suffices.
\<close>
theorem trim_never_ends:
  assumes "overlap_visit segs (start_byte ds) = this # rest"
    and "start_byte ds = stop_byte this" and "start_byte this < start_byte ds" and "stop_byte this < stop_byte ds"
    and "offset ds = start_byte ds" and "stop_byte ds = start_byte ds + payload_length ds - 1"
  shows "trim_loop fuel segs bytes ds = None"
proof -
  have "check_overlap segs ds = ADJUSTED_SEGMENT ds"
    using assms(1-4) trim_left_touching [OF assms(2,5,6)] by (auto simp: check_overlap_def Let_def)
  then show ?thesis by (induction fuel) simp_all
qed

theorem trim_never_ends_witness:
  "\<forall>fuel. trim_loop fuel [(0, demo_piece 0 (replicate 10 7) False)] 10 (demo_piece 9 (replicate 6 8) True) = None"
  using trim_never_ends [of "[(0, demo_piece 0 (replicate 10 7) False)]" "demo_piece 9 (replicate 6 8) True"
      "demo_piece 0 (replicate 10 7) False" "[]"]
  by (simp add: overlap_visit_def demo_piece_def)

text \<open>
  The adjustment of a segment whose end lies in a stored segment subtracts the number of bytes to
  keep from its length instead of setting it. Bytes 10 to 19, then 5 to 14, then 0 to 4 arrive; the
  second segment is cut down to two bytes. The map of contiguous blocks, from which reports are made,
  says that all twenty bytes are there, the stored segments do not hold them, and the session never
  becomes full.
\<close>
theorem trim_right_loses_bytes:
  "map_option (\<lambda>s. (first_contiguous_bytes s, red_contig_blocks s, expected_red_bytes s, red_bytes_received s, is_red_full s))
     (fold_opt (receive 3) (session_init 5 9 100 200)
       [demo_piece 10 (replicate 10 3) True, demo_piece 5 (replicate 10 2) False, demo_piece 0 (replicate 5 1) False])
   = Some (20, [(0, 19)], 20, 17, 0)"
  by code_simp

end
