(* ===== verification/Ltp_Report.thy ===== *)
theory Ltp_Report
  imports Ltp_Session
begin

text \<open>
  Report generation at the receiver, \<open>HaveReportSegmentsToSend\<close> and \<open>GenerateReportSegments\<close> of
  \<open>src/servlib/ltp/LTPCommon.cc\<close>. The theory shows that the claims of the reports for a checkpoint
  are exactly the bytes received in the range of the report, that every claim lies within the bounds
  of its report, and that the loop ends; and that the count of claimed bytes kept beside the claims
  is not their number.
\<close>

section \<open>Creating reports\<close>

text \<open>\<open>LTPSegment(const LTPSession*)\<close>, as far as the report constructor uses it.\<close>

definition session_report_base :: "ltp_session \<Rightarrow> ltp_report_segment" where
  "session_report_base s = blank_report_segment\<lparr>engine_id := sess_engine_id s, session_id := sess_session_id s,
     client_service_id := 1, packet := [0]\<rparr>"

text \<open>The arguments of a report constructor: lower and upper bounds, bytes claimed, claims.\<close>

type_synonym report_args = "u64 \<times> u64 \<times> u64 \<times> (u64, u64) omap"

definition make_report :: "u64 \<Rightarrow> report_args \<Rightarrow> ltp_session \<Rightarrow> ltp_session" where
  "make_report chkpt = (\<lambda>(lower, upper, cbytes, claims) s.
     let (serial, s1) = get_next_report_serial_number s;
         rpt = new_report_segment (session_report_base s) serial chkpt lower upper cbytes claims
     in s1\<lparr>report_segments := om_assign (serial_number rpt) rpt (report_segments s1)\<rparr>)"

section \<open>The claims loop\<close>

record gen_state =
  new_claim :: bool
  claim_start :: u64
  claim_length :: u64
  next_claim_start :: u64
  est_seg_size :: int
  rpt_lower :: u64
  rpt_upper :: u64
  seg_bytes_claimed :: u64
  total_bytes_claimed :: u64
  cur_claims :: "(u64, u64) omap"
  reports :: "report_args list"

definition est_overhead :: "int \<Rightarrow> int" where
  "est_overhead segsize = (if segsize > 60 then 40 else 0)"

definition gen_init :: "u64 \<Rightarrow> u64 \<Rightarrow> int \<Rightarrow> gen_state" where
  "gen_init first_contig lower segsize =
     (let st = \<lparr>new_claim = True, claim_start = 0, claim_length = 0, next_claim_start = 0,
                est_seg_size = est_overhead segsize, rpt_lower = lower, rpt_upper = lower,
                seg_bytes_claimed = 0, total_bytes_claimed = 0, cur_claims = [], reports = []\<rparr>
      in if first_contig > lower
         then st\<lparr>rpt_upper := first_contig, new_claim := False, claim_start := lower,
                 claim_length := first_contig - lower, next_claim_start := lower + (first_contig - lower),
                 seg_bytes_claimed := first_contig - lower\<rparr>
         else st)"

definition start_claim :: "u64 \<Rightarrow> u64 \<Rightarrow> gen_state \<Rightarrow> gen_state" where
  "start_claim block_start block_stop st =
     (let block_len = block_stop - block_start + 1;
          (cs, cl) = (if block_start < rpt_lower st
                      then (rpt_lower st, block_len - (rpt_lower st - block_start))
                      else (block_start, block_len))
      in st\<lparr>new_claim := False, claim_start := cs, claim_length := cl,
            seg_bytes_claimed := seg_bytes_claimed st + block_len,
            next_claim_start := cs + cl, rpt_upper := cs + cl\<rparr>)"

definition extend_claim :: "u64 \<Rightarrow> u64 \<Rightarrow> gen_state \<Rightarrow> gen_state" where
  "extend_claim block_start block_stop st =
     (let block_len = block_stop - block_start + 1; cl = claim_length st + block_len
      in st\<lparr>claim_length := cl, seg_bytes_claimed := seg_bytes_claimed st + block_len,
            next_claim_start := claim_start st + cl, rpt_upper := claim_start st + cl\<rparr>)"

text \<open>A gap: the claim is saved and, when the report has reached the size wanted, the report closed.\<close>

definition save_claim :: "gen_state \<Rightarrow> gen_state" where
  "save_claim st =
     st\<lparr>cur_claims := om_assign (claim_start st) (claim_length st) (cur_claims st),
        est_seg_size := est_seg_size st
          + int (sdnv_encoding_len (claim_start st - rpt_lower st) + sdnv_encoding_len (claim_length st))\<rparr>"

definition close_report :: "u64 \<Rightarrow> int \<Rightarrow> gen_state \<Rightarrow> gen_state" where
  "close_report chkpt_upper segsize st =
     (let (seg, upper) = (if chkpt_upper < rpt_upper st
                          then (seg_bytes_claimed st - (rpt_upper st - chkpt_upper), chkpt_upper)
                          else (seg_bytes_claimed st, rpt_upper st))
      in st\<lparr>seg_bytes_claimed := seg, rpt_upper := upper, total_bytes_claimed := total_bytes_claimed st + seg,
            reports := reports st @ [(rpt_lower st, upper, seg, cur_claims st)],
            cur_claims := [], rpt_lower := upper, est_seg_size := est_overhead segsize\<rparr>)"

definition reset_claim :: "gen_state \<Rightarrow> gen_state" where
  "reset_claim st = st\<lparr>new_claim := True, claim_start := 0, claim_length := 0, next_claim_start := 0\<rparr>"

text \<open>
  The loop. On a gap the iterator is moved back, so that the block starts the next claim; the measure
  counts a block twice while a claim is in progress.
\<close>

function gen_loop :: "u64 \<Rightarrow> int \<Rightarrow> contig_blocks \<Rightarrow> gen_state \<Rightarrow> gen_state" where
  "gen_loop chkpt_upper segsize [] st = st"
| "gen_loop chkpt_upper segsize ((block_start, block_stop) # rest) st =
     (if block_stop < rpt_lower st then gen_loop chkpt_upper segsize rest st
      else if new_claim st then
        if block_start < chkpt_upper
        then gen_loop chkpt_upper segsize rest (start_claim block_start block_stop st)
        else st
      else if block_start \<ge> chkpt_upper then st
      else if next_claim_start st = block_start
      then gen_loop chkpt_upper segsize rest (extend_claim block_start block_stop st)
      else
        let st1 = save_claim st in
        if est_seg_size st1 \<ge> segsize then
          let st2 = close_report chkpt_upper segsize st1 in
          if chkpt_upper = rpt_upper st2 then st2\<lparr>new_claim := True\<rparr>
          else gen_loop chkpt_upper segsize ((block_start, block_stop) # rest) (reset_claim st2)
        else gen_loop chkpt_upper segsize ((block_start, block_stop) # rest) (reset_claim st1))"
  by pat_completeness auto
termination
  by (relation "measure (\<lambda>(u, z, bs, st). 2 * length bs + (if new_claim st then 0 else 1))")
    (auto simp: start_claim_def extend_claim_def reset_claim_def split: prod.splits)

declare gen_loop.simps [simp del]

text \<open>The last report, when a claim is in progress; \<open>None\<close> is the failed assertion.\<close>

definition gen_finish :: "u64 \<Rightarrow> gen_state \<Rightarrow> gen_state option" where
  "gen_finish chkpt_upper st =
     (if new_claim st then Some st
      else
        let final = (\<lambda>cl seg upper.
              st\<lparr>claim_length := cl, seg_bytes_claimed := seg, rpt_upper := upper,
                 total_bytes_claimed := total_bytes_claimed st + seg,
                 cur_claims := om_assign (claim_start st) cl (cur_claims st),
                 reports := reports st @ [(rpt_lower st, upper, seg, om_assign (claim_start st) cl (cur_claims st))]\<rparr>)
        in if chkpt_upper < rpt_upper st then
             let overage = rpt_upper st - chkpt_upper in
             if claim_length st > overage
             then Some (final (claim_length st - overage) (seg_bytes_claimed st - overage) chkpt_upper)
             else None
           else Some (final (claim_length st) (seg_bytes_claimed st) (rpt_upper st)))"

definition gen_blocks :: "contig_blocks \<Rightarrow> u64 \<Rightarrow> contig_blocks" where
  "gen_blocks m find_lower_bound =
     (let below = om_below find_lower_bound m
      in (if below = [] then [] else [last below]) @ om_from find_lower_bound m)"

definition gen_claims :: "contig_blocks \<Rightarrow> u64 \<Rightarrow> u64 \<Rightarrow> u64 \<Rightarrow> int \<Rightarrow> gen_state option" where
  "gen_claims m first_contig lower chkpt_upper segsize =
     gen_finish chkpt_upper
       (gen_loop chkpt_upper segsize (gen_blocks m (if first_contig > lower then first_contig else lower))
          (gen_init first_contig lower segsize))"

section \<open>The two operations\<close>

text \<open>The reports to create for a checkpoint, and the total number of bytes claimed.\<close>

definition report_plan :: "ltp_session \<Rightarrow> u64 \<Rightarrow> u64 \<Rightarrow> int \<Rightarrow> (u64 \<times> report_args list) option" where
  "report_plan s lower chkpt_upper segsize =
     (if red_complete s \<and> red_bytes_received s = expected_red_bytes s then
        Some (red_bytes_received s, [(0, red_bytes_received s, red_bytes_received s, [(0, red_bytes_received s)])])
      else if first_contiguous_bytes s \<ge> chkpt_upper then
        Some (chkpt_upper, [(0, chkpt_upper, chkpt_upper, [(0, chkpt_upper)])])
      else
        map_option (\<lambda>st. (total_bytes_claimed st, reports st))
          (gen_claims (red_contig_blocks s) (first_contiguous_bytes s) lower chkpt_upper segsize))"

definition generate_report_segments ::
    "u64 \<Rightarrow> u64 \<Rightarrow> u64 \<Rightarrow> int \<Rightarrow> ltp_session \<Rightarrow> (u64 \<times> ltp_session) option" where
  "generate_report_segments chkpt lower chkpt_upper segsize s =
     map_option (\<lambda>(total, rs). (total, fold (make_report chkpt) rs s)) (report_plan s lower chkpt_upper segsize)"

text \<open>
  The search through the existing reports: one for the same checkpoint, or one that the checkpoint
  segment answers, whose lower bound is then used.
\<close>

datatype report_search = Same_checkpoint ltp_report_segment | Answers_report ltp_report_segment | No_report

fun search_reports :: "u64 \<Rightarrow> u64 \<Rightarrow> (u64, ltp_report_segment) omap \<Rightarrow> report_search" where
  "search_reports ckpt serial [] = No_report"
| "search_reports ckpt serial ((k, r) # rest) =
     (if checkpoint_id r = ckpt then Same_checkpoint r
      else if serial_number r = serial then Answers_report r
      else search_reports ckpt serial rest)"

definition report_lower_bound :: "(u64, u64) omap \<Rightarrow> u64 \<Rightarrow> u64" where
  "report_lower_bound m off = (let below = om_below off m in if below = [] then 0 else snd (last below))"

text \<open>The result, the bytes claimed and the session.\<close>

definition have_report_segments_to_send ::
    "ltp_data_segment \<Rightarrow> int \<Rightarrow> ltp_session \<Rightarrow> (bool \<times> u64 \<times> ltp_session) option" where
  "have_report_segments_to_send ds segsize s =
     (let upper = stop_byte ds + 1;
          lower = report_lower_bound (ds_offset_to_upperbounds s) (offset ds);
          s1 = s\<lparr>ds_offset_to_upperbounds := om_assign (offset ds) upper (ds_offset_to_upperbounds s)\<rparr>;
          generate = (\<lambda>lower. map_option (\<lambda>(total, s2). (True, total, s2))
                        (generate_report_segments (checkpoint_id ds) lower upper segsize s1))
      in case search_reports (checkpoint_id ds) (serial_number ds) (report_segments s1) of
           Same_checkpoint r \<Rightarrow> Some (\<not> is_deleted r, claimed_bytes r, s1)
         | Answers_report r \<Rightarrow> generate (lower_bounds r)
         | No_report \<Rightarrow> generate lower)"

section \<open>What the claims say\<close>

definition claim_set :: "(u64, u64) omap \<Rightarrow> u64 set" where
  "claim_set cm = (\<Union>(c, l) \<in> set cm. {c..<c + l})"

definition rep_set :: "report_args list \<Rightarrow> u64 set" where
  "rep_set rs = (\<Union>(lo, hi, n, cm) \<in> set rs. claim_set cm)"

text \<open>Claims in increasing order, not empty, within bounds, and true of the bytes received.\<close>

definition claims_ok :: "u64 set \<Rightarrow> u64 \<Rightarrow> u64 \<Rightarrow> (u64, u64) omap \<Rightarrow> bool" where
  "claims_ok B lo hi cm \<longleftrightarrow> om_wf cm
     \<and> (\<forall>c l. (c, l) \<in> set cm \<longrightarrow> lo \<le> c \<and> c < c + l \<and> c + l \<le> hi \<and> {c..<c + l} \<subseteq> B)"

definition args_ok :: "u64 set \<Rightarrow> u64 \<Rightarrow> u64 \<Rightarrow> report_args \<Rightarrow> bool" where
  "args_ok B lower U = (\<lambda>(lo, hi, n, cm). lower \<le> lo \<and> hi \<le> U \<and> claims_ok B lo hi cm)"

lemma claim_setI: "(c, l) \<in> set cm \<Longrightarrow> c \<le> x \<Longrightarrow> x < c + l \<Longrightarrow> x \<in> claim_set cm"
  unfolding claim_set_def by force

lemma claim_set_Nil [simp]: "claim_set [] = {}"
  by (simp add: claim_set_def)

lemma rep_set_simps [simp]:
  "rep_set [] = {}" "rep_set (rs @ [(lo, hi, n, cm)]) = rep_set rs \<union> claim_set cm"
  by (auto simp: rep_set_def)

lemma claims_ok_subset: "claims_ok B lo hi cm \<Longrightarrow> claim_set cm \<subseteq> B \<inter> {lo..<hi}"
  by (auto simp: claims_ok_def claim_set_def) (meson less_le_trans order.trans)+

lemma rep_set_subset:
  assumes "\<forall>a \<in> set rs. args_ok B lower U a"
  shows "rep_set rs \<subseteq> B \<inter> {lower..<U}"
proof
  fix x assume "x \<in> rep_set rs"
  then obtain lo hi n cm where a: "(lo, hi, n, cm) \<in> set rs" "x \<in> claim_set cm" by (auto simp: rep_set_def)
  then have ok: "lower \<le> lo" "hi \<le> U" "claims_ok B lo hi cm" using assms by (auto simp: args_ok_def)
  then have "x \<in> B" "lo \<le> x" "x < hi" using claims_ok_subset [OF ok(3)] a(2) by auto
  then show "x \<in> B \<inter> {lower..<U}" using ok by (auto intro: order.trans less_le_trans)
qed

text \<open>Saving a claim: what it adds, and that it does not hide a claim that starts at the same byte.\<close>

lemma om_assign_mem: "(c, l) \<in> set (om_assign a b m) \<Longrightarrow> (c, l) = (a, b) \<or> (c, l) \<in> set m"
  by (induction a b m rule: om_assign.induct) (auto split: if_splits)

lemma om_assign_has: "(a, b) \<in> set (om_assign a b m)"
  by (induction a b m rule: om_assign.induct) auto

lemma om_assign_keeps: "(c, l) \<in> set m \<Longrightarrow> c \<noteq> a \<Longrightarrow> (c, l) \<in> set (om_assign a b m)"
  by (induction a b m rule: om_assign.induct) auto

lemma claims_ok_save:
  assumes "claims_ok B lo hi cm" and "lo \<le> c" "c < c + l" "c + l \<le> hi" "{c..<c + l} \<subseteq> B"
  shows "claims_ok B lo hi (om_assign c l cm)"
  using assms om_wf_assign [of cm c l] om_assign_mem [of _ _ c l cm] unfolding claims_ok_def by blast

lemma claim_set_save:
  assumes "\<forall>l'. (c, l') \<in> set cm \<longrightarrow> c + l' \<le> c + l"
  shows "claim_set (om_assign c l cm) = claim_set cm \<union> {c..<c + l}"
proof
  show "claim_set (om_assign c l cm) \<subseteq> claim_set cm \<union> {c..<c + l}"
    unfolding claim_set_def using om_assign_mem [of _ _ c l cm] by fastforce
  have "x \<in> claim_set (om_assign c l cm)" if "(a, b) \<in> set cm" "a \<le> x" "x < a + b" for a b x
  proof (cases "a = c")
    case True
    then have "x < c + l" using assms that by (auto intro: less_le_trans)
    then show ?thesis using claim_setI [OF om_assign_has] that(2) True by blast
  qed (use claim_setI [OF om_assign_keeps] that in blast)
  moreover have "{c..<c + l} \<subseteq> claim_set (om_assign c l cm)"
    using claim_setI [OF om_assign_has, of c _ l cm] by auto
  ultimately show "claim_set cm \<union> {c..<c + l} \<subseteq> claim_set (om_assign c l cm)"
    unfolding claim_set_def [of cm] by auto
qed

section \<open>The invariant of the loop\<close>

text \<open>The bytes that need no further claim.\<close>

definition settled :: "u64 \<Rightarrow> gen_state \<Rightarrow> u64 set" where
  "settled lower st = {..<lower} \<union> rep_set (reports st) \<union> claim_set (cur_claims st)
     \<union> (if new_claim st then {} else {claim_start st..<rpt_upper st})"

definition gen_inv :: "contig_blocks \<Rightarrow> u64 \<Rightarrow> u64 \<Rightarrow> contig_blocks \<Rightarrow> gen_state \<Rightarrow> bool" where
  "gen_inv m lower U L st \<longleftrightarrow>
     (let B = blk_bytes m in
      lower \<le> rpt_lower st \<and> rpt_lower st < U \<and> rpt_lower st \<le> rpt_upper st
      \<and> claims_ok B (rpt_lower st) U (cur_claims st)
      \<and> (\<forall>c l. (c, l) \<in> set (cur_claims st) \<longrightarrow> c + l \<le> rpt_upper st)
      \<and> (\<forall>a \<in> set (reports st). args_ok B lower U a)
      \<and> B \<subseteq> settled lower st \<union> blk_bytes L \<and> blocks_ok L \<and> blk_bytes L \<subseteq> B
      \<and> (if new_claim st then
           B \<inter> {..<rpt_lower st} \<subseteq> settled lower st
           \<and> (cur_claims st = [] \<or>
              (\<exists>k v r. L = (k, v) # r \<and> k < U \<and> rpt_lower st \<le> v \<and> rpt_upper st \<le> v + 1))
         else
           rpt_lower st \<le> claim_start st \<and> claim_start st < rpt_upper st \<and> claim_start st < U
           \<and> claim_start st + claim_length st = rpt_upper st \<and> next_claim_start st = rpt_upper st
           \<and> {claim_start st..<rpt_upper st} \<subseteq> B \<and> B \<inter> {..<rpt_upper st} \<subseteq> settled lower st
           \<and> (\<forall>k v. (k, v) \<in> set L \<longrightarrow> rpt_upper st < k \<or> rpt_upper st \<le> U \<and> rpt_upper st = v + 1)))"

text \<open>What holds when the loop is left.\<close>

definition gen_done :: "contig_blocks \<Rightarrow> u64 \<Rightarrow> u64 \<Rightarrow> gen_state \<Rightarrow> bool" where
  "gen_done m lower U st \<longleftrightarrow>
     (let B = blk_bytes m in
      (\<forall>a \<in> set (reports st). args_ok B lower U a) \<and> B \<inter> {..<U} \<subseteq> settled lower st
      \<and> (if new_claim st then cur_claims st = []
         else lower \<le> rpt_lower st \<and> claims_ok B (rpt_lower st) U (cur_claims st)
           \<and> (\<forall>c l. (c, l) \<in> set (cur_claims st) \<longrightarrow> c + l \<le> rpt_upper st)
           \<and> rpt_lower st \<le> claim_start st \<and> claim_start st < rpt_upper st \<and> claim_start st < U
           \<and> claim_start st + claim_length st = rpt_upper st \<and> {claim_start st..<rpt_upper st} \<subseteq> B))"

lemma start_claim_eq:
  "start_claim k v st = (let cs = (if k < rpt_lower st then rpt_lower st else k) in
     st\<lparr>new_claim := False, claim_start := cs, claim_length := v + 1 - cs,
        seg_bytes_claimed := seg_bytes_claimed st + (v - k + 1), next_claim_start := v + 1, rpt_upper := v + 1\<rparr>)"
  by (simp add: start_claim_def Let_def algebra_simps)

lemma inv_skip:
  assumes "gen_inv m lower U ((k, v) # rest) st" and "v < rpt_lower st"
  shows "gen_inv m lower U rest st"
proof -
  have I: "blk_bytes m \<subseteq> settled lower st \<union> ({k..v} \<union> blk_bytes rest)" "rpt_lower st \<le> rpt_upper st"
    "{k..v} \<union> blk_bytes rest \<subseteq> blk_bytes m"
    using assms(1) by (auto simp: gen_inv_def Let_def)
  have "{k..v} \<subseteq> blk_bytes m \<inter> {..<rpt_lower st}" using I(3) assms(2) by (auto intro: le_less_trans)
  moreover have "blk_bytes m \<inter> {..<rpt_lower st} \<subseteq> settled lower st"
  proof (cases "new_claim st")
    case True then show ?thesis using assms(1) by (simp add: gen_inv_def Let_def)
  next
    case False
    have "blk_bytes m \<inter> {..<rpt_lower st} \<subseteq> blk_bytes m \<inter> {..<rpt_upper st}"
      using I(2) by (intro Int_mono) simp_all
    also have "\<dots> \<subseteq> settled lower st" using assms(1) False by (simp add: gen_inv_def Let_def)
    finally show ?thesis .
  qed
  ultimately have "blk_bytes m \<subseteq> settled lower st \<union> blk_bytes rest" using I(1) by blast
  moreover have "new_claim st \<Longrightarrow> cur_claims st = []"
    using assms by (auto simp: gen_inv_def Let_def)
  ultimately show ?thesis
    using assms(1) unfolding gen_inv_def Let_def by (simp split: if_splits)
qed

lemma inv_start:
  assumes "gen_inv m lower U ((k, v) # rest) st" and "new_claim st" and "\<not> v < rpt_lower st" and "k < U"
  shows "gen_inv m lower U rest (start_claim k v st)"
proof -
  let ?cs = "if k < rpt_lower st then rpt_lower st else k"
  define st' where "st' = start_claim k v st"
  have f [simp]: "new_claim st' = False" "claim_start st' = ?cs" "claim_length st' = v + 1 - ?cs" "next_claim_start st' = v + 1"
    "rpt_upper st' = v + 1" "rpt_lower st' = rpt_lower st" "cur_claims st' = cur_claims st" "reports st' = reports st"
    by (simp_all add: st'_def start_claim_eq Let_def)
  have I: "lower \<le> rpt_lower st" "rpt_lower st < U" "claims_ok (blk_bytes m) (rpt_lower st) U (cur_claims st)"
    "\<forall>a \<in> set (reports st). args_ok (blk_bytes m) lower U a"
    "blk_bytes m \<subseteq> settled lower st \<union> ({k..v} \<union> blk_bytes rest)" "blocks_ok ((k, v) # rest)"
    "{k..v} \<union> blk_bytes rest \<subseteq> blk_bytes m" "blk_bytes m \<inter> {..<rpt_lower st} \<subseteq> settled lower st"
    using assms(1,2) by (auto simp: gen_inv_def Let_def)
  have kv: "k \<le> v" "v \<noteq> -1" and sep: "\<And>j w. (j, w) \<in> set rest \<Longrightarrow> v + 1 < j" using I(6) by auto
  have lt: "?cs < v + 1" "rpt_lower st < v + 1" using assms(3) kv by (auto simp: word_less_succ_iff)
  have set_eq: "{?cs..<v + 1} = {k..v} \<inter> {rpt_lower st..}"
    using kv by (auto simp: word_less_succ_iff intro: less_imp_le order.trans)
  have settled: "settled lower st' = settled lower st \<union> ({k..v} \<inter> {rpt_lower st..})"
    using assms(2) set_eq by (auto simp: settled_def)
  have block: "{k..v} \<subseteq> settled lower st'" using I(7,8) unfolding settled by fastforce
  have rest: "blk_bytes rest \<inter> {..<v + 1} = {}"
    using sep by (auto simp: blk_bytes_def) (meson less_asym less_le_trans)
  have upper: "c + l \<le> v + 1" if "(c, l) \<in> set (cur_claims st)" for c l
  proof -
    have "rpt_upper st \<le> v + 1" using assms(1,2) that by (auto simp: gen_inv_def Let_def)
    then show ?thesis using assms(1) that by (auto simp: gen_inv_def Let_def intro: order.trans)
  qed
  have "gen_inv m lower U rest st'"
    unfolding gen_inv_def Let_def f if_False
  proof (intro conjI allI impI)
    show "blk_bytes m \<subseteq> settled lower st' \<union> blk_bytes rest" using I(5) block settled by blast
    show "blk_bytes m \<inter> {..<v + 1} \<subseteq> settled lower st'" using I(5) block settled rest by blast
    show "{?cs..<v + 1} \<subseteq> blk_bytes m" using set_eq I(7) by blast
    show "?cs < U" using I(2) assms(4) by simp
    show "rpt_lower st \<le> v + 1" "?cs < v + 1" "rpt_lower st \<le> ?cs" using lt by (auto intro: less_imp_le)
    show "v + 1 < j \<or> v + 1 \<le> U \<and> v + 1 = w + 1" if "(j, w) \<in> set rest" for j w using sep that by blast
  qed (use I upper in auto)
  then show ?thesis by (simp add: st'_def)
qed

text \<open>A gap before the block \<open>(k, v)\<close>: the facts the next steps need.\<close>

lemma gap_facts:
  assumes "gen_inv m lower U ((k, v) # rest) st" and "\<not> new_claim st" and "k < U"
  defines "cm \<equiv> om_assign (claim_start st) (claim_length st) (cur_claims st)"
  shows "rpt_upper st \<le> U" and "rpt_upper st \<le> v + 1"
    and "claims_ok (blk_bytes m) (rpt_lower st) (rpt_upper st) cm" and "claims_ok (blk_bytes m) (rpt_lower st) U cm"
    and "claim_set cm = claim_set (cur_claims st) \<union> {claim_start st..<rpt_upper st}"
    and "settled lower st = {..<lower} \<union> rep_set (reports st) \<union> claim_set cm"
proof -
  have I: "claims_ok (blk_bytes m) (rpt_lower st) U (cur_claims st)"
    "\<And>c l. (c, l) \<in> set (cur_claims st) \<Longrightarrow> c + l \<le> rpt_upper st" "rpt_lower st \<le> claim_start st"
    "claim_start st < rpt_upper st" "claim_start st + claim_length st = rpt_upper st"
    "{claim_start st..<rpt_upper st} \<subseteq> blk_bytes m" "k \<le> v" "v \<noteq> -1"
    "rpt_upper st < k \<or> rpt_upper st \<le> U \<and> rpt_upper st = v + 1"
    using assms(1,2) by (auto simp: gen_inv_def Let_def)
  show U: "rpt_upper st \<le> U" using I(9) assms(3) by auto
  have "rpt_upper st < k \<Longrightarrow> rpt_upper st < v + 1"
    using I(7) succ_less [OF I(8)] by (meson less_trans less_le_trans)
  then show "rpt_upper st \<le> v + 1" using I(9) by auto
  have old: "claims_ok (blk_bytes m) (rpt_lower st) (rpt_upper st) (cur_claims st)"
    using I(1,2) by (auto simp: claims_ok_def)
  show "claims_ok (blk_bytes m) (rpt_lower st) (rpt_upper st) cm"
    unfolding cm_def by (rule claims_ok_save [OF old]) (use I in auto)
  show "claims_ok (blk_bytes m) (rpt_lower st) U cm"
    unfolding cm_def by (rule claims_ok_save [OF I(1)]) (use I U in auto)
  show cs: "claim_set cm = claim_set (cur_claims st) \<union> {claim_start st..<rpt_upper st}"
    using claim_set_save [of "claim_start st" "cur_claims st" "claim_length st"] I(2,5) by (simp add: cm_def)
  show "settled lower st = {..<lower} \<union> rep_set (reports st) \<union> claim_set cm"
    using assms(2) cs by (auto simp: settled_def)
qed

lemma inv_save:
  assumes "gen_inv m lower U ((k, v) # rest) st" and "\<not> new_claim st" and "\<not> v < rpt_lower st" and "k < U"
  shows "gen_inv m lower U ((k, v) # rest) (reset_claim (save_claim st))"
proof -
  note G = gap_facts [OF assms(1,2,4)]
  define st' where "st' = reset_claim (save_claim st)"
  have f [simp]: "new_claim st'" "rpt_upper st' = rpt_upper st" "rpt_lower st' = rpt_lower st"
    "cur_claims st' = om_assign (claim_start st) (claim_length st) (cur_claims st)" "reports st' = reports st"
    by (simp_all add: st'_def reset_claim_def save_claim_def)
  have settled: "settled lower st' = settled lower st" unfolding G(6) by (simp add: settled_def)
  have I: "lower \<le> rpt_lower st" "rpt_lower st < U" "rpt_lower st \<le> rpt_upper st"
    "\<forall>a \<in> set (reports st). args_ok (blk_bytes m) lower U a"
    "blk_bytes m \<subseteq> settled lower st \<union> blk_bytes ((k, v) # rest)" "blocks_ok ((k, v) # rest)"
    "blk_bytes ((k, v) # rest) \<subseteq> blk_bytes m" "blk_bytes m \<inter> {..<rpt_upper st} \<subseteq> settled lower st"
    using assms(1,2) unfolding gen_inv_def Let_def by (simp_all del: blk_bytes_simps)
  have low: "blk_bytes m \<inter> {..<rpt_lower st} \<subseteq> settled lower st"
    by (rule order.trans [OF Int_mono [OF order.refl] I(8)]) (simp add: I(3))
  have "gen_inv m lower U ((k, v) # rest) st'"
    unfolding gen_inv_def Let_def settled
    using I G(2,3,4) low assms(3,4) by (auto simp: claims_ok_def simp del: blk_bytes_simps blocks_ok.simps)
  then show ?thesis by (simp add: st'_def)
qed

lemma close_fields:
  fixes segsize :: int
  assumes "rpt_upper st \<le> U"
  defines "st2 \<equiv> close_report U segsize (save_claim st)"
  shows "rpt_upper st2 = rpt_upper st" and "rpt_lower st2 = rpt_upper st" and "cur_claims st2 = []" and "new_claim st2 = new_claim st"
    and "\<exists>n. reports st2 = reports st @ [(rpt_lower st, rpt_upper st, n, om_assign (claim_start st) (claim_length st) (cur_claims st))]"
  using assms by (simp_all add: close_report_def save_claim_def not_less [symmetric])

lemma inv_close:
  fixes segsize :: int
  assumes "gen_inv m lower U ((k, v) # rest) st" and "\<not> new_claim st" and "k < U"
  defines "st2 \<equiv> close_report U segsize (save_claim st)"
  shows "U = rpt_upper st2 \<Longrightarrow> gen_done m lower U (st2\<lparr>new_claim := True\<rparr>)"
    and "U \<noteq> rpt_upper st2 \<Longrightarrow> gen_inv m lower U ((k, v) # rest) (reset_claim st2)"
proof -
  note G = gap_facts [OF assms(1-3)]
  note f = close_fields [OF G(1), of segsize, folded st2_def]
  obtain n where reps: "reports st2 = reports st @ [(rpt_lower st, rpt_upper st, n, om_assign (claim_start st) (claim_length st) (cur_claims st))]"
    using f(5) by blast
  have I: "lower \<le> rpt_lower st" "rpt_lower st \<le> rpt_upper st"
    "\<forall>a \<in> set (reports st). args_ok (blk_bytes m) lower U a"
    "blk_bytes m \<subseteq> settled lower st \<union> blk_bytes ((k, v) # rest)" "blocks_ok ((k, v) # rest)"
    "blk_bytes ((k, v) # rest) \<subseteq> blk_bytes m" "blk_bytes m \<inter> {..<rpt_upper st} \<subseteq> settled lower st"
    using assms(1,2) unfolding gen_inv_def Let_def by (simp_all del: blk_bytes_simps)
  have args: "\<forall>a \<in> set (reports st2). args_ok (blk_bytes m) lower U a"
    using I(1,3) G(1,3) reps by (simp add: args_ok_def)
  have settled: "settled lower st' = settled lower st"
    if "new_claim st'" "cur_claims st' = []" "reports st' = reports st2" for st'
    unfolding G(6) using that reps by (simp add: settled_def Un_assoc)
  show "gen_done m lower U (st2\<lparr>new_claim := True\<rparr>)" if "U = rpt_upper st2"
    using args settled [of "st2\<lparr>new_claim := True\<rparr>"] f I(7) that by (simp add: gen_done_def Let_def)
  define st' where "st' = reset_claim st2"
  have g [simp]: "new_claim st'" "rpt_upper st' = rpt_upper st" "rpt_lower st' = rpt_upper st" "cur_claims st' = []" "reports st' = reports st2"
    by (simp_all add: st'_def reset_claim_def f)
  have st': "settled lower st' = settled lower st" by (rule settled) simp_all
  have cok: "claims_ok (blk_bytes m) (rpt_upper st) U []" by (simp add: claims_ok_def)
  show "gen_inv m lower U ((k, v) # rest) (reset_claim st2)" if "U \<noteq> rpt_upper st2"
    unfolding st'_def [symmetric] gen_inv_def Let_def st'
    using I args G(1) that f(1) cok order.trans [OF I(1,2)] order.not_eq_order_implies_strict [of "rpt_upper st" U]
    by (simp del: blk_bytes_simps blocks_ok.simps)
qed

text \<open>Leaving the loop before a block that starts at or after the upper bound.\<close>

lemma blocks_above:
  assumes "blocks_ok ((k, v) # rest)" and "U \<le> k"
  shows "blk_bytes ((k, v) # rest) \<inter> {..<U} = {}"
proof -
  have "U \<le> j" if "(j, w) \<in> set ((k, v) # rest)" for j w
  proof (cases "(j, w) = (k, v)")
    case False
    then have "v + 1 < j" "k \<le> v" "v \<noteq> -1" using that assms(1) by auto
    then have "k < j" using succ_less [of v] by (auto intro: le_less_trans less_trans)
    then show ?thesis using assms(2) by simp
  qed (use assms(2) in simp)
  then show ?thesis unfolding blk_bytes_def by (auto simp del: list.set) (meson leD le_less_trans order.trans)
qed

lemma inv_exit:
  assumes "gen_inv m lower U L st" and "blk_bytes L \<inter> {..<U} = {}" and "new_claim st \<Longrightarrow> cur_claims st = []"
  shows "gen_done m lower U st"
proof -
  have "blk_bytes m \<inter> {..<U} \<subseteq> settled lower st"
    using assms(1,2) unfolding gen_inv_def Let_def by blast
  then show ?thesis using assms(1,3) by (auto simp: gen_done_def gen_inv_def Let_def)
qed

lemma gen_loop_done:
  "gen_inv m lower U L st \<Longrightarrow> gen_done m lower U (gen_loop U segsize L st)"
proof (induction U segsize L st rule: gen_loop.induct)
  case (1 U segsize st)
  then have "gen_done m lower U st" by (intro inv_exit [of _ _ _ "[]"]) (auto simp: gen_inv_def Let_def)
  then show ?case by (simp add: gen_loop.simps)
next
  case (2 U segsize k v rest st)
  note inv = "2.prems"
  have ok: "blocks_ok ((k, v) # rest)" "k \<le> v" "v \<noteq> -1" using inv by (auto simp: gen_inv_def Let_def)
  have exit: "gen_done m lower U st" if "U \<le> k"
    by (rule inv_exit [OF inv blocks_above [OF ok(1) that]]) (use inv that in \<open>auto simp: gen_inv_def Let_def\<close>)
  have gap: "next_claim_start st \<noteq> k" if "\<not> new_claim st"
    using inv that ok succ_less [OF ok(3)] by (auto simp: gen_inv_def Let_def)
  show ?case
  proof (cases "v < rpt_lower st \<or> U \<le> k \<or> new_claim st")
    case True
    then show ?thesis
      using "2.IH"(1,2) inv_skip [OF inv] inv_start [OF inv] exit
      by (cases "v < rpt_lower st"; cases "new_claim st") (auto simp: gen_loop.simps(2) not_less)
  next
    case False
    then have c: "\<not> v < rpt_lower st" "k < U" "\<not> new_claim st" "\<not> U \<le> k" by auto
    define st1 where "st1 = save_claim st"
    define st2 where "st2 = close_report U segsize st1"
    note close = inv_close [OF inv c(3) c(2), of segsize, folded st1_def, folded st2_def]
    note IH = "2.IH"(4,5) [OF c(1,3,4) gap [OF c(3)] st1_def]
    have "gen_loop U segsize ((k, v) # rest) st =
        (if est_seg_size st1 \<ge> segsize then
           if U = rpt_upper st2 then st2\<lparr>new_claim := True\<rparr> else gen_loop U segsize ((k, v) # rest) (reset_claim st2)
         else gen_loop U segsize ((k, v) # rest) (reset_claim st1))"
      using c gap by (simp add: gen_loop.simps(2) Let_def st1_def st2_def)
    then show ?thesis
      using close IH inv_save [OF inv c(3,1,2), folded st1_def] st2_def by auto
  qed
qed

section \<open>The last report and the start of the loop\<close>

lemma overage_less:
  fixes cs U ru :: u64
  assumes "cs < U" and "U < ru"
  shows "ru - U < ru - cs"
proof -
  have "U \<le> ru" "cs \<le> ru" using assms by (auto intro: less_imp_le less_trans)
  then show ?thesis using assms by (simp add: word_less_nat_alt unat_sub)
qed

lemma gen_finish_args:
  assumes "\<not> new_claim st" and "claim_start st < U" and "claim_start st + claim_length st = rpt_upper st"
  defines "hi \<equiv> min U (rpt_upper st)"
  shows "\<exists>st' n. gen_finish U st = Some st' \<and> reports st' = reports st
    @ [(rpt_lower st, hi, n, om_assign (claim_start st) (hi - claim_start st) (cur_claims st))]"
proof -
  have len: "claim_length st = rpt_upper st - claim_start st" using assms(3) by (simp add: algebra_simps)
  show ?thesis
    using assms(1,2) overage_less [of "claim_start st" U "rpt_upper st"]
    by (auto simp: gen_finish_def Let_def hi_def len min_def not_less [symmetric])
qed

lemma gen_finish_done:
  assumes "gen_done m lower U st"
  shows "\<exists>st'. gen_finish U st = Some st' \<and> (\<forall>a \<in> set (reports st'). args_ok (blk_bytes m) lower U a)
    \<and> rep_set (reports st') = blk_bytes m \<inter> {lower..<U}"
proof -
  let ?B = "blk_bytes m"
  have D: "\<forall>a \<in> set (reports st). args_ok ?B lower U a" "?B \<inter> {..<U} \<subseteq> settled lower st"
    using assms by (auto simp: gen_done_def Let_def)
  show ?thesis
  proof (cases "new_claim st")
    case True
    then have "?B \<inter> {lower..<U} \<subseteq> rep_set (reports st)"
      using assms D(2) by (auto simp: gen_done_def Let_def settled_def dest!: subsetD)
    then show ?thesis using True D(1) rep_set_subset [OF D(1)] by (auto simp: gen_finish_def)
  next
    case False
    then have I: "lower \<le> rpt_lower st" "claims_ok ?B (rpt_lower st) U (cur_claims st)"
      "\<And>c l. (c, l) \<in> set (cur_claims st) \<Longrightarrow> c + l \<le> rpt_upper st" "rpt_lower st \<le> claim_start st"
      "claim_start st < rpt_upper st" "claim_start st < U" "claim_start st + claim_length st = rpt_upper st"
      "{claim_start st..<rpt_upper st} \<subseteq> ?B"
      using assms by (auto simp: gen_done_def Let_def)
    define hi where "hi = min U (rpt_upper st)"
    define cm where "cm = om_assign (claim_start st) (hi - claim_start st) (cur_claims st)"
    obtain st' n where st': "gen_finish U st = Some st'" "reports st' = reports st @ [(rpt_lower st, hi, n, cm)]"
      using gen_finish_args [OF False I(6,7)] by (auto simp: hi_def cm_def)
    have hi: "hi \<le> U" "claim_start st < hi" "{claim_start st..<hi} = {claim_start st..<rpt_upper st} \<inter> {..<U}"
      using I(5,6) by (auto simp: hi_def)
    have le: "c + l \<le> hi" if "(c, l) \<in> set (cur_claims st)" for c l
      using that I(2,3) by (auto simp: hi_def claims_ok_def)
    have old: "claims_ok ?B (rpt_lower st) hi (cur_claims st)"
      using I(2) le by (auto simp: claims_ok_def)
    have ok: "claims_ok ?B (rpt_lower st) hi cm"
      unfolding cm_def by (rule claims_ok_save [OF old I(4)]) (use hi I(8) in auto)
    then have args: "\<forall>a \<in> set (reports st'). args_ok ?B lower U a"
      using D(1) I(1) hi(1) st'(2) by (simp add: args_ok_def)
    have "claim_set cm = claim_set (cur_claims st) \<union> {claim_start st..<hi}"
      unfolding cm_def using claim_set_save [of "claim_start st" "cur_claims st" "hi - claim_start st"] le by simp
    then have "?B \<inter> {lower..<U} \<subseteq> rep_set (reports st')"
      using D(2) False hi(3) unfolding st'(2) by (auto simp: settled_def dest!: subsetD)
    then show ?thesis using st'(1) args rep_set_subset [OF args] by auto
  qed
qed

text \<open>The blocks of the loop leave out only blocks that end before the first byte looked for.\<close>

lemma gen_blocks_drop:
  assumes "blocks_ok m"
  shows "\<exists>xs. m = xs @ gen_blocks m p \<and> (\<forall>k v. (k, v) \<in> set xs \<longrightarrow> v < p)"
proof (cases "om_below p m = []")
  case True
  then show ?thesis using om_split [of p m] by (simp add: gen_blocks_def)
next
  case False
  then obtain xs k v where b: "om_below p m = xs @ [(k, v)]" by (metis append_butlast_last_id surj_pair)
  then have m: "m = xs @ gen_blocks m p" using om_split [of p m] by (simp add: gen_blocks_def)
  moreover have "w < p" if "(j, w) \<in> set xs" for j w
  proof -
    have split: "m = xs @ (k, v) # om_from p m" using om_split [of p m] b by simp
    have "blocks_ok (xs @ (k, v) # om_from p m)" unfolding split [symmetric] by (rule assms)
    then have "w + 1 < k" using that unfolding blocks_ok_append by auto
    moreover have "(j, w) \<in> set m" using that by (subst m) simp
    then have "w \<noteq> -1" using blocks_ok_entry [OF assms] by blast
    moreover have "k < p" using om_below_less [of "(k, v)" p m] b by simp
    ultimately show ?thesis using succ_less [of w] by (auto intro: less_trans)
  qed
  ultimately show ?thesis by blast
qed

lemma gen_init_inv:
  assumes "contig_inv m fc" and "lower < U" and "fc < U"
  shows "gen_inv m lower U (gen_blocks m (if fc > lower then fc else lower)) (gen_init fc lower segsize)"
proof -
  let ?p = "if fc > lower then fc else lower" and ?st = "gen_init fc lower segsize"
  have ok: "blocks_ok m" and pre: "\<forall>x < fc. x \<in> blk_bytes m" "fc \<notin> blk_bytes m"
    using assms(1) by (auto simp: contig_inv_def prefix_len_def)
  obtain xs where xs: "m = xs @ gen_blocks m ?p" "\<forall>k v. (k, v) \<in> set xs \<longrightarrow> v < ?p"
    using gen_blocks_drop [OF ok] by blast
  have "blocks_ok (xs @ gen_blocks m ?p)" using ok xs(1) by simp
  then have L: "blocks_ok (gen_blocks m ?p)" by (simp add: blocks_ok_append)
  have "blk_bytes m = blk_bytes xs \<union> blk_bytes (gen_blocks m ?p)" by (subst xs(1)) simp
  moreover have "blk_bytes xs \<subseteq> {..<?p}" using xs(2) unfolding blk_bytes_def by fastforce
  ultimately have B: "blk_bytes m \<subseteq> {..<?p} \<union> blk_bytes (gen_blocks m ?p)" "blk_bytes (gen_blocks m ?p) \<subseteq> blk_bytes m"
    by auto
  have gap: "fc < k \<or> fc = v + 1" if "(k, v) \<in> set m" for k v
  proof (cases "k \<le> fc")
    case True
    have v: "k \<le> v" "v < fc" using blocks_ok_entry [OF ok that] blk_bytesI [OF that True] pre(2) by (auto simp: not_le [symmetric])
    then have fc: "fc - 1 < fc" "v \<le> fc - 1" by (auto simp: word_less_nat_alt word_le_nat_alt unat_sub_if' split: if_splits)
    have "{0..fc - 1} \<subseteq> blk_bytes m" using pre(1) fc(1) by (auto intro: le_less_trans)
    then obtain j w where jw: "(j, w) \<in> set m" "j \<le> 0" "fc - 1 \<le> w" using run_in_block [OF ok, of 0 "fc - 1"] by auto
    have "v = w"
      using block_unique [OF ok that jw(1), of v] v(1) fc(2) jw(2,3) by auto
    then have "v = fc - 1" using fc(2) jw(3) by simp
    then show ?thesis by simp
  qed (simp add: not_le)
  show ?thesis
  proof (cases "fc > lower")
    case True
    have f: "gen_init fc lower segsize = \<lparr>new_claim = False, claim_start = lower, claim_length = fc - lower,
        next_claim_start = fc, est_seg_size = est_overhead segsize, rpt_lower = lower, rpt_upper = fc,
        seg_bytes_claimed = fc - lower, total_bytes_claimed = 0, cur_claims = [], reports = []\<rparr>"
      using True by (simp add: gen_init_def)
    have "set (gen_blocks m fc) \<subseteq> set m" using xs(1) True by (metis Un_upper2 set_append)
    then have gap': "fc < k \<or> fc = v + 1" if "(k, v) \<in> set (gen_blocks m fc)" for k v using gap that by blast
    have s: "settled lower ?st = {..<fc}" using True unfolding settled_def f by (auto intro: less_trans)
    show ?thesis unfolding gen_inv_def Let_def s
      using True assms(2,3) B L pre unfolding f by (auto simp: claims_ok_def dest: gap')
  next
    case False
    have f: "gen_init fc lower segsize = \<lparr>new_claim = True, claim_start = 0, claim_length = 0,
        next_claim_start = 0, est_seg_size = est_overhead segsize, rpt_lower = lower, rpt_upper = lower,
        seg_bytes_claimed = 0, total_bytes_claimed = 0, cur_claims = [], reports = []\<rparr>"
      using False by (simp add: gen_init_def)
    show ?thesis using False assms(2) B L unfolding f by (auto simp: gen_inv_def settled_def claims_ok_def)
  qed
qed

lemma gen_claims_exact:
  assumes "contig_inv m fc" and "lower < U" and "fc < U"
  shows "\<exists>st. gen_claims m fc lower U segsize = Some st \<and> (\<forall>a \<in> set (reports st). args_ok (blk_bytes m) lower U a)
    \<and> rep_set (reports st) = blk_bytes m \<inter> {lower..<U}"
  unfolding gen_claims_def by (rule gen_finish_done [OF gen_loop_done [OF gen_init_inv [OF assms]]])

section \<open>Claims for any bounds\<close>

text \<open>
  Whatever bounds the generator is given, a claim that it makes is true: every byte of it has been
  received, and it starts at or after the lower bound of its report.
\<close>

definition claims_true :: "u64 set \<Rightarrow> u64 \<Rightarrow> (u64, u64) omap \<Rightarrow> bool" where
  "claims_true B lo cm \<longleftrightarrow> om_wf cm \<and> (\<forall>c l. (c, l) \<in> set cm \<longrightarrow> lo \<le> c \<and> c < c + l \<and> {c..<c + l} \<subseteq> B)"

definition args_true :: "u64 set \<Rightarrow> report_args \<Rightarrow> bool" where
  "args_true B = (\<lambda>(lo, hi, n, cm). claims_true B lo cm)"

definition gen_true :: "u64 set \<Rightarrow> gen_state \<Rightarrow> bool" where
  "gen_true B st \<longleftrightarrow> claims_true B (rpt_lower st) (cur_claims st) \<and> (\<forall>a \<in> set (reports st). args_true B a)
     \<and> (\<not> new_claim st \<longrightarrow> rpt_lower st \<le> claim_start st \<and> claim_start st < claim_start st + claim_length st
          \<and> {claim_start st..<claim_start st + claim_length st} \<subseteq> B
          \<and> next_claim_start st = claim_start st + claim_length st)"

lemma claims_true_save:
  "claims_true B lo cm \<Longrightarrow> lo \<le> c \<Longrightarrow> c < c + l \<Longrightarrow> {c..<c + l} \<subseteq> B \<Longrightarrow> claims_true B lo (om_assign c l cm)"
  using om_assign_mem [of _ _ c l cm] om_wf_assign [of cm c l] unfolding claims_true_def by blast

lemma true_start:
  assumes "gen_true B st" and "k \<le> v" "v \<noteq> -1" "{k..v} \<subseteq> B" and "\<not> v < rpt_lower st"
  shows "gen_true B (start_claim k v st)"
proof -
  let ?cs = "if k < rpt_lower st then rpt_lower st else k"
  have "?cs \<le> v" using assms(2,5) by (auto simp: not_less)
  then have lt: "?cs < v + 1" using succ_less [OF assms(3)] by (meson le_less_trans)
  have "{?cs..<v + 1} \<subseteq> {k..v}" using assms(3) by (auto simp: word_less_succ_iff intro: order.trans)
  then have "{?cs..<v + 1} \<subseteq> B" using assms(4) by blast
  then show ?thesis using assms(1) lt by (auto simp: gen_true_def start_claim_eq Let_def)
qed

lemma true_extend:
  assumes "gen_true B st" and "k \<le> v" "v \<noteq> -1" "{k..v} \<subseteq> B" and "\<not> new_claim st" and "next_claim_start st = k"
  shows "gen_true B (extend_claim k v st)"
proof -
  have k: "claim_start st + claim_length st = k" "claim_start st < k" "{claim_start st..<k} \<subseteq> B"
    using assms(1,5,6) by (auto simp: gen_true_def)
  have "claim_start st < v + 1" using k(2) assms(2) succ_less [OF assms(3)] by (meson le_less_trans less_trans)
  moreover have "{claim_start st..<v + 1} \<subseteq> {claim_start st..<k} \<union> {k..v}" using assms(3) by (auto simp: word_less_succ_iff)
  then have "{claim_start st..<v + 1} \<subseteq> B" using k(3) assms(4) by blast
  moreover have f: "claim_start (extend_claim k v st) = claim_start st"
    "claim_start st + claim_length (extend_claim k v st) = v + 1" "next_claim_start (extend_claim k v st) = v + 1"
    by (simp_all add: extend_claim_def Let_def algebra_simps flip: k(1))
  moreover have "new_claim (extend_claim k v st) = new_claim st" "rpt_lower (extend_claim k v st) = rpt_lower st"
    "cur_claims (extend_claim k v st) = cur_claims st" "reports (extend_claim k v st) = reports st"
    by (simp_all add: extend_claim_def Let_def)
  ultimately show ?thesis using assms(1,5) unfolding gen_true_def by (simp only: f simp_thms) blast
qed

lemma true_save: "gen_true B st \<Longrightarrow> \<not> new_claim st \<Longrightarrow> gen_true B (reset_claim (save_claim st))"
  by (simp add: gen_true_def reset_claim_def save_claim_def claims_true_save)

lemma true_close:
  assumes "gen_true B st" and "\<not> new_claim st"
  shows "gen_true B ((close_report U segsize (save_claim st))\<lparr>new_claim := True\<rparr>)"
    and "gen_true B (reset_claim (close_report U segsize (save_claim st)))"
  using assms claims_true_save [of B "rpt_lower st" "cur_claims st" "claim_start st" "claim_length st"]
  by (auto simp: gen_true_def reset_claim_def save_claim_def close_report_def args_true_def claims_true_def)

lemma gen_loop_true:
  "gen_true B st \<Longrightarrow> \<forall>k v. (k, v) \<in> set L \<longrightarrow> k \<le> v \<and> v \<noteq> -1 \<and> {k..v} \<subseteq> B \<Longrightarrow> gen_true B (gen_loop U segsize L st)"
proof (induction U segsize L st rule: gen_loop.induct)
  case (2 U segsize k v rest st)
  have kv: "k \<le> v" "v \<noteq> -1" "{k..v} \<subseteq> B" and rest: "\<forall>k v. (k, v) \<in> set rest \<longrightarrow> k \<le> v \<and> v \<noteq> -1 \<and> {k..v} \<subseteq> B"
    using 2(7) by auto
  show ?case
  proof (cases "v < rpt_lower st \<or> U \<le> k \<or> new_claim st \<or> next_claim_start st = k")
    case True
    then show ?thesis
      using "2.IH"(1-3) rest 2(6) true_start [OF 2(6) kv] true_extend [OF 2(6) kv]
      by (cases "v < rpt_lower st"; cases "new_claim st"; cases "U \<le> k") (simp_all add: gen_loop.simps(2) not_less)
  next
    case False
    then have c: "\<not> v < rpt_lower st" "\<not> new_claim st" "\<not> U \<le> k" "next_claim_start st \<noteq> k" by auto
    define st1 where "st1 = save_claim st"
    define st2 where "st2 = close_report U segsize st1"
    note IH = "2.IH"(4,5) [OF c(1-4) st1_def]
    note close = true_close [OF 2(6) c(2), of U segsize, folded st1_def, folded st2_def]
    have "gen_loop U segsize ((k, v) # rest) st =
        (if est_seg_size st1 \<ge> segsize then
           if U = rpt_upper st2 then st2\<lparr>new_claim := True\<rparr> else gen_loop U segsize ((k, v) # rest) (reset_claim st2)
         else gen_loop U segsize ((k, v) # rest) (reset_claim st1))"
      using c by (simp add: gen_loop.simps(2) Let_def st1_def st2_def)
    then show ?thesis
      using close IH true_save [OF 2(6) c(2), folded st1_def] st2_def 2(7) by auto
  qed
qed (simp add: gen_loop.simps)

lemma no_wrap_less:
  fixes c l m :: u64
  assumes "c < c + l" and "0 < m" and "m \<le> l"
  shows "c < c + m" and "c + m \<le> c + l"
proof -
  have "unat c + unat l < 2 ^ 64" using assms(1) no_olen_add_nat [of c l] by (simp add: less_imp_le)
  moreover have ml: "0 < unat m" "unat m \<le> unat l" using assms(2,3) by (simp_all add: word_le_nat_alt word_less_nat_alt)
  ultimately have "unat (c + m) = unat c + unat m" "unat (c + l) = unat c + unat l"
    by (simp_all add: unat_word_ariths)
  then show "c < c + m" "c + m \<le> c + l" using ml by (simp_all add: word_le_nat_alt word_less_nat_alt)
qed

lemma gen_finish_true:
  assumes "gen_true B st" and "gen_finish U st = Some st'"
  shows "\<forall>a \<in> set (reports st'). args_true B a"
proof (cases "new_claim st")
  case True then show ?thesis using assms by (simp add: gen_finish_def gen_true_def)
next
  case False
  define cl where "cl = (if U < rpt_upper st then claim_length st - (rpt_upper st - U) else claim_length st)"
  have I: "rpt_lower st \<le> claim_start st" "claim_start st < claim_start st + claim_length st"
    "{claim_start st..<claim_start st + claim_length st} \<subseteq> B" "claims_true B (rpt_lower st) (cur_claims st)"
    "\<forall>a \<in> set (reports st). args_true B a"
    using assms(1) False by (auto simp: gen_true_def)
  have "claim_length st \<noteq> 0" using I(2) by auto
  then have cl: "cl \<le> claim_length st" "cl \<noteq> 0"
    "\<exists>hi n. reports st' = reports st @ [(rpt_lower st, hi, n, om_assign (claim_start st) cl (cur_claims st))]"
    using False assms(2) word_sub_le [of "rpt_upper st - U" "claim_length st"]
    by (auto simp: gen_finish_def cl_def Let_def less_imp_le split: if_splits)
  have "0 < cl" using cl(2) by (simp add: word_neq_0_conv)
  note w = no_wrap_less [OF I(2) this cl(1)]
  have "{claim_start st..<claim_start st + cl} \<subseteq> B" using I(3) w(2) by (meson atLeastLessThan_subset_iff order.refl order.trans ivl_subset)
  then have "claims_true B (rpt_lower st) (om_assign (claim_start st) cl (cur_claims st))"
    by (rule claims_true_save [OF I(4,1) w(1)])
  then show ?thesis using cl(3) I(5) by (auto simp: args_true_def)
qed

section \<open>Properties\<close>

text \<open>The first form of report, \<open>got it all\<close>, is made only when the block is complete.\<close>

lemma got_it_all:
  assumes "reassembly_inv blk s" and "blk \<noteq> []" and "length blk < 2 ^ 63"
    and "red_complete s" and "red_bytes_received s = expected_red_bytes s"
  shows "blk_bytes (red_contig_blocks s) = {0..<red_bytes_received s}" and "0 < red_bytes_received s"
proof -
  note I = reassembly_invD [OF assms(1)]
  have "red_eob_received s" "\<not> red_processed s" using I(8,9) assms(4) by auto
  then have full: "is_red_full s = red_bytes_received s" using assms(4,5) by (simp add: is_red_full_def)
  obtain k d where "(k, d) \<in> set (red_segments s)" using I(7) \<open>red_eob_received s\<close> by blast
  then have "0 < unat (expected_red_bytes s)" using I(5) by fastforce
  then show pos: "0 < red_bytes_received s" using assms(5) by (simp add: word_less_nat_alt)
  then have all: "seg_bytes (red_segments s) = all_bytes blk" "red_bytes_received s = of_nat (length blk)"
    using full reassembly_full [OF assms(1-3)] by (auto split: if_splits)
  then have "unat (red_bytes_received s) = length blk" using assms(3) by (simp add: unsigned_of_nat take_bit_nat_eq_self)
  then show "blk_bytes (red_contig_blocks s) = {0..<red_bytes_received s}"
    using I(3) all(1) by (auto simp: all_bytes_def word_less_nat_alt)
qed

text \<open>Every claim of every report is true, whatever range is asked for.\<close>

lemma gen_init_true:
  assumes "contig_inv m fc"
  shows "gen_true (blk_bytes m) (gen_init fc lower segsize)"
proof -
  have "{0..<fc} \<subseteq> blk_bytes m" using assms by (auto simp: contig_inv_def prefix_len_def)
  then have "{lower..<fc} \<subseteq> blk_bytes m" by (auto intro: order.trans)
  then show ?thesis by (simp add: gen_true_def gen_init_def claims_true_def Let_def)
qed

lemma gen_blocks_sub: "set (gen_blocks m k) \<subseteq> set m"
  by (auto simp: gen_blocks_def Let_def om_below_def om_from_def dest: last_in_set set_takeWhileD set_dropWhileD)

lemma gen_claims_true:
  assumes "contig_inv m fc" and "gen_claims m fc lower upper segsize = Some st"
  shows "\<forall>a \<in> set (reports st). args_true (blk_bytes m) a"
proof (rule gen_finish_true [OF _ assms(2) [unfolded gen_claims_def]], rule gen_loop_true [OF gen_init_true [OF assms(1)]], intro allI impI)
  fix k v assume "(k, v) \<in> set (gen_blocks m (if fc > lower then fc else lower))"
  then have "(k, v) \<in> set m" using gen_blocks_sub by blast
  then show "k \<le> v \<and> v \<noteq> -1 \<and> {k..v} \<subseteq> blk_bytes m"
    using blocks_ok_entry [of m k v] blk_bytesI [of k v m] assms(1) by (auto simp: contig_inv_def)
qed

lemma report_plan_true:
  assumes "reassembly_inv blk s" and "blk \<noteq> []" and "length blk < 2 ^ 63" and "0 < upper"
    and "report_plan s lower upper segsize = Some (n0, rs)"
  shows "\<forall>a \<in> set rs. args_true (blk_bytes (red_contig_blocks s)) a"
proof -
  let ?B = "blk_bytes (red_contig_blocks s)"
  have c: "contig_inv (red_contig_blocks s) (first_contiguous_bytes s)" using reassembly_invD(1) [OF assms(1)] .
  have one: "args_true ?B (0, n, n, [(0, n)])" if "0 < n" "{0..<n} \<subseteq> ?B" for n
    using that by (simp add: args_true_def claims_true_def)
  consider (all) "red_complete s \<and> red_bytes_received s = expected_red_bytes s"
    | (prefix) "\<not> (red_complete s \<and> red_bytes_received s = expected_red_bytes s)" "first_contiguous_bytes s \<ge> upper"
    | (gaps) "\<not> (red_complete s \<and> red_bytes_received s = expected_red_bytes s)" "\<not> first_contiguous_bytes s \<ge> upper"
    by blast
  then show ?thesis
  proof cases
    case all
    then have "{0..<red_bytes_received s} \<subseteq> ?B" "0 < red_bytes_received s" using got_it_all [OF assms(1-3)] by auto
    then show ?thesis using one all assms(5) by (auto simp: report_plan_def)
  next
    case prefix
    have "{0..<upper} \<subseteq> ?B" using c prefix(2) by (auto simp: contig_inv_def prefix_len_def)
    then show ?thesis using one [OF assms(4)] prefix assms(5) by (auto simp: report_plan_def)
  next
    case gaps
    then obtain st where "gen_claims (red_contig_blocks s) (first_contiguous_bytes s) lower upper segsize = Some st" "rs = reports st"
      using assms(5) by (auto simp: report_plan_def)
    then show ?thesis using gen_claims_true [OF c] by blast
  qed
qed

lemma report_plan_exact:
  assumes "reassembly_inv blk s" and "blk \<noteq> []" and "length blk < 2 ^ 63" and "lower < upper"
  defines "B \<equiv> blk_bytes (red_contig_blocks s)"
  shows "\<exists>total rs lo hi. report_plan s lower upper segsize = Some (total, rs)
    \<and> rep_set rs = B \<inter> {lo..<hi} \<and> (\<forall>a \<in> set rs. args_ok B lo hi a)
    \<and> lo \<le> lower \<and> (upper \<le> hi \<or> B \<subseteq> {lo..<hi})"
proof -
  have c: "contig_inv (red_contig_blocks s) (first_contiguous_bytes s)" using reassembly_invD(1) [OF assms(1)] .
  have simple: "args_ok B 0 n (0, n, n, [(0, n)]) \<and> rep_set [(0, n, n, [(0, n)])] = B \<inter> {0..<n}"
    if "0 < n" "{0..<n} \<subseteq> B" for n
    using that by (auto simp: args_ok_def claims_ok_def rep_set_def claim_set_def)
  consider (all) "red_complete s \<and> red_bytes_received s = expected_red_bytes s"
    | (prefix) "\<not> (red_complete s \<and> red_bytes_received s = expected_red_bytes s)" "first_contiguous_bytes s \<ge> upper"
    | (gaps) "\<not> (red_complete s \<and> red_bytes_received s = expected_red_bytes s)" "first_contiguous_bytes s < upper"
    by force
  then show ?thesis
  proof cases
    case all
    then have n: "B = {0..<red_bytes_received s}" "0 < red_bytes_received s"
      using got_it_all [OF assms(1-3)] by (auto simp: B_def)
    have "report_plan s lower upper segsize = Some (red_bytes_received s,
        [(0, red_bytes_received s, red_bytes_received s, [(0, red_bytes_received s)])])"
      using all by (simp add: report_plan_def)
    then show ?thesis
      using simple [OF n(2)] n(1)
      by (intro exI [of _ "red_bytes_received s"] exI [of _ "[(0, red_bytes_received s, red_bytes_received s, [(0, red_bytes_received s)])]"]
          exI [of _ 0]) simp
  next
    case prefix
    have "0 < upper" using assms(4) by (auto intro: le_less_trans)
    moreover have "{0..<upper} \<subseteq> B" using c prefix(2) by (auto simp: B_def contig_inv_def prefix_len_def)
    moreover have "report_plan s lower upper segsize = Some (upper, [(0, upper, upper, [(0, upper)])])"
      using prefix by (auto simp: report_plan_def)
    ultimately show ?thesis
      using simple [of upper] by (intro exI [of _ 0] exI [of _ upper] exI conjI) auto
  next
    case gaps
    obtain st where st: "gen_claims (red_contig_blocks s) (first_contiguous_bytes s) lower upper segsize = Some st"
      "\<forall>a \<in> set (reports st). args_ok B lower upper a" "rep_set (reports st) = B \<inter> {lower..<upper}"
      using gen_claims_exact [OF c assms(4) gaps(2), of segsize] by (auto simp: B_def)
    have "report_plan s lower upper segsize = Some (total_bytes_claimed st, reports st)"
      using gaps st(1) by (simp only: report_plan_def not_le [symmetric] if_False option.map)
    then show ?thesis using st(2,3) order.refl by blast
  qed
qed

text \<open>
  C9. The reports for a checkpoint tell the truth and the whole truth. Let the segments received be
  pieces of a block, cut at the same places, in any order and with any repetition, and let \<open>lower\<close> and
  \<open>upper\<close> be the range of the report. Then the assertion of the generator holds, the claims of the
  reports cover exactly the bytes received in the range of each of the three forms of report, and every
  claim lies in the bounds of its report.
\<close>
theorem reports_exact:
  assumes "blk \<noteq> []" and "\<forall>d \<in> set ds. piece blk d" and "same_cuts ds" and "length blk < 2 ^ 63"
    and "lower < upper"
  shows "\<exists>s total rs lo hi. fold_opt (receive fuel) (session_init eng ses ckpt serial) ds = Some s
    \<and> report_plan s lower upper segsize = Some (total, rs)
    \<and> rep_set rs = (\<Union>d \<in> set ds. seg_range d) \<inter> {lo..<hi}
    \<and> (\<forall>a \<in> set rs. args_ok (\<Union>d \<in> set ds. seg_range d) lo hi a)
    \<and> lo \<le> lower \<and> (upper \<le> hi \<or> (\<Union>d \<in> set ds. seg_range d) \<subseteq> {lo..<hi})"
proof -
  let ?D = "\<Union>d \<in> set ds. seg_range d"
  have "seg_bytes (red_segments (session_init eng ses ckpt serial)) = (\<Union>d \<in> set []. seg_range d)"
    by (simp add: session_init_def seg_bytes_def)
  then obtain s where s: "fold_opt (receive fuel) (session_init eng ses ckpt serial) ds = Some s" "reassembly_inv blk s"
    "seg_bytes (red_segments s) = ?D"
    using receive_all [OF reassembly_init assms(2), of eng ses ckpt serial "[]" fuel] assms(3) by auto
  have B: "blk_bytes (red_contig_blocks s) = ?D" using reassembly_invD(3) [OF s(2)] s(3) by auto
  show ?thesis
    using s(1) report_plan_exact [OF s(2) assms(1,4,5), of segsize] unfolding B
    by (elim exE, intro exI [of _ s]) simp
qed

theorem reports_exact_witness:
  "\<exists>s total rs lo hi. fold_opt (receive 1) (session_init 5 9 100 200)
        [demo_piece 0 [1, 2] False, demo_piece 4 [5, 6] True] = Some s
     \<and> report_plan s 0 6 1400 = Some (total, rs) \<and> rep_set rs = ({0..1} \<union> {4..5}) \<inter> {lo..<hi} \<and> lo \<le> 0"
proof -
  let ?blk = "[1, 2, 3, 4, 5, 6] :: bytes"
  let ?ds = "[demo_piece 0 [1, 2] False, demo_piece 4 [5, 6] True]"
  have p: "\<forall>d \<in> set ?ds. piece ?blk d" by (simp add: piece_def)
  have r: "seg_range (demo_piece 0 [1, 2] False) = {0..1}" "seg_range (demo_piece 4 [5, 6] True) = {4..5}"
    by (simp_all add: seg_range_def)
  have "{4..5} \<inter> {0..1} = ({} :: u64 set)" by (auto simp: word_le_nat_alt)
  then have c: "same_cuts ?ds" using r by (auto simp: same_cuts_def)
  show ?thesis using reports_exact [OF _ p c, of 0 6 1 5 9 100 200 1400] r by auto
qed

text \<open>
  The claims are right but the number of bytes claimed that goes with them is not. With the first
  two bytes of a block of six and the last two received, the one report claims four bytes and is
  labelled with six, and so is the result of the call: the first block is counted when the claim is
  prepared and again when the loop meets it. When the size limit splits the claims over two reports, the
  count of the first is carried into the second, which
  claims two bytes and is labelled with four.
\<close>
theorem claimed_bytes_overstated:
  "map_option (\<lambda>st. (total_bytes_claimed st, reports st)) (gen_claims [(0, 1), (4, 5)] 2 0 6 1400)
     = Some (6, [(0, 6, 6, [(0, 2), (4, 2)])])
   \<and> map_option (\<lambda>st. (total_bytes_claimed st, reports st)) (gen_claims [(0, 1), (4, 5)] 2 0 6 1)
     = Some (6, [(0, 2, 2, [(0, 2)]), (2, 6, 4, [(4, 2)])])"
  by code_simp

end
