(* ===== verification/Ltp_Receiver.thy ===== *)
theory Ltp_Receiver
  imports Ltp_Report
begin

text \<open>
  \<open>LTPNode::Receiver\<close> of \<open>src/servlib/ltp/LTPEngine.cc\<close>: the sessions that arrive from one remote
  engine, and the sessions that were closed and are remembered for a while. A handler takes a segment or
  a timer and yields what it sends, what it hands to the bundle processor, and the new state; \<open>None\<close> is a
  failed assertion or a null pointer. Statistics, logging, security and the disk files of large sessions
  are not modelled. What depends on the surroundings is in the record \<open>rcv_env\<close>: the random numbers of a
  new session and of a report for a closed session, whether the queue of the bundle processor has room, the
  answer of the bundle store to a reservation, the configured report size, and the fuel of the trimming loop.
\<close>

section \<open>State\<close>

datatype session_state = STATE_UNKNOWN | STATE_RS | STATE_CS | STATE_DS | STATE_CREATED | STATE_UNDEFINED

record rcv_session =
  rcv_sess :: ltp_session
  sess_state :: session_state
  cancel_seg :: "ltp_cancel_segment option"

type_synonym session_key = "u64 \<times> u64"

record ltp_receiver =
  incoming_sessions :: "session_key \<Rightarrow> rcv_session option"
  closed_session_map :: "u64 \<Rightarrow> u64 option"

record rcv_env =
  env_checkpoint :: u64
  env_serial :: u64
  env_closed_serial :: u64
  env_queue_ok :: bool
  env_reserve :: "u64 \<Rightarrow> bool"
  env_seg_size :: int
  env_fuel :: nat

text \<open>What a handler does: send a segment, or post the segments of a complete block.\<close>

datatype rcv_effect = Send any_segment | Post ds_map u64 bool

definition is_ltp_cancelled :: "rcv_session \<Rightarrow> bool" where
  "is_ltp_cancelled s \<longleftrightarrow> sess_state s = STATE_CS"

definition data_processed :: "ltp_session \<Rightarrow> bool" where
  "data_processed s \<longleftrightarrow> red_processed s \<or> green_processed s"

definition new_rcv_session :: "rcv_env \<Rightarrow> u64 \<Rightarrow> u64 \<Rightarrow> rcv_session" where
  "new_rcv_session env eng ses =
     \<lparr>rcv_sess = session_init eng ses (env_checkpoint env) (env_serial env), sess_state = STATE_CREATED, cancel_seg = None\<rparr>"

text \<open>Whether the session is closed, its size, whether it was cancelled, the session, and the receiver.\<close>

definition find_incoming_session ::
    "rcv_env \<Rightarrow> session_key \<Rightarrow> bool \<Rightarrow> ltp_receiver \<Rightarrow> bool \<times> u64 \<times> bool \<times> rcv_session option \<times> ltp_receiver" where
  "find_incoming_session env key create_flag r =
     (case closed_session_map r (snd key) of
        Some nbytes \<Rightarrow> (True, nbytes, nbytes = 0, None, r)
      | None \<Rightarrow>
          (case incoming_sessions r key of
             Some s \<Rightarrow> (False, 0, False, Some s, r)
           | None \<Rightarrow>
               if create_flag then
                 let s = new_rcv_session env (fst key) (snd key)
                 in (False, 0, False, Some s, r\<lparr>incoming_sessions := (incoming_sessions r)(key \<mapsto> s)\<rparr>)
               else (False, 0, False, None, r)))"

definition put_session :: "session_key \<Rightarrow> rcv_session \<Rightarrow> ltp_receiver \<Rightarrow> ltp_receiver" where
  "put_session key s r = r\<lparr>incoming_sessions := (incoming_sessions r)(key \<mapsto> s)\<rparr>"

definition erase_incoming_session :: "session_key \<Rightarrow> rcv_session \<Rightarrow> ltp_receiver \<Rightarrow> ltp_receiver" where
  "erase_incoming_session key s r =
     r\<lparr>incoming_sessions := (incoming_sessions r)(key := None),
       closed_session_map := (closed_session_map r)
         (snd key \<mapsto> (if is_ltp_cancelled s then 0 else red_bytes_received (rcv_sess s)))\<rparr>"

section \<open>Cancel segments and reports\<close>

abbreviation REASON_UNREACHABLE :: u8 where "REASON_UNREACHABLE \<equiv> 1"
abbreviation REASON_RLEXC :: u8 where "REASON_RLEXC \<equiv> 2"
abbreviation REASON_SYS_CNCLD :: u8 where "REASON_SYS_CNCLD \<equiv> 4"
abbreviation REASON_RXMTCYCEX :: u8 where "REASON_RXMTCYCEX \<equiv> 5"

text \<open>\<open>LTPSegment(const LTPSession*)\<close> and the copy of a segment, as far as the cancel constructors use them.\<close>

definition session_cancel_base :: "ltp_session \<Rightarrow> ltp_cancel_segment" where
  "session_cancel_base s = blank_cancel_segment\<lparr>engine_id := sess_engine_id s, session_id := sess_session_id s,
     client_service_id := 1, packet := [0]\<rparr>"

definition segment_cancel_base :: "'a ltp_segment_scheme \<Rightarrow> ltp_cancel_segment" where
  "segment_cancel_base s =
     blank_cancel_segment\<lparr>segment_type := segment_type s, engine_id := engine_id s, session_id := session_id s,
       serial_number := serial_number s, checkpoint_id := checkpoint_id s, control_flags := control_flags s,
       is_checkpoint := is_checkpoint s, is_redendofblock := is_redendofblock s, is_greenendofblock := is_greenendofblock s,
       is_security_enabled := is_security_enabled s, version_number := version_number s, header_exts := header_exts s,
       trailer_exts := trailer_exts s, packet_len := packet_len s, client_service_id := client_service_id s,
       cipher_suite := cipher_suite s, cipher_key_id := cipher_key_id s, is_valid := is_valid s,
       red_green_none := red_green_none s\<rparr>"

definition build_CS_for_session :: "u8 \<Rightarrow> rcv_session \<Rightarrow> rcv_effect list \<times> rcv_session" where
  "build_CS_for_session reason s =
     (let c = new_cancel_segment (session_cancel_base (rcv_sess s)) LTP_SEGMENT_CS_BR reason in
      if \<not> is_ltp_cancelled s then ([Send (Seg_CS c)], s\<lparr>sess_state := STATE_CS, cancel_seg := Some c\<rparr>) else ([], s))"

definition build_CS_for_segment :: "u8 \<Rightarrow> 'a ltp_segment_scheme \<Rightarrow> rcv_effect list" where
  "build_CS_for_segment reason seg = [Send (Seg_CS (new_cancel_segment (segment_cancel_base seg) LTP_SEGMENT_CS_BR reason))]"

definition build_CAS_for_CSS :: "ltp_cancel_segment \<Rightarrow> rcv_effect list" where
  "build_CAS_for_CSS seg =
     [Send (Seg_CAS (new_cancel_ack (base_segment\<lparr>engine_id := engine_id seg, session_id := session_id seg\<rparr>) 0x0d))]"

definition generate_RS :: "rcv_env \<Rightarrow> ltp_data_segment \<Rightarrow> rcv_session \<Rightarrow> (rcv_effect list \<times> rcv_session) option" where
  "generate_RS env ds s =
     (case have_report_segments_to_send ds (env_seg_size env) (rcv_sess s) of
        None \<Rightarrow> None
      | Some (found, bytes_claimed, s1) \<Rightarrow>
          let rpts = (if found then filter (\<lambda>r. checkpoint_id r = checkpoint_id ds) (map snd (report_segments s1)) else [])
          in Some (map (Send \<circ> Seg_RS) rpts,
                   s\<lparr>rcv_sess := s1, sess_state := (if rpts = [] then sess_state s else STATE_RS)\<rparr>))"

text \<open>The answer to a checkpoint, in three places of the code.\<close>

definition answer_checkpoint :: "rcv_env \<Rightarrow> ltp_data_segment \<Rightarrow> rcv_session \<Rightarrow> (rcv_effect list \<times> rcv_session) option" where
  "answer_checkpoint env ds s =
     (if is_checkpoint ds
      then generate_RS env ds (s\<lparr>rcv_sess := session_set_checkpoint_id (checkpoint_id ds) (rcv_sess s)\<rparr>)
      else Some ([], s))"

definition cleanup_RS :: "u64 \<Rightarrow> rcv_session \<Rightarrow> rcv_session" where
  "cleanup_RS serial s =
     s\<lparr>rcv_sess := (rcv_sess s)\<lparr>report_segments := om_erase serial (report_segments (rcv_sess s))\<rparr>\<rparr>"

definition closed_session_report :: "rcv_env \<Rightarrow> u64 \<Rightarrow> ltp_data_segment \<Rightarrow> ltp_report_segment" where
  "closed_session_report env nbytes ds =
     new_report_segment (blank_report_segment\<lparr>engine_id := engine_id ds, session_id := session_id ds\<rparr>)
       (env_closed_serial env) (checkpoint_id ds) 0 nbytes nbytes [(0, nbytes)]"

section \<open>Data segments\<close>

text \<open>\<open>AddSegment_incoming\<close> trims a segment in place; this is the segment afterwards.\<close>

definition incoming_segment :: "nat \<Rightarrow> ltp_data_segment \<Rightarrow> ltp_session \<Rightarrow> ltp_data_segment" where
  "incoming_segment fuel ds s =
     (let s0 = (if is_redendofblock ds then s\<lparr>red_eob_received := True\<rparr> else s);
          trimmed = (\<lambda>s1. case check_and_trim fuel s1 ds of Some (_, _, ds') \<Rightarrow> ds' | None \<Rightarrow> ds)
      in if red_green_none ds = RED_SEGMENT then
           (case check_red_contig_blocks (red_contig_blocks s0) (first_contiguous_bytes s0) (start_byte ds) (stop_byte ds) of
              None \<Rightarrow> ds
            | Some (overlap, duplicate, m, fc) \<Rightarrow>
                if duplicate \<or> \<not> overlap then ds else trimmed (s0\<lparr>red_contig_blocks := m, first_contiguous_bytes := fc\<rparr>))
         else if red_green_none ds = GREEN_SEGMENT then trimmed s0 else ds)"

text \<open>\<open>Set_EOB\<close>, which also marks the stored segment.\<close>

definition note_endofblock :: "ltp_data_segment \<Rightarrow> ltp_session \<Rightarrow> ltp_session" where
  "note_endofblock ds s =
     (if is_endofblock ds then
        let (s1, ds1) = set_eob ds s in
        if is_red ds then s1\<lparr>red_segments := om_modify (start_byte ds) (\<lambda>_. ds1) (red_segments s1)\<rparr>
        else s1\<lparr>green_segments := om_modify (start_byte ds) (\<lambda>_. ds1) (green_segments s1)\<rparr>
      else s)"

text \<open>The end of the handler: a complete green block is posted and its session erased.\<close>

definition finish_green :: "rcv_env \<Rightarrow> bool \<Rightarrow> rcv_session \<Rightarrow> rcv_effect list \<times> rcv_session \<times> bool" where
  "finish_green env multi s =
     (let n = is_green_full (rcv_sess s) in
      if n > 0 then
        if env_reserve env n then
          let (segs, s1) = get_all_green_data (rcv_sess s) in ([Post segs n multi], s\<lparr>rcv_sess := s1\<rparr>, True)
        else ([], s, True)
      else ([], s, False))"

text \<open>
  A new segment has been added. The red block may be complete: then the bundle store must have room, and
  the block is posted after the checkpoint has been answered.
\<close>

definition after_adding :: "rcv_env \<Rightarrow> ltp_data_segment \<Rightarrow> rcv_session \<Rightarrow> (rcv_effect list \<times> rcv_session \<times> bool) option" where
  "after_adding env ds s =
     (let s1 = s\<lparr>rcv_sess := note_endofblock ds (rcv_sess s)\<rparr>;
          red_bytes = is_red_full (rcv_sess s1); multi = (client_service_id ds = 2)
      in if red_bytes > 0 \<and> \<not> (env_queue_ok env \<and> env_reserve env red_bytes) then
           let (out, s2) = build_CS_for_session REASON_SYS_CNCLD s1 in Some (out, s2, False)
         else
           (case answer_checkpoint env ds s1 of
              None \<Rightarrow> None
            | Some (out, s2) \<Rightarrow>
                if red_bytes > 0 then
                  (case get_all_red_data (rcv_sess s2) of
                     None \<Rightarrow> None
                   | Some (segs, sess3) \<Rightarrow>
                       let (out', s4, gone) = finish_green env multi (s2\<lparr>rcv_sess := sess3\<rparr>)
                       in Some (out @ [Post segs red_bytes multi] @ out', s4, gone))
                else
                  let (out', s4, gone) = finish_green env multi s2 in Some (out @ out', s4, gone)))"

text \<open>What is sent and posted, the session, and whether it is erased.\<close>

definition process_incoming_data_segment ::
    "rcv_env \<Rightarrow> ltp_data_segment \<Rightarrow> rcv_session \<Rightarrow> (rcv_effect list \<times> rcv_session \<times> bool) option" where
  "process_incoming_data_segment env ds s =
     (if client_service_id ds \<noteq> 1 \<and> client_service_id ds \<noteq> 2 then
        if is_red ds then let (out, s1) = build_CS_for_session REASON_UNREACHABLE s in Some (out, s1, False)
        else Some ([], s, True)
      else
        let s0 = s\<lparr>sess_state := STATE_DS\<rparr>; keep = map_option (\<lambda>(out, s1). (out, s1, False)) in
        if data_processed (rcv_sess s0) then keep (answer_checkpoint env ds s0)
        else
          (case add_segment_incoming (env_fuel env) ds True (rcv_sess s0) of
             None \<Rightarrow> None
           | Some (result, sess1) \<Rightarrow>
               let ds1 = incoming_segment (env_fuel env) ds (rcv_sess s0); s1 = s0\<lparr>rcv_sess := sess1\<rparr> in
               if result = -1 then keep (answer_checkpoint env ds1 s1) else after_adding env ds1 s1))"

section \<open>Any segment\<close>

definition settle :: "session_key \<Rightarrow> ltp_receiver \<Rightarrow> rcv_effect list \<times> rcv_session \<times> bool \<Rightarrow> rcv_effect list \<times> ltp_receiver" where
  "settle key r = (\<lambda>(out, s, gone). (out, if gone then erase_incoming_session key s r else put_session key s r))"

definition closed_reply :: "rcv_env \<Rightarrow> u64 \<Rightarrow> bool \<Rightarrow> any_segment \<Rightarrow> rcv_effect list" where
  "closed_reply env nbytes cancelled seg =
     (case seg of
        Seg_CS c \<Rightarrow> if segment_type c = LTP_SEGMENT_CS_BS then build_CAS_for_CSS c else []
      | Seg_DS ds \<Rightarrow>
          if cancelled then build_CS_for_segment REASON_SYS_CNCLD ds
          else if is_checkpoint ds then [Send (Seg_RS (closed_session_report env nbytes ds))] else []
      | _ \<Rightarrow> [])"

definition seg_key :: "any_segment \<Rightarrow> session_key" where
  "seg_key seg =
     (case seg of Seg_DS d \<Rightarrow> (engine_id d, session_id d) | Seg_RS d \<Rightarrow> (engine_id d, session_id d)
      | Seg_RAS d \<Rightarrow> (engine_id d, session_id d) | Seg_CS d \<Rightarrow> (engine_id d, session_id d)
      | Seg_CAS d \<Rightarrow> (engine_id d, session_id d) | Seg_Invalid t \<Rightarrow> (0, 0))"

text \<open>
  A segment for a session that is open. A session that is being cancelled takes only cancel segments and
  their acknowledgements; a cancel segment from the sender is then acknowledged twice.
\<close>

definition open_session_segment ::
    "rcv_env \<Rightarrow> any_segment \<Rightarrow> rcv_session \<Rightarrow> ltp_receiver \<Rightarrow> (rcv_effect list \<times> ltp_receiver) option" where
  "open_session_segment env seg s r =
     (let key = seg_key seg in
      case seg of
        Seg_DS ds \<Rightarrow>
          if is_ltp_cancelled s then Some ([], r)
          else map_option (settle key r) (process_incoming_data_segment env ds s)
      | Seg_RAS a \<Rightarrow>
          if is_ltp_cancelled s then Some ([], r)
          else
            let s1 = cleanup_RS (serial_number a) s in
            if data_processed (rcv_sess s1) then Some ([], erase_incoming_session key s1 r)
            else Some ([], put_session key (s1\<lparr>sess_state := STATE_DS\<rparr>) r)
      | Seg_CS c \<Rightarrow>
          if segment_type c = LTP_SEGMENT_CS_BS then
            let again = (if is_ltp_cancelled s then build_CAS_for_CSS c else []);
                s1 = s\<lparr>sess_state := STATE_CS, rcv_sess := remove_segments (rcv_sess s), cancel_seg := None\<rparr>
            in Some (again @ build_CAS_for_CSS c, erase_incoming_session key s1 r)
          else Some ([], r)
      | Seg_CAS c \<Rightarrow>
          if segment_type c = LTP_SEGMENT_CAS_BR
          then Some ([], erase_incoming_session key (s\<lparr>cancel_seg := None\<rparr>) r)
          else Some ([], r)
      | _ \<Rightarrow> Some ([], r))"

definition process_segment_for_receiver ::
    "rcv_env \<Rightarrow> any_segment \<Rightarrow> ltp_receiver \<Rightarrow> (rcv_effect list \<times> ltp_receiver) option" where
  "process_segment_for_receiver env seg r =
     (let (closed, nbytes, cancelled, s, r1) =
            find_incoming_session env (seg_key seg) (case seg of Seg_DS _ \<Rightarrow> True | _ \<Rightarrow> False) r
      in if closed then Some (closed_reply env nbytes cancelled seg, r1)
         else
           (case s of
              None \<Rightarrow>
                (case seg of
                   Seg_CS c \<Rightarrow> Some (if segment_type c = LTP_SEGMENT_CS_BS then build_CAS_for_CSS c else [], r1)
                 | _ \<Rightarrow> Some ([], r1))
            | Some s1 \<Rightarrow> open_session_segment env seg s1 r1))"

text \<open>\<open>process_data_for_receiver\<close>: a datagram. A segment of an undefined type is a null pointer.\<close>

definition process_data_for_receiver :: "rcv_env \<Rightarrow> bytes \<Rightarrow> ltp_receiver \<Rightarrow> (rcv_effect list \<times> ltp_receiver) option" where
  "process_data_for_receiver env bp r =
     (case decode_buffer bp of
        Inl e \<Rightarrow> None
      | Inr None \<Rightarrow> None
      | Inr (Some (Seg_Invalid t)) \<Rightarrow> Some ([], r)
      | Inr (Some seg) \<Rightarrow> process_segment_for_receiver env seg r)"

section \<open>Timers\<close>

text \<open>The retransmission timer of a report; \<open>retry\<close> says whether the retry limit allows another one.\<close>

definition report_seg_timeout :: "bool \<Rightarrow> u64 \<Rightarrow> session_key \<Rightarrow> ltp_receiver \<Rightarrow> rcv_effect list \<times> ltp_receiver" where
  "report_seg_timeout retry serial key r =
     (case incoming_sessions r key of
        None \<Rightarrow> ([], r)
      | Some s \<Rightarrow>
          (case om_find (report_segments (rcv_sess s)) serial of
             None \<Rightarrow> ([], r)
           | Some rpt \<Rightarrow>
               if is_deleted rpt \<or> is_ltp_cancelled s then ([], r)
               else if retry then ([Send (Seg_RS rpt)], r)
               else
                 let s1 = s\<lparr>rcv_sess := (rcv_sess s)\<lparr>report_segments :=
                             om_modify serial (\<lambda>q. q\<lparr>is_deleted := True\<rparr>) (report_segments (rcv_sess s))\<rparr>\<rparr>
                 in if data_processed (rcv_sess s1) then ([], erase_incoming_session key s1 r)
                    else let (out, s2) = build_CS_for_session REASON_RLEXC s1 in (out, put_session key s2 r)))"

definition cancel_seg_timeout :: "bool \<Rightarrow> session_key \<Rightarrow> ltp_receiver \<Rightarrow> rcv_effect list \<times> ltp_receiver" where
  "cancel_seg_timeout retry key r =
     (case incoming_sessions r key of
        None \<Rightarrow> ([], r)
      | Some s \<Rightarrow>
          (case cancel_seg s of
             None \<Rightarrow> ([], r)
           | Some c \<Rightarrow> if retry then ([Send (Seg_CS c)], r) else ([], erase_incoming_session key s r)))"

text \<open>The inactivity timer, when no time is left.\<close>

definition inactivity_timer_triggered :: "session_key \<Rightarrow> ltp_receiver \<Rightarrow> rcv_effect list \<times> ltp_receiver" where
  "inactivity_timer_triggered key r =
     (case incoming_sessions r key of
        None \<Rightarrow> ([], r)
      | Some s \<Rightarrow>
          if sess_state s = STATE_DS then
            let (out, s1) = build_CS_for_session REASON_RXMTCYCEX
                  (s\<lparr>rcv_sess := remove_segments (rcv_sess s), cancel_seg := None\<rparr>)
            in (out, put_session key s1 r)
          else ([], r))"

definition closeout_timer_triggered :: "u64 \<Rightarrow> ltp_receiver \<Rightarrow> ltp_receiver" where
  "closeout_timer_triggered ses r = r\<lparr>closed_session_map := (closed_session_map r)(ses := None)\<rparr>"

end
