(* ===== verification/Ltp_Sender.thy ===== *)
theory Ltp_Sender
  imports Ltp_Report
begin

text \<open>
  The sender's side of a session, \<open>LTPNode::Sender\<close> of \<open>src/servlib/ltp/LTPEngine.cc\<close>: what a report
  does to the segments that wait for acknowledgement. The theory shows exactly which segments a report
  removes and which are sent again, whatever the report says, and that a report for a checkpoint that
  does not claim the checkpoint's own segment fails an assertion.
\<close>

section \<open>Processing a report\<close>

text \<open>
  The loop over the claims: the lower and upper bounds of the last claim, the number of segments
  claimed, the segments to send again, and the session. Claims are relative to the lower bound.
\<close>

type_synonym claim_state = "u64 \<times> u64 \<times> nat \<times> ds_map \<times> ltp_session"

definition apply_claim :: "u64 \<Rightarrow> u64 \<Rightarrow> u64 \<times> u64 \<Rightarrow> claim_state \<Rightarrow> claim_state" where
  "apply_claim ckpt rlower = (\<lambda>(off, len) (claim_lower, claim_upper, n, rt, s).
     let claim_offset = rlower + off; upper = rlower + off + len;
         (k, rt', s') = remove_claimed_segments ckpt claim_lower claim_offset upper rt s
     in (upper, upper, n + k, rt', s'))"

text \<open>The gap between the last claim and the upper bound of the report.\<close>

definition apply_tail :: "u64 \<Rightarrow> u64 \<Rightarrow> claim_state \<Rightarrow> claim_state" where
  "apply_tail ckpt rupper = (\<lambda>(claim_lower, claim_upper, n, rt, s).
     if rupper > claim_upper then
       let (k, rt', s') = remove_claimed_segments ckpt claim_lower rupper rupper rt s
       in (claim_lower, rupper, n + k, rt', s')
     else (claim_lower, claim_upper, n, rt, s))"

definition apply_report :: "ltp_report_segment \<Rightarrow> ltp_session \<Rightarrow> claim_state" where
  "apply_report rpt s =
     apply_tail (checkpoint_id rpt) (upper_bounds rpt)
       (fold (apply_claim (checkpoint_id rpt) (lower_bounds rpt)) (claim_map rpt)
          (lower_bounds rpt, lower_bounds rpt, 0, [], s))"

text \<open>
  \<open>Send_Remaining_Segments\<close>: the segments handed to the link and the session. The map shares its
  segments with the session's, so a change to one is a change to both. \<open>None\<close> is the failed assertion
  that a segment to be sent again is not a checkpoint.
\<close>

definition new_checkpoint :: "u64 \<Rightarrow> ltp_data_segment \<Rightarrow> ltp_session \<Rightarrow> ltp_data_segment \<times> ltp_session" where
  "new_checkpoint report_serial_num ds s =
     (let (c, s1) = get_next_checkpoint_id s;
          ds1 = (set_checkpoint_id c ds)\<lparr>serial_number := report_serial_num\<rparr>
      in (ds_encode_all ds1, add_checkpoint_seg ds1 s1))"

fun send_remaining :: "u64 \<Rightarrow> ds_map \<Rightarrow> ltp_session \<Rightarrow> (ltp_data_segment list \<times> ltp_session) option" where
  "send_remaining report_serial_num [] s = Some ([], s)"
| "send_remaining report_serial_num ((k, ds) # rest) s =
     (if is_checkpoint ds then None
      else
        let (ds1, s1) = (if rest = [] then new_checkpoint report_serial_num ds s else (ds, s));
            ds2 = ds1\<lparr>queued_to_send := True\<rparr>;
            s2 = s1\<lparr>red_segments := om_modify k (\<lambda>_. ds2) (red_segments s1)\<rparr>
        in map_option (\<lambda>(sent, s3). ((if queued_to_send ds1 then [] else [ds2]) @ sent, s3))
             (send_remaining report_serial_num rest s2))"

definition send_remaining_segments ::
    "bool \<Rightarrow> u64 \<Rightarrow> ds_map \<Rightarrow> ltp_session \<Rightarrow> (ltp_data_segment list \<times> ltp_session) option" where
  "send_remaining_segments start_shutting_down report_serial_num rt s =
     (if start_shutting_down then Some ([], s) else send_remaining report_serial_num rt s)"

text \<open>
  \<open>process_RS\<close> once the session has been found: whether the session is complete, the segments sent and
  the session. The checkpoint map holds \<open>-99\<close> for a checkpoint whose report has been seen.
\<close>

definition claims_entire_session :: "ltp_report_segment \<Rightarrow> ltp_session \<Rightarrow> bool" where
  "claims_entire_session rpt s \<longleftrightarrow> red_complete s \<and> lower_bounds rpt = 0 \<and> length (claim_map rpt) = 1
     \<and> claimed_bytes rpt = expected_red_bytes s"

definition process_report ::
    "bool \<Rightarrow> ltp_report_segment \<Rightarrow> ltp_session \<Rightarrow> (bool \<times> ltp_data_segment list \<times> ltp_session) option" where
  "process_report start_shutting_down rpt s =
     (if claims_entire_session rpt s then Some (True, [], rs_claimed_entire_session s)
      else
        let ckpt_stop_byte = find_checkpoint_stop_byte (checkpoint_id rpt) s in
        if ckpt_stop_byte < 0 then Some (False, [], s)
        else
          let s1 = (if word_of_int (ckpt_stop_byte + 1) = upper_bounds rpt
                    then flag_checkpoint_as_claimed (checkpoint_id rpt) s else s);
              (claim_lower, claim_upper, segs_claimed, rt, s2) = apply_report rpt s1
          in map_option (\<lambda>(sent, s3). (red_complete s3 \<and> red_segments s3 = [], sent, s3))
               (send_remaining_segments start_shutting_down (serial_number rpt) rt s2))"

section \<open>The walk over the segments\<close>

text \<open>Waiting segments: red, in order, disjoint, filed under their first byte, none marked as deleted.\<close>

definition seg_filed :: "u64 \<Rightarrow> ltp_data_segment \<Rightarrow> bool" where
  "seg_filed k d \<longleftrightarrow> k = start_byte d \<and> offset d = start_byte d \<and> start_byte d \<le> stop_byte d \<and> \<not> is_deleted d
     \<and> is_red d \<and> \<not> is_greenendofblock d"

fun segs_ok :: "ds_map \<Rightarrow> bool" where
  "segs_ok [] \<longleftrightarrow> True"
| "segs_ok ((k, d) # m) \<longleftrightarrow> seg_filed k d \<and> (\<forall>j e. (j, e) \<in> set m \<longrightarrow> stop_byte d < j) \<and> segs_ok m"

text \<open>A checkpoint that another report is to answer is neither removed nor sent again.\<close>

definition foreign :: "u64 \<Rightarrow> ltp_data_segment \<Rightarrow> bool" where
  "foreign ckpt d \<longleftrightarrow> is_checkpoint d \<and> checkpoint_id d \<noteq> ckpt"

definition claimed_by :: "u64 \<Rightarrow> u64 \<Rightarrow> u64 \<Rightarrow> u64 \<Rightarrow> ltp_data_segment \<Rightarrow> bool" where
  "claimed_by ckpt lo co up d \<longleftrightarrow> lo \<le> stop_byte d \<and> co \<le> start_byte d \<and> stop_byte d < up \<and> \<not> foreign ckpt d"

definition resent_by :: "u64 \<Rightarrow> u64 \<Rightarrow> u64 \<Rightarrow> u64 \<Rightarrow> ltp_data_segment \<Rightarrow> bool" where
  "resent_by ckpt lo co up d \<longleftrightarrow> lo \<le> stop_byte d \<and> start_byte d < up
     \<and> (if stop_byte d < co then \<not> foreign ckpt d else \<not> (co \<le> start_byte d \<and> stop_byte d < up))"

abbreviation assign_all :: "ds_map \<Rightarrow> ds_map \<Rightarrow> ds_map" where
  "assign_all es rt \<equiv> fold (\<lambda>(k, d). om_assign k d) es rt"

lemma segs_ok_append:
  "segs_ok (xs @ ys) \<longleftrightarrow> segs_ok xs \<and> segs_ok ys \<and> (\<forall>k d j e. (k, d) \<in> set xs \<longrightarrow> (j, e) \<in> set ys \<longrightarrow> stop_byte d < j)"
proof (induction xs rule: segs_ok.induct)
  case (2 k d m)
  show ?case unfolding append_Cons segs_ok.simps 2 by simp blast
qed simp

lemma segs_ok_entry: "segs_ok m \<Longrightarrow> (k, d) \<in> set m \<Longrightarrow> seg_filed k d"
  by (induction m rule: segs_ok.induct) auto

lemma segs_ok_wf: "segs_ok m \<Longrightarrow> om_wf m"
  by (induction m rule: segs_ok.induct) (auto simp: seg_filed_def intro: le_less_trans)

lemma segs_ok_filter: "segs_ok m \<Longrightarrow> segs_ok (filter P m)"
  by (induction m rule: segs_ok.induct) auto

lemma claim_walk_exact:
  assumes "segs_ok m"
  shows "snd (claim_walk ckpt lo co up m rt) =
    (filter (\<lambda>e. \<not> claimed_by ckpt lo co up (snd e)) m,
     assign_all (filter (\<lambda>e. resent_by ckpt lo co up (snd e)) m) rt)"
  using assms
proof (induction ckpt lo co up m rt rule: claim_walk.induct)
  case (2 ckpt lo co up k d rest rt)
  have d: "seg_filed k d" "\<forall>j e. (j, e) \<in> set rest \<longrightarrow> stop_byte d < j" "segs_ok rest" using 2(2) by auto
  show ?case
  proof (cases "claim_entry ckpt lo co up d")
    case None
    then have up: "up \<le> start_byte d" using d(1) by (auto simp: claim_entry_def seg_filed_def split: if_splits)
    have above: "\<not> claimed_by ckpt lo co up e \<and> \<not> resent_by ckpt lo co up e"
      if "(j, e) \<in> set ((k, d) # rest)" for j e
    proof -
      have f: "seg_filed j e" using segs_ok_entry [OF 2(2) that] .
      have "up \<le> start_byte e"
      proof (cases "(j, e) = (k, d)")
        case False
        then have "stop_byte d < start_byte e" using that d(2) f by (auto simp: seg_filed_def)
        then show ?thesis using up d(1) by (auto simp: seg_filed_def)
      qed (use up in simp)
      then show ?thesis using f by (auto simp: claimed_by_def resent_by_def seg_filed_def)
    qed
    then have "\<forall>e \<in> set ((k, d) # rest). \<not> claimed_by ckpt lo co up (snd e) \<and> \<not> resent_by ckpt lo co up (snd e)"
      by (metis prod.collapse)
    then have "filter (\<lambda>e. \<not> claimed_by ckpt lo co up (snd e)) ((k, d) # rest) = (k, d) # rest"
      "filter (\<lambda>e. resent_by ckpt lo co up (snd e)) ((k, d) # rest) = []"
      by (simp_all only: filter_id_conv filter_empty_conv) simp_all
    then show ?thesis using None by simp
  next
    case (Some act)
    have act: "act = (if claimed_by ckpt lo co up d then Claimed else if resent_by ckpt lo co up d then Resend else Keep)"
      using Some d(1) by (auto simp: claim_entry_def claimed_by_def resent_by_def seg_filed_def foreign_def split: if_splits)
    have dis: "\<not> (claimed_by ckpt lo co up d \<and> resent_by ckpt lo co up d)"
      using d(1) by (auto simp: claimed_by_def resent_by_def seg_filed_def)
    have k: "k = start_byte d" using d(1) by (simp add: seg_filed_def)
    obtain n m' rt' where w: "claim_walk ckpt lo co up rest (if act = Resend then om_assign (start_byte d) d rt else rt) = (n, m', rt')"
      by (metis prod_cases3)
    show ?thesis
      using "2.IH" [OF Some d(3)] Some act dis k w by auto
  qed
qed simp

text \<open>The part of the map that \<open>RemoveClaimedSegments\<close> walks over.\<close>

definition walk_part :: "u64 \<Rightarrow> ds_map \<Rightarrow> ds_map" where
  "walk_part lo m = (if om_below lo m = [] then [] else [last (om_below lo m)]) @ om_from lo m"

lemma walk_split: "m = butlast (om_below lo m) @ walk_part lo m"
proof (cases "om_below lo m = []")
  case False
  have "butlast (om_below lo m) @ walk_part lo m = (butlast (om_below lo m) @ [last (om_below lo m)]) @ om_from lo m"
    using False by (simp add: walk_part_def)
  also have "\<dots> = om_below lo m @ om_from lo m" by (rule arg_cong [OF append_butlast_last_id [OF False]])
  finally show ?thesis by (simp add: om_split)
qed (use om_split [of lo m] in \<open>simp add: walk_part_def\<close>)

lemma remove_claimed_walk:
  "claim_walk ckpt lo co up (walk_part lo (red_segments s)) rt = (n, segs, rt')
   \<Longrightarrow> remove_claimed_segments ckpt lo co up rt s = (n, rt', s\<lparr>red_segments := butlast (om_below lo (red_segments s)) @ segs\<rparr>)"
  by (simp add: remove_claimed_segments_def walk_part_def Let_def)

lemma remove_claimed_exact:
  assumes "segs_ok (red_segments s)"
  shows "snd (remove_claimed_segments ckpt lo co up rt s) =
    (assign_all (filter (\<lambda>e. resent_by ckpt lo co up (snd e)) (red_segments s)) rt,
     s\<lparr>red_segments := filter (\<lambda>e. \<not> claimed_by ckpt lo co up (snd e)) (red_segments s)\<rparr>)"
proof -
  define below where "below = om_below lo (red_segments s)"
  define walked where "walked = walk_part lo (red_segments s)"
  have m: "red_segments s = butlast below @ walked"
    unfolding below_def walked_def by (rule walk_split)
  have ok: "segs_ok (butlast below)" "segs_ok walked"
    and sep: "\<And>k d j e. (k, d) \<in> set (butlast below) \<Longrightarrow> (j, e) \<in> set walked \<Longrightarrow> stop_byte d < j"
    using assms unfolding m segs_ok_append by blast+
  have skip: "\<not> claimed_by ckpt lo co up (snd e) \<and> \<not> resent_by ckpt lo co up (snd e)" if "e \<in> set (butlast below)" for e
  proof -
    obtain k d where e: "e = (k, d)" by (cases e)
    have ne: "below \<noteq> []" using that by auto
    obtain j f where l: "last below = (j, f)" by (cases "last below")
    have "(j, f) \<in> set walked" using ne l by (simp add: walked_def walk_part_def below_def)
    then have "stop_byte d < j" using sep that e by blast
    moreover have "j < lo" using om_below_less [of "(j, f)" lo "red_segments s"] last_in_set [OF ne] l by (simp add: below_def)
    ultimately have "stop_byte d < lo" by (rule order.strict_trans)
    then have "\<not> lo \<le> stop_byte d" by simp
    then show ?thesis by (simp add: e claimed_by_def resent_by_def)
  qed
  obtain n segs rt' where w: "claim_walk ckpt lo co up walked rt = (n, segs, rt')" by (metis prod_cases3)
  have "snd (remove_claimed_segments ckpt lo co up rt s) = (rt', s\<lparr>red_segments := butlast below @ segs\<rparr>)"
    using remove_claimed_walk [OF w [unfolded walked_def]] by (simp add: below_def)
  moreover have "segs = filter (\<lambda>e. \<not> claimed_by ckpt lo co up (snd e)) walked"
    "rt' = assign_all (filter (\<lambda>e. resent_by ckpt lo co up (snd e)) walked) rt"
    using claim_walk_exact [OF ok(2), of ckpt lo co up rt] w by simp_all
  moreover have "filter (\<lambda>e. \<not> claimed_by ckpt lo co up (snd e)) (butlast below) = butlast below"
    "filter (\<lambda>e. resent_by ckpt lo co up (snd e)) (butlast below) = []"
    using skip by (simp_all add: filter_id_conv filter_empty_conv)
  ultimately show ?thesis by (simp add: m)
qed

section \<open>All claims of a report\<close>

text \<open>The claims as windows: where the previous claim ended, where this one starts and ends.\<close>

type_synonym window = "u64 \<times> u64 \<times> u64"

fun windows :: "u64 \<Rightarrow> u64 \<Rightarrow> u64 \<Rightarrow> (u64, u64) omap \<Rightarrow> window list" where
  "windows rlower rupper lo [] = (if rupper > lo then [(lo, rupper, rupper)] else [])"
| "windows rlower rupper lo ((off, len) # cs) =
     (lo, rlower + off, rlower + off + len) # windows rlower rupper (rlower + off + len) cs"

definition claimed_in :: "u64 \<Rightarrow> window \<Rightarrow> ltp_data_segment \<Rightarrow> bool" where
  "claimed_in ckpt = (\<lambda>(lo, co, up). claimed_by ckpt lo co up)"

definition resent_in :: "u64 \<Rightarrow> window \<Rightarrow> ltp_data_segment \<Rightarrow> bool" where
  "resent_in ckpt = (\<lambda>(lo, co, up). resent_by ckpt lo co up)"

fun run_windows :: "u64 \<Rightarrow> window list \<Rightarrow> ds_map \<Rightarrow> ds_map \<Rightarrow> ds_map \<times> ds_map" where
  "run_windows ckpt [] segs rt = (segs, rt)"
| "run_windows ckpt (w # ws) segs rt =
     run_windows ckpt ws (filter (\<lambda>e. \<not> claimed_in ckpt w (snd e)) segs)
       (assign_all (filter (\<lambda>e. resent_in ckpt w (snd e)) segs) rt)"

definition report_windows :: "ltp_report_segment \<Rightarrow> window list" where
  "report_windows rpt = windows (lower_bounds rpt) (upper_bounds rpt) (lower_bounds rpt) (claim_map rpt)"

lemma apply_claims_windows:
  assumes "segs_ok (red_segments s)"
  shows "\<exists>lo' up' n'. apply_tail ckpt rupper (fold (apply_claim ckpt rlower) cs (lo, lo, n, rt, s)) =
    (lo', up', n', let (segs, rt') = run_windows ckpt (windows rlower rupper lo cs) (red_segments s) rt
                   in (rt', s\<lparr>red_segments := segs\<rparr>))"
  using assms
proof (induction cs arbitrary: lo n rt s)
  case Nil
  show ?case
  proof (cases "rupper > lo")
    case True
    obtain k where "remove_claimed_segments ckpt lo rupper rupper rt s = (k, snd (remove_claimed_segments ckpt lo rupper rupper rt s))"
      by (metis prod.collapse)
    then show ?thesis
      using True remove_claimed_exact [OF Nil, of ckpt lo rupper rupper rt]
      by (auto simp: apply_tail_def claimed_in_def resent_in_def split: prod.splits)
  qed (simp add: apply_tail_def)
next
  case (Cons c cs)
  obtain off len where c: "c = (off, len)" by (cases c)
  let ?w = "(lo, rlower + off, rlower + off + len)"
  let ?segs = "filter (\<lambda>e. \<not> claimed_in ckpt ?w (snd e)) (red_segments s)"
  let ?rt = "assign_all (filter (\<lambda>e. resent_in ckpt ?w (snd e)) (red_segments s)) rt"
  obtain k where k: "remove_claimed_segments ckpt lo (rlower + off) (rlower + off + len) rt s = (k, ?rt, s\<lparr>red_segments := ?segs\<rparr>)"
    using remove_claimed_exact [OF Cons.prems, of ckpt lo "rlower + off" "rlower + off + len" rt]
    by (cases "remove_claimed_segments ckpt lo (rlower + off) (rlower + off + len) rt s") (simp add: claimed_in_def resent_in_def)
  have "segs_ok (red_segments (s\<lparr>red_segments := ?segs\<rparr>))" using segs_ok_filter [OF Cons.prems] by simp
  moreover have "apply_claim ckpt rlower (off, len) (lo, lo, n, rt, s)
      = (rlower + off + len, rlower + off + len, n + k, ?rt, s\<lparr>red_segments := ?segs\<rparr>)"
    using k by (simp add: apply_claim_def Let_def)
  ultimately show ?case
    using Cons.IH [of "s\<lparr>red_segments := ?segs\<rparr>" "rlower + off + len" "n + k" ?rt] by (simp add: c)
qed

lemma apply_report_windows:
  assumes "segs_ok (red_segments s)"
  shows "\<exists>lo' up' n'. apply_report rpt s =
    (lo', up', n', let (segs, rt) = run_windows (checkpoint_id rpt) (report_windows rpt) (red_segments s) []
                   in (rt, s\<lparr>red_segments := segs\<rparr>))"
  using apply_claims_windows [OF assms] by (simp add: apply_report_def report_windows_def)

text \<open>Windows that follow one another from \<open>lo\<close> to \<open>hi\<close>.\<close>

fun chained :: "u64 \<Rightarrow> window list \<Rightarrow> u64 \<Rightarrow> bool" where
  "chained lo [] hi \<longleftrightarrow> hi \<le> lo"
| "chained lo ((l, co, up) # ws) hi \<longleftrightarrow> l = lo \<and> lo \<le> co \<and> co \<le> up \<and> chained up ws hi"

lemma chained_above: "chained lo ws hi \<Longrightarrow> (l, co, up) \<in> set ws \<Longrightarrow> lo \<le> l \<and> l \<le> co \<and> co \<le> up"
proof (induction lo ws hi rule: chained.induct)
  case (2 lo l' co' up' ws hi)
  then show ?case by (fastforce intro: order.trans)
qed simp

text \<open>A segment that is claimed is not sent again by a later window, and the other way round.\<close>

lemma claimed_not_resent:
  "chained up ws hi \<Longrightarrow> claimed_by ckpt lo co up d \<Longrightarrow> w \<in> set ws \<Longrightarrow> \<not> resent_in ckpt w d"
  using chained_above [of up ws hi] by (cases w) (force simp: claimed_by_def resent_in_def resent_by_def)

lemma resent_not_claimed:
  "chained up ws hi \<Longrightarrow> resent_by ckpt lo co up d \<Longrightarrow> w \<in> set ws \<Longrightarrow> \<not> claimed_in ckpt w d"
  using chained_above [of up ws hi] by (cases w) (force simp: resent_by_def claimed_in_def claimed_by_def)

lemma claimed_excludes_resent: "claimed_by ckpt lo co up d \<Longrightarrow> start_byte d \<le> stop_byte d \<Longrightarrow> \<not> resent_by ckpt lo co up d"
  by (auto simp: claimed_by_def resent_by_def)

lemma om_assign_present: "om_wf m \<Longrightarrow> (k, v) \<in> set m \<Longrightarrow> om_assign k v m = m"
  by (metis om_assign_mid split_list)

lemma assign_all_set:
  assumes "om_wf S" and "set es \<subseteq> set S" and "set rt \<subseteq> set S" and "om_wf rt"
  shows "set (assign_all es rt) = set es \<union> set rt \<and> om_wf (assign_all es rt)"
  using assms(2-4)
proof (induction es arbitrary: rt)
  case (Cons e es)
  obtain k d where e: "e = (k, d)" by (cases e)
  have "set (om_assign k d rt) = insert (k, d) (set rt)"
  proof (cases "k \<in> fst ` set rt")
    case True
    then obtain d' where d': "(k, d') \<in> set rt" by force
    then have "(k, d') \<in> set S" "(k, d) \<in> set S" using Cons.prems(1,2) e by auto
    then have "Some d' = Some d" using om_find_mem [OF assms(1)] by metis
    then show ?thesis using d' om_assign_present [OF Cons.prems(3)] by auto
  qed (simp add: om_set_assign)
  then show ?case
    using Cons.IH [of "om_assign k d rt"] Cons.prems e om_wf_assign [OF Cons.prems(3), of k d] by auto
qed simp

lemma run_windows_exact:
  assumes "chained lo ws hi" and "om_wf S" and "set segs \<subseteq> set S" and "set rt \<subseteq> set S" and "om_wf rt"
    and "\<forall>(k, d) \<in> set S. start_byte d \<le> stop_byte d"
  shows "fst (run_windows ckpt ws segs rt) = filter (\<lambda>e. \<forall>w \<in> set ws. \<not> claimed_in ckpt w (snd e)) segs
    \<and> set (snd (run_windows ckpt ws segs rt)) = set rt \<union> {e \<in> set segs. \<exists>w \<in> set ws. resent_in ckpt w (snd e)}
    \<and> om_wf (snd (run_windows ckpt ws segs rt))"
  using assms(1,3,4,5)
proof (induction lo ws hi arbitrary: segs rt rule: chained.induct)
  case (2 lo l co up ws hi)
  let ?w = "(l, co, up)"
  let ?segs = "filter (\<lambda>e. \<not> claimed_in ckpt ?w (snd e)) segs"
  let ?es = "filter (\<lambda>e. resent_in ckpt ?w (snd e)) segs"
  have rt: "set (assign_all ?es rt) = set ?es \<union> set rt" "om_wf (assign_all ?es rt)"
    using assign_all_set [OF assms(2), of ?es rt] 2(3-5) by auto
  have ch: "chained up ws hi" using 2(2) by simp
  have IH: "fst (run_windows ckpt ws ?segs (assign_all ?es rt)) = filter (\<lambda>e. \<forall>w \<in> set ws. \<not> claimed_in ckpt w (snd e)) ?segs"
    "set (snd (run_windows ckpt ws ?segs (assign_all ?es rt)))
       = set (assign_all ?es rt) \<union> {e \<in> set ?segs. \<exists>w \<in> set ws. resent_in ckpt w (snd e)}"
    "om_wf (snd (run_windows ckpt ws ?segs (assign_all ?es rt)))"
    using "2.IH" [OF ch, of ?segs "assign_all ?es rt"] rt 2(3,4) by auto
  have later: "\<not> claimed_in ckpt ?w (snd e)" if "e \<in> set segs" "w \<in> set ws" "resent_in ckpt w (snd e)" for e w
    using claimed_not_resent [OF ch, of ckpt l co "snd e" w] that by (auto simp: claimed_in_def)
  have "set (snd (run_windows ckpt (?w # ws) segs rt)) = set rt \<union> {e \<in> set segs. \<exists>w \<in> set (?w # ws). resent_in ckpt w (snd e)}"
    using IH(2) rt(1) later by auto
  moreover have "fst (run_windows ckpt (?w # ws) segs rt) = filter (\<lambda>e. \<forall>w \<in> set (?w # ws). \<not> claimed_in ckpt w (snd e)) segs"
    using IH(1) by (simp add: conj_commute)
  ultimately show ?case using IH(3) by simp
qed auto

lemma chained_cover:
  "chained lo ws hi \<Longrightarrow> lo < hi \<Longrightarrow> lo \<le> stop_byte d \<Longrightarrow> start_byte d < hi \<Longrightarrow> start_byte d \<le> stop_byte d
   \<Longrightarrow> \<exists>(l, co, up) \<in> set ws. l \<le> stop_byte d \<and> start_byte d < up"
proof (induction lo ws hi rule: chained.induct)
  case (2 lo l co up ws hi)
  show ?case
  proof (cases "start_byte d < up")
    case False
    then have "up \<le> stop_byte d" "up < hi" using 2(5,6) by auto
    then show ?thesis using "2.IH" 2(2,5,6) by auto
  qed (use 2 in auto)
qed auto

section \<open>Sending again\<close>

text \<open>What the numbering of a checkpoint and the new header leave as it was.\<close>

definition same_data :: "ltp_data_segment \<Rightarrow> ltp_data_segment \<Rightarrow> bool" where
  "same_data d e \<longleftrightarrow> start_byte e = start_byte d \<and> stop_byte e = stop_byte d \<and> offset e = offset d
     \<and> payload e = payload d \<and> payload_length e = payload_length d \<and> is_deleted e = is_deleted d
     \<and> red_green_none e = red_green_none d \<and> is_redendofblock e = is_redendofblock d
     \<and> is_greenendofblock e = is_greenendofblock d \<and> engine_id e = engine_id d \<and> session_id e = session_id d
     \<and> client_service_id e = client_service_id d"

lemma same_data_refl [simp]: "same_data d d"
  by (simp add: same_data_def)

lemma same_data_trans: "same_data d e \<Longrightarrow> same_data e f \<Longrightarrow> same_data d f"
  by (simp add: same_data_def)

lemma same_data_queued [simp]: "same_data d (e\<lparr>queued_to_send := q\<rparr>) = same_data d e"
  by (simp add: same_data_def)

text \<open>The encoders do not touch the mark that the segment is queued either.\<close>

definition same_enc :: "ltp_data_segment \<Rightarrow> ltp_data_segment \<Rightarrow> bool" where
  "same_enc d e \<longleftrightarrow> same_data d e \<and> queued_to_send e = queued_to_send d"

lemma same_enc_refl [simp]: "same_enc d d"
  by (simp add: same_enc_def)

lemma same_enc_trans: "same_enc d e \<Longrightarrow> same_enc e f \<Longrightarrow> same_enc d f"
  by (auto simp: same_enc_def intro: same_data_trans)

lemma same_enc_encode_field: "same_enc d (encode_field n v d)"
  by (simp add: encode_field_def same_enc_def same_data_def split: option.split)

lemma same_enc_control: "same_enc d (set_control cb d)" "same_enc d (encode_checkpoint_bit d)" "same_enc d (set_segment_color_flags d)"
  by (simp_all add: set_control_def encode_checkpoint_bit_def set_segment_color_flags_def same_enc_def same_data_def)

lemma same_enc_endofblock:
  "is_redendofblock d \<Longrightarrow> is_red d \<Longrightarrow> same_enc d (set_endofblock d)"
  by (simp add: set_endofblock_def set_control_def same_enc_def same_data_def)

lemma same_enc_header: "same_enc d (create_ltp_header d)"
  by (simp add: create_ltp_header_def append_byte_def encode_field64_def encode_field_def same_enc_def same_data_def split: option.split)

lemma same_enc_ds_header:
  assumes "is_red d" and "\<not> is_greenendofblock d"
  shows "same_enc d (encode_ltp_ds_header d)"
proof -
  define d1 where "d1 = set_segment_color_flags d"
  define d2 where "d2 = (if is_red d1 \<and> is_checkpoint d1 then encode_checkpoint_bit d1 else d1)"
  define d3 where "d3 = (if is_redendofblock d2 \<or> is_greenendofblock d2 then set_endofblock d2 else d2)"
  define d4 where "d4 = encode_field64 (payload_length d3) (encode_field64 (offset d3)
    (encode_field32 (client_service_id d3) (create_ltp_header d3)))"
  have e: "encode_ltp_ds_header d = (if is_red d4 \<and> is_checkpoint d4
      then encode_field64 (serial_number d4) (encode_field64 (checkpoint_id d4) d4) else d4)"
    by (simp only: encode_ltp_ds_header_def Let_def d4_def d3_def d2_def d1_def)
  have f: "same_enc x (encode_field64 v y)" if "same_enc x y" for x y v
    using that same_enc_encode_field same_enc_trans unfolding encode_field64_def by blast
  have "same_enc d d1" unfolding d1_def by (rule same_enc_control(3))
  then have d2: "same_enc d d2" using same_enc_trans [OF _ same_enc_control(2)] by (simp add: d2_def)
  then have "is_red d2" "\<not> is_greenendofblock d2" using assms by (simp_all add: same_enc_def same_data_def is_red_def)
  then have "same_enc d2 d3" using same_enc_endofblock [of d2] by (simp add: d3_def)
  then have "same_enc d (create_ltp_header d3)" using d2 same_enc_header same_enc_trans by blast
  then have "same_enc d (encode_field32 (client_service_id d3) (create_ltp_header d3))"
    unfolding encode_field32_def using same_enc_encode_field same_enc_trans by blast
  then have "same_enc d d4" unfolding d4_def by (intro f)
  then show ?thesis unfolding e using f by simp
qed

lemma same_enc_encode_all:
  assumes "is_red d" and "\<not> is_greenendofblock d"
  shows "same_enc d (ds_encode_all d)"
proof -
  let ?d = "d\<lparr>packet := [], packet_len := 0\<rparr>"
  have "same_enc d ?d" by (simp add: same_enc_def same_data_def)
  moreover have "same_enc ?d (encode_ltp_ds_header ?d)" by (rule same_enc_ds_header) (use assms in \<open>simp_all add: is_red_def\<close>)
  ultimately show ?thesis unfolding ds_encode_all_def by (rule same_enc_trans)
qed

lemma new_checkpoint_facts:
  assumes "is_red d" and "\<not> is_greenendofblock d" and "new_checkpoint rsn d s = (d', s')"
  shows "same_data d d'" and "red_segments s' = red_segments s" and "red_complete s' = red_complete s"
    and "expected_red_bytes s' = expected_red_bytes s" and "queued_to_send d' = queued_to_send d"
proof -
  let ?d = "(set_checkpoint_id (sess_checkpoint_id s + 1) d)\<lparr>serial_number := rsn\<rparr>"
  have "same_enc d ?d" "is_red ?d" "\<not> is_greenendofblock ?d"
    using assms(1,2) by (simp_all add: set_checkpoint_id_def same_enc_def same_data_def is_red_def)
  then have "same_enc d (ds_encode_all ?d)" using same_enc_encode_all [of ?d] same_enc_trans by blast
  then have "same_enc d d'"
    using assms(3) by (simp add: new_checkpoint_def get_next_checkpoint_id_def Let_def)
  then show "same_data d d'" "queued_to_send d' = queued_to_send d" by (simp_all add: same_enc_def)
qed (use assms(3) in \<open>auto simp: new_checkpoint_def get_next_checkpoint_id_def add_checkpoint_seg_def Let_def\<close>)

text \<open>
  The loop: it stops at a checkpoint; otherwise the session keeps its segments, and every segment that
  was not queued already is handed to the link.
\<close>

lemma send_remaining_checkpoint: "(k, d) \<in> set rt \<Longrightarrow> is_checkpoint d \<Longrightarrow> send_remaining rsn rt s = None"
  by (induction rsn rt s rule: send_remaining.induct) (auto split: prod.splits)

definition same_segs :: "ds_map \<Rightarrow> ds_map \<Rightarrow> bool" where
  "same_segs m m' \<longleftrightarrow> list_all2 (\<lambda>(k, d) (j, e). j = k \<and> same_data d e) m m'"

lemma same_segs_refl [simp]: "same_segs m m"
  by (auto simp: same_segs_def list_all2_same)

lemma same_segs_trans: "same_segs a b \<Longrightarrow> same_segs b c \<Longrightarrow> same_segs a c"
  unfolding same_segs_def by (erule (1) list_all2_trans [rotated]) (auto intro: same_data_trans)

lemma same_segs_modify:
  assumes "\<forall>e. (k, e) \<in> set m \<longrightarrow> same_data e d"
  shows "same_segs m (om_modify k (\<lambda>_. d) m)"
  using assms by (induction m) (auto simp: same_segs_def om_modify_def split: if_splits)

lemma same_segs_old:
  assumes "same_segs m m'" and "(k, e) \<in> set m'"
  shows "\<exists>d. (k, d) \<in> set m \<and> same_data d e"
  using assms unfolding same_segs_def by (induction rule: list_all2_induct) auto

lemma same_segs_new:
  assumes "same_segs m m'" and "(k, d) \<in> set m"
  shows "\<exists>e. (k, e) \<in> set m' \<and> same_data d e"
  using assms unfolding same_segs_def by (induction rule: list_all2_induct) auto

lemma same_segs_wf: "same_segs m m' \<Longrightarrow> om_wf m \<Longrightarrow> om_wf m'"
proof -
  assume a: "same_segs m m'" "om_wf m"
  have "map fst m' = map fst m" using a(1) unfolding same_segs_def by (induction rule: list_all2_induct) auto
  then show ?thesis using a(2) by (simp add: om_wf_def)
qed

lemma send_remaining_sends:
  assumes "\<forall>k d. (k, d) \<in> set rt \<longrightarrow> \<not> is_checkpoint d \<and> seg_filed k d \<and> (k, d) \<in> set (red_segments s)"
    and "om_wf rt" and "om_wf (red_segments s)"
  shows "\<exists>sent s'. send_remaining rsn rt s = Some (sent, s') \<and> same_segs (red_segments s) (red_segments s')
    \<and> red_complete s' = red_complete s \<and> expected_red_bytes s' = expected_red_bytes s
    \<and> (\<forall>k d. (k, d) \<in> set rt \<longrightarrow> queued_to_send d \<or> (\<exists>e \<in> set sent. same_data d e))
    \<and> (\<forall>e \<in> set sent. \<exists>k d. (k, d) \<in> set rt \<and> same_data d e)"
  using assms
proof (induction rsn rt s rule: send_remaining.induct)
  case (2 rsn k ds rest s)
  obtain d1 s1 where d1: "(if rest = [] then new_checkpoint rsn ds s else (ds, s)) = (d1, s1)" by (metis surj_pair)
  define d2 where "d2 = d1\<lparr>queued_to_send := True\<rparr>"
  define s2 where "s2 = s1\<lparr>red_segments := om_modify k (\<lambda>_. d2) (red_segments s1)\<rparr>"
  have "\<not> is_checkpoint ds \<and> seg_filed k ds \<and> (k, ds) \<in> set (red_segments s)" using 2(2) by (meson list.set_intros(1))
  then have ds: "\<not> is_checkpoint ds" "is_red ds" "\<not> is_greenendofblock ds" "(k, ds) \<in> set (red_segments s)"
    by (auto simp: seg_filed_def)
  have f: "same_data ds d1" "red_segments s1 = red_segments s" "red_complete s1 = red_complete s"
    "expected_red_bytes s1 = expected_red_bytes s" "queued_to_send d1 = queued_to_send ds"
  proof -
    have "new_checkpoint rsn ds s = (d1, s1) \<or> (d1 = ds \<and> s1 = s)" using d1 by (cases "rest = []") simp_all
    then show "same_data ds d1" "red_segments s1 = red_segments s" "red_complete s1 = red_complete s"
      "expected_red_bytes s1 = expected_red_bytes s" "queued_to_send d1 = queued_to_send ds"
      using new_checkpoint_facts [OF ds(2,3), of rsn s d1 s1] by auto
  qed
  have seg: "same_segs (red_segments s) (red_segments s2)"
  proof -
    have "e = ds" if "(k, e) \<in> set (red_segments s)" for e
      using om_find_mem [OF 2(4) that] om_find_mem [OF 2(4) ds(4)] by simp
    then have "\<forall>e. (k, e) \<in> set (red_segments s) \<longrightarrow> same_data e d2" using f(1) by (auto simp: d2_def)
    then show ?thesis using same_segs_modify f(2) by (simp add: s2_def)
  qed
  have keep: "(j, e) \<in> set (red_segments s2)" if "(j, e) \<in> set rest" for j e
  proof -
    have "j \<noteq> k" using 2(3) that by force
    moreover have "(j, e) \<in> set (red_segments s)" using 2(2) that by (meson list.set_intros(2))
    ultimately show ?thesis using f(2) by (force simp: s2_def om_modify_def)
  qed
  have prem: "\<forall>k d. (k, d) \<in> set rest \<longrightarrow> \<not> is_checkpoint d \<and> seg_filed k d \<and> (k, d) \<in> set (red_segments s2)"
    using 2(2) keep by (meson list.set_intros(2))
  have "om_wf rest" using 2(3) by simp
  note IH = "2.IH" [OF ds(1) d1 [symmetric] refl d2_def s2_def prem this same_segs_wf [OF seg 2(4)]]
  obtain sent s' where r: "send_remaining rsn rest s2 = Some (sent, s')" "same_segs (red_segments s2) (red_segments s')"
    "red_complete s' = red_complete s2" "expected_red_bytes s' = expected_red_bytes s2"
    "\<forall>k d. (k, d) \<in> set rest \<longrightarrow> queued_to_send d \<or> (\<exists>e \<in> set sent. same_data d e)"
    "\<forall>e \<in> set sent. \<exists>k d. (k, d) \<in> set rest \<and> same_data d e"
    using IH by blast
  have "send_remaining rsn ((k, ds) # rest) s = Some ((if queued_to_send d1 then [] else [d2]) @ sent, s')"
    using ds(1) d1 r(1) by (simp add: d2_def s2_def)
  moreover have sd: "same_data ds d2" using f(1) by (simp add: d2_def)
  let ?sent = "(if queued_to_send d1 then [] else [d2]) @ sent"
  have "queued_to_send d \<or> (\<exists>e \<in> set ?sent. same_data d e)" if "(j, d) \<in> set ((k, ds) # rest)" for j d
  proof (cases "(j, d) = (k, ds)")
    case False
    then have "(j, d) \<in> set rest" using that by auto
    then have "queued_to_send d \<or> (\<exists>e \<in> set sent. same_data d e)" using r(5) by blast
    then show ?thesis by auto
  qed (use f(5) sd in auto)
  moreover have "\<exists>j d. (j, d) \<in> set ((k, ds) # rest) \<and> same_data d e" if "e \<in> set ?sent" for e
  proof (cases "e \<in> set sent")
    case True then show ?thesis using r(6) by (meson list.set_intros(2))
  next
    case False then have "e = d2" using that by (auto split: if_splits)
    then show ?thesis using sd by auto
  qed
  moreover have "red_complete s' = red_complete s" "expected_red_bytes s' = expected_red_bytes s"
    using r(3,4) f(3,4) by (simp_all add: s2_def)
  ultimately show ?case using same_segs_trans [OF seg r(2)] by blast
qed simp

section \<open>Properties\<close>

text \<open>A report whose claims are in order, do not wrap and end before its upper bound.\<close>

fun claims_in_order :: "u64 \<Rightarrow> u64 \<Rightarrow> (u64, u64) omap \<Rightarrow> bool" where
  "claims_in_order rlower lo [] \<longleftrightarrow> True"
| "claims_in_order rlower lo ((off, len) # cs) \<longleftrightarrow>
     lo \<le> rlower + off \<and> rlower + off \<le> rlower + off + len \<and> claims_in_order rlower (rlower + off + len) cs"

definition report_in_order :: "ltp_report_segment \<Rightarrow> bool" where
  "report_in_order rpt \<longleftrightarrow> claims_in_order (lower_bounds rpt) (lower_bounds rpt) (claim_map rpt)
     \<and> (\<forall>(off, len) \<in> set (claim_map rpt). lower_bounds rpt + off + len \<le> upper_bounds rpt)"

lemma windows_chained: "claims_in_order rlower lo cs \<Longrightarrow> chained lo (windows rlower rupper lo cs) rupper"
  by (induction rlower lo cs rule: claims_in_order.induct) auto

text \<open>A segment all of whose bytes are in one claim of the report.\<close>

definition in_claim :: "ltp_report_segment \<Rightarrow> ltp_data_segment \<Rightarrow> bool" where
  "in_claim rpt d \<longleftrightarrow> (\<exists>(off, len) \<in> set (claim_map rpt).
     lower_bounds rpt + off \<le> start_byte d \<and> stop_byte d < lower_bounds rpt + off + len)"

definition in_range :: "ltp_report_segment \<Rightarrow> ltp_data_segment \<Rightarrow> bool" where
  "in_range rpt d \<longleftrightarrow> lower_bounds rpt \<le> stop_byte d \<and> start_byte d < upper_bounds rpt"

lemma windows_claims: "(l, co, up) \<in> set (windows rlower rupper lo cs) \<Longrightarrow>
    (\<exists>(off, len) \<in> set cs. co = rlower + off \<and> up = rlower + off + len) \<or> co = up"
  by (induction rlower rupper lo cs rule: windows.induct) (auto split: if_splits)

lemma claims_windows: "(off, len) \<in> set cs \<Longrightarrow> \<exists>l. (l, rlower + off, rlower + off + len) \<in> set (windows rlower rupper lo cs)"
  by (induction rlower rupper lo cs rule: windows.induct) auto

lemma claimed_in_iff:
  assumes "report_in_order rpt" and "start_byte d \<le> stop_byte d"
  shows "(\<exists>w \<in> set (report_windows rpt). claimed_in (checkpoint_id rpt) w d) \<longleftrightarrow> in_claim rpt d \<and> \<not> foreign (checkpoint_id rpt) d"
proof
  assume "\<exists>w \<in> set (report_windows rpt). claimed_in (checkpoint_id rpt) w d"
  then obtain l co up where w: "(l, co, up) \<in> set (report_windows rpt)" "claimed_by (checkpoint_id rpt) l co up d"
    by (auto simp: claimed_in_def)
  then have "co \<noteq> up" using assms(2) by (auto simp: claimed_by_def)
  then show "in_claim rpt d \<and> \<not> foreign (checkpoint_id rpt) d"
    using w windows_claims [of l co up] by (fastforce simp: report_windows_def in_claim_def claimed_by_def)
next
  assume a: "in_claim rpt d \<and> \<not> foreign (checkpoint_id rpt) d"
  then obtain off len where c: "(off, len) \<in> set (claim_map rpt)" "lower_bounds rpt + off \<le> start_byte d"
    "stop_byte d < lower_bounds rpt + off + len" by (auto simp: in_claim_def)
  obtain l where w: "(l, lower_bounds rpt + off, lower_bounds rpt + off + len) \<in> set (report_windows rpt)"
    using claims_windows [OF c(1), of "lower_bounds rpt" "upper_bounds rpt" "lower_bounds rpt"] by (auto simp: report_windows_def)
  have "l \<le> lower_bounds rpt + off"
    using chained_above [OF windows_chained w [unfolded report_windows_def]] assms(1) by (simp add: report_in_order_def)
  then have "l \<le> stop_byte d" using c(2) assms(2) by simp
  then have "claimed_in (checkpoint_id rpt) (l, lower_bounds rpt + off, lower_bounds rpt + off + len) d"
    using a c(2,3) by (simp add: claimed_in_def claimed_by_def)
  then show "\<exists>w \<in> set (report_windows rpt). claimed_in (checkpoint_id rpt) w d" using w by blast
qed

lemma in_range_settled:
  assumes "report_in_order rpt" and "lower_bounds rpt < upper_bounds rpt" and "start_byte d \<le> stop_byte d" and "in_range rpt d"
  shows "(\<exists>w \<in> set (report_windows rpt). claimed_in (checkpoint_id rpt) w d)
    \<or> (\<exists>w \<in> set (report_windows rpt). resent_in (checkpoint_id rpt) w d) \<or> foreign (checkpoint_id rpt) d"
proof -
  have "chained (lower_bounds rpt) (report_windows rpt) (upper_bounds rpt)"
    using windows_chained assms(1) by (simp add: report_in_order_def report_windows_def)
  then obtain l co up where w: "(l, co, up) \<in> set (report_windows rpt)" "l \<le> stop_byte d" "start_byte d < up"
    using chained_cover assms(2-4) unfolding in_range_def by blast
  then have "claimed_by (checkpoint_id rpt) l co up d \<or> resent_by (checkpoint_id rpt) l co up d \<or> foreign (checkpoint_id rpt) d"
    by (auto simp: claimed_by_def resent_by_def)
  then have "claimed_in (checkpoint_id rpt) (l, co, up) d \<or> resent_in (checkpoint_id rpt) (l, co, up) d \<or> foreign (checkpoint_id rpt) d"
    by (simp add: claimed_in_def resent_in_def)
  then show ?thesis using w(1) by blast
qed

lemma inside_not_resent:
  "chained lo ws hi \<Longrightarrow> (l, co, up) \<in> set ws \<Longrightarrow> co \<le> start_byte d \<Longrightarrow> start_byte d \<le> stop_byte d \<Longrightarrow> stop_byte d < up
   \<Longrightarrow> w \<in> set ws \<Longrightarrow> \<not> resent_in ckpt w d"
proof (induction lo ws hi rule: chained.induct)
  case (2 lo l0 co0 up0 ws hi)
  have later: "up0 \<le> l1 \<and> l1 \<le> co1" if "(l1, co1, up1) \<in> set ws" for l1 co1 up1
    using chained_above [of up0 ws hi l1 co1 up1] 2(2) that by simp
  show ?case
  proof (cases "(l, co, up) = (l0, co0, up0)")
    case True
    then have "\<not> resent_in ckpt (l0, co0, up0) d" using 2(4-6) by (auto simp: resent_in_def resent_by_def)
    moreover have "\<not> resent_in ckpt (l1, co1, up1) d" if "(l1, co1, up1) \<in> set ws" for l1 co1 up1
    proof -
      have "stop_byte d < l1" using later [OF that] 2(6) True by (auto intro: less_le_trans)
      then have "\<not> l1 \<le> stop_byte d" by simp
      then show ?thesis by (simp add: resent_in_def resent_by_def)
    qed
    ultimately show ?thesis using 2(7) by (cases w) auto
  next
    case False
    then have mem: "(l, co, up) \<in> set ws" using 2(3) by auto
    then have "up0 \<le> start_byte d" using later [OF mem] 2(4) by (auto intro: order.trans)
    then have "\<not> resent_in ckpt (l0, co0, up0) d" by (simp add: resent_in_def resent_by_def leD)
    then show ?thesis using "2.IH" [OF _ mem 2(4-6)] 2(2,7) by auto
  qed
qed simp

lemma in_claim_not_resent:
  assumes "report_in_order rpt" and "start_byte d \<le> stop_byte d" and "in_claim rpt d" and "w \<in> set (report_windows rpt)"
  shows "\<not> resent_in ckpt w d"
proof -
  obtain off len where c: "(off, len) \<in> set (claim_map rpt)" "lower_bounds rpt + off \<le> start_byte d"
    "stop_byte d < lower_bounds rpt + off + len" using assms(3) by (auto simp: in_claim_def)
  obtain l where w: "(l, lower_bounds rpt + off, lower_bounds rpt + off + len) \<in> set (report_windows rpt)"
    using claims_windows [OF c(1), of "lower_bounds rpt" "upper_bounds rpt" "lower_bounds rpt"] by (auto simp: report_windows_def)
  have "chained (lower_bounds rpt) (report_windows rpt) (upper_bounds rpt)"
    using windows_chained assms(1) by (simp add: report_in_order_def report_windows_def)
  from inside_not_resent [OF this w c(2) assms(2) c(3) assms(4)] show ?thesis .
qed

lemma windows_up: "(l, co, up) \<in> set (windows rlower rupper lo cs) \<Longrightarrow>
    \<forall>(off, len) \<in> set cs. rlower + off + len \<le> rupper \<Longrightarrow> up \<le> rupper"
  by (induction rlower rupper lo cs rule: windows.induct) (auto split: if_splits)

lemma resent_in_range:
  assumes "report_in_order rpt" and "w \<in> set (report_windows rpt)" and "resent_in ckpt w d"
  shows "in_range rpt d"
proof -
  obtain l co up where w: "w = (l, co, up)" by (cases w)
  have mem: "(l, co, up) \<in> set (windows (lower_bounds rpt) (upper_bounds rpt) (lower_bounds rpt) (claim_map rpt))"
    using assms(2) by (simp add: w report_windows_def)
  have "lower_bounds rpt \<le> l" "up \<le> upper_bounds rpt"
    using chained_above [OF windows_chained mem] windows_up [OF mem] assms(1) by (auto simp: report_in_order_def)
  then show ?thesis
    using assms(3) by (auto simp: w resent_in_def resent_by_def in_range_def intro: order.trans less_le_trans)
qed

text \<open>What the claims do to the session, before anything is sent.\<close>

lemma apply_report_exact:
  assumes "segs_ok (red_segments s)" and "report_in_order rpt"
  shows "\<exists>lo up n rt. apply_report rpt s = (lo, up, n, rt, s\<lparr>red_segments :=
      filter (\<lambda>e. \<not> (in_claim rpt (snd e) \<and> \<not> foreign (checkpoint_id rpt) (snd e))) (red_segments s)\<rparr>)
    \<and> om_wf rt \<and> set rt = {e \<in> set (red_segments s). \<exists>w \<in> set (report_windows rpt). resent_in (checkpoint_id rpt) w (snd e)}"
proof -
  let ?S = "red_segments s" and ?c = "checkpoint_id rpt" and ?ws = "report_windows rpt"
  have ch: "chained (lower_bounds rpt) ?ws (upper_bounds rpt)"
    using windows_chained assms(2) by (simp add: report_in_order_def report_windows_def)
  have le: "start_byte d \<le> stop_byte d" if "(k, d) \<in> set ?S" for k d
    using segs_ok_entry [OF assms(1) that] by (simp add: seg_filed_def)
  note R = run_windows_exact [OF ch segs_ok_wf [OF assms(1)] order.refl, of "[]" ?c]
  obtain segs rt where r: "run_windows ?c ?ws ?S [] = (segs, rt)" by (metis surj_pair)
  have segs: "segs = filter (\<lambda>e. \<forall>w \<in> set ?ws. \<not> claimed_in ?c w (snd e)) ?S"
    and rt: "om_wf rt" "set rt = {e \<in> set ?S. \<exists>w \<in> set ?ws. resent_in ?c w (snd e)}"
    using R le r by auto
  have "segs = filter (\<lambda>e. \<not> (in_claim rpt (snd e) \<and> \<not> foreign ?c (snd e))) ?S"
    unfolding segs
  proof (rule filter_cong [OF refl])
    fix e assume "e \<in> set ?S"
    then have "start_byte (snd e) \<le> stop_byte (snd e)" using le [of "fst e" "snd e"] by simp
    then show "(\<forall>w \<in> set ?ws. \<not> claimed_in ?c w (snd e)) = (\<not> (in_claim rpt (snd e) \<and> \<not> foreign ?c (snd e)))"
      using claimed_in_iff [OF assms(2), of "snd e"] by blast
  qed
  then show ?thesis using apply_report_windows [OF assms(1), of rpt] r rt by auto
qed

text \<open>The part of \<open>process_RS\<close> after the two tests, on a session whose checkpoint map may differ.\<close>

lemma process_report_unfold:
  assumes "\<not> claims_entire_session rpt s" and "0 \<le> find_checkpoint_stop_byte (checkpoint_id rpt) s"
  obtains s1 where "red_segments s1 = red_segments s" "red_complete s1 = red_complete s"
    "expected_red_bytes s1 = expected_red_bytes s"
    "process_report False rpt s = (let (claim_lower, claim_upper, segs_claimed, rt, s2) = apply_report rpt s1
       in map_option (\<lambda>(sent, s3). (red_complete s3 \<and> red_segments s3 = [], sent, s3)) (send_remaining (serial_number rpt) rt s2))"
proof
  let ?s1 = "if word_of_int (find_checkpoint_stop_byte (checkpoint_id rpt) s + 1) = upper_bounds rpt
    then flag_checkpoint_as_claimed (checkpoint_id rpt) s else s"
  show "red_segments ?s1 = red_segments s" "red_complete ?s1 = red_complete s" "expected_red_bytes ?s1 = expected_red_bytes s"
    by (simp_all add: flag_checkpoint_as_claimed_def)
  show "process_report False rpt s = (let (claim_lower, claim_upper, segs_claimed, rt, s2) = apply_report rpt ?s1
       in map_option (\<lambda>(sent, s3). (red_complete s3 \<and> red_segments s3 = [], sent, s3)) (send_remaining (serial_number rpt) rt s2))"
    using assms by (simp add: process_report_def send_remaining_segments_def Let_def)
qed

text \<open>A report that does not claim the entire session, for a checkpoint that is still open.\<close>

lemma open_checkpoint_settled:
  assumes "segs_ok (red_segments s)" and "report_in_order rpt" and "lower_bounds rpt < upper_bounds rpt"
    and "\<not> claims_entire_session rpt s" and "0 \<le> find_checkpoint_stop_byte (checkpoint_id rpt) s"
    and "\<forall>k d. (k, d) \<in> set (red_segments s) \<longrightarrow> is_checkpoint d \<longrightarrow> in_range rpt d \<longrightarrow> in_claim rpt d"
  shows "\<exists>done sent s'. process_report False rpt s = Some (done, sent, s')
    \<and> fst ` set (red_segments s') = {k. \<exists>d. (k, d) \<in> set (red_segments s) \<and> (in_claim rpt d \<longrightarrow> foreign (checkpoint_id rpt) d)}
    \<and> (\<forall>k d. (k, d) \<in> set (red_segments s) \<longrightarrow> in_range rpt d \<longrightarrow> \<not> in_claim rpt d
         \<longrightarrow> queued_to_send d \<or> (\<exists>e \<in> set sent. same_data d e))
    \<and> (\<forall>e \<in> set sent. \<exists>k d. (k, d) \<in> set (red_segments s) \<and> \<not> in_claim rpt d \<and> same_data d e)
    \<and> (done \<longleftrightarrow> red_complete s \<and> red_segments s' = [])"
proof -
  let ?S = "red_segments s" and ?c = "checkpoint_id rpt" and ?ws = "report_windows rpt"
  let ?keep = "\<lambda>e. \<not> (in_claim rpt (snd e) \<and> \<not> foreign ?c (snd e))"
  obtain s1 where s1: "red_segments s1 = ?S" "red_complete s1 = red_complete s" "expected_red_bytes s1 = expected_red_bytes s"
    and pr: "process_report False rpt s = (let (claim_lower, claim_upper, segs_claimed, rt, s2) = apply_report rpt s1
       in map_option (\<lambda>(sent, s3). (red_complete s3 \<and> red_segments s3 = [], sent, s3)) (send_remaining (serial_number rpt) rt s2))"
    by (rule process_report_unfold [OF assms(4,5)])
  obtain lo up n rt where ap: "apply_report rpt s1 = (lo, up, n, rt, s1\<lparr>red_segments := filter ?keep ?S\<rparr>)"
    and rt: "om_wf rt" "set rt = {e \<in> set ?S. \<exists>w \<in> set ?ws. resent_in ?c w (snd e)}"
    using apply_report_exact [of s1 rpt] assms(1,2) unfolding s1(1) by blast
  have filed: "seg_filed k d" if "(k, d) \<in> set ?S" for k d using segs_ok_entry [OF assms(1) that] .
  have le: "start_byte d \<le> stop_byte d" if "(k, d) \<in> set ?S" for k d using filed [OF that] by (simp add: seg_filed_def)
  have rtD: "(k, d) \<in> set ?S \<and> \<not> in_claim rpt d" if "(k, d) \<in> set rt" for k d
    using that rt(2) in_claim_not_resent [OF assms(2)] le by fastforce
  have prem: "\<forall>k d. (k, d) \<in> set rt \<longrightarrow> \<not> is_checkpoint d \<and> seg_filed k d
      \<and> (k, d) \<in> set (red_segments (s1\<lparr>red_segments := filter ?keep ?S\<rparr>))"
  proof (intro allI impI)
    fix k d assume m: "(k, d) \<in> set rt"
    then have "in_range rpt d" using rt(2) resent_in_range [OF assms(2)] by auto
    then show "\<not> is_checkpoint d \<and> seg_filed k d \<and> (k, d) \<in> set (red_segments (s1\<lparr>red_segments := filter ?keep ?S\<rparr>))"
      using rtD [OF m] filed assms(6) by auto
  qed
  have "om_wf (filter ?keep ?S)" using segs_ok_wf [OF segs_ok_filter [OF assms(1)]] .
  then obtain sent s' where S: "send_remaining (serial_number rpt) rt (s1\<lparr>red_segments := filter ?keep ?S\<rparr>) = Some (sent, s')"
    "same_segs (filter ?keep ?S) (red_segments s')" "red_complete s' = red_complete s"
    "\<forall>k d. (k, d) \<in> set rt \<longrightarrow> queued_to_send d \<or> (\<exists>e \<in> set sent. same_data d e)"
    "\<forall>e \<in> set sent. \<exists>k d. (k, d) \<in> set rt \<and> same_data d e"
    using send_remaining_sends [OF prem rt(1), of "serial_number rpt"] s1(2) by auto
  have "process_report False rpt s = Some (red_complete s \<and> red_segments s' = [], sent, s')"
    using pr ap S(1,3) by simp
  moreover have "map fst (red_segments s') = map fst (filter ?keep ?S)"
    using S(2) unfolding same_segs_def by (induction rule: list_all2_induct) auto
  then have "fst ` set (red_segments s') = fst ` set (filter ?keep ?S)" by (metis set_map)
  then have "fst ` set (red_segments s') = {k. \<exists>d. (k, d) \<in> set ?S \<and> (in_claim rpt d \<longrightarrow> foreign ?c d)}"
    by force
  moreover have "queued_to_send d \<or> (\<exists>e \<in> set sent. same_data d e)"
    if m: "(k, d) \<in> set ?S" and "in_range rpt d" "\<not> in_claim rpt d" for k d
  proof -
    have "\<not> foreign ?c d" using assms(6) m that by (auto simp: foreign_def)
    then have "\<exists>w \<in> set ?ws. resent_in ?c w d"
      using in_range_settled [OF assms(2,3) le [OF m] that(2)] claimed_in_iff [OF assms(2) le [OF m]] that(3) by blast
    then have "(k, d) \<in> set rt" using rt(2) m by simp
    then show ?thesis using S(4) by blast
  qed
  moreover have "\<forall>e \<in> set sent. \<exists>k d. (k, d) \<in> set ?S \<and> \<not> in_claim rpt d \<and> same_data d e"
    using S(5) rtD by blast
  ultimately show ?thesis by blast
qed

text \<open>
  C10. What a report does to the session it is about, while the sender is not shutting down. Let the claims of the
  report be in order, its range not empty, and let every checkpoint segment that still waits in the range lie inside a
  claim. Then no assertion fails. A report that claims the entire session completes it and drops its segments. Any other
  report for a checkpoint that is unknown or has been answered already is ignored. Otherwise exactly the
  segments that lie inside one claim leave the session, except checkpoints that another report is to answer;
  every other segment of the range is queued already or sent again; nothing that is claimed is sent again; and the
  session is complete exactly when its end is known and no segment is left.
\<close>
theorem report_settles_range:
  assumes "segs_ok (red_segments s)" and "report_in_order rpt" and "lower_bounds rpt < upper_bounds rpt"
    and "\<forall>k d. (k, d) \<in> set (red_segments s) \<longrightarrow> is_checkpoint d \<longrightarrow> in_range rpt d \<longrightarrow> in_claim rpt d"
  shows "\<exists>done sent s'. process_report False rpt s = Some (done, sent, s')
    \<and> (if claims_entire_session rpt s then done \<and> sent = [] \<and> red_segments s' = []
       else if find_checkpoint_stop_byte (checkpoint_id rpt) s < 0 then \<not> done \<and> sent = [] \<and> s' = s
       else fst ` set (red_segments s') = {k. \<exists>d. (k, d) \<in> set (red_segments s) \<and> (in_claim rpt d \<longrightarrow> foreign (checkpoint_id rpt) d)}
         \<and> (\<forall>k d. (k, d) \<in> set (red_segments s) \<longrightarrow> in_range rpt d \<longrightarrow> \<not> in_claim rpt d
              \<longrightarrow> queued_to_send d \<or> (\<exists>e \<in> set sent. same_data d e))
         \<and> (\<forall>e \<in> set sent. \<exists>k d. (k, d) \<in> set (red_segments s) \<and> \<not> in_claim rpt d \<and> same_data d e)
         \<and> (done \<longleftrightarrow> red_complete s \<and> red_segments s' = []))"
proof (cases "claims_entire_session rpt s \<or> find_checkpoint_stop_byte (checkpoint_id rpt) s < 0")
  case True
  then show ?thesis by (auto simp: process_report_def rs_claimed_entire_session_def)
next
  case False
  then have o: "\<not> claims_entire_session rpt s" "0 \<le> find_checkpoint_stop_byte (checkpoint_id rpt) s"
      "\<not> find_checkpoint_stop_byte (checkpoint_id rpt) s < 0" by auto
  show ?thesis using open_checkpoint_settled [OF assms(1-3) o(1,2) assms(4)] unfolding if_not_P [OF o(1)] if_not_P [OF o(3)] .
qed

text \<open>A block of six bytes in three segments, the last of which is checkpoint 7.\<close>

definition demo_segs :: ds_map where
  "demo_segs = [(0, demo_piece 0 [1, 2] False), (2, demo_piece 2 [3, 4] False), (4, (demo_piece 4 [5, 6] True)\<lparr>checkpoint_id := 7\<rparr>)]"

definition demo_sender :: ltp_session where
  "demo_sender = (session_init 5 9 7 200)\<lparr>red_segments := demo_segs, checkpoints := [(7, 5)], red_complete := True, expected_red_bytes := 6\<rparr>"

definition demo_report :: "(u64, u64) omap \<Rightarrow> ltp_report_segment" where
  "demo_report cm = blank_report_segment\<lparr>checkpoint_id := 7, serial_number := 44, lower_bounds := 0, upper_bounds := 6,
     claim_map := cm, claimed_bytes := sum_list (map snd cm)\<rparr>"

lemma demo_piece_more [simp]:
  "offset (demo_piece a p eob) = a" "\<not> is_deleted (demo_piece a p eob)" "is_red (demo_piece a p eob)"
  "is_checkpoint (demo_piece a p eob) = eob" "checkpoint_id (demo_piece a p eob) = 0" "\<not> queued_to_send (demo_piece a p eob)"
  by (simp_all add: demo_piece_def blank_data_segment_def base_segment_def ltp_segment.defs ltp_data_segment.defs is_red_def)

lemma demo_sender_facts:
  "segs_ok (red_segments demo_sender)" "red_segments demo_sender = demo_segs" "red_complete demo_sender"
  "expected_red_bytes demo_sender = 6" "find_checkpoint_stop_byte 7 demo_sender = 5"
  by (simp_all add: demo_sender_def demo_segs_def session_init_def seg_filed_def find_checkpoint_stop_byte_def om_find_def is_red_def
      demo_piece_more [unfolded is_red_def])

lemma demo_report_sel [simp]:
  "checkpoint_id (demo_report cm) = 7" "lower_bounds (demo_report cm) = 0" "upper_bounds (demo_report cm) = 6"
  "claim_map (demo_report cm) = cm" "claimed_bytes (demo_report cm) = sum_list (map snd cm)"
  by (simp_all add: demo_report_def blank_report_segment_def base_segment_def ltp_segment.defs ltp_report_segment.defs)

theorem report_settles_range_witness:
  "\<exists>done sent s'. process_report False (demo_report [(0, 2), (4, 2)]) demo_sender = Some (done, sent, s')
     \<and> fst ` set (red_segments s') = {2} \<and> (\<exists>e \<in> set sent. same_data (demo_piece 2 [3, 4] False) e)"
proof -
  let ?r = "demo_report [(0, 2), (4, 2)]"
  have o: "report_in_order ?r" "lower_bounds ?r < upper_bounds ?r" "\<not> claims_entire_session ?r demo_sender"
    "0 \<le> find_checkpoint_stop_byte (checkpoint_id ?r) demo_sender"
    by (simp_all add: report_in_order_def claims_entire_session_def demo_sender_facts)
  have i: "in_claim ?r (demo_piece 0 [1, 2] False)" "\<not> in_claim ?r (demo_piece 2 [3, 4] False)"
    "in_claim ?r ((demo_piece 4 [5, 6] True)\<lparr>checkpoint_id := 7\<rparr>)" "in_range ?r (demo_piece 2 [3, 4] False)"
    "\<not> foreign 7 (demo_piece 0 [1, 2] False)" "\<not> foreign 7 ((demo_piece 4 [5, 6] True)\<lparr>checkpoint_id := 7\<rparr>)"
    by (simp_all add: in_claim_def in_range_def foreign_def)
  have c: "\<forall>k d. (k, d) \<in> set (red_segments demo_sender) \<longrightarrow> is_checkpoint d \<longrightarrow> in_range ?r d \<longrightarrow> in_claim ?r d"
    using i by (auto simp: demo_sender_facts demo_segs_def)
  have k: "{k. \<exists>d. (k, d) \<in> set (red_segments demo_sender) \<and> (in_claim ?r d \<longrightarrow> foreign 7 d)} = {2}"
    using i by (auto simp: demo_sender_facts demo_segs_def)
  obtain dn sent s' where r: "process_report False ?r demo_sender = Some (dn, sent, s')" "fst ` set (red_segments s') = {2}"
    "\<forall>k d. (k, d) \<in> set (red_segments demo_sender) \<longrightarrow> in_range ?r d \<longrightarrow> \<not> in_claim ?r d
       \<longrightarrow> queued_to_send d \<or> (\<exists>e \<in> set sent. same_data d e)"
    using report_settles_range [OF demo_sender_facts(1) o(1,2) c] o(3,4) unfolding demo_report_sel k by (auto split: if_splits)
  have "(2, demo_piece 2 [3, 4] False) \<in> set (red_segments demo_sender)" by (simp add: demo_sender_facts demo_segs_def)
  then have "\<exists>e \<in> set sent. same_data (demo_piece 2 [3, 4] False) e" using r(3) i(2,4) demo_piece_more(6) by blast
  then show ?thesis using r(1,2) by blast
qed

text \<open>
  A report that answers a checkpoint without claiming the checkpoint's own segment, while that
  segment waits, fails the assertion of \<open>Send_Remaining_Segments\<close>: the claims alone decide, and nothing
  in the report is checked against what was sent, so that a peer can stop the sending node with one
  report segment.
\<close>
theorem unclaimed_checkpoint_aborts:
  assumes "segs_ok (red_segments s)" and "report_in_order rpt" and "lower_bounds rpt < upper_bounds rpt"
    and "\<not> claims_entire_session rpt s" and "0 \<le> find_checkpoint_stop_byte (checkpoint_id rpt) s"
    and "(k, d) \<in> set (red_segments s)" and "is_checkpoint d" and "checkpoint_id d = checkpoint_id rpt"
    and "in_range rpt d" and "\<not> in_claim rpt d"
  shows "process_report False rpt s = None"
proof -
  obtain s1 where s1: "red_segments s1 = red_segments s" "red_complete s1 = red_complete s" "expected_red_bytes s1 = expected_red_bytes s"
    and pr: "process_report False rpt s = (let (claim_lower, claim_upper, segs_claimed, rt, s2) = apply_report rpt s1
       in map_option (\<lambda>(sent, s3). (red_complete s3 \<and> red_segments s3 = [], sent, s3)) (send_remaining (serial_number rpt) rt s2))"
    by (rule process_report_unfold [OF assms(4,5)])
  obtain lo up n rt s2 where ap: "apply_report rpt s1 = (lo, up, n, rt, s2)"
    and rt: "set rt = {e \<in> set (red_segments s). \<exists>w \<in> set (report_windows rpt). resent_in (checkpoint_id rpt) w (snd e)}"
    using apply_report_exact [of s1 rpt] assms(1,2) unfolding s1(1) by blast
  have le: "start_byte d \<le> stop_byte d" using segs_ok_entry [OF assms(1,6)] by (simp add: seg_filed_def)
  have "\<exists>w \<in> set (report_windows rpt). resent_in (checkpoint_id rpt) w d"
    using in_range_settled [OF assms(2,3) le assms(9)] claimed_in_iff [OF assms(2) le] assms(8,10) by (auto simp: foreign_def)
  then have "(k, d) \<in> set rt" using rt assms(6) by simp
  then show ?thesis using pr ap send_remaining_checkpoint [OF _ assms(7)] by simp
qed

theorem unclaimed_checkpoint_aborts_witness: "process_report False (demo_report [(0, 2)]) demo_sender = None"
proof (rule unclaimed_checkpoint_aborts)
  let ?d = "(demo_piece 4 [5, 6] True)\<lparr>checkpoint_id := 7\<rparr>"
  show "(4, ?d) \<in> set (red_segments demo_sender)" by (simp add: demo_sender_facts demo_segs_def)
  show "segs_ok (red_segments demo_sender)" by (rule demo_sender_facts(1))
  show "is_checkpoint ?d" "checkpoint_id ?d = checkpoint_id (demo_report [(0, 2)])" by simp_all
  show "in_range (demo_report [(0, 2)]) ?d" "\<not> in_claim (demo_report [(0, 2)]) ?d" by (simp_all add: in_range_def in_claim_def)
qed (simp_all add: report_in_order_def claims_entire_session_def demo_sender_facts)

section \<open>Any report\<close>

text \<open>
  Without any assumption on the order of the claims: only segments inside a claim leave the session,
  and the others keep their place and their data.
\<close>

lemma claim_walk_any:
  "claim_walk ckpt lo co up m rt = (n, m', rt') \<Longrightarrow> set m' \<subseteq> set m \<and> (om_wf m \<longrightarrow> om_wf m')
    \<and> (\<forall>k d. (k, d) \<in> set m \<longrightarrow> \<not> is_deleted d \<longrightarrow> (k, d) \<in> set m' \<or> co \<le> offset d \<and> stop_byte d < up)
    \<and> (\<forall>k d. (k, d) \<in> set rt' \<longrightarrow> (k, d) \<in> set rt \<or> (\<exists>j. (j, d) \<in> set m \<and> k = start_byte d))"
proof (induction ckpt lo co up m rt arbitrary: n m' rt' rule: claim_walk.induct)
  case (2 ckpt lo co up k d rest rt)
  show ?case
  proof (cases "claim_entry ckpt lo co up d")
    case None then show ?thesis using 2(2) by auto
  next
    case (Some act)
    let ?rt = "if act = Resend then om_assign (start_byte d) d rt else rt"
    obtain n1 m1 rt1 where w: "claim_walk ckpt lo co up rest ?rt = (n1, m1, rt1)" by (metis prod_cases3)
    have r: "m' = (if act = Drop \<or> act = Claimed then m1 else (k, d) # m1)" "rt' = rt1" using 2(2) Some w by auto
    note IH = "2.IH" [OF Some w]
    have "act = Claimed \<longrightarrow> co \<le> offset d \<and> stop_byte d < up" "act = Drop \<longrightarrow> is_deleted d"
      using Some by (auto simp: claim_entry_def split: if_splits)
    moreover have "(j, e) \<in> set ?rt \<Longrightarrow> (j, e) \<in> set rt \<or> (j, e) = (start_byte d, d)" for j e
      using om_assign_mem [of j e "start_byte d" d rt] by (auto split: if_splits)
    ultimately show ?thesis using IH unfolding r by (simp split: if_splits) (blast | auto)+
  qed
qed auto

text \<open>A step from \<open>S\<close> to \<open>m\<close> that drops only segments with \<open>P\<close>; and the segments to send again.\<close>

definition drops_only :: "(ltp_data_segment \<Rightarrow> bool) \<Rightarrow> ds_map \<Rightarrow> ds_map \<Rightarrow> bool" where
  "drops_only P S m \<longleftrightarrow> set m \<subseteq> set S \<and> om_wf m \<and> (\<forall>k d. (k, d) \<in> set S \<longrightarrow> (k, d) \<in> set m \<or> P d)"

definition keyed :: "ds_map \<Rightarrow> bool" where
  "keyed m \<longleftrightarrow> (\<forall>k d. (k, d) \<in> set m \<longrightarrow> k = start_byte d \<and> offset d = start_byte d \<and> \<not> is_deleted d
     \<and> is_red d \<and> \<not> is_greenendofblock d \<and> start_byte d \<le> stop_byte d)"

lemma keyedD:
  assumes "keyed m" and "(k, d) \<in> set m"
  shows "k = start_byte d" "offset d = start_byte d" "\<not> is_deleted d" "is_red d" "\<not> is_greenendofblock d"
    "start_byte d \<le> stop_byte d"
  using assms unfolding keyed_def by blast+

lemma remove_claimed_any:
  assumes "remove_claimed_segments ckpt lo co up rt s = (n, rt', s')" and "drops_only P S (red_segments s)" and "keyed S"
    and "set rt \<subseteq> set S" and "\<And>d. start_byte d \<le> stop_byte d \<Longrightarrow> start_byte d \<ge> co \<Longrightarrow> stop_byte d < up \<Longrightarrow> P d"
  shows "drops_only P S (red_segments s') \<and> set rt' \<subseteq> set S \<and> (\<exists>m. s' = s\<lparr>red_segments := m\<rparr>)"
proof -
  define below where "below = om_below lo (red_segments s)"
  define walked where "walked = walk_part lo (red_segments s)"
  have m: "red_segments s = butlast below @ walked"
    unfolding below_def walked_def by (rule walk_split)
  obtain n1 segs rt1 where w1: "claim_walk ckpt lo co up walked rt = (n1, segs, rt1)" by (metis prod_cases3)
  then have w: "claim_walk ckpt lo co up walked rt = (n, segs, rt')" and s': "s' = s\<lparr>red_segments := butlast below @ segs\<rparr>"
    using remove_claimed_walk [OF w1 [unfolded walked_def]] assms(1) by (simp_all add: below_def)
  note W = claim_walk_any [OF w]
  have D: "set (red_segments s) \<subseteq> set S" "om_wf (red_segments s)" "\<And>k d. (k, d) \<in> set S \<Longrightarrow> (k, d) \<in> set (red_segments s) \<or> P d"
    using assms(2) by (auto simp: drops_only_def)
  have sub: "set segs \<subseteq> set walked" "set walked \<subseteq> set S" using W D(1) m by auto
  have "om_wf (butlast below @ segs)" using D(2) W sub(1) unfolding m om_wf_append by blast
  moreover have "(k, d) \<in> set (butlast below @ segs) \<or> P d" if "(k, d) \<in> set S" for k d
  proof (cases "P d")
    case False
    then have "(k, d) \<in> set (butlast below) \<or> (k, d) \<in> set walked" using D(3) [OF that] m by auto
    moreover have "\<not> (co \<le> offset d \<and> stop_byte d < up)" using False assms(5) keyedD(2,6) [OF assms(3) that] by auto
    ultimately show ?thesis using W keyedD(3) [OF assms(3) that] by auto
  qed simp
  moreover have "set rt' \<subseteq> set S"
  proof
    fix e assume e: "e \<in> set rt'"
    obtain a b where ab: "e = (a, b)" by (cases e)
    have "(a, b) \<in> set rt \<or> (\<exists>j. (j, b) \<in> set walked \<and> a = start_byte b)" using W e ab by blast
    then consider "e \<in> set rt" | j d where "(j, d) \<in> set walked" "e = (start_byte d, d)" using ab by auto
    then show "e \<in> set S"
    proof cases
      case 2
      then have "(j, d) \<in> set S" using sub(2) by blast
      then show ?thesis using keyedD(1) [OF assms(3)] 2(2) by auto
    qed (use assms(4) in blast)
  qed
  ultimately show ?thesis using s' sub D(1) m by (auto simp: drops_only_def)
qed

lemma same_session: "\<exists>m. s = s\<lparr>red_segments := m\<rparr>" for s :: ltp_session
  by (rule exI [of _ "red_segments s"]) simp

lemma apply_claims_any:
  assumes "drops_only P S (red_segments s)" and "keyed S" and "set rt \<subseteq> set S"
    and "\<And>off len d. (off, len) \<in> set cs \<Longrightarrow> start_byte d \<ge> rlower + off \<Longrightarrow> stop_byte d < rlower + off + len \<Longrightarrow> P d"
    and "fold (apply_claim ckpt rlower) cs (lo, lo, n, rt, s) = (lo', up', n', rt', s')"
  shows "drops_only P S (red_segments s') \<and> set rt' \<subseteq> set S \<and> (\<exists>m. s' = s\<lparr>red_segments := m\<rparr>) \<and> lo' = up'"
  using assms(1,3-5)
proof (induction cs arbitrary: lo n rt s)
  case (Cons c cs)
  obtain off len where c: "c = (off, len)" by (cases c)
  obtain k rt1 s1 where r: "remove_claimed_segments ckpt lo (rlower + off) (rlower + off + len) rt s = (k, rt1, s1)"
    by (metis prod_cases3)
  have R: "drops_only P S (red_segments s1)" "set rt1 \<subseteq> set S" "\<exists>m. s1 = s\<lparr>red_segments := m\<rparr>"
    using remove_claimed_any [OF r Cons.prems(1) assms(2) Cons.prems(2)] Cons.prems(3) c by auto
  have "apply_claim ckpt rlower (off, len) (lo, lo, n, rt, s) = (rlower + off + len, rlower + off + len, n + k, rt1, s1)"
    using r by (simp add: apply_claim_def Let_def)
  then have f: "fold (apply_claim ckpt rlower) cs (rlower + off + len, rlower + off + len, n + k, rt1, s1) = (lo', up', n', rt', s')"
    using Cons.prems(4) by (simp add: c)
  have "drops_only P S (red_segments s') \<and> set rt' \<subseteq> set S \<and> (\<exists>m. s' = s1\<lparr>red_segments := m\<rparr>) \<and> lo' = up'"
    by (rule Cons.IH [OF R(1,2) _ f]) (use Cons.prems(3) in auto)
  then show ?case using R(3) by auto
qed (use same_session in auto)

lemma apply_report_any:
  assumes "om_wf (red_segments s)" and "keyed (red_segments s)" and "apply_report rpt s = (lo, up, n, rt, s')"
  shows "drops_only (in_claim rpt) (red_segments s) (red_segments s') \<and> set rt \<subseteq> set (red_segments s)
    \<and> (\<exists>m. s' = s\<lparr>red_segments := m\<rparr>)"
proof -
  let ?P = "in_claim rpt" and ?S = "red_segments s" and ?l = "lower_bounds rpt"
  obtain lo1 up1 n1 rt1 s1 where f: "fold (apply_claim (checkpoint_id rpt) ?l) (claim_map rpt) (?l, ?l, 0, [], s) = (lo1, up1, n1, rt1, s1)"
    by (metis prod_cases5)
  have "drops_only ?P ?S ?S" using assms(1) by (simp add: drops_only_def)
  from apply_claims_any [OF this assms(2) _ _ f]
  have F: "drops_only ?P ?S (red_segments s1)" "set rt1 \<subseteq> set ?S" "\<exists>m. s1 = s\<lparr>red_segments := m\<rparr>"
    by (auto simp: in_claim_def)
  show ?thesis
  proof (cases "upper_bounds rpt > up1")
    case True
    obtain k rt2 s2 where r: "remove_claimed_segments (checkpoint_id rpt) lo1 (upper_bounds rpt) (upper_bounds rpt) rt1 s1 = (k, rt2, s2)"
      by (metis prod_cases3)
    have "apply_report rpt s = (lo1, upper_bounds rpt, n1 + k, rt2, s2)"
      using True f r by (simp add: apply_report_def apply_tail_def)
    moreover have "drops_only ?P ?S (red_segments s2) \<and> set rt2 \<subseteq> set ?S \<and> (\<exists>m. s2 = s1\<lparr>red_segments := m\<rparr>)"
      by (rule remove_claimed_any [OF r F(1) assms(2) F(2)]) auto
    ultimately show ?thesis using assms(3) F(3) by auto
  next
    case False
    then have "apply_report rpt s = (lo1, up1, n1, rt1, s1)" using f by (simp add: apply_report_def apply_tail_def)
    then show ?thesis using assms(3) F by simp
  qed
qed

lemma send_remaining_any:
  assumes "send_remaining rsn rt s = Some (sent, s')" and "om_wf (red_segments s)"
    and "\<forall>k d. (k, d) \<in> set rt \<longrightarrow> is_red d \<and> \<not> is_greenendofblock d \<and> (\<forall>e. (k, e) \<in> set (red_segments s) \<longrightarrow> same_data e d)"
  shows "same_segs (red_segments s) (red_segments s') \<and> red_complete s' = red_complete s
    \<and> expected_red_bytes s' = expected_red_bytes s \<and> (\<forall>e \<in> set sent. \<exists>k d. (k, d) \<in> set rt \<and> same_data d e)"
  using assms
proof (induction rsn rt s arbitrary: sent s' rule: send_remaining.induct)
  case (2 rsn k ds rest s)
  obtain d1 s1 where d1: "(if rest = [] then new_checkpoint rsn ds s else (ds, s)) = (d1, s1)" by (metis surj_pair)
  define d2 where "d2 = d1\<lparr>queued_to_send := True\<rparr>"
  define s2 where "s2 = s1\<lparr>red_segments := om_modify k (\<lambda>_. d2) (red_segments s1)\<rparr>"
  have "is_red ds \<and> \<not> is_greenendofblock ds \<and> (\<forall>e. (k, e) \<in> set (red_segments s) \<longrightarrow> same_data e ds)"
    using 2(4) by (meson list.set_intros(1))
  then have ds: "is_red ds" "\<not> is_greenendofblock ds" "\<forall>e. (k, e) \<in> set (red_segments s) \<longrightarrow> same_data e ds" by auto
  have nc: "\<not> is_checkpoint ds" using 2(2) by (auto split: if_splits)
  have "new_checkpoint rsn ds s = (d1, s1) \<or> (d1 = ds \<and> s1 = s)" using d1 by (cases "rest = []") simp_all
  then have f: "same_data ds d1" "red_segments s1 = red_segments s" "red_complete s1 = red_complete s"
    "expected_red_bytes s1 = expected_red_bytes s"
    using new_checkpoint_facts [OF ds(1,2), of rsn s d1 s1] by auto
  have sd: "same_data ds d2" using f(1) by (simp add: d2_def)
  have "\<forall>e. (k, e) \<in> set (red_segments s) \<longrightarrow> same_data e d2" using ds(3) sd same_data_trans by blast
  then have seg: "same_segs (red_segments s) (red_segments s2)" using same_segs_modify f(2) by (simp add: s2_def)
  obtain sent1 where r: "send_remaining rsn rest s2 = Some (sent1, s')" "sent = (if queued_to_send d1 then [] else [d2]) @ sent1"
    using 2(2) nc d1 by (auto simp: s2_def d2_def Let_def)
  have prem: "\<forall>j d. (j, d) \<in> set rest \<longrightarrow> is_red d \<and> \<not> is_greenendofblock d \<and> (\<forall>e. (j, e) \<in> set (red_segments s2) \<longrightarrow> same_data e d)"
  proof (intro allI impI)
    fix j d assume "(j, d) \<in> set rest"
    then have d: "is_red d \<and> \<not> is_greenendofblock d \<and> (\<forall>e. (j, e) \<in> set (red_segments s) \<longrightarrow> same_data e d)"
      using 2(4) by (meson list.set_intros(2))
    have "same_data e d" if mem: "(j, e) \<in> set (red_segments s2)" for e
    proof -
      obtain e0 where e0: "(j, e0) \<in> set (red_segments s)" "same_data e0 e"
        using same_segs_old [OF seg mem] by blast
      then have "same_data e0 d" using d by blast
      then show ?thesis using e0(2) by (simp add: same_data_def)
    qed
    then show "is_red d \<and> \<not> is_greenendofblock d \<and> (\<forall>e. (j, e) \<in> set (red_segments s2) \<longrightarrow> same_data e d)" using d by blast
  qed
  note IH = "2.IH" [OF nc d1 [symmetric] refl d2_def s2_def r(1) same_segs_wf [OF seg 2(3)] prem]
  have "\<exists>j d. (j, d) \<in> set ((k, ds) # rest) \<and> same_data d e" if "e \<in> set sent" for e
  proof (cases "e \<in> set sent1")
    case True then show ?thesis using IH by (meson list.set_intros(2))
  next
    case False then have "e = d2" using that r(2) by (auto split: if_splits)
    then show ?thesis using sd by auto
  qed
  moreover have "red_complete s2 = red_complete s" "expected_red_bytes s2 = expected_red_bytes s" using f(3,4) by (simp_all add: s2_def)
  ultimately show ?case using IH same_segs_trans [OF seg] by auto
qed auto

text \<open>
  A report of any form: what is left keeps its data, what is gone was inside a claim, and the session is
  complete only when the report claims the whole session or nothing is left.
\<close>

lemma process_report_any:
  assumes "process_report shut rpt s = Some (dn, sent, s')" and "om_wf (red_segments s)" and "keyed (red_segments s)"
    and "\<not> claims_entire_session rpt s"
  shows "om_wf (red_segments s')" and "(k, e) \<in> set (red_segments s') \<Longrightarrow> \<exists>d. (k, d) \<in> set (red_segments s) \<and> same_data d e"
    and "(k, d) \<in> set (red_segments s) \<Longrightarrow> in_claim rpt d \<or> (\<exists>e. (k, e) \<in> set (red_segments s') \<and> same_data d e)"
    and "red_complete s' = red_complete s" and "expected_red_bytes s' = expected_red_bytes s"
    and "e \<in> set sent \<Longrightarrow> \<exists>k d. (k, d) \<in> set (red_segments s) \<and> same_data d e"
    and "dn \<Longrightarrow> red_complete s' \<and> red_segments s' = []"
proof -
  have "om_wf (red_segments s') \<and> (\<forall>k e. (k, e) \<in> set (red_segments s') \<longrightarrow> (\<exists>d. (k, d) \<in> set (red_segments s) \<and> same_data d e))
    \<and> (\<forall>k d. (k, d) \<in> set (red_segments s) \<longrightarrow> in_claim rpt d \<or> (\<exists>e. (k, e) \<in> set (red_segments s') \<and> same_data d e))
    \<and> red_complete s' = red_complete s \<and> expected_red_bytes s' = expected_red_bytes s
    \<and> (\<forall>e \<in> set sent. \<exists>k d. (k, d) \<in> set (red_segments s) \<and> same_data d e) \<and> (dn \<longrightarrow> red_complete s' \<and> red_segments s' = [])"
  proof (cases "find_checkpoint_stop_byte (checkpoint_id rpt) s < 0")
    case True
    then have "dn = False" "sent = []" "s' = s" using assms(1,4) by (simp_all add: process_report_def)
    then show ?thesis using assms(2) same_data_refl by auto
  next
    case False
    define s1 where "s1 = (if word_of_int (find_checkpoint_stop_byte (checkpoint_id rpt) s + 1) = upper_bounds rpt
      then flag_checkpoint_as_claimed (checkpoint_id rpt) s else s)"
    have s1: "red_segments s1 = red_segments s" "red_complete s1 = red_complete s" "expected_red_bytes s1 = expected_red_bytes s"
      by (simp_all add: s1_def flag_checkpoint_as_claimed_def)
    obtain lo up n rt s2 where ap: "apply_report rpt s1 = (lo, up, n, rt, s2)" by (metis prod_cases5)
    have A: "drops_only (in_claim rpt) (red_segments s) (red_segments s2)" "set rt \<subseteq> set (red_segments s)" "\<exists>m. s2 = s1\<lparr>red_segments := m\<rparr>"
      using apply_report_any [OF _ _ ap] assms(2,3) by (simp_all add: s1)
    then have D: "set (red_segments s2) \<subseteq> set (red_segments s)" "om_wf (red_segments s2)"
      "\<And>k d. (k, d) \<in> set (red_segments s) \<Longrightarrow> (k, d) \<in> set (red_segments s2) \<or> in_claim rpt d"
      by (auto simp: drops_only_def)
    obtain sr: "send_remaining_segments shut (serial_number rpt) rt s2 = Some (sent, s')" and dn: "dn = (red_complete s' \<and> red_segments s' = [])"
    proof -
      have "process_report shut rpt s = map_option (\<lambda>(sent, s3). (red_complete s3 \<and> red_segments s3 = [], sent, s3))
          (send_remaining_segments shut (serial_number rpt) rt s2)"
        unfolding process_report_def Let_def s1_def [symmetric] ap using assms(4) False by simp
      then show thesis
        using assms(1) that by (cases "send_remaining_segments shut (serial_number rpt) rt s2") auto
    qed
    have "\<forall>k d. (k, d) \<in> set rt \<longrightarrow> is_red d \<and> \<not> is_greenendofblock d \<and> (\<forall>e. (k, e) \<in> set (red_segments s2) \<longrightarrow> same_data e d)"
    proof (intro allI impI)
      fix k d assume "(k, d) \<in> set rt"
      then have m: "(k, d) \<in> set (red_segments s)" using A(2) by blast
      have "e = d" if "(k, e) \<in> set (red_segments s2)" for e
        using om_find_mem [OF assms(2) m] om_find_mem [OF assms(2), of k e] D(1) that by auto
      then show "is_red d \<and> \<not> is_greenendofblock d \<and> (\<forall>e. (k, e) \<in> set (red_segments s2) \<longrightarrow> same_data e d)"
        using keyedD(4,5) [OF assms(3) m] same_data_refl by blast
    qed
    from send_remaining_any [OF _ D(2) this] sr
    have S: "same_segs (red_segments s2) (red_segments s')" "red_complete s' = red_complete s2" "expected_red_bytes s' = expected_red_bytes s2"
      "\<forall>e \<in> set sent. \<exists>k d. (k, d) \<in> set rt \<and> same_data d e"
      by (auto simp: send_remaining_segments_def split: if_splits)
    have "red_complete s2 = red_complete s" "expected_red_bytes s2 = expected_red_bytes s" using A(3) s1 by auto
    moreover have "\<forall>k e. (k, e) \<in> set (red_segments s') \<longrightarrow> (\<exists>d. (k, d) \<in> set (red_segments s) \<and> same_data d e)"
      using same_segs_old [OF S(1)] D(1) by blast
    moreover have "\<forall>k d. (k, d) \<in> set (red_segments s) \<longrightarrow> in_claim rpt d \<or> (\<exists>e. (k, e) \<in> set (red_segments s') \<and> same_data d e)"
      using same_segs_new [OF S(1)] D(3) by blast
    moreover have "\<forall>e \<in> set sent. \<exists>k d. (k, d) \<in> set (red_segments s) \<and> same_data d e" using S(4) A(2) by blast
    ultimately show ?thesis using same_segs_wf [OF S(1) D(2)] S(2,3) dn by simp
  qed
  then show "om_wf (red_segments s')" "(k, e) \<in> set (red_segments s') \<Longrightarrow> \<exists>d. (k, d) \<in> set (red_segments s) \<and> same_data d e"
    "(k, d) \<in> set (red_segments s) \<Longrightarrow> in_claim rpt d \<or> (\<exists>e. (k, e) \<in> set (red_segments s') \<and> same_data d e)"
    "red_complete s' = red_complete s" "expected_red_bytes s' = expected_red_bytes s"
    "e \<in> set sent \<Longrightarrow> \<exists>k d. (k, d) \<in> set (red_segments s) \<and> same_data d e"
    "dn \<Longrightarrow> red_complete s' \<and> red_segments s' = []" by blast+
qed

end
