(* ===== verification/Bundle_Produce.thy ===== *)
theory Bundle_Produce
  imports Prelude
begin

text \<open>
  Turning a formatted bundle into a stream of bytes: \<open>produce\<close> of \<open>BundleProtocolVersion6.cc\<close> and
  \<open>BundleProtocolVersion7.cc\<close>, of the block processors, and the buffer of \<open>oasys/util/StreamBuffer.cc\<close>
  through which the payload is read. \<open>None\<close> is a failed assertion, a read outside a buffer or a loop
  that does not end. The theory shows that a bundle produced in pieces of any sizes is the bundle, and
  that this fails when production starts again.
\<close>

section \<open>Stream buffer\<close>

text \<open>Sizes are \<open>size_t\<close>; a subtraction that the code does not guard is written with its wrap-around.\<close>

definition sub64 :: "nat \<Rightarrow> nat \<Rightarrow> nat" where
  "sub64 a b = (if b \<le> a then a - b else 2 ^ 64 + a - b)"

record stream_buffer =
  sb_buf :: bytes
  sb_start :: nat
  sb_end :: nat
  sb_size :: nat

text \<open>Fresh memory, whose contents are not specified, is filled with zeros.\<close>

definition sb_new :: "nat \<Rightarrow> stream_buffer" where
  "sb_new n = (let m = (if n = 0 then 4 else n) in \<lparr>sb_buf = replicate m 0, sb_start = 0, sb_end = 0, sb_size = m\<rparr>)"

definition sb_fullbytes :: "stream_buffer \<Rightarrow> nat" where
  "sb_fullbytes sb = sb_end sb - sb_start sb"

definition sb_tailbytes :: "stream_buffer \<Rightarrow> nat" where
  "sb_tailbytes sb = sb_size sb - sb_end sb"

definition sb_fill :: "nat \<Rightarrow> stream_buffer \<Rightarrow> stream_buffer option" where
  "sb_fill n sb = (if n \<le> sb_tailbytes sb then Some (sb\<lparr>sb_end := sb_end sb + n\<rparr>) else None)"

definition sb_consume :: "nat \<Rightarrow> stream_buffer \<Rightarrow> stream_buffer option" where
  "sb_consume n sb =
     (if n \<le> sb_fullbytes sb
      then Some (if sb_start sb + n = sb_end sb then sb\<lparr>sb_start := 0, sb_end := 0\<rparr> else sb\<lparr>sb_start := sb_start sb + n\<rparr>)
      else None)"

text \<open>Memory at \<open>start()\<close>: what is written there and what is copied from there.\<close>

definition sb_write :: "bytes \<Rightarrow> stream_buffer \<Rightarrow> stream_buffer" where
  "sb_write d sb = sb\<lparr>sb_buf := take (sb_start sb) (sb_buf sb) @ d @ drop (sb_start sb + length d) (sb_buf sb)\<rparr>"

definition sb_peek :: "nat \<Rightarrow> stream_buffer \<Rightarrow> bytes" where
  "sb_peek n sb = take n (drop (sb_start sb) (sb_buf sb))"

section \<open>Blocks\<close>

text \<open>
  A formatted block. The contents of the payload block are its header only; the payload itself is the
  first argument of the operations.
\<close>

record block_info =
  bi_contents :: bytes
  bi_data_offset :: nat
  bi_data_length :: nat
  bi_crc_length :: nat
  bi_payload_type :: bool
  bi_last_block :: bool
  bi_locals :: "stream_buffer option"

definition full_length :: "block_info \<Rightarrow> nat" where
  "full_length b = bi_data_offset b + bi_data_length b + bi_crc_length b"

definition memcpy_from :: "bytes \<Rightarrow> nat \<Rightarrow> nat \<Rightarrow> bytes option" where
  "memcpy_from buf off n = (if off + n \<le> length buf then Some (take n (drop off buf)) else None)"

definition read_data :: "bytes \<Rightarrow> nat \<Rightarrow> nat \<Rightarrow> bytes option" where
  "read_data pl off n = (if length pl \<ge> off + n then Some (take n (drop off pl)) else None)"

definition block_produce :: "block_info \<Rightarrow> nat \<Rightarrow> nat \<Rightarrow> bytes option" where
  "block_produce b off len =
     (if off < length (bi_contents b) \<and> length (bi_contents b) \<ge> off + len
      then memcpy_from (bi_contents b) off len else None)"

section \<open>The payload block\<close>

text \<open>The working buffer: made on the first call when the payload does not fit, and kept on the block.\<close>

definition payload_helper :: "bytes \<Rightarrow> block_info \<Rightarrow> nat \<Rightarrow> nat \<Rightarrow> stream_buffer option" where
  "payload_helper pl b off len =
     (if off = 0 \<and> bi_locals b = None then
        if length pl > len then Some (sb_new (if length pl > 10000000 then 10000000 else length pl)) else None
      else bi_locals b)"

text \<open>
  The loop that fills the working buffer until the request is satisfied. When a pass copies nothing, no
  variable changes any more, and the loop does not end.
\<close>

function produce_read :: "bytes \<Rightarrow> stream_buffer \<Rightarrow> nat \<Rightarrow> nat \<Rightarrow> (bytes \<times> stream_buffer \<times> nat) option" where
  "produce_read pl sb po len =
     (if len = 0 then Some ([], sb, po)
      else
        let toread = min (sb_tailbytes sb) (sub64 (length pl) po) in
        case read_data pl po toread of
          None \<Rightarrow> None
        | Some d \<Rightarrow>
            (case sb_fill toread (sb_write d sb) of
               None \<Rightarrow> None
             | Some sb1 \<Rightarrow>
                 let tocopy = min len (sb_fullbytes sb1) in
                 if tocopy = 0 then None
                 else
                   (case sb_consume tocopy sb1 of
                      None \<Rightarrow> None
                    | Some sb2 \<Rightarrow>
                        map_option (\<lambda>(out, sb', po'). (sb_peek tocopy sb1 @ out, sb', po'))
                          (produce_read pl sb2 (po + tocopy) (len - tocopy)))))"
  by pat_completeness auto
termination by (relation "measure (\<lambda>(pl, sb, po, len). len)") auto

declare produce_read.simps [simp del]

definition release_helper :: "bytes \<Rightarrow> nat \<Rightarrow> stream_buffer \<Rightarrow> block_info \<Rightarrow> block_info" where
  "release_helper pl po sb b = b\<lparr>bi_locals := (if po = length pl then None else Some sb)\<rparr>"

text \<open>Payload bytes from the working buffer.\<close>

definition produce_buffered ::
    "bytes \<Rightarrow> stream_buffer \<Rightarrow> nat \<Rightarrow> nat \<Rightarrow> nat \<Rightarrow> block_info \<Rightarrow> (bytes \<times> block_info) option" where
  "produce_buffered pl sb po len tocopy b =
     (if sb_fullbytes sb \<ge> tocopy then
        map_option (\<lambda>sb1. (sb_peek tocopy sb, release_helper pl (po + tocopy) sb1 b)) (sb_consume tocopy sb)
      else
        let n = sb_fullbytes sb in
        case (if n > 0 then sb_consume n sb else Some sb) of
          None \<Rightarrow> None
        | Some sb1 \<Rightarrow>
            if sb_tailbytes sb1 \<noteq> sb_size sb1 then None
            else map_option (\<lambda>(out, sb2, po'). (sb_peek n sb @ out, release_helper pl po' sb2 b))
                   (produce_read pl sb1 (po + n) (len - n)))"

definition payload_produce :: "bytes \<Rightarrow> block_info \<Rightarrow> nat \<Rightarrow> nat \<Rightarrow> (bytes \<times> block_info) option" where
  "payload_produce pl b off len =
     (let helper = payload_helper pl b off len; b0 = b\<lparr>bi_locals := helper\<rparr>;
          n = (if off < bi_data_offset b then min len (bi_data_offset b - off) else 0)
      in case (if n = 0 then Some [] else memcpy_from (bi_contents b) off n) of
           None \<Rightarrow> None
         | Some pre \<Rightarrow>
             if len - n = 0 then Some (pre, b0)
             else
               let po = off + n - bi_data_offset b; tocopy = min (len - n) (sub64 (length pl) po)
               in map_option (\<lambda>(out, b'). (pre @ out, b'))
                    (case helper of
                       Some sb \<Rightarrow> produce_buffered pl sb po (len - n) tocopy b0
                     | None \<Rightarrow> map_option (\<lambda>out. (out, b0)) (read_data pl po tocopy)))"

definition owner_produce :: "bytes \<Rightarrow> block_info \<Rightarrow> nat \<Rightarrow> nat \<Rightarrow> (bytes \<times> block_info) option" where
  "owner_produce pl b off len =
     (if bi_payload_type b then payload_produce pl b off len else map_option (\<lambda>out. (out, b)) (block_produce b off len))"

section \<open>Version 6\<close>

text \<open>The blocks that the offset skips, the others, and the offset within the first of them.\<close>

fun skip_blocks :: "block_info list \<Rightarrow> nat \<Rightarrow> block_info list \<times> block_info list \<times> nat" where
  "skip_blocks [] off = ([], [], off)"
| "skip_blocks (b # bs) off =
     (if off \<ge> full_length b then let (pre, rest, o') = skip_blocks bs (off - full_length b) in (b # pre, rest, o')
      else ([], b # bs, off))"

fun emit6 :: "bytes \<Rightarrow> block_info list \<Rightarrow> nat \<Rightarrow> nat \<Rightarrow> (bytes \<times> bool \<times> block_info list) option" where
  "emit6 pl [] off len = None"
| "emit6 pl (b # bs) off len =
     (let remainder = full_length b - off; tocopy = min len remainder in
      case owner_produce pl b off tocopy of
        None \<Rightarrow> None
      | Some (out, b') \<Rightarrow>
          if len - tocopy = 0 then
            if tocopy = remainder \<and> bi_last_block b
            then if bs = [] then Some (out, True, [b']) else None
            else Some (out, False, b' # bs)
          else if bi_last_block b
          then if bs = [] then Some (out, True, [b']) else None
          else map_option (\<lambda>(o2, l, bs'). (out @ o2, l, b' # bs')) (emit6 pl bs 0 (len - tocopy)))"

definition produce6 :: "bytes \<Rightarrow> block_info list \<Rightarrow> nat \<Rightarrow> nat \<Rightarrow> (bytes \<times> bool \<times> block_info list) option" where
  "produce6 pl blocks off len =
     (if len = 0 then Some ([], False, blocks)
      else
        let (pre, rest, o') = skip_blocks blocks off in
        map_option (\<lambda>(out, l, bs). (out, l, pre @ bs)) (emit6 pl rest o' len))"

section \<open>Version 7\<close>

text \<open>The bytes produced from the blocks and the room left.\<close>

fun emit7 :: "bytes \<Rightarrow> block_info list \<Rightarrow> nat \<Rightarrow> nat \<Rightarrow> (bytes \<times> nat \<times> block_info list) option" where
  "emit7 pl [] off len = None"
| "emit7 pl (b # bs) off len =
     (let remainder = full_length b - off; tocopy = min len remainder in
      case owner_produce pl b off tocopy of
        None \<Rightarrow> None
      | Some (out, b') \<Rightarrow>
          if len - tocopy = 0 \<or> bi_payload_type b then Some (out, len - tocopy, b' # bs)
          else map_option (\<lambda>(o2, l, bs'). (out @ o2, l, b' # bs')) (emit7 pl bs 0 (len - tocopy)))"

definition produce7 :: "bytes \<Rightarrow> block_info list \<Rightarrow> nat \<Rightarrow> nat \<Rightarrow> (bytes \<times> bool \<times> block_info list) option" where
  "produce7 pl blocks off len =
     (if len = 0 then Some ([], False, blocks)
      else if blocks = [] then None
      else
        let (hdr, len1, off1) = (if off = 0 then ([0x9f], len - 1, 0) else ([], len, off - 1));
            (pre, rest, o') = skip_blocks blocks off1
        in if rest = [] then Some (take 1 (hdr @ [0xff]), True, blocks)
           else map_option (\<lambda>(out, l, bs).
                  if l > 0 then (hdr @ out @ [0xff], True, pre @ bs) else (hdr @ out, False, pre @ bs))
                  (emit7 pl rest o' len1))"

section \<open>The protocol\<close>

definition produce :: "bool \<Rightarrow> bytes \<Rightarrow> block_info list \<Rightarrow> nat \<Rightarrow> nat \<Rightarrow> (bytes \<times> bool \<times> block_info list) option" where
  "produce bpv6 pl blocks off len = (if bpv6 then produce6 pl blocks off len else produce7 pl blocks off len)"

definition total_length :: "bool \<Rightarrow> block_info list \<Rightarrow> nat" where
  "total_length bpv6 blocks = (if bpv6 then 0 else 2) + sum_list (map full_length blocks)"

fun payload_offset_of :: "block_info list \<Rightarrow> nat" where
  "payload_offset_of [] = 0"
| "payload_offset_of (b # bs) = (if bi_payload_type b then bi_data_offset b else full_length b + payload_offset_of bs)"

text \<open>Calls one after the other, as the convergence layers make them, until the bundle is complete.\<close>

fun produce_run :: "bool \<Rightarrow> bytes \<Rightarrow> block_info list \<Rightarrow> nat \<Rightarrow> nat list \<Rightarrow> (bytes \<times> bool \<times> block_info list) option" where
  "produce_run bpv6 pl blocks off [] = Some ([], False, blocks)"
| "produce_run bpv6 pl blocks off (len # lens) =
     (case produce bpv6 pl blocks off len of
        None \<Rightarrow> None
      | Some (out, complete, blocks') \<Rightarrow>
          if complete then Some (out, True, blocks')
          else map_option (\<lambda>(o2, l, bs). (out @ o2, l, bs)) (produce_run bpv6 pl blocks' (off + length out) lens))"

section \<open>What a block stands for\<close>

definition block_bytes :: "bytes \<Rightarrow> block_info \<Rightarrow> bytes" where
  "block_bytes pl b = (if bi_payload_type b then bi_contents b @ pl else bi_contents b)"

definition whole_bundle :: "bool \<Rightarrow> bytes \<Rightarrow> block_info list \<Rightarrow> bytes" where
  "whole_bundle bpv6 pl blocks =
     (if bpv6 then concat (map (block_bytes pl) blocks) else 0x9f # concat (map (block_bytes pl) blocks) @ [0xff])"

text \<open>A block as the generators leave it: not empty, its lengths those of its bytes.\<close>

definition block_ok :: "bytes \<Rightarrow> block_info \<Rightarrow> bool" where
  "block_ok pl b \<longleftrightarrow> bi_contents b \<noteq> [] \<and> full_length b = length (block_bytes pl b)
     \<and> (bi_payload_type b \<longrightarrow> bi_data_offset b = length (bi_contents b))"

text \<open>The working buffer holds the payload bytes that follow position \<open>pos\<close> of the block.\<close>

definition buffer_ok :: "bytes \<Rightarrow> nat \<Rightarrow> stream_buffer \<Rightarrow> bool" where
  "buffer_ok pl po sb \<longleftrightarrow> 0 < sb_size sb \<and> length (sb_buf sb) = sb_size sb \<and> sb_start sb \<le> sb_end sb \<and> sb_end sb \<le> sb_size sb
     \<and> (sb_start sb = sb_end sb \<longrightarrow> sb_start sb = 0) \<and> sb_fullbytes sb \<le> length pl - po
     \<and> sb_peek (sb_fullbytes sb) sb = take (sb_fullbytes sb) (drop po pl)"

definition helper_ok :: "bytes \<Rightarrow> nat \<Rightarrow> block_info \<Rightarrow> bool" where
  "helper_ok pl pos b \<longleftrightarrow> bi_payload_type b \<longrightarrow>
     (case bi_locals b of None \<Rightarrow> True | Some sb \<Rightarrow> buffer_ok pl (pos - bi_data_offset b) sb)"

lemma sub64_le [simp]: "b \<le> a \<Longrightarrow> sub64 a b = a - b"
  by (simp add: sub64_def)

lemma buffer_peek: "buffer_ok pl po sb \<Longrightarrow> n \<le> sb_fullbytes sb \<Longrightarrow> sb_peek n sb = take n (drop po pl)"
  unfolding buffer_ok_def sb_peek_def by (metis min.absorb1 take_take)

lemma buffer_consume:
  assumes "buffer_ok pl po sb" and "n \<le> sb_fullbytes sb"
  shows "\<exists>sb'. sb_consume n sb = Some sb' \<and> buffer_ok pl (po + n) sb' \<and> sb_fullbytes sb' = sb_fullbytes sb - n
    \<and> (n = sb_fullbytes sb \<longrightarrow> sb_tailbytes sb' = sb_size sb')"
proof (cases "sb_start sb + n = sb_end sb")
  case True
  then show ?thesis using assms
    by (auto simp: sb_consume_def buffer_ok_def sb_fullbytes_def sb_tailbytes_def sb_peek_def)
next
  case False
  have eq: "take (sb_fullbytes sb - n) (drop (sb_start sb + n) (sb_buf sb)) = take (sb_fullbytes sb - n) (drop (po + n) pl)"
    using assms unfolding buffer_ok_def sb_peek_def
    by (metis add.commute drop_drop drop_take)
  have "sb_end sb - (sb_start sb + n) = sb_fullbytes sb - n" using assms by (simp add: sb_fullbytes_def)
  then show ?thesis using False assms eq
    by (auto simp: sb_consume_def buffer_ok_def sb_fullbytes_def sb_tailbytes_def sb_peek_def)
qed

text \<open>One pass of the reading loop: an empty buffer is filled from the payload.\<close>

lemma buffer_refill:
  assumes "buffer_ok pl po sb" and "sb_fullbytes sb = 0" and "po < length pl"
  defines "n \<equiv> min (sb_tailbytes sb) (length pl - po)"
  shows "0 < n" and "read_data pl po n = Some (take n (drop po pl))"
    and "\<exists>sb'. sb_fill n (sb_write (take n (drop po pl)) sb) = Some sb' \<and> buffer_ok pl po sb' \<and> sb_fullbytes sb' = n"
proof -
  have z: "sb_start sb = 0" "sb_end sb = 0" using assms(1,2) by (auto simp: buffer_ok_def sb_fullbytes_def)
  then show "0 < n" using assms(1,3) by (simp add: n_def sb_tailbytes_def buffer_ok_def)
  show "read_data pl po n = Some (take n (drop po pl))" using assms(3) by (simp add: read_data_def n_def)
  have len: "length (take n (drop po pl)) = n" by (simp add: n_def)
  have "n \<le> sb_size sb" "n \<le> length pl - po" using z by (auto simp: n_def sb_tailbytes_def)
  then show "\<exists>sb'. sb_fill n (sb_write (take n (drop po pl)) sb) = Some sb' \<and> buffer_ok pl po sb' \<and> sb_fullbytes sb' = n"
    using assms(1) z len by (auto simp: sb_fill_def sb_write_def sb_tailbytes_def buffer_ok_def sb_fullbytes_def sb_peek_def)
qed

lemma produce_read_ok:
  "buffer_ok pl po sb \<Longrightarrow> sb_fullbytes sb = 0 \<Longrightarrow> po + len \<le> length pl
   \<Longrightarrow> \<exists>sb'. produce_read pl sb po len = Some (take len (drop po pl), sb', po + len) \<and> buffer_ok pl (po + len) sb'"
proof (induction pl sb po len rule: produce_read.induct)
  case (1 pl sb po len)
  show ?case
  proof (cases "len = 0")
    case False
    then have lt: "po < length pl" using 1(4) by simp
    define n where "n = min (sb_tailbytes sb) (length pl - po)"
    note R = buffer_refill [OF 1(2,3) lt, folded n_def]
    obtain sb1 where sb1: "sb_fill n (sb_write (take n (drop po pl)) sb) = Some sb1" "buffer_ok pl po sb1" "sb_fullbytes sb1 = n"
      using R(3) by blast
    define c where "c = min len n"
    have c: "0 < c" "c \<le> sb_fullbytes sb1" "c \<le> len" using R(1) False sb1(3) by (simp_all add: c_def)
    obtain sb2 where sb2: "sb_consume c sb1 = Some sb2" "buffer_ok pl (po + c) sb2" "sb_fullbytes sb2 = n - c"
      using buffer_consume [OF sb1(2) c(2)] sb1(3) by blast
    have eq: "produce_read pl sb po len = map_option (\<lambda>(out, sb', po'). (take c (drop po pl) @ out, sb', po'))
        (produce_read pl sb2 (po + c) (len - c))"
      using False lt R(2) sb1 sb2(1) c buffer_peek [OF sb1(2) c(2)]
      by (subst produce_read.simps) (simp add: Let_def n_def [symmetric] c_def [symmetric])
    show ?thesis
    proof (cases "len - c = 0")
      case True
      then show ?thesis using eq c sb2(2) by (simp add: produce_read.simps [of _ _ _ 0])
    next
      case False
      then have "c = n" by (simp add: c_def)
      then have IH: "\<exists>sb'. produce_read pl sb2 (po + c) (len - c) = Some (take (len - c) (drop (po + c) pl), sb', po + c + (len - c))
          \<and> buffer_ok pl (po + c + (len - c)) sb'"
        using "1.IH" [OF \<open>len \<noteq> 0\<close> n_def [folded sub64_le [OF less_imp_le [OF lt]]] R(2) sb1(1), of c sb2]
          sb1(3) sb2 c 1(4) by (simp add: c_def)
      moreover have "take len (drop po pl) = take c (drop po pl) @ take (len - c) (drop (po + c) pl)"
        using c(3) by (metis add.commute drop_drop le_add_diff_inverse take_add)
      ultimately show ?thesis using eq c(3) by auto
    qed
  qed (use 1 in \<open>simp add: produce_read.simps\<close>)
qed

text \<open>Payload bytes, with or without the working buffer.\<close>

lemma produce_buffered_ok:
  assumes "buffer_ok pl po sb" and "po + len \<le> length pl"
  shows "\<exists>h. produce_buffered pl sb po len len b = Some (take len (drop po pl), b\<lparr>bi_locals := h\<rparr>)
    \<and> (\<forall>sb'. h = Some sb' \<longrightarrow> buffer_ok pl (po + len) sb')"
proof (cases "sb_fullbytes sb \<ge> len")
  case True
  then show ?thesis using buffer_consume [OF assms(1) True] buffer_peek [OF assms(1) True]
    by (auto simp: produce_buffered_def release_helper_def)
next
  case False
  define n where "n = sb_fullbytes sb"
  have n: "n \<le> len" "po + n + (len - n) \<le> length pl" using False assms(2) by (simp_all add: n_def)
  obtain sb1 where sb1: "(if n > 0 then sb_consume n sb else Some sb) = Some sb1" "buffer_ok pl (po + n) sb1"
      "sb_fullbytes sb1 = 0" "sb_tailbytes sb1 = sb_size sb1"
  proof (cases "n > 0")
    case True then show ?thesis using buffer_consume [OF assms(1), of n] n_def that by auto
  next
    case zero: False
    then have "sb_end sb = 0" using assms(1) by (auto simp: n_def buffer_ok_def sb_fullbytes_def)
    then show ?thesis using that [of sb] zero assms(1) by (simp add: n_def sb_tailbytes_def)
  qed
  obtain sb2 where sb2: "produce_read pl sb1 (po + n) (len - n) = Some (take (len - n) (drop (po + n) pl), sb2, po + n + (len - n))"
      "buffer_ok pl (po + n + (len - n)) sb2"
    using produce_read_ok [OF sb1(2,3) n(2)] by blast
  have "take len (drop po pl) = take n (drop po pl) @ take (len - n) (drop (po + n) pl)"
    using n(1) by (metis add.commute drop_drop le_add_diff_inverse take_add)
  moreover have "sb_peek n sb = take n (drop po pl)" using buffer_peek [OF assms(1)] by (simp add: n_def)
  ultimately show ?thesis
    using False sb1 sb2 n by (auto simp: produce_buffered_def release_helper_def Let_def n_def [symmetric])
qed

lemma sb_new_ok: "0 < n \<Longrightarrow> buffer_ok pl po (sb_new n)"
  by (simp add: sb_new_def buffer_ok_def sb_fullbytes_def sb_peek_def)

lemma payload_helper_ok:
  assumes "bi_payload_type b" and "helper_ok pl off b" and "payload_helper pl b off len = Some sb"
  shows "buffer_ok pl (off - bi_data_offset b) sb"
  using assms by (auto simp: payload_helper_def helper_ok_def intro!: sb_new_ok split: if_splits option.splits)

text \<open>The buffer of a block whose header is not yet out is empty or holds the first bytes of the payload.\<close>

lemma payload_produce_ok:
  assumes "block_ok pl b" and "bi_payload_type b" and "helper_ok pl off b" and "off + len \<le> full_length b"
  shows "\<exists>h. payload_produce pl b off len = Some (take len (drop off (block_bytes pl b)), b\<lparr>bi_locals := h\<rparr>)
    \<and> helper_ok pl (off + len) (b\<lparr>bi_locals := h\<rparr>)"
proof -
  have b: "block_bytes pl b = bi_contents b @ pl" "bi_data_offset b = length (bi_contents b)"
    "full_length b = length (bi_contents b) + length pl"
    using assms(1,2) by (simp_all add: block_ok_def block_bytes_def)
  define D where "D = length (bi_contents b)"
  define helper where "helper = payload_helper pl b off len"
  define n where "n = (if off < D then min len (D - off) else 0)"
  define po where "po = off + n - D"
  have hb: "buffer_ok pl (off - D) sb" if "helper = Some sb" for sb
    using payload_helper_ok [OF assms(2,3)] that b(2) by (simp add: helper_def D_def)
  have pre: "(if n = 0 then Some [] else memcpy_from (bi_contents b) off n) = Some (take n (drop off (bi_contents b)))"
    by (auto simp: memcpy_from_def n_def D_def)
  have step: "payload_produce pl b off len =
      (if len - n = 0 then Some (take n (drop off (bi_contents b)), b\<lparr>bi_locals := helper\<rparr>)
       else map_option (\<lambda>(out, b'). (take n (drop off (bi_contents b)) @ out, b'))
         (case helper of Some sb \<Rightarrow> produce_buffered pl sb po (len - n) (min (len - n) (sub64 (length pl) po)) (b\<lparr>bi_locals := helper\<rparr>)
          | None \<Rightarrow> map_option (\<lambda>out. (out, b\<lparr>bi_locals := helper\<rparr>)) (read_data pl po (min (len - n) (sub64 (length pl) po)))))"
    unfolding payload_produce_def Let_def helper_def [symmetric] b(2) D_def [symmetric] n_def [symmetric] pre po_def [symmetric]
    by simp
  show ?thesis
  proof (cases "len - n = 0")
    case True
    then have n: "n = len" by (auto simp: n_def split: if_splits)
    have "buffer_ok pl (off + len - D) sb" if "helper = Some sb" for sb
      using hb [OF that] n True by (cases "off < D") (auto simp: n_def)
    moreover have "off + len \<le> D \<or> len = 0" using n by (auto simp: n_def split: if_splits)
    ultimately show ?thesis using step True n b by (cases helper) (auto simp: helper_ok_def D_def)
  next
    case False
    have po: "po = off - D" "po + (len - n) \<le> length pl" "off + len - D = po + (len - n)"
      using False assms(4) b(3) by (auto simp: po_def n_def D_def split: if_splits)
    then have m: "min (len - n) (sub64 (length pl) po) = len - n" by simp
    have out: "take len (drop off (block_bytes pl b)) = take n (drop off (bi_contents b)) @ take (len - n) (drop po pl)"
      using False po(1) b(1) by (cases "off < D") (auto simp: n_def D_def min_def)
    show ?thesis
    proof (cases helper)
      case None
      then show ?thesis using step False m po(2) out by (auto simp: read_data_def helper_ok_def)
    next
      case (Some sb)
      then obtain h where h: "produce_buffered pl sb po (len - n) (len - n) (b\<lparr>bi_locals := helper\<rparr>)
          = Some (take (len - n) (drop po pl), b\<lparr>bi_locals := h\<rparr>)" "\<forall>sb'. h = Some sb' \<longrightarrow> buffer_ok pl (po + (len - n)) sb'"
        using produce_buffered_ok [OF hb [OF Some, folded po(1)] po(2), of "b\<lparr>bi_locals := helper\<rparr>"] by auto
      have "helper_ok pl (off + len) (b\<lparr>bi_locals := h\<rparr>)"
        using h(2) po(3) b(2) by (auto simp: helper_ok_def D_def split: option.splits)
      then show ?thesis using step False m out h(1) Some by (intro exI [of _ h]) simp
    qed
  qed
qed

lemma owner_produce_ok:
  assumes "block_ok pl b" and "helper_ok pl off b" and "off < full_length b" and "off + len \<le> full_length b"
  shows "\<exists>h. owner_produce pl b off len = Some (take len (drop off (block_bytes pl b)), b\<lparr>bi_locals := h\<rparr>)
    \<and> helper_ok pl (off + len) (b\<lparr>bi_locals := h\<rparr>)"
proof (cases "bi_payload_type b")
  case True
  then show ?thesis using payload_produce_ok [OF assms(1) True assms(2,4)] by (simp add: owner_produce_def)
next
  case False
  then have l: "full_length b = length (bi_contents b)" "block_bytes pl b = bi_contents b"
    using assms(1) by (simp_all add: block_ok_def block_bytes_def)
  have "owner_produce pl b off len = Some (take len (drop off (block_bytes pl b)), b\<lparr>bi_locals := bi_locals b\<rparr>)"
    using False assms(3,4) l by (simp add: owner_produce_def block_produce_def memcpy_from_def)
  then show ?thesis using False by (intro exI [of _ "bi_locals b"]) (simp add: helper_ok_def)
qed

section \<open>The blocks of a bundle\<close>

text \<open>All working buffers agree with position \<open>off\<close> of the concatenated blocks.\<close>

fun helpers_ok :: "bytes \<Rightarrow> nat \<Rightarrow> block_info list \<Rightarrow> bool" where
  "helpers_ok pl off [] \<longleftrightarrow> True"
| "helpers_ok pl off (b # bs) \<longleftrightarrow> helper_ok pl off b \<and> helpers_ok pl (off - full_length b) bs"

abbreviation block_stream :: "bytes \<Rightarrow> block_info list \<Rightarrow> bytes" where
  "block_stream pl bs \<equiv> concat (map (block_bytes pl) bs)"

text \<open>Blocks that differ in their working buffers only.\<close>

definition same_block :: "block_info \<Rightarrow> block_info \<Rightarrow> bool" where
  "same_block b b' \<longleftrightarrow> b' = b\<lparr>bi_locals := bi_locals b'\<rparr>"

lemma same_block_sel:
  assumes "same_block b b'"
  shows "bi_contents b' = bi_contents b" "bi_payload_type b' = bi_payload_type b" "bi_last_block b' = bi_last_block b"
    "bi_data_offset b' = bi_data_offset b" "full_length b' = full_length b" "block_bytes pl b' = block_bytes pl b"
    "block_ok pl b' = block_ok pl b"
proof -
  obtain h where h: "b' = b\<lparr>bi_locals := h\<rparr>" using assms unfolding same_block_def by blast
  show "bi_contents b' = bi_contents b" "bi_payload_type b' = bi_payload_type b" "bi_last_block b' = bi_last_block b"
    "bi_data_offset b' = bi_data_offset b" "full_length b' = full_length b" "block_bytes pl b' = block_bytes pl b"
    "block_ok pl b' = block_ok pl b"
    by (simp_all add: h full_length_def block_bytes_def block_ok_def)
qed

lemma same_block_refl [simp]: "same_block b b" "same_block b (b\<lparr>bi_locals := h\<rparr>)"
  by (simp_all add: same_block_def)

text \<open>Buffers of blocks that are done stay empty.\<close>

lemma helper_past:
  assumes "block_ok pl b" and "helper_ok pl pos b" and "full_length b \<le> pos"
  shows "helper_ok pl pos' b"
proof -
  have "length pl - (pos - bi_data_offset b) = 0" if "bi_payload_type b"
    using assms(1,3) that by (simp add: block_ok_def block_bytes_def)
  then show ?thesis using assms(2)
    by (auto simp: helper_ok_def buffer_ok_def sb_peek_def split: option.splits)
qed

lemma skip_blocks_ok:
  assumes "skip_blocks bs off = (pre, rest, o')" and "\<forall>b \<in> set bs. block_ok pl b" and "helpers_ok pl off bs"
  shows "bs = pre @ rest" and "off = sum_list (map full_length pre) + o'"
    and "drop off (block_stream pl bs) = drop o' (block_stream pl rest)"
    and "rest \<noteq> [] \<Longrightarrow> o' < full_length (hd rest)" and "helpers_ok pl o' rest"
    and "helpers_ok pl (sum_list (map full_length pre) + p) (pre @ rest') = helpers_ok pl p rest'"
proof -
  have "bs = pre @ rest \<and> off = sum_list (map full_length pre) + o'
    \<and> drop off (block_stream pl bs) = drop o' (block_stream pl rest)
    \<and> (rest \<noteq> [] \<longrightarrow> o' < full_length (hd rest)) \<and> helpers_ok pl o' rest
    \<and> helpers_ok pl (sum_list (map full_length pre) + p) (pre @ rest') = helpers_ok pl p rest'"
    using assms
  proof (induction bs off arbitrary: pre rest o' rule: skip_blocks.induct)
    case (2 b bs off)
    show ?case
    proof (cases "off \<ge> full_length b")
      case True
      obtain pre1 where p: "skip_blocks bs (off - full_length b) = (pre1, rest, o')" "pre = b # pre1"
        using 2(2) True by (auto split: prod.splits)
      have b: "block_ok pl b" "helper_ok pl off b" "helpers_ok pl (off - full_length b) bs" using 2(3,4) by auto
      have l: "full_length b = length (block_bytes pl b)" using b(1) by (simp add: block_ok_def)
      have I: "bs = pre1 @ rest" "off - full_length b = sum_list (map full_length pre1) + o'"
        "drop (off - full_length b) (block_stream pl bs) = drop o' (block_stream pl rest)"
        "rest \<noteq> [] \<longrightarrow> o' < full_length (hd rest)" "helpers_ok pl o' rest"
        "helpers_ok pl (sum_list (map full_length pre1) + p) (pre1 @ rest') = helpers_ok pl p rest'"
        using "2.IH" [OF True p(1) _ b(3)] 2(3) by auto
      have "drop off (block_stream pl (b # bs)) = drop (off - full_length b) (block_stream pl bs)"
        using True l by simp
      moreover have "off = full_length b + (sum_list (map full_length pre1) + o')" using I(2) True by linarith
      ultimately show ?thesis using I(3-6) helper_past [OF b(1,2) True] unfolding p(2) I(1)
        by (simp add: add.assoc del: concat_append)
    qed (use 2 in auto)
  qed auto
  then show "bs = pre @ rest" "off = sum_list (map full_length pre) + o'"
    "drop off (block_stream pl bs) = drop o' (block_stream pl rest)"
    "rest \<noteq> [] \<Longrightarrow> o' < full_length (hd rest)" "helpers_ok pl o' rest"
    "helpers_ok pl (sum_list (map full_length pre) + p) (pre @ rest') = helpers_ok pl p rest'" by auto
qed

text \<open>Emitting from an offset inside the first block.\<close>

abbreviation same_blocks :: "block_info list \<Rightarrow> block_info list \<Rightarrow> bool" where
  "same_blocks \<equiv> list_all2 same_block"

lemma same_blocks_refl [simp]: "same_blocks bs bs"
  by (simp add: list_all2_refl)

definition last_only :: "(block_info \<Rightarrow> bool) \<Rightarrow> block_info list \<Rightarrow> bool" where
  "last_only P bs \<longleftrightarrow> bs \<noteq> [] \<and> P (last bs) \<and> (\<forall>b \<in> set (butlast bs). \<not> P b)"

lemma last_only_Cons: "last_only P (b # bs) \<longleftrightarrow> (if bs = [] then P b else \<not> P b \<and> last_only P bs)"
  by (auto simp: last_only_def)

text \<open>
  What the first block gives: all that is asked for, or the rest of the block, after which the next
  blocks give the rest.
\<close>

lemma emit_head:
  fixes len :: nat
  assumes "\<forall>b \<in> set (b # bs). block_ok pl b" and "helpers_ok pl off (b # bs)" and "off < full_length b"
  defines "c \<equiv> min len (full_length b - off)"
  obtains h where "owner_produce pl b off c = Some (take c (drop off (block_bytes pl b)), b\<lparr>bi_locals := h\<rparr>)"
    and "c = len \<Longrightarrow> off + len \<le> full_length b \<and> helpers_ok pl (off + len) (b\<lparr>bi_locals := h\<rparr> # bs)
           \<and> take len (drop off (block_stream pl (b # bs))) = take c (drop off (block_bytes pl b))
           \<and> (length (block_stream pl (b # bs)) \<le> off + len \<longleftrightarrow> len = full_length b - off \<and> bs = [])"
    and "c \<noteq> len \<Longrightarrow> c = full_length b - off \<and> c < len \<and> helpers_ok pl 0 bs
           \<and> (\<forall>bs'. helpers_ok pl (len - c) bs' \<longrightarrow> helpers_ok pl (off + len) (b\<lparr>bi_locals := h\<rparr> # bs'))
           \<and> take len (drop off (block_stream pl (b # bs))) = take c (drop off (block_bytes pl b)) @ take (len - c) (block_stream pl bs)
           \<and> (length (block_stream pl (b # bs)) \<le> off + len \<longleftrightarrow> length (block_stream pl bs) \<le> len - c)"
proof -
  have b: "block_ok pl b" "helper_ok pl off b" "helpers_ok pl (off - full_length b) bs" and le: "off + c \<le> full_length b"
    and l: "full_length b = length (block_bytes pl b)"
    using assms(1-3) by (auto simp: c_def block_ok_def)
  obtain h where h: "owner_produce pl b off c = Some (take c (drop off (block_bytes pl b)), b\<lparr>bi_locals := h\<rparr>)"
    "helper_ok pl (off + c) (b\<lparr>bi_locals := h\<rparr>)"
    using owner_produce_ok [OF b(1,2) assms(3) le] by blast
  note sb = same_block_sel [OF same_block_refl(2) [of b h]]
  have rest: "0 < length (block_stream pl bs)" if "bs \<noteq> []"
    using assms(1) that by (cases bs) (auto simp: block_ok_def block_bytes_def)
  have z: "off - full_length b = 0" using assms(3) by simp
  show thesis
  proof (rule that [OF h(1)])
    assume c: "c = len"
    then have lb: "off + len \<le> full_length b" using le by simp
    have "helpers_ok pl (off + len) (b\<lparr>bi_locals := h\<rparr> # bs)" using h(2) c lb b(3) z sb(5) by simp
    moreover have "take len (drop off (block_stream pl (b # bs))) = take c (drop off (block_bytes pl b))"
      using c lb l by simp
    moreover have "length (block_stream pl (b # bs)) \<le> off + len \<longleftrightarrow> len = full_length b - off \<and> bs = []"
    proof (cases "bs = []")
      case False
      moreover have "length (block_stream pl (b # bs)) = full_length b + length (block_stream pl bs)" using l by simp
      ultimately show ?thesis using lb rest by linarith
    qed (use lb l assms(3) in auto)
    ultimately show "off + len \<le> full_length b \<and> helpers_ok pl (off + len) (b\<lparr>bi_locals := h\<rparr> # bs)
        \<and> take len (drop off (block_stream pl (b # bs))) = take c (drop off (block_bytes pl b))
        \<and> (length (block_stream pl (b # bs)) \<le> off + len \<longleftrightarrow> len = full_length b - off \<and> bs = [])"
      using lb by blast
  next
    assume ne: "c \<noteq> len"
    then have c: "c = full_length b - off" "c < len" by (auto simp: c_def min_def split: if_splits)
    have past: "helper_ok pl (off + len) (b\<lparr>bi_locals := h\<rparr>)"
      using helper_past [OF _ h(2)] b(1) c(1) assms(3) sb(5,7) by simp
    have d: "off + len - full_length b = len - c" using c assms(3) by simp
    have "helpers_ok pl (off + len) (b\<lparr>bi_locals := h\<rparr> # bs')" if "helpers_ok pl (len - c) bs'" for bs'
      using past that sb(5) d by simp
    moreover have "take len (drop off (block_stream pl (b # bs))) = take c (drop off (block_bytes pl b)) @ take (len - c) (block_stream pl bs)"
      using c l assms(3) by simp
    moreover have "length (block_stream pl (b # bs)) \<le> off + len \<longleftrightarrow> length (block_stream pl bs) \<le> len - c"
      using c l assms(3) by auto
    ultimately show "c = full_length b - off \<and> c < len \<and> helpers_ok pl 0 bs
        \<and> (\<forall>bs'. helpers_ok pl (len - c) bs' \<longrightarrow> helpers_ok pl (off + len) (b\<lparr>bi_locals := h\<rparr> # bs'))
        \<and> take len (drop off (block_stream pl (b # bs))) = take c (drop off (block_bytes pl b)) @ take (len - c) (block_stream pl bs)
        \<and> (length (block_stream pl (b # bs)) \<le> off + len \<longleftrightarrow> length (block_stream pl bs) \<le> len - c)"
      using c b(3) z by simp
  qed
qed

lemma hd_positive: "bs \<noteq> [] \<Longrightarrow> \<forall>b \<in> set bs. block_ok pl b \<Longrightarrow> 0 < full_length (hd bs)"
  by (cases bs) (auto simp: block_ok_def block_bytes_def)

lemma emit6_ok:
  assumes "\<forall>b \<in> set bs. block_ok pl b" and "last_only bi_last_block bs" and "helpers_ok pl off bs"
    and "off < full_length (hd bs)"
  shows "\<exists>bs'. emit6 pl bs off len = Some (take len (drop off (block_stream pl bs)), length (block_stream pl bs) \<le> off + len, bs')
    \<and> same_blocks bs bs' \<and> helpers_ok pl (off + len) bs'"
  using assms
proof (induction pl bs off len rule: emit6.induct)
  case (2 pl b bs off len)
  define c where "c = min len (full_length b - off)"
  have lt: "off < full_length b" using 2(5) by simp
  obtain h where h: "owner_produce pl b off c = Some (take c (drop off (block_bytes pl b)), b\<lparr>bi_locals := h\<rparr>)"
    and H: "c = len \<Longrightarrow> off + len \<le> full_length b \<and> helpers_ok pl (off + len) (b\<lparr>bi_locals := h\<rparr> # bs)
           \<and> take len (drop off (block_stream pl (b # bs))) = take c (drop off (block_bytes pl b))
           \<and> (length (block_stream pl (b # bs)) \<le> off + len \<longleftrightarrow> len = full_length b - off \<and> bs = [])"
      "c \<noteq> len \<Longrightarrow> c = full_length b - off \<and> c < len \<and> helpers_ok pl 0 bs
           \<and> (\<forall>bs'. helpers_ok pl (len - c) bs' \<longrightarrow> helpers_ok pl (off + len) (b\<lparr>bi_locals := h\<rparr> # bs'))
           \<and> take len (drop off (block_stream pl (b # bs))) = take c (drop off (block_bytes pl b)) @ take (len - c) (block_stream pl bs)
           \<and> (length (block_stream pl (b # bs)) \<le> off + len \<longleftrightarrow> length (block_stream pl bs) \<le> len - c)"
    using emit_head [OF 2(2,4) lt, of len] c_def by blast
  have last: "bi_last_block b \<longleftrightarrow> bs = []" "bs \<noteq> [] \<Longrightarrow> last_only bi_last_block bs"
    using 2(3) by (auto simp: last_only_Cons split: if_splits)
  show ?case
  proof (cases "c = len")
    case True
    note H1 = H(1) [OF True]
    have "emit6 pl (b # bs) off len = Some (take c (drop off (block_bytes pl b)), len = full_length b - off \<and> bs = [], b\<lparr>bi_locals := h\<rparr> # bs)"
      using h True last(1) by (simp add: Let_def c_def [symmetric])
    then show ?thesis using H1 by (intro exI [of _ "b\<lparr>bi_locals := h\<rparr> # bs"]) simp
  next
    case False
    note H2 = H(2) [OF False]
    show ?thesis
    proof (cases "bs = []")
      case True
      moreover have "helpers_ok pl (off + len) [b\<lparr>bi_locals := h\<rparr>]" using H2 helpers_ok.simps(1) by blast
      ultimately show ?thesis using h H2 last(1) by (simp add: Let_def c_def [symmetric])
    next
      case ne: False
      obtain bs' where bs': "emit6 pl bs 0 (len - c) = Some (take (len - c) (block_stream pl bs), length (block_stream pl bs) \<le> len - c, bs')"
          "same_blocks bs bs'" "helpers_ok pl (len - c) bs'"
      proof -
        have "\<not> len - c = 0" "\<not> bi_last_block b" "\<forall>b \<in> set bs. block_ok pl b" "helpers_ok pl 0 bs"
          using H2 last(1) ne 2(2) by auto
        then show thesis
          using "2.IH" [OF refl refl h [unfolded c_def] refl, folded c_def, OF _ _ _ last(2) [OF ne] _ hd_positive [OF ne]] that by auto
      qed
      have "emit6 pl (b # bs) off len = Some (take c (drop off (block_bytes pl b)) @ take (len - c) (block_stream pl bs),
          length (block_stream pl bs) \<le> len - c, b\<lparr>bi_locals := h\<rparr> # bs')"
        using h H2 last(1) ne bs'(1) by (simp add: Let_def c_def [symmetric])
      then show ?thesis using H2 bs'(2,3) by (intro exI [of _ "b\<lparr>bi_locals := h\<rparr> # bs'"]) (simp del: emit6.simps)
    qed
  qed
qed (simp add: last_only_def)

text \<open>Version 7: the payload block is the last one; the room that is left takes the closing byte.\<close>

lemma emit7_ok:
  assumes "\<forall>b \<in> set bs. block_ok pl b" and "last_only bi_payload_type bs" and "helpers_ok pl off bs"
    and "off < full_length (hd bs)"
  shows "\<exists>bs'. emit7 pl bs off len = Some (take len (drop off (block_stream pl bs)), off + len - length (block_stream pl bs), bs')
    \<and> same_blocks bs bs' \<and> helpers_ok pl (off + len) bs'"
  using assms
proof (induction pl bs off len rule: emit7.induct)
  case (2 pl b bs off len)
  define c where "c = min len (full_length b - off)"
  have lt: "off < full_length b" using 2(5) by simp
  have l: "full_length b = length (block_bytes pl b)" using 2(2) by (simp add: block_ok_def)
  obtain h where h: "owner_produce pl b off c = Some (take c (drop off (block_bytes pl b)), b\<lparr>bi_locals := h\<rparr>)"
    and H: "c = len \<Longrightarrow> off + len \<le> full_length b \<and> helpers_ok pl (off + len) (b\<lparr>bi_locals := h\<rparr> # bs)
           \<and> take len (drop off (block_stream pl (b # bs))) = take c (drop off (block_bytes pl b))
           \<and> (length (block_stream pl (b # bs)) \<le> off + len \<longleftrightarrow> len = full_length b - off \<and> bs = [])"
      "c \<noteq> len \<Longrightarrow> c = full_length b - off \<and> c < len \<and> helpers_ok pl 0 bs
           \<and> (\<forall>bs'. helpers_ok pl (len - c) bs' \<longrightarrow> helpers_ok pl (off + len) (b\<lparr>bi_locals := h\<rparr> # bs'))
           \<and> take len (drop off (block_stream pl (b # bs))) = take c (drop off (block_bytes pl b)) @ take (len - c) (block_stream pl bs)
           \<and> (length (block_stream pl (b # bs)) \<le> off + len \<longleftrightarrow> length (block_stream pl bs) \<le> len - c)"
    using emit_head [OF 2(2,4) lt, of len] c_def by blast
  have last: "bi_payload_type b \<longleftrightarrow> bs = []" "bs \<noteq> [] \<Longrightarrow> last_only bi_payload_type bs"
    using 2(3) by (auto simp: last_only_Cons split: if_splits)
  show ?case
  proof (cases "c = len \<or> bs = []")
    case True
    then have eq: "emit7 pl (b # bs) off len = Some (take c (drop off (block_bytes pl b)), len - c, b\<lparr>bi_locals := h\<rparr> # bs)"
      using h last(1) by (auto simp: Let_def c_def [symmetric])
    show ?thesis
    proof (cases "c = len")
      case True
      then show ?thesis using H(1) [OF True] eq l by (intro exI [of _ "b\<lparr>bi_locals := h\<rparr> # bs"]) simp
    next
      case False
      then have "helpers_ok pl (off + len) [b\<lparr>bi_locals := h\<rparr>]" using H(2) helpers_ok.simps(1) by blast
      then show ?thesis using H(2) [OF False] eq True False l lt by auto
    qed
  next
    case False
    then have H2: "c = full_length b - off \<and> c < len \<and> helpers_ok pl 0 bs
           \<and> (\<forall>bs'. helpers_ok pl (len - c) bs' \<longrightarrow> helpers_ok pl (off + len) (b\<lparr>bi_locals := h\<rparr> # bs'))
           \<and> take len (drop off (block_stream pl (b # bs))) = take c (drop off (block_bytes pl b)) @ take (len - c) (block_stream pl bs)"
      and ne: "bs \<noteq> []" using H(2) by auto
    obtain bs' where bs': "emit7 pl bs 0 (len - c) = Some (take (len - c) (block_stream pl bs), len - c - length (block_stream pl bs), bs')"
        "same_blocks bs bs'" "helpers_ok pl (len - c) bs'"
    proof -
      have "\<not> (len - c = 0 \<or> bi_payload_type b)" "\<forall>b \<in> set bs. block_ok pl b" "helpers_ok pl 0 bs"
        using H2 last(1) ne 2(2) by auto
      then show thesis
        using "2.IH" [OF refl refl h [unfolded c_def] refl, folded c_def, OF _ _ last(2) [OF ne] _ hd_positive [OF ne]] that by auto
    qed
    have "emit7 pl (b # bs) off len = Some (take c (drop off (block_bytes pl b)) @ take (len - c) (block_stream pl bs),
        len - c - length (block_stream pl bs), b\<lparr>bi_locals := h\<rparr> # bs')"
      using h H2 last(1) ne bs'(1) by (simp add: Let_def c_def [symmetric])
    moreover have "off + len - length (block_stream pl (b # bs)) = len - c - length (block_stream pl bs)"
      using H2 l lt by auto
    ultimately show ?thesis using H2 bs'(2,3) by (intro exI [of _ "b\<lparr>bi_locals := h\<rparr> # bs'"]) (simp del: emit7.simps)
  qed
qed (simp add: last_only_def)

section \<open>Producing a bundle\<close>

text \<open>A formatted bundle: blocks as generated, the last of them marked (version 6) or the payload (version 7).\<close>

definition bundle_ok :: "bool \<Rightarrow> bytes \<Rightarrow> block_info list \<Rightarrow> bool" where
  "bundle_ok bpv6 pl blocks \<longleftrightarrow> (\<forall>b \<in> set blocks. block_ok pl b)
     \<and> last_only (if bpv6 then bi_last_block else bi_payload_type) blocks"

definition buffers_at :: "bool \<Rightarrow> bytes \<Rightarrow> nat \<Rightarrow> block_info list \<Rightarrow> bool" where
  "buffers_at bpv6 pl off blocks \<longleftrightarrow> helpers_ok pl (if bpv6 then off else off - 1) blocks"

lemma last_only_map: "last_only P bs \<longleftrightarrow> (let m = map P bs in m \<noteq> [] \<and> last m \<and> True \<notin> set (butlast m))"
  by (auto simp: last_only_def Let_def last_map simp flip: map_butlast)

lemma ball_map: "(\<forall>x \<in> set xs. P x) \<longleftrightarrow> False \<notin> set (map P xs)"
  by force

lemma same_blocks_facts:
  assumes "same_blocks bs bs'"
  shows "block_stream pl bs' = block_stream pl bs" "whole_bundle v pl bs' = whole_bundle v pl bs"
    "bundle_ok v pl bs' = bundle_ok v pl bs" "total_length v bs' = total_length v bs"
proof -
  have m: "map (block_bytes pl) bs' = map (block_bytes pl) bs" "map full_length bs' = map full_length bs"
    "map bi_last_block bs' = map bi_last_block bs" "map bi_payload_type bs' = map bi_payload_type bs"
    "map (block_ok pl) bs' = map (block_ok pl) bs"
    using assms
  proof (induction rule: list_all2_induct)
    case (Cons b bs b' bs')
    note b = same_block_sel [OF Cons(1)]
    show "map (block_bytes pl) (b' # bs') = map (block_bytes pl) (b # bs)" using Cons(3) b(6) by simp
    show "map full_length (b' # bs') = map full_length (b # bs)" using Cons(4) b(5) by simp
    show "map bi_last_block (b' # bs') = map bi_last_block (b # bs)" using Cons(5) b(3) by simp
    show "map bi_payload_type (b' # bs') = map bi_payload_type (b # bs)" using Cons(6) b(2) by simp
    show "map (block_ok pl) (b' # bs') = map (block_ok pl) (b # bs)" using Cons(7) b(7) by simp
  qed simp_all
  then show "block_stream pl bs' = block_stream pl bs" "whole_bundle v pl bs' = whole_bundle v pl bs"
    "total_length v bs' = total_length v bs" by (simp_all add: whole_bundle_def total_length_def)
  have lo: "last_only P bs' = last_only P bs" if "map P bs' = map P bs" for P
    unfolding last_only_map that by (rule refl)
  have "(\<forall>b \<in> set bs'. block_ok pl b) = (\<forall>b \<in> set bs. block_ok pl b)"
    unfolding ball_map m(5) by (rule refl)
  then show "bundle_ok v pl bs' = bundle_ok v pl bs" using lo m(3,4) by (simp add: bundle_ok_def)
qed

lemma same_blocks_append: "same_blocks rest rest' \<Longrightarrow> same_blocks (pre @ rest) (pre @ rest')"
  by (simp add: list_all2_appendI)

lemma last_only_rest: "last_only P (pre @ rest) \<Longrightarrow> rest \<noteq> [] \<Longrightarrow> last_only P rest"
  by (auto simp: last_only_def butlast_append)

lemma skip_rest:
  assumes "skip_blocks bs off = (pre, rest, o')" and "\<forall>b \<in> set bs. block_ok pl b" and "helpers_ok pl off bs"
  shows "rest = [] \<longleftrightarrow> length (block_stream pl bs) \<le> off"
    and "length (block_stream pl bs) + o' = off + length (block_stream pl rest)"
proof -
  note S = skip_blocks_ok [OF assms]
  have "length (block_stream pl pre) = sum_list (map full_length pre)"
    using assms(2) S(1) by (induction pre arbitrary: bs) (auto simp: block_ok_def length_concat)
  then have l: "length (block_stream pl bs) = sum_list (map full_length pre) + length (block_stream pl rest)"
    using S(1) by (simp add: length_concat)
  then show "length (block_stream pl bs) + o' = off + length (block_stream pl rest)" using S(2) by simp
  have "o' < length (block_stream pl rest)" if "rest \<noteq> []"
    using S(4) [OF that] assms(2) that S(1) by (cases rest) (auto simp: block_ok_def length_concat)
  then show "rest = [] \<longleftrightarrow> length (block_stream pl bs) \<le> off" using l S(2) by (cases "rest = []") auto
qed

lemma produce6_ok:
  assumes "bundle_ok True pl bs" and "helpers_ok pl off bs" and "off < length (block_stream pl bs)" and "0 < len"
  shows "\<exists>bs'. produce6 pl bs off len = Some (take len (drop off (block_stream pl bs)), length (block_stream pl bs) \<le> off + len, bs')
    \<and> same_blocks bs bs' \<and> helpers_ok pl (off + len) bs'"
proof -
  have ok: "\<forall>b \<in> set bs. block_ok pl b" "last_only bi_last_block bs" using assms(1) by (simp_all add: bundle_ok_def)
  obtain pre rest o' where sk: "skip_blocks bs off = (pre, rest, o')" by (metis prod_cases3)
  note S = skip_blocks_ok [OF sk ok(1) assms(2)] and R = skip_rest [OF sk ok(1) assms(2)]
  have ne: "rest \<noteq> []" using R(1) assms(3) by simp
  have ok': "\<forall>b \<in> set rest. block_ok pl b" "last_only bi_last_block rest" using ok last_only_rest [OF _ ne] S(1) by auto
  obtain bs' where E: "emit6 pl rest o' len = Some (take len (drop o' (block_stream pl rest)), length (block_stream pl rest) \<le> o' + len, bs')"
      "same_blocks rest bs'" "helpers_ok pl (o' + len) bs'"
    using emit6_ok [OF ok' S(5) S(4) [OF ne]] by blast
  have "helpers_ok pl (off + len) (pre @ bs')" using S(6) [of "o' + len" bs'] E(3) S(2) by (simp add: add.assoc)
  moreover have "same_blocks bs (pre @ bs')" using same_blocks_append [OF E(2)] S(1) by simp
  moreover have "length (block_stream pl rest) \<le> o' + len \<longleftrightarrow> length (block_stream pl bs) \<le> off + len" using R(2) by linarith
  ultimately show ?thesis using assms(4) sk E(1) S(3)
    by (intro exI [of _ "pre @ bs'"]) (simp add: produce6_def)
qed

lemma produce7_ok:
  assumes "bundle_ok False pl bs" and "helpers_ok pl (off - 1) bs" and "off < length (block_stream pl bs) + 2" and "0 < len"
  defines "W \<equiv> 0x9f # block_stream pl bs @ [0xff]"
  shows "\<exists>bs'. produce7 pl bs off len = Some (take len (drop off W), length W \<le> off + len, bs')
    \<and> same_blocks bs bs' \<and> helpers_ok pl (off + len - 1) bs'"
proof -
  let ?S = "block_stream pl bs"
  have ok: "\<forall>b \<in> set bs. block_ok pl b" "last_only bi_payload_type bs" using assms(1) by (simp_all add: bundle_ok_def)
  then have ne0: "bs \<noteq> []" by (simp add: last_only_def)
  define hdr :: bytes where "hdr = (if off = 0 then [0x9f] else [])"
  define len1 where "len1 = (if off = 0 then len - 1 else len)"
  have W: "take len (drop off W) = hdr @ take len1 (drop (off - 1) (?S @ [0xff]))"
    using assms(4) by (cases off; cases len) (simp_all add: W_def hdr_def len1_def)
  obtain pre rest o' where sk: "skip_blocks bs (off - 1) = (pre, rest, o')" by (metis prod_cases3)
  note S = skip_blocks_ok [OF sk ok(1) assms(2)] and R = skip_rest [OF sk ok(1) assms(2)]
  have step: "produce7 pl bs off len = (if rest = [] then Some (take 1 (hdr @ [0xff]), True, bs)
      else map_option (\<lambda>(out, l, bs'). if l > 0 then (hdr @ out @ [0xff], True, pre @ bs') else (hdr @ out, False, pre @ bs'))
        (emit7 pl rest o' len1))"
    unfolding produce7_def hdr_def len1_def using assms(4) ne0 sk by (cases "off = 0") simp_all
  have sum: "off + len - 1 = off - 1 + len1" using assms(4) by (auto simp: len1_def)
  show ?thesis
  proof (cases "rest = []")
    case True
    moreover have "0 < length ?S" using ne0 ok(1) by (cases bs) (auto simp: block_ok_def block_bytes_def)
    ultimately have off: "off = length ?S + 1" using R(1) assms(3) by linarith
    have "helpers_ok pl (off + len - 1) bs" using S(6) [of "o' + len" "[]"] S(1,2) True off by (simp add: add.assoc)
    then show ?thesis using step True off W assms(4) by (intro exI [of _ bs]) (simp add: hdr_def len1_def W_def)
  next
    case ne: False
    have ok': "\<forall>b \<in> set rest. block_ok pl b" "last_only bi_payload_type rest" using ok last_only_rest [OF _ ne] S(1) by auto
    obtain bs' where E: "emit7 pl rest o' len1 = Some (take len1 (drop o' (block_stream pl rest)), o' + len1 - length (block_stream pl rest), bs')"
        "same_blocks rest bs'" "helpers_ok pl (o' + len1) bs'"
      using emit7_ok [OF ok' S(5) S(4) [OF ne]] by blast
    have h: "helpers_ok pl (off + len - 1) (pre @ bs')" using S(6) [of "o' + len1" bs'] E(3) S(2) sum by (simp add: add.assoc)
    have sb: "same_blocks bs (pre @ bs')" using same_blocks_append [OF E(2)] S(1) by simp
    have c: "o' + len1 - length (block_stream pl rest) > 0 \<longleftrightarrow> length ?S < off - 1 + len1"
      using R(2) by linarith
    have lt: "off - 1 < length ?S" using R(1) ne by simp
    have fin: "length W \<le> off + len \<longleftrightarrow> length ?S < off - 1 + len1" using assms(4) by (auto simp: W_def len1_def)
    have "produce7 pl bs off len = Some (hdr @ take len1 (drop (off - 1) (?S @ [0xff])), length ?S < off - 1 + len1, pre @ bs')"
    proof (cases "length ?S < off - 1 + len1")
      case True
      then have t: "take len1 (drop (off - 1) (?S @ [0xff])) = drop (off - 1) ?S @ [0xff]" "take len1 (drop (off - 1) ?S) = drop (off - 1) ?S"
        using lt by simp_all
      show ?thesis unfolding t(1) using step ne E(1) c S(3) True t(2) by simp
    next
      case False
      then show ?thesis using step ne E(1) c S(3) by simp
    qed
    then show ?thesis using h sb W fin by (intro exI [of _ "pre @ bs'"]) simp
  qed
qed

text \<open>One call, at any position that the working buffers agree with.\<close>

lemma produce_ok:
  assumes "bundle_ok v pl bs" and "buffers_at v pl off bs" and "off < length (whole_bundle v pl bs)" and "0 < len"
  shows "\<exists>bs'. produce v pl bs off len = Some (take len (drop off (whole_bundle v pl bs)), length (whole_bundle v pl bs) \<le> off + len, bs')
    \<and> same_blocks bs bs' \<and> buffers_at v pl (off + len) bs'"
proof (cases v)
  case True
  then show ?thesis using assms produce6_ok [of pl bs off len] by (simp add: produce_def whole_bundle_def buffers_at_def)
next
  case False
  then show ?thesis using assms produce7_ok [of pl bs off len]
    by (simp add: produce_def whole_bundle_def buffers_at_def del: length_concat concat_append)
qed

lemma produce_run_ok:
  assumes "bundle_ok v pl bs" and "buffers_at v pl off bs" and "off < length (whole_bundle v pl bs)" and "\<forall>n \<in> set lens. 0 < n"
  shows "\<exists>bs'. produce_run v pl bs off lens =
    Some (take (sum_list lens) (drop off (whole_bundle v pl bs)), length (whole_bundle v pl bs) \<le> off + sum_list lens, bs')"
  using assms
proof (induction lens arbitrary: off bs)
  case Nil
  then show ?case by simp
next
  case (Cons n lens)
  let ?W = "whole_bundle v pl bs"
  have n: "0 < n" "\<forall>n \<in> set lens. 0 < n" using Cons.prems(4) by auto
  obtain bs' where p: "produce v pl bs off n = Some (take n (drop off ?W), length ?W \<le> off + n, bs')"
      "same_blocks bs bs'" "buffers_at v pl (off + n) bs'"
    using produce_ok [OF Cons.prems(1-3) n(1)] by blast
  show ?case
  proof (cases "length ?W \<le> off + n")
    case True
    then show ?thesis using p(1) by simp
  next
    case False
    note F = same_blocks_facts [OF p(2)]
    have l: "off + length (take n (drop off ?W)) = off + n" using False by simp
    obtain bs'' where r: "produce_run v pl bs' (off + n) lens
        = Some (take (sum_list lens) (drop (off + n) ?W), length ?W \<le> off + n + sum_list lens, bs'')"
      using Cons.IH [of bs' "off + n"] F Cons.prems(1) p(3) False n(2) by auto
    have "take (n + sum_list lens) (drop off ?W) = take n (drop off ?W) @ take (sum_list lens) (drop (off + n) ?W)"
      by (metis add.commute drop_drop take_add)
    then show ?thesis using p(1) r l False by (simp add: add.assoc)
  qed
qed

text \<open>A bundle that has just been formatted.\<close>

lemma fresh_buffers:
  assumes "bundle_ok v pl blocks" and "\<forall>b \<in> set blocks. bi_locals b = None"
  shows "buffers_at v pl 0 blocks" and "0 < length (whole_bundle v pl blocks)"
    and "total_length v blocks = length (whole_bundle v pl blocks)"
proof -
  have "helpers_ok pl off blocks" for off
    using assms(2) by (induction blocks arbitrary: off) (auto simp: helper_ok_def)
  then show "buffers_at v pl 0 blocks" by (simp add: buffers_at_def)
  have ne: "blocks \<noteq> []" using assms(1) by (auto simp: bundle_ok_def last_only_def)
  have ok: "\<forall>b \<in> set blocks. block_ok pl b" using assms(1) by (simp add: bundle_ok_def)
  have "length (block_stream pl blocks) = sum_list (map full_length blocks)"
    using ok by (induction blocks) (auto simp: block_ok_def)
  then show t: "total_length v blocks = length (whole_bundle v pl blocks)"
    by (simp add: total_length_def whole_bundle_def)
  have "0 < full_length (hd blocks)" using hd_positive [OF ne ok] .
  then have "0 < total_length v blocks" using ne by (cases blocks) (auto simp: total_length_def)
  then show "0 < length (whole_bundle v pl blocks)" using t by simp
qed

section \<open>Properties\<close>

text \<open>
  C13. A bundle produced in pieces is the bundle. Whatever the sizes of the buffers that are offered one
  after the other, no assertion fails, no read leaves its buffer and the loops end; the bytes produced
  are the bytes of the bundle in order, as many as were asked for, and the call that gives the last of
  them, and no earlier one, reports completion. This holds for versions 6 and 7 and for payloads read
  through the working buffer.
\<close>
theorem produce_in_pieces:
  assumes "bundle_ok v pl blocks" and "\<forall>b \<in> set blocks. bi_locals b = None" and "\<forall>n \<in> set lens. 0 < n"
  shows "\<exists>blocks'. produce_run v pl blocks 0 lens =
    Some (take (sum_list lens) (whole_bundle v pl blocks), total_length v blocks \<le> sum_list lens, blocks')"
proof -
  note F = fresh_buffers [OF assms(1,2)]
  show ?thesis using produce_run_ok [OF assms(1) F(1,2) assms(3)] F(3) by simp
qed

definition demo_blocks :: "block_info list" where
  "demo_blocks = [\<lparr>bi_contents = [1, 2], bi_data_offset = 2, bi_data_length = 0, bi_crc_length = 0,
                   bi_payload_type = False, bi_last_block = False, bi_locals = None\<rparr>,
                  \<lparr>bi_contents = [3], bi_data_offset = 1, bi_data_length = 4, bi_crc_length = 0,
                   bi_payload_type = True, bi_last_block = True, bi_locals = None\<rparr>]"

theorem produce_in_pieces_witness:
  "\<exists>blocks'. produce_run False [10, 11, 12, 13] demo_blocks 0 [2, 3, 5] =
    Some ([0x9f, 1, 2, 3, 10, 11, 12, 13, 0xff], True, blocks')"
  using produce_in_pieces [of False "[10, 11, 12, 13]" demo_blocks "[2, 3, 5]"]
  by (simp add: demo_blocks_def bundle_ok_def block_ok_def block_bytes_def last_only_def full_length_def whole_bundle_def
      total_length_def)

end
