(* ===== verification/Ltp_Segmenter.thy ===== *)
theory Ltp_Segmenter
  imports Ltp_Sender Bundle_Produce
begin

text \<open>
  Cutting the bundles of a session into segments: \<open>process_bundles\<close> and \<open>check_send_segment\<close> of
  \<open>src/servlib/ltp/LTPEngine.cc\<close>, with the blocks of each bundle produced as in \<open>Bundle_Produce\<close>. The
  theory shows that the segments are the consecutive chunks of the aggregated bundles, that the last
  one is the end of the block and a checkpoint, and that the loops end. The shutdown flags are not set,
  and sessions large enough to go through a file are not modelled.
\<close>

section \<open>One segment\<close>

definition session_data_base :: "ltp_session \<Rightarrow> ltp_data_segment" where
  "session_data_base s = blank_data_segment\<lparr>engine_id := sess_engine_id s, session_id := sess_session_id s,
     client_service_id := 1, packet := [0], segment_type := LTP_SEGMENT_DS\<rparr>"

text \<open>The segment made from the buffer, queued for the link, and the session it is filed in.\<close>

definition send_segment ::
    "bool \<Rightarrow> u32 \<Rightarrow> bytes \<Rightarrow> u64 \<Rightarrow> bool \<Rightarrow> bool \<Rightarrow> ltp_session \<Rightarrow> ltp_data_segment \<times> ltp_session" where
  "send_segment green csid data session_offset is_ckpt last_seg s =
     (let ds0 = (session_data_base s)\<lparr>red_green_none := (if green then GREEN_SEGMENT else RED_SEGMENT)\<rparr>;
          ckpt = (is_ckpt \<and> \<not> green);
          (ds1, s1) = (if ckpt then let (c, s') = get_next_checkpoint_id s in (set_checkpoint_id c ds0, s') else (ds0, s));
          ds2 = ds_encode_buffer data session_offset ckpt last_seg (ds1\<lparr>client_service_id := csid\<rparr>);
          ds3 = ds2\<lparr>queued_to_send := True\<rparr>;
          s2 = snd (add_segment_outgoing ds3 s1)
      in (ds3, if ckpt then add_checkpoint_seg ds3 s2 else s2))"

text \<open>
  The variables of the loops: the bytes in the buffer and the room left, the offset in the session, the
  session and the segments sent so far.
\<close>

record cutter =
  cut_buf :: bytes
  cut_unused :: nat
  cut_offset :: u64
  cut_session :: ltp_session
  cut_sent :: "ltp_data_segment list"

definition check_send_segment :: "nat \<Rightarrow> bool \<Rightarrow> u32 \<Rightarrow> bool \<Rightarrow> bool \<Rightarrow> bool \<Rightarrow> cutter \<Rightarrow> bool \<times> cutter" where
  "check_send_segment my_seg_size green csid is_ckpt last_seg force_send_seg c =
     (if \<not> last_seg \<and> \<not> force_send_seg \<and> cut_unused c \<noteq> 0 then (False, c)
      else
        let (ds, s) = send_segment green csid (cut_buf c) (cut_offset c) is_ckpt last_seg (cut_session c)
        in (True, \<lparr>cut_buf = [], cut_unused = my_seg_size, cut_offset = cut_offset c + of_nat (length (cut_buf c)),
                   cut_session = s, cut_sent = cut_sent c @ [ds]\<rparr>))"

section \<open>The bundles of a session\<close>

text \<open>What does not change while a session is cut.\<close>

record cut_params =
  cp_seg_size :: nat
  cp_green :: bool
  cp_csid :: u32
  cp_per_checkpoint :: nat
  cp_intermediate :: bool

text \<open>A bundle: its version, payload and formatted blocks.\<close>

type_synonym ltp_bundle = "bool \<times> bytes \<times> block_info list"

definition add_bytes :: "bytes \<Rightarrow> cutter \<Rightarrow> cutter" where
  "add_bytes d c = c\<lparr>cut_buf := cut_buf c @ d, cut_unused := cut_unused c - length d\<rparr>"

text \<open>
  The loop over one bundle: bytes counted towards the next checkpoint, whether the next segment is a
  checkpoint, whether the last segment has been sent, and the cutter.
\<close>

partial_function (option) bundle_loop ::
    "cut_params \<Rightarrow> bool \<Rightarrow> bool \<Rightarrow> bytes \<Rightarrow> block_info list \<Rightarrow> nat \<Rightarrow> nat \<Rightarrow> bool \<Rightarrow> cutter
      \<Rightarrow> (nat \<times> bool \<times> bool \<times> cutter) option" where
  "bundle_loop prm last_bundle v pl blocks bundle_offset toward is_ckpt c =
     (case produce v pl blocks bundle_offset (cut_unused c) of
        None \<Rightarrow> None
      | Some (out, complete, blocks') \<Rightarrow>
          let c1 = add_bytes out c; toward1 = toward + length out;
              is_ckpt1 = (if cp_intermediate prm then toward1 \<ge> cp_per_checkpoint prm else is_ckpt);
              force = (\<not> complete \<and> out = [] \<and> cut_buf c1 \<noteq> []);
              last_seg = (complete \<and> last_bundle);
              is_ckpt2 = (is_ckpt1 \<or> last_seg);
              (sent, c2) = check_send_segment (cp_seg_size prm) (cp_green prm) (cp_csid prm) is_ckpt2 last_seg force c1;
              toward2 = (if sent \<and> is_ckpt2 then 0 else toward1)
          in if complete then Some (toward2, is_ckpt2, last_seg, c2)
             else bundle_loop prm last_bundle v pl blocks' (bundle_offset + length out) toward2 is_ckpt2 c2)"

text \<open>The byte that precedes each bundle in an aggregated session.\<close>

definition start_bundle :: "cut_params \<Rightarrow> nat \<Rightarrow> bool \<Rightarrow> bool \<Rightarrow> cutter \<Rightarrow> nat \<times> bool \<times> cutter" where
  "start_bundle P toward is_ckpt last_seg c =
     (let (c1, toward1) = (if cp_csid P = 2 then (add_bytes [1] c, toward + 1) else (c, toward));
          is_ckpt1 = (if cp_intermediate P then toward1 > cp_per_checkpoint P else is_ckpt);
          (sent, c2) = check_send_segment (cp_seg_size P) (cp_green P) (cp_csid P) is_ckpt1 last_seg False c1
      in (if sent then 0 else toward1, is_ckpt1, c2))"

fun bundles_loop :: "cut_params \<Rightarrow> ltp_bundle list \<Rightarrow> nat \<Rightarrow> bool \<Rightarrow> bool \<Rightarrow> cutter \<Rightarrow> (bool \<times> cutter) option" where
  "bundles_loop P [] toward is_ckpt last_seg c = Some (last_seg, c)"
| "bundles_loop P ((v, pl, blocks) # rest) toward is_ckpt last_seg c =
     (let (toward1, is_ckpt1, c1) = start_bundle P toward is_ckpt last_seg c in
      case bundle_loop P (rest = []) v pl blocks 0 toward1 is_ckpt1 c1 of
        None \<Rightarrow> None
      | Some (toward2, is_ckpt2, last_seg2, c2) \<Rightarrow> bundles_loop P rest toward2 is_ckpt2 last_seg2 c2)"

text \<open>
  \<open>process_bundles\<close> with the bundles that have not expired; without any the session is given up. The
  first element of the result are the segments sent.
\<close>

definition process_bundles ::
    "bool \<Rightarrow> nat \<Rightarrow> nat \<Rightarrow> nat \<Rightarrow> bool \<Rightarrow> ltp_bundle list \<Rightarrow> ltp_session \<Rightarrow> (ltp_data_segment list \<times> ltp_session) option" where
  "process_bundles ccsds_compatible seg_size bytes_per_checkpoint session_size green bundles s =
     (if bundles = [] then Some ([], s)
      else
        let P = \<lparr>cp_seg_size = seg_size, cp_green = green, cp_csid = (if ccsds_compatible then 2 else 1),
                 cp_per_checkpoint = bytes_per_checkpoint,
                 cp_intermediate = (bytes_per_checkpoint > 0 \<and> session_size > bytes_per_checkpoint)\<rparr>;
            c = \<lparr>cut_buf = [], cut_unused = seg_size, cut_offset = 0, cut_session = s, cut_sent = []\<rparr>
        in case bundles_loop P bundles 0 False False c of
             None \<Rightarrow> None
           | Some (last_seg, c') \<Rightarrow> if last_seg then Some (cut_sent c', cut_session c') else None)"

section \<open>What one segment is\<close>

lemma header_checkpoint: "is_checkpoint (encode_ltp_ds_header d) = is_checkpoint d"
proof -
  have f: "is_checkpoint (encode_field n v x) = is_checkpoint x" for n v x
    by (simp add: encode_field_def split: option.split)
  have h: "is_checkpoint (create_ltp_header x) = is_checkpoint x" for x
    by (simp add: create_ltp_header_def append_byte_def encode_field64_def f)
  have c: "is_checkpoint (set_segment_color_flags x) = is_checkpoint x" "is_checkpoint x \<Longrightarrow> is_checkpoint (encode_checkpoint_bit x)"
    "is_checkpoint (set_endofblock x) = is_checkpoint x" for x
    by (simp_all add: set_segment_color_flags_def encode_checkpoint_bit_def set_endofblock_def set_control_def)
  show ?thesis by (simp add: encode_ltp_ds_header_def Let_def encode_field64_def encode_field32_def f h c)
qed

lemma header_checkpoint_id: "checkpoint_id (encode_ltp_ds_header d) = checkpoint_id d"
proof -
  have f: "checkpoint_id (encode_field n v x) = checkpoint_id x" for n v x
    by (simp add: encode_field_def split: option.split)
  have h: "checkpoint_id (create_ltp_header x) = checkpoint_id x" for x
    by (simp add: create_ltp_header_def append_byte_def encode_field64_def f)
  have c: "checkpoint_id (set_segment_color_flags x) = checkpoint_id x" "checkpoint_id (encode_checkpoint_bit x) = checkpoint_id x"
    "checkpoint_id (set_endofblock x) = checkpoint_id x" for x
    by (simp_all add: set_segment_color_flags_def encode_checkpoint_bit_def set_endofblock_def set_control_def)
  show ?thesis by (simp add: encode_ltp_ds_header_def Let_def encode_field64_def encode_field32_def f h c)
qed

lemma unat_succ_le: "unat (x + 1 :: u64) \<le> unat x + 1"
  by (simp add: unat_word_ariths)

text \<open>A red segment holds the bytes of the buffer at the offset, and the session files it.\<close>

lemma send_segment_red:
  assumes "send_segment False csid data off ck last_seg s = (d, s')"
  shows "start_byte d = off" "stop_byte d = off + of_nat (length data) - 1" "offset d = off" "payload d = data"
    "payload_length d = of_nat (length data)" "red_green_none d = RED_SEGMENT" "is_redendofblock d = last_seg"
    "\<not> is_greenendofblock d" "is_checkpoint d = ck" "queued_to_send d" "\<not> is_deleted d"
    and "red_segments s' = om_assign off d (red_segments s)"
    and "red_complete s' = (red_complete s \<or> last_seg)"
    and "expected_red_bytes s' = (if expected_red_bytes s < off + of_nat (length data) then off + of_nat (length data) else expected_red_bytes s)"
    and "engine_id d = sess_engine_id s" "session_id d = sess_session_id s" "client_service_id d = csid"
    and "sess_engine_id s' = sess_engine_id s" "sess_session_id s' = sess_session_id s"
    and "unat (checkpoint_id d) \<le> unat (sess_checkpoint_id s) + 1" "unat (sess_checkpoint_id s') \<le> unat (sess_checkpoint_id s) + 1"
proof -
  define s1 where "s1 = (if ck then snd (get_next_checkpoint_id s) else s)"
  define d1 where "d1 = (if ck then set_checkpoint_id (fst (get_next_checkpoint_id s)) ((session_data_base s)\<lparr>red_green_none := RED_SEGMENT\<rparr>)
    else (session_data_base s)\<lparr>red_green_none := RED_SEGMENT\<rparr>)"
  define d2 where "d2 = d1\<lparr>client_service_id := csid, payload_length := of_nat (length data), is_redendofblock := last_seg,
    is_checkpoint := ck, offset := off, start_byte := off, stop_byte := off + of_nat (length data) - 1\<rparr>"
  have r: "is_red d2" "\<not> is_greenendofblock d2" "is_red (d1\<lparr>client_service_id := csid\<rparr>)"
    by (simp_all add: d2_def d1_def session_data_base_def blank_data_segment_def base_segment_def ltp_segment.defs
        ltp_data_segment.defs is_red_def set_checkpoint_id_def)
  have d: "d = ((encode_ltp_ds_header d2)\<lparr>payload := data\<rparr>)\<lparr>queued_to_send := True\<rparr>"
    and s': "s' = (if ck then add_checkpoint_seg d (snd (add_segment_outgoing d s1)) else snd (add_segment_outgoing d s1))"
    using assms r(3)
    by (auto simp: send_segment_def Let_def d2_def d1_def s1_def ds_encode_buffer_def is_red_def split: prod.splits if_splits)
  note e = same_enc_ds_header [OF r(1,2)]
  show D: "start_byte d = off" "stop_byte d = off + of_nat (length data) - 1" "offset d = off" "payload d = data"
    "payload_length d = of_nat (length data)" "red_green_none d = RED_SEGMENT" "is_redendofblock d = last_seg"
    "\<not> is_greenendofblock d" "is_checkpoint d = ck" "queued_to_send d" "\<not> is_deleted d"
    using e header_checkpoint [of d2]
    by (simp_all add: d same_enc_def same_data_def d2_def d1_def session_data_base_def blank_data_segment_def base_segment_def
        ltp_segment.defs ltp_data_segment.defs set_checkpoint_id_def)
  show "red_segments s' = om_assign off d (red_segments s)" "red_complete s' = (red_complete s \<or> last_seg)"
    "expected_red_bytes s' = (if expected_red_bytes s < off + of_nat (length data) then off + of_nat (length data) else expected_red_bytes s)"
    using D by (auto simp: s' s1_def get_next_checkpoint_id_def add_checkpoint_seg_def add_segment_outgoing_def store_red_def
        is_endofblock_def Let_def)
  show "engine_id d = sess_engine_id s" "session_id d = sess_session_id s" "client_service_id d = csid"
    using e by (simp_all add: d same_enc_def same_data_def d2_def d1_def session_data_base_def set_checkpoint_id_def)
  have "checkpoint_id d = checkpoint_id d1" by (simp add: d header_checkpoint_id d2_def)
  then show "unat (checkpoint_id d) \<le> unat (sess_checkpoint_id s) + 1"
    using unat_succ_le [of "sess_checkpoint_id s"]
    by (simp add: d1_def set_checkpoint_id_def get_next_checkpoint_id_def session_data_base_def blank_data_segment_def base_segment_def
        ltp_segment.defs ltp_data_segment.defs)
  show "unat (sess_checkpoint_id s') \<le> unat (sess_checkpoint_id s) + 1"
    using D unat_succ_le [of "sess_checkpoint_id s"]
    by (auto simp: s' s1_def get_next_checkpoint_id_def add_checkpoint_seg_def add_segment_outgoing_def store_red_def Let_def)
  show "sess_engine_id s' = sess_engine_id s" "sess_session_id s' = sess_session_id s"
    using D by (auto simp: s' s1_def get_next_checkpoint_id_def add_checkpoint_seg_def add_segment_outgoing_def store_red_def Let_def)
qed

section \<open>The segments of a block\<close>

text \<open>The reference: consecutive chunks of the segment size, the last of which may be shorter.\<close>

function chunks :: "nat \<Rightarrow> bytes \<Rightarrow> bytes list" where
  "chunks n xs = (if length xs \<le> n \<or> n = 0 then [xs] else take n xs # chunks n (drop n xs))"
  by pat_completeness auto
termination by (relation "measure (\<lambda>(n, xs). length xs)") auto

declare chunks.simps [simp del]

lemma chunks_concat: "0 < n \<Longrightarrow> concat (chunks n xs) = xs"
proof (induction n xs rule: chunks.induct)
  case (1 n xs)
  show ?case
  proof (cases "length xs \<le> n \<or> n = 0")
    case False
    then have "concat (chunks n (drop n xs)) = drop n xs" using 1 by blast
    then show ?thesis using False by (subst chunks.simps) simp
  qed (use 1 in \<open>simp add: chunks.simps [of n xs]\<close>)
qed

lemma chunks_start: "xs \<noteq> [] \<Longrightarrow> i < length (chunks n xs) \<Longrightarrow> n * i < length xs"
proof (induction n xs arbitrary: i rule: chunks.induct)
  case (1 n xs)
  show ?case
  proof (cases "length xs \<le> n \<or> n = 0")
    case True then show ?thesis using 1(2,3) by (simp add: chunks.simps [of n xs])
  next
    case False
    then have c: "chunks n xs = take n xs # chunks n (drop n xs)" "drop n xs \<noteq> []" by (simp_all add: chunks.simps [of n xs])
    show ?thesis
    proof (cases i)
      case (Suc j)
      then have "n * j < length xs - n" using 1(1) [OF False c(2), of j] 1(3) by (simp add: c(1))
      then show ?thesis using Suc by simp
    qed (use 1(2) in simp)
  qed
qed

lemma chunks_length: "0 < n \<Longrightarrow> c \<in> set (chunks n xs) \<Longrightarrow> length c \<le> n"
proof (induction n xs rule: chunks.induct)
  case (1 n xs)
  then show ?case by (cases "length xs \<le> n") (auto simp: chunks.simps [of n xs])
qed

text \<open>The bundles as they follow one another in the block.\<close>

definition bundle_bytes :: "bool \<Rightarrow> ltp_bundle \<Rightarrow> bytes" where
  "bundle_bytes ccsds = (\<lambda>(v, pl, blocks). (if ccsds then [1] else []) @ whole_bundle v pl blocks)"

definition session_block :: "bool \<Rightarrow> ltp_bundle list \<Rightarrow> bytes" where
  "session_block ccsds bundles = concat (map (bundle_bytes ccsds) bundles)"

text \<open>Segments cut from the first bytes of the block, all of full size.\<close>

definition cut_segs :: "nat \<Rightarrow> bytes \<Rightarrow> ltp_data_segment list \<Rightarrow> bool" where
  "cut_segs n blk ds \<longleftrightarrow> (\<forall>i < length ds. start_byte (ds ! i) = of_nat (n * i)
     \<and> payload (ds ! i) = take n (drop (n * i) blk) \<and> piece blk (ds ! i))"

abbreviation filed :: "ltp_data_segment list \<Rightarrow> ds_map" where
  "filed ds \<equiv> map (\<lambda>d. (start_byte d, d)) ds"

definition cut_inv :: "nat \<Rightarrow> bytes \<Rightarrow> nat \<Rightarrow> cutter \<Rightarrow> bool" where
  "cut_inv n blk pos c \<longleftrightarrow>
     (let done_bytes = n * length (cut_sent c) in
      pos < length blk \<and> length blk < 2 ^ 63 \<and> done_bytes + length (cut_buf c) = pos
      \<and> cut_buf c = drop done_bytes (take pos blk)
      \<and> length (cut_buf c) < n \<and> cut_unused c = n - length (cut_buf c) \<and> cut_offset c = of_nat done_bytes
      \<and> cut_segs n blk (cut_sent c) \<and> red_segments (cut_session c) = filed (cut_sent c)
      \<and> \<not> red_complete (cut_session c) \<and> expected_red_bytes (cut_session c) = of_nat done_bytes)"

definition cut_final :: "nat \<Rightarrow> bytes \<Rightarrow> cutter \<Rightarrow> bool" where
  "cut_final n blk c \<longleftrightarrow>
     (\<exists>ds d. cut_sent c = ds @ [d] \<and> n * length ds < length blk \<and> length blk \<le> n * length ds + n \<and> cut_segs n blk (ds @ [d])
        \<and> is_checkpoint d \<and> red_segments (cut_session c) = filed (ds @ [d])
        \<and> red_complete (cut_session c) \<and> expected_red_bytes (cut_session c) = of_nat (length blk))"

lemma chunks_cut:
  assumes "n * k < length blk" and "length blk \<le> n * k + n"
  shows "chunks n blk = map (\<lambda>i. take n (drop (n * i) blk)) [0..<Suc k]"
  using assms
proof (induction k arbitrary: blk)
  case 0
  then show ?case by (simp add: chunks.simps)
next
  case (Suc k)
  have "n \<noteq> 0" "\<not> length blk \<le> n" using Suc.prems by auto
  then have "chunks n blk = take n blk # chunks n (drop n blk)" by (simp add: chunks.simps [of n blk])
  also have "chunks n (drop n blk) = map (\<lambda>i. take n (drop (n * i) (drop n blk))) [0..<Suc k]"
    by (rule Suc.IH) (use Suc.prems in auto)
  also have "\<dots> = map (\<lambda>i. take n (drop (n * Suc i) blk)) [0..<Suc k]" by (simp add: add.commute)
  also have "take n blk # \<dots> = map (\<lambda>i. take n (drop (n * i) blk)) (0 # map Suc [0..<Suc k])" by simp
  also have "0 # map Suc [0..<Suc k] = [0..<Suc (Suc k)]" by (simp add: map_Suc_upt upt_conv_Cons)
  finally show ?case .
qed

lemma of_nat_u64: "m < 2 ^ 64 \<Longrightarrow> unat (of_nat m :: u64) = m"
  by (simp add: unsigned_of_nat take_bit_nat_eq_self)

text \<open>A segment filed behind all earlier ones.\<close>

lemma filed_append:
  assumes "cut_segs n blk ds" and "n * length ds < 2 ^ 63" and "0 < n"
  shows "om_assign (of_nat (n * length ds)) d (filed ds) = filed ds @ [(of_nat (n * length ds), d)]"
proof -
  have "start_byte e < of_nat (n * length ds)" if e: "e \<in> set ds" for e
  proof -
    obtain i where i: "i < length ds" "e = ds ! i" using e by (metis in_set_conv_nth)
    then have lt: "n * i < n * length ds" using assms(3) by simp
    then have "n * i < 2 ^ 63" using assms(2) by (rule less_trans)
    then have "n * i < 2 ^ 64" "n * length ds < 2 ^ 64" using assms(2) by simp_all
    then have "unat (of_nat (n * i) :: u64) < unat (of_nat (n * length ds) :: u64)" using lt by (simp only: of_nat_u64)
    then show ?thesis using assms(1) i by (simp add: cut_segs_def word_less_nat_alt)
  qed
  then show ?thesis using om_assign_append [of "filed ds" "of_nat (n * length ds)" d "[]"] by auto
qed

lemma send_segment_piece:
  assumes "send_segment False csid data (of_nat k) ck last_seg s = (d, s')" and "length blk < 2 ^ 63" and "data \<noteq> []"
    and "data = take (length data) (drop k blk)" and "k + length data \<le> length blk" and "last_seg \<longleftrightarrow> k + length data = length blk"
  shows "piece blk d"
proof -
  note D = send_segment_red [OF assms(1)]
  have "unat (of_nat k :: u64) = k" by (rule of_nat_u64) (use assms(2,5) in simp)
  then show ?thesis unfolding piece_def using D assms(2-6) by simp
qed

text \<open>Bytes added to the buffer, and the segment sent when the buffer is full or the block complete.\<close>

lemma cut_step:
  assumes I: "cut_inv n blk pos c" and d: "d \<noteq> []" "length d \<le> cut_unused c" "d = take (length d) (drop pos blk)"
    and n: "0 < n" and last: "last_seg \<longleftrightarrow> pos + length d = length blk" and le: "pos + length d \<le> length blk"
  obtains sent c' where "check_send_segment n False csid ck last_seg False (add_bytes d c) = (sent, c')"
    and "\<not> last_seg \<Longrightarrow> cut_inv n blk (pos + length d) c'" and "last_seg \<Longrightarrow> ck \<Longrightarrow> cut_final n blk c'"
proof -
  define k where "k = n * length (cut_sent c)"
  define buf where "buf = cut_buf c @ d"
  have J: "length blk < 2 ^ 63" "k + length (cut_buf c) = pos" "cut_buf c = drop k (take pos blk)" "length (cut_buf c) < n"
    "cut_unused c = n - length (cut_buf c)" "cut_offset c = of_nat k" "cut_segs n blk (cut_sent c)"
    "red_segments (cut_session c) = filed (cut_sent c)" "\<not> red_complete (cut_session c)"
    "expected_red_bytes (cut_session c) = of_nat k"
    using I unfolding cut_inv_def k_def Let_def by blast+
  have "take pos blk @ d = take (pos + length d) blk" using d(3) by (metis take_add)
  moreover have "drop k (take pos blk @ d) = drop k (take pos blk) @ d" using J(2) le by simp
  ultimately have b1: "buf = drop k (take (pos + length d) blk)" using J(3) by (simp only: buf_def)
  have b: "length buf \<le> n" "buf \<noteq> []" "k + length buf = pos + length d" using J(2,4,5) d by (auto simp: buf_def)
  have "pos + length d - k = length buf" using b(3) by simp
  then have b2: "buf = take (length buf) (drop k blk)" using b1 by (metis drop_take)
  have u: "cut_unused (add_bytes d c) = n - length buf" "cut_buf (add_bytes d c) = buf" "cut_offset (add_bytes d c) = of_nat k"
    "cut_session (add_bytes d c) = cut_session c" "cut_sent (add_bytes d c) = cut_sent c"
    using J(5,6) by (simp_all add: add_bytes_def buf_def)
  show thesis
  proof (cases "\<not> last_seg \<and> n - length buf \<noteq> 0")
    case True
    have "cut_inv n blk (pos + length d) (add_bytes d c)"
      unfolding cut_inv_def Let_def u k_def [symmetric] using J True b b1 le last by auto
    then show thesis using that [of False "add_bytes d c"] True u(1) by (simp add: check_send_segment_def)
  next
    case False
    obtain e s' where e: "send_segment False csid buf (of_nat k) ck last_seg (cut_session c) = (e, s')" by (metis surj_pair)
    note D = send_segment_red [OF e]
    define c' where "c' = \<lparr>cut_buf = [], cut_unused = n, cut_offset = of_nat (k + length buf), cut_session = s', cut_sent = cut_sent c @ [e]\<rparr>"
    have call: "check_send_segment n False csid ck last_seg False (add_bytes d c) = (True, c')"
      using False e u by (simp add: check_send_segment_def c'_def)
    have p: "piece blk e" using send_segment_piece [OF e J(1) b(2) b2] b(3) le last by simp
    have pe: "payload e = take n (drop k blk)"
    proof (cases "last_seg")
      case True
      then have "length buf = length (drop k blk)" using last b(3) by simp
      then show ?thesis using b2 b(1) D(4) by simp
    next
      case ns: False
      then have "length buf = n" using False b(1) by simp
      then show ?thesis using b2 D(4) by simp
    qed
    have segs: "cut_segs n blk (cut_sent c @ [e])"
      unfolding cut_segs_def
    proof (intro allI impI)
      fix i assume i: "i < length (cut_sent c @ [e])"
      show "start_byte ((cut_sent c @ [e]) ! i) = of_nat (n * i) \<and> payload ((cut_sent c @ [e]) ! i) = take n (drop (n * i) blk)
          \<and> piece blk ((cut_sent c @ [e]) ! i)"
      proof (cases "i < length (cut_sent c)")
        case True
        then show ?thesis using J(7) by (simp add: cut_segs_def nth_append)
      next
        case False
        then have "i = length (cut_sent c)" using i by simp
        then show ?thesis using p pe D(1) by (simp add: k_def)
      qed
    qed
    have k63: "k < 2 ^ 63" "k + length buf < 2 ^ 63" using J(1) b(3) le by simp_all
    have f: "red_segments s' = filed (cut_sent c @ [e])"
      using D(1,12) J(8) filed_append [OF J(7) k63(1) [unfolded k_def] n, of e] by (simp add: k_def)
    have "unat (of_nat k :: u64) < unat (of_nat (k + length buf) :: u64)"
      using k63 b(2) by (simp only: of_nat_u64 [OF less_trans [OF _ power_strict_increasing]]) simp
    then have x: "expected_red_bytes s' = of_nat (k + length buf)" using D(14) J(10) by (simp add: word_less_nat_alt)
    show thesis
    proof (rule that [OF call])
      assume ns: "\<not> last_seg"
      then have l: "length buf = n" using False b(1) by simp
      then have k': "n * length (cut_sent c') = k + length buf" by (simp add: c'_def k_def)
      show "cut_inv n blk (pos + length d) c'"
        unfolding cut_inv_def Let_def k' using J(1) ns last le b(3) n segs f x D(13) J(9) by (simp add: c'_def del: of_nat_add)
    next
      assume l: "last_seg" "ck"
      have "n * length (cut_sent c) < length blk" "length blk \<le> n * length (cut_sent c) + n"
        using l(1) last b(1,3) length_greater_0_conv [THEN iffD2, OF b(2)] unfolding k_def [symmetric] by linarith+
      moreover have "k + length buf = length blk" using l(1) last b(3) by simp
      ultimately show "cut_final n blk c'"
        unfolding cut_final_def using segs f x D(9,13) l by (intro exI [of _ "cut_sent c"] exI [of _ e]) (simp add: c'_def)
    qed
  qed
qed

section \<open>The loops\<close>

lemma bundle_loop_ok:
  assumes "bundle_ok v pl bs" and "buffers_at v pl off bs" and "off < length (whole_bundle v pl bs)"
    and "cut_inv (cp_seg_size P) blk pos c" and "0 < cp_seg_size P" and "\<not> cp_green P"
    and "drop pos blk = drop off (whole_bundle v pl bs) @ rest" and "last_bundle \<longleftrightarrow> rest = []"
  shows "\<exists>tw ck c'. bundle_loop P last_bundle v pl bs off toward is_ckpt c = Some (tw, ck, last_bundle, c')
    \<and> (if last_bundle then cut_final (cp_seg_size P) blk c'
       else cut_inv (cp_seg_size P) blk (pos + (length (whole_bundle v pl bs) - off)) c')"
  using assms
proof (induction "length (whole_bundle v pl bs) - off" arbitrary: bs off pos c toward is_ckpt rule: less_induct)
  case less
  let ?W = "whole_bundle v pl bs" and ?n = "cp_seg_size P"
  define u where "u = cut_unused c"
  have pos: "pos < length blk" and u: "0 < u"
    using less(5) by (auto simp: cut_inv_def u_def Let_def)
  obtain bs' where pr: "produce v pl bs off u = Some (take u (drop off ?W), length ?W \<le> off + u, bs')"
      "same_blocks bs bs'" "buffers_at v pl (off + u) bs'"
    using produce_ok [OF less(2-4) u] by blast
  define out where "out = take u (drop off ?W)"
  define complete where "complete = (length ?W \<le> off + u)"
  define last_seg where "last_seg = (complete \<and> last_bundle)"
  define ck where "ck = ((if cp_intermediate P then toward + length out \<ge> cp_per_checkpoint P else is_ckpt) \<or> last_seg)"
  have out: "out \<noteq> []" "length out \<le> cut_unused c" "length out = min u (length ?W - off)"
    using u less(4) by (simp_all add: out_def u_def)
  have len: "length blk - pos = (length ?W - off) + length rest" using arg_cong [OF less(8), of length] by simp
  have o: "out = take (length out) (drop pos blk)" unfolding less(8) out(3) by (auto simp: out_def min_def)
  have le: "pos + length out \<le> length blk" using len out(3) pos by linarith
  have last: "last_seg \<longleftrightarrow> pos + length out = length blk"
  proof -
    have "last_bundle \<longleftrightarrow> length rest = 0" using less(9) by simp
    then show ?thesis using len out(3) pos less(4) unfolding last_seg_def complete_def by linarith
  qed
  obtain sent c2 where c2: "check_send_segment ?n False (cp_csid P) ck last_seg False (add_bytes out c) = (sent, c2)"
      "\<not> last_seg \<Longrightarrow> cut_inv ?n blk (pos + length out) c2" "last_seg \<Longrightarrow> ck \<Longrightarrow> cut_final ?n blk c2"
    by (rule cut_step [OF less(5) out(1,2) o less(6) last le, of "cp_csid P" ck]) (rule that)
  define tw where "tw = (if sent \<and> ck then 0 else toward + length out)"
  have g: "cp_green P = False" using less(7) by simp
  have step: "bundle_loop P last_bundle v pl bs off toward is_ckpt c = (if complete then Some (tw, ck, last_seg, c2)
      else bundle_loop P last_bundle v pl bs' (off + length out) tw ck c2)"
  proof -
    have pr': "produce v pl bs off (cut_unused c) = Some (out, complete, bs')"
      using pr(1) by (simp only: u_def out_def complete_def)
    have f: "(\<not> complete \<and> out = [] \<and> cut_buf (add_bytes out c) \<noteq> []) = False" using out(1) by simp
    show ?thesis
      unfolding bundle_loop.simps [of P last_bundle v pl bs off] pr' option.case prod.case Let_def f g last_seg_def [symmetric]
        ck_def [symmetric] c2(1) tw_def [symmetric] by (rule refl)
  qed
  show ?case
  proof (cases complete)
    case True
    then have "length out = length ?W - off" using out(3) unfolding complete_def by linarith
    moreover have "last_seg = last_bundle" "last_seg \<longrightarrow> ck" using True by (simp_all add: last_seg_def ck_def)
    ultimately show ?thesis using step True c2(2,3) by auto
  next
    case False
    note F = same_blocks_facts [OF pr(2)]
    have lo: "length out = u" using False out(3) by (simp add: complete_def)
    have ns: "\<not> last_seg" using False by (simp add: last_seg_def)
    have "drop (pos + length out) blk = drop (length out) (drop pos blk)" by (simp add: add.commute)
    also have "\<dots> = drop (off + length out) ?W @ rest" unfolding less(8) using False lo by (simp add: complete_def add.commute)
    finally have d: "drop (pos + length out) blk = drop (off + length out) ?W @ rest" .
    have IH: "\<exists>tw' ck' c'. bundle_loop P last_bundle v pl bs' (off + length out) tw ck c2 = Some (tw', ck', last_bundle, c')
        \<and> (if last_bundle then cut_final ?n blk c' else cut_inv ?n blk (pos + length out + (length (whole_bundle v pl bs') - (off + length out))) c')"
      by (rule less(1)) (use False less F pr(3) c2(2) ns lo u d in \<open>simp_all add: complete_def\<close>)
    have "pos + length out + (length (whole_bundle v pl bs') - (off + length out)) = pos + (length ?W - off)"
      using False lo F(2) by (simp add: complete_def)
    moreover have "bundle_loop P last_bundle v pl bs off toward is_ckpt c = bundle_loop P last_bundle v pl bs' (off + length out) tw ck c2"
      using step False by simp
    ultimately show ?thesis using IH by (simp only:)
  qed
qed

lemma start_bundle_ok:
  assumes "cut_inv (cp_seg_size P) blk pos c" and "0 < cp_seg_size P" and "\<not> cp_green P"
    and "cp_csid P = (if ccsds then 2 else 1)" and "drop pos blk = (if ccsds then [1] else []) @ W" and "W \<noteq> []"
  shows "\<exists>tw ck c' p. start_bundle P toward is_ckpt False c = (tw, ck, c') \<and> cut_inv (cp_seg_size P) blk p c'
    \<and> drop p blk = W \<and> p = pos + (if ccsds then 1 else 0)"
proof (cases ccsds)
  case True
  have len: "length blk - pos = Suc (length W)" "0 < length W" using arg_cong [OF assms(5), of length] True assms(6) by simp_all
  have l: "([1] :: bytes) \<noteq> []" "length ([1] :: bytes) \<le> cut_unused c" "([1] :: bytes) = take (length ([1] :: bytes)) (drop pos blk)"
    "False \<longleftrightarrow> pos + length ([1] :: bytes) = length blk" "pos + length ([1] :: bytes) \<le> length blk"
  proof -
    have "length (cut_buf c) < cp_seg_size P" "cut_unused c = cp_seg_size P - length (cut_buf c)"
      using assms(1) unfolding cut_inv_def Let_def by blast+
    then show "length ([1] :: bytes) \<le> cut_unused c" by simp
    have "pos + 1 < length blk" using len by linarith
    then show "False \<longleftrightarrow> pos + length ([1] :: bytes) = length blk" "pos + length ([1] :: bytes) \<le> length blk" by simp_all
  qed (use assms(5) True in simp_all)
  define ck where "ck = (if cp_intermediate P then toward + 1 > cp_per_checkpoint P else is_ckpt)"
  obtain sent c2 where c2: "check_send_segment (cp_seg_size P) False (cp_csid P) ck False False (add_bytes [1] c) = (sent, c2)"
      "cut_inv (cp_seg_size P) blk (pos + length ([1] :: bytes)) c2"
    by (rule cut_step [OF assms(1) l(1-3) assms(2) l(4,5), of "cp_csid P" ck]) auto
  have "drop (pos + 1) blk = drop 1 (drop pos blk)" by (simp add: add.commute)
  then have "drop (pos + 1) blk = W" using assms(5) True by simp
  moreover have "start_bundle P toward is_ckpt False c = (if sent then 0 else toward + 1, ck, c2)"
  proof -
    have cs: "cp_csid P = 2" "cp_green P = False" using True assms(3,4) by simp_all
    show ?thesis
      unfolding start_bundle_def Let_def cs using c2(1) [unfolded cs] by (simp only: prod.case if_True refl ck_def [symmetric])
  qed
  ultimately show ?thesis using c2(2) True by simp
next
  case False
  have u: "cut_unused c \<noteq> 0" using assms(1) by (auto simp: cut_inv_def Let_def)
  then show ?thesis using False assms by (simp add: start_bundle_def check_send_segment_def)
qed

lemma bundles_loop_ok:
  assumes "cut_inv (cp_seg_size P) blk pos c" and "0 < cp_seg_size P" and "\<not> cp_green P"
    and "cp_csid P = (if ccsds then 2 else 1)" and "drop pos blk = session_block ccsds bundles" and "bundles \<noteq> []"
    and "\<forall>(v, pl, bs) \<in> set bundles. bundle_ok v pl bs \<and> (\<forall>b \<in> set bs. bi_locals b = None)"
  shows "\<exists>c'. bundles_loop P bundles toward is_ckpt False c = Some (True, c') \<and> cut_final (cp_seg_size P) blk c'"
  using assms
proof (induction bundles arbitrary: pos c toward is_ckpt)
  case (Cons b rest)
  obtain v pl bs where b: "b = (v, pl, bs)" by (cases b)
  let ?W = "whole_bundle v pl bs" and ?n = "cp_seg_size P"
  have ok: "bundle_ok v pl bs" "\<forall>b \<in> set bs. bi_locals b = None" using Cons.prems(7) b by auto
  have fresh: "buffers_at v pl 0 bs" "0 < length ?W" using fresh_buffers [OF ok] by auto
  have ne: "session_block ccsds rest = [] \<longleftrightarrow> rest = []"
  proof (cases rest)
    case (Cons b' r)
    obtain v' pl' bs' where b': "b' = (v', pl', bs')" by (cases b')
    then have "0 < length (whole_bundle v' pl' bs')" using fresh_buffers [of v' pl' bs'] Cons.prems(7) Cons by auto
    then show ?thesis using Cons b' by (simp add: session_block_def bundle_bytes_def)
  qed (simp add: session_block_def)
  have blk: "drop pos blk = (if ccsds then [1] else []) @ (?W @ session_block ccsds rest)"
    using Cons.prems(5) b by (simp add: session_block_def bundle_bytes_def)
  obtain tw ck c1 p where s: "start_bundle P toward is_ckpt False c = (tw, ck, c1)" "cut_inv ?n blk p c1"
      "drop p blk = drop 0 ?W @ session_block ccsds rest"
    using start_bundle_ok [OF Cons.prems(1-4) blk, of toward is_ckpt] fresh(2) by auto
  obtain tw2 ck2 c2 where l: "bundle_loop P (rest = []) v pl bs 0 tw ck c1 = Some (tw2, ck2, rest = [], c2)"
      "if rest = [] then cut_final ?n blk c2 else cut_inv ?n blk (p + (length ?W - 0)) c2"
    using bundle_loop_ok [OF ok(1) fresh s(2) Cons.prems(2,3) s(3), of "rest = []" tw ck] ne by auto
  show ?case
  proof (cases "rest = []")
    case True
    then show ?thesis using s(1) l b by simp
  next
    case False
    have "drop (p + length ?W) blk = drop (length ?W) (drop p blk)" by (simp add: add.commute)
    then have d: "drop (p + length ?W) blk = session_block ccsds rest" using s(3) by simp
    have "cut_inv ?n blk (p + length ?W) c2" using l(2) False by simp
    from Cons.IH [OF this Cons.prems(2-4) d False, of tw2 ck2] show ?thesis using Cons.prems(7) s(1) l(1) b False by simp
  qed
qed simp

section \<open>Addresses\<close>

text \<open>Every segment sent carries the ids of its session and the client service, and its place twice.\<close>

definition addressed :: "u64 \<times> u64 \<Rightarrow> u32 \<Rightarrow> ltp_data_segment \<Rightarrow> bool" where
  "addressed key csid d \<longleftrightarrow> (engine_id d, session_id d) = key \<and> client_service_id d = csid \<and> offset d = start_byte d
     \<and> \<not> is_deleted d"

definition own_segs :: "u64 \<times> u64 \<Rightarrow> nat \<Rightarrow> u32 \<Rightarrow> cutter \<Rightarrow> bool" where
  "own_segs key n csid c \<longleftrightarrow> (sess_engine_id (cut_session c), sess_session_id (cut_session c)) = key
     \<and> unat (sess_checkpoint_id (cut_session c)) \<le> n + length (cut_sent c)
     \<and> (\<forall>d \<in> set (cut_sent c). addressed key csid d \<and> unat (checkpoint_id d) \<le> n + length (cut_sent c))"

lemma own_check_send:
  assumes "own_segs key n csid c" and "check_send_segment sz False csid ck last_seg force c = (sent, c')"
  shows "own_segs key n csid c'"
proof -
  obtain d s' where ss: "send_segment False csid (cut_buf c) (cut_offset c) ck last_seg (cut_session c) = (d, s')" by (metis surj_pair)
  note S = send_segment_red [OF ss]
  show ?thesis
    using assms S(1,3,11,15-21) ss by (auto simp: check_send_segment_def own_segs_def addressed_def le_SucI split: if_splits)
qed

lemma own_add_bytes [simp]: "own_segs key n csid (add_bytes d c) = own_segs key n csid c"
  by (simp add: own_segs_def add_bytes_def)

lemma own_bundle_loop:
  assumes "bundle_loop P lb v pl bs o' tw ck c = Some (tw', ck', ls, c')" and "own_segs key n (cp_csid P) c" and "\<not> cp_green P"
  shows "own_segs key n (cp_csid P) c'"
proof -
  let ?Q = "\<lambda>P lb v pl bs (o' :: nat) (tw :: nat) (ck :: bool) c y. \<not> cp_green P \<longrightarrow> own_segs key n (cp_csid P) c \<longrightarrow>
      own_segs key n (cp_csid P) (snd (snd (snd (y :: nat \<times> bool \<times> bool \<times> cutter))))"
  have "?Q P lb v pl bs o' tw ck c (tw', ck', ls, c')"
  proof (rule bundle_loop.raw_induct [where P = ?Q, OF _ assms(1)], intro impI)
    fix loop P lb v pl bs o' tw ck c y
    assume IH: "\<And>P lb v pl bs o' tw ck c y. loop P lb v pl bs o' tw ck c = Some y \<Longrightarrow> ?Q P lb v pl bs o' tw ck c y"
      and body: "(case produce v pl bs o' (cut_unused c) of
        None \<Rightarrow> None
      | Some (out, complete, blocks') \<Rightarrow>
          let c1 = add_bytes out c; toward1 = tw + length out;
              is_ckpt1 = (if cp_intermediate P then toward1 \<ge> cp_per_checkpoint P else ck);
              force = (\<not> complete \<and> out = [] \<and> cut_buf c1 \<noteq> []);
              last_seg = (complete \<and> lb);
              is_ckpt2 = (is_ckpt1 \<or> last_seg);
              (sent, c2) = check_send_segment (cp_seg_size P) (cp_green P) (cp_csid P) is_ckpt2 last_seg force c1;
              toward2 = (if sent \<and> is_ckpt2 then 0 else toward1)
          in if complete then Some (toward2, is_ckpt2, last_seg, c2)
             else loop P lb v pl blocks' (o' + length out) toward2 is_ckpt2 c2) = Some y"
      and red: "\<not> cp_green P" and own: "own_segs key n (cp_csid P) c"
    obtain out complete bs' where pr: "produce v pl bs o' (cut_unused c) = Some (out, complete, bs')"
      using body by (auto split: option.splits)
    have green: "cp_green P = False" using red by simp
    define c1 where "c1 = add_bytes out c"
    define ck2 where "ck2 = ((if cp_intermediate P then tw + length out \<ge> cp_per_checkpoint P else ck) \<or> complete \<and> lb)"
    obtain sent c2 where cs: "check_send_segment (cp_seg_size P) False (cp_csid P) ck2 (complete \<and> lb)
        (\<not> complete \<and> out = [] \<and> cut_buf c1 \<noteq> []) c1 = (sent, c2)" by (metis surj_pair)
    have "own_segs key n (cp_csid P) c1" using own by (simp add: c1_def)
    then have own2: "own_segs key n (cp_csid P) c2" using own_check_send [OF _ cs] by blast
    have "(if complete then Some (if sent \<and> ck2 then 0 else tw + length out, ck2, complete \<and> lb, c2)
        else loop P lb v pl bs' (o' + length out) (if sent \<and> ck2 then 0 else tw + length out) ck2 c2) = Some y"
      using body unfolding pr option.case prod.case Let_def cs [unfolded c1_def ck2_def, folded green] ck2_def .
    then show "own_segs key n (cp_csid P) (snd (snd (snd y)))"
      using IH red own2 by (cases complete) auto
  qed
  then show ?thesis using assms(2,3) by simp
qed

lemma own_bundles_loop:
  "bundles_loop P bundles tw ck ls c = Some (ls', c') \<Longrightarrow> own_segs key n (cp_csid P) c \<Longrightarrow> \<not> cp_green P \<Longrightarrow> own_segs key n (cp_csid P) c'"
proof (induction P bundles tw ck ls c arbitrary: ls' c' rule: bundles_loop.induct)
  case (2 P v pl bs rest tw ck ls c)
  obtain tw1 ck1 c1 where st: "start_bundle P tw ck ls c = (tw1, ck1, c1)" by (metis prod_cases3)
  obtain sent ck0 force c0 where cs: "check_send_segment (cp_seg_size P) False (cp_csid P) ck0 ls force c0 = (sent, c1)" "own_segs key n (cp_csid P) c0"
    using st 2(3,4) by (auto simp: start_bundle_def Let_def split: prod.splits if_splits)
  obtain tw2 ck2 ls2 c2 where bl: "bundle_loop P (rest = []) v pl bs 0 tw1 ck1 c1 = Some (tw2, ck2, ls2, c2)"
      "bundles_loop P rest tw2 ck2 ls2 c2 = Some (ls', c')"
    using 2(2) st by (auto split: option.splits prod.splits)
  have "own_segs key n (cp_csid P) c2" by (rule own_bundle_loop [OF bl(1) own_check_send [OF cs(2,1)] 2(4)])
  then show ?case using 2(1) [OF st [symmetric] refl refl bl(1)] bl(2) 2(4) by blast
qed auto

section \<open>Properties\<close>

lemma bundles_cut:
  assumes "\<forall>(v, pl, blocks) \<in> set bundles. bundle_ok v pl blocks \<and> (\<forall>b \<in> set blocks. bi_locals b = None)"
    and "bundles \<noteq> []" and "0 < seg_size" and "length (session_block ccsds bundles) < 2 ^ 63"
  shows "\<exists>sent s. process_bundles ccsds seg_size per_checkpoint session_size False bundles (session_init eng ses ckpt serial) = Some (sent, s)
    \<and> map payload sent = chunks seg_size (session_block ccsds bundles)
    \<and> (\<forall>d \<in> set sent. piece (session_block ccsds bundles) d)
    \<and> (\<forall>i < length sent. start_byte (sent ! i) = of_nat (seg_size * i) \<and> (is_redendofblock (sent ! i) \<longleftrightarrow> Suc i = length sent))
    \<and> is_checkpoint (last sent) \<and> red_segments s = map (\<lambda>d. (start_byte d, d)) sent
    \<and> red_complete s \<and> expected_red_bytes s = of_nat (length (session_block ccsds bundles))"
proof -
  let ?blk = "session_block ccsds bundles" and ?s = "session_init eng ses ckpt serial"
  define P where "P = \<lparr>cp_seg_size = seg_size, cp_green = False, cp_csid = (if ccsds then 2 else 1), cp_per_checkpoint = per_checkpoint,
    cp_intermediate = (per_checkpoint > 0 \<and> session_size > per_checkpoint)\<rparr>"
  define c where "c = \<lparr>cut_buf = [], cut_unused = seg_size, cut_offset = 0, cut_session = ?s, cut_sent = []\<rparr>"
  obtain v pl bs rest where b: "bundles = (v, pl, bs) # rest" using assms(2) by (metis list.exhaust prod_cases3)
  have "0 < length (whole_bundle v pl bs)" using fresh_buffers(2) [of v pl bs] assms(1) b by auto
  then have "0 < length ?blk" using b by (simp add: session_block_def bundle_bytes_def)
  then have "cut_inv (cp_seg_size P) ?blk 0 c"
    using assms(3,4) by (simp add: cut_inv_def P_def c_def cut_segs_def session_init_def)
  then obtain c' where c': "bundles_loop P bundles 0 False False c = Some (True, c')" "cut_final seg_size ?blk c'"
    using bundles_loop_ok [of P ?blk 0 c ccsds bundles 0 False] assms by (auto simp: P_def)
  then have run: "process_bundles ccsds seg_size per_checkpoint session_size False bundles ?s = Some (cut_sent c', cut_session c')"
    using assms(2) by (simp add: process_bundles_def P_def [symmetric] c_def [symmetric])
  obtain ds d where F: "cut_sent c' = ds @ [d]" "seg_size * length ds < length ?blk" "length ?blk \<le> seg_size * length ds + seg_size"
      "cut_segs seg_size ?blk (ds @ [d])" "is_checkpoint d" "red_segments (cut_session c') = filed (ds @ [d])"
      "red_complete (cut_session c')" "expected_red_bytes (cut_session c') = of_nat (length ?blk)"
    using c'(2) unfolding cut_final_def by blast
  have nth: "start_byte ((ds @ [d]) ! i) = of_nat (seg_size * i)" "payload ((ds @ [d]) ! i) = take seg_size (drop (seg_size * i) ?blk)"
    "piece ?blk ((ds @ [d]) ! i)" if "i < length (ds @ [d])" for i
    using F(4) that unfolding cut_segs_def by blast+
  have pay: "map payload (cut_sent c') = chunks seg_size ?blk"
    unfolding chunks_cut [OF F(2,3)] F(1) by (rule nth_equalityI) (use nth(2) in \<open>simp_all del: map_append upt_Suc\<close>)
  have pc: "\<forall>e \<in> set (cut_sent c'). piece ?blk e" unfolding F(1) using nth(3) by (metis in_set_conv_nth)
  have eob: "is_redendofblock ((ds @ [d]) ! i) \<longleftrightarrow> Suc i = length (ds @ [d])" if i: "i < length (ds @ [d])" for i
  proof -
    have le: "i \<le> length ds" using i by simp
    have m: "seg_size * i \<le> seg_size * length ds" using le by simp
    have "unat (of_nat (seg_size * i) :: u64) = seg_size * i" 
    proof (rule of_nat_u64)
      have "seg_size * i < 2 ^ 63" using le_less_trans [OF m less_trans [OF F(2) assms(4)]] .
      then show "seg_size * i < 2 ^ 64" by simp
    qed
    then have e: "is_redendofblock ((ds @ [d]) ! i) \<longleftrightarrow> seg_size * i + min seg_size (length ?blk - seg_size * i) = length ?blk"
      using nth [OF i] by (simp add: piece_def min.commute)
    show ?thesis
    proof (cases "i = length ds")
      case True
      then show ?thesis using e F(2,3) by simp
    next
      case False
      then have "seg_size * Suc i \<le> seg_size * length ds" using le by (intro mult_le_mono2) simp
      then show ?thesis using e False F(2) by simp
    qed
  qed
  show ?thesis
    using run pay pc nth(1) eob F(1,5-8) by (intro exI [of _ "cut_sent c'"] exI [of _ "cut_session c'"]) simp
qed

text \<open>
  C7. The segments of a session are the chunks of its bundles. Let the session be new and its bundles
  formatted, red, and together less than two to the 63 bytes. Then whatever the size of the segments and
  the distance of the checkpoints, no assertion fails and the loops end; the payloads sent are the
  consecutive chunks of the bundles, each preceded by the service byte when bundles are aggregated; every
  segment is a piece of that block with its place in it; the last one is a checkpoint and alone marked as
  the end of the block; and the session holds exactly these segments and knows its length.
\<close>
theorem bundles_cut_into_chunks:
  assumes "\<forall>(v, pl, blocks) \<in> set bundles. bundle_ok v pl blocks \<and> (\<forall>b \<in> set blocks. bi_locals b = None)"
    and "bundles \<noteq> []" and "0 < seg_size" and "length (session_block ccsds bundles) < 2 ^ 63"
  shows "\<exists>sent s. process_bundles ccsds seg_size per_checkpoint session_size False bundles (session_init eng ses ckpt serial) = Some (sent, s)
    \<and> map payload sent = chunks seg_size (session_block ccsds bundles)
    \<and> (\<forall>d \<in> set sent. piece (session_block ccsds bundles) d)
    \<and> (\<forall>i < length sent. start_byte (sent ! i) = of_nat (seg_size * i) \<and> (is_redendofblock (sent ! i) \<longleftrightarrow> Suc i = length sent))
    \<and> is_checkpoint (last sent) \<and> red_segments s = map (\<lambda>d. (start_byte d, d)) sent
    \<and> red_complete s \<and> expected_red_bytes s = of_nat (length (session_block ccsds bundles))"
  using bundles_cut [OF assms] .

lemma bundles_own:
  assumes "process_bundles ccsds seg_size per_checkpoint session_size False bundles (session_init eng ses ckpt serial) = Some (sent, s)"
  shows "\<exists>c'. own_segs (eng, ses) (unat ckpt) (if ccsds then 2 else 1) c' \<and> sent = cut_sent c' \<and> s = cut_session c'"
proof -
  define P where "P = \<lparr>cp_seg_size = seg_size, cp_green = False, cp_csid = (if ccsds then 2 else 1 :: u32), cp_per_checkpoint = per_checkpoint,
    cp_intermediate = (per_checkpoint > 0 \<and> session_size > per_checkpoint)\<rparr>"
  define c where "c = \<lparr>cut_buf = [], cut_unused = seg_size, cut_offset = 0, cut_session = session_init eng ses ckpt serial, cut_sent = []\<rparr>"
  obtain c' where b: "bundles = [] \<and> c' = c \<and> sent = [] \<and> s = session_init eng ses ckpt serial
      \<or> bundles_loop P bundles 0 False False c = Some (True, c') \<and> sent = cut_sent c' \<and> s = cut_session c'"
    using assms(1) by (auto simp: process_bundles_def P_def [symmetric] c_def [symmetric] split: option.splits if_splits)
  have c: "own_segs (eng, ses) (unat ckpt) (cp_csid P) c" by (simp add: own_segs_def c_def session_init_def)
  then have "own_segs (eng, ses) (unat ckpt) (cp_csid P) c'" using b own_bundles_loop [of P bundles 0 False False c] by (auto simp: P_def)
  then show ?thesis using b by (intro exI [of _ c']) (auto simp: P_def c_def)
qed

lemma bundles_addressed:
  assumes "process_bundles ccsds seg_size per_checkpoint session_size False bundles (session_init eng ses ckpt serial) = Some (sent, s)"
    and "d \<in> set sent"
  shows "addressed (eng, ses) (if ccsds then 2 else 1) d" and "unat (checkpoint_id d) \<le> unat ckpt + length sent"
  using bundles_own [OF assms(1)] assms(2) by (auto simp: own_segs_def)

lemma bundles_session_key:
  assumes "process_bundles ccsds seg_size per_checkpoint session_size False bundles (session_init eng ses ckpt serial) = Some (sent, s)"
  shows "sess_engine_id s = eng" "sess_session_id s = ses"
  using bundles_own [OF assms] by (auto simp: own_segs_def)

theorem bundles_cut_into_chunks_witness:
  "\<exists>sent s. process_bundles True 4 0 20 False [(False, [10, 11, 12, 13], demo_blocks)] (session_init 5 9 100 200) = Some (sent, s)
     \<and> map payload sent = [[1, 0x9f, 1, 2], [3, 10, 11, 12], [13, 0xff]] \<and> is_checkpoint (last sent)"
proof -
  have b: "session_block True [(False, [10, 11, 12, 13], demo_blocks)] = [1, 0x9f, 1, 2, 3, 10, 11, 12, 13, 0xff]"
    by (simp add: session_block_def bundle_bytes_def whole_bundle_def demo_blocks_def block_bytes_def)
  have c: "chunks 4 [1, 0x9f, 1, 2, 3, 10, 11, 12, 13, 0xff] = [[1, 0x9f, 1, 2], [3, 10, 11, 12], [13, 0xff]]"
    by (simp add: chunks.simps)
  have "\<forall>(v, pl, blocks) \<in> set [(False, [10, 11, 12, 13], demo_blocks)]. bundle_ok v pl blocks \<and> (\<forall>b \<in> set blocks. bi_locals b = None)"
    by (simp add: demo_blocks_def bundle_ok_def block_ok_def block_bytes_def last_only_def full_length_def)
  then have "\<exists>sent s. process_bundles True 4 0 20 False [(False, [10, 11, 12, 13], demo_blocks)] (session_init 5 9 100 200) = Some (sent, s)
      \<and> map payload sent = chunks 4 (session_block True [(False, [10, 11, 12, 13], demo_blocks)]) \<and> is_checkpoint (last sent)"
    using bundles_cut_into_chunks [of "[(False, [10, 11, 12, 13], demo_blocks)]" 4 True 0 20 5 9 100 200] b by fastforce
  then show ?thesis unfolding b c .
qed

end
