(* ===== verification/Ltp_Exchange.thy ===== *)
theory Ltp_Exchange
  imports Ltp_Receiver Ltp_Segmenter
begin

text \<open>
  The two ends of one LTP session and the network between them. The network may lose, repeat and reorder
  what is sent; timers may fire at any moment; the receiver may run out of storage and cancel. The main
  results: when the sender closes the session as completed, the receiver has handed the whole block to
  its bundle processor; and when nothing is lost, the session completes.
\<close>

section \<open>True reports\<close>

text \<open>A report whose packet names its session and makes claims that are all in \<open>B\<close>.\<close>

definition true_report :: "u64 set \<Rightarrow> ltp_report_segment \<Rightarrow> bool" where
  "true_report B r \<longleftrightarrow> (\<exists>s cbytes m. rs_ready s \<and> engine_id s = engine_id r \<and> session_id s = session_id r
     \<and> claims r = of_nat (length m) \<and> claims_true B (lower_bounds r) m
     \<and> packet r = packet (new_report_segment s (serial_number r) (checkpoint_id r) (lower_bounds r) (upper_bounds r) cbytes m))"

lemma claims_true_mono: "claims_true B lo m \<Longrightarrow> B \<subseteq> C \<Longrightarrow> claims_true C lo m"
  unfolding claims_true_def by blast

lemma true_report_mono: "true_report B r \<Longrightarrow> B \<subseteq> C \<Longrightarrow> true_report C r"
  unfolding true_report_def using claims_true_mono by blast

lemma true_report_deleted [simp]: "true_report B (r\<lparr>is_deleted := x\<rparr>) = true_report B r"
  by (simp add: true_report_def)

lemma encode_field_fields [simp]:
  fixes r :: ltp_report_segment
  shows "serial_number (encode_field n v r) = serial_number r" "checkpoint_id (encode_field n v r) = checkpoint_id r"
    "lower_bounds (encode_field n v r) = lower_bounds r" "upper_bounds (encode_field n v r) = upper_bounds r"
    "claims (encode_field n v r) = claims r" "is_deleted (encode_field n v r) = is_deleted r"
    "engine_id (encode_field n v r) = engine_id r" "session_id (encode_field n v r) = session_id r"
  by (simp_all add: encode_field_def split: option.split)

lemma encode_claims_fields [simp]:
  fixes r :: ltp_report_segment
  shows "serial_number (rs_encode_claims m lo r) = serial_number r" "checkpoint_id (rs_encode_claims m lo r) = checkpoint_id r"
    "lower_bounds (rs_encode_claims m lo r) = lower_bounds r" "upper_bounds (rs_encode_claims m lo r) = upper_bounds r"
    "claims (rs_encode_claims m lo r) = claims r" "is_deleted (rs_encode_claims m lo r) = is_deleted r"
    "engine_id (rs_encode_claims m lo r) = engine_id r" "session_id (rs_encode_claims m lo r) = session_id r"
  by (induction m lo r rule: rs_encode_claims.induct) (simp_all add: encode_field64_def)

lemma new_report_fields:
  fixes s :: ltp_report_segment
  assumes "r = new_report_segment s serial ckpt lower upper cbytes m"
  shows "serial_number r = serial" "checkpoint_id r = ckpt" "lower_bounds r = lower" "upper_bounds r = upper"
    "claims r = of_nat (length m)" "is_deleted r = is_deleted s" "engine_id r = engine_id s" "session_id r = session_id s"
  by (simp_all add: assms new_report_segment_def rs_encode_all_def rs_encode_counters_def create_ltp_header_def
      encode_field64_def append_byte_def)

lemma new_report_true:
  "rs_ready s \<Longrightarrow> claims_true B lower m \<Longrightarrow> true_report B (new_report_segment s serial ckpt lower upper cbytes m)"
  unfolding true_report_def by (intro exI [of _ s] exI [of _ cbytes] exI [of _ m]) (simp add: new_report_fields [OF refl])

definition true_reports :: "u64 set \<Rightarrow> (u64, ltp_report_segment) omap \<Rightarrow> bool" where
  "true_reports B m \<longleftrightarrow> (\<forall>k r. (k, r) \<in> set m \<longrightarrow> true_report B r)"

text \<open>The numbers of a report that the encoder supports.\<close>

definition report_in_range :: "ltp_report_segment \<Rightarrow> bool" where
  "report_in_range r \<longleftrightarrow> fits 8 (serial_number r) \<and> fits 8 (checkpoint_id r) \<and> fits 8 (lower_bounds r)
     \<and> fits 8 (upper_bounds r) \<and> unat (claims r) < 2 ^ 31"

lemma claim_bounds:
  assumes "claims_true B lo m" and "B \<subseteq> all_bytes blk" and "(c, l) \<in> set m" and "length blk < 2 ^ 63"
  shows "unat c + unat l \<le> length blk" and "0 < unat l"
proof -
  have c: "c < c + l" "{c..<c + l} \<subseteq> B" using assms(1,3) by (auto simp: claims_true_def)
  then have sum: "unat (c + l) = unat c + unat l" "0 < unat l"
    using no_olen_add_nat [of c l] by (auto simp: less_imp_le unat_word_ariths word_less_nat_alt)
  have nz: "c + l \<noteq> 0" using c(1) by auto
  have p: "unat (c + l - 1) + 1 = unat (c + l)" using unat_pred [OF nz] sum by simp
  have "c + l - 1 \<in> {c..<c + l}" using p sum by (simp add: word_le_nat_alt word_less_nat_alt del: sum)
  then have "unat (c + l - 1) < length blk" using c(2) assms(2) by (auto simp: all_bytes_def)
  moreover note p
  ultimately show "unat c + unat l \<le> length blk" "0 < unat l" using sum by simp_all
qed

lemma all_bytes_card: "finite (all_bytes blk)" "card (all_bytes blk) \<le> length blk"
proof -
  have "inj_on unat (all_bytes blk)" by (simp add: inj_on_def word_unat_eq_iff)
  moreover have "unat ` all_bytes blk \<subseteq> {..<length blk}" by (auto simp: all_bytes_def)
  ultimately show "card (all_bytes blk) \<le> length blk" by (metis card_image card_lessThan card_mono finite_lessThan)
qed simp

lemma rel_claims_wf:
  fixes m :: "(u64, u64) omap"
  shows "om_wf m \<Longrightarrow> \<forall>c l. (c, l) \<in> set m \<longrightarrow> lo \<le> c \<Longrightarrow> om_wf (rel_claims lo m)"
proof (induction m)
  case (Cons e m)
  obtain c l where e: "e = (c, l)" by (cases e)
  have less: "c - lo < c' - lo" if "(c', l') \<in> set m" for c' l'
  proof -
    have "lo \<le> c" "lo \<le> c'" "c < c'" using Cons.prems that e by force+
    then show ?thesis by (simp add: word_less_nat_alt word_le_nat_alt unat_sub_if')
  qed
  have "om_wf (rel_claims lo m)" by (rule Cons.IH) (use Cons.prems e in auto)
  then show ?case using less e by (force simp: rel_claims_def)
qed (simp add: rel_claims_def)

text \<open>Reading a true report gives true claims.\<close>

lemma report_read:
  assumes "true_report B r" and "report_in_range r" and "B \<subseteq> all_bytes blk" and "length blk < 2 ^ 56"
    and "rs_parse_buffer (packet r) blank_report_segment = Inr (v, rpt)"
  shows "\<exists>m. claims_true B (lower_bounds rpt) m \<and> claim_map rpt = rel_claims (lower_bounds rpt) m
    \<and> claimed_bytes rpt = sum_list (map snd m)" and "engine_id rpt = engine_id r" and "session_id rpt = session_id r"
proof -
  obtain s cbytes m where R: "rs_ready s" "claims r = of_nat (length m)" "claims_true B (lower_bounds r) m"
      "packet r = packet (new_report_segment s (serial_number r) (checkpoint_id r) (lower_bounds r) (upper_bounds r) cbytes m)"
      "engine_id s = engine_id r" "session_id s = session_id r"
    using assms(1) unfolding true_report_def by blast
  let ?lo = "lower_bounds r"
  have blk: "length blk < 2 ^ 63" using assms(4) by simp
  have m: "om_wf m" "\<forall>c l. (c, l) \<in> set m \<longrightarrow> ?lo \<le> c" using R(3) by (auto simp: claims_true_def)
  have "claims_fit ?lo m"
    unfolding claims_fit_def
  proof (clarify)
    fix c l assume mem: "(c, l) \<in> set m"
    have "unat (c - ?lo) \<le> unat c" using m(2) mem by (auto simp: unat_sub_if' word_le_nat_alt)
    then show "fits 8 (c - ?lo) \<and> fits 8 l" using claim_bounds [OF R(3) assms(3) mem blk] assms(4) by (simp add: fits_iff)
  qed
  moreover have "length m < 2 ^ 31"
  proof -
    have "distinct (map fst m)" using m(1) by (simp add: om_wf_def strict_sorted_iff)
    moreover have "fst ` set m \<subseteq> all_bytes blk" using claim_bounds [OF R(3) assms(3) _ blk] by (force simp: all_bytes_def)
    ultimately have "length m \<le> length blk"
      by (metis all_bytes_card card_mono distinct_card length_map list.set_map order.trans)
    then have "unat (of_nat (length m) :: u64) = length m" using assms(4) by (intro of_nat_u64) simp
    then show ?thesis using assms(2) R(2) by (simp add: report_in_range_def)
  qed
  ultimately obtain s' where s': "rs_parse_buffer (packet r) blank_report_segment = Inr (0, s')" "lower_bounds s' = ?lo"
      "claim_map s' = rel_claims ?lo m" "claimed_bytes s' = sum_list (map snd m)" "engine_id s' = engine_id r" "session_id s' = session_id r"
    using new_report_parse [of s "serial_number r" "checkpoint_id r" ?lo "upper_bounds r" m cbytes] R(1,4-6) assms(2) rel_claims_wf [OF m]
    by (auto simp: report_in_range_def)
  then show "\<exists>m. claims_true B (lower_bounds rpt) m \<and> claim_map rpt = rel_claims (lower_bounds rpt) m
    \<and> claimed_bytes rpt = sum_list (map snd m)" "engine_id rpt = engine_id r" "session_id rpt = session_id r"
    using assms(5) R(3) by (auto intro!: exI [of _ m])
qed

lemma in_claim_true:
  assumes "claims_true B (lower_bounds rpt) m" and "claim_map rpt = rel_claims (lower_bounds rpt) m" and "in_claim rpt d"
  shows "seg_range d \<subseteq> B"
proof -
  obtain c l where "(c, l) \<in> set m" "c \<le> start_byte d" "stop_byte d < c + l"
    using assms(2,3) by (auto simp: in_claim_def rel_claims_def)
  moreover from this have "{c..<c + l} \<subseteq> B" using assms(1) by (auto simp: claims_true_def)
  moreover have "seg_range d \<subseteq> {c..<c + l}" using calculation(2,3) by (auto simp: seg_range_def)
  ultimately show ?thesis by blast
qed

lemma entire_true:
  assumes "claims_true B (lower_bounds rpt) m" and "claim_map rpt = rel_claims (lower_bounds rpt) m"
    and "claimed_bytes rpt = sum_list (map snd m)" and "B \<subseteq> all_bytes blk" and "length blk < 2 ^ 63"
    and "claims_entire_session rpt s" and "expected_red_bytes s = of_nat (length blk)"
  shows "all_bytes blk \<subseteq> B"
proof -
  have "length m = 1" using assms(2,6) by (simp add: claims_entire_session_def rel_claims_def)
  then obtain c l where m: "m = [(c, l)]" by (cases m) auto
  then have "l = of_nat (length blk)" using assms(3,6,7) by (simp add: claims_entire_session_def)
  then have l: "unat l = length blk" using assms(5) by (simp add: of_nat_u64)
  have "c = 0" using claim_bounds(1) [OF assms(1,4) _ assms(5), of c l] m l by (simp add: unat_eq_0)
  moreover have "{c..<c + l} \<subseteq> B" using assms(1) m by (simp add: claims_true_def)
  ultimately show ?thesis using l by (auto simp: all_bytes_def word_less_nat_alt)
qed

section \<open>The session of the receiver\<close>

text \<open>
  A session that has received only pieces of the block, cut as the sender cut it, and whose reports are
  true of what it has.
\<close>

definition sess_ok :: "bytes \<Rightarrow> ltp_data_segment list \<Rightarrow> ltp_session \<Rightarrow> bool" where
  "sess_ok blk cuts s \<longleftrightarrow> reassembly_inv blk (s\<lparr>red_processed := False\<rparr>)
     \<and> (\<exists>seen. set seen \<subseteq> set cuts \<and> seg_bytes (red_segments s) = (\<Union>d \<in> set seen. seg_range d))
     \<and> \<not> green_complete s \<and> \<not> green_processed s \<and> fits 8 (sess_engine_id s) \<and> fits 8 (sess_session_id s)
     \<and> true_reports (seg_bytes (red_segments s)) (report_segments s)"

lemma sess_okD:
  assumes "sess_ok blk cuts s"
  shows "reassembly_inv blk (s\<lparr>red_processed := False\<rparr>)" "\<not> green_complete s" "\<not> green_processed s"
    "fits 8 (sess_engine_id s)" "fits 8 (sess_session_id s)"
    "true_reports (seg_bytes (red_segments s)) (report_segments s)"
  using assms unfolding sess_ok_def by blast+

lemma not_processed: "\<not> red_processed s \<Longrightarrow> s\<lparr>red_processed := False\<rparr> = s" for s :: ltp_session
  by (cases s) simp

lemma sess_ok_new: "fits 8 eng \<Longrightarrow> fits 8 ses \<Longrightarrow> sess_ok blk cuts (session_init eng ses ckpt serial)"
  using reassembly_init [of blk eng ses ckpt serial]
  by (simp add: sess_ok_def session_init_def seg_bytes_def true_reports_def exI [of _ "[]"])

lemma sess_ok_sub: "sess_ok blk cuts s \<Longrightarrow> seg_bytes (red_segments s) \<subseteq> all_bytes blk"
proof
  fix x assume ok: "sess_ok blk cuts s" and "x \<in> seg_bytes (red_segments s)"
  from this(2) obtain k d where d: "(k, d) \<in> set (red_segments s)" "x \<in> seg_range d" by (rule seg_bytesE)
  have "pieces_ok blk (red_segments s)" using reassembly_invD(2) [OF sess_okD(1) [OF ok]] by simp
  then have "piece blk d" using pieces_okD(3) d(1) by blast
  then show "x \<in> all_bytes blk" using d(2) piece_facts(6) by (fastforce simp: all_bytes_def piece_def)
qed

lemma contig_bytes: "sess_ok blk cuts s \<Longrightarrow> blk_bytes (red_contig_blocks s) = seg_bytes (red_segments s)"
  using reassembly_invD(3) [OF sess_okD(1)] by fastforce

text \<open>Changes that leave the received data alone.\<close>

definition same_receipt :: "ltp_session \<Rightarrow> ltp_session \<Rightarrow> bool" where
  "same_receipt s t \<longleftrightarrow> red_segments t = red_segments s \<and> red_contig_blocks t = red_contig_blocks s
     \<and> first_contiguous_bytes t = first_contiguous_bytes s \<and> red_eob_received t = red_eob_received s
     \<and> red_complete t = red_complete s \<and> green_complete t = green_complete s \<and> green_processed t = green_processed s
     \<and> red_processed t = red_processed s
     \<and> expected_red_bytes t = expected_red_bytes s \<and> red_bytes_received t = red_bytes_received s
     \<and> sess_engine_id t = sess_engine_id s \<and> sess_session_id t = sess_session_id s"

lemma same_receipt_refl [simp]: "same_receipt s s"
  by (simp add: same_receipt_def)

lemma same_receipt_trans: "same_receipt s t \<Longrightarrow> same_receipt t u \<Longrightarrow> same_receipt s u"
  by (simp add: same_receipt_def)

lemma sess_ok_same:
  assumes "same_receipt s t" and "sess_ok blk cuts s"
    and "true_reports (seg_bytes (red_segments s)) (report_segments t)"
  shows "sess_ok blk cuts t"
  using assms unfolding sess_ok_def same_receipt_def reassembly_inv_def by simp

lemma same_receipt_full: "same_receipt s t \<Longrightarrow> is_red_full t = is_red_full s"
  by (simp add: same_receipt_def is_red_full_def)

lemma make_report_ok:
  assumes "args_true B a" and "fits 8 (sess_engine_id s)" "fits 8 (sess_session_id s)" and "true_reports B (report_segments s)"
  shows "same_receipt s (make_report ckpt a s)" and "true_reports B (report_segments (make_report ckpt a s))"
proof -
  obtain lo hi n m where a: "a = (lo, hi, n, m)" by (metis prod_cases4)
  show "same_receipt s (make_report ckpt a s)"
    by (simp add: a make_report_def get_next_report_serial_number_def same_receipt_def Let_def)
  have "rs_ready (session_report_base s)" using assms(2,3) by (simp add: rs_ready_def session_report_base_def)
  moreover have "claims_true B lo m" using assms(1) unfolding a args_true_def by simp
  ultimately have "true_report B (new_report_segment (session_report_base s) ser ckpt lo hi n m)" for ser
    by (rule new_report_true)
  then show "true_reports B (report_segments (make_report ckpt a s))"
    using assms(4) by (auto simp: true_reports_def a make_report_def get_next_report_serial_number_def Let_def dest!: om_assign_mem)
qed

lemma make_reports_ok:
  assumes "\<forall>a \<in> set as. args_true B a" and "fits 8 (sess_engine_id s)" "fits 8 (sess_session_id s)"
    and "true_reports B (report_segments s)"
  shows "same_receipt s (fold (make_report ckpt) as s) \<and> true_reports B (report_segments (fold (make_report ckpt) as s))"
  using assms
proof (induction as arbitrary: s)
  case (Cons a as)
  let ?s = "make_report ckpt a s"
  have a: "args_true B a" using Cons.prems(1) by simp
  note M = make_report_ok [OF a Cons.prems(2-4), of ckpt]
  have "same_receipt ?s (fold (make_report ckpt) as ?s) \<and> true_reports B (report_segments (fold (make_report ckpt) as ?s))"
    by (rule Cons.IH) (use Cons.prems M in \<open>auto simp: same_receipt_def\<close>)
  then show ?case using M(1) same_receipt_trans by auto
qed auto

lemma report_plan_same [simp]:
  "report_plan (s\<lparr>ds_offset_to_upperbounds := u\<rparr>) = report_plan s" "report_plan (s\<lparr>red_processed := p\<rparr>) = report_plan s"
  by (intro ext, simp only: report_plan_def, simp)+

lemma have_report_ok:
  assumes "sess_ok blk cuts s" and "blk \<noteq> []" and "length blk < 2 ^ 63" and "0 < stop_byte ds + 1"
    and "have_report_segments_to_send ds segsize s = Some (found, n, s')"
  shows "same_receipt s s'" and "sess_ok blk cuts s'"
proof -
  let ?B = "seg_bytes (red_segments s)"
  let ?s1 = "s\<lparr>ds_offset_to_upperbounds := om_assign (offset ds) (stop_byte ds + 1) (ds_offset_to_upperbounds s)\<rparr>"
  note ok = sess_okD [OF assms(1)]
  have s1: "same_receipt s ?s1" "report_segments ?s1 = report_segments s" by (simp_all add: same_receipt_def)
  have gen: "same_receipt s s2 \<and> true_reports ?B (report_segments s2)"
    if g: "generate_report_segments (checkpoint_id ds) lower (stop_byte ds + 1) segsize ?s1 = Some (m, s2)" for lower m s2
  proof -
    obtain rs where p: "report_plan ?s1 lower (stop_byte ds + 1) segsize = Some (m, rs)" "s2 = fold (make_report (checkpoint_id ds)) rs ?s1"
      using g by (auto simp: generate_report_segments_def)
    have "report_plan (s\<lparr>red_processed := False\<rparr>) lower (stop_byte ds + 1) segsize = Some (m, rs)"
      using p(1) by simp
    from report_plan_true [OF ok(1) assms(2-4) this] have "\<forall>a \<in> set rs. args_true ?B a"
      using contig_bytes [OF assms(1)] by simp
    then show ?thesis
      using make_reports_ok [of rs ?B ?s1 "checkpoint_id ds"] ok(4-6) s1 p(2) same_receipt_trans by auto
  qed
  have "same_receipt s s' \<and> true_reports ?B (report_segments s')"
    using assms(5) gen s1 ok(6)
    by (auto simp: have_report_segments_to_send_def Let_def split: report_search.splits)
  then show "same_receipt s s'" "sess_ok blk cuts s'" using sess_ok_same [OF _ assms(1)] by auto
qed

text \<open>What the answer to a checkpoint sends is true, and the data stay as they are.\<close>

definition sends_reports :: "u64 set \<Rightarrow> rcv_effect list \<Rightarrow> bool" where
  "sends_reports B out \<longleftrightarrow> (\<forall>e \<in> set out. \<exists>r. e = Send (Seg_RS r) \<and> true_report B r)"

lemma answer_checkpoint_ok:
  assumes "sess_ok blk cuts (rcv_sess s)" and "blk \<noteq> []" and "length blk < 2 ^ 63" and "0 < stop_byte ds + 1"
    and "answer_checkpoint env ds s = Some (out, s')" and "\<not> is_ltp_cancelled s"
  shows "same_receipt (rcv_sess s) (rcv_sess s')" "sess_ok blk cuts (rcv_sess s')" "\<not> is_ltp_cancelled s'"
    "cancel_seg s' = cancel_seg s" "sends_reports (seg_bytes (red_segments (rcv_sess s))) out"
proof -
  let ?s = "s\<lparr>rcv_sess := session_set_checkpoint_id (checkpoint_id ds) (rcv_sess s)\<rparr>"
  have base: "same_receipt (rcv_sess s) (rcv_sess ?s)" "report_segments (rcv_sess ?s) = report_segments (rcv_sess s)"
    by (simp_all add: session_set_checkpoint_id_def same_receipt_def)
  then have okq: "sess_ok blk cuts (rcv_sess ?s)" using sess_ok_same [OF base(1) assms(1)] sess_okD(6) [OF assms(1)] by simp
  have "same_receipt (rcv_sess s) (rcv_sess s') \<and> sess_ok blk cuts (rcv_sess s') \<and> \<not> is_ltp_cancelled s' \<and> cancel_seg s' = cancel_seg s
    \<and> sends_reports (seg_bytes (red_segments (rcv_sess s))) out"
  proof (cases "is_checkpoint ds")
    case True
    then obtain found n s1 where h: "have_report_segments_to_send ds (env_seg_size env) (rcv_sess ?s) = Some (found, n, s1)"
      using assms(5) by (auto simp: answer_checkpoint_def generate_RS_def split: option.splits)
    define rpts where "rpts = (if found then filter (\<lambda>r. checkpoint_id r = checkpoint_id ds) (map snd (report_segments s1)) else [])"
    have r: "out = map (Send \<circ> Seg_RS) rpts" "s' = ?s\<lparr>rcv_sess := s1, sess_state := (if rpts = [] then sess_state ?s else STATE_RS)\<rparr>"
      using assms(5) True h by (simp_all add: answer_checkpoint_def generate_RS_def rpts_def Let_def)
    have H: "same_receipt (rcv_sess ?s) s1" "sess_ok blk cuts s1" using have_report_ok [OF okq assms(2-4) h] by auto
    have B: "seg_bytes (red_segments s1) = seg_bytes (red_segments (rcv_sess s))" using H(1) base(1) by (simp add: same_receipt_def)
    have "sends_reports (seg_bytes (red_segments (rcv_sess s))) out"
      using sess_okD(6) [OF H(2)] unfolding B by (force simp: sends_reports_def true_reports_def r(1) rpts_def)
    then show ?thesis using H base(1) same_receipt_trans assms(6) r(2) by (auto simp: is_ltp_cancelled_def)
  next
    case False
    then show ?thesis using assms by (simp add: answer_checkpoint_def sends_reports_def)
  qed
  then show "same_receipt (rcv_sess s) (rcv_sess s')" "sess_ok blk cuts (rcv_sess s')" "\<not> is_ltp_cancelled s'"
    "cancel_seg s' = cancel_seg s" "sends_reports (seg_bytes (red_segments (rcv_sess s))) out" by auto
qed

section \<open>Adding a segment\<close>

lemma add_frame:
  assumes "add_segment_incoming fuel d True s = Some (v, s')" and "red_green_none d = RED_SEGMENT"
  shows "report_segments s' = report_segments s" "green_complete s' = green_complete s" "green_processed s' = green_processed s"
    "red_processed s' = red_processed s" "sess_engine_id s' = sess_engine_id s" "sess_session_id s' = sess_session_id s"
  using assms
  by (auto simp: add_segment_incoming_def check_and_trim_def store_red_def Let_def split: if_splits option.splits prod.splits)

text \<open>Replacing stored segments by others that differ in their headers only.\<close>

definition retag :: "(ltp_data_segment \<Rightarrow> ltp_data_segment) \<Rightarrow> ds_map \<Rightarrow> ds_map" where
  "retag f m = map (\<lambda>(k, d). (k, f d)) m"

lemma retag_ok:
  assumes "reassembly_inv blk s"
    and f: "\<And>d. start_byte (f d) = start_byte d \<and> stop_byte (f d) = stop_byte d \<and> payload (f d) = payload d
      \<and> payload_length (f d) = payload_length d \<and> red_green_none (f d) = red_green_none d
      \<and> is_redendofblock (f d) = is_redendofblock d \<and> is_greenendofblock (f d) = is_greenendofblock d"
  shows "reassembly_inv blk (s\<lparr>red_segments := retag f (red_segments s)\<rparr>)"
    and "seg_bytes (retag f (red_segments s)) = seg_bytes (red_segments s)"
proof -
  have p: "piece blk (f d) = piece blk d" "seg_range (f d) = seg_range d" for d
    using f [of d] by (simp_all add: piece_def seg_range_def)
  have keys: "map fst (retag f m) = map fst m" for m by (simp add: retag_def case_prod_unfold comp_def)
  have mem: "(k, e) \<in> set (retag f m) \<longleftrightarrow> (\<exists>d. (k, d) \<in> set m \<and> e = f d)" for k e m by (force simp: retag_def)
  have view: "seg_view (retag f m) = seg_view m" for m using f by (simp add: seg_view_def retag_def case_prod_unfold comp_def)
  show bytes: "seg_bytes (retag f (red_segments s)) = seg_bytes (red_segments s)"
    by (simp add: seg_bytes_def retag_def p case_prod_unfold)
  have "pieces_ok blk (retag f (red_segments s))"
    using reassembly_invD(2) [OF assms(1)] f unfolding pieces_ok_def om_wf_def keys mem by (metis p)
  then show "reassembly_inv blk (s\<lparr>red_segments := retag f (red_segments s)\<rparr>)"
    using assms(1) f unfolding reassembly_inv_def by (simp add: bytes view mem) metis
qed

lemma note_endofblock_ok:
  assumes "reassembly_inv blk s" and "(start_byte d, d) \<in> set (red_segments s)" and "piece blk d"
  shows "reassembly_inv blk (note_endofblock d s)" and "seg_bytes (red_segments (note_endofblock d s)) = seg_bytes (red_segments s)"
    and "report_segments (note_endofblock d s) = report_segments s" "green_complete (note_endofblock d s) = green_complete s"
    "green_processed (note_endofblock d s) = green_processed s" "red_processed (note_endofblock d s) = red_processed s"
    "sess_engine_id (note_endofblock d s) = sess_engine_id s" "sess_session_id (note_endofblock d s) = sess_session_id s"
proof -
  note I = reassembly_invD [OF assms(1)]
  define f where "f e = (if e = d then set_endofblock d else e)" for e
  have eq: "note_endofblock d s = s\<lparr>red_segments := retag f (red_segments s)\<rparr>" if eob: "is_endofblock d"
  proof -
    have red: "is_red d" "is_redendofblock d" using assms(3) eob by (simp_all add: piece_def is_red_def is_endofblock_def)
    have "unat (stop_byte d) + 1 = length blk" using piece_facts(2) [OF assms(3)] assms(3) red(2) by (simp add: piece_def)
    then have "unat (expected_red_bytes s) = unat (stop_byte d + 1)"
      using I(5) [OF assms(2)] I(6) piece_facts(2,3) [OF assms(3)] by simp
    then have "expected_red_bytes s = stop_byte d + 1" by (simp add: word_unat_eq_iff)
    moreover have "red_complete s" using I(7,8) assms(2) red(2) by blast
    ultimately have same: "s\<lparr>expected_red_bytes := stop_byte d + 1, red_complete := True\<rparr> = s" by (intro ltp_session.equality) simp_all
    have "om_modify (start_byte d) (\<lambda>_. set_endofblock d) (red_segments s) = retag f (red_segments s)"
      unfolding om_modify_def retag_def
    proof (rule map_cong [OF refl])
      fix e assume e: "e \<in> set (red_segments s)"
      obtain k x where kx: "e = (k, x)" by (cases e)
      have "k = start_byte d \<longleftrightarrow> x = d"
      proof
        have k: "(k, x) \<in> set (red_segments s)" using e kx by simp
        assume "k = start_byte d"
        then show "x = d" using om_find_mem [OF pieces_okD(1) [OF I(2)] assms(2)] om_find_mem [OF pieces_okD(1) [OF I(2)] k]
          by (metis option.inject)
      next
        assume "x = d"
        then show "k = start_byte d" using pieces_okD(2) [OF I(2), of k x] e kx by blast
      qed
      then show "(case e of (a, b) \<Rightarrow> if a = start_byte d then (a, set_endofblock d) else (a, b)) = (case e of (k, d) \<Rightarrow> (k, f d))"
        by (simp add: kx f_def)
    qed
    then show ?thesis using eob red same by (simp add: note_endofblock_def set_eob_def Let_def)
  qed
  have f: "is_endofblock d \<Longrightarrow> start_byte (f e) = start_byte e \<and> stop_byte (f e) = stop_byte e \<and> payload (f e) = payload e
      \<and> payload_length (f e) = payload_length e \<and> red_green_none (f e) = red_green_none e
      \<and> is_redendofblock (f e) = is_redendofblock e \<and> is_greenendofblock (f e) = is_greenendofblock e" for e
    using assms(3) by (simp add: f_def set_endofblock_def set_control_def piece_def is_red_def is_endofblock_def)
  have other: "note_endofblock d s = s" if "\<not> is_endofblock d" using that by (simp add: note_endofblock_def)
  show "reassembly_inv blk (note_endofblock d s)" "seg_bytes (red_segments (note_endofblock d s)) = seg_bytes (red_segments s)"
    using retag_ok [OF assms(1) f] eq other assms(1) by (cases "is_endofblock d"; simp)+
  show "report_segments (note_endofblock d s) = report_segments s" "green_complete (note_endofblock d s) = green_complete s"
    "green_processed (note_endofblock d s) = green_processed s" "red_processed (note_endofblock d s) = red_processed s"
    "sess_engine_id (note_endofblock d s) = sess_engine_id s" "sess_session_id (note_endofblock d s) = sess_session_id s"
    using eq other by (cases "is_endofblock d"; simp)+
qed

text \<open>A piece that was cut as the sender cut the block is new or has been seen, and is never trimmed.\<close>

lemma add_piece:
  assumes "sess_ok blk cuts s" and "\<not> red_processed s" and "piece blk d" and "c \<in> set cuts" "seg_range c = seg_range d"
    and "same_cuts cuts"
  shows "incoming_segment fuel d s = d"
    and "add_segment_incoming fuel d True s = Some (-1, s) \<and> seg_range d \<subseteq> seg_bytes (red_segments s)
      \<or> (\<exists>s'. add_segment_incoming fuel d True s = Some (0, s') \<and> sess_ok blk cuts (note_endofblock d s')
            \<and> \<not> red_processed (note_endofblock d s')
            \<and> seg_bytes (red_segments (note_endofblock d s')) = seg_bytes (red_segments s) \<union> seg_range d)"
proof -
  have inv: "reassembly_inv blk s" using sess_okD(1) [OF assms(1)] not_processed [OF assms(2)] by simp
  note I = reassembly_invD [OF inv]
  obtain seen where seen: "set seen \<subseteq> set cuts" "seg_bytes (red_segments s) = (\<Union>d \<in> set seen. seg_range d)"
    using assms(1) unfolding sess_ok_def by blast
  have cases: "seg_range d \<subseteq> seg_bytes (red_segments s) \<or> seg_range d \<inter> seg_bytes (red_segments s) = {}"
    using assms(4-6) seen unfolding same_cuts_def by (smt (verit, ccfv_threshold) UN_iff disjoint_iff subsetD subsetI)
  have red: "red_green_none d = RED_SEGMENT" using assms(3) by (simp add: piece_def)
  note pf = piece_facts [OF assms(3)]
  show "incoming_segment fuel d s = d"
    using cases
  proof
    assume "seg_range d \<subseteq> seg_bytes (red_segments s)"
    then show ?thesis using check_red_contig_blocks_seen [OF I(1) pf(4)] I(3) red
      by (simp add: incoming_segment_def seg_range_def)
  next
    assume "seg_range d \<inter> seg_bytes (red_segments s) = {}"
    then have "{start_byte d..stop_byte d} \<inter> blk_bytes (red_contig_blocks s) = {}" using I(3) by (simp add: seg_range_def)
    then show ?thesis using check_red_contig_blocks_new [OF I(1) pf(4,5)] red by (auto simp: incoming_segment_def)
  qed
  show "add_segment_incoming fuel d True s = Some (-1, s) \<and> seg_range d \<subseteq> seg_bytes (red_segments s)
      \<or> (\<exists>s'. add_segment_incoming fuel d True s = Some (0, s') \<and> sess_ok blk cuts (note_endofblock d s')
            \<and> \<not> red_processed (note_endofblock d s')
            \<and> seg_bytes (red_segments (note_endofblock d s')) = seg_bytes (red_segments s) \<union> seg_range d)"
    using cases
  proof
    assume "seg_range d \<subseteq> seg_bytes (red_segments s)"
    then show ?thesis using add_seen_piece [OF inv assms(3)] by blast
  next
    assume dis: "seg_range d \<inter> seg_bytes (red_segments s) = {}"
    obtain s' where a: "add_segment_incoming fuel d True s = Some (0, s')" "reassembly_inv blk s'"
        "seg_bytes (red_segments s') = seg_bytes (red_segments s) \<union> seg_range d" "(start_byte d, d) \<in> set (red_segments s')"
      using add_new_piece [OF inv assms(3) dis, of fuel] om_assign_has by metis
    note F = add_frame [OF a(1) red]
    note N = note_endofblock_ok [OF a(2,4) assms(3)]
    have np: "\<not> red_processed (note_endofblock d s')" using N(6) F(4) assms(2) by simp
    then have "(note_endofblock d s')\<lparr>red_processed := False\<rparr> = note_endofblock d s'" by (rule not_processed)
    moreover have "\<exists>seen. set seen \<subseteq> set cuts \<and> seg_bytes (red_segments (note_endofblock d s')) = (\<Union>d \<in> set seen. seg_range d)"
      using seen assms(4,5) a(3) N(2) by (intro exI [of _ "c # seen"]) auto
    moreover have "true_reports (seg_bytes (red_segments (note_endofblock d s'))) (report_segments (note_endofblock d s'))"
      using sess_okD(6) [OF assms(1)] N(2,3) F(1) a(3) true_report_mono by (fastforce simp: true_reports_def)
    ultimately have "sess_ok blk cuts (note_endofblock d s')"
      using N F sess_okD(2-5) [OF assms(1)] unfolding sess_ok_def by simp
    then show ?thesis using a(1,3) N(2) np by auto
  qed
qed

section \<open>The handler of data segments\<close>

text \<open>What is posted is the block; what is sent are reports that are true of \<open>B\<close>.\<close>

definition good_effect :: "bytes \<Rightarrow> u64 set \<Rightarrow> rcv_effect \<Rightarrow> bool" where
  "good_effect blk B e =
     (case e of
        Send seg \<Rightarrow> (case seg of Seg_RS r \<Rightarrow> true_report B r | _ \<Rightarrow> False)
      | Post segs n multi \<Rightarrow> concat (map (payload \<circ> snd) segs) = blk \<and> n = of_nat (length blk))"

definition posts :: "rcv_effect list \<Rightarrow> (ds_map \<times> u64 \<times> bool) set" where
  "posts out = {(segs, n, multi). Post segs n multi \<in> set out}"

lemma sends_good: "sends_reports B out \<Longrightarrow> \<forall>e \<in> set out. good_effect blk B e" "sends_reports B out \<Longrightarrow> posts out = {}"
  by (force simp: sends_reports_def good_effect_def, force simp: sends_reports_def posts_def)

lemma no_green: "\<not> green_complete (rcv_sess s) \<Longrightarrow> finish_green env multi s = ([], s, False)"
  by (simp add: finish_green_def is_green_full_def)

text \<open>
  An open session that has not been processed misses a byte. After a data segment it has been cancelled
  for lack of room, without a report; or it has grown, what it sends is true of it, and the block is
  posted as soon as no byte is missing.
\<close>

definition rcv_ok :: "bytes \<Rightarrow> ltp_data_segment list \<Rightarrow> rcv_session \<Rightarrow> bool" where
  "rcv_ok blk cuts s \<longleftrightarrow> sess_ok blk cuts (rcv_sess s)
     \<and> (\<not> red_processed (rcv_sess s) \<longrightarrow> seg_bytes (red_segments (rcv_sess s)) \<noteq> all_bytes blk)"

abbreviation held :: "rcv_session \<Rightarrow> u64 set" where
  "held s \<equiv> seg_bytes (red_segments (rcv_sess s))"

definition segment_outcome :: "bytes \<Rightarrow> ltp_data_segment list \<Rightarrow> rcv_session \<Rightarrow> rcv_effect list \<Rightarrow> rcv_session \<Rightarrow> bool" where
  "segment_outcome blk cuts s out s' \<longleftrightarrow>
     is_ltp_cancelled s' \<and> (\<exists>c. out = [Send (Seg_CS c)])
     \<or> \<not> is_ltp_cancelled s' \<and> cancel_seg s' = cancel_seg s \<and> rcv_ok blk cuts s' \<and> held s \<subseteq> held s'
       \<and> (\<forall>e \<in> set out. good_effect blk (held s') e)
       \<and> (red_processed (rcv_sess s') = (red_processed (rcv_sess s) \<or> posts out \<noteq> {}))"

lemma checkpoint_outcome:
  assumes "rcv_ok blk cuts s" and "blk \<noteq> []" and "length blk < 2 ^ 63" and "0 < stop_byte ds + 1"
    and "answer_checkpoint env ds (s\<lparr>sess_state := STATE_DS\<rparr>) = Some (out, s')"
  shows "segment_outcome blk cuts s out s'"
proof -
  let ?s = "s\<lparr>sess_state := STATE_DS\<rparr>"
  have ok: "sess_ok blk cuts (rcv_sess ?s)" "\<not> is_ltp_cancelled ?s" using assms(1) by (simp_all add: rcv_ok_def is_ltp_cancelled_def)
  note A = answer_checkpoint_ok [OF ok(1) assms(2-5) ok(2)]
  have "red_segments (rcv_sess s') = red_segments (rcv_sess s)" "red_processed (rcv_sess s') = red_processed (rcv_sess s)"
    using A(1) by (simp_all add: same_receipt_def)
  then show ?thesis
    using A(2-4) sends_good [OF A(5)] assms(1) by (simp add: segment_outcome_def rcv_ok_def)
qed

lemma after_adding_outcome:
  assumes "sess_ok blk cuts (note_endofblock d (rcv_sess s))" and "\<not> red_processed (note_endofblock d (rcv_sess s))"
    and "held s0 \<subseteq> seg_bytes (red_segments (note_endofblock d (rcv_sess s)))" and "\<not> red_processed (rcv_sess s0)"
    and "\<not> is_ltp_cancelled s" "cancel_seg s = cancel_seg s0"
    and "blk \<noteq> []" and "length blk < 2 ^ 63" and "piece blk d"
    and "after_adding env d s = Some (out, s', gone)"
  shows "\<not> gone" and "segment_outcome blk cuts s0 out s'"
proof -
  define s1 where "s1 = s\<lparr>rcv_sess := note_endofblock d (rcv_sess s)\<rparr>"
  have ok: "sess_ok blk cuts (rcv_sess s1)" "\<not> red_processed (rcv_sess s1)" "\<not> is_ltp_cancelled s1"
    using assms(1,2,5) by (simp_all add: s1_def is_ltp_cancelled_def)
  have inv: "reassembly_inv blk (rcv_sess s1)" using sess_okD(1) [OF ok(1)] not_processed [OF ok(2)] by simp
  have full: "is_red_full (rcv_sess s1) = (if held s1 = all_bytes blk then of_nat (length blk) else 0)"
    by (rule reassembly_full [OF inv assms(7,8)])
  have len: "unat (of_nat (length blk) :: u64) = length blk" by (rule of_nat_u64) (use assms(8) in simp)
  then have pos: "(0 :: u64) < of_nat (length blk)" using assms(7) by (simp add: word_less_nat_alt)
  have stop: "0 < stop_byte d + 1" using piece_facts(3) [OF assms(9)] assms(9) by (simp add: piece_def word_less_nat_alt)
  note unf = assms(10) [unfolded after_adding_def Let_def, folded s1_def]
  have "\<not> gone \<and> segment_outcome blk cuts s0 out s'"
  proof (cases "is_red_full (rcv_sess s1) > 0 \<and> \<not> (env_queue_ok env \<and> env_reserve env (is_red_full (rcv_sess s1)))")
    case True
    then have "out = [Send (Seg_CS (new_cancel_segment (session_cancel_base (rcv_sess s1)) LTP_SEGMENT_CS_BR REASON_SYS_CNCLD))]"
        "is_ltp_cancelled s'" "\<not> gone"
      using unf ok(3) by (auto simp: build_CS_for_session_def is_ltp_cancelled_def Let_def)
    then show ?thesis by (auto simp: segment_outcome_def)
  next
    case False
    then obtain out1 s2 where a: "answer_checkpoint env d s1 = Some (out1, s2)" using unf by (auto split: option.splits if_splits)
    note A = answer_checkpoint_ok [OF ok(1) assms(7,8) stop a ok(3)]
    have same: "held s2 = held s1" "\<not> red_processed (rcv_sess s2)" using A(1) ok(2) by (simp_all add: same_receipt_def)
    note good = sends_good [OF A(5)]
    have sub: "held s0 \<subseteq> held s1" using assms(3) by (simp add: s1_def)
    have can: "cancel_seg s2 = cancel_seg s0" using A(4) assms(6) by (simp add: s1_def)
    show ?thesis
    proof (cases "is_red_full (rcv_sess s1) > 0")
      case True
      then have all: "held s1 = all_bytes blk" "is_red_full (rcv_sess s1) = of_nat (length blk)" using full by (auto split: if_splits)
      have "is_red_full (rcv_sess s2) > 0" using same_receipt_full [OF A(1)] True by simp
      then have g: "get_all_red_data (rcv_sess s2) = Some (red_segments (rcv_sess s2), (rcv_sess s2)\<lparr>red_processed := True\<rparr>)"
        by (simp add: get_all_red_data_def)
      have ng: "\<not> green_complete (rcv_sess (s2\<lparr>rcv_sess := (rcv_sess s2)\<lparr>red_processed := True\<rparr>\<rparr>))" using sess_okD(2) [OF A(2)] by simp
      have res: "out = out1 @ [Post (red_segments (rcv_sess s2)) (of_nat (length blk)) (client_service_id d = 2)]"
          "s' = s2\<lparr>rcv_sess := (rcv_sess s2)\<lparr>red_processed := True\<rparr>\<rparr>" "\<not> gone"
        using unf False True a g no_green [OF ng] all(2) by auto
      have "pieces_ok blk (red_segments (rcv_sess s2))" using reassembly_invD(2) [OF sess_okD(1) [OF A(2)]] by simp
      then have blk: "concat (map (payload \<circ> snd) (red_segments (rcv_sess s2))) = blk"
        using pieces_concat assms(8) all(1) same(1) by blast
      have "sess_ok blk cuts (rcv_sess s')" using A(2) by (simp add: res(2) sess_ok_def)
      moreover have "posts out \<noteq> {}" by (auto simp: posts_def res(1))
      moreover have "\<forall>e \<in> set out. good_effect blk (held s') e"
        using good(1) blk same(1) by (auto simp: res(1,2)) (simp add: good_effect_def)
      ultimately show ?thesis
        using res(2,3) A(3) can sub same(1) by (simp add: segment_outcome_def rcv_ok_def is_ltp_cancelled_def)
    next
      case z: False
      then have nz: "held s1 \<noteq> all_bytes blk" using full pos by auto
      have res: "out = out1" "s' = s2" "\<not> gone" using unf False z a no_green [OF sess_okD(2) [OF A(2)]] by auto
      then show ?thesis
        using A(2,3) good nz same can sub assms(4) by (simp add: segment_outcome_def rcv_ok_def)
    qed
  qed
  then show "\<not> gone" "segment_outcome blk cuts s0 out s'" by auto
qed

lemma data_segment_outcome:
  assumes "rcv_ok blk cuts s" and "blk \<noteq> []" and "piece blk d" and "c \<in> set cuts" "seg_range c = seg_range d"
    and "same_cuts cuts" and "client_service_id d = 1 \<or> client_service_id d = 2"
    and "process_incoming_data_segment env d s = Some (out, s', gone)"
  shows "\<not> gone" and "segment_outcome blk cuts s out s'"
proof -
  let ?s = "s\<lparr>sess_state := STATE_DS\<rparr>"
  have blk: "length blk < 2 ^ 63" using assms(3) by (simp add: piece_def)
  have stop: "0 < stop_byte d + 1" using piece_facts(3) [OF assms(3)] assms(3) by (simp add: piece_def word_less_nat_alt)
  have ok: "sess_ok blk cuts (rcv_sess s)" "\<not> green_processed (rcv_sess s)" using assms(1) sess_okD(3) by (auto simp: rcv_ok_def)
  have "\<not> gone \<and> segment_outcome blk cuts s out s'"
  proof (cases "red_processed (rcv_sess s)")
    case True
    then have "answer_checkpoint env d ?s = Some (out, s')" "\<not> gone"
      using assms(7,8) by (auto simp: process_incoming_data_segment_def data_processed_def)
    then show ?thesis using checkpoint_outcome [OF assms(1,2) blk stop] by blast
  next
    case False
    note P = add_piece [OF ok(1) False assms(3-6), of "env_fuel env"]
    have unf: "process_incoming_data_segment env d s = (case add_segment_incoming (env_fuel env) d True (rcv_sess s) of
        None \<Rightarrow> None
      | Some (result, sess1) \<Rightarrow>
          if result = -1 then map_option (\<lambda>(out, s1). (out, s1, False)) (answer_checkpoint env d (?s\<lparr>rcv_sess := sess1\<rparr>))
          else after_adding env d (?s\<lparr>rcv_sess := sess1\<rparr>))"
      using assms(7) False ok(2) P(1) by (auto simp: process_incoming_data_segment_def data_processed_def Let_def split: option.splits)
    from P(2) show ?thesis
    proof
      assume seen: "add_segment_incoming (env_fuel env) d True (rcv_sess s) = Some (-1, rcv_sess s) \<and> seg_range d \<subseteq> held s"
      then have "answer_checkpoint env d ?s = Some (out, s')" "\<not> gone" using assms(8) unf by auto
      then show ?thesis using checkpoint_outcome [OF assms(1,2) blk stop] by blast
    next
      assume "\<exists>s'. add_segment_incoming (env_fuel env) d True (rcv_sess s) = Some (0, s') \<and> sess_ok blk cuts (note_endofblock d s')
            \<and> \<not> red_processed (note_endofblock d s') \<and> seg_bytes (red_segments (note_endofblock d s')) = held s \<union> seg_range d"
      then obtain s1 where s1: "add_segment_incoming (env_fuel env) d True (rcv_sess s) = Some (0, s1)" "sess_ok blk cuts (note_endofblock d s1)"
        "\<not> red_processed (note_endofblock d s1)" "seg_bytes (red_segments (note_endofblock d s1)) = held s \<union> seg_range d" by blast
      let ?t = "?s\<lparr>rcv_sess := s1\<rparr>"
      have t: "rcv_sess ?t = s1" "\<not> is_ltp_cancelled ?t" "cancel_seg ?t = cancel_seg s" by (simp_all add: is_ltp_cancelled_def)
      have "after_adding env d ?t = Some (out, s', gone)" using assms(8) unf s1(1) by simp
      moreover have "held s \<subseteq> seg_bytes (red_segments (note_endofblock d (rcv_sess ?t)))" using s1(4) t(1) by simp
      ultimately show ?thesis
        using after_adding_outcome [of blk cuts d ?t s env out s' gone] s1(2,3) t False assms(2,3) blk by simp
    qed
  qed
  then show "\<not> gone" "segment_outcome blk cuts s out s'" by auto
qed

section \<open>The receiver\<close>

text \<open>
  \<open>G\<close> are the bytes that reports may have claimed. Until the block is posted, some byte is not among
  them, and an open session holds exactly these bytes; a session that was cancelled makes no more reports.
\<close>

definition rcv_inv :: "bytes \<Rightarrow> ltp_data_segment list \<Rightarrow> session_key \<Rightarrow> u64 set \<Rightarrow> bool \<Rightarrow> bool \<Rightarrow> ltp_receiver \<Rightarrow> bool" where
  "rcv_inv blk cuts key G posted cancels r \<longleftrightarrow>
     G \<subseteq> all_bytes blk \<and> (posted \<longleftrightarrow> G = all_bytes blk)
     \<and> (\<forall>n. closed_session_map r (snd key) = Some n \<longrightarrow>
          unat n \<le> length blk \<and> (n \<noteq> 0 \<longrightarrow> posted) \<and> incoming_sessions r key = None)
     \<and> (\<forall>s. incoming_sessions r key = Some s \<longrightarrow> (cancel_seg s \<noteq> None \<longrightarrow> is_ltp_cancelled s)
          \<and> (\<not> is_ltp_cancelled s \<longrightarrow> rcv_ok blk cuts s
               \<and> (\<not> posted \<longrightarrow> held s = G \<and> \<not> red_processed (rcv_sess s) \<and> \<not> cancels)))
     \<and> (incoming_sessions r key = None \<longrightarrow> closed_session_map r (snd key) = None \<longrightarrow> \<not> posted \<longrightarrow> G = {} \<and> \<not> cancels)"

lemma rcv_invD:
  assumes "rcv_inv blk cuts key G posted cancels r"
  shows "G \<subseteq> all_bytes blk" "posted \<longleftrightarrow> G = all_bytes blk"
    "closed_session_map r (snd key) = Some n \<Longrightarrow> unat n \<le> length blk \<and> (n \<noteq> 0 \<longrightarrow> posted) \<and> incoming_sessions r key = None"
    "incoming_sessions r key = Some s \<Longrightarrow> (cancel_seg s \<noteq> None \<longrightarrow> is_ltp_cancelled s)
       \<and> (\<not> is_ltp_cancelled s \<longrightarrow> rcv_ok blk cuts s
            \<and> (\<not> posted \<longrightarrow> held s = G \<and> \<not> red_processed (rcv_sess s) \<and> \<not> cancels))"
    "incoming_sessions r key = None \<Longrightarrow> closed_session_map r (snd key) = None \<Longrightarrow> \<not> posted \<Longrightarrow> G = {} \<and> \<not> cancels"
proof -
  show "G \<subseteq> all_bytes blk" "posted \<longleftrightarrow> G = all_bytes blk" using assms unfolding rcv_inv_def by simp_all
  show "closed_session_map r (snd key) = Some n \<Longrightarrow> unat n \<le> length blk \<and> (n \<noteq> 0 \<longrightarrow> posted) \<and> incoming_sessions r key = None"
    using assms unfolding rcv_inv_def by (simp, blast)
  show "incoming_sessions r key = None \<Longrightarrow> closed_session_map r (snd key) = None \<Longrightarrow> \<not> posted \<Longrightarrow> G = {} \<and> \<not> cancels"
    using assms unfolding rcv_inv_def by simp
qed (use assms in \<open>simp add: rcv_inv_def\<close>)

definition cancels_in :: "rcv_effect list \<Rightarrow> bool" where
  "cancels_in out \<longleftrightarrow> (\<exists>c. Send (Seg_CS c) \<in> set out)"

text \<open>A step of the receiver keeps this, with what it sends counted in.\<close>

definition rcv_good :: "bytes \<Rightarrow> ltp_data_segment list \<Rightarrow> session_key \<Rightarrow> u64 set \<Rightarrow> bool \<Rightarrow> bool \<Rightarrow> rcv_effect list \<Rightarrow> ltp_receiver \<Rightarrow> bool" where
  "rcv_good blk cuts key G posted cancels out r \<longleftrightarrow>
     (\<exists>G'. G \<subseteq> G' \<and> rcv_inv blk cuts key G' (posted \<or> posts out \<noteq> {}) (cancels \<or> cancels_in out) r
        \<and> (\<forall>q. Send (Seg_RS q) \<in> set out \<longrightarrow> true_report G' q)
        \<and> (\<forall>(segs, n, multi) \<in> posts out. concat (map (payload \<circ> snd) segs) = blk \<and> n = of_nat (length blk)))"

lemma rcv_goodI:
  assumes "rcv_inv blk cuts key G posted (cancels \<or> cancels_in out) r" and "posts out = {}"
    and "\<And>q. Send (Seg_RS q) \<in> set out \<Longrightarrow> true_report G q"
  shows "rcv_good blk cuts key G posted cancels out r"
  unfolding rcv_good_def using assms by (intro exI [of _ G]) auto

lemma rcv_quiet: "rcv_inv blk cuts key G posted cancels r \<Longrightarrow> rcv_good blk cuts key G posted cancels [] r"
  by (rule rcv_goodI) (simp_all add: posts_def cancels_in_def)

lemma effect_sets [simp]:
  "posts [] = {}" "posts (Send seg # out) = posts out" "\<not> cancels_in []" "cancels_in (Send (Seg_CS c) # out)"
  "cancels_in (Send (Seg_CAS a) # out) = cancels_in out" "cancels_in (Send (Seg_RS q) # out) = cancels_in out"
  by (auto simp: posts_def cancels_in_def)

text \<open>Erasing a session that was processed or cancelled.\<close>

lemma erase_inv:
  assumes "rcv_inv blk cuts key G posted cancels r"
    and "is_ltp_cancelled s \<or> posted \<and> unat (red_bytes_received (rcv_sess s)) \<le> length blk"
  shows "rcv_inv blk cuts key G posted cancels' (erase_incoming_session key s r)"
  using rcv_invD(1,2) [OF assms(1)] assms(2) unfolding rcv_inv_def by (auto simp: erase_incoming_session_def)

lemma put_inv:
  assumes "rcv_inv blk cuts key G posted cancels r" and "incoming_sessions r key \<noteq> None \<or> closed_session_map r (snd key) = None"
    and "cancel_seg s \<noteq> None \<Longrightarrow> is_ltp_cancelled s" and "G \<subseteq> G'" and "G' \<subseteq> all_bytes blk" and "posted' \<longleftrightarrow> G' = all_bytes blk"
    and "posted \<Longrightarrow> posted'"
    and "\<not> is_ltp_cancelled s \<Longrightarrow> rcv_ok blk cuts s
            \<and> (\<not> posted' \<longrightarrow> held s = G' \<and> \<not> red_processed (rcv_sess s) \<and> \<not> cancels')"
  shows "rcv_inv blk cuts key G' posted' cancels' (put_session key s r)"
proof -
  have "closed_session_map r (snd key) = None" using assms(2) rcv_invD(3) [OF assms(1)] by (cases "closed_session_map r (snd key)") auto
  then show ?thesis using assms(3-) unfolding rcv_inv_def by (simp add: put_session_def)
qed

lemma received_bound: "rcv_ok blk cuts s \<Longrightarrow> unat (red_bytes_received (rcv_sess s)) \<le> length blk"
proof -
  assume "rcv_ok blk cuts s"
  then have "reassembly_inv blk ((rcv_sess s)\<lparr>red_processed := False\<rparr>)" using sess_okD(1) by (auto simp: rcv_ok_def)
  then show ?thesis using reassembly_invD(2,4) fitting_sum [OF pieces_fitting0] by fastforce
qed

lemma put_data_outcome:
  assumes inv: "rcv_inv blk cuts key G posted cancels r" and s: "\<not> is_ltp_cancelled s" "rcv_ok blk cuts s" "cancel_seg s = None"
    and prior: "\<not> posted \<Longrightarrow> held s = G \<and> \<not> red_processed (rcv_sess s) \<and> \<not> cancels"
    and open_: "incoming_sessions r key \<noteq> None \<or> closed_session_map r (snd key) = None"
    and o: "segment_outcome blk cuts s out s'"
  shows "rcv_good blk cuts key G posted cancels out (put_session key s' r)"
proof -
  note I = rcv_invD [OF inv]
  from o consider (cancelled) c where "is_ltp_cancelled s'" "out = [Send (Seg_CS c)]"
    | (grown) "\<not> is_ltp_cancelled s'" "cancel_seg s' = cancel_seg s" "rcv_ok blk cuts s'" "held s \<subseteq> held s'"
      "\<forall>e \<in> set out. good_effect blk (held s') e" "red_processed (rcv_sess s') = (red_processed (rcv_sess s) \<or> posts out \<noteq> {})"
    unfolding segment_outcome_def by blast
  then show ?thesis
  proof cases
    case cancelled
    have "rcv_inv blk cuts key G posted (cancels \<or> cancels_in out) (put_session key s' r)"
      by (rule put_inv [OF inv open_]) (use I(1,2) cancelled in auto)
    then show ?thesis using cancelled(2) by (intro rcv_goodI) auto
  next
    case grown
    define posted' where "posted' = (posted \<or> posts out \<noteq> {})"
    define G' where "G' = (if posted' then all_bytes blk else held s')"
    have sub: "held s' \<subseteq> all_bytes blk" using grown(3) sess_ok_sub by (auto simp: rcv_ok_def)
    have nc: "\<not> cancels_in out" using bspec [OF grown(5)] by (fastforce simp: cancels_in_def good_effect_def)
    have ne: "\<not> posted' \<Longrightarrow> held s' \<noteq> all_bytes blk" using grown(3,6) prior by (auto simp: posted'_def rcv_ok_def)
    have GG: "G \<subseteq> G'" using I(1) prior grown(4) by (auto simp: G'_def posted'_def)
    have "rcv_inv blk cuts key G' posted' (cancels \<or> cancels_in out) (put_session key s' r)"
      by (rule put_inv [OF inv open_ _ GG]) (use grown(2,3,6) s(3) sub ne prior nc in \<open>auto simp: G'_def posted'_def\<close>)
    moreover have "true_report G' q" if "Send (Seg_RS q) \<in> set out" for q
    proof -
      have "true_report (held s') q" using bspec [OF grown(5) that] by (simp add: good_effect_def)
      then show ?thesis using true_report_mono sub by (auto simp: G'_def)
    qed
    moreover have "concat (map (payload \<circ> snd) segs) = blk \<and> n = of_nat (length blk)" if "(segs, n, multi) \<in> posts out" for segs n multi
      using bspec [OF grown(5), of "Post segs n multi"] that by (simp add: posts_def good_effect_def)
    ultimately show ?thesis using GG unfolding rcv_good_def posted'_def by blast
  qed
qed

lemma rcv_data:
  assumes inv: "rcv_inv blk cuts key G posted cancels r" and blk: "blk \<noteq> []"
    and d: "piece blk d" "c \<in> set cuts" "seg_range c = seg_range d" "(engine_id d, session_id d) = key"
      "client_service_id d = 1 \<or> client_service_id d = 2"
    and cuts: "same_cuts cuts" and fit: "fits 8 (fst key)" "fits 8 (snd key)"
    and step: "process_segment_for_receiver env (Seg_DS d) r = Some (out, r')"
  shows "rcv_good blk cuts key G posted cancels out r'"
proof -
  note I = rcv_invD [OF inv]
  have key: "seg_key (Seg_DS d) = key" using d(4) by (simp add: seg_key_def)
  have ne: "{} \<noteq> all_bytes blk" using blk by (auto simp: all_bytes_def intro: exI [of _ 0])
  have opened: "rcv_good blk cuts key G posted cancels out r'"
    if s: "\<not> is_ltp_cancelled s \<Longrightarrow> rcv_ok blk cuts s \<and> cancel_seg s = None
            \<and> (\<not> posted \<longrightarrow> held s = G \<and> \<not> red_processed (rcv_sess s) \<and> \<not> cancels)"
      and r1: "incoming_sessions r1 key \<noteq> None \<or> closed_session_map r1 (snd key) = None" "rcv_inv blk cuts key G posted cancels r1"
      and st: "open_session_segment env (Seg_DS d) s r1 = Some (out, r')" for s r1
  proof (cases "is_ltp_cancelled s")
    case True
    then show ?thesis using st r1(2) rcv_quiet by (simp add: open_session_segment_def)
  next
    case False
    then obtain s' gone where p: "process_incoming_data_segment env d s = Some (out, s', gone)" "settle key r1 (out, s', gone) = (out, r')"
      using st key by (auto simp: open_session_segment_def settle_def)
    note O = data_segment_outcome [OF _ blk d(1-3) cuts d(5) p(1)]
    have "r' = put_session key s' r1" using p(2) O(1) s [OF False] by (simp add: settle_def)
    then show ?thesis using put_data_outcome [OF r1(2) False _ _ _ r1(1) O(2)] s [OF False] by simp
  qed
  show ?thesis
  proof (cases "closed_session_map r (snd key)")
    case (Some n)
    then have st: "out = closed_reply env n (n = 0) (Seg_DS d)" "r' = r"
      using step key by (auto simp: process_segment_for_receiver_def find_incoming_session_def)
    have none: "incoming_sessions r key = None" "unat n \<le> length blk" "n \<noteq> 0 \<Longrightarrow> posted" using I(3) [OF Some] by auto
    have any: "rcv_inv blk cuts key G posted x r" for x using inv none(1) Some by (simp add: rcv_inv_def) blast
    have "true_report G q" if "Send (Seg_RS q) \<in> set out" for q
    proof -
      have n: "n \<noteq> 0" "q = closed_session_report env n d" using that st(1) by (auto simp: closed_reply_def build_CS_for_segment_def split: if_splits)
      have "{0..<n} \<subseteq> G" using I(2) none(2,3) n(1) by (auto simp: all_bytes_def word_less_nat_alt)
      then have "claims_true G 0 [(0, n)]" using n(1) by (simp add: claims_true_def word_neq_0_conv)
      moreover have "rs_ready (blank_report_segment\<lparr>engine_id := engine_id d, session_id := session_id d\<rparr>)"
        using fit d(4) by (auto simp: rs_ready_def)
      ultimately show ?thesis unfolding n(2) closed_session_report_def by (intro new_report_true)
    qed
    moreover have "posts out = {}" by (auto simp: st(1) posts_def closed_reply_def build_CS_for_segment_def)
    ultimately show ?thesis using rcv_goodI [OF any] st(2) by blast
  next
    case None
    note closed = None
    show ?thesis
    proof (cases "incoming_sessions r key")
      case (Some s)
      have st: "open_session_segment env (Seg_DS d) s r = Some (out, r')"
        using step key Some closed by (simp add: process_segment_for_receiver_def find_incoming_session_def)
      show ?thesis by (rule opened [OF _ _ inv st]) (use I(4) [OF Some] Some in auto)
    next
      case None
      let ?s = "new_rcv_session env (fst key) (snd key)"
      have st: "open_session_segment env (Seg_DS d) ?s (put_session key ?s r) = Some (out, r')"
        using step key None closed by (simp add: process_segment_for_receiver_def find_incoming_session_def put_session_def Let_def)
      have ok: "rcv_ok blk cuts ?s" "cancel_seg ?s = None" "held ?s = {}" "\<not> red_processed (rcv_sess ?s)" "\<not> is_ltp_cancelled ?s"
        using sess_ok_new [OF fit, of blk cuts] ne
        by (simp_all add: rcv_ok_def new_rcv_session_def seg_bytes_def session_init_def is_ltp_cancelled_def)
      have i: "rcv_inv blk cuts key G posted cancels (put_session key ?s r)"
        by (rule put_inv [OF inv]) (use closed ok I(1,2) I(5) [OF None closed] in auto)
      show ?thesis by (rule opened [OF _ _ i st]) (use ok I(5) [OF None closed] in \<open>auto simp: put_session_def\<close>)
    qed
  qed
qed

lemma reports_frame:
  assumes "rcv_ok blk cuts s" and "\<And>k q. (k, q) \<in> set m \<Longrightarrow> true_report (held s) q"
  shows "rcv_ok blk cuts (s\<lparr>rcv_sess := (rcv_sess s)\<lparr>report_segments := m\<rparr>\<rparr>)"
proof -
  have "same_receipt (rcv_sess s) ((rcv_sess s)\<lparr>report_segments := m\<rparr>)" by (simp add: same_receipt_def)
  then show ?thesis using sess_ok_same assms by (simp add: rcv_ok_def true_reports_def)
qed

text \<open>The other segments: acknowledgements of reports, and cancellation in both directions.\<close>

lemma rcv_other:
  assumes inv: "rcv_inv blk cuts key G posted cancels r" and key: "seg_key seg = key"
    and seg: "(\<exists>a. seg = Seg_RAS a) \<or> (\<exists>c. seg = Seg_CS c) \<or> (\<exists>c. seg = Seg_CAS c \<and> cancels)"
    and step: "process_segment_for_receiver env seg r = Some (out, r')"
  shows "rcv_good blk cuts key G posted cancels out r'"
proof -
  note I = rcv_invD [OF inv]
  have cas: "posts (build_CAS_for_CSS c) = {}" "\<not> cancels_in (build_CAS_for_CSS c)" "Send (Seg_RS q) \<notin> set (build_CAS_for_CSS c)" for c q
    by (simp_all add: build_CAS_for_CSS_def)
  have cas2: "posts (build_CAS_for_CSS c @ build_CAS_for_CSS c) = {}" "\<not> cancels_in (build_CAS_for_CSS c @ build_CAS_for_CSS c)" for c
    by (simp_all add: build_CAS_for_CSS_def)
  show ?thesis
  proof (cases "closed_session_map r (snd key) = None \<and> incoming_sessions r key \<noteq> None")
    case False
    then have "r' = r \<and> posts out = {} \<and> \<not> cancels_in out \<and> (\<forall>q. Send (Seg_RS q) \<notin> set out)"
      using step key seg cas
      by (cases "closed_session_map r (snd key)")
        (auto simp: process_segment_for_receiver_def find_incoming_session_def closed_reply_def split: if_splits)
    then show ?thesis using inv by (intro rcv_goodI) auto
  next
    case True
    then obtain s where s: "incoming_sessions r key = Some s" by blast
    have st: "open_session_segment env seg s r = Some (out, r')"
      using step key seg s True by (auto simp: process_segment_for_receiver_def find_incoming_session_def)
    have J: "\<not> is_ltp_cancelled s \<Longrightarrow> rcv_ok blk cuts s \<and> cancel_seg s = None
        \<and> (\<not> posted \<longrightarrow> held s = G \<and> \<not> red_processed (rcv_sess s) \<and> \<not> cancels)" using I(4) [OF s] by auto
    from seg consider (ras) a where "seg = Seg_RAS a" | (cs) c where "seg = Seg_CS c" | (cas) c where "seg = Seg_CAS c" cancels by blast
    then show ?thesis
    proof cases
      case ras
      show ?thesis
      proof (cases "is_ltp_cancelled s")
        case True
        then show ?thesis using st ras inv rcv_quiet by (simp add: open_session_segment_def)
      next
        case False
        let ?s = "cleanup_RS (serial_number a) s"
        have ok: "rcv_ok blk cuts s" using J [OF False] by blast
        have "true_reports (held s) (report_segments (rcv_sess s))" using ok sess_okD(6) by (auto simp: rcv_ok_def)
        then have okc: "rcv_ok blk cuts ?s" unfolding cleanup_RS_def
          by (intro reports_frame [OF ok]) (auto simp: true_reports_def om_erase_def)
        have f: "held ?s = held s" "red_processed (rcv_sess ?s) = red_processed (rcv_sess s)" "cancel_seg ?s = cancel_seg s"
          "sess_state ?s = sess_state s" by (simp_all add: cleanup_RS_def)
        show ?thesis
        proof (cases "data_processed (rcv_sess ?s)")
          case True
          have r: "out = []" "r' = erase_incoming_session key ?s r" using st ras False True key by (auto simp: open_session_segment_def Let_def)
          have "red_processed (rcv_sess s)"
            using True okc sess_okD(3) f(2) by (auto simp: data_processed_def rcv_ok_def)
          then have posted using J [OF False] by blast
          then have "rcv_inv blk cuts key G posted cancels r'" unfolding r(2) using received_bound [OF okc] by (intro erase_inv [OF inv]) simp
          then show ?thesis using r(1) rcv_quiet by simp
        next
          case np: False
          have r: "out = []" "r' = put_session key (?s\<lparr>sess_state := STATE_DS\<rparr>) r"
            using st ras False np key by (auto simp: open_session_segment_def Let_def)
          have "rcv_inv blk cuts key G posted cancels r'" unfolding r(2)
            by (rule put_inv [OF inv]) (use s J [OF False] okc f I(1,2) in \<open>auto simp: rcv_ok_def is_ltp_cancelled_def\<close>)
          then show ?thesis using r(1) rcv_quiet by simp
        qed
      qed
    next
      case cs
      show ?thesis
      proof (cases "segment_type c = LTP_SEGMENT_CS_BS")
        case True
        let ?s = "s\<lparr>sess_state := STATE_CS, rcv_sess := remove_segments (rcv_sess s), cancel_seg := None\<rparr>"
        have r: "out = (if is_ltp_cancelled s then build_CAS_for_CSS c else []) @ build_CAS_for_CSS c"
            "r' = erase_incoming_session key ?s r" using st cs True key by (auto simp: open_session_segment_def Let_def)
        have e: "rcv_inv blk cuts key G posted (cancels \<or> cancels_in out) r'" unfolding r(2)
          by (rule erase_inv [OF inv]) (simp add: is_ltp_cancelled_def)
        show ?thesis by (rule rcv_goodI [OF e]) (use r(1) cas cas2 in \<open>auto split: if_splits\<close>)
      next
        case False
        then show ?thesis using st cs inv rcv_quiet by (simp add: open_session_segment_def)
      qed
    next
      case cas
      show ?thesis
      proof (cases "segment_type c = LTP_SEGMENT_CAS_BR")
        case True
        have r: "out = []" "r' = erase_incoming_session key (s\<lparr>cancel_seg := None\<rparr>) r"
          using st cas True key by (auto simp: open_session_segment_def Let_def)
        have "is_ltp_cancelled s \<or> posted \<and> unat (red_bytes_received (rcv_sess s)) \<le> length blk"
          using J cas(2) received_bound by blast
        then have "rcv_inv blk cuts key G posted cancels r'" unfolding r(2) by (intro erase_inv [OF inv]) (simp add: is_ltp_cancelled_def)
        then show ?thesis using r(1) rcv_quiet by simp
      next
        case False
        then show ?thesis using st cas inv rcv_quiet by (simp add: open_session_segment_def)
      qed
    qed
  qed
qed

text \<open>The timers.\<close>

lemma build_CS_effects:
  assumes "build_CS_for_session reason s = (out, s')"
  shows "posts out = {}" "Send (Seg_RS q) \<notin> set out" "is_ltp_cancelled s'"
  using assms by (auto simp: build_CS_for_session_def is_ltp_cancelled_def Let_def split: if_splits)

lemma rcv_report_timeout:
  assumes inv: "rcv_inv blk cuts key G posted cancels r" and step: "report_seg_timeout retry serial key r = (out, r')"
  shows "rcv_good blk cuts key G posted cancels out r'"
proof -
  note I = rcv_invD [OF inv]
  consider (none) "out = []" "r' = r"
    | (some) s q where "incoming_sessions r key = Some s" "om_find (report_segments (rcv_sess s)) serial = Some q" "\<not> is_ltp_cancelled s"
    using step by (auto simp: report_seg_timeout_def split: option.splits if_splits)
  then show ?thesis
  proof cases
    case none then show ?thesis using inv rcv_quiet by simp
  next
    case some
    have J: "rcv_ok blk cuts s" "cancel_seg s = None" "\<not> posted \<Longrightarrow> held s = G \<and> \<not> red_processed (rcv_sess s) \<and> \<not> cancels"
      using I(4) [OF some(1)] some(3) by auto
    have tr: "true_reports (held s) (report_segments (rcv_sess s))" "held s \<subseteq> all_bytes blk"
      using J(1) sess_okD(6) [of blk cuts "rcv_sess s"] sess_ok_sub [of blk cuts "rcv_sess s"] by (simp_all add: rcv_ok_def)
    have "(serial, q) \<in> set (report_segments (rcv_sess s))" using some(2) by (simp add: om_find_def map_of_SomeD)
    then have "true_report (held s) q" using tr(1) by (simp add: true_reports_def)
    then have q: "true_report G q" using tr(2) J(3) I(2) true_report_mono [of "held s" q G] by (cases posted) auto
    let ?s = "s\<lparr>rcv_sess := (rcv_sess s)\<lparr>report_segments :=
                om_modify serial (\<lambda>q. q\<lparr>is_deleted := True\<rparr>) (report_segments (rcv_sess s))\<rparr>\<rparr>"
    have ok: "rcv_ok blk cuts ?s"
      by (rule reports_frame [OF J(1)]) (use tr(1) in \<open>auto simp: true_reports_def om_modify_def split: if_splits\<close>)
    consider (quiet) "out = []" "r' = r" | (again) "out = [Send (Seg_RS q)]" "r' = r"
      | (gone) "out = []" "data_processed (rcv_sess ?s)" "r' = erase_incoming_session key ?s r"
      | (cancel) s2 where "build_CS_for_session REASON_RLEXC ?s = (out, s2)" "r' = put_session key s2 r"
      using step some by (auto simp: report_seg_timeout_def Let_def split: if_splits prod.splits)
    then show ?thesis
    proof cases
      case quiet then show ?thesis using inv rcv_quiet by simp
    next
      case again then show ?thesis using inv q by (intro rcv_goodI) (auto simp: cancels_in_def)
    next
      case gone
      then have "red_processed (rcv_sess s)"
        using J(1) sess_okD(3) [of blk cuts "rcv_sess s"] by (simp add: data_processed_def rcv_ok_def)
      then have posted using J(3) by blast
      then have "rcv_inv blk cuts key G posted cancels r'" unfolding gone(3) using received_bound [OF ok] by (intro erase_inv [OF inv]) simp
      then show ?thesis using gone(1) rcv_quiet by simp
    next
      case cancel
      note E = build_CS_effects [OF cancel(1)]
      have "rcv_inv blk cuts key G posted (cancels \<or> cancels_in out) r'" unfolding cancel(2)
        by (rule put_inv [OF inv]) (use some(1) E(3) I(1,2) in auto)
      then show ?thesis using E(1,2) by (intro rcv_goodI) auto
    qed
  qed
qed

lemma rcv_cancel_timeout:
  assumes inv: "rcv_inv blk cuts key G posted cancels r" and step: "cancel_seg_timeout retry key r = (out, r')"
  shows "rcv_good blk cuts key G posted cancels out r'"
proof -
  note I = rcv_invD [OF inv]
  consider (quiet) "out = []" "r' = r"
    | (again) s c where "incoming_sessions r key = Some s" "cancel_seg s = Some c" "out = [Send (Seg_CS c)]" "r' = r"
    | (gone) s c where "incoming_sessions r key = Some s" "cancel_seg s = Some c" "out = []" "r' = erase_incoming_session key s r"
    using step by (auto simp: cancel_seg_timeout_def split: option.splits if_splits)
  then show ?thesis
  proof cases
    case quiet then show ?thesis using inv rcv_quiet by simp
  next
    case again
    have "is_ltp_cancelled s" using I(4) [OF again(1)] again(2) by auto
    moreover have "closed_session_map r (snd key) = None" using I(3) again(1) by (cases "closed_session_map r (snd key)") auto
    ultimately have "rcv_inv blk cuts key G posted True r" using inv again(1) by (simp add: rcv_inv_def)
    then show ?thesis using again(3,4) by (intro rcv_goodI) auto
  next
    case gone
    have "is_ltp_cancelled s" using I(4) [OF gone(1)] gone(2) by auto
    then have "rcv_inv blk cuts key G posted cancels r'" unfolding gone(4) by (intro erase_inv [OF inv]) simp
    then show ?thesis using gone(3) rcv_quiet by simp
  qed
qed

lemma rcv_inactivity:
  assumes inv: "rcv_inv blk cuts key G posted cancels r" and step: "inactivity_timer_triggered key r = (out, r')"
  shows "rcv_good blk cuts key G posted cancels out r'"
proof -
  note I = rcv_invD [OF inv]
  consider (quiet) "out = []" "r' = r"
    | (cancel) s s1 where "incoming_sessions r key = Some s" "r' = put_session key s1 r"
        "build_CS_for_session REASON_RXMTCYCEX (s\<lparr>rcv_sess := remove_segments (rcv_sess s), cancel_seg := None\<rparr>) = (out, s1)"
    using step by (auto simp: inactivity_timer_triggered_def split: option.splits if_splits prod.splits)
  then show ?thesis
  proof cases
    case quiet then show ?thesis using inv rcv_quiet by simp
  next
    case cancel
    note E = build_CS_effects [OF cancel(3)]
    have "rcv_inv blk cuts key G posted (cancels \<or> cancels_in out) r'" unfolding cancel(2)
      by (rule put_inv [OF inv]) (use cancel(1) E(3) I(1,2) in auto)
    then show ?thesis using E(1,2) by (intro rcv_goodI) auto
  qed
qed

text \<open>
  The closeout timer. A receiver that forgets a session which it has closed without handing over its block
  makes new claims from scratch; all that is left then is that claims are in the block, as if it had been posted.
\<close>

lemma rcv_closeout:
  assumes "rcv_inv blk cuts key G posted cancels r"
  defines "r' \<equiv> closeout_timer_triggered (snd key) r"
  shows "closed_session_map r (snd key) = None \<or> posted \<Longrightarrow> rcv_inv blk cuts key G posted cancels r'"
    and "closed_session_map r (snd key) \<noteq> None \<Longrightarrow> rcv_inv blk cuts key (all_bytes blk) True cancels r'"
proof -
  show "rcv_inv blk cuts key G posted cancels r'" if "closed_session_map r (snd key) = None \<or> posted"
    using assms(1) that by (auto simp: r'_def rcv_inv_def closeout_timer_triggered_def)
  show "rcv_inv blk cuts key (all_bytes blk) True cancels r'" if "closed_session_map r (snd key) \<noteq> None"
  proof -
    have "incoming_sessions r key = None" using rcv_invD(3) [OF assms(1)] that by blast
    then show ?thesis by (simp add: r'_def rcv_inv_def closeout_timer_triggered_def)
  qed
qed

section \<open>The exchange\<close>

datatype send_status = Active | Completed | Given_up

record ltp_exchange =
  xc_sender :: ltp_session
  xc_status :: send_status
  xc_receiver :: ltp_receiver
  xc_data :: "ltp_data_segment set"
  xc_reports :: "ltp_report_segment set"
  xc_cancels :: bool
  xc_posted :: "(ds_map \<times> u64 \<times> bool) set"
  xc_forgot :: bool

text \<open>
  What was sent is never taken off the network, so that it may arrive any number of times, in any order,
  or not at all. A data segment arrives with the fields that the parser recovers from its encoding.
\<close>

definition intact :: "ltp_data_segment \<Rightarrow> ltp_data_segment \<Rightarrow> bool" where
  "intact d d' \<longleftrightarrow> engine_id d' = engine_id d \<and> session_id d' = session_id d \<and> client_service_id d' = client_service_id d
     \<and> start_byte d' = start_byte d \<and> stop_byte d' = stop_byte d \<and> offset d' = offset d \<and> payload d' = payload d
     \<and> payload_length d' = payload_length d \<and> red_green_none d' = red_green_none d
     \<and> is_redendofblock d' = is_redendofblock d \<and> is_greenendofblock d' = is_greenendofblock d
     \<and> is_checkpoint d' = is_checkpoint d
     \<and> (is_checkpoint d \<longrightarrow> checkpoint_id d' = checkpoint_id d \<and> serial_number d' = serial_number d)"

definition absorb :: "rcv_effect list \<Rightarrow> ltp_receiver \<Rightarrow> ltp_exchange \<Rightarrow> ltp_exchange" where
  "absorb out r x = x\<lparr>xc_receiver := r, xc_reports := xc_reports x \<union> {q. Send (Seg_RS q) \<in> set out},
     xc_cancels := (xc_cancels x \<or> cancels_in out), xc_posted := xc_posted x \<union> posts out\<rparr>"

text \<open>
  The steps. The random numbers and the state of the bundle store are free at every step. The link may
  send at any time any segment that the sender holds, as it is at that time; this is how a segment that was
  queued before it became a checkpoint is sent, and how a checkpoint is sent again. A cancel segment of the
  sender arrives only after the sender has closed the session, an acknowledgement of a cancel segment only
  after the receiver has sent one. The closeout timer may fire at any time; \<open>xc_forgot\<close> records that the receiver
  has forgotten in this way a session which it had closed, because it was cancelled, without handing over its block.
\<close>

definition set_queued :: "u64 \<Rightarrow> bool \<Rightarrow> ltp_session \<Rightarrow> ltp_session" where
  "set_queued k b s = s\<lparr>red_segments := om_modify k (\<lambda>d. d\<lparr>queued_to_send := b\<rparr>) (red_segments s)\<rparr>"

inductive xstep :: "session_key \<Rightarrow> ltp_exchange \<Rightarrow> ltp_exchange \<Rightarrow> bool" for key where
  data: "d \<in> xc_data x \<Longrightarrow> intact d d' \<Longrightarrow> process_segment_for_receiver env (Seg_DS d') (xc_receiver x) = Some (out, r)
    \<Longrightarrow> xstep key x (absorb out r x)"
| report: "xc_status x = Active \<Longrightarrow> q \<in> xc_reports x \<Longrightarrow> report_in_range q
    \<Longrightarrow> rs_parse_buffer (packet q) blank_report_segment = Inr (0, rpt)
    \<Longrightarrow> process_report False rpt (xc_sender x) = Some (fin, sent, s)
    \<Longrightarrow> xstep key x (x\<lparr>xc_sender := s, xc_status := (if fin then Completed else Active), xc_data := xc_data x \<union> set sent\<rparr>)"
| report_ack: "seg_key (Seg_RAS a) = key \<Longrightarrow> process_segment_for_receiver env (Seg_RAS a) (xc_receiver x) = Some (out, r)
    \<Longrightarrow> xstep key x (absorb out r x)"
| cancel_arrives: "xc_cancels x \<Longrightarrow> xc_status x = Active
    \<Longrightarrow> xstep key x (x\<lparr>xc_sender := remove_segments (xc_sender x), xc_status := Given_up\<rparr>)"
| cancel_ack: "xc_cancels x \<Longrightarrow> seg_key (Seg_CAS c) = key
    \<Longrightarrow> process_segment_for_receiver env (Seg_CAS c) (xc_receiver x) = Some (out, r) \<Longrightarrow> xstep key x (absorb out r x)"
| sender_gives_up: "xc_status x = Active
    \<Longrightarrow> xstep key x (x\<lparr>xc_sender := remove_segments (xc_sender x), xc_status := Given_up\<rparr>)"
| link_sends: "xc_status x = Active \<Longrightarrow> om_find (red_segments (xc_sender x)) k = Some d
    \<Longrightarrow> xstep key x (x\<lparr>xc_sender := set_queued k b (xc_sender x), xc_data := insert d (xc_data x)\<rparr>)"
| sender_cancel: "xc_status x \<noteq> Active \<Longrightarrow> seg_key (Seg_CS c) = key
    \<Longrightarrow> process_segment_for_receiver env (Seg_CS c) (xc_receiver x) = Some (out, r) \<Longrightarrow> xstep key x (absorb out r x)"
| report_timeout: "report_seg_timeout retry serial key (xc_receiver x) = (out, r) \<Longrightarrow> xstep key x (absorb out r x)"
| cancel_timeout: "cancel_seg_timeout retry key (xc_receiver x) = (out, r) \<Longrightarrow> xstep key x (absorb out r x)"
| inactivity: "inactivity_timer_triggered key (xc_receiver x) = (out, r) \<Longrightarrow> xstep key x (absorb out r x)"
| closeout: "xstep key x (x\<lparr>xc_receiver := closeout_timer_triggered (snd key) (xc_receiver x),
      xc_forgot := (xc_forgot x \<or> closed_session_map (xc_receiver x) (snd key) \<noteq> None \<and> xc_posted x = {})\<rparr>)"

text \<open>The start: the sender has cut the session into segments and queued them; the receiver knows nothing.\<close>

definition xc_start :: "ltp_data_segment list \<Rightarrow> ltp_session \<Rightarrow> ltp_exchange" where
  "xc_start sent s = \<lparr>xc_sender = s, xc_status = Active,
     xc_receiver = \<lparr>incoming_sessions = (\<lambda>_. None), closed_session_map = (\<lambda>_. None)\<rparr>,
     xc_data = set sent, xc_reports = {}, xc_cancels = False, xc_posted = {}, xc_forgot = False\<rparr>"

inductive xreach :: "session_key \<Rightarrow> ltp_exchange \<Rightarrow> ltp_exchange \<Rightarrow> bool" for key where
  start: "xreach key x x"
| step: "xreach key x y \<Longrightarrow> xstep key y z \<Longrightarrow> xreach key x z"

section \<open>The invariant\<close>

text \<open>A segment of the sender, as it was cut.\<close>

definition cut_of :: "ltp_data_segment list \<Rightarrow> session_key \<Rightarrow> ltp_data_segment \<Rightarrow> bool" where
  "cut_of cuts key d \<longleftrightarrow> (\<exists>c \<in> set cuts. same_data c d) \<and> (engine_id d, session_id d) = key
     \<and> (client_service_id d = 1 \<or> client_service_id d = 2)"

text \<open>The sender holds every byte that no report has claimed.\<close>

definition snd_inv :: "bytes \<Rightarrow> ltp_data_segment list \<Rightarrow> session_key \<Rightarrow> u64 set \<Rightarrow> ltp_session \<Rightarrow> bool" where
  "snd_inv blk cuts key G s \<longleftrightarrow> om_wf (red_segments s) \<and> keyed (red_segments s)
     \<and> (\<forall>k d. (k, d) \<in> set (red_segments s) \<longrightarrow> cut_of cuts key d)
     \<and> red_complete s \<and> expected_red_bytes s = of_nat (length blk)
     \<and> all_bytes blk \<subseteq> seg_bytes (red_segments s) \<union> G"

abbreviation settled :: "ltp_exchange \<Rightarrow> bool" where
  "settled x \<equiv> xc_posted x \<noteq> {} \<or> xc_forgot x"

definition xinv :: "bytes \<Rightarrow> ltp_data_segment list \<Rightarrow> session_key \<Rightarrow> ltp_exchange \<Rightarrow> bool" where
  "xinv blk cuts key x \<longleftrightarrow>
     (\<exists>G. rcv_inv blk cuts key G (settled x) (xc_cancels x) (xc_receiver x)
        \<and> (\<forall>q \<in> xc_reports x. true_report G q) \<and> (xc_status x = Active \<longrightarrow> snd_inv blk cuts key G (xc_sender x)))
     \<and> (\<forall>d \<in> xc_data x. cut_of cuts key d)
     \<and> (\<forall>(segs, n, multi) \<in> xc_posted x. concat (map (payload \<circ> snd) segs) = blk \<and> n = of_nat (length blk))
     \<and> (xc_status x = Completed \<longrightarrow> settled x)"

lemma cut_piece:
  assumes "cut_of cuts key d" and "\<forall>c \<in> set cuts. piece blk c" and "intact d d'"
  shows "piece blk d'" and "\<exists>c \<in> set cuts. seg_range c = seg_range d'" and "(engine_id d', session_id d') = key"
    and "client_service_id d' = 1 \<or> client_service_id d' = 2"
proof -
  obtain c where c: "c \<in> set cuts" "same_data c d" using assms(1) by (auto simp: cut_of_def)
  then show "piece blk d'" using assms(2,3) by (auto simp: piece_def same_data_def intact_def)
  show "\<exists>c \<in> set cuts. seg_range c = seg_range d'" using c assms(3)
    by (intro bexI [of _ c]) (auto simp: seg_range_def same_data_def intact_def)
  show "(engine_id d', session_id d') = key" "client_service_id d' = 1 \<or> client_service_id d' = 2"
    using assms(1,3) by (auto simp: cut_of_def intact_def)
qed

lemma xinv_absorb:
  assumes "xinv blk cuts key x"
    and "\<And>G. rcv_inv blk cuts key G (settled x) (xc_cancels x) (xc_receiver x)
           \<Longrightarrow> rcv_good blk cuts key G (settled x) (xc_cancels x) out r"
  shows "xinv blk cuts key (absorb out r x)"
proof -
  obtain G where G: "rcv_inv blk cuts key G (settled x) (xc_cancels x) (xc_receiver x)"
      "\<forall>q \<in> xc_reports x. true_report G q" "xc_status x = Active \<longrightarrow> snd_inv blk cuts key G (xc_sender x)"
    using assms(1) unfolding xinv_def by blast
  obtain G' where G': "G \<subseteq> G'" "rcv_inv blk cuts key G' (settled x \<or> posts out \<noteq> {}) (xc_cancels x \<or> cancels_in out) r"
      "\<forall>q. Send (Seg_RS q) \<in> set out \<longrightarrow> true_report G' q"
      "\<forall>(segs, n, multi) \<in> posts out. concat (map (payload \<circ> snd) segs) = blk \<and> n = of_nat (length blk)"
    using assms(2) [OF G(1)] unfolding rcv_good_def by blast
  have "settled (absorb out r x) = (settled x \<or> posts out \<noteq> {})" by (auto simp: absorb_def)
  then have "rcv_inv blk cuts key G' (settled (absorb out r x)) (xc_cancels (absorb out r x)) (xc_receiver (absorb out r x))"
    using G'(2) by (simp add: absorb_def)
  moreover have "\<forall>q \<in> xc_reports (absorb out r x). true_report G' q"
    using G(2) G'(1,3) true_report_mono by (auto simp: absorb_def)
  moreover have "xc_status x = Active \<longrightarrow> snd_inv blk cuts key G' (xc_sender x)"
    using G(3) G'(1) by (auto simp: snd_inv_def)
  ultimately show ?thesis using assms(1) G'(4) unfolding xinv_def by (auto simp: absorb_def)
qed

lemma cut_of_same: "cut_of cuts key d \<Longrightarrow> same_data d e \<Longrightarrow> cut_of cuts key e"
  using same_data_trans unfolding cut_of_def by (auto simp: same_data_def)

lemma keyed_same:
  assumes "keyed m" and "\<And>k e. (k, e) \<in> set m' \<Longrightarrow> \<exists>d. (k, d) \<in> set m \<and> same_data d e"
  shows "keyed m'"
  unfolding keyed_def
proof (intro allI impI)
  fix k e assume "(k, e) \<in> set m'"
  then obtain d where d: "(k, d) \<in> set m" "same_data d e" using assms(2) by blast
  then show "k = start_byte e \<and> offset e = start_byte e \<and> \<not> is_deleted e \<and> is_red e \<and> \<not> is_greenendofblock e \<and> start_byte e \<le> stop_byte e"
    using keyedD [OF assms(1) d(1)] by (simp add: same_data_def is_red_def)
qed

text \<open>The sender processes a report.\<close>

lemma report_step:
  assumes inv: "snd_inv blk cuts key G s" and q: "true_report G q" "report_in_range q" "G \<subseteq> all_bytes blk" "length blk < 2 ^ 56"
    and rd: "rs_parse_buffer (packet q) blank_report_segment = Inr (0, rpt)"
    and pr: "process_report False rpt s = Some (fin, sent, s')"
  shows "\<forall>d \<in> set sent. cut_of cuts key d" and "fin \<Longrightarrow> G = all_bytes blk" and "\<not> fin \<Longrightarrow> snd_inv blk cuts key G s'"
proof -
  obtain m where m: "claims_true G (lower_bounds rpt) m" "claim_map rpt = rel_claims (lower_bounds rpt) m"
      "claimed_bytes rpt = sum_list (map snd m)"
    using report_read [OF q(1,2,3,4) rd] by blast
  have I: "om_wf (red_segments s)" "keyed (red_segments s)" "\<And>k d. (k, d) \<in> set (red_segments s) \<Longrightarrow> cut_of cuts key d"
    "red_complete s" "expected_red_bytes s = of_nat (length blk)" "all_bytes blk \<subseteq> seg_bytes (red_segments s) \<union> G"
    using inv unfolding snd_inv_def by auto
  have len: "length blk < 2 ^ 63" using q(4) by simp
  have "(\<forall>d \<in> set sent. cut_of cuts key d) \<and> (fin \<longrightarrow> G = all_bytes blk) \<and> (\<not> fin \<longrightarrow> snd_inv blk cuts key G s')"
  proof (cases "claims_entire_session rpt s")
    case True
    then have "sent = []" "fin" using pr by (simp_all add: process_report_def)
    then show ?thesis using entire_true [OF m q(3) len True I(5)] q(3) by auto
  next
    case False
    note R = process_report_any [OF pr I(1,2) False]
    have cut: "cut_of cuts key e" if "(k, d) \<in> set (red_segments s)" "same_data d e" for k d e
      using cut_of_same [OF I(3) [OF that(1)] that(2)] .
    have kept: "x \<in> seg_bytes (red_segments s') \<union> G" if x: "x \<in> seg_bytes (red_segments s)" for x
    proof -
      obtain k d where d: "(k, d) \<in> set (red_segments s)" "x \<in> seg_range d" using x by (rule seg_bytesE)
      from R(3) [OF d(1)] show ?thesis
      proof
        assume "in_claim rpt d"
        then show ?thesis using in_claim_true [OF m(1,2)] d(2) by blast
      next
        assume "\<exists>e. (k, e) \<in> set (red_segments s') \<and> same_data d e"
        then show ?thesis using d(2) seg_bytesI by (fastforce simp: seg_range_def same_data_def)
      qed
    qed
    have "keyed (red_segments s')" by (rule keyed_same [OF I(2)]) (use R(2) in blast)
    moreover have "\<forall>k e. (k, e) \<in> set (red_segments s') \<longrightarrow> cut_of cuts key e" using R(2) cut by blast
    ultimately have inv': "snd_inv blk cuts key G s'" using R(1,4,5) I(4-6) kept unfolding snd_inv_def by auto
    moreover have "\<forall>d \<in> set sent. cut_of cuts key d" using R(6) cut by blast
    moreover have "G = all_bytes blk" if fin using R(7) [OF that] inv' q(3) by (auto simp: snd_inv_def seg_bytes_def)
    ultimately show ?thesis by blast
  qed
  then show "\<forall>d \<in> set sent. cut_of cuts key d" "fin \<Longrightarrow> G = all_bytes blk" "\<not> fin \<Longrightarrow> snd_inv blk cuts key G s'" by auto
qed

text \<open>A queued flag says nothing about the data.\<close>

lemma set_queued_inv:
  assumes "snd_inv blk cuts key G s"
  shows "snd_inv blk cuts key G (set_queued k b s)"
proof -
  let ?m = "red_segments s" and ?m' = "red_segments (set_queued k b s)"
  have entry: "\<exists>d. (j, d) \<in> set ?m \<and> same_data d e" if "(j, e) \<in> set ?m'" for j e
    using that by (auto simp: set_queued_def om_modify_def same_data_def split: if_splits)
  have "seg_bytes (om_modify k (\<lambda>d. d\<lparr>queued_to_send := b\<rparr>) m) = seg_bytes m" for m
    by (induction m) (auto simp: seg_bytes_def om_modify_def seg_range_def split: if_splits)
  then have sb: "seg_bytes ?m' = seg_bytes ?m" by (simp add: set_queued_def)
  have "map fst ?m' = map fst ?m" by (auto simp: set_queued_def om_modify_def)
  then have "om_wf ?m'" using assms by (simp add: snd_inv_def om_wf_def)
  moreover have "keyed ?m'" by (rule keyed_same [of ?m]) (use assms in \<open>simp add: snd_inv_def\<close>, use entry in blast)
  moreover have "cut_of cuts key e" if "(j, e) \<in> set ?m'" for j e
    using entry [OF that] assms cut_of_same unfolding snd_inv_def by blast
  ultimately show ?thesis using assms sb by (auto simp: snd_inv_def) (auto simp: set_queued_def)
qed

lemma xstep_inv:
  assumes "xstep key x y" and "xinv blk cuts key x" and "blk \<noteq> []" and "length blk < 2 ^ 56" and "\<forall>c \<in> set cuts. piece blk c"
    and "same_cuts cuts" and "fits 8 (fst key)" "fits 8 (snd key)"
  shows "xinv blk cuts key y"
  using assms(1)
proof cases
  case (data d d' env out r)
  have "cut_of cuts key d" using assms(2) data(2) by (auto simp: xinv_def)
  note P = cut_piece [OF this assms(5) data(3)]
  show ?thesis unfolding data(1) using P rcv_data [OF _ assms(3) P(1) _ _ P(3,4) assms(6-8) data(4)] by (intro xinv_absorb [OF assms(2)]) blast
next
  case (report q rpt fin sent s)
  obtain G where G: "rcv_inv blk cuts key G (settled x) (xc_cancels x) (xc_receiver x)"
      "\<forall>q \<in> xc_reports x. true_report G q" "snd_inv blk cuts key G (xc_sender x)"
    using assms(2) report(2) unfolding xinv_def by blast
  note R = report_step [OF G(3) bspec [OF G(2) report(3)] report(4) rcv_invD(1) [OF G(1)] assms(4) report(5,6)]
  have "fin \<Longrightarrow> settled x" using R(2) rcv_invD(2) [OF G(1)] by blast
  then show ?thesis unfolding report(1) using assms(2) G R by (auto simp: xinv_def)
next
  case (report_ack a env out r)
  show ?thesis unfolding report_ack(1) using rcv_other [OF _ report_ack(2) _ report_ack(3)] by (intro xinv_absorb [OF assms(2)]) blast
next
  case (cancel_ack c env out r)
  show ?thesis unfolding cancel_ack(1) using cancel_ack(2) rcv_other [OF _ cancel_ack(3) _ cancel_ack(4)]
    by (intro xinv_absorb [OF assms(2)]) auto
next
  case (link_sends k d b)
  obtain G where G: "rcv_inv blk cuts key G (settled x) (xc_cancels x) (xc_receiver x)"
      "\<forall>q \<in> xc_reports x. true_report G q" "snd_inv blk cuts key G (xc_sender x)"
    using assms(2) link_sends(2) unfolding xinv_def by blast
  have "cut_of cuts key d" using G(3) link_sends(3) om_find_SomeD by (fastforce simp: snd_inv_def)
  then show ?thesis unfolding link_sends(1) using assms(2) G set_queued_inv [OF G(3), of k b] by (auto simp: xinv_def)
next
  case (sender_cancel c env out r)
  show ?thesis unfolding sender_cancel(1) using rcv_other [OF _ sender_cancel(3) _ sender_cancel(4)]
    by (intro xinv_absorb [OF assms(2)]) blast
next
  case (report_timeout retry serial out r)
  show ?thesis unfolding report_timeout(1) using rcv_report_timeout [OF _ report_timeout(2)] by (intro xinv_absorb [OF assms(2)]) blast
next
  case (cancel_timeout retry out r)
  show ?thesis unfolding cancel_timeout(1) using rcv_cancel_timeout [OF _ cancel_timeout(2)] by (intro xinv_absorb [OF assms(2)]) blast
next
  case (inactivity out r)
  show ?thesis unfolding inactivity(1) using rcv_inactivity [OF _ inactivity(2)] by (intro xinv_absorb [OF assms(2)]) blast
next
  case closeout
  obtain G where G: "rcv_inv blk cuts key G (settled x) (xc_cancels x) (xc_receiver x)"
      "\<forall>q \<in> xc_reports x. true_report G q" "xc_status x = Active \<longrightarrow> snd_inv blk cuts key G (xc_sender x)"
    using assms(2) unfolding xinv_def by blast
  note R = rcv_closeout [OF G(1)]
  show ?thesis
  proof (cases "closed_session_map (xc_receiver x) (snd key) = None \<or> settled x")
    case True
    then have "settled y = settled x" by (auto simp: closeout)
    then show ?thesis using assms(2) G R(1) [OF True] unfolding xinv_def by (auto simp: closeout)
  next
    case False
    have sub: "G \<subseteq> all_bytes blk" by (rule rcv_invD(1) [OF G(1)])
    have "settled y" using False by (simp add: closeout)
    moreover have "rcv_inv blk cuts key (all_bytes blk) True (xc_cancels y) (xc_receiver y)" using R(2) False by (simp add: closeout)
    moreover have "\<forall>q \<in> xc_reports y. true_report (all_bytes blk) q" using G(2) true_report_mono [OF _ sub] by (simp add: closeout)
    moreover have "xc_status y = Active \<longrightarrow> snd_inv blk cuts key (all_bytes blk) (xc_sender y)"
      using G(3) sub by (auto simp: closeout snd_inv_def)
    ultimately show ?thesis using assms(2) unfolding xinv_def by (auto simp: closeout)
  qed
qed (use assms(2) in \<open>auto simp: xinv_def\<close>)

lemma xreach_inv:
  assumes "xreach key x y" and "xinv blk cuts key x" and "blk \<noteq> []" and "length blk < 2 ^ 56" and "\<forall>c \<in> set cuts. piece blk c"
    and "same_cuts cuts" and "fits 8 (fst key)" "fits 8 (snd key)"
  shows "xinv blk cuts key y"
  using assms(1,2) by (induction rule: xreach.induct) (use xstep_inv assms(3-8) in blast)+

section \<open>The start\<close>

text \<open>The bundles of a session that the segmenter has cut.\<close>

definition formatted :: "ltp_bundle list \<Rightarrow> bool" where
  "formatted bundles \<longleftrightarrow> bundles \<noteq> []
     \<and> (\<forall>(v, pl, blocks) \<in> set bundles. bundle_ok v pl blocks \<and> (\<forall>b \<in> set blocks. bi_locals b = None))"

lemma session_cut:
  assumes "formatted bundles" and "0 < n" and "length (session_block ccsds bundles) < 2 ^ 63"
    and "process_bundles ccsds n pc sz False bundles (session_init eng ses ckpt serial) = Some (sent, s)"
  defines "blk \<equiv> session_block ccsds bundles"
  shows "map payload sent = chunks n blk" "\<forall>d \<in> set sent. piece blk d" "blk \<noteq> []" "sent \<noteq> []"
    and "i < length sent \<Longrightarrow> unat (start_byte (sent ! i)) = n * i"
    and "i < length sent \<Longrightarrow> is_redendofblock (sent ! i) \<longleftrightarrow> Suc i = length sent"
    and "is_checkpoint (last sent)" "red_segments s = filed sent" "red_complete s" "expected_red_bytes s = of_nat (length blk)"
proof -
  have fmt: "\<forall>(v, pl, blocks) \<in> set bundles. bundle_ok v pl blocks \<and> (\<forall>b \<in> set blocks. bi_locals b = None)" "bundles \<noteq> []"
    using assms(1) by (simp_all add: formatted_def)
  from bundles_cut [OF fmt assms(2,3), of pc sz eng ses ckpt serial] assms(4)
  have B: "map payload sent = chunks n blk" "\<forall>d \<in> set sent. piece blk d"
      "\<forall>i < length sent. start_byte (sent ! i) = of_nat (n * i) \<and> (is_redendofblock (sent ! i) \<longleftrightarrow> Suc i = length sent)"
      "is_checkpoint (last sent)" "red_segments s = filed sent" "red_complete s" "expected_red_bytes s = of_nat (length blk)"
    by (simp_all add: blk_def)
  show "map payload sent = chunks n blk" "\<forall>d \<in> set sent. piece blk d" "is_checkpoint (last sent)" "red_segments s = filed sent"
    "red_complete s" "expected_red_bytes s = of_nat (length blk)" using B by simp_all
  have "length sent = length (chunks n blk)" using arg_cong [OF B(1), of length] by simp
  moreover have "chunks n blk \<noteq> []" by (simp add: chunks.simps [of n blk])
  ultimately show ne: "sent \<noteq> []" by auto
  then show "blk \<noteq> []" using B(2) by (cases sent) (auto simp: piece_def)
  then have lt: "n * i < length blk" if "i < length sent" for i using chunks_start [of blk i n] that \<open>length sent = length (chunks n blk)\<close> by simp
  show "unat (start_byte (sent ! i)) = n * i" if "i < length sent"
  proof -
    have "unat (of_nat (n * i) :: u64) = n * i" by (rule of_nat_u64) (use lt [OF that] assms(3) blk_def in simp)
    then show ?thesis using B(3) that by (simp del: of_nat_mult)
  qed
  show "i < length sent \<Longrightarrow> is_redendofblock (sent ! i) \<longleftrightarrow> Suc i = length sent" using B(3) by blast
qed

lemma session_cut_range:
  assumes "formatted bundles" and "0 < n" and "length (session_block ccsds bundles) < 2 ^ 63"
    and "process_bundles ccsds n pc sz False bundles (session_init eng ses ckpt serial) = Some (sent, s)"
    and "i < length sent"
  shows "x \<in> seg_range (sent ! i) \<longleftrightarrow> n * i \<le> unat x \<and> unat x < n * i + length (payload (sent ! i))"
    and "length (payload (sent ! i)) \<le> n" and "Suc i < length sent \<Longrightarrow> length (payload (sent ! i)) = n"
    and "Suc i = length sent \<Longrightarrow> n * i + length (payload (sent ! i)) = length (session_block ccsds bundles)"
proof -
  let ?blk = "session_block ccsds bundles" and ?p = "length (payload (sent ! i))"
  note C = session_cut [OF assms(1-4)]
  have pc: "piece ?blk (sent ! i)" using C(2) assms(5) by simp
  show "x \<in> seg_range (sent ! i) \<longleftrightarrow> n * i \<le> unat x \<and> unat x < n * i + ?p"
    using piece_facts(6) [OF pc] C(5) [OF assms(5)] by simp
  have "payload (sent ! i) \<in> set (chunks n ?blk)" using C(1) assms(5) by (metis imageI list.set_map nth_mem)
  then show le: "?p \<le> n" by (rule chunks_length [OF assms(2)])
  show "Suc i = length sent \<Longrightarrow> n * i + ?p = length ?blk" using C(6) [OF assms(5)] C(5) [OF assms(5)] pc by (simp add: piece_def)
  have e: "unat (start_byte (sent ! i)) + ?p = length ?blk \<longleftrightarrow> is_redendofblock (sent ! i)" using pc by (simp add: piece_def)
  show "?p = n" if "Suc i < length sent"
  proof (rule ccontr)
    assume "?p \<noteq> n"
    have len: "length (chunks n ?blk) = length sent" using arg_cong [OF C(1), of length] by simp
    have nth: "chunks n ?blk ! i = payload (sent ! i)" using C(1) assms(5) by (metis nth_map)
    have "length (chunks n xs ! j) = n" if "Suc j < length (chunks n xs)" for j xs
      using that
    proof (induction j arbitrary: xs)
      case 0 then show ?case by (cases "length xs \<le> n \<or> n = 0") (auto simp: chunks.simps [of n xs])
    next
      case (Suc j) then show ?case by (cases "length xs \<le> n \<or> n = 0") (auto simp: chunks.simps [of n xs])
    qed
    then show False using that len nth \<open>?p \<noteq> n\<close> by metis
  qed
qed

lemma session_same_cuts:
  assumes "formatted bundles" and "0 < n" and "length (session_block ccsds bundles) < 2 ^ 63"
    and "process_bundles ccsds n pc sz False bundles (session_init eng ses ckpt serial) = Some (sent, s)"
  shows "i < length sent \<Longrightarrow> j < length sent \<Longrightarrow> i \<noteq> j \<Longrightarrow> seg_range (sent ! i) \<inter> seg_range (sent ! j) = {}" and "same_cuts sent"
proof -
  note R = session_cut_range [OF assms]
  have le: "n * i + length (payload (sent ! i)) \<le> n * j" if "i < j" "j < length sent" for i j
  proof -
    have "n * Suc i \<le> n * j" using that(1) by (intro mult_le_mono2) simp
    then show ?thesis using R(2) [of i] that by simp
  qed
  show dis: "seg_range (sent ! i) \<inter> seg_range (sent ! j) = {}" if "i < length sent" "j < length sent" "i \<noteq> j" for i j
    using le [of i j] le [of j i] R(1) [of i] R(1) [of j] that by (cases "i < j") fastforce+
  show "same_cuts sent"
    unfolding same_cuts_def
  proof (intro ballI)
    fix d e assume "d \<in> set sent" "e \<in> set sent"
    then obtain i j where "i < length sent" "j < length sent" "d = sent ! i" "e = sent ! j" by (metis in_set_conv_nth)
    then show "seg_range d = seg_range e \<or> seg_range d \<inter> seg_range e = {}" using dis [of i j] by (cases "i = j") auto
  qed
qed

lemma filed_ok:
  assumes "formatted bundles" and "0 < n" and "length (session_block ccsds bundles) < 2 ^ 63"
    and "process_bundles ccsds n pc sz False bundles (session_init eng ses ckpt serial) = Some (sent, s)"
  shows "pieces_ok (session_block ccsds bundles) (filed sent)"
    and "seg_bytes (filed sent) = all_bytes (session_block ccsds bundles)"
proof -
  let ?blk = "session_block ccsds bundles"
  note C = session_cut [OF assms]
  have wf: "om_wf (filed sent)"
    unfolding om_wf_def sorted_wrt_iff_nth_less
    using C(5) assms(2) by (auto simp: word_less_nat_alt)
  have mem: "(k, d) \<in> set (filed sent) \<longleftrightarrow> d \<in> set sent \<and> k = start_byte d" for k d by auto
  have "seg_range d \<inter> seg_range e = {}" if de: "(k, d) \<in> set (filed sent)" "(j, e) \<in> set (filed sent)" "k \<noteq> j" for k d j e
  proof -
    obtain a b where "a < length sent" "b < length sent" "d = sent ! a" "e = sent ! b" "a \<noteq> b"
      using de unfolding mem by (metis in_set_conv_nth)
    then show ?thesis using session_same_cuts(1) [OF assms, of a b] by simp
  qed
  then show pc: "pieces_ok ?blk (filed sent)" using wf C(2) unfolding pieces_ok_def mem by blast
  have "chunk_sum (seg_view (filed sent)) = length (concat (map payload sent))"
    by (simp add: seg_view_def length_concat comp_def case_prod_unfold)
  also have "\<dots> = length ?blk" using C(1) chunks_concat [OF assms(2)] by simp
  finally show "seg_bytes (filed sent) = all_bytes ?blk" using pieces_full [OF pc assms(3)] by simp
qed

lemma start_inv:
  assumes "formatted bundles" and "0 < n" and "length (session_block ccsds bundles) < 2 ^ 63"
    and "process_bundles ccsds n pc sz False bundles (session_init eng ses ckpt serial) = Some (sent, s)"
  shows "xinv (session_block ccsds bundles) sent (eng, ses) (xc_start sent s)"
proof -
  let ?blk = "session_block ccsds bundles"
  note C = session_cut [OF assms] and F = filed_ok [OF assms]
  have ne: "{} \<noteq> all_bytes ?blk" using C(3) by (auto simp: all_bytes_def intro: exI [of _ 0])
  have ad: "addressed (eng, ses) (if ccsds then 2 else 1) d" if "d \<in> set sent" for d by (rule bundles_addressed(1) [OF assms(4) that])
  have cut: "cut_of sent (eng, ses) d" if "d \<in> set sent" for d
    using ad [OF that] that by (auto simp: cut_of_def addressed_def intro: bexI [of _ d])
  have "keyed (filed sent)"
    using C(2) ad piece_facts(4) by (fastforce simp: keyed_def addressed_def piece_def is_red_def)
  then have "snd_inv ?blk sent (eng, ses) {} s"
    using C(8-10) F(2) pieces_okD(1) [OF F(1)] cut by (auto simp: snd_inv_def)
  moreover have "rcv_inv ?blk sent (eng, ses) {} False False \<lparr>incoming_sessions = (\<lambda>_. None), closed_session_map = (\<lambda>_. None)\<rparr>"
    using ne by (simp add: rcv_inv_def)
  ultimately show ?thesis using cut by (auto simp: xinv_def xc_start_def intro!: exI [of _ "{}"])
qed

section \<open>A run without losses\<close>

text \<open>
  Every segment arrives once, in order, and every report is acknowledged at once. The random numbers are
  fixed and the bundle store has room.
\<close>

definition calm :: rcv_env where
  "calm = \<lparr>env_checkpoint = 1, env_serial = 0, env_closed_serial = 1, env_queue_ok = True, env_reserve = (\<lambda>_. True), env_seg_size = 1400, env_fuel = 1\<rparr>"

lemma one_report:
  assumes "report_segments s = []"
    and "red_complete s \<and> red_bytes_received s = expected_red_bytes s \<or> stop_byte ds + 1 \<le> first_contiguous_bytes s"
  defines "s1 \<equiv> s\<lparr>ds_offset_to_upperbounds := om_assign (offset ds) (stop_byte ds + 1) (ds_offset_to_upperbounds s)\<rparr>"
    and "v \<equiv> (if red_complete s \<and> red_bytes_received s = expected_red_bytes s then red_bytes_received s else stop_byte ds + 1)"
  shows "have_report_segments_to_send ds z s = Some (True, v, make_report (checkpoint_id ds) (0, v, v, [(0, v)]) s1)"
proof -
  have "report_plan s lower (stop_byte ds + 1) z = Some (v, [(0, v, v, [(0, v)])])" for lower
    using assms(2) by (auto simp: report_plan_def v_def)
  then show ?thesis
    using assms(1) by (simp add: have_report_segments_to_send_def generate_report_segments_def s1_def Let_def)
qed

lemma one_report_sent:
  assumes "report_segments (rcv_sess t) = []" and "is_checkpoint d"
    and "red_complete (rcv_sess t) \<and> red_bytes_received (rcv_sess t) = expected_red_bytes (rcv_sess t)
       \<or> stop_byte d + 1 \<le> first_contiguous_bytes (rcv_sess t)"
  defines "v \<equiv> (if red_complete (rcv_sess t) \<and> red_bytes_received (rcv_sess t) = expected_red_bytes (rcv_sess t)
       then red_bytes_received (rcv_sess t) else stop_byte d + 1)"
    and "ser \<equiv> report_serial_number (rcv_sess t) + 1"
    and "base \<equiv> session_report_base (rcv_sess t)"
  shows "\<exists>t'. answer_checkpoint calm d t = Some ([Send (Seg_RS (new_report_segment base ser (checkpoint_id d) 0 v v [(0, v)]))], t')
    \<and> report_segments (rcv_sess t') = [(ser, new_report_segment base ser (checkpoint_id d) 0 v v [(0, v)])]
    \<and> report_serial_number (rcv_sess t') = ser"
proof -
  let ?s = "session_set_checkpoint_id (checkpoint_id d) (rcv_sess t)"
  have r: "report_segments ?s = []" "red_complete ?s \<and> red_bytes_received ?s = expected_red_bytes ?s \<or> stop_byte d + 1 \<le> first_contiguous_bytes ?s"
    using assms(1,3) by (simp_all add: session_set_checkpoint_id_def)
  define s1 where "s1 = ?s\<lparr>ds_offset_to_upperbounds := om_assign (offset d) (stop_byte d + 1) (ds_offset_to_upperbounds ?s)\<rparr>"
  define q where "q = new_report_segment base ser (checkpoint_id d) 0 v v [(0, v)]"
  have "session_report_base s1 = base" "report_serial_number s1 + 1 = ser" "report_segments s1 = []"
    using assms(1) by (simp_all add: s1_def session_set_checkpoint_id_def session_report_base_def base_def ser_def)
  then have m: "make_report (checkpoint_id d) (0, v, v, [(0, v)]) s1 = s1\<lparr>report_serial_number := ser, report_segments := [(ser, q)]\<rparr>"
    by (simp add: make_report_def get_next_report_serial_number_def q_def new_report_fields [OF refl] Let_def)
  have v: "(if red_complete ?s \<and> red_bytes_received ?s = expected_red_bytes ?s then red_bytes_received ?s else stop_byte d + 1) = v"
    by (simp add: v_def session_set_checkpoint_id_def)
  have h: "have_report_segments_to_send d 1400 ?s = Some (True, v, s1\<lparr>report_serial_number := ser, report_segments := [(ser, q)]\<rparr>)"
    using one_report [OF r, of 1400] unfolding v s1_def [symmetric] m .
  have "checkpoint_id q = checkpoint_id d" by (simp add: q_def new_report_fields [OF refl])
  then show ?thesis
    using assms(2) h unfolding q_def [symmetric] by (simp add: answer_checkpoint_def generate_RS_def calm_def)
qed

text \<open>A session that has received the first \<open>m\<close> bytes of the block.\<close>

definition got_first :: "bytes \<Rightarrow> ltp_data_segment list \<Rightarrow> session_key \<Rightarrow> nat \<Rightarrow> nat \<Rightarrow> rcv_session \<Rightarrow> bool" where
  "got_first blk cuts key m i t \<longleftrightarrow> \<not> is_ltp_cancelled t \<and> rcv_ok blk cuts t \<and> \<not> red_processed (rcv_sess t)
     \<and> held t = {x. unat x < m} \<and> unat (report_serial_number (rcv_sess t)) \<le> i
     \<and> (sess_engine_id (rcv_sess t), sess_session_id (rcv_sess t)) = key"

lemma add_serial:
  assumes "add_segment_incoming fuel d True s = Some (v, s')" and "red_green_none d = RED_SEGMENT"
  shows "report_serial_number (note_endofblock d s') = report_serial_number s" "report_segments (note_endofblock d s') = report_segments s"
    "sess_engine_id (note_endofblock d s') = sess_engine_id s" "sess_session_id (note_endofblock d s') = sess_session_id s"
  using assms
  by (auto simp: add_segment_incoming_def check_and_trim_def store_red_def note_endofblock_def set_eob_def Let_def
      split: if_splits option.splits prod.splits)

lemma next_added:
  assumes up: "got_first blk cuts key m i t" and d: "piece blk d" "d \<in> set cuts" "unat (start_byte d) = m" and cuts: "same_cuts cuts"
  shows "\<exists>s. add_segment_incoming fuel d True (rcv_sess t) = Some (0, s) \<and> sess_ok blk cuts (note_endofblock d s)
    \<and> \<not> red_processed (note_endofblock d s) \<and> seg_bytes (red_segments (note_endofblock d s)) = {x. unat x < m + length (payload d)}"
proof -
  have ok: "sess_ok blk cuts (rcv_sess t)" "\<not> red_processed (rcv_sess t)" "held t = {x. unat x < m}"
    using up by (auto simp: got_first_def rcv_ok_def)
  have "start_byte d \<in> seg_range d" by (rule piece_first [OF d(1)])
  then have "\<not> seg_range d \<subseteq> held t" using d(3) ok(3) by auto
  moreover have "held t \<union> seg_range d = {x. unat x < m + length (payload d)}" using piece_facts(6) [OF d(1)] d(3) ok(3) by auto
  ultimately show ?thesis using add_piece(2) [OF ok(1,2) d(1,2) refl cuts, of fuel] by metis
qed

lemma prefix_received:
  assumes "sess_ok blk cuts s" and "seg_bytes (red_segments s) = {x. unat x < m}" and "unat v = m"
  shows "v \<le> first_contiguous_bytes s"
proof -
  have "contig_inv (red_contig_blocks s) (first_contiguous_bytes s)" using reassembly_invD(1) [OF sess_okD(1) [OF assms(1)]] by simp
  then have "first_contiguous_bytes s \<notin> seg_bytes (red_segments s)"
    using contig_bytes [OF assms(1)] by (simp add: contig_inv_def prefix_len_def)
  then show ?thesis using assms(2,3) by (simp add: word_le_nat_alt)
qed

lemma handler_unfold:
  assumes up: "got_first blk cuts key m i t" and d: "piece blk d" "d \<in> set cuts" "unat (start_byte d) = m"
    "client_service_id d = 1 \<or> client_service_id d = 2" and cuts: "same_cuts cuts"
    and s: "add_segment_incoming (env_fuel calm) d True (rcv_sess t) = Some (0, s)"
  shows "process_incoming_data_segment calm d t = after_adding calm d (t\<lparr>sess_state := STATE_DS, rcv_sess := s\<rparr>)"
proof -
  have ok: "sess_ok blk cuts (rcv_sess t)" "\<not> red_processed (rcv_sess t)" using up by (auto simp: got_first_def rcv_ok_def)
  have "\<not> green_processed (rcv_sess t)" using sess_okD(3) [OF ok(1)] .
  moreover have "incoming_segment (env_fuel calm) d (rcv_sess t) = d" by (rule add_piece(1) [OF ok d(1,2) refl cuts])
  ultimately show ?thesis using d(4) ok(2) s by (auto simp: process_incoming_data_segment_def data_processed_def Let_def)
qed

lemma next_segment:
  assumes up: "got_first blk cuts key m i t" and rs: "report_segments (rcv_sess t) = []"
    and d: "piece blk d" "d \<in> set cuts" "unat (start_byte d) = m" "client_service_id d = 1 \<or> client_service_id d = 2"
    and cuts: "same_cuts cuts" and part: "m + length (payload d) < length blk"
  shows "\<exists>out t'. process_incoming_data_segment calm d t = Some (out, t', False) \<and> got_first blk cuts key (m + length (payload d)) (Suc i) t'
    \<and> (report_segments (rcv_sess t') = [] \<or> (\<exists>k q. report_segments (rcv_sess t') = [(k, q)]))"
proof -
  let ?m = "m + length (payload d)"
  obtain s where s: "add_segment_incoming (env_fuel calm) d True (rcv_sess t) = Some (0, s)" "sess_ok blk cuts (note_endofblock d s)"
      "\<not> red_processed (note_endofblock d s)" "seg_bytes (red_segments (note_endofblock d s)) = {x. unat x < ?m}"
    using next_added [OF up d(1-3) cuts] by blast
  have red: "red_green_none d = RED_SEGMENT" and blk: "length blk < 2 ^ 63" using d(1) by (simp_all add: piece_def)
  note F = add_serial [OF s(1) red]
  define t1 where "t1 = t\<lparr>sess_state := STATE_DS, rcv_sess := note_endofblock d s\<rparr>"
  have t1: "rcv_sess t1 = note_endofblock d s" "\<not> is_ltp_cancelled t1" "cancel_seg t1 = cancel_seg t" by (simp_all add: t1_def is_ltp_cancelled_def)
  have "unat (of_nat (length blk - 1) :: u64) = length blk - 1" using blk by (intro of_nat_u64) simp
  then have ne: "{x. unat x < ?m} \<noteq> all_bytes blk"
    using part by (auto simp: all_bytes_def set_eq_iff intro!: exI [of _ "of_nat (length blk - 1)"])
  have bne: "blk \<noteq> []" using part by auto
  have "reassembly_inv blk (note_endofblock d s)" using sess_okD(1) [OF s(2)] not_processed [OF s(3)] by simp
  from reassembly_full [OF this bne blk] have full: "is_red_full (rcv_sess t1) = 0" using s(4) ne t1(1) by simp
  have "unat (stop_byte d + 1) = ?m" using piece_facts(3) [OF d(1)] d(3) by simp
  then have pre: "stop_byte d + 1 \<le> first_contiguous_bytes (rcv_sess t1)" using prefix_received [OF s(2,4)] t1(1) by simp
  have rs1: "report_segments (rcv_sess t1) = []" using rs F(2) t1(1) by simp
  have ck: "\<exists>out t'. answer_checkpoint calm d t1 = Some (out, t') \<and> (report_segments (rcv_sess t') = [] \<or> (\<exists>k q. report_segments (rcv_sess t') = [(k, q)]))
      \<and> unat (report_serial_number (rcv_sess t')) \<le> Suc i"
  proof (cases "is_checkpoint d")
    case True
    show ?thesis using one_report_sent [OF rs1 True] pre unat_succ_le [of "report_serial_number (rcv_sess t1)"] up F(1) t1(1)
      by (fastforce simp: got_first_def)
  next
    case False
    then show ?thesis using rs1 up F(1) t1(1) by (simp add: answer_checkpoint_def got_first_def)
  qed
  then obtain out t' where a: "answer_checkpoint calm d t1 = Some (out, t')"
      "report_segments (rcv_sess t') = [] \<or> (\<exists>k q. report_segments (rcv_sess t') = [(k, q)])" "unat (report_serial_number (rcv_sess t')) \<le> Suc i" by blast
  have stop: "0 < stop_byte d + 1" using \<open>unat (stop_byte d + 1) = ?m\<close> d(1) by (simp add: piece_def word_less_nat_alt)
  have ok1: "sess_ok blk cuts (rcv_sess t1)" using s(2) t1(1) by simp
  note A = answer_checkpoint_ok [OF ok1 bne blk stop a(1) t1(2)]
  have "after_adding calm d (t\<lparr>sess_state := STATE_DS, rcv_sess := s\<rparr>) = Some (out, t', False)"
    using full a(1) no_green [OF sess_okD(2) [OF A(2)]] by (simp add: after_adding_def t1_def)
  then have "process_incoming_data_segment calm d t = Some (out, t', False)" using handler_unfold [OF up d cuts s(1)] by simp
  moreover have "held t' = {x. unat x < ?m}" "\<not> red_processed (rcv_sess t')" "(sess_engine_id (rcv_sess t'), sess_session_id (rcv_sess t')) = key"
    using A(1) s(3,4) t1(1) up F(3,4) by (simp_all add: same_receipt_def got_first_def)
  then have "got_first blk cuts key ?m (Suc i) t'" using A(2,3) ne a(3) by (simp add: got_first_def rcv_ok_def)
  ultimately show ?thesis using a(2) by blast
qed

lemma last_segment:
  assumes up: "got_first blk cuts key m i t" and rs: "report_segments (rcv_sess t) = []"
    and d: "piece blk d" "d \<in> set cuts" "unat (start_byte d) = m" "client_service_id d = 1 \<or> client_service_id d = 2"
    and cuts: "same_cuts cuts" and full: "m + length (payload d) = length blk" and ck: "is_checkpoint d"
  shows "\<exists>out t' base ser. process_incoming_data_segment calm d t = Some (out, t', False) \<and> unat ser \<le> Suc i
    \<and> (engine_id base, session_id base) = key
    \<and> Send (Seg_RS (new_report_segment base ser (checkpoint_id d) 0 (of_nat (length blk)) (of_nat (length blk)) [(0, of_nat (length blk))])) \<in> set out"
proof -
  let ?N = "of_nat (length blk) :: u64"
  obtain s where s: "add_segment_incoming (env_fuel calm) d True (rcv_sess t) = Some (0, s)" "sess_ok blk cuts (note_endofblock d s)"
      "\<not> red_processed (note_endofblock d s)" "seg_bytes (red_segments (note_endofblock d s)) = {x. unat x < length blk}"
    using next_added [OF up d(1-3) cuts] full by metis
  have red: "red_green_none d = RED_SEGMENT" and blk: "length blk < 2 ^ 63" "blk \<noteq> []" using d(1) by (auto simp: piece_def)
  note F = add_serial [OF s(1) red]
  define t1 where "t1 = t\<lparr>sess_state := STATE_DS, rcv_sess := note_endofblock d s\<rparr>"
  have t1: "rcv_sess t1 = note_endofblock d s" "\<not> is_ltp_cancelled t1" by (simp_all add: t1_def is_ltp_cancelled_def)
  have len: "unat ?N = length blk" by (rule of_nat_u64) (use blk(1) in simp)
  have "reassembly_inv blk (note_endofblock d s)" using sess_okD(1) [OF s(2)] not_processed [OF s(3)] by simp
  then have f: "is_red_full (rcv_sess t1) = ?N" using reassembly_full [of blk "note_endofblock d s"] blk s(4) t1(1) by (simp add: all_bytes_def)
  have pos: "0 < ?N" using len blk(2) by (simp add: word_less_nat_alt)
  have all: "red_complete (rcv_sess t1) \<and> red_bytes_received (rcv_sess t1) = expected_red_bytes (rcv_sess t1)" "red_bytes_received (rcv_sess t1) = ?N"
    using f pos by (auto simp: is_red_full_def split: if_splits)
  have rs1: "report_segments (rcv_sess t1) = []" using rs F(2) t1(1) by simp
  define ser where "ser = report_serial_number (rcv_sess t1) + 1"
  define q where "q = new_report_segment (session_report_base (rcv_sess t1)) ser (checkpoint_id d) 0 ?N ?N [(0, ?N)]"
  obtain t' where a: "answer_checkpoint calm d t1 = Some ([Send (Seg_RS q)], t')"
    using one_report_sent [OF rs1 ck disjI1 [OF all(1)]] all by (auto simp: q_def ser_def)
  have stop: "0 < stop_byte d + 1" using piece_facts(3) [OF d(1)] d(1) by (simp add: piece_def word_less_nat_alt)
  have ok1: "sess_ok blk cuts (rcv_sess t1)" using s(2) t1(1) by simp
  note A = answer_checkpoint_ok [OF ok1 blk(2,1) stop a t1(2)]
  have "is_red_full (rcv_sess t') > 0" using same_receipt_full [OF A(1)] f pos by simp
  then have g: "get_all_red_data (rcv_sess t') = Some (red_segments (rcv_sess t'), (rcv_sess t')\<lparr>red_processed := True\<rparr>)"
    by (simp add: get_all_red_data_def)
  let ?t = "t'\<lparr>rcv_sess := (rcv_sess t')\<lparr>red_processed := True\<rparr>\<rparr>"
  have ng: "\<not> green_complete (rcv_sess ?t)" using sess_okD(2) [OF A(2)] by simp
  have "after_adding calm d (t\<lparr>sess_state := STATE_DS, rcv_sess := s\<rparr>)
      = Some ([Send (Seg_RS q)] @ [Post (red_segments (rcv_sess t')) ?N (client_service_id d = 2)], ?t, False)"
    using f pos a g no_green [OF ng] by (simp add: after_adding_def t1_def calm_def)
  then have "process_incoming_data_segment calm d t
      = Some ([Send (Seg_RS q)] @ [Post (red_segments (rcv_sess t')) ?N (client_service_id d = 2)], ?t, False)"
    using handler_unfold [OF up d cuts s(1)] by simp
  moreover have "unat ser \<le> Suc i" using unat_succ_le [of "report_serial_number (rcv_sess t1)"] up F(1) t1(1) by (simp add: ser_def got_first_def)
  moreover have "(engine_id (session_report_base (rcv_sess t1)), session_id (session_report_base (rcv_sess t1))) = key"
    using up F(3,4) t1(1) by (simp add: session_report_base_def got_first_def)
  ultimately show ?thesis unfolding q_def by (intro exI conjI) auto
qed

text \<open>The receiver is ready for the segment that starts at \<open>m\<close>.\<close>

definition ready :: "bytes \<Rightarrow> ltp_data_segment list \<Rightarrow> session_key \<Rightarrow> nat \<Rightarrow> nat \<Rightarrow> ltp_receiver \<Rightarrow> bool" where
  "ready blk cuts key m i r \<longleftrightarrow> closed_session_map r (snd key) = None
     \<and> (case incoming_sessions r key of
          None \<Rightarrow> m = 0
        | Some t \<Rightarrow> got_first blk cuts key m i t \<and> report_segments (rcv_sess t) = [])"

lemma ready_session:
  assumes "ready blk cuts key m i r" and "blk \<noteq> []" and "fits 8 (fst key)" "fits 8 (snd key)" and "seg_key (Seg_DS d) = key"
  shows "\<exists>t. got_first blk cuts key m i t \<and> report_segments (rcv_sess t) = []
    \<and> process_segment_for_receiver calm (Seg_DS d) r = map_option (settle key (put_session key t r)) (process_incoming_data_segment calm d t)"
proof (cases "incoming_sessions r key")
  case None
  let ?t = "new_rcv_session calm (fst key) (snd key)"
  have "{} \<noteq> all_bytes blk" using assms(2) by (auto simp: all_bytes_def intro: exI [of _ 0])
  then have "got_first blk cuts key m i ?t"
    using assms(1) None sess_ok_new [OF assms(3,4), of blk cuts "env_checkpoint calm" "env_serial calm"]
    by (simp add: ready_def got_first_def rcv_ok_def new_rcv_session_def session_init_def is_ltp_cancelled_def seg_bytes_def calm_def)
  then show ?thesis
    using assms(1,5) None
    by (intro exI [of _ ?t]) (simp add: ready_def process_segment_for_receiver_def find_incoming_session_def open_session_segment_def
        put_session_def new_rcv_session_def session_init_def is_ltp_cancelled_def Let_def)
next
  case (Some t)
  have "put_session key t r = r" using Some by (simp add: put_session_def fun_upd_idem)
  then show ?thesis
    using assms(1,5) Some
    by (intro exI [of _ t]) (auto simp: ready_def got_first_def process_segment_for_receiver_def find_incoming_session_def
        open_session_segment_def Let_def)
qed

lemma put_put: "put_session key t (put_session key t' r) = put_session key t r"
  by (simp add: put_session_def)

lemma ack_report:
  assumes "got_first blk cuts key m i t" and "report_segments (rcv_sess t) = [(k, q)]" and "closed_session_map r (snd key) = None"
  shows "\<exists>a t'. seg_key (Seg_RAS a) = key \<and> got_first blk cuts key m i t' \<and> report_segments (rcv_sess t') = []
    \<and> process_segment_for_receiver env (Seg_RAS a) (put_session key t r) = Some ([], put_session key t' r)"
proof -
  let ?a = "base_segment\<lparr>engine_id := fst key, session_id := snd key, serial_number := k\<rparr>"
  let ?t = "(cleanup_RS k t)\<lparr>sess_state := STATE_DS\<rparr>"
  have ok: "rcv_ok blk cuts t" "\<not> is_ltp_cancelled t" "\<not> red_processed (rcv_sess t)" using assms(1) by (auto simp: got_first_def)
  have empty: "om_erase k (report_segments (rcv_sess t)) = []" using assms(2) by (simp add: om_erase_def)
  have "rcv_ok blk cuts (cleanup_RS k t)" unfolding cleanup_RS_def empty by (rule reports_frame [OF ok(1)]) simp
  then have "got_first blk cuts key m i ?t" using assms(1) by (simp add: got_first_def cleanup_RS_def rcv_ok_def is_ltp_cancelled_def)
  moreover have "\<not> data_processed (rcv_sess (cleanup_RS k t))"
    using ok(1,3) sess_okD(3) by (auto simp: data_processed_def cleanup_RS_def rcv_ok_def)
  then have "process_segment_for_receiver env (Seg_RAS ?a) (put_session key t r) = Some ([], put_session key ?t r)"
    using assms(3) ok(2)
    by (simp add: process_segment_for_receiver_def find_incoming_session_def open_session_segment_def seg_key_def put_session_def Let_def)
  moreover have "seg_key (Seg_RAS ?a) = key" by (simp add: seg_key_def)
  ultimately show ?thesis using empty by (intro exI [of _ ?a] exI [of _ ?t]) (simp add: cleanup_RS_def)
qed

lemma xreach_trans: "xreach key y z \<Longrightarrow> xreach key x y \<Longrightarrow> xreach key x z"
  by (induction rule: xreach.induct) (auto intro: xreach.intros)

lemma intact_refl [simp]: "intact d d"
  by (simp add: intact_def)

lemma run_segment:
  assumes "ready blk cuts key m i (xc_receiver x)" and "d \<in> xc_data x"
    and d: "piece blk d" "d \<in> set cuts" "unat (start_byte d) = m" "client_service_id d = 1 \<or> client_service_id d = 2"
      "(engine_id d, session_id d) = key"
    and cuts: "same_cuts cuts" and part: "m + length (payload d) < length blk" and fit: "fits 8 (fst key)" "fits 8 (snd key)"
  shows "\<exists>y. xreach key x y \<and> ready blk cuts key (m + length (payload d)) (Suc i) (xc_receiver y)
    \<and> xc_sender y = xc_sender x \<and> xc_status y = xc_status x \<and> xc_data y = xc_data x \<and> xc_forgot y = xc_forgot x"
proof -
  let ?r = "xc_receiver x" and ?m = "m + length (payload d)"
  have blk: "blk \<noteq> []" using part by auto
  have key: "seg_key (Seg_DS d) = key" using d(5) by (simp add: seg_key_def)
  have closed: "closed_session_map ?r (snd key) = None" using assms(1) by (simp add: ready_def)
  obtain t where t: "got_first blk cuts key m i t" "report_segments (rcv_sess t) = []"
      "process_segment_for_receiver calm (Seg_DS d) ?r = map_option (settle key (put_session key t ?r)) (process_incoming_data_segment calm d t)"
    using ready_session [OF assms(1) blk fit key] by blast
  obtain out t' where n: "process_incoming_data_segment calm d t = Some (out, t', False)" "got_first blk cuts key ?m (Suc i) t'"
      "report_segments (rcv_sess t') = [] \<or> (\<exists>k q. report_segments (rcv_sess t') = [(k, q)])"
    using next_segment [OF t(1,2) d(1-4) cuts part] by blast
  have st: "process_segment_for_receiver calm (Seg_DS d) ?r = Some (out, put_session key t' ?r)" using t(3) n(1) by (simp add: settle_def put_put)
  let ?y = "absorb out (put_session key t' ?r) x"
  have y: "xreach key x ?y" by (rule xreach.step [OF xreach.start xstep.data [OF assms(2) intact_refl st]])
  have rd: "ready blk cuts key ?m (Suc i) (put_session key u ?r)" if "got_first blk cuts key ?m (Suc i) u" "report_segments (rcv_sess u) = []" for u
    using that closed by (simp add: ready_def put_session_def)
  from n(3) show ?thesis
  proof
    assume "report_segments (rcv_sess t') = []"
    then show ?thesis using y rd [OF n(2)] by (intro exI [of _ ?y]) (simp add: absorb_def)
  next
    assume "\<exists>k q. report_segments (rcv_sess t') = [(k, q)]"
    then obtain a u where a: "seg_key (Seg_RAS a) = key" "got_first blk cuts key ?m (Suc i) u" "report_segments (rcv_sess u) = []"
        "process_segment_for_receiver calm (Seg_RAS a) (put_session key t' ?r) = Some ([], put_session key u ?r)"
      using ack_report [OF n(2) _ closed] by blast
    have "xstep key ?y (absorb [] (put_session key u ?r) ?y)"
      by (rule xstep.report_ack [OF a(1)]) (use a(4) in \<open>simp add: absorb_def\<close>)
    then have "xreach key x (absorb [] (put_session key u ?r) ?y)" using y xreach.step by blast
    then show ?thesis using rd [OF a(2,3)] by (intro exI [of _ "absorb [] (put_session key u ?r) ?y"]) (simp add: absorb_def)
  qed
qed

lemma run_prefix:
  assumes "formatted bundles" and "0 < n" and "length (session_block ccsds bundles) < 2 ^ 63" and "fits 8 eng" "fits 8 ses"
    and "process_bundles ccsds n pc sz False bundles (session_init eng ses ckpt serial) = Some (sent, s)" and "i < length sent"
  shows "\<exists>x. xreach (eng, ses) (xc_start sent s) x \<and> ready (session_block ccsds bundles) sent (eng, ses) (n * i) i (xc_receiver x)
    \<and> xc_sender x = s \<and> xc_status x = Active \<and> xc_data x = set sent \<and> \<not> xc_forgot x"
  using assms(7)
proof (induction i)
  case 0
  have "ready (session_block ccsds bundles) sent (eng, ses) (n * 0) 0 (xc_receiver (xc_start sent s))" by (simp add: ready_def xc_start_def)
  then show ?case by (intro exI [of _ "xc_start sent s"]) (simp add: xc_start_def xreach.start)
next
  case (Suc i)
  let ?blk = "session_block ccsds bundles"
  note C = session_cut [OF assms(1-3,6)] and R = session_cut_range [OF assms(1-3,6)]
  obtain x where x: "xreach (eng, ses) (xc_start sent s) x" "ready ?blk sent (eng, ses) (n * i) i (xc_receiver x)"
      "xc_sender x = s" "xc_status x = Active" "xc_data x = set sent" "\<not> xc_forgot x"
    using Suc.IH Suc.prems by auto
  let ?d = "sent ! i"
  have i: "i < length sent" using Suc.prems by simp
  have d: "?d \<in> set sent" "piece ?blk ?d" "unat (start_byte ?d) = n * i" using i C(2,5) by simp_all
  have ad: "addressed (eng, ses) (if ccsds then 2 else 1) ?d" by (rule bundles_addressed(1) [OF assms(6) d(1)])
  have len: "length (payload ?d) = n" using R(3) [OF i] Suc.prems by simp
  have "piece ?blk (sent ! Suc i)" "unat (start_byte (sent ! Suc i)) = n * Suc i" using Suc.prems C(2,5) by simp_all
  then have part: "n * i + length (payload ?d) < length ?blk" using len by (auto simp: piece_def)
  obtain y where "xreach (eng, ses) x y" "ready ?blk sent (eng, ses) (n * i + length (payload ?d)) (Suc i) (xc_receiver y)"
      "xc_sender y = xc_sender x" "xc_status y = xc_status x" "xc_data y = xc_data x" "xc_forgot y = xc_forgot x"
    using run_segment [OF x(2) _ d(2,1,3) _ _ session_same_cuts(2) [OF assms(1-3,6)] part] d(1) x(5) ad assms(4,5)
    by (auto simp: addressed_def split: if_splits)
  then show ?case using x len xreach_trans by (intro exI [of _ y]) (auto simp: add.commute)
qed

lemma whole_report_completes:
  assumes "rs_ready base" and "fits 8 ser" "fits 8 ck" and "length blk < 2 ^ 56" and "blk \<noteq> []"
    and "red_complete s" and "expected_red_bytes s = of_nat (length blk)"
  defines "q \<equiv> new_report_segment base ser ck 0 (of_nat (length blk)) (of_nat (length blk)) [(0, of_nat (length blk))]"
  shows "report_in_range q" and "\<exists>rpt s'. rs_parse_buffer (packet q) blank_report_segment = Inr (0, rpt)
    \<and> process_report False rpt s = Some (True, [], s')"
proof -
  let ?N = "of_nat (length blk) :: u64"
  have len: "unat ?N = length blk" by (rule of_nat_u64) (use assms(4) in simp)
  then have fit: "fits 8 ?N" "fits 8 0" using assms(4) by (simp_all add: fits_iff)
  show "report_in_range q" using assms(2,3) fit by (simp add: report_in_range_def q_def new_report_fields [OF refl])
  have "claims_fit 0 [(0, ?N)]" using fit by (simp add: claims_fit_def)
  then obtain rpt where r: "rs_parse_buffer (packet q) blank_report_segment = Inr (0, rpt)" "lower_bounds rpt = 0"
      "claim_map rpt = rel_claims 0 [(0, ?N)]" "claimed_bytes rpt = ?N"
    using new_report_parse [OF assms(1-3) fit(2,1), of "[(0, ?N)]" ?N] by (auto simp: q_def rel_claims_def)
  then have "claims_entire_session rpt s" using assms(6,7) by (simp add: claims_entire_session_def rel_claims_def)
  then show "\<exists>rpt s'. rs_parse_buffer (packet q) blank_report_segment = Inr (0, rpt) \<and> process_report False rpt s = Some (True, [], s')"
    using r(1) by (simp add: process_report_def)
qed

lemma lossless_run:
  assumes "formatted bundles" and "0 < n" and "length (session_block ccsds bundles) < 2 ^ 55" and "fits 8 eng" "fits 8 ses"
    and "unat ckpt < 2 ^ 14"
    and "process_bundles ccsds n pc sz False bundles (session_init eng ses ckpt serial) = Some (sent, s)"
  shows "\<exists>x. xreach (eng, ses) (xc_start sent s) x \<and> xc_status x = Completed \<and> \<not> xc_forgot x"
proof -
  let ?blk = "session_block ccsds bundles" and ?key = "(eng, ses)"
  have blk: "length ?blk < 2 ^ 63" "length ?blk < 2 ^ 56" using assms(3) by simp_all
  note C = session_cut [OF assms(1,2) blk(1) assms(7)] and R = session_cut_range [OF assms(1,2) blk(1) assms(7)]
  define i where "i = length sent - 1"
  have i: "i < length sent" "Suc i = length sent" using C(4) by (simp_all add: i_def)
  obtain x where x: "xreach ?key (xc_start sent s) x" "ready ?blk sent ?key (n * i) i (xc_receiver x)"
      "xc_sender x = s" "xc_status x = Active" "xc_data x = set sent" "\<not> xc_forgot x"
    using run_prefix [OF assms(1,2) blk(1) assms(4,5,7) i(1)] by blast
  let ?d = "sent ! i"
  have d: "?d \<in> set sent" "piece ?blk ?d" "unat (start_byte ?d) = n * i" using i C(2,5) by simp_all
  have ad: "addressed ?key (if ccsds then 2 else 1) ?d" "unat (checkpoint_id ?d) \<le> unat ckpt + length sent"
    using bundles_addressed [OF assms(7) d(1)] by simp_all
  have key: "seg_key (Seg_DS ?d) = ?key" using ad(1) by (simp add: seg_key_def addressed_def)
  have ck: "is_checkpoint ?d" using C(4,7) by (simp add: last_conv_nth i_def)
  obtain t where t: "got_first ?blk sent ?key (n * i) i t" "report_segments (rcv_sess t) = []"
      "process_segment_for_receiver calm (Seg_DS ?d) (xc_receiver x)
         = map_option (settle ?key (put_session ?key t (xc_receiver x))) (process_incoming_data_segment calm ?d t)"
    using ready_session [OF x(2) C(3) _ _ key] assms(4,5) by auto
  have csid: "client_service_id ?d = 1 \<or> client_service_id ?d = 2" using ad(1) by (auto simp: addressed_def)
  obtain out t' base ser where l: "process_incoming_data_segment calm ?d t = Some (out, t', False)" "unat ser \<le> Suc i"
      "(engine_id base, session_id base) = ?key"
      "Send (Seg_RS (new_report_segment base ser (checkpoint_id ?d) 0 (of_nat (length ?blk)) (of_nat (length ?blk)) [(0, of_nat (length ?blk))])) \<in> set out"
    using last_segment [OF t(1,2) d(2,1,3) csid session_same_cuts(2) [OF assms(1,2) blk(1) assms(7)] R(4) [OF i] ck] by blast
  define y where "y = absorb out (put_session ?key t' (xc_receiver x)) x"
  have "process_segment_for_receiver calm (Seg_DS ?d) (xc_receiver x) = Some (out, put_session ?key t' (xc_receiver x))"
    using t(3) l(1) by (simp add: settle_def put_put)
  then have "xstep ?key x y" unfolding y_def using xstep.data [of ?d x ?d] d(1) x(5) by simp
  then have y: "xreach ?key (xc_start sent s) y" using x(1) xreach.step by blast
  have n1: "length sent \<le> length ?blk"
  proof -
    have "n * i < length ?blk" using d(2,3) by (auto simp: piece_def)
    moreover have "i \<le> n * i" using assms(2) by simp
    ultimately show ?thesis using i(2) by linarith
  qed
  have fit: "rs_ready base" "fits 8 ser" "fits 8 (checkpoint_id ?d)"
    using l(2,3) assms(3-6) n1 i(2) ad(2) by (auto simp: rs_ready_def fits_iff)
  note W = whole_report_completes [OF fit blk(2) C(3,9,10)]
  obtain rpt s' where p: "rs_parse_buffer (packet (new_report_segment base ser (checkpoint_id ?d) 0 (of_nat (length ?blk))
      (of_nat (length ?blk)) [(0, of_nat (length ?blk))])) blank_report_segment = Inr (0, rpt)" "process_report False rpt s = Some (True, [], s')"
    using W(2) by blast
  have ys: "xc_status y = Active" "xc_sender y = s" "\<not> xc_forgot y" using x(3,4,6) by (simp_all add: y_def absorb_def)
  have "new_report_segment base ser (checkpoint_id ?d) 0 (of_nat (length ?blk)) (of_nat (length ?blk)) [(0, of_nat (length ?blk))] \<in> xc_reports y"
    using l(4) by (simp add: y_def absorb_def)
  from xstep.report [OF ys(1) this W(1) p(1)] p(2) ys(2)
  have "xstep ?key y (y\<lparr>xc_sender := s', xc_status := Completed, xc_data := xc_data y \<union> set []\<rparr>)" by fastforce
  then show ?thesis using y ys(3) xreach.step by (intro exI [of _ "y\<lparr>xc_sender := s', xc_status := Completed, xc_data := xc_data y \<union> set []\<rparr>"]) auto
qed

lemma reach_xinv:
  assumes "formatted bundles" and "0 < n" and "length (session_block ccsds bundles) < 2 ^ 56"
    and "fits 8 eng" and "fits 8 ses"
    and "process_bundles ccsds n pc sz False bundles (session_init eng ses ckpt serial) = Some (sent, s)"
    and "xreach (eng, ses) (xc_start sent s) x"
  shows "xinv (session_block ccsds bundles) sent (eng, ses) x"
proof -
  have len: "length (session_block ccsds bundles) < 2 ^ 63" using assms(3) by simp
  note C = session_cut [OF assms(1,2) len assms(6)]
  show ?thesis
    by (rule xreach_inv [OF assms(7) start_inv [OF assms(1,2) len assms(6)] C(3) assms(3) C(2)])
      (use session_same_cuts(2) [OF assms(1,2) len assms(6)] assms(4,5) in simp_all)
qed

lemma formatted_cut:
  assumes "formatted bundles" and "0 < n" and "length (session_block ccsds bundles) < 2 ^ 63"
  shows "\<exists>sent s. process_bundles ccsds n pc sz False bundles (session_init eng ses ckpt serial) = Some (sent, s)"
  using bundles_cut [of bundles n ccsds pc sz eng ses ckpt serial] assms by (auto simp: formatted_def)

lemma posted_block:
  assumes "xinv blk cuts key x" and "xc_status x = Completed" and "\<not> xc_forgot x"
  shows "\<exists>segs n multi. (segs, n, multi) \<in> xc_posted x \<and> concat (map (payload \<circ> snd) segs) = blk"
proof -
  have "\<forall>(segs, n, multi) \<in> xc_posted x. concat (map (payload \<circ> snd) segs) = blk" "xc_posted x \<noteq> {}"
    using assms unfolding xinv_def by blast+
  then show ?thesis by fast
qed

text \<open>One small bundle, sent as an aggregated block of ten bytes in three segments.\<close>

lemma demo_session:
  "session_block True [(False, [10, 11, 12, 13], demo_blocks)] = [1, 0x9f, 1, 2, 3, 10, 11, 12, 13, 0xff]"
  "formatted [(False, [10, 11, 12, 13], demo_blocks)]"
  "fits 8 (5 :: u64)" "fits 8 (9 :: u64)" "unat (100 :: u64) < 2 ^ 14"
  by (simp_all add: session_block_def bundle_bytes_def whole_bundle_def demo_blocks_def block_bytes_def
    formatted_def bundle_ok_def block_ok_def last_only_def full_length_def fits_iff)

section \<open>Properties\<close>

text \<open>
  C2. A session that the sender completes has been delivered, unless the receiver has forgotten it. Let the
  sender cut formatted bundles into red segments, and let the network lose, repeat and reorder what either side
  sends, while every timer of the receiver, the closeout timer included, fires at any moment and the receiver may
  run out of storage. Then in every state that is reached, whatever the receiver has handed to its bundle
  processor is exactly the block of these bundles; when the sender has closed the session as completed, the
  receiver has handed it over, or it had closed the session without handing it over (because it was cancelled) and
  the closeout timer has erased its record of that; and as long as the session is open and neither has happened,
  some bytes of the block are in no claim of any report, and the sender holds them all.
\<close>
theorem completed_means_delivered:
  assumes "formatted bundles" and "0 < seg_size" and "length (session_block ccsds bundles) < 2 ^ 56"
    and "fits 8 eng" and "fits 8 ses"
    and "process_bundles ccsds seg_size per_checkpoint session_size False bundles (session_init eng ses ckpt serial) = Some (sent, s)"
    and "xreach (eng, ses) (xc_start sent s) x"
  shows "(\<forall>(segs, n, multi) \<in> xc_posted x. concat (map (payload \<circ> snd) segs) = session_block ccsds bundles
       \<and> n = of_nat (length (session_block ccsds bundles)))
    \<and> (xc_status x = Completed \<longrightarrow> xc_posted x \<noteq> {} \<or> xc_forgot x)
    \<and> (xc_status x = Active \<and> xc_posted x = {} \<and> \<not> xc_forgot x \<longrightarrow>
         (\<exists>G. G \<subset> all_bytes (session_block ccsds bundles) \<and> (\<forall>q \<in> xc_reports x. true_report G q)
            \<and> all_bytes (session_block ccsds bundles) - G \<subseteq> seg_bytes (red_segments (xc_sender x))))"
proof -
  let ?blk = "session_block ccsds bundles"
  have "xinv ?blk sent (eng, ses) x" by (rule reach_xinv [OF assms])
  then have X: "\<forall>(segs, n, multi) \<in> xc_posted x. concat (map (payload \<circ> snd) segs) = ?blk \<and> n = of_nat (length ?blk)"
      "xc_status x = Completed \<longrightarrow> settled x"
      "\<exists>G. rcv_inv ?blk sent (eng, ses) G (settled x) (xc_cancels x) (xc_receiver x) \<and> (\<forall>q \<in> xc_reports x. true_report G q)
         \<and> (xc_status x = Active \<longrightarrow> snd_inv ?blk sent (eng, ses) G (xc_sender x))"
    unfolding xinv_def by blast+
  then obtain G where G: "rcv_inv ?blk sent (eng, ses) G (settled x) (xc_cancels x) (xc_receiver x)"
      "\<forall>q \<in> xc_reports x. true_report G q" "xc_status x = Active \<longrightarrow> snd_inv ?blk sent (eng, ses) G (xc_sender x)" by blast
  have "G \<subset> all_bytes ?blk" if "\<not> settled x" using rcv_invD(1,2) [OF G(1)] that by blast
  moreover have "all_bytes ?blk - G \<subseteq> seg_bytes (red_segments (xc_sender x))" if "xc_status x = Active"
    using G(3) that by (auto simp: snd_inv_def)
  ultimately show ?thesis using X(1,2) G(2) by blast
qed

theorem completed_means_delivered_witness:
  "\<exists>sent s x segs n multi. process_bundles True 4 0 20 False [(False, [10, 11, 12, 13], demo_blocks)] (session_init 5 9 100 200) = Some (sent, s)
     \<and> xreach (5, 9) (xc_start sent s) x \<and> xc_status x = Completed \<and> (segs, n, multi) \<in> xc_posted x
     \<and> concat (map (payload \<circ> snd) segs) = [1, 0x9f, 1, 2, 3, 10, 11, 12, 13, 0xff]"
proof -
  let ?b = "[(False, [10, 11, 12, 13], demo_blocks)]"
  note D = demo_session
  obtain sent s where c: "process_bundles True 4 0 20 False ?b (session_init 5 9 100 200) = Some (sent, s)"
    using formatted_cut [OF D(2), of 4 True 0 20 5 9 100 200] D(1) by auto
  obtain x where x: "xreach (5, 9) (xc_start sent s) x" "xc_status x = Completed" "\<not> xc_forgot x"
    using lossless_run [OF D(2) _ _ D(3-5) c] D(1) by auto
  have m: "length (session_block True ?b) < 2 ^ 56" unfolding D(1) by simp
  have "xc_posted x \<noteq> {} \<and> (\<forall>(segs, n, multi) \<in> xc_posted x. concat (map (payload \<circ> snd) segs) = session_block True ?b)"
    using completed_means_delivered [OF D(2) _ m D(3,4) c x(1)] x(2,3) by auto
  then obtain segs n multi where "(segs, n, multi) \<in> xc_posted x" "concat (map (payload \<circ> snd) segs) = session_block True ?b" by fast
  then show ?thesis using c x unfolding D(1) by blast
qed

text \<open>
  C3. A session is completed when nothing is lost. Whatever the size of the segments and the distance of
  the checkpoints, the sender can cut formatted bundles into segments, and there is a run of the exchange
  at whose end the sender has closed the session as completed and the receiver has handed over the whole
  block: the receiver aborts on none of the segments, every checkpoint is answered, and the report for the
  last one survives the wire and claims everything. So the safety of the exchange is not that of two
  engines that never finish.
\<close>
theorem lossless_session_completes:
  assumes "formatted bundles" and "0 < seg_size" and "length (session_block ccsds bundles) < 2 ^ 55"
    and "fits 8 eng" and "fits 8 ses" and "unat ckpt < 2 ^ 14"
  shows "\<exists>sent s x segs n multi.
    process_bundles ccsds seg_size per_checkpoint session_size False bundles (session_init eng ses ckpt serial) = Some (sent, s)
    \<and> xreach (eng, ses) (xc_start sent s) x \<and> xc_status x = Completed
    \<and> (segs, n, multi) \<in> xc_posted x \<and> concat (map (payload \<circ> snd) segs) = session_block ccsds bundles"
proof -
  let ?blk = "session_block ccsds bundles"
  have len: "length ?blk < 2 ^ 63" "length ?blk < 2 ^ 56" using assms(3) by simp_all
  obtain sent s where c: "process_bundles ccsds seg_size per_checkpoint session_size False bundles (session_init eng ses ckpt serial) = Some (sent, s)"
    using formatted_cut [OF assms(1,2) len(1)] by blast
  obtain x where x: "xreach (eng, ses) (xc_start sent s) x" "xc_status x = Completed" "\<not> xc_forgot x"
    using lossless_run [OF assms c] by blast
  then show ?thesis using c posted_block [OF reach_xinv [OF assms(1,2) len(2) assms(4,5) c x(1)] x(2,3)] by blast
qed

theorem lossless_session_completes_witness:
  "\<exists>sent s x segs n multi. process_bundles True 4 8 20 False [(False, [10, 11, 12, 13], demo_blocks)] (session_init 5 9 100 200) = Some (sent, s)
     \<and> xreach (5, 9) (xc_start sent s) x \<and> xc_status x = Completed \<and> (segs, n, multi) \<in> xc_posted x
     \<and> concat (map (payload \<circ> snd) segs) = [1, 0x9f, 1, 2, 3, 10, 11, 12, 13, 0xff]"
proof -
  let ?b = "[(False, [10, 11, 12, 13], demo_blocks)]"
  have "length (session_block True ?b) < 2 ^ 55" unfolding demo_session(1) by simp
  from lossless_session_completes [OF demo_session(2) _ this demo_session(3-5), of 4 8 20 200]
  show ?thesis unfolding demo_session(1) by simp
qed

section \<open>A session that was forgotten\<close>

text \<open>
  Two bundles in two segments, both of them checkpoints. The receiver gets the first segment and reports it, gives up
  when the report is not acknowledged, gives up on its cancel segment as well, and forgets the session when the closeout
  timer fires. The second segment then opens a new session, of which the receiver has the second half only; it is
  reported like the first one.
\<close>

lemma make_report_full:
  "make_report chkpt (lower, upper, n, m) s =
     (let (serial, s1) = get_next_report_serial_number s;
          rpt = new_report_segment (session_report_base s) serial chkpt lower upper n m
      in s1\<lparr>report_segments := om_assign (serial_number rpt) rpt (report_segments s1)\<rparr>)"
  by (simp add: make_report_def)

declare bundle_loop.simps [code] make_report_full [code]

definition two_bundles :: "ltp_bundle list" where
  "two_bundles = [(False, [10, 11, 12, 13], demo_blocks), (False, [10, 11, 12, 13], demo_blocks)]"

definition two_cut :: "(ltp_data_segment list \<times> ltp_session) option" where
  "two_cut = process_bundles True 10 5 20 False two_bundles (session_init 5 9 100 200)"

definition two_arrives :: "nat \<Rightarrow> ltp_receiver \<Rightarrow> (rcv_effect list \<times> ltp_receiver) option" where
  "two_arrives i r = process_segment_for_receiver calm (Seg_DS (fst (the two_cut) ! i)) r"

definition first_half :: "rcv_effect list \<times> ltp_receiver" where
  "first_half = the (two_arrives 0 \<lparr>incoming_sessions = (\<lambda>_. None), closed_session_map = (\<lambda>_. None)\<rparr>)"

definition no_answer :: "rcv_effect list \<times> ltp_receiver" where
  "no_answer = report_seg_timeout False 1 (5, 9) (snd first_half)"

definition given_up :: "rcv_effect list \<times> ltp_receiver" where
  "given_up = cancel_seg_timeout False (5, 9) (snd no_answer)"

definition second_half :: "rcv_effect list \<times> ltp_receiver" where
  "second_half = the (two_arrives 1 (closeout_timer_triggered 9 (snd given_up)))"

definition report_in :: "rcv_effect list \<Rightarrow> ltp_report_segment" where
  "report_in out = (case out of [Send (Seg_RS q)] \<Rightarrow> q | _ \<Rightarrow> blank_report_segment)"

definition reads :: "rcv_effect list \<Rightarrow> ltp_report_segment" where
  "reads out = (case rs_parse_buffer (packet (report_in out)) blank_report_segment of Inr (_, r) \<Rightarrow> r | Inl _ \<Rightarrow> blank_report_segment)"

definition half_claimed :: "bool \<times> ltp_data_segment list \<times> ltp_session" where
  "half_claimed = the (process_report False (reads (fst first_half)) (snd (the two_cut)))"

lemma two_cut_facts: "\<exists>a b s. two_cut = Some ([a, b], s)"
proof -
  have n: "two_cut \<noteq> None" "length (fst (the two_cut)) = 2" by code_simp+
  then obtain cuts s where c: "two_cut = Some (cuts, s)" by (metis option.exhaust surj_pair)
  have "length cuts = Suc (Suc 0)" using n(2) unfolding c by simp
  then obtain a b where "cuts = [a, b]" by (auto simp: length_Suc_conv)
  then show ?thesis using c by blast
qed

lemma half_reports:
  "case fst first_half of [Send (Seg_RS q)] \<Rightarrow> True | _ \<Rightarrow> False" "case fst second_half of [Send (Seg_RS q)] \<Rightarrow> True | _ \<Rightarrow> False"
  by code_simp+

lemma half_out: "\<exists>q. fst first_half = [Send (Seg_RS q)]" "\<exists>q. fst second_half = [Send (Seg_RS q)]"
  using half_reports by (auto split: list.splits rcv_effect.splits any_segment.splits)

lemma half_arrives:
  "two_arrives 0 \<lparr>incoming_sessions = (\<lambda>_. None), closed_session_map = (\<lambda>_. None)\<rparr> = Some first_half"
  "two_arrives 1 (closeout_timer_triggered 9 (snd given_up)) = Some second_half"
proof -
  have "two_arrives 0 \<lparr>incoming_sessions = (\<lambda>_. None), closed_session_map = (\<lambda>_. None)\<rparr> \<noteq> None"
    "two_arrives 1 (closeout_timer_triggered 9 (snd given_up)) \<noteq> None" by code_simp+
  then show "two_arrives 0 \<lparr>incoming_sessions = (\<lambda>_. None), closed_session_map = (\<lambda>_. None)\<rparr> = Some first_half"
    "two_arrives 1 (closeout_timer_triggered 9 (snd given_up)) = Some second_half"
    unfolding first_half_def second_half_def by auto
qed

lemma half_timers: "\<exists>c. fst no_answer = [Send (Seg_CS c)]" "fst given_up = []"
proof -
  have "case fst no_answer of [Send (Seg_CS c)] \<Rightarrow> True | _ \<Rightarrow> False" by code_simp
  then show "\<exists>c. fst no_answer = [Send (Seg_CS c)]" by (auto split: list.splits rcv_effect.splits any_segment.splits)
  have "case fst given_up of [] \<Rightarrow> True | _ \<Rightarrow> False" by code_simp
  then show "fst given_up = []" by (auto split: list.splits)
qed

lemma half_ranges: "report_in_range (report_in (fst first_half))" "report_in_range (report_in (fst second_half))"
proof -
  have "(serial_number q, checkpoint_id q, lower_bounds q, upper_bounds q, claims q) = (1, ck, 0, n, 1) \<Longrightarrow> unat ck < 2 ^ 56 \<Longrightarrow> unat n < 2 ^ 56
      \<Longrightarrow> report_in_range q" for q :: ltp_report_segment and ck n
    by (simp add: report_in_range_def fits_iff)
  moreover have "(serial_number (report_in (fst first_half)), checkpoint_id (report_in (fst first_half)), lower_bounds (report_in (fst first_half)),
      upper_bounds (report_in (fst first_half)), claims (report_in (fst first_half))) = (1, 101, 0, 10, 1)"
    "(serial_number (report_in (fst second_half)), checkpoint_id (report_in (fst second_half)), lower_bounds (report_in (fst second_half)),
      upper_bounds (report_in (fst second_half)), claims (report_in (fst second_half))) = (1, 102, 0, 20, 1)"
    by code_simp+
  ultimately show "report_in_range (report_in (fst first_half))" "report_in_range (report_in (fst second_half))" by auto
qed

lemma half_reads:
  "rs_parse_buffer (packet (report_in (fst first_half))) blank_report_segment = Inr (0, reads (fst first_half))"
  "rs_parse_buffer (packet (report_in (fst second_half))) blank_report_segment = Inr (0, reads (fst second_half))"
proof -
  have "case rs_parse_buffer (packet (report_in (fst first_half))) blank_report_segment of Inr (n, r) \<Rightarrow> n = 0 | _ \<Rightarrow> False"
    "case rs_parse_buffer (packet (report_in (fst second_half))) blank_report_segment of Inr (n, r) \<Rightarrow> n = 0 | _ \<Rightarrow> False" by code_simp+
  then show "rs_parse_buffer (packet (report_in (fst first_half))) blank_report_segment = Inr (0, reads (fst first_half))"
    "rs_parse_buffer (packet (report_in (fst second_half))) blank_report_segment = Inr (0, reads (fst second_half))"
    by (auto simp: reads_def split: sum.splits)
qed

lemma half_processed:
  "\<exists>sent s. process_report False (reads (fst first_half)) (snd (the two_cut)) = Some (False, sent, s) \<and> half_claimed = (False, sent, s)"
  "\<exists>sent s. process_report False (reads (fst second_half)) (snd (snd half_claimed)) = Some (True, sent, s)"
proof -
  have "case process_report False (reads (fst first_half)) (snd (the two_cut)) of Some (fin, _) \<Rightarrow> \<not> fin | _ \<Rightarrow> False" by code_simp
  then show "\<exists>sent s. process_report False (reads (fst first_half)) (snd (the two_cut)) = Some (False, sent, s) \<and> half_claimed = (False, sent, s)"
    by (auto simp: half_claimed_def split: option.splits)
  have "case process_report False (reads (fst second_half)) (snd (snd half_claimed)) of Some (fin, _) \<Rightarrow> fin | _ \<Rightarrow> False" by code_simp
  then show "\<exists>sent s. process_report False (reads (fst second_half)) (snd (snd half_claimed)) = Some (True, sent, s)"
    by (auto split: option.splits)
qed

text \<open>
  C35. A session may be completed although nothing was delivered. There is a session of two bundles and a run of the
  exchange in which the closeout timer of the receiver fires for the session after the receiver has cancelled it, and at
  whose end the sender has closed the session as completed while the receiver has handed over nothing: the reports of
  the session before and after it was forgotten claim the whole block between them.
\<close>
theorem forgotten_session_completes:
  "\<exists>sent s x. process_bundles True 10 5 20 False two_bundles (session_init 5 9 100 200) = Some (sent, s)
     \<and> xreach (5, 9) (xc_start sent s) x \<and> xc_status x = Completed \<and> xc_posted x = {}"
proof -
  obtain a b s where c: "two_cut = Some ([a, b], s)" using two_cut_facts by blast
  let ?key = "(5, 9) :: session_key"
  define x1 where "x1 = absorb (fst first_half) (snd first_half) (xc_start [a, b] s)"
  define x2 where "x2 = absorb (fst no_answer) (snd no_answer) x1"
  define x3 where "x3 = absorb (fst given_up) (snd given_up) x2"
  define x4 where "x4 = x3\<lparr>xc_receiver := closeout_timer_triggered (snd ?key) (xc_receiver x3),
      xc_forgot := (xc_forgot x3 \<or> closed_session_map (xc_receiver x3) (snd ?key) \<noteq> None \<and> xc_posted x3 = {})\<rparr>"
  define x5 where "x5 = absorb (fst second_half) (snd second_half) x4"
  have 1: "xstep ?key (xc_start [a, b] s) x1"
    unfolding x1_def by (rule xstep.data [of a _ a calm]) (use half_arrives(1) [unfolded two_arrives_def c] in \<open>simp_all add: xc_start_def\<close>)
  have 2: "xstep ?key x1 x2" unfolding x2_def by (rule xstep.report_timeout [of False 1]) (simp add: no_answer_def x1_def absorb_def)
  have 3: "xstep ?key x2 x3" unfolding x3_def by (rule xstep.cancel_timeout [of False]) (simp add: given_up_def x2_def absorb_def)
  have 4: "xstep ?key x3 x4" unfolding x4_def by (rule xstep.closeout)
  have 5: "xstep ?key x4 x5"
    unfolding x5_def by (rule xstep.data [of b _ b calm])
      (use half_arrives(2) [unfolded two_arrives_def c] in \<open>simp_all add: xc_start_def x1_def x2_def x3_def x4_def absorb_def\<close>)
  have out: "posts (fst first_half) = {}" "posts (fst second_half) = {}" "posts (fst no_answer) = {}" "posts (fst given_up) = {}"
    using half_out half_timers by (auto simp: posts_def)
  have x5: "xc_status x5 = Active" "xc_sender x5 = s" "xc_posted x5 = {}"
    "report_in (fst first_half) \<in> xc_reports x5" "report_in (fst second_half) \<in> xc_reports x5"
    using out half_out by (auto simp: x5_def x4_def x3_def x2_def x1_def absorb_def xc_start_def report_in_def)
  obtain sent1 s1 where p1: "process_report False (reads (fst first_half)) s = Some (False, sent1, s1)" "snd (snd half_claimed) = s1"
    using half_processed(1) [unfolded c option.sel snd_conv] by (metis snd_conv)
  obtain sent2 s2 where p2: "process_report False (reads (fst second_half)) s1 = Some (True, sent2, s2)"
    using half_processed(2) p1(2) by auto
  define x6 where "x6 = x5\<lparr>xc_sender := s1, xc_status := Active, xc_data := xc_data x5 \<union> set sent1\<rparr>"
  define x7 where "x7 = x6\<lparr>xc_sender := s2, xc_status := Completed, xc_data := xc_data x6 \<union> set sent2\<rparr>"
  have 6: "xstep ?key x5 x6" using xstep.report [OF x5(1,4) half_ranges(1) half_reads(1), of False sent1 s1 ?key] p1(1) x5(2) by (simp add: x6_def)
  have 7: "xstep ?key x6 x7" using xstep.report [OF _ _ half_ranges(2) half_reads(2), of x6 True sent2 s2 ?key] p2 x5(5) by (simp add: x6_def x7_def)
  have "xreach ?key (xc_start [a, b] s) x7" using 1 2 3 4 5 6 7 by (meson xreach.intros)
  moreover have "xc_status x7 = Completed" "xc_posted x7 = {}" using x5(3) by (simp_all add: x7_def x6_def)
  ultimately show ?thesis using c unfolding two_cut_def by blast
qed

end
