(* ===== verification/Ltp_Sender_Node.thy ===== *)
theory Ltp_Sender_Node
  imports Ltp_Segmenter Ltp_Receiver "HOL-Library.Multiset"
begin

text \<open>
  \<open>LTPNode::Sender\<close> of \<open>src/servlib/ltp/LTPEngine.cc\<close> and the tables of sessions of \<open>LTPEngine\<close>: bundles are
  collected in a session until it is large or old enough, the session is cut into segments, and reports,
  cancel segments and timers decide when its bundles are reported as transmitted or failed. A bundle is
  its id. The lists of the link (queue, in flight) and the events posted to the bundle daemon are
  effects. A green session is cut by \<open>Op_Green\<close> and its bundles are reported at once. Statistics, logging, security, sessions
  kept in files and the shutdown are not modelled. The object
  of a session that is erased while bundles are still added to it lives on in the program and is not
  modelled; \<open>None\<close> is a failed assertion or this case.
\<close>

section \<open>Keys of sessions\<close>

text \<open>
  \<open>LTPSessionKeyCompare\<close>. It is an order only among the sessions of one engine, which is how the tables are
  used: a sender has the sessions of its own engine, a receiver those of one remote engine.
\<close>

definition session_key_less :: "session_key \<Rightarrow> session_key \<Rightarrow> bool" where
  "session_key_less k1 k2 \<longleftrightarrow> fst k1 < fst k2 \<or> snd k1 < snd k2"

lemma session_key_order: "session_key_less (e, i) (e, j) \<longleftrightarrow> i < j"
  by (simp add: session_key_less_def)

text \<open>Across engines two keys may each be less than the other.\<close>

lemma session_key_cross: "e < e' \<Longrightarrow> i < j \<Longrightarrow> session_key_less (e, j) (e', i) \<and> session_key_less (e', i) (e, j)"
  by (simp add: session_key_less_def)

section \<open>The tables of the engine\<close>

record ltp_engine =
  local_engine_id :: u64
  registered_engines :: "u64 set"
  eng_session_id :: u64
  session_to_engine :: "u64 \<Rightarrow> u64 option"
  closed_sessions :: "u64 \<Rightarrow> (u64 \<times> bool) option"

definition new_session_id :: "u64 \<Rightarrow> ltp_engine \<Rightarrow> u64 \<times> ltp_engine" where
  "new_session_id remote e =
     (let i = eng_session_id e + 1
      in (i, e\<lparr>eng_session_id := i, session_to_engine := (session_to_engine e)(i \<mapsto> remote)\<rparr>))"

definition closed_session :: "u64 \<Rightarrow> u64 \<Rightarrow> bool \<Rightarrow> ltp_engine \<Rightarrow> ltp_engine" where
  "closed_session ses remote cancelled e =
     e\<lparr>closed_sessions := (closed_sessions e)(ses \<mapsto> (remote, cancelled)), session_to_engine := (session_to_engine e)(ses := None)\<rparr>"

definition delete_closed_session :: "u64 \<Rightarrow> ltp_engine \<Rightarrow> ltp_engine" where
  "delete_closed_session ses e = e\<lparr>closed_sessions := (closed_sessions e)(ses := None)\<rparr>"

text \<open>Registering and unregistering a remote engine; the flag says whether the engine is new.\<close>

definition register_engine :: "u64 \<Rightarrow> ltp_engine \<Rightarrow> bool \<times> ltp_engine" where
  "register_engine remote e =
     (if remote \<in> registered_engines e then (False, e) else (True, e\<lparr>registered_engines := insert remote (registered_engines e)\<rparr>))"

definition unregister_engine :: "u64 \<Rightarrow> ltp_engine \<Rightarrow> ltp_engine" where
  "unregister_engine remote e = e\<lparr>registered_engines := registered_engines e - {remote}\<rparr>"

text \<open>The remote engine whose node serves the session, whether the session is closed, and whether it was cancelled.\<close>

definition lookup_remote :: "u64 \<Rightarrow> ltp_engine \<Rightarrow> u64 option" where
  "lookup_remote engine e = (if engine \<in> registered_engines e then Some engine else None)"

definition lookup_engine :: "session_key \<Rightarrow> ltp_engine \<Rightarrow> u64 option \<times> bool \<times> bool" where
  "lookup_engine key e =
     (if fst key = local_engine_id e then
        (case session_to_engine e (snd key) of
           Some remote \<Rightarrow> (lookup_remote remote e, False, False)
         | None \<Rightarrow>
             (case closed_sessions e (snd key) of
                None \<Rightarrow> (None, False, False)
              | Some (remote, cancelled) \<Rightarrow> (lookup_remote remote e, True, cancelled)))
      else (lookup_remote (fst key) e, False, False))"

section \<open>The state of the sender\<close>

record snd_session =
  ss_sess :: ltp_session
  ss_state :: session_state
  ss_cancel :: "ltp_cancel_segment option"
  ss_bundles :: "nat list"
  ss_size :: u64

record ltp_sender =
  snd_engine :: ltp_engine
  remote_engine_id :: u64
  send_sessions :: "(u64, snd_session) omap"
  loading_session :: "u64 option"
  state_ds :: u64
  state_rs :: u64
  state_cs :: u64
  max_sessions :: u64
  agg_size :: u64
  ready_for_bundles :: bool
  expired_in_queue :: "nat set"
  green_loaded :: "snd_session list"

text \<open>
  \<open>Transmitted\<close> and \<open>Transmitted_Green\<close> are the calls of \<open>PostTransmitProcessing\<close> of the convergence layer, for a red session
  or a failure and for a green session that was sent.
\<close>

datatype snd_effect =
    Snd any_segment
  | Snd_Data ltp_data_segment
  | Transmitted nat bool
  | Transmitted_Green nat
  | Dequeue nat
  | Add_Inflight nat
  | Del_Inflight nat
  | Load_Session u64
  | Load_Green snd_session
  | Wire ltp_data_segment

abbreviation find_session :: "u64 \<Rightarrow> ltp_sender \<Rightarrow> snd_session option" where
  "find_session ses s \<equiv> om_find (send_sessions s) ses"

text \<open>Looking up a key of another engine finds nothing.\<close>

definition find_sender_session :: "session_key \<Rightarrow> ltp_sender \<Rightarrow> snd_session option" where
  "find_sender_session key s = (if fst key = local_engine_id (snd_engine s) then find_session (snd key) s else None)"

definition put_send_session :: "u64 \<Rightarrow> snd_session \<Rightarrow> ltp_sender \<Rightarrow> ltp_sender" where
  "put_send_session ses x s = s\<lparr>send_sessions := om_modify ses (\<lambda>_. x) (send_sessions s)\<rparr>"

text \<open>The sessions that are not being cancelled, as the code counts them.\<close>

definition live_sessions :: "ltp_sender \<Rightarrow> u64" where
  "live_sessions s = of_nat (length (send_sessions s)) - state_cs s"

definition leave_state :: "session_state \<Rightarrow> ltp_sender \<Rightarrow> ltp_sender" where
  "leave_state st s =
     (case st of STATE_RS \<Rightarrow> s\<lparr>state_rs := state_rs s - 1\<rparr> | STATE_CS \<Rightarrow> s\<lparr>state_cs := state_cs s - 1\<rparr>
      | STATE_DS \<Rightarrow> s\<lparr>state_ds := state_ds s - 1\<rparr> | _ \<Rightarrow> s)"

definition enter_state :: "session_state \<Rightarrow> ltp_sender \<Rightarrow> ltp_sender" where
  "enter_state st s =
     (case st of STATE_RS \<Rightarrow> s\<lparr>state_rs := state_rs s + 1\<rparr> | STATE_CS \<Rightarrow> s\<lparr>state_cs := state_cs s + 1\<rparr>
      | STATE_DS \<Rightarrow> s\<lparr>state_ds := state_ds s + 1\<rparr> | _ \<Rightarrow> s)"

definition set_ready :: "ltp_sender \<Rightarrow> ltp_sender" where
  "set_ready s = s\<lparr>ready_for_bundles := (live_sessions s \<le> max_sessions s)\<rparr>"

definition update_session_counts :: "u64 \<Rightarrow> session_state \<Rightarrow> ltp_sender \<Rightarrow> ltp_sender" where
  "update_session_counts ses new s =
     (case find_session ses s of
        None \<Rightarrow> s
      | Some x \<Rightarrow>
          set_ready (if ss_state x \<noteq> new
                     then put_send_session ses (x\<lparr>ss_state := new\<rparr>) (enter_state new (leave_state (ss_state x) s))
                     else s))"

definition erase_send_session :: "u64 \<Rightarrow> bool \<Rightarrow> ltp_sender \<Rightarrow> ltp_sender" where
  "erase_send_session ses cancelled s =
     (case find_session ses s of
        None \<Rightarrow> s
      | Some x \<Rightarrow>
          set_ready (leave_state (ss_state x)
            (s\<lparr>snd_engine := closed_session ses (remote_engine_id s) cancelled (snd_engine s),
               send_sessions := om_erase ses (send_sessions s)\<rparr>)))"

section \<open>Reporting the bundles of a session\<close>

definition post_transmit :: "nat set \<Rightarrow> bool \<Rightarrow> snd_session \<Rightarrow> snd_effect list \<times> snd_session" where
  "post_transmit expired success x =
     (let bs = filter (\<lambda>b. b \<notin> expired) (rev (ss_bundles x))
      in (if \<not> success then map (\<lambda>b. Transmitted b False) bs
          else if expected_red_bytes (ss_sess x) > 0 then map (\<lambda>b. Transmitted b True) bs
          else if expected_green_bytes (ss_sess x) > 0 then map Transmitted_Green bs
          else [], x\<lparr>ss_bundles := []\<rparr>))"

text \<open>The events that end a session.\<close>

datatype end_event = Cancelled_by_receiver | Session_completed | Bundles_expired

definition cleanup_sender_session :: "u64 \<Rightarrow> end_event \<Rightarrow> ltp_sender \<Rightarrow> snd_effect list \<times> ltp_sender" where
  "cleanup_sender_session ses ev s =
     (case find_session ses s of
        None \<Rightarrow> ([], s)
      | Some x \<Rightarrow>
          let success = (ev = Session_completed); (out, x1) = post_transmit (expired_in_queue s) success x
          in (out, erase_send_session ses (\<not> success) (put_send_session ses x1 s)))"

section \<open>Cancelling\<close>

definition cancel_session :: "u8 \<Rightarrow> u64 \<Rightarrow> ltp_sender \<Rightarrow> snd_effect list \<times> ltp_sender" where
  "cancel_session reason ses s =
     (case find_session ses s of
        None \<Rightarrow> ([], s)
      | Some x \<Rightarrow>
          if ss_state x = STATE_CS then ([], s)
          else
            let sess = remove_segments (ss_sess x);
                c = new_cancel_segment (session_cancel_base sess) LTP_SEGMENT_CS_BS reason;
                s1 = update_session_counts ses STATE_CS (put_send_session ses (x\<lparr>ss_sess := sess\<rparr>) s);
                (out, x1) = post_transmit (expired_in_queue s) False
                              (x\<lparr>ss_sess := sess, ss_state := STATE_CS, ss_cancel := Some c\<rparr>)
            in (Snd (Seg_CS c) # out, put_send_session ses x1 s1))"

definition cancel_for_segment :: "u8 \<Rightarrow> 'a ltp_segment_scheme \<Rightarrow> snd_effect list" where
  "cancel_for_segment reason seg = [Snd (Seg_CS (new_cancel_segment (segment_cancel_base seg) LTP_SEGMENT_CS_BS reason))]"

definition force_cancel_by_sender :: "session_key \<Rightarrow> ltp_sender \<Rightarrow> snd_effect list \<times> ltp_sender" where
  "force_cancel_by_sender key s =
     (if find_sender_session key s = None then ([], s) else cancel_session REASON_SYS_CNCLD (snd key) s)"

text \<open>
  The link could not read a segment: the engine looks the node up by the engine of the segment, which is
  the engine that sent it.
\<close>

definition engine_force_cancel :: "session_key \<Rightarrow> ltp_sender \<Rightarrow> snd_effect list \<times> ltp_sender" where
  "engine_force_cancel key s =
     (if lookup_remote (fst key) (snd_engine s) = Some (remote_engine_id s) then force_cancel_by_sender key s else ([], s))"

text \<open>Every session that waits for reports or data is cancelled, in the order of the table.\<close>

fun cancel_sessions :: "u64 list \<Rightarrow> ltp_sender \<Rightarrow> snd_effect list \<times> ltp_sender" where
  "cancel_sessions [] s = ([], s)"
| "cancel_sessions (ses # rest) s =
     (case find_session ses s of
        Some x \<Rightarrow>
          (if ss_state x = STATE_DS \<or> ss_state x = STATE_RS then
             let (out, s1) = cancel_session REASON_SYS_CNCLD ses s; (out', s2) = cancel_sessions rest s1 in (out @ out', s2)
           else cancel_sessions rest s)
      | None \<Rightarrow> cancel_sessions rest s)"

definition cancel_all_sessions :: "ltp_sender \<Rightarrow> snd_effect list \<times> ltp_sender" where
  "cancel_all_sessions s = cancel_sessions (map fst (send_sessions s)) s"

section \<open>Collecting bundles\<close>

text \<open>
  What depends on the surroundings: the random numbers of a new session, whether the aggregation time is
  over, the contents of bundles and which of them have expired, and the parameters of the link.
\<close>

record snd_env =
  se_checkpoint :: u64
  se_serial :: u64
  se_time_up :: bool
  se_contents :: "nat \<Rightarrow> ltp_bundle"
  se_expired :: "nat \<Rightarrow> bool"
  se_ccsds :: bool
  se_seg_size :: nat
  se_per_checkpoint :: nat

definition new_snd_session :: "snd_env \<Rightarrow> u64 \<Rightarrow> u64 \<Rightarrow> snd_session" where
  "new_snd_session env eng ses =
     \<lparr>ss_sess = session_init eng ses (se_checkpoint env) (se_serial env), ss_state = STATE_CREATED, ss_cancel = None,
      ss_bundles = [], ss_size = 0\<rparr>"

definition create_sender_session :: "snd_env \<Rightarrow> ltp_sender \<Rightarrow> bool \<times> ltp_sender" where
  "create_sender_session env s =
     (if live_sessions s < max_sessions s then
        let (ses, eng) = new_session_id (remote_engine_id s) (snd_engine s)
        in (True, s\<lparr>snd_engine := eng, loading_session := Some ses,
              send_sessions := om_assign ses (new_snd_session env (local_engine_id eng) ses) (send_sessions s),
              ready_for_bundles := True\<rparr>)
      else (False, s\<lparr>ready_for_bundles := False\<rparr>))"

definition add_to_bundle_list :: "nat \<Rightarrow> u64 \<Rightarrow> snd_session \<Rightarrow> snd_session" where
  "add_to_bundle_list b len x = x\<lparr>ss_size := ss_size x + len, ss_bundles := ss_bundles x @ [b]\<rparr>"

definition add_to_loading :: "snd_env \<Rightarrow> nat \<Rightarrow> u64 \<Rightarrow> ltp_sender \<Rightarrow> (snd_effect list \<times> ltp_sender) option" where
  "add_to_loading env b total_len s =
     (case loading_session s of
        None \<Rightarrow> None
      | Some ses \<Rightarrow>
          let s1 = update_session_counts ses STATE_DS s in
          case find_session ses s1 of
            None \<Rightarrow> None
          | Some x \<Rightarrow>
              let x1 = add_to_bundle_list b total_len x; s2 = put_send_session ses x1 s1;
                  loaded = (ss_size x1 \<ge> agg_size s \<or> se_time_up env)
              in Some ([Add_Inflight b, Dequeue b] @ (if loaded then [Load_Session ses] else []),
                       if loaded then s2\<lparr>loading_session := None\<rparr> else s2))"

text \<open>
  The first component of the result is whether the bundle was taken. A green session is in no table: it goes to the
  queue of the thread that cuts sessions, here \<open>green_loaded\<close>.
\<close>

definition sender_send_bundle ::
    "snd_env \<Rightarrow> nat \<Rightarrow> u64 \<Rightarrow> bool \<Rightarrow> ltp_sender \<Rightarrow> (bool \<times> snd_effect list \<times> ltp_sender) option" where
  "sender_send_bundle env b total_len green s =
     (if se_expired env b then Some (False, [Dequeue b], s\<lparr>expired_in_queue := insert b (expired_in_queue s)\<rparr>)
      else if green then
        let (ses, eng) = new_session_id (remote_engine_id s) (snd_engine s);
            x = add_to_bundle_list b total_len ((new_snd_session env (local_engine_id eng) ses)\<lparr>ss_state := STATE_DS\<rparr>)
        in Some (True, [Load_Green x, Dequeue b], s\<lparr>snd_engine := eng, green_loaded := green_loaded s @ [x]\<rparr>)
      else
        let (ok, s1) = (if loading_session s = None then create_sender_session env s else (True, s)) in
        if \<not> ok then Some (False, [], s1)
        else map_option (\<lambda>(out, s2). (True, out, s2)) (add_to_loading env b total_len s1))"

text \<open>The thread of the sender: the session is closed when the aggregation time is over.\<close>

definition aggregation_time_over :: "ltp_sender \<Rightarrow> snd_effect list \<times> ltp_sender" where
  "aggregation_time_over s =
     (case loading_session s of None \<Rightarrow> ([], s) | Some ses \<Rightarrow> ([Load_Session ses], s\<lparr>loading_session := None\<rparr>))"

section \<open>Cutting a loaded session\<close>

definition remove_expired_bundles :: "snd_env \<Rightarrow> nat list \<Rightarrow> snd_effect list \<times> nat list" where
  "remove_expired_bundles env bs = (map Del_Inflight (filter (se_expired env) bs), filter (\<lambda>b. \<not> se_expired env b) bs)"

definition process_loaded_session :: "snd_env \<Rightarrow> u64 \<Rightarrow> ltp_sender \<Rightarrow> (snd_effect list \<times> ltp_sender) option" where
  "process_loaded_session env ses s =
     (case find_session ses s of
        None \<Rightarrow> None
      | Some x \<Rightarrow>
          let (gone, bs) = remove_expired_bundles env (ss_bundles x);
              s1 = (put_send_session ses (x\<lparr>ss_bundles := bs\<rparr>) s)
                     \<lparr>expired_in_queue := expired_in_queue s \<union> {b \<in> set (ss_bundles x). se_expired env b}\<rparr>
          in if bs = [] then
               let (out, s2) = cleanup_sender_session ses Bundles_expired s1 in Some (gone @ out, s2)
             else
               map_option (\<lambda>(sent, sess). (gone @ map Snd_Data sent, put_send_session ses (x\<lparr>ss_bundles := bs, ss_sess := sess\<rparr>) s1))
                 (process_bundles (se_ccsds env) (se_seg_size env) (se_per_checkpoint env) (unat (ss_size x)) False
                    (map (se_contents env) bs) (ss_sess x)))"

text \<open>A green session is in no table; its bundles are reported as soon as its segments are queued.\<close>

definition process_green_session :: "snd_env \<Rightarrow> snd_session \<Rightarrow> ltp_sender \<Rightarrow> (snd_effect list \<times> ltp_sender) option" where
  "process_green_session env x s =
     (let (_, bs) = remove_expired_bundles env (ss_bundles x);
          s1 = s\<lparr>expired_in_queue := expired_in_queue s \<union> {b \<in> set (ss_bundles x). se_expired env b}\<rparr>
      in if bs = [] then Some ([], s1)
         else
           map_option (\<lambda>(sent, sess). (map Snd_Data sent @ fst (post_transmit (expired_in_queue s1) True (x\<lparr>ss_bundles := bs, ss_sess := sess\<rparr>)), s1))
             (process_bundles (se_ccsds env) (se_seg_size env) (se_per_checkpoint env) (unat (ss_size x)) True
                (map (se_contents env) bs) (ss_sess x)))"

definition next_green_session :: "snd_env \<Rightarrow> ltp_sender \<Rightarrow> (snd_effect list \<times> ltp_sender) option" where
  "next_green_session env s =
     (case green_loaded s of [] \<Rightarrow> Some ([], s) | x # rest \<Rightarrow> process_green_session env x (s\<lparr>green_loaded := rest\<rparr>))"

section \<open>Segments for the sender\<close>

text \<open>\<open>LTPSegment(*rs)\<close>, as far as the acknowledgement uses it.\<close>

definition segment_base :: "'a ltp_segment_scheme \<Rightarrow> ltp_segment" where
  "segment_base s =
     base_segment\<lparr>segment_type := segment_type s, engine_id := engine_id s, session_id := session_id s,
       serial_number := serial_number s, checkpoint_id := checkpoint_id s, control_flags := control_flags s,
       is_checkpoint := is_checkpoint s, is_redendofblock := is_redendofblock s, is_greenendofblock := is_greenendofblock s,
       version_number := version_number s, header_exts := header_exts s,
       trailer_exts := trailer_exts s, packet_len := packet_len s, client_service_id := client_service_id s,
       is_valid := is_valid s, red_green_none := red_green_none s\<rparr>"

definition report_ack_for :: "ltp_report_segment \<Rightarrow> snd_effect" where
  "report_ack_for rpt = Snd (Seg_RAS (new_report_ack (segment_base rpt) (serial_number rpt)))"

text \<open>A report for a session that is closed, and for one that is open.\<close>

definition closed_report :: "bool \<Rightarrow> ltp_report_segment \<Rightarrow> snd_effect list" where
  "closed_report cancelled rpt = (if cancelled then cancel_for_segment REASON_SYS_CNCLD rpt else [report_ack_for rpt])"

definition open_report :: "ltp_report_segment \<Rightarrow> snd_session \<Rightarrow> ltp_sender \<Rightarrow> (snd_effect list \<times> ltp_sender) option" where
  "open_report rpt x s =
     map_option (\<lambda>(complete, sent, sess).
         let s1 = put_send_session (session_id rpt) (x\<lparr>ss_sess := sess\<rparr>) s;
             (out, s2) = (if complete then cleanup_sender_session (session_id rpt) Session_completed s1 else ([], s1))
         in (report_ack_for rpt # map Snd_Data sent @ out, s2))
       (process_report False rpt (ss_sess x))"

text \<open>A session that was closed while the report waited in the queue is looked up again.\<close>

definition process_RS :: "ltp_report_segment \<Rightarrow> bool \<Rightarrow> bool \<Rightarrow> ltp_sender \<Rightarrow> (snd_effect list \<times> ltp_sender) option" where
  "process_RS rpt closed cancelled s =
     (let key = (engine_id rpt, session_id rpt) in
      if closed then Some (closed_report cancelled rpt, s)
      else
        (case find_sender_session key s of
           Some x \<Rightarrow> open_report rpt x s
         | None \<Rightarrow>
             let (known, closed', cancelled') = lookup_engine key (snd_engine s) in
             if known \<noteq> None \<and> closed' then Some (closed_report cancelled' rpt, s)
             else Some (cancel_for_segment REASON_SYS_CNCLD rpt, s)))"

definition process_CS :: "ltp_cancel_segment \<Rightarrow> bool \<Rightarrow> bool \<Rightarrow> ltp_sender \<Rightarrow> snd_effect list \<times> ltp_sender" where
  "process_CS c closed cancelled s =
     (let ack = Snd (Seg_CAS (new_cancel_ack (base_segment\<lparr>engine_id := engine_id c, session_id := session_id c\<rparr>) 0x0f)) in
      if cancelled \<or> closed then ([ack], s)
      else
        (case find_sender_session (engine_id c, session_id c) s of
           None \<Rightarrow> ([ack], s)
         | Some x \<Rightarrow>
             let (out, s1) = cleanup_sender_session (session_id c) Cancelled_by_receiver
                   (put_send_session (session_id c) (x\<lparr>ss_sess := remove_segments (ss_sess x), ss_cancel := None\<rparr>) s)
             in (out @ [ack], s1)))"

definition process_CAS :: "ltp_segment \<Rightarrow> ltp_sender \<Rightarrow> ltp_sender" where
  "process_CAS c s =
     (case find_sender_session (engine_id c, session_id c) s of
        None \<Rightarrow> s
      | Some x \<Rightarrow> erase_send_session (session_id c) True s)"

definition process_segment :: "any_segment \<Rightarrow> bool \<Rightarrow> bool \<Rightarrow> ltp_sender \<Rightarrow> (snd_effect list \<times> ltp_sender) option" where
  "process_segment seg closed cancelled s =
     (case seg of
        Seg_RS rpt \<Rightarrow> process_RS rpt closed cancelled s
      | Seg_CS c \<Rightarrow> if segment_type c = LTP_SEGMENT_CS_BR then Some (process_CS c closed cancelled s) else Some ([], s)
      | Seg_CAS c \<Rightarrow> if segment_type c = LTP_SEGMENT_CAS_BS then Some ([], process_CAS c s) else Some ([], s)
      | _ \<Rightarrow> Some ([], s))"

text \<open>A segment from the network: the engine looks the session up before the segment is queued.\<close>

definition segment_for_sender :: "any_segment \<Rightarrow> ltp_sender \<Rightarrow> (snd_effect list \<times> ltp_sender) option" where
  "segment_for_sender seg s =
     (let (known, closed, cancelled) = lookup_engine (seg_key seg) (snd_engine s) in
      if known = Some (remote_engine_id s) then process_segment seg closed cancelled s else Some ([], s))"

section \<open>Timers and the link\<close>

text \<open>The retransmission timer of a checkpoint; \<open>retry\<close> says whether the retry limit allows another one.\<close>

definition data_seg_timeout :: "bool \<Rightarrow> u64 \<Rightarrow> u64 \<Rightarrow> ltp_sender \<Rightarrow> snd_effect list \<times> ltp_sender" where
  "data_seg_timeout retry ses start s =
     (case find_session ses s of
        None \<Rightarrow> ([], s)
      | Some x \<Rightarrow>
          (case om_find (red_segments (ss_sess x)) start of
             None \<Rightarrow> ([], s)
           | Some ds \<Rightarrow>
               if \<not> is_checkpoint ds \<or> is_deleted ds \<or> ss_state x = STATE_CS \<or> queued_to_send ds then ([], s)
               else if retry then
                 let s1 = update_session_counts ses STATE_DS s;
                     x1 = x\<lparr>ss_state := STATE_DS, ss_sess := (ss_sess x)\<lparr>red_segments :=
                            om_modify start (\<lambda>d. d\<lparr>queued_to_send := True\<rparr>) (red_segments (ss_sess x))\<rparr>\<rparr>
                 in ([Snd_Data (ds\<lparr>queued_to_send := True\<rparr>)], put_send_session ses x1 s1)
               else cancel_session REASON_RXMTCYCEX ses s))"

definition sender_cancel_timeout :: "bool \<Rightarrow> u64 \<Rightarrow> ltp_sender \<Rightarrow> snd_effect list \<times> ltp_sender" where
  "sender_cancel_timeout retry ses s =
     (case find_session ses s of
        None \<Rightarrow> ([], s)
      | Some x \<Rightarrow>
          (case ss_cancel x of
             None \<Rightarrow> ([], s)
           | Some c \<Rightarrow> if retry then ([Snd (Seg_CS c)], s) else ([], erase_send_session ses True s)))"

text \<open>The inactivity timer, which the sender does not start any more; \<open>over\<close> says whether the interval has passed.\<close>

definition sender_inactivity :: "bool \<Rightarrow> session_key \<Rightarrow> ltp_sender \<Rightarrow> snd_effect list \<times> ltp_sender" where
  "sender_inactivity over key s =
     (case find_sender_session key s of
        None \<Rightarrow> ([], s)
      | Some x \<Rightarrow> if ss_state x = STATE_DS \<and> over then cancel_session REASON_RXMTCYCEX (snd key) s else ([], s))"

definition sender_closeout :: "u64 \<Rightarrow> ltp_sender \<Rightarrow> ltp_sender" where
  "sender_closeout ses s = s\<lparr>snd_engine := delete_closed_session ses (snd_engine s)\<rparr>"

text \<open>The convergence layer takes a segment from its queue: what goes on the wire.\<close>

definition link_transmits :: "u64 \<Rightarrow> u64 \<Rightarrow> ltp_sender \<Rightarrow> snd_effect list \<times> ltp_sender" where
  "link_transmits ses start s =
     (case find_session ses s of
        None \<Rightarrow> ([], s)
      | Some x \<Rightarrow>
          (case om_find (red_segments (ss_sess x)) start of
             None \<Rightarrow> ([], s)
           | Some ds \<Rightarrow>
               if is_deleted ds then ([], s)
               else ([Wire ds], put_send_session ses (x\<lparr>ss_sess := (ss_sess x)\<lparr>red_segments :=
                       om_modify start (\<lambda>d. d\<lparr>queued_to_send := False\<rparr>) (red_segments (ss_sess x))\<rparr>\<rparr>) s)))"

section \<open>The operations of the sender\<close>

text \<open>
  \<open>Op_Load\<close> and \<open>Op_Green\<close> are the thread that cuts sessions, for a session of the table and for the next green
  session of its queue.
\<close>

datatype snd_op =
    Op_Bundle nat u64 bool
  | Op_Time_Over
  | Op_Load u64
  | Op_Green
  | Op_Segment any_segment
  | Op_Data_Timeout bool u64 u64
  | Op_Cancel_Timeout bool u64
  | Op_Closeout u64
  | Op_Transmit u64 u64
  | Op_Force_Cancel session_key
  | Op_Inactivity bool session_key
  | Op_Cancel_All

fun snd_step :: "snd_env \<Rightarrow> snd_op \<Rightarrow> ltp_sender \<Rightarrow> (snd_effect list \<times> ltp_sender) option" where
  "snd_step env (Op_Bundle b len green) s = map_option snd (sender_send_bundle env b len green s)"
| "snd_step env Op_Time_Over s = Some (aggregation_time_over s)"
| "snd_step env (Op_Load ses) s = process_loaded_session env ses s"
| "snd_step env Op_Green s = next_green_session env s"
| "snd_step env (Op_Segment seg) s = segment_for_sender seg s"
| "snd_step env (Op_Data_Timeout retry ses start) s = Some (data_seg_timeout retry ses start s)"
| "snd_step env (Op_Cancel_Timeout retry ses) s = Some (sender_cancel_timeout retry ses s)"
| "snd_step env (Op_Closeout ses) s = Some ([], sender_closeout ses s)"
| "snd_step env (Op_Transmit ses start) s = Some (link_transmits ses start s)"
| "snd_step env (Op_Force_Cancel key) s = Some (engine_force_cancel key s)"
| "snd_step env (Op_Inactivity over key) s = Some (sender_inactivity over key s)"
| "snd_step env Op_Cancel_All s = Some (cancel_all_sessions s)"

section \<open>Sums over the sessions\<close>

definition tot :: "(snd_session \<Rightarrow> 'a::comm_monoid_add) \<Rightarrow> (u64, snd_session) omap \<Rightarrow> 'a" where
  "tot f m = sum_list (map (\<lambda>e. f (snd e)) m)"

lemma tot_append [simp]: "tot f (xs @ ys) = tot f xs + tot f ys"
  by (simp add: tot_def)

lemma tot_Cons [simp]: "tot f ((k, x) # m) = f x + tot f m"
  by (simp add: tot_def)

lemma om_split_at:
  assumes "om_wf m" and "om_find m k = Some x"
  obtains xs ys where "m = xs @ (k, x) # ys" and "om_modify k (\<lambda>_. y) m = xs @ (k, y) # ys" and "om_erase k m = xs @ ys"
proof -
  obtain xs ys where m: "m = xs @ (k, x) # ys" using om_find_SomeD [OF assms(2)] by (meson split_list)
  then have "om_modify k (\<lambda>_. y) m = xs @ (k, y) # ys" using om_modify_mid [of xs k x ys "\<lambda>_. y"] assms(1) by simp
  moreover have "om_erase k m = xs @ ys" using om_erase_mid [of xs k x ys] assms(1) m by simp
  ultimately show thesis using that m by blast
qed

lemma tot_modify:
  assumes "om_wf m" and "om_find m k = Some x"
  shows "tot f (om_modify k (\<lambda>_. y) m) + f x = tot f m + f y"
  by (rule om_split_at [OF assms, of y]) (simp add: ac_simps)

lemma tot_erase:
  assumes "om_wf m" and "om_find m k = Some x"
  shows "tot f (om_erase k m) + f x = tot f m"
  by (rule om_split_at [OF assms]) (simp add: ac_simps)

lemma tot_assign: "om_find m k = None \<Longrightarrow> tot f (om_assign k y m) = f y + tot f m"
  by (induction k y m rule: om_assign.induct) (auto simp: om_find_def ac_simps split: if_splits)

text \<open>The bundles in the sessions, and the number of sessions in a state.\<close>

definition held_bundles :: "ltp_sender \<Rightarrow> nat multiset" where
  "held_bundles s = tot (\<lambda>x. mset (ss_bundles x)) (send_sessions s)"

abbreviation in_state :: "session_state \<Rightarrow> (u64, snd_session) omap \<Rightarrow> nat" where
  "in_state st \<equiv> tot (\<lambda>x. if ss_state x = st then 1 else 0)"

abbreviation live :: "(u64, snd_session) omap \<Rightarrow> nat" where
  "live \<equiv> tot (\<lambda>x. if ss_state x = STATE_CS then 0 else 1)"

lemma live_length: "live m + in_state STATE_CS m = length m"
  by (induction m) (auto simp: tot_def)

section \<open>The invariant of the sender\<close>

fun counter :: "session_state \<Rightarrow> ltp_sender \<Rightarrow> u64" where
  "counter STATE_DS s = state_ds s"
| "counter STATE_RS s = state_rs s"
| "counter STATE_CS s = state_cs s"
| "counter _ s = 0"

abbreviation counted :: "session_state set" where
  "counted \<equiv> {STATE_DS, STATE_RS, STATE_CS}"

text \<open>
  Sessions and their cancel segments carry the ids of the table. A session that is being cancelled has
  reported its bundles and dropped its segments. A session that is being loaded has not been
  cut. Nothing is left of the sessions that are not in the table.
\<close>

definition session_ok :: "u64 option \<Rightarrow> u64 \<Rightarrow> u64 \<Rightarrow> snd_session \<Rightarrow> bool" where
  "session_ok ld eng ses x \<longleftrightarrow> (ss_state x = STATE_CS \<longrightarrow> ss_bundles x = [] \<and> red_segments (ss_sess x) = [])
     \<and> (ss_cancel x \<noteq> None \<longrightarrow> ss_state x = STATE_CS) \<and> (\<forall>c. ss_cancel x = Some c \<longrightarrow> engine_id c = eng \<and> session_id c = ses)
     \<and> sess_engine_id (ss_sess x) = eng \<and> sess_session_id (ss_sess x) = ses
     \<and> (red_complete (ss_sess x) \<longrightarrow> expected_red_bytes (ss_sess x) \<noteq> 0)
     \<and> (ld = Some ses \<longrightarrow> ss_state x \<noteq> STATE_CS \<and> (\<exists>ck sr. ss_sess x = session_init eng ses ck sr))"

definition table_ok :: "ltp_sender \<Rightarrow> bool" where
  "table_ok s \<longleftrightarrow> om_wf (send_sessions s)
     \<and> (\<forall>ses x. find_session ses s = Some x \<longrightarrow>
          session_ok (loading_session s) (local_engine_id (snd_engine s)) ses x \<and> ses \<le> eng_session_id (snd_engine s)
          \<and> session_to_engine (snd_engine s) ses = Some (remote_engine_id s))
     \<and> (\<forall>ses. loading_session s = Some ses \<longrightarrow> find_session ses s \<noteq> None)"

definition counts_ok :: "ltp_sender \<Rightarrow> bool" where
  "counts_ok s \<longleftrightarrow> (\<forall>st \<in> counted. counter st s = of_nat (in_state st (send_sessions s)))
     \<and> live (send_sessions s) \<le> unat (max_sessions s)"

definition green_bundles :: "ltp_sender \<Rightarrow> nat set" where
  "green_bundles s = (\<Union>x \<in> set (green_loaded s). set (ss_bundles x))"

definition bundles_ok :: "ltp_sender \<Rightarrow> bool" where
  "bundles_ok s \<longleftrightarrow> (\<forall>b. count (held_bundles s) b \<le> 1) \<and> (\<forall>b \<in> expired_in_queue s \<union> green_bundles s. b \<notin># held_bundles s)
     \<and> (\<forall>x \<in> set (green_loaded s). expected_red_bytes (ss_sess x) = 0)"

definition snd_ok :: "ltp_sender \<Rightarrow> bool" where
  "snd_ok s \<longleftrightarrow> table_ok s \<and> counts_ok s \<and> bundles_ok s"

lemma cancel_segment_key [simp]:
  fixes c :: ltp_cancel_segment
  shows "engine_id (new_cancel_segment c t r) = engine_id c" "session_id (new_cancel_segment c t r) = session_id c"
  by (simp_all add: new_cancel_segment_def Let_def create_ltp_header_def encode_field_def encode_field64_def append_byte_def split: option.split)

lemma snd_okD:
  assumes "snd_ok s"
  shows "table_ok s" "counts_ok s" "bundles_ok s" "om_wf (send_sessions s)"
  using assms by (auto simp: snd_ok_def table_ok_def)

lemma table_okD:
  assumes "table_ok s" and "find_session ses s = Some x"
  shows "session_ok (loading_session s) (local_engine_id (snd_engine s)) ses x" and "ses \<le> eng_session_id (snd_engine s)"
    and "session_to_engine (snd_engine s) ses = Some (remote_engine_id s)"
  using assms by (auto simp: table_ok_def)

lemma loading_no_segments:
  assumes "session_ok ld eng ses x" and "om_find (red_segments (ss_sess x)) k = Some d"
  shows "ld \<noteq> Some ses"
proof
  assume "ld = Some ses"
  then obtain ck sr where "ss_sess x = session_init eng ses ck sr" using assms(1) unfolding session_ok_def by blast
  then show False using assms(2) by (simp add: session_init_def om_find_def)
qed

text \<open>What is set aside: the events in a list of effects.\<close>

fun taken :: "snd_effect list \<Rightarrow> nat multiset" where
  "taken [] = {#}"
| "taken (Add_Inflight b # out) = add_mset b (taken out)"
| "taken (_ # out) = taken out"

fun reported :: "snd_effect list \<Rightarrow> nat multiset" where
  "reported [] = {#}"
| "reported (Transmitted b ok # out) = add_mset b (reported out)"
| "reported (Del_Inflight b # out) = add_mset b (reported out)"
| "reported (_ # out) = reported out"

lemma taken_append [simp]: "taken (xs @ ys) = taken xs + taken ys"
  by (induction xs rule: taken.induct) auto

lemma reported_append [simp]: "reported (xs @ ys) = reported xs + reported ys"
  by (induction xs rule: reported.induct) auto

lemma events_data [simp]: "taken (map Snd_Data ds) = {#}" "reported (map Snd_Data ds) = {#}"
  by (induction ds) auto

lemma events_gone [simp]: "taken (map Del_Inflight bs) = {#}" "reported (map Del_Inflight bs) = mset bs"
  by (induction bs) auto

lemma events_transmitted [simp]:
  "taken (map (\<lambda>b. Transmitted b ok) bs) = {#}" "reported (map (\<lambda>b. Transmitted b ok) bs) = mset bs"
  by (induction bs) auto

text \<open>
  An operation keeps the invariant, and the bundles held before and taken by it are the bundles held
  afterwards and those settled by it.
\<close>

definition accounts :: "ltp_sender \<Rightarrow> snd_effect list \<Rightarrow> ltp_sender \<Rightarrow> bool" where
  "accounts s out s' \<longleftrightarrow> snd_ok s' \<and> held_bundles s + taken out = held_bundles s' + reported out"

section \<open>Changing one session\<close>

lemma state_frame [simp]:
  "send_sessions (leave_state st s) = send_sessions s" "send_sessions (enter_state st s) = send_sessions s"
  "snd_engine (leave_state st s) = snd_engine s" "snd_engine (enter_state st s) = snd_engine s"
  "loading_session (leave_state st s) = loading_session s" "loading_session (enter_state st s) = loading_session s"
  "max_sessions (leave_state st s) = max_sessions s" "max_sessions (enter_state st s) = max_sessions s"
  "expired_in_queue (leave_state st s) = expired_in_queue s" "expired_in_queue (enter_state st s) = expired_in_queue s"
  "green_loaded (leave_state st s) = green_loaded s" "green_loaded (enter_state st s) = green_loaded s"
  "remote_engine_id (leave_state st s) = remote_engine_id s" "remote_engine_id (enter_state st s) = remote_engine_id s"
  by (simp_all add: leave_state_def enter_state_def split: session_state.splits)

lemma ready_frame [simp]:
  "send_sessions (set_ready s) = send_sessions s" "snd_engine (set_ready s) = snd_engine s"
  "loading_session (set_ready s) = loading_session s" "max_sessions (set_ready s) = max_sessions s"
  "expired_in_queue (set_ready s) = expired_in_queue s" "green_loaded (set_ready s) = green_loaded s" "remote_engine_id (set_ready s) = remote_engine_id s"
  "counter st (set_ready s) = counter st s"
  by (cases st; simp add: set_ready_def)+

lemma put_frame [simp]:
  "snd_engine (put_send_session ses x s) = snd_engine s" "loading_session (put_send_session ses x s) = loading_session s"
  "max_sessions (put_send_session ses x s) = max_sessions s" "expired_in_queue (put_send_session ses x s) = expired_in_queue s"
  "green_loaded (put_send_session ses x s) = green_loaded s"
  "remote_engine_id (put_send_session ses x s) = remote_engine_id s" "counter st (put_send_session ses x s) = counter st s"
  by (cases st; simp add: put_send_session_def)+

lemma put_put_session [simp]: "put_send_session ses y (put_send_session ses x s) = put_send_session ses y s"
  by (simp add: put_send_session_def om_modify_def) (rule arg_cong [where f = "\<lambda>m. s\<lparr>send_sessions := m\<rparr>"], auto)

lemma put_enter [simp]:
  "put_send_session ses y (set_ready s) = set_ready (put_send_session ses y s)"
  "enter_state st (put_send_session ses y s) = put_send_session ses y (enter_state st s)"
  "leave_state st (put_send_session ses y s) = put_send_session ses y (leave_state st s)"
  by (simp_all add: put_send_session_def set_ready_def live_sessions_def om_modify_def enter_state_def leave_state_def
      split: session_state.splits)

lemma om_find_modify: "om_find (om_modify k f m) j = (if j = k then map_option f (om_find m j) else om_find m j)"
  by (induction m) (auto simp: om_modify_def om_find_def)

lemma find_put [simp]:
  "find_session ses s \<noteq> None \<Longrightarrow> find_session j (put_send_session ses y s) = (if j = ses then Some y else find_session j s)"
  by (auto simp: put_send_session_def om_find_modify)

lemma put_wf [simp]: "om_wf (send_sessions (put_send_session ses y s)) = om_wf (send_sessions s)"
proof -
  have "map fst (om_modify ses (\<lambda>_. y) m) = map fst m" for m :: "(u64, snd_session) omap" by (auto simp: om_modify_def)
  then show ?thesis by (simp add: put_send_session_def om_wf_def)
qed

text \<open>The session \<open>x\<close> becomes \<open>y\<close>, with the counters of the states.\<close>

definition change_session :: "u64 \<Rightarrow> snd_session \<Rightarrow> snd_session \<Rightarrow> ltp_sender \<Rightarrow> ltp_sender" where
  "change_session ses x y s =
     put_send_session ses y (if ss_state x \<noteq> ss_state y then enter_state (ss_state y) (leave_state (ss_state x) s) else s)"

lemma change_frame [simp]:
  "snd_engine (change_session ses x y s) = snd_engine s" "loading_session (change_session ses x y s) = loading_session s"
  "max_sessions (change_session ses x y s) = max_sessions s" "expired_in_queue (change_session ses x y s) = expired_in_queue s"
  "green_loaded (change_session ses x y s) = green_loaded s"
  "remote_engine_id (change_session ses x y s) = remote_engine_id s"
  "om_wf (send_sessions (change_session ses x y s)) = om_wf (send_sessions s)"
  by (simp_all add: change_session_def)

lemma change_find: "find_session ses s \<noteq> None \<Longrightarrow> find_session j (change_session ses x y s) = (if j = ses then Some y else find_session j s)"
  by (simp add: change_session_def)

lemma change_tot:
  assumes "om_wf (send_sessions s)" and "find_session ses s = Some x"
  shows "tot f (send_sessions (change_session ses x y s)) + f x = tot f (send_sessions s) + f y"
  using tot_modify [OF assms, of f y] by (simp add: change_session_def put_send_session_def)

lemma counter_leave: "counter st (leave_state st' s) = counter st s - (if st = st' \<and> st \<in> counted then 1 else 0)"
  by (cases st; cases st'; simp add: leave_state_def)

lemma counter_enter: "counter st (enter_state st' s) = counter st s + (if st = st' \<and> st \<in> counted then 1 else 0)"
  by (cases st; cases st'; simp add: enter_state_def)

lemma change_counts:
  assumes "counts_ok s" and "om_wf (send_sessions s)" and "find_session ses s = Some x"
    and "ss_state x = STATE_CS \<Longrightarrow> ss_state y = STATE_CS"
  shows "counts_ok (change_session ses x y s)"
proof -
  note T = change_tot [OF assms(2,3)]
  have "counter st (change_session ses x y s) = of_nat (in_state st (send_sessions (change_session ses x y s)))" if st: "st \<in> counted" for st
  proof -
    have "in_state st (send_sessions (change_session ses x y s)) + (if ss_state x = st then 1 else 0)
        = in_state st (send_sessions s) + (if ss_state y = st then 1 else 0)" (is "?a + ?x = ?b + ?y") by (rule T)
    then have "(of_nat (?a + ?x) :: u64) = of_nat (?b + ?y)" by (rule arg_cong)
    then have "(of_nat ?a :: u64) + (if ss_state x = st then 1 else 0) = of_nat ?b + (if ss_state y = st then 1 else 0)"
      by (simp split: if_splits)
    moreover have "counter st s = of_nat (in_state st (send_sessions s))" using assms(1) st unfolding counts_ok_def by blast
    moreover have "counter st (change_session ses x y s) + (if ss_state x = st then 1 else 0) = counter st s + (if ss_state y = st then 1 else 0)"
      using st by (auto simp: change_session_def counter_leave counter_enter)
    ultimately show ?thesis by (metis add_right_cancel)
  qed
  moreover have "live (send_sessions (change_session ses x y s)) \<le> live (send_sessions s)"
    using T [of "\<lambda>x. if ss_state x = STATE_CS then 0 else 1 :: nat" y] assms(4) by (auto split: if_splits)
  ultimately show ?thesis using assms(1) by (auto simp: counts_ok_def)
qed

lemma change_table:
  assumes "table_ok s" and "find_session ses s = Some x"
    and "session_ok (loading_session s) (local_engine_id (snd_engine s)) ses y"
  shows "table_ok (change_session ses x y s)"
  using assms unfolding table_ok_def by (auto simp: change_find)

lemma bundles_ok_sub:
  assumes "bundles_ok s" and "held_bundles s' \<subseteq># held_bundles s" and "expired_in_queue s' = expired_in_queue s" "green_loaded s' = green_loaded s"
  shows "bundles_ok s'"
proof -
  have "count (held_bundles s') b \<le> count (held_bundles s) b" for b using assms(2) by (rule mset_subset_eq_count)
  moreover have "green_bundles s' = green_bundles s" by (simp add: green_bundles_def assms(4))
  ultimately show ?thesis
    using assms(1) mset_subset_eqD [OF assms(2)] unfolding bundles_ok_def assms(3,4) by (metis order.trans)
qed

lemma change_held:
  assumes "om_wf (send_sessions s)" and "find_session ses s = Some x"
  shows "held_bundles (change_session ses x y s) + mset (ss_bundles x) = held_bundles s + mset (ss_bundles y)"
  using change_tot [OF assms] by (simp add: held_bundles_def)

text \<open>A session that keeps or settles some of its bundles.\<close>

lemma session_change_ok:
  assumes "snd_ok s" and "find_session ses s = Some x"
    and "session_ok (loading_session s) (local_engine_id (snd_engine s)) ses y"
    and "ss_state x = STATE_CS \<Longrightarrow> ss_state y = STATE_CS" and "mset (ss_bundles x) = mset (ss_bundles y) + S"
  shows "snd_ok (change_session ses x y s)" and "held_bundles s = held_bundles (change_session ses x y s) + S"
proof -
  note D = snd_okD [OF assms(1)]
  show h: "held_bundles s = held_bundles (change_session ses x y s) + S" using change_held [OF D(4) assms(2), of y] assms(5) by simp
  then have "held_bundles (change_session ses x y s) \<subseteq># held_bundles s" by simp
  then have "bundles_ok (change_session ses x y s)" using bundles_ok_sub [OF D(3)] by simp
  then show "snd_ok (change_session ses x y s)"
    using change_table [OF D(1) assms(2,3)] change_counts [OF D(2,4) assms(2,4)] by (simp add: snd_ok_def)
qed

lemma ready_ok [simp]: "snd_ok (set_ready s) = snd_ok s" "held_bundles (set_ready s) = held_bundles s"
  by (simp_all add: snd_ok_def table_ok_def counts_ok_def bundles_ok_def green_bundles_def held_bundles_def)

lemma put_is_change: "ss_state y = ss_state x \<Longrightarrow> put_send_session ses y s = change_session ses x y s"
  by (simp add: change_session_def)

lemma put_same: "om_wf (send_sessions s) \<Longrightarrow> find_session ses s = Some x \<Longrightarrow> put_send_session ses x s = s"
  by (rule om_split_at [of "send_sessions s" ses x x]) (simp_all add: put_send_session_def)

lemma update_is_change:
  assumes "om_wf (send_sessions s)" and "find_session ses s = Some x"
  shows "update_session_counts ses new s = set_ready (change_session ses x (x\<lparr>ss_state := new\<rparr>) s)"
proof (cases "ss_state x = new")
  case True
  then have "x\<lparr>ss_state := new\<rparr> = x" by simp
  then show ?thesis using True assms put_same by (simp add: update_session_counts_def change_session_def)
qed (use assms in \<open>simp add: update_session_counts_def change_session_def\<close>)

text \<open>Erasing a session whose bundles have been settled.\<close>

lemma erase_ok:
  assumes "snd_ok s" and "find_session ses s = Some x" and "ss_bundles x = []" and "loading_session s \<noteq> Some ses"
  shows "snd_ok (erase_send_session ses cancelled s)" and "held_bundles (erase_send_session ses cancelled s) = held_bundles s"
proof -
  note D = snd_okD [OF assms(1)]
  let ?e = "erase_send_session ses cancelled s"
  have m: "send_sessions ?e = om_erase ses (send_sessions s)" using assms(2) by (simp add: erase_send_session_def)
  have T: "tot f (send_sessions ?e) + f x = tot f (send_sessions s)" for f :: "snd_session \<Rightarrow> 'b::comm_monoid_add"
    unfolding m by (rule tot_erase [OF D(4) assms(2)])
  show h: "held_bundles ?e = held_bundles s" using T [of "\<lambda>x. mset (ss_bundles x)"] assms(3) by (simp add: held_bundles_def)
  have fr: "loading_session ?e = loading_session s" "max_sessions ?e = max_sessions s" "expired_in_queue ?e = expired_in_queue s" "green_loaded ?e = green_loaded s"
    "local_engine_id (snd_engine ?e) = local_engine_id (snd_engine s)" "eng_session_id (snd_engine ?e) = eng_session_id (snd_engine s)"
    "session_to_engine (snd_engine ?e) = (session_to_engine (snd_engine s))(ses := None)" "remote_engine_id ?e = remote_engine_id s"
    using assms(2) by (simp_all add: erase_send_session_def closed_session_def)
  have "om_wf (om_erase ses (send_sessions s))" using D(4) by (rule om.wf_erase)
  then have "table_ok ?e"
    using D(1) assms(4) fr m unfolding table_ok_def by (auto simp: om_find_erase)
  moreover have "counter st ?e = of_nat (in_state st (send_sessions ?e))" if st: "st \<in> counted" for st
  proof -
    have "in_state st (send_sessions ?e) + (if ss_state x = st then 1 else 0) = in_state st (send_sessions s)" (is "?a + ?x = ?b") by (rule T)
    then have "(of_nat (?a + ?x) :: u64) = of_nat ?b" by (rule arg_cong)
    then have "(of_nat ?a :: u64) + (if ss_state x = st then 1 else 0) = of_nat ?b" by (simp split: if_splits)
    moreover have "counter st s = of_nat ?b" using D(2) st unfolding counts_ok_def by blast
    moreover have "counter st (s\<lparr>snd_engine := e, send_sessions := q\<rparr>) = counter st s" for e q by (cases st) simp_all
    then have "counter st ?e = counter st s - (if ss_state x = st then 1 else 0)"
      using assms(2) st by (auto simp: erase_send_session_def counter_leave)
    ultimately show ?thesis by (metis (no_types) add_diff_cancel_right')
  qed
  moreover have "live (send_sessions ?e) \<le> live (send_sessions s)"
    using T [of "\<lambda>x. if ss_state x = STATE_CS then 0 else 1 :: nat"] by (auto split: if_splits)
  ultimately show "snd_ok ?e" using D(2) bundles_ok_sub [OF D(3), of ?e] h fr unfolding snd_ok_def counts_ok_def by auto
qed

lemma accountsI: "snd_ok s' \<Longrightarrow> held_bundles s + taken out = held_bundles s' + reported out \<Longrightarrow> accounts s out s'"
  by (simp add: accounts_def)

lemma post_transmit_settles:
  assumes "snd_ok s" and "find_session ses s = Some x" and "post_transmit (expired_in_queue s) success x = (out, y)"
    and "success \<Longrightarrow> expected_red_bytes (ss_sess x) \<noteq> 0"
  shows "y = x\<lparr>ss_bundles := []\<rparr>" and "reported out = mset (ss_bundles x)" and "taken out = {#}"
proof -
  have "b \<notin> expired_in_queue s" if "b \<in> set (ss_bundles x)" for b
  proof -
    have "mset (ss_bundles x) \<subseteq># held_bundles s"
      using tot_erase [OF snd_okD(4) [OF assms(1)] assms(2), of "\<lambda>x. mset (ss_bundles x)"] unfolding held_bundles_def
      by (metis mset_subset_eq_add_right)
    then have "b \<in># held_bundles s" using that by (auto dest: mset_subset_eqD)
    then show ?thesis using snd_okD(3) [OF assms(1)] by (auto simp: bundles_ok_def)
  qed
  then have f: "filter (\<lambda>b. b \<notin> expired_in_queue s) (rev (ss_bundles x)) = rev (ss_bundles x)" by (auto simp: filter_id_conv)
  show "y = x\<lparr>ss_bundles := []\<rparr>" "reported out = mset (ss_bundles x)" "taken out = {#}"
    using assms(3,4) unfolding post_transmit_def f by (auto simp: Let_def word_neq_0_conv)
qed

section \<open>Every operation accounts for the bundles\<close>

lemma cleanup_accounts:
  assumes "snd_ok s" and "find_session ses s = Some x" and "loading_session s \<noteq> Some ses"
    and "cleanup_sender_session ses ev s = (out, s')" and "ev = Session_completed \<Longrightarrow> expected_red_bytes (ss_sess x) \<noteq> 0"
  shows "accounts s out s'"
proof -
  obtain y where y: "post_transmit (expired_in_queue s) (ev = Session_completed) x = (out, y)"
      "s' = erase_send_session ses (ev \<noteq> Session_completed) (put_send_session ses y s)"
    using assms(2,4) by (cases "post_transmit (expired_in_queue s) (ev = Session_completed) x") (simp add: cleanup_sender_session_def Let_def)
  note P = post_transmit_settles [OF assms(1,2) y(1) assms(5)]
  note t = table_okD(1) [OF snd_okD(1) [OF assms(1)] assms(2)]
  have c: "put_send_session ses y s = change_session ses x y s" by (rule put_is_change) (simp add: P(1))
  have "session_ok (loading_session s) (local_engine_id (snd_engine s)) ses y"
    using t P(1) by (simp add: session_ok_def)
  note C = session_change_ok [OF assms(1,2) this, of "mset (ss_bundles x)"]
  have ok: "snd_ok (change_session ses x y s)" "held_bundles s = held_bundles (change_session ses x y s) + mset (ss_bundles x)"
    using C P(1) by simp_all
  have "find_session ses (change_session ses x y s) = Some y" using assms(2) by (simp add: change_find)
  note E = erase_ok [OF ok(1) this]
  show ?thesis unfolding y(2) c by (rule accountsI) (use E P ok(2) assms(3) in auto)
qed

text \<open>Cancelling is one change of the session.\<close>

lemma cancel_change:
  fixes reason :: u8
  assumes "om_wf (send_sessions s)" and "find_session ses s = Some x" and "ss_state x \<noteq> STATE_CS"
  defines "c \<equiv> new_cancel_segment (session_cancel_base (remove_segments (ss_sess x))) LTP_SEGMENT_CS_BS reason"
  shows "cancel_session reason ses s =
    (Snd (Seg_CS c) # map (\<lambda>b. Transmitted b False) (filter (\<lambda>b. b \<notin> expired_in_queue s) (rev (ss_bundles x))),
     set_ready (change_session ses x
       (x\<lparr>ss_sess := remove_segments (ss_sess x), ss_state := STATE_CS, ss_cancel := Some c, ss_bundles := []\<rparr>) s))"
proof -
  define w where "w = put_send_session ses (x\<lparr>ss_sess := remove_segments (ss_sess x)\<rparr>) s"
  have w: "find_session ses w = Some (x\<lparr>ss_sess := remove_segments (ss_sess x)\<rparr>)" "om_wf (send_sessions w)"
    using assms(1,2) by (simp_all add: w_def)
  show ?thesis using assms(2,3)
    by (simp add: cancel_session_def Let_def post_transmit_def w_def [symmetric] update_is_change [OF w(2,1)] c_def)
      (simp add: change_session_def w_def)
qed

lemma cancel_accounts:
  assumes "snd_ok s" and "loading_session s \<noteq> Some ses" and "cancel_session reason ses s = (out, s')"
  shows "accounts s out s'"
proof (cases "\<exists>x. find_session ses s = Some x \<and> ss_state x \<noteq> STATE_CS")
  case False
  then show ?thesis using assms by (auto simp: cancel_session_def accounts_def split: option.splits)
next
  case True
  then obtain x where x: "find_session ses s = Some x" "ss_state x \<noteq> STATE_CS" by blast
  note t = table_okD(1) [OF snd_okD(1) [OF assms(1)] x(1)]
  define c where "c = new_cancel_segment (session_cancel_base (remove_segments (ss_sess x))) LTP_SEGMENT_CS_BS reason"
  define y where "y = x\<lparr>ss_sess := remove_segments (ss_sess x), ss_state := STATE_CS, ss_cancel := Some c, ss_bundles := []\<rparr>"
  define out' where "out' = map (\<lambda>b. Transmitted b False) (filter (\<lambda>b. b \<notin> expired_in_queue s) (rev (ss_bundles x)))"
  have s': "out = Snd (Seg_CS c) # out'" "s' = set_ready (change_session ses x y s)"
    using assms(3) cancel_change [OF snd_okD(4) [OF assms(1)] x, of reason] by (simp_all add: c_def y_def out'_def)
  obtain r where "post_transmit (expired_in_queue s) False x = (out', r)" by (simp add: post_transmit_def Let_def out'_def)
  from post_transmit_settles [OF assms(1) x(1) this] have P: "reported out' = mset (ss_bundles x)" "taken out' = {#}" by simp_all
  have "engine_id c = sess_engine_id (ss_sess x)" "session_id c = sess_session_id (ss_sess x)"
    by (simp_all add: c_def session_cancel_base_def remove_segments_def)
  then have "session_ok (loading_session s) (local_engine_id (snd_engine s)) ses y"
    using t assms(2) by (simp add: session_ok_def y_def remove_segments_def)
  note C = session_change_ok [OF assms(1) x(1) this, of "mset (ss_bundles x)"]
  have "snd_ok s'" "held_bundles s = held_bundles s' + mset (ss_bundles x)" using C unfolding s'(2) by (simp_all add: y_def)
  then show ?thesis by (intro accountsI) (simp_all add: s'(1) P)
qed

text \<open>
  The operations for which the bundles are accounted for. A bundle is new to the link (it is in no session, red or green, and
  has not expired in the queue) and session ids are left. A session is cut once, with formatted bundles, after it has stopped
  collecting. No segment, no forced cancellation and no inactivity timer names the session that is still
  collecting bundles, and the sessions are not all cancelled while one is collecting. An acknowledgement of a cancel
  segment names a session that is being cancelled, or none. The code does not check any of these; what it does
  with an acknowledgement for another session is in \<open>unsolicited_ack_loses\<close> below.
\<close>

definition uncut :: "ltp_sender \<Rightarrow> u64 \<Rightarrow> snd_session \<Rightarrow> bool" where
  "uncut s ses x \<longleftrightarrow> (\<exists>ck sr. ss_sess x = session_init (local_engine_id (snd_engine s)) ses ck sr)"

definition load_ok :: "snd_env \<Rightarrow> nat list \<Rightarrow> bool" where
  "load_ok env bs \<longleftrightarrow> 0 < se_seg_size env \<and> length (session_block (se_ccsds env) (map (se_contents env) bs)) < 2 ^ 63
     \<and> (\<forall>b \<in> set bs. case se_contents env b of (v, pl, blocks) \<Rightarrow> bundle_ok v pl blocks \<and> (\<forall>k \<in> set blocks. bi_locals k = None))"

fun op_ok :: "snd_env \<Rightarrow> snd_op \<Rightarrow> ltp_sender \<Rightarrow> bool" where
  "op_ok env (Op_Bundle b len green) s \<longleftrightarrow>
     b \<notin># held_bundles s \<and> b \<notin> expired_in_queue s \<union> green_bundles s \<and> eng_session_id (snd_engine s) \<noteq> - 1"
| "op_ok env (Op_Load ses) s \<longleftrightarrow> loading_session s \<noteq> Some ses
     \<and> (\<forall>x. find_session ses s = Some x \<longrightarrow> uncut s ses x \<and> load_ok env (filter (\<lambda>b. \<not> se_expired env b) (ss_bundles x)))"
| "op_ok env (Op_Segment seg) s \<longleftrightarrow> loading_session s \<noteq> Some (snd (seg_key seg))
     \<and> (case seg of Seg_CAS c \<Rightarrow> \<forall>x. find_sender_session (seg_key seg) s = Some x \<longrightarrow> ss_state x = STATE_CS | _ \<Rightarrow> True)"
| "op_ok env (Op_Force_Cancel key) s \<longleftrightarrow> loading_session s \<noteq> Some (snd key)"
| "op_ok env (Op_Inactivity over key) s \<longleftrightarrow> loading_session s \<noteq> Some (snd key)"
| "op_ok env Op_Cancel_All s \<longleftrightarrow> loading_session s = None"
| "op_ok env _ s \<longleftrightarrow> True"

lemma accounts_refl: "snd_ok s \<Longrightarrow> accounts s [] s"
  by (simp add: accounts_def)

text \<open>A change of a session that touches neither its state nor its bundles.\<close>

lemma quiet_change:
  assumes "snd_ok s" and "find_session ses s = Some x" and "ss_state y = ss_state x" and "ss_bundles y = ss_bundles x"
    and "ss_cancel y = ss_cancel x \<or> ss_cancel y = None" and "loading_session s \<noteq> Some ses"
    and "red_complete (ss_sess y) \<longrightarrow> expected_red_bytes (ss_sess y) \<noteq> 0"
    and "sess_engine_id (ss_sess y) = sess_engine_id (ss_sess x)" "sess_session_id (ss_sess y) = sess_session_id (ss_sess x)"
    and "red_segments (ss_sess x) = [] \<Longrightarrow> ss_state x = STATE_CS \<Longrightarrow> red_segments (ss_sess y) = []"
  shows "snd_ok (put_send_session ses y s)" and "held_bundles (put_send_session ses y s) = held_bundles s"
proof -
  note t = table_okD(1) [OF snd_okD(1) [OF assms(1)] assms(2)]
  have "session_ok (loading_session s) (local_engine_id (snd_engine s)) ses y"
    using t assms(3-6) assms(7-10) unfolding session_ok_def by (elim conjE) (intro conjI; auto)
  from session_change_ok [OF assms(1,2) this, of "{#}"] assms(3,4)
  show "snd_ok (put_send_session ses y s)" "held_bundles (put_send_session ses y s) = held_bundles s"
    unfolding put_is_change [OF assms(3)] by simp_all
qed

section \<open>Reports, cancel segments and timers\<close>

text \<open>A report does not change the ids of the session and what it knows about its end.\<close>

definition same_eob :: "ltp_session \<Rightarrow> ltp_session \<Rightarrow> bool" where
  "same_eob s s' \<longleftrightarrow> red_complete s' = red_complete s \<and> expected_red_bytes s' = expected_red_bytes s
     \<and> sess_engine_id s' = sess_engine_id s \<and> sess_session_id s' = sess_session_id s"

lemma same_eob_refl [simp]: "same_eob s s"
  by (simp add: same_eob_def)

lemma same_eob_trans: "same_eob s t \<Longrightarrow> same_eob t u \<Longrightarrow> same_eob s u"
  by (simp add: same_eob_def)

lemma remove_claimed_eob: "remove_claimed_segments ckpt lo co up rt s = (n, rt', s') \<Longrightarrow> same_eob s s'"
  by (auto simp: remove_claimed_segments_def same_eob_def Let_def split: prod.splits)

lemma apply_claim_eob: "apply_claim ckpt rlower c (l, u, n, rt, s) = (l', u', n', rt', s') \<Longrightarrow> same_eob s s'"
  by (auto simp: apply_claim_def Let_def split: prod.splits dest: remove_claimed_eob)

lemma apply_claims_eob:
  "fold (apply_claim ckpt rlower) cs (l, u, n, rt, s) = (l', u', n', rt', s') \<Longrightarrow> same_eob s s'"
proof (induction cs arbitrary: l u n rt s)
  case (Cons c cs)
  obtain l1 u1 n1 rt1 s1 where 1: "apply_claim ckpt rlower c (l, u, n, rt, s) = (l1, u1, n1, rt1, s1)" by (metis prod_cases5)
  then have "same_eob s1 s'" using Cons by simp
  then show ?case using apply_claim_eob [OF 1] by (simp add: same_eob_def)
qed (simp add: same_eob_def)

lemma apply_report_eob:
  assumes "apply_report rpt s = (l, u, n, rt, s')"
  shows "same_eob s s'"
proof -
  obtain l1 u1 n1 rt1 s1 where 1: "fold (apply_claim (checkpoint_id rpt) (lower_bounds rpt)) (claim_map rpt)
      (lower_bounds rpt, lower_bounds rpt, 0, [], s) = (l1, u1, n1, rt1, s1)" by (metis prod_cases5)
  then have "apply_tail (checkpoint_id rpt) (upper_bounds rpt) (l1, u1, n1, rt1, s1) = (l, u, n, rt, s')"
    using assms by (simp add: apply_report_def)
  then have "same_eob s1 s'"
    by (auto simp: apply_tail_def Let_def split: if_splits prod.splits dest: remove_claimed_eob)
  then show ?thesis using apply_claims_eob [OF 1] by (simp add: same_eob_def)
qed

lemma send_remaining_eob: "send_remaining rsn rt s = Some (sent, s') \<Longrightarrow> same_eob s s'"
proof (induction rt arbitrary: s sent)
  case (Cons e rest)
  obtain k ds where e: "e = (k, ds)" by fastforce
  obtain ds1 s1 where 1: "(if rest = [] then new_checkpoint rsn ds s else (ds, s)) = (ds1, s1)" by fastforce
  define s2 where "s2 = s1\<lparr>red_segments := om_modify k (\<lambda>_. ds1\<lparr>queued_to_send := True\<rparr>) (red_segments s1)\<rparr>"
  have "same_eob s s1" using 1
    by (auto simp: new_checkpoint_def get_next_checkpoint_id_def add_checkpoint_seg_def same_eob_def Let_def split: if_splits)
  then have "same_eob s s2" by (simp add: s2_def same_eob_def)
  moreover obtain sent' where "send_remaining rsn rest s2 = Some (sent', s')"
    using Cons.prems 1 by (auto simp: e Let_def s2_def split: if_splits)
  ultimately show ?case using Cons.IH same_eob_trans by blast
qed simp

lemma process_report_eob:
  assumes "process_report False rpt s = Some (complete, sent, s')"
  shows "same_eob s s'" and "complete \<Longrightarrow> red_complete s'"
proof -
  have "same_eob s s' \<and> (complete \<longrightarrow> red_complete s')"
  proof (cases "claims_entire_session rpt s \<or> find_checkpoint_stop_byte (checkpoint_id rpt) s < 0")
    case True
    then show ?thesis using assms
      by (auto simp: process_report_def rs_claimed_entire_session_def claims_entire_session_def same_eob_def split: if_splits)
  next
    case False
    define s1 where "s1 = (if word_of_int (find_checkpoint_stop_byte (checkpoint_id rpt) s + 1) = upper_bounds rpt
      then flag_checkpoint_as_claimed (checkpoint_id rpt) s else s)"
    obtain l u n rt s2 where ap: "apply_report rpt s1 = (l, u, n, rt, s2)" by (metis prod_cases5)
    have "same_eob s s1" by (simp add: s1_def flag_checkpoint_as_claimed_def same_eob_def)
    moreover have "same_eob s1 s2" by (rule apply_report_eob [OF ap])
    moreover have "process_report False rpt s = map_option (\<lambda>(sent, s3). (red_complete s3 \<and> red_segments s3 = [], sent, s3))
        (send_remaining (serial_number rpt) rt s2)"
      unfolding process_report_def Let_def s1_def [symmetric] ap using False by (simp add: send_remaining_segments_def)
    then have "send_remaining (serial_number rpt) rt s2 = Some (sent, s')" "complete \<Longrightarrow> red_complete s'"
      using assms by (cases "send_remaining (serial_number rpt) rt s2"; auto)+
    ultimately show ?thesis using send_remaining_eob same_eob_trans by blast
  qed
  then show "same_eob s s'" "complete \<Longrightarrow> red_complete s'" by auto
qed

lemma find_senderD: "find_sender_session key s = Some x \<Longrightarrow> find_session (snd key) s = Some x"
  by (simp add: find_sender_session_def split: if_splits)

lemma admin_events [simp]: "taken [Snd g] = {#}" "reported [Snd g] = {#}"
  by simp_all

lemma accounts_Snd: "accounts s out s' \<Longrightarrow> taken pre = {#} \<Longrightarrow> reported pre = {#} \<Longrightarrow> accounts s (pre @ out) s'"
  by (simp add: accounts_def)

lemma accounts_put:
  assumes "snd_ok (put_send_session ses y s)" and "held_bundles (put_send_session ses y s) = held_bundles s"
    and "accounts (put_send_session ses y s) out s'"
  shows "accounts s out s'"
  using assms by (simp add: accounts_def)

lemma process_report_empty:
  assumes "process_report False rpt s = Some (complete, sent, s')" and "red_segments s = []"
  shows "red_segments s' = []"
proof (cases "claims_entire_session rpt s")
  case True
  then show ?thesis using assms by (auto simp: process_report_def rs_claimed_entire_session_def)
next
  case False
  have "om_wf (red_segments s)" "keyed (red_segments s)" using assms(2) by (simp_all add: keyed_def)
  from process_report_any(2) [OF assms(1) this False] assms(2) show ?thesis by (cases "red_segments s'") auto
qed

lemma open_report_accounts:
  assumes "snd_ok s" and "find_session (session_id rpt) s = Some x" and "loading_session s \<noteq> Some (session_id rpt)"
    and "open_report rpt x s = Some (out, s')"
  shows "accounts s out s'"
proof -
  note t = table_okD(1) [OF snd_okD(1) [OF assms(1)] assms(2)]
  obtain complete sent sess where p: "process_report False rpt (ss_sess x) = Some (complete, sent, sess)"
    using assms(4) by (auto simp: open_report_def)
  define s1 where "s1 = put_send_session (session_id rpt) (x\<lparr>ss_sess := sess\<rparr>) s"
  obtain o2 s2 where c: "(if complete then cleanup_sender_session (session_id rpt) Session_completed s1 else ([], s1)) = (o2, s2)" by fastforce
  have out: "out = (report_ack_for rpt # map Snd_Data sent) @ o2" "s' = s2"
    using assms(4) p c by (simp_all add: open_report_def s1_def [symmetric])
  have e: "red_complete sess \<longrightarrow> expected_red_bytes sess \<noteq> 0" "complete \<Longrightarrow> red_complete sess"
    using process_report_eob [OF p] t by (auto simp: session_ok_def same_eob_def)
  have ids: "sess_engine_id sess = sess_engine_id (ss_sess x)" "sess_session_id sess = sess_session_id (ss_sess x)"
    using process_report_eob(1) [OF p] by (simp_all add: same_eob_def)
  note Q = quiet_change [OF assms(1,2), of "x\<lparr>ss_sess := sess\<rparr>", simplified, OF assms(3) e(1) ids process_report_empty [OF p], folded s1_def]
  have "find_session (session_id rpt) s1 = Some (x\<lparr>ss_sess := sess\<rparr>)" using assms(2) by (simp add: s1_def)
  then have "accounts s1 o2 s2" if complete
    using cleanup_accounts [OF Q(1), of "session_id rpt" "x\<lparr>ss_sess := sess\<rparr>" Session_completed o2 s2] that c assms(3) e by (simp add: s1_def)
  moreover have "accounts s1 o2 s2" if "\<not> complete" using that c accounts_refl [OF Q(1)] by simp
  ultimately have "accounts s o2 s2" using accounts_put [OF Q(1,2) [unfolded s1_def]] by (auto simp: s1_def)
  then show ?thesis unfolding out by (rule accounts_Snd) (simp_all add: report_ack_for_def)
qed

lemma process_RS_accounts:
  assumes "snd_ok s" and "loading_session s \<noteq> Some (session_id rpt)" and "process_RS rpt closed cancelled s = Some (out, s')"
  shows "accounts s out s'"
proof (cases "closed \<or> find_sender_session (engine_id rpt, session_id rpt) s = None")
  case True
  then have "s' = s" "taken out = {#}" "reported out = {#}"
    using assms(3) by (auto simp: process_RS_def closed_report_def cancel_for_segment_def report_ack_for_def Let_def split: if_splits prod.splits option.splits)
  then show ?thesis using assms(1) by (simp add: accounts_def)
next
  case False
  then obtain x where x: "find_sender_session (engine_id rpt, session_id rpt) s = Some x" by blast
  then have "open_report rpt x s = Some (out, s')" using assms(3) False by (simp add: process_RS_def)
  then show ?thesis using open_report_accounts [OF assms(1) _ assms(2)] find_senderD [OF x] by simp
qed

lemma process_CS_accounts:
  assumes "snd_ok s" and "loading_session s \<noteq> Some (session_id c)" and "process_CS c closed cancelled s = (out, s')"
  shows "accounts s out s'"
proof (cases "closed \<or> cancelled \<or> find_sender_session (engine_id c, session_id c) s = None")
  case True
  then have "s' = s" "taken out = {#}" "reported out = {#}" using assms(3) by (auto simp: process_CS_def Let_def split: if_splits)
  then show ?thesis using assms(1) by (simp add: accounts_def)
next
  case False
  then obtain x where x: "find_sender_session (engine_id c, session_id c) s = Some x" by blast
  note f = find_senderD [OF x, simplified] and t = table_okD(1) [OF snd_okD(1) [OF assms(1)] find_senderD [OF x, simplified]]
  define y where "y = x\<lparr>ss_sess := remove_segments (ss_sess x), ss_cancel := None\<rparr>"
  obtain o2 s2 where c: "cleanup_sender_session (session_id c) Cancelled_by_receiver (put_send_session (session_id c) y s) = (o2, s2)" by fastforce
  have out: "\<exists>ack. out = o2 @ [Snd ack]" "s' = s2"
    using assms(3) False x c by (auto simp: process_CS_def Let_def y_def [symmetric])
  have "red_complete (ss_sess y) \<longrightarrow> expected_red_bytes (ss_sess y) \<noteq> 0" using t by (simp add: session_ok_def y_def remove_segments_def)
  note Q = quiet_change [OF assms(1) f _ _ _ assms(2) this]
  have q: "snd_ok (put_send_session (session_id c) y s)" "held_bundles (put_send_session (session_id c) y s) = held_bundles s"
    using Q by (simp_all add: y_def remove_segments_def)
  have "accounts (put_send_session (session_id c) y s) o2 s2"
    using cleanup_accounts [OF q(1) _ _ c, of y] f assms(2) by simp
  then have "accounts s o2 s2" by (rule accounts_put [OF q])
  then show ?thesis using out by (auto simp: accounts_def)
qed

lemma process_CAS_accounts:
  assumes "snd_ok s" and "loading_session s \<noteq> Some (session_id c)"
    and "\<And>x. find_sender_session (engine_id c, session_id c) s = Some x \<Longrightarrow> ss_state x = STATE_CS"
  shows "accounts s [] (process_CAS c s)"
proof (cases "find_sender_session (engine_id c, session_id c) s")
  case None
  then show ?thesis using accounts_refl [OF assms(1)] by (simp add: process_CAS_def)
next
  case (Some x)
  note f = find_senderD [OF Some, simplified]
  have "ss_bundles x = []" using table_okD(1) [OF snd_okD(1) [OF assms(1)] f] assms(3) [OF Some] by (simp add: session_ok_def)
  then show ?thesis using erase_ok [OF assms(1) f _ assms(2)] Some by (simp add: process_CAS_def accounts_def)
qed

lemma segment_accounts:
  assumes "snd_ok s" and "op_ok env (Op_Segment seg) s" and "segment_for_sender seg s = Some (out, s')"
  shows "accounts s out s'"
proof -
  obtain known closed cancelled where l: "lookup_engine (seg_key seg) (snd_engine s) = (known, closed, cancelled)" by (metis prod_cases3)
  have p: "known = Some (remote_engine_id s) \<and> process_segment seg closed cancelled s = Some (out, s') \<or> out = [] \<and> s' = s"
    using assms(3) l by (auto simp: segment_for_sender_def split: if_splits)
  note r = accounts_refl [OF assms(1)]
  show ?thesis
  proof (cases seg)
    case (Seg_RS rpt)
    then show ?thesis using p r process_RS_accounts [OF assms(1)] assms(2) by (auto simp: process_segment_def seg_key_def)
  next
    case (Seg_CS c)
    then show ?thesis using p r process_CS_accounts [OF assms(1), of c closed cancelled out s'] assms(2)
      by (auto simp: process_segment_def seg_key_def split: if_splits)
  next
    case (Seg_CAS c)
    then show ?thesis using p r process_CAS_accounts [OF assms(1), of c] assms(2)
      by (auto simp: process_segment_def seg_key_def split: if_splits)
  qed (use p r in \<open>auto simp: process_segment_def\<close>)
qed

lemma data_timeout_accounts:
  assumes "snd_ok s" and "data_seg_timeout retry ses start s = (out, s')"
  shows "accounts s out s'"
proof (cases "\<exists>x ds. find_session ses s = Some x \<and> om_find (red_segments (ss_sess x)) start = Some ds
    \<and> is_checkpoint ds \<and> \<not> is_deleted ds \<and> ss_state x \<noteq> STATE_CS \<and> \<not> queued_to_send ds")
  case False
  then have "out = [] \<and> s' = s" using assms(2) by (auto simp: data_seg_timeout_def split: option.splits if_splits)
  then show ?thesis using accounts_refl [OF assms(1)] by simp
next
  case True
  then obtain x ds where x: "find_session ses s = Some x" "om_find (red_segments (ss_sess x)) start = Some ds"
    "is_checkpoint ds" "ss_state x \<noteq> STATE_CS" "\<not> queued_to_send ds" "\<not> is_deleted ds" by blast
  note t = table_okD(1) [OF snd_okD(1) [OF assms(1)] x(1)]
  have ld: "loading_session s \<noteq> Some ses" by (rule loading_no_segments [OF t x(2)])
  show ?thesis
  proof (cases retry)
    case False
    then have "cancel_session REASON_RXMTCYCEX ses s = (out, s')" using assms(2) x by (simp add: data_seg_timeout_def)
    then show ?thesis by (rule cancel_accounts [OF assms(1) ld])
  next
    case True
    define y where "y = x\<lparr>ss_state := STATE_DS, ss_sess := (ss_sess x)\<lparr>red_segments :=
      om_modify start (\<lambda>d. d\<lparr>queued_to_send := True\<rparr>) (red_segments (ss_sess x))\<rparr>\<rparr>"
    have s': "out = [Snd_Data (ds\<lparr>queued_to_send := True\<rparr>)]" "s' = put_send_session ses y (update_session_counts ses STATE_DS s)"
      using assms(2) x True by (simp_all add: data_seg_timeout_def Let_def y_def)
    have u: "s' = set_ready (change_session ses x y s)"
      unfolding s'(2) update_is_change [OF snd_okD(4) [OF assms(1)] x(1)] by (simp add: change_session_def y_def)
    have "session_ok (loading_session s) (local_engine_id (snd_engine s)) ses y" using t ld x(4) by (simp add: session_ok_def y_def)
    from session_change_ok [OF assms(1) x(1) this, of "{#}"] x(4)
    have "snd_ok s'" "held_bundles s = held_bundles s'" unfolding u by (simp_all add: y_def)
    then show ?thesis by (simp add: accounts_def s'(1))
  qed
qed

lemma cancel_timeout_accounts:
  assumes "snd_ok s" and "sender_cancel_timeout retry ses s = (out, s')"
  shows "accounts s out s'"
proof (cases "\<exists>x c. find_session ses s = Some x \<and> ss_cancel x = Some c \<and> \<not> retry")
  case False
  then have "s' = s \<and> taken out = {#} \<and> reported out = {#}"
    using assms(2) by (auto simp: sender_cancel_timeout_def split: option.splits if_splits)
  then show ?thesis using assms(1) by (simp add: accounts_def)
next
  case True
  then obtain x c where x: "find_session ses s = Some x" "ss_cancel x = Some c" "\<not> retry" by blast
  note t = table_okD(1) [OF snd_okD(1) [OF assms(1)] x(1)]
  have "ss_bundles x = []" "loading_session s \<noteq> Some ses" using t x(2) by (auto simp: session_ok_def)
  then show ?thesis using erase_ok [OF assms(1) x(1)] assms(2) x by (auto simp: sender_cancel_timeout_def accounts_def)
qed

lemma transmit_accounts:
  assumes "snd_ok s" and "link_transmits ses start s = (out, s')"
  shows "accounts s out s'"
proof (cases "\<exists>x ds. find_session ses s = Some x \<and> om_find (red_segments (ss_sess x)) start = Some ds \<and> \<not> is_deleted ds")
  case False
  then have "out = [] \<and> s' = s" using assms(2) by (auto simp: link_transmits_def split: option.splits if_splits)
  then show ?thesis using accounts_refl [OF assms(1)] by simp
next
  case True
  then obtain x ds where x: "find_session ses s = Some x" "om_find (red_segments (ss_sess x)) start = Some ds" "\<not> is_deleted ds" by blast
  note t = table_okD(1) [OF snd_okD(1) [OF assms(1)] x(1)]
  have ld: "loading_session s \<noteq> Some ses" by (rule loading_no_segments [OF t x(2)])
  define y where "y = x\<lparr>ss_sess := (ss_sess x)\<lparr>red_segments :=
    om_modify start (\<lambda>d. d\<lparr>queued_to_send := False\<rparr>) (red_segments (ss_sess x))\<rparr>\<rparr>"
  have s': "out = [Wire ds]" "s' = put_send_session ses y s" using assms(2) x by (simp_all add: link_transmits_def y_def)
  have "red_complete (ss_sess y) \<longrightarrow> expected_red_bytes (ss_sess y) \<noteq> 0" using t by (simp add: session_ok_def y_def)
  from quiet_change [OF assms(1) x(1) _ _ _ ld this] show ?thesis unfolding s' by (simp add: accounts_def y_def om_modify_def)
qed

section \<open>Collecting and loading\<close>

lemma accounts_trans:
  assumes "accounts s out s1" and "accounts s1 out' s2"
  shows "accounts s (out @ out') s2"
proof -
  have "held_bundles s + taken out = held_bundles s1 + reported out" "held_bundles s1 + taken out' = held_bundles s2 + reported out'" using assms by (simp_all add: accounts_def)
  then have "held_bundles s + taken out + taken out' = held_bundles s2 + reported out' + reported out" by (metis add.assoc add.commute)
  then show ?thesis using assms(2) by (simp add: accounts_def ac_simps)
qed

lemma cancel_loading: "loading_session (snd (cancel_session reason ses s)) = loading_session s"
  by (simp add: cancel_session_def update_session_counts_def Let_def split: option.split prod.split)

lemma cancel_sessions_accounts:
  "snd_ok s \<Longrightarrow> loading_session s = None \<Longrightarrow> cancel_sessions ids s = (out, s') \<Longrightarrow> accounts s out s'"
proof (induction ids arbitrary: s out)
  case Nil
  then show ?case using accounts_refl by simp
next
  case (Cons ses rest)
  show ?case
  proof (cases "\<exists>x. find_session ses s = Some x \<and> (ss_state x = STATE_DS \<or> ss_state x = STATE_RS)")
    case True
    obtain o1 s1 where c: "cancel_session REASON_SYS_CNCLD ses s = (o1, s1)" by fastforce
    obtain o2 where r: "cancel_sessions rest s1 = (o2, s')" "out = o1 @ o2" using True Cons.prems(3) c by (auto split: prod.splits)
    have a: "accounts s o1 s1" by (rule cancel_accounts [OF Cons.prems(1) _ c]) (simp add: Cons.prems(2))
    moreover have "loading_session s1 = None" using cancel_loading [of REASON_SYS_CNCLD ses s] c Cons.prems(2) by simp
    then have "accounts s1 o2 s'" using Cons.IH [OF _ _ r(1)] a by (simp add: accounts_def)
    ultimately show ?thesis unfolding r(2) by (rule accounts_trans)
  next
    case False
    then have "cancel_sessions rest s = (out, s')" using Cons.prems(3) by (auto split: option.splits if_splits)
    then show ?thesis using Cons by blast
  qed
qed

lemma engine_ok:
  assumes "snd_ok s" and "local_engine_id e = local_engine_id (snd_engine s)" and "eng_session_id (snd_engine s) \<le> eng_session_id e"
    and "\<And>ses. ses \<le> eng_session_id (snd_engine s) \<Longrightarrow> session_to_engine e ses = session_to_engine (snd_engine s) ses"
  shows "snd_ok (s\<lparr>snd_engine := e\<rparr>)" and "held_bundles (s\<lparr>snd_engine := e\<rparr>) = held_bundles s"
proof -
  have "counter st (s\<lparr>snd_engine := e\<rparr>) = counter st s" for st by (cases st) simp_all
  moreover have "ses \<le> eng_session_id e" if "find_session ses s = Some x" for ses x
    by (rule order.trans [OF table_okD(2) [OF snd_okD(1) [OF assms(1)] that] assms(3)])
  moreover have "session_to_engine e ses = Some (remote_engine_id s)" if "find_session ses s = Some x" for ses x
    using table_okD(2,3) [OF snd_okD(1) [OF assms(1)] that] assms(4) by simp
  ultimately show "snd_ok (s\<lparr>snd_engine := e\<rparr>)" "held_bundles (s\<lparr>snd_engine := e\<rparr>) = held_bundles s"
    using assms(1,2) by (auto simp: snd_ok_def table_ok_def counts_ok_def bundles_ok_def green_bundles_def held_bundles_def)
qed

lemma new_id_le:
  assumes "i \<noteq> - 1"
  shows "i < i + (1 :: u64)" and "i \<le> i + (1 :: u64)"
proof -
  have "1 + i \<noteq> 0" using assms by (metis add.commute eq_neg_iff_add_eq_0)
  then have "unat (1 + i) = Suc (unat i)" by (rule unatSuc)
  then show "i < i + 1" "i \<le> i + 1" by (simp_all add: word_less_nat_alt word_le_nat_alt add.commute)
qed

text \<open>A new session is created only when the number of live sessions is below the limit.\<close>

lemma live_count:
  assumes "counts_ok s"
  shows "live_sessions s = of_nat (live (send_sessions s))"
proof -
  have "state_cs s = of_nat (in_state STATE_CS (send_sessions s))" using assms unfolding counts_ok_def by force
  moreover have "of_nat (length (send_sessions s)) = (of_nat (live (send_sessions s)) + of_nat (in_state STATE_CS (send_sessions s)) :: u64)"
    by (metis live_length of_nat_add)
  ultimately show ?thesis by (simp add: live_sessions_def)
qed

lemma create_ok:
  assumes "snd_ok s" and "loading_session s = None" and "eng_session_id (snd_engine s) \<noteq> - 1"
    and "create_sender_session env s = (ok, s')"
  shows "snd_ok s'" and "held_bundles s' = held_bundles s" and "ok \<Longrightarrow> \<exists>ses. loading_session s' = Some ses" and "expired_in_queue s' = expired_in_queue s"
    and "green_loaded s' = green_loaded s"
proof -
  note D = snd_okD [OF assms(1)]
  let ?i = "eng_session_id (snd_engine s) + 1"
  have r: "counter st (s\<lparr>ready_for_bundles := b\<rparr>) = counter st s" for st b by (cases st) simp_all
  have none: "find_session ?i s = None"
    using D(1) new_id_le(1) [OF assms(3)] unfolding table_ok_def by (metis leD not_None_eq)
  have "snd_ok s' \<and> held_bundles s' = held_bundles s \<and> (ok \<longrightarrow> (\<exists>ses. loading_session s' = Some ses)) \<and> expired_in_queue s' = expired_in_queue s
    \<and> green_loaded s' = green_loaded s"
  proof (cases "live_sessions s < max_sessions s")
    case False
    then have "s' = s\<lparr>ready_for_bundles := False\<rparr>" "\<not> ok" using assms(4) by (auto simp: create_sender_session_def)
    then show ?thesis using assms(1) r by (simp add: snd_ok_def table_ok_def counts_ok_def bundles_ok_def green_bundles_def held_bundles_def)
  next
    case True
    define n where "n = new_snd_session env (local_engine_id (snd_engine s)) ?i"
    have s': "send_sessions s' = om_assign ?i n (send_sessions s)" "loading_session s' = Some ?i" "ok"
        "max_sessions s' = max_sessions s" "expired_in_queue s' = expired_in_queue s \<and> green_loaded s' = green_loaded s"
        "local_engine_id (snd_engine s') = local_engine_id (snd_engine s)" "eng_session_id (snd_engine s') = ?i"
        "\<And>st. counter st s' = counter st s"
        "session_to_engine (snd_engine s') = (session_to_engine (snd_engine s))(?i \<mapsto> remote_engine_id s')" "remote_engine_id s' = remote_engine_id s"
      using assms(4) True by (auto simp: create_sender_session_def new_session_id_def Let_def n_def) (case_tac st; simp)+
    note T = tot_assign [OF none, of _ n]
    have n: "ss_state n = STATE_CREATED" "ss_bundles n = []" "ss_cancel n = None" "session_ok (Some ?i) (local_engine_id (snd_engine s)) ?i n"
      by (auto simp: n_def new_snd_session_def session_ok_def session_init_def)
    have h: "held_bundles s' = held_bundles s" using T [of "\<lambda>x. mset (ss_bundles x)"] n(2) by (simp add: held_bundles_def s'(1))
    have old: "session_ok (Some ?i) e ses x" if "session_ok None e ses x" "ses \<noteq> ?i" for e ses x
      using that by (simp add: session_ok_def)
    have "ses \<le> ?i" if "find_session ses s = Some x" for ses x
      by (rule order.trans [OF table_okD(2) [OF D(1) that] new_id_le(2) [OF assms(3)]])
    then have "table_ok s'"
      using D(1) n(4) old assms(2) om.wf_assign [OF D(4)] unfolding table_ok_def s'(1,2,6,7,9,10) om_find_assign by auto
    moreover have "live (send_sessions s') = Suc (live (send_sessions s))" using T [of "\<lambda>x. if ss_state x = STATE_CS then 0 else 1 :: nat"] n(1)
      by (simp add: s'(1))
    moreover have "live (send_sessions s) < unat (max_sessions s)"
    proof -
      have "live (send_sessions s) \<le> unat (max_sessions s)" using D(2) by (simp add: counts_ok_def)
      then have "unat (of_nat (live (send_sessions s)) :: u64) = live (send_sessions s)"
        using unsigned_less [of "max_sessions s", where ?'a = nat] by (intro of_nat_u64) simp
      then show ?thesis using True live_count [OF D(2)] by (simp add: word_less_nat_alt)
    qed
    moreover have "\<forall>st \<in> counted. counter st s' = of_nat (in_state st (send_sessions s'))"
    proof
      fix st assume st: "st \<in> counted"
      then have "in_state st (send_sessions s') = in_state st (send_sessions s)" using T [of "\<lambda>x. if ss_state x = st then 1 else 0 :: nat"] n(1)
        by (auto simp: s'(1))
      moreover have "counter st s = of_nat (in_state st (send_sessions s))" using D(2) st unfolding counts_ok_def by blast
      ultimately show "counter st s' = of_nat (in_state st (send_sessions s'))" using s'(8) by simp
    qed
    ultimately show ?thesis using D(3) h s' by (simp add: snd_ok_def counts_ok_def bundles_ok_def green_bundles_def)
  qed
  then show "snd_ok s'" "held_bundles s' = held_bundles s" "ok \<Longrightarrow> \<exists>ses. loading_session s' = Some ses" "expired_in_queue s' = expired_in_queue s"
    "green_loaded s' = green_loaded s" by auto
qed

lemma loading_none:
  assumes "snd_ok s"
  shows "snd_ok (s\<lparr>loading_session := None\<rparr>)" and "held_bundles (s\<lparr>loading_session := None\<rparr>) = held_bundles s"
proof -
  have "counter st (s\<lparr>loading_session := None\<rparr>) = counter st s" for st by (cases st) simp_all
  moreover have "session_ok None e j z" if "session_ok ld e j z" for ld e j z using that by (simp add: session_ok_def)
  ultimately show "snd_ok (s\<lparr>loading_session := None\<rparr>)" "held_bundles (s\<lparr>loading_session := None\<rparr>) = held_bundles s"
    using assms by (fastforce simp: snd_ok_def table_ok_def counts_ok_def bundles_ok_def green_bundles_def held_bundles_def)+
qed

text \<open>A new bundle is put into the session that is being loaded.\<close>

lemma add_to_loading_accounts:
  assumes "snd_ok s" and "b \<notin># held_bundles s" and "b \<notin> expired_in_queue s \<union> green_bundles s" and "add_to_loading env b len s = Some (out, s')"
  shows "accounts s out s'"
proof -
  note D = snd_okD [OF assms(1)]
  obtain ses where ses: "loading_session s = Some ses" using assms(4) by (auto simp: add_to_loading_def split: option.splits)
  then obtain x where x: "find_session ses s = Some x" using D(1) by (auto simp: table_ok_def)
  note t = table_okD(1) [OF D(1) x]
  define s1 where "s1 = update_session_counts ses STATE_DS s"
  define y where "y = add_to_bundle_list b len (x\<lparr>ss_state := STATE_DS\<rparr>)"
  define c where "c = change_session ses x y s"
  have u: "s1 = set_ready (change_session ses x (x\<lparr>ss_state := STATE_DS\<rparr>) s)" unfolding s1_def by (rule update_is_change [OF D(4) x])
  have "put_send_session ses y s1 = set_ready c" unfolding u c_def by (simp add: change_session_def y_def add_to_bundle_list_def)
  moreover have "find_session ses s1 = Some (x\<lparr>ss_state := STATE_DS\<rparr>)" unfolding u using x by (simp add: change_find)
  ultimately have s': "s' = (set_ready c)\<lparr>loading_session := None\<rparr> \<and> out = [Add_Inflight b, Dequeue b, Load_Session ses]
      \<or> s' = set_ready c \<and> out = [Add_Inflight b, Dequeue b]"
    using assms(4) ses by (auto simp: add_to_loading_def s1_def [symmetric] y_def [symmetric] Let_def c_def split: if_splits)
  have nc: "ss_state x \<noteq> STATE_CS" using t ses by (simp add: session_ok_def)
  have ok: "session_ok (loading_session s) (local_engine_id (snd_engine s)) ses y"
    using t nc ses by (auto simp: session_ok_def y_def add_to_bundle_list_def)
  have h: "held_bundles c = add_mset b (held_bundles s)" using change_held [OF D(4) x, of y] by (simp add: c_def y_def add_to_bundle_list_def)
  have "table_ok c" "counts_ok c"
    using change_table [OF D(1) x ok] change_counts [OF D(2,4) x] nc by (simp_all add: c_def)
  moreover have "bundles_ok c" using D(3) assms(2,3) h by (auto simp: bundles_ok_def green_bundles_def c_def not_in_iff)
  ultimately have c: "snd_ok (set_ready c)" unfolding ready_ok by (simp only: snd_ok_def)
  show ?thesis using s' c loading_none [OF c] h by (auto simp: accounts_def)
qed

lemma green_queueD:
  assumes "snd_ok s" and "x \<in> set (green_loaded s)"
  shows "expected_red_bytes (ss_sess x) = 0" and "b \<in> set (ss_bundles x) \<Longrightarrow> b \<notin># held_bundles s"
  using assms by (auto simp: snd_ok_def bundles_ok_def green_bundles_def)

lemma green_queue_ok:
  assumes "snd_ok s" and "\<forall>x \<in> set q. expected_red_bytes (ss_sess x) = 0 \<and> (\<forall>b \<in> set (ss_bundles x). b \<notin># held_bundles s)"
  shows "snd_ok (s\<lparr>green_loaded := q\<rparr>)"
proof -
  have "counter st (s\<lparr>green_loaded := q\<rparr>) = counter st s" for st by (cases st) simp_all
  then show ?thesis using assms by (auto simp: snd_ok_def table_ok_def counts_ok_def bundles_ok_def green_bundles_def held_bundles_def)
qed

lemma bundle_accounts:
  assumes "snd_ok s" and "op_ok env (Op_Bundle b len green) s" and "sender_send_bundle env b len green s = Some (ok, out, s')"
  shows "accounts s out s'"
proof -
  have o: "b \<notin># held_bundles s" "b \<notin> expired_in_queue s \<union> green_bundles s" "eng_session_id (snd_engine s) \<noteq> - 1" using assms(2) by simp_all
  consider "se_expired env b" | "\<not> se_expired env b" "green" | "\<not> se_expired env b" "\<not> green" by blast
  then show ?thesis
  proof cases
    case 1
    then have s': "s' = s\<lparr>expired_in_queue := insert b (expired_in_queue s)\<rparr>" "out = [Dequeue b]"
      using assms(3) by (simp_all add: sender_send_bundle_def)
    have "counter st s' = counter st s" for st by (cases st) (simp_all add: s')
    then have "snd_ok s'" using assms(1) o(1) by (simp add: s' snd_ok_def table_ok_def counts_ok_def bundles_ok_def green_bundles_def held_bundles_def)
    then show ?thesis by (simp add: s' accounts_def held_bundles_def)
  next
    case 2
    then obtain e ses x where e: "new_session_id (remote_engine_id s) (snd_engine s) = (ses, e)"
        "s' = (s\<lparr>snd_engine := e\<rparr>)\<lparr>green_loaded := green_loaded s @ [x]\<rparr>" "out = [Load_Green x, Dequeue b]"
        "expected_red_bytes (ss_sess x) = 0" "ss_bundles x = [b]"
      using assms(3) by (auto simp: sender_send_bundle_def add_to_bundle_list_def new_snd_session_def session_init_def Let_def split: prod.splits)
    then have eng: "local_engine_id e = local_engine_id (snd_engine s)" "eng_session_id (snd_engine s) \<le> eng_session_id e"
        "session_to_engine e = (session_to_engine (snd_engine s))(eng_session_id (snd_engine s) + 1 \<mapsto> remote_engine_id s)"
      using new_id_le(2) [OF o(3)] by (auto simp: new_session_id_def Let_def)
    have "session_to_engine e ses = session_to_engine (snd_engine s) ses" if "ses \<le> eng_session_id (snd_engine s)" for ses
      using that new_id_le(1) [OF o(3)] eng(3) by auto
    note E = engine_ok [OF assms(1) eng(1,2) this]
    have "snd_ok s'" unfolding e(2) by (rule green_queue_ok [OF E(1)]) (use green_queueD [OF assms(1)] E(2) o e(4,5) in auto)
    then show ?thesis using E(2) by (simp add: e accounts_def held_bundles_def)
  next
    case 3
    obtain ok1 s1 where c: "(if loading_session s = None then create_sender_session env s else (True, s)) = (ok1, s1)" by fastforce
    have C: "snd_ok s1" "held_bundles s1 = held_bundles s" "expired_in_queue s1 = expired_in_queue s" "green_bundles s1 = green_bundles s"
      using c create_ok [OF assms(1) _ o(3), of env ok1 s1] assms(1) by (auto simp: green_bundles_def split: if_splits)
    show ?thesis
    proof (cases ok1)
      case False
      then have "s' = s1" "out = []" using assms(3) 3 c by (simp_all add: sender_send_bundle_def)
      then show ?thesis using C by (simp add: accounts_def)
    next
      case True
      then have "add_to_loading env b len s1 = Some (out, s')" using assms(3) 3 c by (auto simp: sender_send_bundle_def)
      from add_to_loading_accounts [OF C(1) _ _ this] C o show ?thesis by (simp add: accounts_def)
    qed
  qed
qed

lemma cut_nonempty:
  assumes "map payload sent = chunks n blk" and "\<forall>d \<in> set sent. piece blk d" and "length blk < 2 ^ 63"
  shows "(of_nat (length blk) :: u64) \<noteq> 0"
proof -
  have "chunks n blk \<noteq> []" by (simp add: chunks.simps [of n blk])
  then have "sent \<noteq> []" using assms(1) by auto
  then have "0 < length blk" using assms(2) by (cases sent) (auto simp: piece_def)
  moreover have "unat (of_nat (length blk) :: u64) = length blk" by (rule of_nat_u64) (use assms(3) in simp)
  ultimately show ?thesis by (metis less_irrefl unat_0)
qed

text \<open>A loaded session is cut; the bundles that have expired are taken off the list of the link.\<close>

lemma load_accounts:
  assumes "snd_ok s" and "op_ok env (Op_Load ses) s" and "process_loaded_session env ses s = Some (out, s')"
  shows "accounts s out s'"
proof -
  note D = snd_okD [OF assms(1)]
  obtain x where x: "find_session ses s = Some x" using assms(3) by (auto simp: process_loaded_session_def split: option.splits)
  note t = table_okD(1) [OF D(1) x]
  have o: "loading_session s \<noteq> Some ses" "uncut s ses x" "load_ok env (filter (\<lambda>b. \<not> se_expired env b) (ss_bundles x))"
    using assms(2) x by auto
  define bs where "bs = filter (\<lambda>b. \<not> se_expired env b) (ss_bundles x)"
  define gone where "gone = filter (se_expired env) (ss_bundles x)"
  define y where "y = x\<lparr>ss_bundles := bs\<rparr>"
  define X where "X = expired_in_queue s \<union> {b \<in> set (ss_bundles x). se_expired env b}"
  define s1 where "s1 = (put_send_session ses y s)\<lparr>expired_in_queue := X\<rparr>"
  have part: "mset (ss_bundles x) = mset bs + mset gone" by (simp add: bs_def gone_def add.commute)
  have "session_ok (loading_session s) (local_engine_id (snd_engine s)) ses y" using t by (auto simp: session_ok_def y_def bs_def)
  note C = session_change_ok [OF assms(1) x this, of "mset gone"]
  have p: "put_send_session ses y s = change_session ses x y s" by (rule put_is_change) (simp add: y_def)
  have c: "snd_ok (put_send_session ses y s)" "held_bundles s = held_bundles (put_send_session ses y s) + mset gone"
    using C part unfolding p by (simp_all add: y_def)
  have "b \<notin># held_bundles (put_send_session ses y s)" if "b \<in># mset gone" for b
  proof -
    have "count (held_bundles s) b \<le> 1" "count (mset gone) b > 0" using D(3) that by (simp_all add: bundles_ok_def)
    moreover have "count (held_bundles s) b = count (held_bundles (put_send_session ses y s)) b + count (mset gone) b" by (subst c(2)) simp
    ultimately have "count (held_bundles (put_send_session ses y s)) b = 0" by linarith
    then show ?thesis by (simp add: not_in_iff)
  qed
  moreover have "X = expired_in_queue s \<union> set gone" by (auto simp: X_def gone_def)
  moreover have "counter st s1 = counter st (put_send_session ses y s)" for st
    by (cases st) (simp_all add: s1_def put_send_session_def)
  ultimately have s1: "snd_ok s1" "held_bundles s = held_bundles s1 + mset gone" "find_session ses s1 = Some y" "loading_session s1 \<noteq> Some ses"
    using c x o(1) by (auto simp: snd_ok_def table_ok_def counts_ok_def bundles_ok_def green_bundles_def held_bundles_def s1_def)
  have first: "accounts s (map Del_Inflight gone) s1" using s1 by (simp add: accounts_def)
  have e: "process_loaded_session env ses s = (if bs = [] then Some (case cleanup_sender_session ses Bundles_expired s1 of (o2, s2) \<Rightarrow> (map Del_Inflight gone @ o2, s2))
      else map_option (\<lambda>(sent, sess). (map Del_Inflight gone @ map Snd_Data sent, put_send_session ses (y\<lparr>ss_sess := sess\<rparr>) s1))
        (process_bundles (se_ccsds env) (se_seg_size env) (se_per_checkpoint env) (unat (ss_size x)) False (map (se_contents env) bs) (ss_sess x)))"
    using x by (simp add: process_loaded_session_def remove_expired_bundles_def Let_def gone_def bs_def y_def s1_def X_def split: prod.split)
  show ?thesis
  proof (cases "bs = []")
    case True
    obtain o2 s2 where c2: "cleanup_sender_session ses Bundles_expired s1 = (o2, s2)" by fastforce
    have "accounts s1 o2 s2" by (rule cleanup_accounts [OF s1(1,3,4) c2]) simp
    from accounts_trans [OF first this] show ?thesis using e assms(3) True c2 by simp
  next
    case False
    obtain ck sr where i: "ss_sess x = session_init (local_engine_id (snd_engine s)) ses ck sr" using o(2) by (auto simp: uncut_def)
    have "map (se_contents env) bs \<noteq> []" "0 < se_seg_size env" "length (session_block (se_ccsds env) (map (se_contents env) bs)) < 2 ^ 63"
        "\<forall>(v, pl, blocks) \<in> set (map (se_contents env) bs). bundle_ok v pl blocks \<and> (\<forall>b \<in> set blocks. bi_locals b = None)"
      using o(3) False by (auto simp: load_ok_def bs_def [symmetric])
    from bundles_cut [OF this(4,1,2,3), of "se_per_checkpoint env" "unat (ss_size x)" "local_engine_id (snd_engine s)" ses ck sr]
    obtain sent sess where b: "process_bundles (se_ccsds env) (se_seg_size env) (se_per_checkpoint env) (unat (ss_size x)) False (map (se_contents env) bs) (ss_sess x)
        = Some (sent, sess)" "map payload sent = chunks (se_seg_size env) (session_block (se_ccsds env) (map (se_contents env) bs))"
        "\<forall>d \<in> set sent. piece (session_block (se_ccsds env) (map (se_contents env) bs)) d"
        "expected_red_bytes sess = of_nat (length (session_block (se_ccsds env) (map (se_contents env) bs)))"
      unfolding i by blast
    have "expected_red_bytes sess \<noteq> 0" using cut_nonempty [OF b(2,3)] o(3) unfolding b(4) load_ok_def bs_def by simp
    then have "red_complete (ss_sess (y\<lparr>ss_sess := sess\<rparr>)) \<longrightarrow> expected_red_bytes (ss_sess (y\<lparr>ss_sess := sess\<rparr>)) \<noteq> 0" by simp
    note Q = quiet_change [OF s1(1,3) _ _ _ s1(4) this]
    have "sess_engine_id sess = sess_engine_id (ss_sess y)" "sess_session_id sess = sess_session_id (ss_sess y)"
      using bundles_session_key [OF b(1) [unfolded i]] by (simp_all add: y_def i session_init_def)
    moreover have "ss_state y \<noteq> STATE_CS" using t False by (auto simp: session_ok_def y_def bs_def)
    ultimately have "accounts s1 (map Snd_Data sent) (put_send_session ses (y\<lparr>ss_sess := sess\<rparr>) s1)" using Q by (simp add: accounts_def)
    from accounts_trans [OF first this] show ?thesis using e assms(3) False b(1) by simp
  qed
qed

section \<open>Green sessions\<close>

text \<open>A green session stays green: none of its bytes are expected to be red.\<close>

lemma header_colour: "red_green_none (encode_ltp_ds_header d) = red_green_none d"
proof -
  have f: "red_green_none (encode_field n v x) = red_green_none x" for n v x
    by (simp add: encode_field_def split: option.split)
  have h: "red_green_none (create_ltp_header x) = red_green_none x" for x
    by (simp add: create_ltp_header_def append_byte_def encode_field64_def f)
  have c: "red_green_none (set_segment_color_flags x) = red_green_none x" "red_green_none (encode_checkpoint_bit x) = red_green_none x"
    "red_green_none (set_endofblock x) = red_green_none x" for x
    by (simp_all add: set_segment_color_flags_def encode_checkpoint_bit_def set_endofblock_def set_control_def)
  show ?thesis by (simp add: encode_ltp_ds_header_def Let_def encode_field64_def encode_field32_def f h c)
qed

lemma green_send:
  assumes "send_segment True csid data off ck last_seg s = (d, s')"
  shows "expected_red_bytes s' = expected_red_bytes s"
proof -
  have "red_green_none d \<noteq> RED_SEGMENT"
    using assms by (auto simp: send_segment_def ds_encode_buffer_def header_colour is_red_def is_green_def RED_SEGMENT_def GREEN_SEGMENT_def Let_def)
  moreover have "s' = snd (add_segment_outgoing d s)" using assms by (auto simp: send_segment_def Let_def)
  ultimately show ?thesis by (simp add: add_segment_outgoing_def store_green_def Let_def)
qed

lemma green_check_send:
  "check_send_segment sz True csid ck last_seg force c = (sent, c') \<Longrightarrow> expected_red_bytes (cut_session c') = expected_red_bytes (cut_session c)"
  by (auto simp: check_send_segment_def dest: green_send split: if_splits prod.splits)

lemma green_bundle_loop:
  assumes "bundle_loop P lb v pl bs o' tw ck c = Some (tw', ck', ls, c')" and "cp_green P"
  shows "expected_red_bytes (cut_session c') = expected_red_bytes (cut_session c)"
proof -
  let ?Q = "\<lambda>P lb v pl bs (o' :: nat) (tw :: nat) (ck :: bool) c y. cp_green P \<longrightarrow>
      expected_red_bytes (cut_session (snd (snd (snd (y :: nat \<times> bool \<times> bool \<times> cutter))))) = expected_red_bytes (cut_session c)"
  have "?Q P lb v pl bs o' tw ck c (tw', ck', ls, c')"
  proof (rule bundle_loop.raw_induct [where P = ?Q, OF _ assms(1)], intro impI)
    fix loop P lb v pl bs o' tw ck c y
    assume IH: "\<And>P lb v pl bs o' tw ck c y. loop P lb v pl bs o' tw ck c = Some y \<Longrightarrow> ?Q P lb v pl bs o' tw ck c y"
      and body: "(case produce v pl bs o' (cut_unused c) of
        None \<Rightarrow> None
      | Some (out, complete, blocks') \<Rightarrow>
          let c1 = add_bytes out c; toward1 = tw + length out;
              is_ckpt1 = (if cp_intermediate P then toward1 \<ge> cp_per_checkpoint P else ck);
              force = (\<not> complete \<and> out = [] \<and> cut_buf c1 \<noteq> []);
              last_seg = (complete \<and> lb);
              is_ckpt2 = (is_ckpt1 \<or> last_seg);
              (sent, c2) = check_send_segment (cp_seg_size P) (cp_green P) (cp_csid P) is_ckpt2 last_seg force c1;
              toward2 = (if sent \<and> is_ckpt2 then 0 else toward1)
          in if complete then Some (toward2, is_ckpt2, last_seg, c2)
             else loop P lb v pl blocks' (o' + length out) toward2 is_ckpt2 c2) = Some y"
      and g: "cp_green P"
    have green: "cp_green P = True" using g by simp
    show "expected_red_bytes (cut_session (snd (snd (snd y)))) = expected_red_bytes (cut_session c)"
      using body [unfolded green] g
      by (auto simp: Let_def add_bytes_def dest!: green_check_send dest!: IH [THEN mp] split: option.splits prod.splits if_splits)
  qed
  then show ?thesis using assms(2) by simp
qed

lemma green_bundles_loop:
  "bundles_loop P bundles tw ck ls c = Some (ls', c') \<Longrightarrow> cp_green P \<Longrightarrow> expected_red_bytes (cut_session c') = expected_red_bytes (cut_session c)"
proof (induction P bundles tw ck ls c arbitrary: ls' c' rule: bundles_loop.induct)
  case (2 P v pl bs rest tw ck ls c)
  obtain tw1 ck1 c1 where st: "start_bundle P tw ck ls c = (tw1, ck1, c1)" by (metis prod_cases3)
  have green: "cp_green P = True" using 2(3) by simp
  have c1: "expected_red_bytes (cut_session c1) = expected_red_bytes (cut_session c)"
    using st by (auto simp: start_bundle_def green add_bytes_def Let_def dest!: green_check_send split: prod.splits if_splits)
  obtain tw2 ck2 ls2 c2 where bl: "bundle_loop P (rest = []) v pl bs 0 tw1 ck1 c1 = Some (tw2, ck2, ls2, c2)"
      "bundles_loop P rest tw2 ck2 ls2 c2 = Some (ls', c')"
    using 2(2) st by (auto split: option.splits prod.splits)
  show ?case using 2(1) [OF st [symmetric] refl refl bl(1)] bl(2) 2(3) green_bundle_loop [OF bl(1) 2(3)] c1 by simp
qed simp

lemma green_cut:
  "process_bundles ccsds sz per n True bundles s = Some (sent, s') \<Longrightarrow> expected_red_bytes s' = expected_red_bytes s"
  by (auto simp: process_bundles_def Let_def dest: green_bundles_loop split: if_splits option.splits)

text \<open>Cutting a green session does not touch the table; it reports no bundle as reliably transmitted.\<close>

lemma green_step:
  assumes "snd_ok s" and "next_green_session env s = Some (out, s')"
  obtains rest X where "s' = s\<lparr>green_loaded := rest, expired_in_queue := X\<rparr>" "set rest \<subseteq> set (green_loaded s)"
    "\<forall>b \<in> X. b \<in> expired_in_queue s \<or> b \<notin># held_bundles s" "\<forall>e \<in> set out. (\<exists>d. e = Snd_Data d) \<or> (\<exists>b. e = Transmitted_Green b)"
proof (cases "green_loaded s")
  case Nil
  then show thesis using that [where rest = "[]" and X = "expired_in_queue s"] assms(2) by (simp add: next_green_session_def)
next
  case (Cons x rest)
  define X where "X = expired_in_queue s \<union> {b \<in> set (ss_bundles x). se_expired env b}"
  have x: "x \<in> set (green_loaded s)" by (simp add: Cons)
  have red: "expected_red_bytes sess = 0" if "process_bundles ccsds sz per n True bundles (ss_sess x) = Some (sent, sess)" for ccsds sz per n bundles sent sess
    using green_cut [OF that] green_queueD(1) [OF assms(1) x] by simp
  have "s' = s\<lparr>green_loaded := rest, expired_in_queue := X\<rparr>" "\<forall>e \<in> set out. (\<exists>d. e = Snd_Data d) \<or> (\<exists>b. e = Transmitted_Green b)"
    using assms(2) red by (auto simp: next_green_session_def Cons process_green_session_def remove_expired_bundles_def post_transmit_def X_def Let_def
        split: if_splits)
  moreover have "\<forall>b \<in> X. b \<in> expired_in_queue s \<or> b \<notin># held_bundles s" using green_queueD(2) [OF assms(1) x] by (auto simp: X_def)
  ultimately show thesis using that [where rest = rest and X = X] Cons by force
qed

lemma green_accounts:
  assumes "snd_ok s" and "next_green_session env s = Some (out, s')"
  shows "accounts s out s'"
proof -
  obtain rest X where g: "s' = s\<lparr>green_loaded := rest, expired_in_queue := X\<rparr>" "set rest \<subseteq> set (green_loaded s)"
    "\<forall>b \<in> X. b \<in> expired_in_queue s \<or> b \<notin># held_bundles s" "\<forall>e \<in> set out. (\<exists>d. e = Snd_Data d) \<or> (\<exists>b. e = Transmitted_Green b)"
    using assms by (rule green_step)
  have "counter st s' = counter st s" for st by (cases st) (simp_all add: g(1))
  moreover have "held_bundles s' = held_bundles s" by (simp add: g(1) held_bundles_def)
  moreover have "green_bundles s' \<subseteq> green_bundles s" using g(2) by (auto simp: g(1) green_bundles_def)
  ultimately have "snd_ok s'"
    using assms(1) g(2,3) by (auto simp: g(1) snd_ok_def table_ok_def counts_ok_def bundles_ok_def)
  moreover have "taken out = {#} \<and> reported out = {#}" using g(4) by (induction out) auto
  ultimately show ?thesis using \<open>held_bundles s' = held_bundles s\<close> by (simp add: accounts_def)
qed

section \<open>Runs of the sender\<close>

lemma step_accounts:
  assumes "snd_ok s" and "op_ok env op s" and "snd_step env op s = Some (out, s')"
  shows "accounts s out s'"
proof (cases op)
  case (Op_Bundle b len green)
  then show ?thesis using assms bundle_accounts by auto
next
  case Op_Time_Over
  then show ?thesis using assms loading_none [OF assms(1)] accounts_refl
    by (auto simp: aggregation_time_over_def accounts_def split: option.splits)
next
  case (Op_Load ses)
  then show ?thesis using assms load_accounts by auto
next
  case (Op_Segment seg)
  then show ?thesis using assms segment_accounts by (metis snd_step.simps(5))
next
  case Op_Green
  then show ?thesis using assms green_accounts by auto
next
  case (Op_Closeout ses)
  then show ?thesis using assms engine_ok [OF assms(1), of "delete_closed_session ses (snd_engine s)"]
    by (auto simp: sender_closeout_def delete_closed_session_def accounts_def)
next
  case (Op_Force_Cancel key)
  then show ?thesis using assms cancel_accounts accounts_refl
    by (auto simp: engine_force_cancel_def force_cancel_by_sender_def split: if_splits)
next
  case (Op_Inactivity over key)
  then show ?thesis using assms cancel_accounts accounts_refl
    by (auto simp: sender_inactivity_def split: if_splits option.splits)
next
  case Op_Cancel_All
  then show ?thesis using assms cancel_sessions_accounts by (auto simp: cancel_all_sessions_def)
qed (use assms data_timeout_accounts cancel_timeout_accounts transmit_accounts in auto)

text \<open>A sender whose thread has started; its engine may already have sessions with other engines.\<close>

definition sender_init :: "ltp_engine \<Rightarrow> u64 \<Rightarrow> u64 \<Rightarrow> u64 \<Rightarrow> ltp_sender" where
  "sender_init eng remote max_ses agg =
     \<lparr>snd_engine = eng, remote_engine_id = remote, send_sessions = [], loading_session = None, state_ds = 0, state_rs = 0,
      state_cs = 0, max_sessions = max_ses, agg_size = agg, ready_for_bundles = (0 < max_ses), expired_in_queue = {},
      green_loaded = []\<rparr>"

inductive snd_run :: "ltp_sender \<Rightarrow> snd_effect list \<Rightarrow> ltp_sender \<Rightarrow> bool" for s0 where
  run_start: "snd_run s0 [] s0"
| run_step: "snd_run s0 out s \<Longrightarrow> op_ok env op s \<Longrightarrow> snd_step env op s = Some (out', s') \<Longrightarrow> snd_run s0 (out @ out') s'"

lemma init_ok: "snd_ok (sender_init eng remote max_ses agg)"
  by (simp add: snd_ok_def table_ok_def counts_ok_def bundles_ok_def green_bundles_def held_bundles_def tot_def sender_init_def om_find_def)

lemma run_accounts: "snd_run s0 out s \<Longrightarrow> snd_ok s0 \<Longrightarrow> accounts s0 out s"
proof (induction rule: snd_run.induct)
  case (run_step out s env op out' s')
  then show ?case using step_accounts accounts_trans by (metis accounts_def)
qed (simp add: accounts_refl)

text \<open>No operation changes the limit.\<close>

lemma max_frame [simp]:
  "max_sessions (update_session_counts ses st s) = max_sessions s" "max_sessions (erase_send_session ses cancelled s) = max_sessions s"
  by (simp_all add: update_session_counts_def erase_send_session_def split: option.split)

lemma cleanup_max [simp]: "max_sessions (snd (cleanup_sender_session ses ev s)) = max_sessions s"
  by (simp add: cleanup_sender_session_def Let_def split: option.split prod.split)

lemma cancel_max [simp]: "max_sessions (snd (cancel_session reason ses s)) = max_sessions s"
  by (simp add: cancel_session_def Let_def split: option.split prod.split)

lemma cancel_sessions_max [simp]: "max_sessions (snd (cancel_sessions ids s)) = max_sessions s"
proof (induction ids arbitrary: s)
  case (Cons ses rest)
  then show ?case by (simp add: case_prod_beta Let_def split: option.split)
qed simp

lemma bundle_max: "sender_send_bundle env b len green s = Some (ok, out, s') \<Longrightarrow> max_sessions s' = max_sessions s"
  by (auto simp: sender_send_bundle_def create_sender_session_def add_to_loading_def Let_def split: if_splits option.splits prod.splits)

lemma load_max:
  assumes "process_loaded_session env ses s = Some (out, s')"
  shows "max_sessions s' = max_sessions s"
  using assms by (auto simp: process_loaded_session_def remove_expired_bundles_def Let_def case_prod_beta split: if_splits option.splits)

lemma segment_max:
  assumes "segment_for_sender seg s = Some (out, s')"
  shows "max_sessions s' = max_sessions s"
proof -
  have c: "cleanup_sender_session ses ev t = (o2, s2) \<Longrightarrow> max_sessions s2 = max_sessions t" for ses ev t o2 s2
    using cleanup_max [of ses ev t] by simp
  show ?thesis using assms
    by (auto simp: segment_for_sender_def process_segment_def process_RS_def open_report_def process_CS_def process_CAS_def Let_def dest: c
        split: if_splits option.splits prod.splits any_segment.splits)
qed

lemma run_max: "snd_run s0 out s \<Longrightarrow> max_sessions s = max_sessions s0"
proof (induction rule: snd_run.induct)
  case (run_step out s env op out' s')
  have p: "f = (a, s') \<Longrightarrow> s' = snd f" for f :: "'b \<times> ltp_sender" and a by simp
  have "max_sessions s' = max_sessions s" using run_step.hyps(3)
    by (cases op) (auto dest: bundle_max load_max segment_max p simp: next_green_session_def process_green_session_def remove_expired_bundles_def aggregation_time_over_def data_seg_timeout_def sender_cancel_timeout_def
        sender_closeout_def link_transmits_def engine_force_cancel_def force_cancel_by_sender_def sender_inactivity_def cancel_all_sessions_def Let_def
        split: option.splits if_splits list.splits)
  then show ?case using run_step.IH by simp
qed simp

text \<open>
  C4. No red bundle is lost by an LTP sender, and none is reported twice. Take any run of operations from an empty
  sender that keep to \<open>op_ok\<close>: a bundle that is sent is new to the link and session ids are left, a session is cut once
  and with formatted bundles, no segment, forced cancellation or inactivity timer names the session that is
  still collecting bundles, all sessions are cancelled only when none is collecting, and an acknowledgement of a
  cancel segment names no session that is not being cancelled. After the run the red bundles taken are exactly those in one
  of its sessions and those that were reported (as transmitted, as failed, or as expired), counted with their
  multiplicity, and no bundle is in two sessions at once. Green bundles are in no session of the table and are not
  counted.
\<close>

theorem bundle_accounting:
  assumes "snd_run (sender_init eng remote max_ses agg) out s"
  shows "taken out = held_bundles s + reported out \<and> (\<forall>b. count (held_bundles s) b \<le> 1)"
proof -
  have "held_bundles (sender_init eng remote max_ses agg) = {#}" by (simp add: held_bundles_def sender_init_def tot_def)
  then show ?thesis using run_accounts [OF assms init_ok] by (auto simp: accounts_def snd_ok_def bundles_ok_def)
qed

text \<open>Bundle 7 is taken, its session is closed by its size and then cancelled.\<close>

definition demo_engine :: ltp_engine where
  "demo_engine = \<lparr>local_engine_id = 1, registered_engines = {2}, eng_session_id = 0, session_to_engine = (\<lambda>_. None), closed_sessions = (\<lambda>_. None)\<rparr>"

definition demo_env :: snd_env where
  "demo_env = \<lparr>se_checkpoint = 10, se_serial = 20, se_time_up = False, se_contents = (\<lambda>_. (True, [], [])), se_expired = (\<lambda>_. False),
     se_ccsds = False, se_seg_size = 100, se_per_checkpoint = 0\<rparr>"

definition demo_start :: ltp_sender where
  "demo_start = sender_init demo_engine 2 1 5"

definition demo_taken :: ltp_sender where
  "demo_taken = snd (the (snd_step demo_env (Op_Bundle 7 9 False) demo_start))"

definition demo_cancelled :: "snd_effect list \<times> ltp_sender" where
  "demo_cancelled = cancel_all_sessions demo_taken"

lemmas demo_defs = demo_engine_def demo_env_def demo_start_def demo_taken_def sender_init_def sender_send_bundle_def
  create_sender_session_def live_sessions_def new_session_id_def new_snd_session_def add_to_loading_def add_to_bundle_list_def
  update_session_counts_def put_send_session_def set_ready_def enter_state_def leave_state_def om_modify_def om_find_def Let_def

lemma demo_run:
  "snd_run demo_start [Add_Inflight 7, Dequeue 7, Load_Session 1] demo_taken"
  "snd_run demo_start ([Add_Inflight 7, Dequeue 7, Load_Session 1] @ fst demo_cancelled) (snd demo_cancelled)"
proof -
  have "snd_step demo_env (Op_Bundle 7 9 False) demo_start = Some ([Add_Inflight 7, Dequeue 7, Load_Session 1], demo_taken)"
    by (simp add: demo_defs)
  moreover have "op_ok demo_env (Op_Bundle 7 9 False) demo_start" by (simp add: demo_defs held_bundles_def green_bundles_def tot_def)
  ultimately show 1: "snd_run demo_start [Add_Inflight 7, Dequeue 7, Load_Session 1] demo_taken"
    using run_step [OF run_start] by fastforce
  have "op_ok demo_env Op_Cancel_All demo_taken" by (simp add: demo_defs)
  moreover have "snd_step demo_env Op_Cancel_All demo_taken = Some (fst demo_cancelled, snd demo_cancelled)" by (simp add: demo_cancelled_def)
  ultimately show "snd_run demo_start ([Add_Inflight 7, Dequeue 7, Load_Session 1] @ fst demo_cancelled) (snd demo_cancelled)"
    using run_step [OF 1] by blast
qed

theorem bundle_accounting_witness: "reported (fst demo_cancelled) = {#7#} \<and> held_bundles demo_taken = {#7#}"
proof -
  have "held_bundles (snd demo_cancelled) = {#}"
    by (simp add: demo_defs demo_cancelled_def cancel_all_sessions_def cancel_session_def post_transmit_def held_bundles_def tot_def)
  moreover have "taken (fst demo_cancelled) = {#}"
    by (simp add: demo_defs demo_cancelled_def cancel_all_sessions_def cancel_session_def post_transmit_def)
  ultimately show ?thesis
    using bundle_accounting [OF demo_run(1) [unfolded demo_start_def]] bundle_accounting [OF demo_run(2) [unfolded demo_start_def]] by simp
qed

text \<open>
  C14. The limit on sessions holds: after every run of operations that keep to \<open>op_ok\<close> (in particular no segment,
  cancellation or timer names the session that is still collecting bundles), at most \<open>max_sessions\<close> of the sessions
  of the sender are not being cancelled, the number the code computes for them by unsigned subtraction is their
  number, and the counters of the states have not drifted from the table.
\<close>

theorem live_sessions_bounded:
  assumes "snd_run (sender_init eng remote max_ses agg) out s"
  shows "live_sessions s = of_nat (live (send_sessions s)) \<and> live (send_sessions s) \<le> unat max_ses
     \<and> state_ds s = of_nat (in_state STATE_DS (send_sessions s)) \<and> state_rs s = of_nat (in_state STATE_RS (send_sessions s))
     \<and> state_cs s = of_nat (in_state STATE_CS (send_sessions s))"
proof -
  have "counts_ok s" using run_accounts [OF assms init_ok] by (simp add: accounts_def snd_ok_def)
  moreover have "max_sessions s = max_ses" using run_max [OF assms] by (simp add: sender_init_def)
  ultimately show ?thesis using live_count by (auto simp: counts_ok_def)
qed

theorem live_sessions_bounded_witness: "live_sessions demo_taken = 1 \<and> live (send_sessions demo_taken) \<le> 1"
  using live_sessions_bounded [OF demo_run(1) [unfolded demo_start_def]] by (simp add: demo_defs tot_def)

text \<open>
  A cancel acknowledgement that nobody asked for loses bundles. After any run that keeps to \<open>op_ok\<close>, let an
  acknowledgement of a cancel segment of the sender arrive for a session that is not being cancelled. The session is
  erased without an event: its bundles are then neither in a session nor reported. If the session was
  still collecting bundles, the sender goes on adding bundles to it although it is in no table (in the model
  \<open>add_to_loading\<close> has no result).
\<close>

theorem unsolicited_ack_loses:
  assumes "snd_run (sender_init eng remote max_ses agg) out s" and "find_session ses s = Some x" and "ss_state x \<noteq> STATE_CS"
    and "remote_engine_id s \<in> registered_engines (snd_engine s)"
    and "segment_type c = LTP_SEGMENT_CAS_BS" "engine_id c = local_engine_id (snd_engine s)" "session_id c = ses"
  shows "\<exists>s'. snd_step env (Op_Segment (Seg_CAS c)) s = Some ([], s') \<and> find_session ses s' = None
    \<and> taken out = held_bundles s' + reported out + mset (ss_bundles x)
    \<and> (loading_session s = Some ses \<longrightarrow> loading_session s' = Some ses \<and> add_to_loading env b len s' = None)"
proof -
  have acc: "snd_ok s" "taken out = held_bundles s + reported out"
    using run_accounts [OF assms(1) init_ok] by (auto simp: accounts_def held_bundles_def sender_init_def tot_def)
  note T = table_okD [OF snd_okD(1) [OF acc(1)] assms(2)]
  define s' where "s' = erase_send_session ses True s"
  have "snd_step env (Op_Segment (Seg_CAS c)) s = Some ([], s')"
    using assms(2,4-7) T(3) by (simp add: segment_for_sender_def lookup_engine_def lookup_remote_def seg_key_def process_segment_def
        process_CAS_def find_sender_session_def s'_def)
  moreover have e: "find_session ses s' = None" "send_sessions s' = om_erase ses (send_sessions s)" "loading_session s' = loading_session s"
    using assms(2) snd_okD(4) [OF acc(1)] by (simp_all add: s'_def erase_send_session_def om_find_erase)
  moreover have "held_bundles s = held_bundles s' + mset (ss_bundles x)"
    using tot_erase [OF snd_okD(4) [OF acc(1)] assms(2), of "\<lambda>x. mset (ss_bundles x)"] by (simp add: held_bundles_def e(2))
  moreover have "add_to_loading env b len s' = None" if "loading_session s = Some ses"
    using that e(1,3) by (simp add: add_to_loading_def update_session_counts_def)
  ultimately show ?thesis using acc(2) by (auto simp: ac_simps)
qed

definition stray_ack :: ltp_segment where
  "stray_ack = base_segment\<lparr>segment_type := LTP_SEGMENT_CAS_BS, engine_id := 1, session_id := 1\<rparr>"

theorem unsolicited_ack_loses_witness:
  "\<exists>s'. snd_step demo_env (Op_Segment (Seg_CAS stray_ack)) demo_taken = Some ([], s') \<and> find_session 1 s' = None
     \<and> taken [Add_Inflight 7, Dequeue 7, Load_Session 1] = held_bundles s' + {#7#}"
proof -
  obtain x where "find_session 1 demo_taken = Some x" "ss_state x \<noteq> STATE_CS" "ss_bundles x = [7]" by (simp add: demo_defs)
  then show ?thesis
    using unsolicited_ack_loses [OF demo_run(1) [unfolded demo_start_def], of 1 x stray_ack demo_env]
    by (auto simp: stray_ack_def demo_defs)
qed

end
