(* ===== verification/Ltp_Local.thy ===== *)
theory Ltp_Local
  imports Ltp_Exchange Ltp_Sender_Node
begin

text \<open>
  What a step of one side of LTP does to the other sessions. The receiver keeps sessions apart: what it does for
  a segment or a timer concerns the session that is named, and so do its answers (\<open>local_step\<close>). The sender
  leaves the sessions alone that an operation is not about, and sends what the names of its sessions
  allow (\<open>quiet_step\<close>).
\<close>

section \<open>Answers name their session\<close>

definition same_names :: "ltp_session \<Rightarrow> ltp_session \<Rightarrow> bool" where
  "same_names s t \<longleftrightarrow> sess_engine_id t = sess_engine_id s \<and> sess_session_id t = sess_session_id s
     \<and> (\<forall>k q. (k, q) \<in> set (report_segments t) \<longrightarrow>
          (k, q) \<in> set (report_segments s) \<or> engine_id q = sess_engine_id s \<and> session_id q = sess_session_id s)"

lemma same_names_refl [simp]: "same_names s s"
  by (simp add: same_names_def)

lemma same_names_trans: "same_names s t \<Longrightarrow> same_names t u \<Longrightarrow> same_names s u"
  unfolding same_names_def by metis

lemma same_namesI:
  "sess_engine_id t = sess_engine_id s \<Longrightarrow> sess_session_id t = sess_session_id s \<Longrightarrow> report_segments t = report_segments s
     \<Longrightarrow> same_names s t"
  by (simp add: same_names_def)

lemma make_report_names: "same_names s (make_report ckpt a s)"
proof -
  obtain lo hi n m where a: "a = (lo, hi, n, m)" by (metis prod_cases4)
  have "engine_id (new_report_segment (session_report_base s) ser ckpt lo hi n m) = sess_engine_id s"
      "session_id (new_report_segment (session_report_base s) ser ckpt lo hi n m) = sess_session_id s" for ser
    by (simp_all add: new_report_fields [OF refl] session_report_base_def)
  then show ?thesis
    by (auto simp: same_names_def a make_report_def get_next_report_serial_number_def Let_def dest!: om_assign_mem)
qed

lemma make_reports_names: "same_names s (fold (make_report ckpt) as s)"
proof (induction as arbitrary: s)
  case (Cons a as)
  then show ?case using make_report_names same_names_trans by (metis fold_simps(2))
qed simp

lemma generate_names: "generate_report_segments ckpt lo hi n s = Some (m, s') \<Longrightarrow> same_names s s'"
  using make_reports_names by (auto simp: generate_report_segments_def)

lemma have_report_names:
  assumes "have_report_segments_to_send ds segsize s = Some (found, n, s')"
  shows "same_names s s'"
proof -
  have "same_names s (s\<lparr>ds_offset_to_upperbounds := u\<rparr>)" for u by (rule same_namesI) simp_all
  then show ?thesis using assms generate_names same_names_trans
    by (auto simp: have_report_segments_to_send_def Let_def split: report_search.splits) blast+
qed

lemma add_segment_names: "add_segment_incoming fuel d f s = Some (v, s') \<Longrightarrow> same_names s s'"
  by (rule same_namesI)
    (auto simp: add_segment_incoming_def check_and_trim_def store_red_def store_green_def Let_def split: if_splits option.splits prod.splits)

definition named :: "session_key \<Rightarrow> rcv_session \<Rightarrow> bool" where
  "named key s \<longleftrightarrow> (sess_engine_id (rcv_sess s), sess_session_id (rcv_sess s)) = key
     \<and> (\<forall>k q. (k, q) \<in> set (report_segments (rcv_sess s)) \<longrightarrow> (engine_id q, session_id q) = key)
     \<and> (\<forall>c. cancel_seg s = Some c \<longrightarrow> (engine_id c, session_id c) = key)"

text \<open>The answers are reports and cancel segments; cancel segments of the sender are acknowledged.\<close>

definition reply :: "bool \<Rightarrow> any_segment \<Rightarrow> bool" where
  "reply ack g \<longleftrightarrow> (case g of Seg_RS _ \<Rightarrow> True | Seg_CS _ \<Rightarrow> True | Seg_CAS _ \<Rightarrow> ack | _ \<Rightarrow> False)"

definition answers :: "bool \<Rightarrow> session_key \<Rightarrow> rcv_effect list \<Rightarrow> bool" where
  "answers ack key out \<longleftrightarrow> (\<forall>g. Send g \<in> set out \<longrightarrow> seg_key g = key \<and> reply ack g)"

lemma reply_simps [simp]: "reply ack (Seg_RS q)" "reply ack (Seg_CS c)" "reply ack (Seg_CAS a) = ack"
  by (simp_all add: reply_def)

lemma answers_simps [simp]:
  "answers ack key []" "answers ack key (Post segs n m # out) = answers ack key out"
  "answers ack key (Send g # out) \<longleftrightarrow> seg_key g = key \<and> reply ack g \<and> answers ack key out"
  "answers ack key (out @ out') \<longleftrightarrow> answers ack key out \<and> answers ack key out'"
  by (auto simp: answers_def)

lemma named_same:
  assumes "named key s" and "same_names (rcv_sess s) sess"
  shows "named key (s\<lparr>rcv_sess := sess\<rparr>)"
  using assms unfolding named_def same_names_def by (cases key) (simp, metis)

lemma named_state [simp]: "named key (s\<lparr>sess_state := st\<rparr>) = named key s"
  by (simp add: named_def)

lemma cancel_ack_key [simp]:
  fixes c :: ltp_segment
  shows "engine_id (new_cancel_ack c f) = engine_id c" "session_id (new_cancel_ack c f) = session_id c"
  by (simp_all add: new_cancel_ack_def Let_def create_ltp_header_def encode_field_def encode_field64_def append_byte_def split: option.split)

lemma report_ack_key [simp]:
  fixes c :: ltp_segment
  shows "engine_id (new_report_ack c n) = engine_id c" "session_id (new_report_ack c n) = session_id c"
  by (simp_all add: new_report_ack_def Let_def create_ltp_header_def encode_field_def encode_field64_def append_byte_def split: option.split)

lemma build_CS_named:
  assumes "named key s" and "build_CS_for_session reason s = (out, s')"
  shows "named key s'" and "answers False key out"
  using assms by (auto simp: build_CS_for_session_def named_def session_cancel_base_def seg_key_def Let_def split: if_splits)

lemma generate_RS_named:
  assumes "named key s" and "generate_RS env ds s = Some (out, s')"
  shows "named key s'" and "answers False key out"
proof -
  obtain found n s1 where h: "have_report_segments_to_send ds (env_seg_size env) (rcv_sess s) = Some (found, n, s1)"
    using assms(2) by (auto simp: generate_RS_def split: option.splits)
  have n1: "named key (s\<lparr>rcv_sess := s1\<rparr>)" by (rule named_same [OF assms(1) have_report_names [OF h]])
  then show "answers False key out" using assms(2) h by (auto simp: generate_RS_def Let_def named_def answers_def seg_key_def)
  have "s' = (s\<lparr>rcv_sess := s1\<rparr>)\<lparr>sess_state := sess_state s'\<rparr>" using assms(2) h by (auto simp: generate_RS_def Let_def)
  then show "named key s'" using n1 named_state by metis
qed

lemma answer_checkpoint_named:
  assumes "named key s" and "answer_checkpoint env ds s = Some (out, s')"
  shows "named key s'" and "answers False key out"
proof -
  have "same_names (rcv_sess s) (session_set_checkpoint_id c (rcv_sess s))" for c
    by (rule same_namesI) (simp_all add: session_set_checkpoint_id_def)
  note n = named_same [OF assms(1) this]
  have "named key s' \<and> answers False key out"
  proof (cases "is_checkpoint ds")
    case True
    then show ?thesis using assms(2) generate_RS_named [OF n] unfolding answer_checkpoint_def by simp
  next
    case False
    then show ?thesis using assms by (simp add: answer_checkpoint_def)
  qed
  then show "named key s'" "answers False key out" by auto
qed

lemma session_names:
  "same_names s (note_endofblock ds s)" "same_names s (remove_segments s)"
  "get_all_red_data s = Some (segs, s') \<Longrightarrow> same_names s s'" "get_all_green_data s = (segs, s') \<Longrightarrow> same_names s s'"
  by (auto simp: same_names_def note_endofblock_def set_eob_def remove_segments_def get_all_red_data_def get_all_green_data_def Let_def
      split: if_splits)

lemma finish_green_named:
  assumes "named key s" and "finish_green env multi s = (out, s', gone)"
  shows "named key s'" and "answers False key out"
  using assms named_same [OF assms(1) session_names(4)]
  by (auto simp: finish_green_def Let_def split: if_splits prod.splits)

lemma after_adding_named:
  assumes "named key s" and "after_adding env ds s = Some (out, s', gone)"
  shows "named key s'" and "answers False key out"
proof -
  let ?s1 = "s\<lparr>rcv_sess := note_endofblock ds (rcv_sess s)\<rparr>" and ?multi = "client_service_id ds = 2"
  have n1: "named key ?s1" by (rule named_same [OF assms(1) session_names(1)])
  consider (full) "build_CS_for_session REASON_SYS_CNCLD ?s1 = (out, s')"
    | (red) o1 s2 segs sess3 o2 where "answer_checkpoint env ds ?s1 = Some (o1, s2)" "get_all_red_data (rcv_sess s2) = Some (segs, sess3)"
        "finish_green env ?multi (s2\<lparr>rcv_sess := sess3\<rparr>) = (o2, s', gone)" "out = o1 @ [Post segs (is_red_full (rcv_sess ?s1)) ?multi] @ o2"
    | (rest) o1 s2 o2 where "answer_checkpoint env ds ?s1 = Some (o1, s2)" "finish_green env ?multi s2 = (o2, s', gone)" "out = o1 @ o2"
    using assms(2) by (auto simp: after_adding_def Let_def split: if_splits option.splits prod.splits)
  then have "named key s' \<and> answers False key out"
  proof cases
    case full
    then show ?thesis using build_CS_named [OF n1] by simp
  next
    case red
    note A = answer_checkpoint_named [OF n1 red(1)]
    show ?thesis using A finish_green_named [OF named_same [OF A(1) session_names(3) [OF red(2)]] red(3)] red(4) by simp
  next
    case rest
    note A = answer_checkpoint_named [OF n1 rest(1)]
    show ?thesis using A finish_green_named [OF A(1) rest(2)] rest(3) by simp
  qed
  then show "named key s'" "answers False key out" by auto
qed

lemma data_segment_named:
  assumes "named key s" and "process_incoming_data_segment env ds s = Some (out, s', gone)"
  shows "named key s'" and "answers False key out"
proof -
  let ?s0 = "s\<lparr>sess_state := STATE_DS\<rparr>"
  have n0: "named key ?s0" using assms(1) by simp
  consider (reject) reason where "build_CS_for_session reason s = (out, s')" | (drop) "out = []" "s' = s"
    | (again) "answer_checkpoint env ds ?s0 = Some (out, s')"
    | (added) v sess1 ds1 where "add_segment_incoming (env_fuel env) ds True (rcv_sess ?s0) = Some (v, sess1)"
        "answer_checkpoint env ds1 (?s0\<lparr>rcv_sess := sess1\<rparr>) = Some (out, s') \<or> after_adding env ds1 (?s0\<lparr>rcv_sess := sess1\<rparr>) = Some (out, s', gone)"
    using assms(2) by (auto simp: process_incoming_data_segment_def Let_def split: if_splits option.splits prod.splits)
  then have "named key s' \<and> answers False key out"
  proof cases
    case reject
    then show ?thesis using build_CS_named [OF assms(1)] by simp
  next
    case again
    then show ?thesis using answer_checkpoint_named [OF n0] by simp
  next
    case added
    have n1: "named key (?s0\<lparr>rcv_sess := sess1\<rparr>)" by (rule named_same [OF n0 add_segment_names [OF added(1)]])
    from added(2) show ?thesis using answer_checkpoint_named [OF n1] after_adding_named [OF n1] by (elim disjE) blast+
  qed (use assms(1) in simp)
  then show "named key s'" "answers False key out" by auto
qed

section \<open>Sessions are kept apart\<close>

definition rcv_named :: "ltp_receiver \<Rightarrow> bool" where
  "rcv_named r \<longleftrightarrow> (\<forall>key s. incoming_sessions r key = Some s \<longrightarrow> named key s)"

lemma rcv_namedD: "rcv_named r \<Longrightarrow> incoming_sessions r key = Some s \<Longrightarrow> named key s"
  unfolding rcv_named_def by blast

text \<open>What a handler may do for the session \<open>key\<close>.\<close>

definition local_step :: "bool \<Rightarrow> session_key \<Rightarrow> ltp_receiver \<Rightarrow> rcv_effect list \<Rightarrow> ltp_receiver \<Rightarrow> bool" where
  "local_step ack key r out r' \<longleftrightarrow> rcv_named r' \<and> answers ack key out
     \<and> (\<forall>k. k \<noteq> key \<longrightarrow> incoming_sessions r' k = incoming_sessions r k)
     \<and> (\<forall>j. j \<noteq> snd key \<longrightarrow> closed_session_map r' j = closed_session_map r j)"

lemma local_stepD: "local_step ack key r out r' \<Longrightarrow> rcv_named r'"
  by (simp add: local_step_def)

lemma local_quiet: "rcv_named r \<Longrightarrow> answers ack key out \<Longrightarrow> local_step ack key r out r"
  by (simp add: local_step_def)

lemma local_put: "rcv_named r \<Longrightarrow> named key s \<Longrightarrow> answers ack key out \<Longrightarrow> local_step ack key r out (put_session key s r)"
  by (simp add: local_step_def put_session_def rcv_named_def)

lemma local_erase: "rcv_named r \<Longrightarrow> answers ack key out \<Longrightarrow> local_step ack key r out (erase_incoming_session key s r)"
  by (simp add: local_step_def erase_incoming_session_def rcv_named_def)

lemma CAS_answers [simp]: "answers ack key (build_CAS_for_CSS c) \<longleftrightarrow> ack \<and> (engine_id c, session_id c) = key"
  by (auto simp: build_CAS_for_CSS_def seg_key_def)

definition is_cs :: "any_segment \<Rightarrow> bool" where
  "is_cs seg \<longleftrightarrow> (case seg of Seg_CS c \<Rightarrow> True | _ \<Rightarrow> False)"

lemma is_cs_simps [simp]: "is_cs (Seg_CS c)" "\<not> is_cs (Seg_DS d)" "\<not> is_cs (Seg_RS q)" "\<not> is_cs (Seg_RAS a)" "\<not> is_cs (Seg_CAS a)"
  by (simp_all add: is_cs_def)

lemma local_new:
  assumes "rcv_named r" and "local_step ack key (r\<lparr>incoming_sessions := (incoming_sessions r)(key \<mapsto> s)\<rparr>) out r'"
  shows "local_step ack key r out r'"
  using assms unfolding local_step_def by simp

lemma open_session_local:
  assumes "rcv_named r" and "named (seg_key seg) s" and "open_session_segment env seg s r = Some (out, r')"
  shows "local_step (is_cs seg) (seg_key seg) r out r'"
proof (cases seg)
  case (Seg_DS ds)
  then consider "out = []" "r' = r"
    | s1 gone where "process_incoming_data_segment env ds s = Some (out, s1, gone)"
        "r' = (if gone then erase_incoming_session (seg_key seg) s1 r else put_session (seg_key seg) s1 r)"
    using assms(3) by (auto simp: open_session_segment_def settle_def split: if_splits)
  then show ?thesis
  proof cases
    case 2
    then show ?thesis using data_segment_named [OF assms(2) 2(1)] local_put [OF assms(1)] local_erase [OF assms(1)] by (simp add: Seg_DS)
  qed (simp add: local_quiet [OF assms(1)])
next
  case (Seg_RAS a)
  have "same_names (rcv_sess s) (rcv_sess (cleanup_RS (serial_number a) s))"
    by (auto simp: same_names_def cleanup_RS_def om_erase_def)
  then have "named (seg_key seg) (s\<lparr>rcv_sess := rcv_sess (cleanup_RS (serial_number a) s)\<rparr>)" by (rule named_same [OF assms(2)])
  then have "named (seg_key seg) (cleanup_RS (serial_number a) s)" by (simp add: cleanup_RS_def)
  then show ?thesis
    using Seg_RAS assms(3) local_quiet [OF assms(1), of "is_cs seg" "seg_key seg"] local_put [OF assms(1), of "seg_key seg" _ "is_cs seg"] local_erase [OF assms(1), of "is_cs seg" "seg_key seg"]
    by (auto simp: open_session_segment_def Let_def split: if_splits)
next
  case (Seg_CS c)
  then have "(engine_id c, session_id c) = seg_key seg" by (simp add: seg_key_def)
  then show ?thesis using Seg_CS assms(3) local_quiet [OF assms(1), of "is_cs seg" "seg_key seg"] local_erase [OF assms(1), of "is_cs seg" "seg_key seg"]
    by (auto simp: open_session_segment_def Let_def split: if_splits)
next
  case (Seg_CAS c)
  then show ?thesis using assms(3) local_quiet [OF assms(1), of "is_cs seg" "seg_key seg"] local_erase [OF assms(1), of "is_cs seg" "seg_key seg"]
    by (auto simp: open_session_segment_def Let_def split: if_splits)
qed (use assms local_quiet in \<open>auto simp: open_session_segment_def\<close>)

lemma closed_reply_answers: "answers (is_cs seg) (seg_key seg) (closed_reply env n cancelled seg)"
  by (auto simp: closed_reply_def build_CS_for_segment_def closed_session_report_def segment_cancel_base_def seg_key_def
      new_report_fields [OF refl] split: any_segment.split)

lemma segment_local:
  assumes "rcv_named r" and "process_segment_for_receiver env seg r = Some (out, r')"
  shows "local_step (is_cs seg) (seg_key seg) r out r'"
proof -
  let ?key = "seg_key seg"
  have new: "named ?key (new_rcv_session env (fst ?key) (snd ?key))" by (simp add: named_def new_rcv_session_def session_init_def)
  consider n c where "out = closed_reply env n c seg" "r' = r"
    | "r' = r" "answers (is_cs seg) ?key out"
    | s where "incoming_sessions r ?key = Some s" "open_session_segment env seg s r = Some (out, r')"
    | s where "s = new_rcv_session env (fst ?key) (snd ?key)"
        "open_session_segment env seg s (r\<lparr>incoming_sessions := (incoming_sessions r)(?key \<mapsto> s)\<rparr>) = Some (out, r')"
    using assms(2)
    by (auto simp: process_segment_for_receiver_def find_incoming_session_def Let_def seg_key_def
        split: if_splits option.splits any_segment.splits)
  then show ?thesis
  proof cases
    case 1
    then show ?thesis using local_quiet [OF assms(1)] closed_reply_answers by simp
  next
    case 3
    then have "named ?key s" using rcv_namedD [OF assms(1)] by blast
    then show ?thesis using open_session_local [OF assms(1) _ 3(2)] by simp
  next
    case 4
    have "rcv_named (r\<lparr>incoming_sessions := (incoming_sessions r)(?key \<mapsto> s)\<rparr>)" using assms(1) new 4(1) by (simp add: rcv_named_def)
    then show ?thesis using open_session_local [OF _ _ 4(2)] new 4(1) local_new [OF assms(1)] by blast
  qed (simp add: local_quiet [OF assms(1)])
qed

lemma timers_local:
  assumes "rcv_named r"
  shows "report_seg_timeout retry serial key r = (out, r') \<Longrightarrow> local_step False key r out r'"
    and "cancel_seg_timeout retry key r = (out, r') \<Longrightarrow> local_step False key r out r'"
    and "inactivity_timer_triggered key r = (out, r') \<Longrightarrow> local_step False key r out r'"
proof -
  have n: "named key s" if "incoming_sessions r key = Some s" for s using rcv_namedD [OF assms that] .
  note L = local_quiet [OF assms, of False key] local_put [OF assms, of key _ False] local_erase [OF assms, of False key]
  have del: "named key (s\<lparr>rcv_sess := (rcv_sess s)\<lparr>report_segments :=
      om_modify serial (\<lambda>q. q\<lparr>is_deleted := True\<rparr>) (report_segments (rcv_sess s))\<rparr>\<rparr>)" if "named key s" for s
    using that unfolding named_def by (auto simp: om_modify_def split: if_splits)
  have rpt: "answers False key [Send (Seg_RS q)]" if "named key s" "om_find (report_segments (rcv_sess s)) serial = Some q" for s q
    using that om_find_SomeD [OF that(2)] by (auto simp: named_def seg_key_def)
  show "local_step False key r out r'" if st: "report_seg_timeout retry serial key r = (out, r')"
  proof -
    consider "out = []" "r' = r" | s q where "incoming_sessions r key = Some s" "om_find (report_segments (rcv_sess s)) serial = Some q" "out = [Send (Seg_RS q)]" "r' = r"
      | s where "out = []" "r' = erase_incoming_session key s r"
      | s s2 where "incoming_sessions r key = Some s" "build_CS_for_session REASON_RLEXC (s\<lparr>rcv_sess := (rcv_sess s)\<lparr>report_segments :=
          om_modify serial (\<lambda>q. q\<lparr>is_deleted := True\<rparr>) (report_segments (rcv_sess s))\<rparr>\<rparr>) = (out, s2)" "r' = put_session key s2 r"
      using st by (auto simp: report_seg_timeout_def Let_def split: option.splits if_splits prod.splits)
    then show ?thesis
    proof cases
      case 4
      then show ?thesis using L(2) build_CS_named [OF del [OF n [OF 4(1)]] 4(2)] by simp
    qed (use L rpt n in auto)
  qed
  show "local_step False key r out r'" if "cancel_seg_timeout retry key r = (out, r')"
    using that L n by (auto simp: cancel_seg_timeout_def named_def seg_key_def split: option.splits if_splits)
  show "local_step False key r out r'" if st: "inactivity_timer_triggered key r = (out, r')"
  proof -
    have rem: "named key (s\<lparr>rcv_sess := remove_segments (rcv_sess s), cancel_seg := None\<rparr>)" if "named key s" for s
      using named_same [OF that session_names(2)] by (simp add: named_def)
    consider "out = []" "r' = r" | s s1 where "incoming_sessions r key = Some s" "r' = put_session key s1 r"
        "build_CS_for_session REASON_RXMTCYCEX (s\<lparr>rcv_sess := remove_segments (rcv_sess s), cancel_seg := None\<rparr>) = (out, s1)"
      using st by (auto simp: inactivity_timer_triggered_def split: option.splits if_splits prod.splits)
    then show ?thesis
    proof cases
      case 2
      then show ?thesis using L(2) build_CS_named [OF rem [OF n [OF 2(1)]] 2(3)] by simp
    qed (use L in auto)
  qed
qed

section \<open>What the operations of the sender do to other sessions\<close>

text \<open>The segments of a session, some of them queued or not any more.\<close>

definition requeued :: "ltp_session \<Rightarrow> ltp_session \<Rightarrow> bool" where
  "requeued s t \<longleftrightarrow> rtranclp (\<lambda>s t. \<exists>k b. t = set_queued k b s) s t"

lemma requeued_intros [simp]: "requeued s s" "requeued s (set_queued k b s)"
  unfolding requeued_def by blast+

lemma requeued_trans: "requeued s t \<Longrightarrow> requeued t u \<Longrightarrow> requeued s u"
  unfolding requeued_def by (rule rtranclp_trans)

lemma requeued_inv: "requeued s t \<Longrightarrow> snd_inv blk cuts key G s \<Longrightarrow> snd_inv blk cuts key G t"
  unfolding requeued_def by (induction rule: rtranclp_induct) (use set_queued_inv in blast)+

text \<open>
  A session that is not being cancelled afterwards was there before with the same segments, and with the same
  bundles once it was cut; or it is new.
\<close>

definition keeps :: "ltp_sender \<Rightarrow> ltp_sender \<Rightarrow> bool" where
  "keeps s s' \<longleftrightarrow> local_engine_id (snd_engine s') = local_engine_id (snd_engine s)
     \<and> eng_session_id (snd_engine s) \<le> eng_session_id (snd_engine s')
     \<and> (\<forall>ses y. find_session ses s' = Some y \<longrightarrow> ss_state y \<noteq> STATE_CS \<longrightarrow>
          (\<exists>x. find_session ses s = Some x \<and> ss_state x \<noteq> STATE_CS \<and> requeued (ss_sess x) (ss_sess y)
             \<and> (ss_bundles y = ss_bundles x \<or> uncut s ses x))
          \<or> find_session ses s = None \<and> eng_session_id (snd_engine s) < ses \<and> uncut s ses y)"

lemma keeps_refl [simp]: "keeps s s"
  by (auto simp: keeps_def)

lemma uncut_requeued:
  assumes "uncut s ses x" and "requeued (ss_sess x) (ss_sess y)"
  shows "ss_sess y = ss_sess x"
proof -
  have "set_queued k b (session_init eng j ck sr) = session_init eng j ck sr" for k b eng j ck sr
    by (simp add: set_queued_def session_init_def om_modify_def)
  moreover have "requeued u t \<Longrightarrow> u = session_init eng j ck sr \<Longrightarrow> t = u" for u t eng j ck sr
    unfolding requeued_def by (induction rule: rtranclp_induct) (use calculation in auto)
  ultimately show ?thesis using assms by (auto simp: uncut_def)
qed

text \<open>One session is changed or erased.\<close>

lemma keeps_one:
  assumes "find_session ses s = Some x" and "\<And>j. find_session j s' = (if j = ses then Some y else find_session j s)"
    and "local_engine_id (snd_engine s') = local_engine_id (snd_engine s)" "eng_session_id (snd_engine s') = eng_session_id (snd_engine s)"
    and "ss_state y \<noteq> STATE_CS \<Longrightarrow> ss_state x \<noteq> STATE_CS \<and> requeued (ss_sess x) (ss_sess y) \<and> (ss_bundles y = ss_bundles x \<or> uncut s ses x)"
  shows "keeps s s'"
  using assms(1,5) by (auto simp: keeps_def assms(2-4) split: if_splits)

lemma keeps_erase:
  assumes "\<And>j. find_session j s' = (if j = ses then None else find_session j s)"
    and "local_engine_id (snd_engine s') = local_engine_id (snd_engine s)" "eng_session_id (snd_engine s') = eng_session_id (snd_engine s)"
  shows "keeps s s'"
  by (auto simp: keeps_def assms split: if_splits)

lemma keeps_same:
  assumes "send_sessions s' = send_sessions s"
    and "local_engine_id (snd_engine s') = local_engine_id (snd_engine s)" "eng_session_id (snd_engine s) \<le> eng_session_id (snd_engine s')"
  shows "keeps s s'"
  by (auto simp: keeps_def assms)

lemma erase_facts:
  "find_session j (erase_send_session ses c s) = (if j = ses then None else find_session j s)"
  "local_engine_id (snd_engine (erase_send_session ses c s)) = local_engine_id (snd_engine s)"
  "eng_session_id (snd_engine (erase_send_session ses c s)) = eng_session_id (snd_engine s)"
  by (auto simp: erase_send_session_def closed_session_def om_find_erase split: option.split)

lemma cleanup_state:
  "snd (cleanup_sender_session ses ev s) =
     (case find_session ses s of None \<Rightarrow> s
      | Some x \<Rightarrow> erase_send_session ses (ev \<noteq> Session_completed) (put_send_session ses (x\<lparr>ss_bundles := []\<rparr>) s))"
  by (simp add: cleanup_sender_session_def post_transmit_def Let_def split: option.split)

lemma cleanup_facts:
  "find_session j (snd (cleanup_sender_session ses ev s)) = (if j = ses then None else find_session j s)"
  "local_engine_id (snd_engine (snd (cleanup_sender_session ses ev s))) = local_engine_id (snd_engine s)"
  "eng_session_id (snd_engine (snd (cleanup_sender_session ses ev s))) = eng_session_id (snd_engine s)"
  unfolding cleanup_state by (auto simp: erase_facts split: option.split)


text \<open>
  What the sender may send: cancel segments for sessions that are then being cancelled or gone,
  acknowledgements of cancel segments that the receiver has sent, and acknowledgements of reports. Data are
  taken from its sessions. Here no bundle is reported as transmitted.
\<close>

definition may_send :: "any_segment set \<Rightarrow> ltp_sender \<Rightarrow> any_segment \<Rightarrow> bool" where
  "may_send back s g \<longleftrightarrow> fst (seg_key g) = local_engine_id (snd_engine s) \<and> snd (seg_key g) \<le> eng_session_id (snd_engine s)
     \<and> (case g of
          Seg_CS c \<Rightarrow> \<forall>x. find_session (session_id c) s = Some x \<longrightarrow> ss_state x = STATE_CS
        | Seg_CAS a \<Rightarrow> \<exists>c. Seg_CS c \<in> back \<and> session_id c = session_id a
        | Seg_RAS a \<Rightarrow> True
        | _ \<Rightarrow> False)"

definition sends_only :: "any_segment set \<Rightarrow> ltp_sender \<Rightarrow> snd_effect list \<Rightarrow> ltp_sender \<Rightarrow> bool" where
  "sends_only back s out s' \<longleftrightarrow> (\<forall>g. Snd g \<in> set out \<longrightarrow> may_send back s' g)
     \<and> (\<forall>d. Wire d \<in> set out \<longrightarrow> (\<exists>ses x k. find_session ses s = Some x \<and> om_find (red_segments (ss_sess x)) k = Some d))"

definition quiet_step :: "any_segment set \<Rightarrow> ltp_sender \<Rightarrow> snd_effect list \<Rightarrow> ltp_sender \<Rightarrow> bool" where
  "quiet_step back s out s' \<longleftrightarrow> keeps s s' \<and> sends_only back s out s' \<and> (\<forall>b. Transmitted b True \<notin> set out)"

lemma quiet_nothing: "keeps s s' \<Longrightarrow> (\<And>e. e \<in> set out \<Longrightarrow> \<exists>b. e \<in> {Dequeue b, Add_Inflight b, Del_Inflight b, Transmitted b False} \<or> (\<exists>j x. e = Load_Session j \<or> e = Load_Green x)) \<Longrightarrow> quiet_step back s out s'"
  unfolding quiet_step_def sends_only_def by fastforce

lemma change_keeps:
  assumes "find_session ses s = Some x"
    and "ss_state y \<noteq> STATE_CS \<Longrightarrow> ss_state x \<noteq> STATE_CS \<and> requeued (ss_sess x) (ss_sess y) \<and> (ss_bundles y = ss_bundles x \<or> uncut s ses x)"
  shows "keeps s (change_session ses x y s)" and "keeps s (set_ready (change_session ses x y s))"
  by (rule keeps_one [OF assms(1) _ _ _ assms(2)]; use assms(1) in \<open>simp add: change_find\<close>)+

text \<open>Cancelling: sessions are left alone or are then being cancelled.\<close>

definition cancels_only :: "ltp_sender \<Rightarrow> snd_effect list \<Rightarrow> ltp_sender \<Rightarrow> bool" where
  "cancels_only s out s' \<longleftrightarrow> snd_engine s' = snd_engine s
     \<and> (\<forall>j. find_session j s' = find_session j s \<or> find_session j s \<noteq> None \<and> (\<exists>y. find_session j s' = Some y \<and> ss_state y = STATE_CS))
     \<and> (\<forall>e \<in> set out. (\<exists>b. e = Transmitted b False)
          \<or> (\<exists>c y. e = Snd (Seg_CS c) \<and> engine_id c = local_engine_id (snd_engine s) \<and> session_id c \<le> eng_session_id (snd_engine s)
               \<and> find_session (session_id c) s' = Some y \<and> ss_state y = STATE_CS))"

lemma cancels_onlyD:
  assumes "cancels_only s out s'"
  shows "snd_engine s' = snd_engine s"
    "find_session j s' = find_session j s \<or> find_session j s \<noteq> None \<and> (\<exists>y. find_session j s' = Some y \<and> ss_state y = STATE_CS)"
    "e \<in> set out \<Longrightarrow> (\<exists>b. e = Transmitted b False)
       \<or> (\<exists>c y. e = Snd (Seg_CS c) \<and> engine_id c = local_engine_id (snd_engine s) \<and> session_id c \<le> eng_session_id (snd_engine s)
            \<and> find_session (session_id c) s' = Some y \<and> ss_state y = STATE_CS)"
  using assms unfolding cancels_only_def by blast+

lemma cancels_trans:
  assumes "cancels_only s out s1" and "cancels_only s1 out' s2"
  shows "cancels_only s (out @ out') s2"
proof -
  note A = cancels_onlyD [OF assms(1)] and B = cancels_onlyD [OF assms(2)]
  have cs: "\<exists>z. find_session j s2 = Some z \<and> ss_state z = STATE_CS" if "find_session j s1 = Some y" "ss_state y = STATE_CS" for j y
    using B(2) [of j] that by auto
  have f: "find_session j s2 = find_session j s \<or> find_session j s \<noteq> None \<and> (\<exists>y. find_session j s2 = Some y \<and> ss_state y = STATE_CS)" for j
    using A(2) [of j] B(2) [of j] by (elim disjE conjE exE) auto
  have o: "(\<exists>b. e = Transmitted b False)
       \<or> (\<exists>c y. e = Snd (Seg_CS c) \<and> engine_id c = local_engine_id (snd_engine s) \<and> session_id c \<le> eng_session_id (snd_engine s)
            \<and> find_session (session_id c) s2 = Some y \<and> ss_state y = STATE_CS)" if "e \<in> set out" for e
    using A(3) [OF that] cs by blast
  show ?thesis
    unfolding cancels_only_def
  proof (intro conjI allI ballI)
    fix e assume "e \<in> set (out @ out')"
    then show "(\<exists>b. e = Transmitted b False)
       \<or> (\<exists>c y. e = Snd (Seg_CS c) \<and> engine_id c = local_engine_id (snd_engine s) \<and> session_id c \<le> eng_session_id (snd_engine s)
            \<and> find_session (session_id c) s2 = Some y \<and> ss_state y = STATE_CS)" using o [of e] B(3) [of e] unfolding A(1) by auto
  qed (use A(1) B(1) f in auto)
qed

lemma cancels_quiet:
  assumes "cancels_only s out s'"
  shows "quiet_step back s out s'"
proof -
  note A = cancels_onlyD [OF assms]
  have "keeps s s'"
    unfolding keeps_def
  proof (intro conjI allI impI disjI1)
    fix ses y assume "find_session ses s' = Some y" "ss_state y \<noteq> STATE_CS"
    then have "find_session ses s = Some y" using A(2) [of ses] by auto
    then show "\<exists>x. find_session ses s = Some x \<and> ss_state x \<noteq> STATE_CS \<and> requeued (ss_sess x) (ss_sess y)
        \<and> (ss_bundles y = ss_bundles x \<or> uncut s ses x)" using \<open>ss_state y \<noteq> STATE_CS\<close> by (intro exI [of _ y]) simp
  qed (simp_all add: A(1))
  moreover have "may_send back s' g" if "Snd g \<in> set out" for g
    using A(3) [OF that] by (auto simp: may_send_def seg_key_def A(1))
  moreover have "Wire d \<notin> set out" "Transmitted b True \<notin> set out" for d b using A(3) by fastforce+
  ultimately show ?thesis unfolding quiet_step_def sends_only_def by blast
qed

lemma cancel_only:
  assumes "snd_ok s" and "cancel_session reason ses s = (out, s')"
  shows "cancels_only s out s'"
proof (cases "\<exists>x. find_session ses s = Some x \<and> ss_state x \<noteq> STATE_CS")
  case False
  then show ?thesis using assms(2) by (auto simp: cancels_only_def cancel_session_def split: option.splits)
next
  case True
  then obtain x where x: "find_session ses s = Some x" "ss_state x \<noteq> STATE_CS" by blast
  note T = table_okD [OF snd_okD(1) [OF assms(1)] x(1)]
  obtain c y bs where c: "out = Snd (Seg_CS c) # map (\<lambda>b. Transmitted b False) bs" "s' = set_ready (change_session ses x y s)"
      "ss_state y = STATE_CS" "engine_id c = sess_engine_id (ss_sess x)" "session_id c = sess_session_id (ss_sess x)"
    using assms(2) cancel_change [OF snd_okD(4) [OF assms(1)] x, of reason] by (auto simp: session_cancel_base_def remove_segments_def)
  have ids: "engine_id c = local_engine_id (snd_engine s)" "session_id c = ses" using T(1) c(4,5) by (simp_all add: session_ok_def)
  then show ?thesis using x(1) T(2) c(1,3) by (auto simp: cancels_only_def c(2) change_find)
qed

lemma cancel_sessions_only:
  "snd_ok s \<Longrightarrow> loading_session s = None \<Longrightarrow> cancel_sessions ids s = (out, s') \<Longrightarrow> cancels_only s out s'"
proof (induction ids arbitrary: s out)
  case Nil
  then show ?case by (simp add: cancels_only_def)
next
  case (Cons ses rest)
  show ?case
  proof (cases "\<exists>x. find_session ses s = Some x \<and> (ss_state x = STATE_DS \<or> ss_state x = STATE_RS)")
    case True
    obtain o1 s1 where c: "cancel_session REASON_SYS_CNCLD ses s = (o1, s1)" by fastforce
    obtain o2 where r: "cancel_sessions rest s1 = (o2, s')" "out = o1 @ o2" using True Cons.prems(3) c by (auto split: prod.splits)
    have "snd_ok s1" using cancel_accounts [OF Cons.prems(1) _ c] Cons.prems(2) by (simp add: accounts_def)
    moreover have "loading_session s1 = None" using cancel_loading [of REASON_SYS_CNCLD ses s] c Cons.prems(2) by simp
    ultimately have "cancels_only s1 o2 s'" using Cons.IH r(1) by blast
    then show ?thesis using cancels_trans [OF cancel_only [OF Cons.prems(1) c]] r(2) by simp
  next
    case False
    then have "cancel_sessions rest s = (out, s')" using Cons.prems(3) by (auto split: option.splits if_splits)
    then show ?thesis using Cons by blast
  qed
qed

lemma keepsD:
  assumes "keeps s s'"
  shows "local_engine_id (snd_engine s') = local_engine_id (snd_engine s)" "eng_session_id (snd_engine s) \<le> eng_session_id (snd_engine s')"
    "find_session ses s' = Some y \<Longrightarrow> ss_state y \<noteq> STATE_CS \<Longrightarrow>
       (\<exists>x. find_session ses s = Some x \<and> ss_state x \<noteq> STATE_CS \<and> requeued (ss_sess x) (ss_sess y)
          \<and> (ss_bundles y = ss_bundles x \<or> uncut s ses x))
       \<or> find_session ses s = None \<and> eng_session_id (snd_engine s) < ses \<and> uncut s ses y"
  using assms unfolding keeps_def by blast+

lemma uncut_engine: "local_engine_id (snd_engine s') = local_engine_id (snd_engine s) \<Longrightarrow> uncut s' ses x = uncut s ses x"
  by (simp add: uncut_def)


section \<open>Quiet operations\<close>

definition silent :: "snd_effect \<Rightarrow> bool" where
  "silent e \<longleftrightarrow> (case e of Snd g \<Rightarrow> False | Wire d \<Rightarrow> False | Transmitted b ok \<Rightarrow> \<not> ok | _ \<Rightarrow> True)"

lemma silent_quiet: "keeps s s' \<Longrightarrow> \<forall>e \<in> set out. silent e \<Longrightarrow> quiet_step back s out s'"
  by (auto simp: quiet_step_def sends_only_def silent_def)

lemma silent_simps [simp]:
  "silent (Dequeue b)" "silent (Add_Inflight b)" "silent (Del_Inflight b)" "silent (Load_Session j)" "silent (Load_Green x)" "silent (Snd_Data d)" "silent (Transmitted_Green b)"
  "silent (Transmitted b ok) = (\<not> ok)" "\<not> silent (Snd g)" "\<not> silent (Wire d)"
  by (simp_all add: silent_def)

lemma add_loading_find:
  assumes "snd_ok s" and "loading_session s = Some ses" and "find_session ses s = Some x" and "add_to_loading env b len s = Some (out, s')"
  shows "find_session j s' = (if j = ses then Some (add_to_bundle_list b len (x\<lparr>ss_state := STATE_DS\<rparr>)) else find_session j s)"
    and "snd_engine s' = snd_engine s" and "\<forall>e \<in> set out. silent e"
proof -
  have f: "find_session j (update_session_counts ses STATE_DS s) = (if j = ses then Some (x\<lparr>ss_state := STATE_DS\<rparr>) else find_session j s)" for j
    unfolding update_is_change [OF snd_okD(4) [OF assms(1)] assms(3)] using assms(3) by (simp add: change_find)
  have "snd_engine (update_session_counts ses STATE_DS s) = snd_engine s"
    unfolding update_is_change [OF snd_okD(4) [OF assms(1)] assms(3)] by simp
  then show "find_session j s' = (if j = ses then Some (add_to_bundle_list b len (x\<lparr>ss_state := STATE_DS\<rparr>)) else find_session j s)"
    "snd_engine s' = snd_engine s" "\<forall>e \<in> set out. silent e"
    using assms(4) f by (auto simp: add_to_loading_def assms(2) Let_def split: if_splits)
qed

lemma bundle_quiet:
  assumes "snd_ok s" and "op_ok env (Op_Bundle b len green) s" and "sender_send_bundle env b len green s = Some (ok, out, s')"
  shows "quiet_step back s out s'"
proof -
  let ?i = "eng_session_id (snd_engine s) + 1"
  have o: "eng_session_id (snd_engine s) \<noteq> - 1" using assms(2) by simp
  note le = new_id_le [OF o]
  consider (early) "send_sessions s' = send_sessions s" "local_engine_id (snd_engine s') = local_engine_id (snd_engine s)"
      "eng_session_id (snd_engine s) \<le> eng_session_id (snd_engine s')" "\<forall>e \<in> set out. silent e"
    | (old) ses where "loading_session s = Some ses" "add_to_loading env b len s = Some (out, s')"
    | (new) s1 where "loading_session s = None" "create_sender_session env s = (True, s1)" "add_to_loading env b len s1 = Some (out, s')"
    using assms(3) le(2)
    by (auto simp: sender_send_bundle_def create_sender_session_def new_session_id_def Let_def split: if_splits prod.splits)
  then show ?thesis
  proof cases
    case early
    then show ?thesis using silent_quiet keeps_same by blast
  next
    case old
    then obtain x where x: "find_session ses s = Some x" using snd_okD(1) [OF assms(1)] by (auto simp: table_ok_def)
    note A = add_loading_find [OF assms(1) old(1) x old(2)]
    have t: "ss_state x \<noteq> STATE_CS" "uncut s ses x"
      using table_okD(1) [OF snd_okD(1) [OF assms(1)] x] old(1) by (simp_all add: session_ok_def uncut_def)
    have "keeps s s'" by (rule keeps_one [OF x A(1)]) (use A(2) t in \<open>auto simp: add_to_bundle_list_def\<close>)
    then show ?thesis using A(3) silent_quiet by blast
  next
    case new
    note C = create_ok [OF assms(1) new(1) o new(2)]
    define n where "n = new_snd_session env (local_engine_id (snd_engine s)) ?i"
    have s1: "loading_session s1 = Some ?i" "\<And>j. find_session j s1 = (if j = ?i then Some n else find_session j s)"
        "local_engine_id (snd_engine s1) = local_engine_id (snd_engine s)" "eng_session_id (snd_engine s1) = ?i"
      using new(2) by (auto simp: create_sender_session_def new_session_id_def Let_def om_find_assign n_def split: if_splits)
    have none: "find_session ?i s = None"
      using table_okD(2) [OF snd_okD(1) [OF assms(1)]] le(1) by (metis leD not_None_eq)
    have i: "find_session ?i s1 = Some n" using s1(2) by simp
    note A = add_loading_find [OF C(1) s1(1) i new(3)]
    have "uncut s ?i (add_to_bundle_list b len (n\<lparr>ss_state := STATE_DS\<rparr>))"
      by (auto simp: uncut_def n_def new_snd_session_def add_to_bundle_list_def)
    moreover have "find_session j s' = (if j = ?i then Some (add_to_bundle_list b len (n\<lparr>ss_state := STATE_DS\<rparr>)) else find_session j s)" for j
      using A(1) [of j] s1(2) [of j] by simp
    ultimately have "keeps s s'" unfolding keeps_def A(2) s1(3,4) using none le by (auto split: if_splits)
    then show ?thesis using A(3) silent_quiet by blast
  qed
qed

lemma data_timeout_quiet:
  assumes "snd_ok s" and "data_seg_timeout retry ses start s = (out, s')"
  shows "quiet_step back s out s'"
proof (cases "\<exists>x ds. find_session ses s = Some x \<and> om_find (red_segments (ss_sess x)) start = Some ds
    \<and> is_checkpoint ds \<and> \<not> is_deleted ds \<and> ss_state x \<noteq> STATE_CS \<and> \<not> queued_to_send ds")
  case False
  then have "out = [] \<and> s' = s" using assms(2) by (auto simp: data_seg_timeout_def split: option.splits if_splits)
  then show ?thesis by (simp add: silent_quiet)
next
  case True
  then obtain x ds where x: "find_session ses s = Some x" "om_find (red_segments (ss_sess x)) start = Some ds"
    "is_checkpoint ds" "ss_state x \<noteq> STATE_CS" "\<not> queued_to_send ds" "\<not> is_deleted ds" by blast
  show ?thesis
  proof (cases retry)
    case False
    then have "cancel_session REASON_RXMTCYCEX ses s = (out, s')" using assms(2) x by (simp add: data_seg_timeout_def)
    then show ?thesis using cancels_quiet cancel_only [OF assms(1)] by blast
  next
    case True
    define y where "y = x\<lparr>ss_state := STATE_DS, ss_sess := set_queued start True (ss_sess x)\<rparr>"
    have s': "out = [Snd_Data (ds\<lparr>queued_to_send := True\<rparr>)]" "s' = put_send_session ses y (update_session_counts ses STATE_DS s)"
      using assms(2) x True by (simp_all add: data_seg_timeout_def Let_def y_def set_queued_def)
    have "s' = set_ready (change_session ses x y s)"
      unfolding s'(2) update_is_change [OF snd_okD(4) [OF assms(1)] x(1)] by (simp add: change_session_def y_def)
    then have "keeps s s'" using change_keeps(2) [OF x(1), of y] x(4) by (simp add: y_def)
    then show ?thesis by (simp add: s'(1) silent_quiet)
  qed
qed

lemma cancel_timeout_quiet:
  assumes "snd_ok s" and "sender_cancel_timeout retry ses s = (out, s')"
  shows "quiet_step back s out s'"
proof -
  consider "s' = s" "out = []" | "s' = erase_send_session ses True s" "out = []"
    | x c where "find_session ses s = Some x" "ss_cancel x = Some c" "s' = s" "out = [Snd (Seg_CS c)]"
    using assms(2) by (auto simp: sender_cancel_timeout_def split: option.splits if_splits)
  then show ?thesis
  proof cases
    case 2
    have "keeps s s'" unfolding 2(1) by (rule keeps_erase) (simp_all add: erase_facts)
    then show ?thesis using 2(2) by (simp add: silent_quiet)
  next
    case 3
    note T = table_okD [OF snd_okD(1) [OF assms(1)] 3(1)]
    have "may_send back s (Seg_CS c)" using T(1,2) 3(1,2) by (auto simp: may_send_def seg_key_def session_ok_def)
    then show ?thesis by (simp add: 3(3,4) quiet_step_def sends_only_def)
  qed (simp add: silent_quiet)
qed

lemma transmit_quiet:
  assumes "link_transmits ses start s = (out, s')"
  shows "quiet_step back s out s'"
proof -
  consider "s' = s" "out = []"
    | x ds where "find_session ses s = Some x" "om_find (red_segments (ss_sess x)) start = Some ds" "out = [Wire ds]"
        "s' = put_send_session ses (x\<lparr>ss_sess := set_queued start False (ss_sess x)\<rparr>) s"
    using assms by (auto simp: link_transmits_def set_queued_def split: option.splits if_splits)
  then show ?thesis
  proof cases
    case 2
    have "keeps s s'" by (rule keeps_one [OF 2(1)]) (use 2(1) in \<open>auto simp: 2(4)\<close>)
    then show ?thesis using 2(1-3) by (auto simp: quiet_step_def sends_only_def)
  qed (simp add: silent_quiet)
qed

lemma post_silent: "success \<longrightarrow> ss_bundles x = [] \<Longrightarrow> \<forall>e \<in> set (fst (post_transmit ex success x)). silent e"
  by (auto simp: post_transmit_def Let_def)

lemma cleanup_quiet:
  assumes "cleanup_sender_session ses ev s = (out, s')" and "ev = Session_completed \<Longrightarrow> \<forall>x. find_session ses s = Some x \<longrightarrow> ss_bundles x = []"
  shows "keeps s s'" and "\<forall>e \<in> set out. silent e"
proof -
  have s': "s' = snd (cleanup_sender_session ses ev s)" using assms(1) by simp
  show "keeps s s'" unfolding s' by (rule keeps_erase) (simp_all add: cleanup_facts)
  have "out = (case find_session ses s of None \<Rightarrow> [] | Some x \<Rightarrow> fst (post_transmit (expired_in_queue s) (ev = Session_completed) x))"
    using arg_cong [OF assms(1), of fst] by (simp add: cleanup_sender_session_def Let_def case_prod_beta split: option.splits)
  then show "\<forall>e \<in> set out. silent e" using post_silent assms(2) by (auto split: option.splits)
qed

lemma step_quiet:
  assumes "snd_ok s" and "op_ok env op s" and "snd_step env op s = Some (out, s')"
    and "\<And>ses. op \<noteq> Op_Load ses" and "\<And>seg. op \<noteq> Op_Segment seg"
  shows "quiet_step back s out s'"
proof (cases op)
  case (Op_Bundle b len green)
  then obtain ok where "sender_send_bundle env b len green s = Some (ok, out, s')" using assms(3) by auto
  then show ?thesis using bundle_quiet [OF assms(1)] assms(2) Op_Bundle by blast
next
  case Op_Time_Over
  then have "send_sessions s' = send_sessions s" "snd_engine s' = snd_engine s" "\<forall>e \<in> set out. silent e"
    using assms(3) by (auto simp: aggregation_time_over_def split: option.splits)
  then show ?thesis by (intro silent_quiet keeps_same) simp_all
next
  case Op_Green
  then have "next_green_session env s = Some (out, s')" using assms(3) by simp
  then obtain rest X where g: "s' = s\<lparr>green_loaded := rest, expired_in_queue := X\<rparr>"
      "\<forall>e \<in> set out. (\<exists>d. e = Snd_Data d) \<or> (\<exists>b. e = Transmitted_Green b)"
    by (rule green_step [OF assms(1)]) blast
  then have "\<forall>e \<in> set out. silent e" by fastforce
  then show ?thesis using g(1) by (intro silent_quiet keeps_same) simp_all
next
  case (Op_Data_Timeout retry ses start)
  then show ?thesis using assms(3) data_timeout_quiet [OF assms(1)] by simp
next
  case (Op_Cancel_Timeout retry ses)
  then show ?thesis using assms(3) cancel_timeout_quiet [OF assms(1)] by simp
next
  case (Op_Closeout ses)
  then have "s' = sender_closeout ses s" "out = []" using assms(3) by simp_all
  then show ?thesis by (intro silent_quiet keeps_same) (simp_all add: sender_closeout_def delete_closed_session_def)
next
  case (Op_Transmit ses start)
  then show ?thesis using assms(3) transmit_quiet by simp
next
  case (Op_Force_Cancel key)
  then show ?thesis using assms(3) cancels_quiet [OF cancel_only [OF assms(1)]]
    by (auto simp: engine_force_cancel_def force_cancel_by_sender_def silent_quiet split: if_splits)
next
  case (Op_Inactivity over key)
  then show ?thesis using assms(3) cancels_quiet [OF cancel_only [OF assms(1)]]
    by (auto simp: sender_inactivity_def silent_quiet split: if_splits option.splits)
next
  case Op_Cancel_All
  then show ?thesis using assms(2,3) cancels_quiet [OF cancel_sessions_only [OF assms(1)]] by (simp add: cancel_all_sessions_def)
qed (use assms(4,5) in auto)

text \<open>A session of which all bundles have expired is erased.\<close>

lemma load_empty_quiet:
  assumes "find_session ses s = Some x" and "filter (\<lambda>b. \<not> se_expired env b) (ss_bundles x) = []"
    and "process_loaded_session env ses s = Some (out, s')"
  shows "quiet_step back s out s'"
proof -
  define s1 where "s1 = (put_send_session ses (x\<lparr>ss_bundles := []\<rparr>) s)
    \<lparr>expired_in_queue := expired_in_queue s \<union> {b \<in> set (ss_bundles x). se_expired env b}\<rparr>"
  obtain o2 where c: "cleanup_sender_session ses Bundles_expired s1 = (o2, s')" "out = map Del_Inflight (filter (se_expired env) (ss_bundles x)) @ o2"
    using assms by (auto simp: process_loaded_session_def remove_expired_bundles_def Let_def s1_def split: prod.splits)
  have s': "s' = snd (cleanup_sender_session ses Bundles_expired s1)" using c(1) by simp
  have f: "find_session j s1 = (if j = ses then Some (x\<lparr>ss_bundles := []\<rparr>) else find_session j s)" for j using assms(1) by (simp add: s1_def)
  have e: "snd_engine s1 = snd_engine s" by (simp add: s1_def)
  have "keeps s s'" unfolding s' by (rule keeps_erase) (auto simp: cleanup_facts f e)
  moreover have "\<forall>e \<in> set out. silent e" using cleanup_quiet(2) [OF c(1)] c(2) by auto
  ultimately show ?thesis by (rule silent_quiet)
qed

text \<open>Segments other than a report for a session of the table.\<close>

lemma segment_quiet:
  assumes "snd_ok s" and "segment_for_sender seg s = Some (out, s')"
    and key: "fst (seg_key seg) = local_engine_id (snd_engine s)" "snd (seg_key seg) \<le> eng_session_id (snd_engine s)"
    and cs: "\<And>c. seg = Seg_CS c \<Longrightarrow> \<exists>c'. Seg_CS c' \<in> back \<and> session_id c' = session_id c"
    and rs: "\<And>rpt. seg = Seg_RS rpt \<Longrightarrow> find_session (session_id rpt) s = None"
  shows "quiet_step back s out s'"
proof -
  obtain known closed cancelled where l: "lookup_engine (seg_key seg) (snd_engine s) = (known, closed, cancelled)" by (metis prod_cases3)
  have "process_segment seg closed cancelled s = Some (out, s') \<or> out = [] \<and> s' = s"
    using assms(2) l by (simp add: segment_for_sender_def split: if_splits)
  then show ?thesis
  proof
    assume p: "process_segment seg closed cancelled s = Some (out, s')"
    show ?thesis
    proof (cases seg)
      case (Seg_RS rpt)
      have none: "find_session (session_id rpt) s = None" by (rule rs [OF Seg_RS])
      then have f: "find_sender_session (engine_id rpt, session_id rpt) s = None" by (simp add: find_sender_session_def)
      have e: "s' = s" "out = [report_ack_for rpt] \<or> out = cancel_for_segment REASON_SYS_CNCLD rpt"
        using p Seg_RS f by (auto simp: process_segment_def process_RS_def closed_report_def Let_def split: if_splits prod.splits)
      have "may_send back s (Seg_RAS (new_report_ack (segment_base rpt) (serial_number rpt)))"
        using key Seg_RS by (simp add: may_send_def seg_key_def segment_base_def)
      moreover have "may_send back s (Seg_CS (new_cancel_segment (segment_cancel_base rpt) LTP_SEGMENT_CS_BS REASON_SYS_CNCLD))"
        using key Seg_RS none by (simp add: may_send_def seg_key_def segment_cancel_base_def)
      ultimately show ?thesis using e by (auto simp: quiet_step_def sends_only_def report_ack_for_def cancel_for_segment_def)
    next
      case (Seg_CS c)
      define ack where "ack = new_cancel_ack (base_segment\<lparr>engine_id := engine_id c, session_id := session_id c\<rparr>) 0x0f"
      have ack: "may_send back t (Seg_CAS ack)" if "keeps s t" for t
        using key cs [OF Seg_CS] that Seg_CS by (auto simp: may_send_def seg_key_def ack_def keeps_def intro: order.trans)
      have "out = [] \<and> s' = s \<or> process_CS c closed cancelled s = (out, s')" using p Seg_CS by (simp add: process_segment_def split: if_splits)
      then show ?thesis
      proof
        assume pc: "process_CS c closed cancelled s = (out, s')"
        show ?thesis
        proof (cases "cancelled \<or> closed \<or> find_sender_session (engine_id c, session_id c) s = None")
          case True
          then have "out = [Snd (Seg_CAS ack)]" "s' = s" using pc by (auto simp: process_CS_def ack_def Let_def split: if_splits)
          then show ?thesis using ack [of s] by (simp add: quiet_step_def sends_only_def)
        next
          case False
          then obtain x where x: "find_sender_session (engine_id c, session_id c) s = Some x" by blast
          then have f: "find_session (session_id c) s = Some x" using find_senderD by fastforce
          define t where "t = put_send_session (session_id c) (x\<lparr>ss_sess := remove_segments (ss_sess x), ss_cancel := None\<rparr>) s"
          obtain o2 s2 where c: "cleanup_sender_session (session_id c) Cancelled_by_receiver t = (o2, s2)" by fastforce
          have o: "out = o2 @ [Snd (Seg_CAS ack)]" "s' = s2" using pc False x c by (simp_all add: process_CS_def Let_def ack_def t_def)
          have s': "s' = snd (cleanup_sender_session (session_id c) Cancelled_by_receiver t)" using c o(2) by simp
          have k: "keeps s s'" unfolding s' by (rule keeps_erase [of _ "session_id c"]) (use f in \<open>auto simp: cleanup_facts t_def\<close>)
          have "\<forall>e \<in> set o2. silent e" by (rule cleanup_quiet(2) [OF c]) simp
          then show ?thesis using k ack [OF k] by (auto simp: quiet_step_def sends_only_def o(1))
        qed
      qed (simp add: silent_quiet)
    next
      case (Seg_CAS c)
      then have "out = []" "s' = s \<or> s' = erase_send_session (session_id c) True s"
        using p by (auto simp: process_segment_def process_CAS_def split: if_splits option.splits)
      moreover have "keeps s (erase_send_session (session_id c) True s)" by (rule keeps_erase) (simp_all add: erase_facts)
      ultimately show ?thesis using silent_quiet keeps_refl by auto
    qed (use p in \<open>auto simp: process_segment_def silent_quiet\<close>)
  qed (simp add: silent_quiet)
qed

section \<open>Isolation of the sessions at the receiver\<close>

text \<open>The runs of a receiver that starts with no session: any segment and any timer, in any order.\<close>

inductive rcv_run :: "ltp_receiver \<Rightarrow> bool" where
  rcv_run_empty: "rcv_run \<lparr>incoming_sessions = (\<lambda>_. None), closed_session_map = (\<lambda>_. None)\<rparr>"
| rcv_run_segment: "rcv_run r \<Longrightarrow> process_segment_for_receiver env seg r = Some (out, r') \<Longrightarrow> rcv_run r'"
| rcv_run_report_timer: "rcv_run r \<Longrightarrow> report_seg_timeout retry serial key r = (out, r') \<Longrightarrow> rcv_run r'"
| rcv_run_cancel_timer: "rcv_run r \<Longrightarrow> cancel_seg_timeout retry key r = (out, r') \<Longrightarrow> rcv_run r'"
| rcv_run_inactivity: "rcv_run r \<Longrightarrow> inactivity_timer_triggered key r = (out, r') \<Longrightarrow> rcv_run r'"
| rcv_run_closeout: "rcv_run r \<Longrightarrow> rcv_run (closeout_timer_triggered ses r)"

lemma rcv_run_named: "rcv_run r \<Longrightarrow> rcv_named r"
proof (induction rule: rcv_run.induct)
  case rcv_run_empty
  then show ?case by (simp add: rcv_named_def)
next
  case (rcv_run_closeout r ses)
  then show ?case by (simp add: rcv_named_def closeout_timer_triggered_def)
qed ((blast dest: segment_local timers_local local_stepD)+)

text \<open>
  C15. The sessions of an LTP receiver do not disturb one another: after any run, whatever segment arrives,
  sessions of other keys stay as they are, whether open or closed, everything that is sent carries the key of
  the segment that arrived, and it is a report, a cancel segment or, only in answer to a cancel segment, the
  acknowledgement of it.
\<close>

theorem receiver_isolation:
  assumes "rcv_run r" and "process_segment_for_receiver env seg r = Some (out, r')"
  shows "(\<forall>key. key \<noteq> seg_key seg \<longrightarrow> incoming_sessions r' key = incoming_sessions r key)
    \<and> (\<forall>ses. ses \<noteq> snd (seg_key seg) \<longrightarrow> closed_session_map r' ses = closed_session_map r ses)
    \<and> (\<forall>g. Send g \<in> set out \<longrightarrow> seg_key g = seg_key seg
         \<and> (case g of Seg_RS _ \<Rightarrow> True | Seg_CS _ \<Rightarrow> True | Seg_CAS _ \<Rightarrow> (\<exists>c. seg = Seg_CS c) | _ \<Rightarrow> False))"
proof -
  have "is_cs seg = (\<exists>c. seg = Seg_CS c)" by (cases seg) (simp_all add: is_cs_def)
  then show ?thesis
    using segment_local [OF rcv_run_named [OF assms(1)] assms(2)]
    unfolding local_step_def answers_def reply_def by (auto split: any_segment.splits)
qed

text \<open>A cancel segment for a session that is not known.\<close>

definition stray_cancel :: ltp_cancel_segment where
  "stray_cancel = new_cancel_segment (segment_cancel_base (base_segment\<lparr>engine_id := 5, session_id := 9\<rparr>)) LTP_SEGMENT_CS_BS 1"

theorem receiver_isolation_witness:
  "\<exists>out r'. process_segment_for_receiver calm (Seg_CS stray_cancel) \<lparr>incoming_sessions = (\<lambda>_. None), closed_session_map = (\<lambda>_. None)\<rparr> = Some (out, r')
     \<and> out \<noteq> [] \<and> (\<forall>g. Send g \<in> set out \<longrightarrow> seg_key g = (5, 9)) \<and> incoming_sessions r' (5, 10) = None"
proof -
  let ?r = "\<lparr>incoming_sessions = (\<lambda>_. None), closed_session_map = (\<lambda>_. None)\<rparr>"
  have key: "seg_key (Seg_CS stray_cancel) = (5, 9)" by (simp add: stray_cancel_def seg_key_def segment_cancel_base_def)
  have type: "segment_type stray_cancel = LTP_SEGMENT_CS_BS"
    by (simp add: stray_cancel_def new_cancel_segment_def create_ltp_header_def append_byte_def encode_field64_def encode_field_def Let_def split: option.split)
  obtain out r' where p: "process_segment_for_receiver calm (Seg_CS stray_cancel) ?r = Some (out, r')" "out \<noteq> []"
    by (simp add: process_segment_for_receiver_def key type find_incoming_session_def build_CAS_for_CSS_def)
  then show ?thesis using receiver_isolation [OF rcv_run_empty p(1)] key by auto
qed

end
