(* ===== verification/Ltp_Link.thy ===== *)
theory Ltp_Link
  imports Ltp_Local
begin

text \<open>
  Two nodes: the sender of \<open>Ltp_Sender_Node\<close> with all its sessions, the receiver of \<open>Ltp_Receiver\<close>, and a network
  between them that loses, repeats and reorders. A bundle that the sender reports as transmitted has been
  handed over by the receiver.
\<close>

section \<open>The link\<close>

record ltp_link =
  lk_sender :: ltp_sender
  lk_receiver :: ltp_receiver
  lk_forth :: "any_segment set"
  lk_back :: "any_segment set"
  lk_events :: "snd_effect list"
  lk_cut :: "u64 \<Rightarrow> (nat list \<times> ltp_data_segment list) option"
  lk_posted :: "(u64 \<times> ds_map \<times> u64 \<times> bool) set"
  lk_forgot :: "u64 set"

text \<open>
  \<open>lk_forth\<close> and \<open>lk_back\<close> are the segments that were sent, \<open>lk_events\<close> is what the sender has done, \<open>lk_posted\<close> what
  the receiver has handed over, by session; \<open>lk_cut\<close> remembers the bundles of a session that was cut and its
  segments; \<open>lk_forgot\<close> are the sessions that the receiver closed without handing over a block and whose closeout timer has
  fired: the receiver takes a segment of such a session for the first one of a new session.

  How a segment arrives: with the fields that the parser recovers from its packet.
\<close>

fun arrives :: "any_segment \<Rightarrow> any_segment \<Rightarrow> bool" where
  "arrives (Seg_DS d) (Seg_DS d') = intact d d'"
| "arrives (Seg_RS q) (Seg_RS rpt) = (report_in_range q \<and> rs_parse_buffer (packet q) blank_report_segment = Inr (0, rpt))"
| "arrives (Seg_RAS a) (Seg_RAS a') = (engine_id a' = engine_id a \<and> session_id a' = session_id a \<and> serial_number a' = serial_number a)"
| "arrives (Seg_CS c) (Seg_CS c') = (engine_id c' = engine_id c \<and> session_id c' = session_id c \<and> segment_type c' = segment_type c)"
| "arrives (Seg_CAS c) (Seg_CAS c') = (engine_id c' = engine_id c \<and> session_id c' = session_id c \<and> segment_type c' = segment_type c)"
| "arrives _ _ = False"

definition sender_did :: "snd_effect list \<Rightarrow> ltp_sender \<Rightarrow> ltp_link \<Rightarrow> ltp_link" where
  "sender_did out s L = L\<lparr>lk_sender := s, lk_events := lk_events L @ out,
     lk_forth := lk_forth L \<union> {g. Snd g \<in> set out} \<union> Seg_DS ` {d. Wire d \<in> set out}\<rparr>"

definition receiver_did :: "u64 \<Rightarrow> rcv_effect list \<Rightarrow> ltp_receiver \<Rightarrow> ltp_link \<Rightarrow> ltp_link" where
  "receiver_did ses out r L = L\<lparr>lk_receiver := r, lk_back := lk_back L \<union> {g. Send g \<in> set out}, lk_posted := lk_posted L \<union> Pair ses ` posts out\<rparr>"

definition closeout_did :: "u64 \<Rightarrow> ltp_link \<Rightarrow> ltp_link" where
  "closeout_did ses L = L\<lparr>lk_receiver := closeout_timer_triggered ses (lk_receiver L),
     lk_forgot := lk_forgot L \<union> (if closed_session_map (lk_receiver L) ses \<noteq> None \<and> (\<forall>p. (ses, p) \<notin> lk_posted L) then {ses} else {})\<rparr>"

abbreviation lk_engine :: "ltp_link \<Rightarrow> u64" where
  "lk_engine L \<equiv> local_engine_id (snd_engine (lk_sender L))"

text \<open>
  The steps, for given contents of bundles: every operation of the sender that keeps to \<open>op_ok\<close>, every arrival of a segment
  that was sent, and every timer of the receiver, at any time. A session is cut within the bounds of the encoders.
  Segments of green sessions are not followed to the receiver.
\<close>

inductive lstep :: "bool \<Rightarrow> (nat \<Rightarrow> ltp_bundle) \<Rightarrow> ltp_link \<Rightarrow> ltp_link \<Rightarrow> bool" for ccsds contents where
  operation: "op_ok env op (lk_sender L) \<Longrightarrow> (\<And>ses. op \<noteq> Op_Load ses) \<Longrightarrow> (\<And>seg. op \<noteq> Op_Segment seg)
    \<Longrightarrow> snd_step env op (lk_sender L) = Some (out, s) \<Longrightarrow> lstep ccsds contents L (sender_did out s L)"
| load: "op_ok env (Op_Load ses) (lk_sender L) \<Longrightarrow> find_session ses (lk_sender L) = Some x
    \<Longrightarrow> bs = filter (\<lambda>b. \<not> se_expired env b) (ss_bundles x) \<Longrightarrow> se_ccsds env = ccsds \<Longrightarrow> se_contents env = contents
    \<Longrightarrow> length (session_block ccsds (map contents bs)) < 2 ^ 56 \<Longrightarrow> fits 8 (lk_engine L) \<Longrightarrow> fits 8 ses
    \<Longrightarrow> snd_step env (Op_Load ses) (lk_sender L) = Some (out, s)
    \<Longrightarrow> lstep ccsds contents L ((sender_did out s L)
          \<lparr>lk_cut := (if bs = [] then lk_cut L else (lk_cut L)(ses \<mapsto> (bs, [d. Snd_Data d \<leftarrow> out])))\<rparr>)"
| sender_gets: "g \<in> lk_back L \<Longrightarrow> arrives g g' \<Longrightarrow> snd_step env (Op_Segment g') (lk_sender L) = Some (out, s)
    \<Longrightarrow> lstep ccsds contents L (sender_did out s L)"
| receiver_gets: "g \<in> lk_forth L \<Longrightarrow> arrives g g' \<Longrightarrow> process_segment_for_receiver renv g' (lk_receiver L) = Some (rout, r)
    \<Longrightarrow> lstep ccsds contents L (receiver_did (snd (seg_key g')) rout r L)"
| report_timer: "report_seg_timeout retry serial (lk_engine L, ses) (lk_receiver L) = (rout, r)
    \<Longrightarrow> lstep ccsds contents L (receiver_did ses rout r L)"
| cancel_timer: "cancel_seg_timeout retry (lk_engine L, ses) (lk_receiver L) = (rout, r)
    \<Longrightarrow> lstep ccsds contents L (receiver_did ses rout r L)"
| inactivity_timer: "inactivity_timer_triggered (lk_engine L, ses) (lk_receiver L) = (rout, r)
    \<Longrightarrow> lstep ccsds contents L (receiver_did ses rout r L)"
| closeout_timer: "lstep ccsds contents L (closeout_did ses L)"

definition link_init :: "ltp_sender \<Rightarrow> ltp_link" where
  "link_init s = \<lparr>lk_sender = s, lk_receiver = \<lparr>incoming_sessions = (\<lambda>_. None), closed_session_map = (\<lambda>_. None)\<rparr>,
     lk_forth = {}, lk_back = {}, lk_events = [], lk_cut = (\<lambda>_. None), lk_posted = {}, lk_forgot = {}\<rparr>"

inductive lreach :: "bool \<Rightarrow> (nat \<Rightarrow> ltp_bundle) \<Rightarrow> ltp_link \<Rightarrow> ltp_link \<Rightarrow> bool" for ccsds contents L0 where
  start: "lreach ccsds contents L0 L0"
| step: "lreach ccsds contents L0 L \<Longrightarrow> lstep ccsds contents L L' \<Longrightarrow> lreach ccsds contents L0 L'"

section \<open>The invariant of the link\<close>

text \<open>The block of the session was handed over, or the session was forgotten.\<close>

definition settled_at :: "ltp_link \<Rightarrow> u64 \<Rightarrow> bool" where
  "settled_at L ses \<longleftrightarrow> (\<exists>p. (ses, p) \<in> lk_posted L) \<or> ses \<in> lk_forgot L"

definition has_cancelled :: "ltp_link \<Rightarrow> u64 \<Rightarrow> bool" where
  "has_cancelled L ses \<longleftrightarrow> (\<exists>c. Seg_CS c \<in> lk_back L \<and> session_id c = ses)"

definition live_session :: "ltp_link \<Rightarrow> u64 \<Rightarrow> snd_session \<Rightarrow> bool" where
  "live_session L ses x \<longleftrightarrow> find_session ses (lk_sender L) = Some x \<and> ss_state x \<noteq> STATE_CS"

text \<open>A session that was cut: the receiver, the reports and the sender agree on the bytes that may be claimed.\<close>

definition agree :: "bytes \<Rightarrow> nat list \<Rightarrow> ltp_data_segment list \<Rightarrow> u64 \<Rightarrow> ltp_link \<Rightarrow> bool" where
  "agree blk bs cuts ses L \<longleftrightarrow>
     (\<exists>G. rcv_inv blk cuts (lk_engine L, ses) G (settled_at L ses) (has_cancelled L ses) (lk_receiver L)
        \<and> (\<forall>q. Seg_RS q \<in> lk_back L \<longrightarrow> session_id q = ses \<longrightarrow> true_report G q)
        \<and> (\<forall>x. live_session L ses x \<longrightarrow> snd_inv blk cuts (lk_engine L, ses) G (ss_sess x) \<and> set (ss_bundles x) \<subseteq> set bs))"

definition sound_cut :: "bytes \<Rightarrow> ltp_data_segment list \<Rightarrow> session_key \<Rightarrow> bool" where
  "sound_cut blk cuts key \<longleftrightarrow> blk \<noteq> [] \<and> length blk < 2 ^ 56 \<and> (\<forall>c \<in> set cuts. piece blk c) \<and> same_cuts cuts
     \<and> fits 8 (fst key) \<and> fits 8 (snd key)"

definition cut_ok :: "bytes \<Rightarrow> nat list \<Rightarrow> ltp_data_segment list \<Rightarrow> u64 \<Rightarrow> ltp_link \<Rightarrow> bool" where
  "cut_ok blk bs cuts ses L \<longleftrightarrow> sound_cut blk cuts (lk_engine L, ses) \<and> agree blk bs cuts ses L
     \<and> (\<forall>d. Seg_DS d \<in> lk_forth L \<longrightarrow> session_id d = ses \<longrightarrow> cut_of cuts (lk_engine L, ses) d)
     \<and> (\<forall>segs n m. (ses, segs, n, m) \<in> lk_posted L \<longrightarrow> concat (map (payload \<circ> snd) segs) = blk)
     \<and> ses \<le> eng_session_id (snd_engine (lk_sender L))"

text \<open>A session that was not cut: the other side has not heard of it.\<close>

definition unknown :: "u64 \<Rightarrow> ltp_link \<Rightarrow> bool" where
  "unknown ses L \<longleftrightarrow> incoming_sessions (lk_receiver L) (lk_engine L, ses) = None \<and> closed_session_map (lk_receiver L) ses = None
     \<and> (\<forall>d. Seg_DS d \<in> lk_forth L \<longrightarrow> session_id d \<noteq> ses) \<and> (\<forall>q. Seg_RS q \<in> lk_back L \<longrightarrow> session_id q \<noteq> ses)
     \<and> \<not> has_cancelled L ses \<and> \<not> settled_at L ses \<and> (\<forall>x. live_session L ses x \<longrightarrow> uncut (lk_sender L) ses x)"

text \<open>Names on the network, and what cancel segments and their acknowledgements say.\<close>

definition names_ok :: "ltp_link \<Rightarrow> bool" where
  "names_ok L \<longleftrightarrow>
     (\<forall>g \<in> lk_forth L \<union> lk_back L. fst (seg_key g) = lk_engine L \<and> snd (seg_key g) \<le> eng_session_id (snd_engine (lk_sender L)))
     \<and> (\<forall>a. Seg_CAS a \<in> lk_forth L \<longrightarrow> has_cancelled L (session_id a))
     \<and> (\<forall>c. Seg_CS c \<in> lk_forth L \<longrightarrow> (\<forall>x. \<not> live_session L (session_id c) x))
     \<and> (\<forall>a. Seg_CAS a \<in> lk_back L \<longrightarrow> (\<forall>x. \<not> live_session L (session_id a) x))
     \<and> (\<forall>q. Seg_RS q \<notin> lk_forth L) \<and> (\<forall>g \<in> lk_back L. reply True g)"

definition linv :: "bool \<Rightarrow> (nat \<Rightarrow> ltp_bundle) \<Rightarrow> ltp_link \<Rightarrow> bool" where
  "linv ccsds contents L \<longleftrightarrow> snd_ok (lk_sender L) \<and> rcv_named (lk_receiver L) \<and> names_ok L
     \<and> (\<forall>ses. case lk_cut L ses of
          Some (bs, cuts) \<Rightarrow> cut_ok (session_block ccsds (map contents bs)) bs cuts ses L
        | None \<Rightarrow> unknown ses L)
     \<and> (\<forall>b. Transmitted b True \<in> set (lk_events L) \<longrightarrow>
          (\<exists>ses bs cuts. lk_cut L ses = Some (bs, cuts) \<and> b \<in> set bs \<and> settled_at L ses))"

lemma linvD:
  assumes "linv ccsds contents L"
  shows "snd_ok (lk_sender L)" "rcv_named (lk_receiver L)" "names_ok L"
    "lk_cut L ses = Some (bs, cuts) \<Longrightarrow> cut_ok (session_block ccsds (map contents bs)) bs cuts ses L"
    "lk_cut L ses = None \<Longrightarrow> unknown ses L"
    "Transmitted b True \<in> set (lk_events L) \<Longrightarrow> \<exists>ses bs cuts. lk_cut L ses = Some (bs, cuts) \<and> b \<in> set bs \<and> settled_at L ses"
proof -
  have "case lk_cut L ses of Some (bs, cuts) \<Rightarrow> cut_ok (session_block ccsds (map contents bs)) bs cuts ses L | None \<Rightarrow> unknown ses L"
    using assms unfolding linv_def by blast
  then show "lk_cut L ses = Some (bs, cuts) \<Longrightarrow> cut_ok (session_block ccsds (map contents bs)) bs cuts ses L"
    "lk_cut L ses = None \<Longrightarrow> unknown ses L" by simp_all
qed (use assms in \<open>unfold linv_def, blast+\<close>)

lemma linvI:
  assumes "snd_ok (lk_sender L)" "rcv_named (lk_receiver L)" "names_ok L"
    "\<And>ses bs cuts. lk_cut L ses = Some (bs, cuts) \<Longrightarrow> cut_ok (session_block ccsds (map contents bs)) bs cuts ses L"
    "\<And>ses. lk_cut L ses = None \<Longrightarrow> unknown ses L"
    "\<And>b. Transmitted b True \<in> set (lk_events L) \<Longrightarrow> \<exists>ses bs cuts. lk_cut L ses = Some (bs, cuts) \<and> b \<in> set bs \<and> settled_at L ses"
  shows "linv ccsds contents L"
  unfolding linv_def using assms by (auto split: option.split)

lemma names_okD:
  assumes "names_ok L"
  shows "g \<in> lk_forth L \<or> g \<in> lk_back L \<Longrightarrow> fst (seg_key g) = lk_engine L \<and> snd (seg_key g) \<le> eng_session_id (snd_engine (lk_sender L))"
    "Seg_CAS a \<in> lk_forth L \<Longrightarrow> has_cancelled L (session_id a)"
    "Seg_CS c \<in> lk_forth L \<Longrightarrow> \<not> live_session L (session_id c) x"
    "Seg_CAS a \<in> lk_back L \<Longrightarrow> \<not> live_session L (session_id a) x"
    "Seg_RS q \<notin> lk_forth L" "g \<in> lk_back L \<Longrightarrow> reply True g"
  using assms unfolding names_ok_def by blast+

lemma cut_not_uncut: "snd_inv blk cuts key G (ss_sess x) \<Longrightarrow> \<not> uncut s ses x"
  by (auto simp: snd_inv_def uncut_def session_init_def)

text \<open>A segment that the sender holds belongs to a session that was cut.\<close>

lemma held_segment:
  assumes "linv ccsds contents L" and "find_session j (lk_sender L) = Some x" and "om_find (red_segments (ss_sess x)) k = Some d"
  shows "\<exists>bs cuts. lk_cut L j = Some (bs, cuts) \<and> cut_of cuts (lk_engine L, j) d"
proof -
  note I = linvD [OF assms(1)]
  have "red_segments (ss_sess x) \<noteq> []" using assms(3) by (auto simp: om_find_def)
  then have live: "live_session L j x"
    using assms(2) table_okD(1) [OF snd_okD(1) [OF I(1)] assms(2)] by (auto simp: live_session_def session_ok_def)
  show ?thesis
  proof (cases "lk_cut L j")
    case None
    then have "uncut (lk_sender L) j x" using I(5) [OF None] live by (simp add: unknown_def)
    then show ?thesis using assms(3) by (auto simp: uncut_def session_init_def om_find_def)
  next
    case (Some p)
    then obtain bs cuts where c: "lk_cut L j = Some (bs, cuts)" by (cases p) simp
    then obtain blk G where "snd_inv blk cuts (lk_engine L, j) G (ss_sess x)"
      using I(4) [OF c] live by (auto simp: cut_ok_def agree_def)
    then show ?thesis using c om_find_SomeD [OF assms(3)] by (auto simp: snd_inv_def)
  qed
qed

lemma sender_did_simps [simp]:
  "lk_sender (sender_did out s L) = s" "lk_receiver (sender_did out s L) = lk_receiver L" "lk_back (sender_did out s L) = lk_back L"
  "lk_cut (sender_did out s L) = lk_cut L" "lk_posted (sender_did out s L) = lk_posted L" "lk_forgot (sender_did out s L) = lk_forgot L" "lk_events (sender_did out s L) = lk_events L @ out"
  "settled_at (sender_did out s L) ses = settled_at L ses" "has_cancelled (sender_did out s L) ses = has_cancelled L ses"
  by (simp_all add: sender_did_def settled_at_def has_cancelled_def)

lemma sender_forth:
  "g \<in> lk_forth (sender_did out s L) \<longleftrightarrow> g \<in> lk_forth L \<or> Snd g \<in> set out \<or> (\<exists>d. g = Seg_DS d \<and> Wire d \<in> set out)"
  by (auto simp: sender_did_def)

text \<open>What a quiet step leaves: the live sessions were live before, or they are new.\<close>

lemma live_before:
  assumes "keeps (lk_sender L) s" and "live_session (sender_did out s L) ses y"
  shows "(\<exists>x. live_session L ses x \<and> requeued (ss_sess x) (ss_sess y) \<and> (ss_bundles y = ss_bundles x \<or> uncut (lk_sender L) ses x))
    \<or> eng_session_id (snd_engine (lk_sender L)) < ses \<and> uncut (lk_sender L) ses y"
  using keepsD(3) [OF assms(1), of ses y] assms(2) by (auto simp: live_session_def)

lemma sends_only_kinds:
  assumes "sends_only back s out s'"
  shows "Snd (Seg_DS d) \<notin> set out" "Snd (Seg_RS q) \<notin> set out"
proof -
  have "may_send back s' g" if "Snd g \<in> set out" for g using assms that unfolding sends_only_def by blast
  from this [of "Seg_DS d"] this [of "Seg_RS q"] show "Snd (Seg_DS d) \<notin> set out" "Snd (Seg_RS q) \<notin> set out" by (auto simp: may_send_def)
qed

lemma sender_names:
  assumes "linv ccsds contents L" and "sends_only (lk_back L) (lk_sender L) out s"
    and K: "local_engine_id (snd_engine s) = lk_engine L" "eng_session_id (snd_engine (lk_sender L)) \<le> eng_session_id (snd_engine s)"
    and live: "\<And>ses y. live_session (sender_did out s L) ses y \<Longrightarrow>
      (\<exists>x. live_session L ses x) \<or> eng_session_id (snd_engine (lk_sender L)) < ses"
  shows "names_ok (sender_did out s L)"
proof -
  note N = names_okD [OF linvD(3) [OF assms(1)]]
  let ?L = "sender_did out s L" and ?i = "eng_session_id (snd_engine (lk_sender L))"
  have send: "may_send (lk_back L) s g" if "Snd g \<in> set out" for g using assms(2) that unfolding sends_only_def by blast
  have wire: "\<exists>j bs cuts. lk_cut L j = Some (bs, cuts) \<and> cut_of cuts (lk_engine L, j) d" if "Wire d \<in> set out" for d
    using assms(2) that held_segment [OF assms(1)] unfolding sends_only_def by blast
  have old: "\<not> live_session ?L ses y" if "\<And>x. \<not> live_session L ses x" "ses \<le> ?i" for ses y
    using live that leD by blast
  have "fst (seg_key g) = lk_engine ?L \<and> snd (seg_key g) \<le> eng_session_id (snd_engine s)" if mem: "g \<in> lk_forth ?L \<or> g \<in> lk_back ?L" for g
  proof -
    consider "g \<in> lk_forth L \<or> g \<in> lk_back L" | "Snd g \<in> set out" | d where "g = Seg_DS d" "Wire d \<in> set out"
      using mem by (auto simp: sender_forth)
    then show ?thesis
    proof cases
      case 1
      then show ?thesis using N(1) [OF 1] K(1,2) by (auto intro: order.trans)
    next
      case 2
      then show ?thesis using send [OF 2] by (simp add: may_send_def)
    next
      case 3
      obtain j bs cuts where c: "lk_cut L j = Some (bs, cuts)" "cut_of cuts (lk_engine L, j) d" using wire [OF 3(2)] by blast
      have "j \<le> ?i" using linvD(4) [OF assms(1) c(1)] by (simp add: cut_ok_def)
      then show ?thesis using c(2) 3(1) K(1,2) by (auto simp: cut_of_def seg_key_def intro: order.trans)
    qed
  qed
  moreover have "has_cancelled ?L (session_id a)" if "Seg_CAS a \<in> lk_forth ?L" for a
    using that N(2) [of a] send [of "Seg_CAS a"] by (auto simp: sender_forth may_send_def has_cancelled_def)
  moreover have "\<not> live_session ?L (session_id c) x" if "Seg_CS c \<in> lk_forth ?L" for c x
  proof -
    have "Seg_CS c \<in> lk_forth L \<or> Snd (Seg_CS c) \<in> set out" using that by (auto simp: sender_forth)
    then show ?thesis
    proof
      assume c: "Seg_CS c \<in> lk_forth L"
      have "session_id c \<le> ?i" using N(1) [of "Seg_CS c"] c by (simp add: seg_key_def)
      then show ?thesis by (rule old [OF N(3) [OF c]])
    next
      assume "Snd (Seg_CS c) \<in> set out"
      from send [OF this] show ?thesis by (auto simp: may_send_def live_session_def)
    qed
  qed
  moreover have "\<not> live_session ?L (session_id a) x" if "Seg_CAS a \<in> lk_back ?L" for a x
  proof -
    have a: "Seg_CAS a \<in> lk_back L" using that by simp
    have "session_id a \<le> ?i" using N(1) [of "Seg_CAS a"] a by (simp add: seg_key_def)
    then show ?thesis by (rule old [OF N(4) [OF a]])
  qed
  moreover have "Seg_RS q \<notin> lk_forth ?L" for q using N(5) sends_only_kinds [OF assms(2)] by (auto simp: sender_forth)
  ultimately show ?thesis unfolding names_ok_def using N(6) by simp
qed

lemma quiet_names:
  assumes "linv ccsds contents L" and "keeps (lk_sender L) s" and "sends_only (lk_back L) (lk_sender L) out s"
  shows "names_ok (sender_did out s L)"
  by (rule sender_names [OF assms(1,3) keepsD(1,2) [OF assms(2)]]) (use live_before [OF assms(2)] in blast)

text \<open>A session that was cut stays as it is, unless something is said about it.\<close>

lemma quiet_cut:
  assumes "linv ccsds contents L" and "keeps (lk_sender L) s" and "sends_only (lk_back L) (lk_sender L) out s" and "lk_cut L ses = Some (bs, cuts)"
  shows "cut_ok (session_block ccsds (map contents bs)) bs cuts ses (sender_did out s L)"
proof -
  let ?L = "sender_did out s L" and ?blk = "session_block ccsds (map contents bs)"
  note C = linvD(4) [OF assms(1,4)] and K = keepsD [OF assms(2)]
  have ses: "ses \<le> eng_session_id (snd_engine (lk_sender L))" using C by (simp add: cut_ok_def)
  obtain G where G: "rcv_inv ?blk cuts (lk_engine L, ses) G (settled_at L ses) (has_cancelled L ses) (lk_receiver L)"
      "\<forall>q. Seg_RS q \<in> lk_back L \<longrightarrow> session_id q = ses \<longrightarrow> true_report G q"
      "\<And>x. live_session L ses x \<Longrightarrow> snd_inv ?blk cuts (lk_engine L, ses) G (ss_sess x) \<and> set (ss_bundles x) \<subseteq> set bs"
    using C unfolding cut_ok_def agree_def by blast
  have "snd_inv ?blk cuts (lk_engine L, ses) G (ss_sess y) \<and> set (ss_bundles y) \<subseteq> set bs" if y: "live_session ?L ses y" for y
  proof -
    obtain x where x: "live_session L ses x" "requeued (ss_sess x) (ss_sess y)" "ss_bundles y = ss_bundles x \<or> uncut (lk_sender L) ses x"
      using live_before [OF assms(2) y] ses leD by blast
    note S = G(3) [OF x(1)]
    then have "ss_bundles y = ss_bundles x" using x(3) cut_not_uncut by blast
    then show ?thesis using S requeued_inv [OF x(2)] by auto
  qed
  then have "agree ?blk bs cuts ses ?L" unfolding agree_def using G(1,2) K(1) by auto
  moreover have "cut_of cuts (lk_engine L, ses) d" if d: "Seg_DS d \<in> lk_forth ?L" "session_id d = ses" for d
  proof -
    have "Seg_DS d \<in> lk_forth L \<or> Wire d \<in> set out" using d(1) sends_only_kinds [OF assms(3)] by (auto simp: sender_forth)
    then show ?thesis
    proof
      assume "Wire d \<in> set out"
      then obtain j x k where "find_session j (lk_sender L) = Some x" "om_find (red_segments (ss_sess x)) k = Some d"
        using assms(3) unfolding sends_only_def by blast
      from held_segment [OF assms(1) this] show ?thesis using d(2) assms(4) by (auto simp: cut_of_def)
    qed (use C d(2) in \<open>auto simp: cut_ok_def\<close>)
  qed
  moreover have "ses \<le> eng_session_id (snd_engine s)" using ses K(2) by (rule order.trans)
  ultimately show ?thesis using C K(1) unfolding cut_ok_def by auto
qed

lemma quiet_unknown:
  assumes "linv ccsds contents L" and "keeps (lk_sender L) s" and "sends_only (lk_back L) (lk_sender L) out s" and "lk_cut L ses = None"
  shows "unknown ses (sender_did out s L)"
proof -
  note U = linvD(5) [OF assms(1,4)] and K = keepsD [OF assms(2)]
  have u: "uncut s j x = uncut (lk_sender L) j x" for j x by (rule uncut_engine [OF K(1)])
  have "uncut s ses y" if y: "live_session (sender_did out s L) ses y" for y
    using live_before [OF assms(2) y]
  proof
    assume "\<exists>x. live_session L ses x \<and> requeued (ss_sess x) (ss_sess y) \<and> (ss_bundles y = ss_bundles x \<or> uncut (lk_sender L) ses x)"
    then obtain x where x: "live_session L ses x" "requeued (ss_sess x) (ss_sess y)" by blast
    have "uncut (lk_sender L) ses x" using U x(1) by (simp add: unknown_def)
    then show ?thesis using uncut_requeued [OF _ x(2)] u by (auto simp: uncut_def)
  qed (simp add: u)
  moreover have "session_id d \<noteq> ses" if d: "Seg_DS d \<in> lk_forth (sender_did out s L)" for d
  proof -
    have "Seg_DS d \<in> lk_forth L \<or> Wire d \<in> set out" using d sends_only_kinds [OF assms(3)] by (auto simp: sender_forth)
    then show ?thesis
    proof
      assume "Wire d \<in> set out"
      then obtain j x k where "find_session j (lk_sender L) = Some x" "om_find (red_segments (ss_sess x)) k = Some d"
        using assms(3) unfolding sends_only_def by blast
      from held_segment [OF assms(1) this] show ?thesis using assms(4) by (auto simp: cut_of_def)
    qed (use U in \<open>auto simp: unknown_def\<close>)
  qed
  ultimately show ?thesis using U K(1) unfolding unknown_def by auto
qed

lemma quiet_linv:
  assumes "linv ccsds contents L" and "quiet_step (lk_back L) (lk_sender L) out s" and "snd_ok s"
  shows "linv ccsds contents (sender_did out s L)"
proof -
  have q: "keeps (lk_sender L) s" "sends_only (lk_back L) (lk_sender L) out s" "\<And>b. Transmitted b True \<notin> set out"
    using assms(2) by (auto simp: quiet_step_def)
  show ?thesis
    by (rule linvI) (use assms(3) linvD(2,6) [OF assms(1)] quiet_names [OF assms(1) q(1,2)] quiet_cut [OF assms(1) q(1,2)]
        quiet_unknown [OF assms(1) q(1,2)] q(3) in auto)
qed

section \<open>Steps of the receiver\<close>

text \<open>Nothing has happened to a session.\<close>

definition same_at :: "u64 \<Rightarrow> ltp_link \<Rightarrow> ltp_link \<Rightarrow> bool" where
  "same_at j L L' \<longleftrightarrow> lk_engine L' = lk_engine L
     \<and> eng_session_id (snd_engine (lk_sender L)) \<le> eng_session_id (snd_engine (lk_sender L'))
     \<and> incoming_sessions (lk_receiver L') (lk_engine L, j) = incoming_sessions (lk_receiver L) (lk_engine L, j)
     \<and> closed_session_map (lk_receiver L') j = closed_session_map (lk_receiver L) j
     \<and> (\<forall>d. session_id d = j \<longrightarrow> (Seg_DS d \<in> lk_forth L' \<longleftrightarrow> Seg_DS d \<in> lk_forth L))
     \<and> (\<forall>q. session_id q = j \<longrightarrow> (Seg_RS q \<in> lk_back L' \<longleftrightarrow> Seg_RS q \<in> lk_back L))
     \<and> has_cancelled L' j = has_cancelled L j \<and> (\<forall>p. (j, p) \<in> lk_posted L' \<longleftrightarrow> (j, p) \<in> lk_posted L) \<and> (j \<in> lk_forgot L' \<longleftrightarrow> j \<in> lk_forgot L)
     \<and> (\<forall>x. live_session L' j x \<longleftrightarrow> live_session L j x)"

lemma snd_inv_mono: "snd_inv blk cuts key G s \<Longrightarrow> G \<subseteq> G' \<Longrightarrow> snd_inv blk cuts key G' s"
  by (auto simp: snd_inv_def)

lemma rcv_inv_frame:
  assumes "incoming_sessions r' key = incoming_sessions r key" and "closed_session_map r' (snd key) = closed_session_map r (snd key)"
  shows "rcv_inv blk cuts key G posted cancels r' = rcv_inv blk cuts key G posted cancels r"
  by (simp add: rcv_inv_def assms)

lemma frame_cut:
  assumes "same_at j L L'" and "cut_ok blk bs cuts j L"
  shows "cut_ok blk bs cuts j L'"
proof -
  have S: "lk_engine L' = lk_engine L" "eng_session_id (snd_engine (lk_sender L)) \<le> eng_session_id (snd_engine (lk_sender L'))"
      "has_cancelled L' j = has_cancelled L j" "settled_at L' j = settled_at L j"
    using assms(1) by (simp_all add: same_at_def settled_at_def)
  have r: "rcv_inv blk cuts (lk_engine L, j) G p c (lk_receiver L') = rcv_inv blk cuts (lk_engine L, j) G p c (lk_receiver L)" for G p c
    by (rule rcv_inv_frame) (use assms(1) in \<open>simp_all add: same_at_def\<close>)
  have "agree blk bs cuts j L'" using assms unfolding cut_ok_def agree_def S r same_at_def by metis
  then show ?thesis using assms S(1,2) unfolding cut_ok_def same_at_def by (auto intro: order.trans)
qed

lemma frame_unknown:
  assumes "same_at j L L'" and "unknown j L"
  shows "unknown j L'"
proof -
  have "uncut (lk_sender L') j x = uncut (lk_sender L) j x" for x
    by (rule uncut_engine) (use assms(1) in \<open>simp add: same_at_def\<close>)
  then show ?thesis using assms unfolding unknown_def same_at_def settled_at_def by (auto 0 3)
qed

lemma receiver_did_simps [simp]:
  "lk_sender (receiver_did ses out r L) = lk_sender L" "lk_receiver (receiver_did ses out r L) = r" "lk_forth (receiver_did ses out r L) = lk_forth L"
  "lk_cut (receiver_did ses out r L) = lk_cut L" "lk_forgot (receiver_did ses out r L) = lk_forgot L" "lk_events (receiver_did ses out r L) = lk_events L"
  "live_session (receiver_did ses out r L) = live_session L"
  by (auto simp: receiver_did_def live_session_def fun_eq_iff)

lemma receiver_back: "g \<in> lk_back (receiver_did ses out r L) \<longleftrightarrow> g \<in> lk_back L \<or> Send g \<in> set out"
  by (auto simp: receiver_did_def)

lemma receiver_posted: "(j, p) \<in> lk_posted (receiver_did ses out r L) \<longleftrightarrow> (j, p) \<in> lk_posted L \<or> j = ses \<and> p \<in> posts out"
  by (auto simp: receiver_did_def)

lemma answersD:
  assumes "answers ack (eng, ses) out" and "Send g \<in> set out"
  shows "seg_key g = (eng, ses)" "reply ack g"
  using assms by (auto simp: answers_def)

lemma receiver_cancelled:
  assumes "answers ack (eng, ses) out"
  shows "has_cancelled (receiver_did ses out r L) j \<longleftrightarrow> has_cancelled L j \<or> j = ses \<and> cancels_in out"
proof -
  have "session_id c = ses" if "Send (Seg_CS c) \<in> set out" for c using answersD(1) [OF assms that] by (simp add: seg_key_def)
  then show ?thesis by (auto simp: has_cancelled_def receiver_back cancels_in_def)
qed

lemma receiver_same_at:
  assumes "local_step ack (lk_engine L, ses) (lk_receiver L) out r" and "j \<noteq> ses"
  shows "same_at j L (receiver_did ses out r L)"
proof -
  have a: "answers ack (lk_engine L, ses) out" using assms(1) by (simp add: local_step_def)
  have "session_id q = ses" if "Send (Seg_RS q) \<in> set out" for q using answersD(1) [OF a that] by (simp add: seg_key_def)
  then show ?thesis using assms receiver_cancelled [OF a]
    by (auto simp: same_at_def local_step_def receiver_back receiver_posted)
qed

lemma receiver_names:
  assumes "names_ok L" and "local_step ack (lk_engine L, ses) (lk_receiver L) out r" and "ses \<le> eng_session_id (snd_engine (lk_sender L))"
    and "ack \<Longrightarrow> \<forall>x. \<not> live_session L ses x"
  shows "names_ok (receiver_did ses out r L)"
proof -
  note N = names_okD [OF assms(1)]
  have a: "answers ack (lk_engine L, ses) out" using assms(2) by (simp add: local_step_def)
  note A = answersD [OF a]
  have "\<not> live_session L (session_id c) x" if "Send (Seg_CAS c) \<in> set out" for c x
    using A [OF that] assms(4) by (simp add: seg_key_def)
  moreover have "reply True g" if "Send g \<in> set out" for g using A(2) [OF that] by (auto simp: reply_def split: any_segment.splits)
  moreover have "fst (seg_key g) = lk_engine L \<and> snd (seg_key g) \<le> eng_session_id (snd_engine (lk_sender L))" if "Send g \<in> set out" for g
    using A(1) [OF that] assms(3) by simp
  ultimately show ?thesis using N receiver_cancelled [OF a] unfolding names_ok_def by (auto simp: receiver_back)
qed

text \<open>A step of the receiver for one session.\<close>

lemma receiver_linv:
  assumes inv: "linv ccsds contents L" and loc: "local_step ack (lk_engine L, ses) (lk_receiver L) out r"
    and ses: "ses \<le> eng_session_id (snd_engine (lk_sender L))" and ack: "ack \<Longrightarrow> \<forall>x. \<not> live_session L ses x"
    and good: "\<And>bs cuts G. lk_cut L ses = Some (bs, cuts) \<Longrightarrow>
      rcv_inv (session_block ccsds (map contents bs)) cuts (lk_engine L, ses) G (settled_at L ses) (has_cancelled L ses) (lk_receiver L) \<Longrightarrow>
      rcv_good (session_block ccsds (map contents bs)) cuts (lk_engine L, ses) G (settled_at L ses) (has_cancelled L ses) out r"
    and quiet: "lk_cut L ses = None \<Longrightarrow> r = lk_receiver L \<and> posts out = {} \<and> \<not> cancels_in out \<and> (\<forall>q. Send (Seg_RS q) \<notin> set out)"
  shows "linv ccsds contents (receiver_did ses out r L)"
proof -
  let ?L = "receiver_did ses out r L"
  note I = linvD [OF inv]
  have a: "answers ack (lk_engine L, ses) out" and n: "rcv_named r" using loc by (simp_all add: local_step_def)
  have posted: "settled_at ?L ses \<longleftrightarrow> settled_at L ses \<or> posts out \<noteq> {}" by (auto simp: settled_at_def receiver_posted)
  have keep: "settled_at ?L j" if "settled_at L j" for j using that by (auto simp: settled_at_def receiver_posted)
  have cut: "cut_ok (session_block ccsds (map contents bs)) bs cuts ses ?L" if c: "lk_cut L ses = Some (bs, cuts)" for bs cuts
  proof -
    let ?blk = "session_block ccsds (map contents bs)"
    note C = I(4) [OF c]
    obtain G where G: "rcv_inv ?blk cuts (lk_engine L, ses) G (settled_at L ses) (has_cancelled L ses) (lk_receiver L)"
        "\<forall>q. Seg_RS q \<in> lk_back L \<longrightarrow> session_id q = ses \<longrightarrow> true_report G q"
        "\<forall>x. live_session L ses x \<longrightarrow> snd_inv ?blk cuts (lk_engine L, ses) G (ss_sess x) \<and> set (ss_bundles x) \<subseteq> set bs"
      using C unfolding cut_ok_def agree_def by blast
    obtain G' where G': "G \<subseteq> G'"
        "rcv_inv ?blk cuts (lk_engine L, ses) G' (settled_at L ses \<or> posts out \<noteq> {}) (has_cancelled L ses \<or> cancels_in out) r"
        "\<forall>q. Send (Seg_RS q) \<in> set out \<longrightarrow> true_report G' q"
        "\<forall>(segs, n, multi) \<in> posts out. concat (map (payload \<circ> snd) segs) = ?blk \<and> n = of_nat (length ?blk)"
      using good [OF c G(1)] unfolding rcv_good_def by blast
    have "\<forall>q. Seg_RS q \<in> lk_back ?L \<longrightarrow> session_id q = ses \<longrightarrow> true_report G' q"
      using G(2) G'(1,3) true_report_mono by (auto simp: receiver_back)
    moreover have "\<forall>x. live_session ?L ses x \<longrightarrow> snd_inv ?blk cuts (lk_engine L, ses) G' (ss_sess x) \<and> set (ss_bundles x) \<subseteq> set bs"
      using G(3) snd_inv_mono [OF _ G'(1)] by simp
    ultimately have "agree ?blk bs cuts ses ?L"
      unfolding agree_def using G'(2) posted receiver_cancelled [OF a, of r L ses] by (intro exI [of _ G']) simp
    moreover have "concat (map (payload \<circ> snd) segs) = ?blk" if "(ses, segs, n, m) \<in> lk_posted ?L" for segs n m
      using that C G'(4) unfolding cut_ok_def receiver_posted by blast
    ultimately show ?thesis using C unfolding cut_ok_def by simp
  qed
  show ?thesis
  proof (rule linvI)
    show "cut_ok (session_block ccsds (map contents bs)) bs cuts j ?L" if "lk_cut ?L j = Some (bs, cuts)" for j bs cuts
      using that cut I(4) frame_cut [OF receiver_same_at [OF loc]] by (cases "j = ses") auto
    show "unknown j ?L" if "lk_cut ?L j = None" for j
    proof (cases "j = ses")
      case True
      then have q: "r = lk_receiver L" "posts out = {}" "\<not> cancels_in out" "\<forall>q. Send (Seg_RS q) \<notin> set out" using quiet that by simp_all
      have "same_at j L ?L" using q receiver_cancelled [OF a, of r L j] by (auto simp: same_at_def receiver_back receiver_posted)
      then show ?thesis using I(5) that frame_unknown by simp
    qed (use that I(5) frame_unknown [OF receiver_same_at [OF loc]] in auto)
    show "\<exists>j bs cuts. lk_cut ?L j = Some (bs, cuts) \<and> b \<in> set bs \<and> settled_at ?L j" if "Transmitted b True \<in> set (lk_events ?L)" for b
      using that I(6) keep by simp blast
  qed (use I(1,3) n receiver_names [OF I(3) loc ses ack] in simp_all)
qed

lemma unknown_segment:
  assumes "incoming_sessions r (seg_key seg) = None" and "closed_session_map r (snd (seg_key seg)) = None" and "\<And>d. seg \<noteq> Seg_DS d"
    and "process_segment_for_receiver env seg r = Some (out, r')"
  shows "r' = r \<and> posts out = {} \<and> \<not> cancels_in out \<and> (\<forall>q. Send (Seg_RS q) \<notin> set out)"
  using assms by (cases seg) (auto simp: process_segment_for_receiver_def find_incoming_session_def build_CAS_for_CSS_def split: if_splits)

lemma arrives_key: "arrives g g' \<Longrightarrow> (\<And>q. g \<noteq> Seg_RS q) \<Longrightarrow> seg_key g' = seg_key g"
  by (induction g g' rule: arrives.induct) (auto simp: seg_key_def intact_def)

lemma receiver_gets_linv:
  assumes inv: "linv ccsds contents L" and g: "g \<in> lk_forth L" "arrives g g'"
    and step: "process_segment_for_receiver env g' (lk_receiver L) = Some (out, r)"
  shows "linv ccsds contents (receiver_did (snd (seg_key g')) out r L)"
proof -
  note I = linvD [OF inv] and N = names_okD [OF linvD(3) [OF inv]]
  define ses where "ses = snd (seg_key g')"
  have nr: "g \<noteq> Seg_RS q" for q using g(1) N(5) by blast
  have key: "seg_key g' = (lk_engine L, ses)" "seg_key g = (lk_engine L, ses)" "ses \<le> eng_session_id (snd_engine (lk_sender L))"
    using N(1) [of g] g(1) arrives_key [OF g(2) nr] by (simp_all add: ses_def prod_eq_iff)
  have "linv ccsds contents (receiver_did ses out r L)"
  proof (rule receiver_linv [OF inv _ key(3)])
    show "local_step (is_cs g') (lk_engine L, ses) (lk_receiver L) out r" using segment_local [OF I(2) step] key(1) by simp
    show "\<forall>x. \<not> live_session L ses x" if cs: "is_cs g'"
    proof -
      obtain c where "g = Seg_CS c" using cs g(2) by (cases g; cases g') auto
      then show ?thesis using N(3) [of c] g(1) key(2) by (simp add: seg_key_def)
    qed
    show "rcv_good (session_block ccsds (map contents bs)) cuts (lk_engine L, ses) G (settled_at L ses) (has_cancelled L ses) out r"
      if c: "lk_cut L ses = Some (bs, cuts)"
        and G: "rcv_inv (session_block ccsds (map contents bs)) cuts (lk_engine L, ses) G (settled_at L ses) (has_cancelled L ses) (lk_receiver L)"
      for bs cuts G
    proof (cases g')
      case (Seg_DS d')
      then obtain d where d: "g = Seg_DS d" "intact d d'" using g(2) by (cases g) auto
      note C = I(4) [OF c]
      have S: "session_block ccsds (map contents bs) \<noteq> []" "\<forall>c \<in> set cuts. piece (session_block ccsds (map contents bs)) c" "same_cuts cuts"
          "fits 8 (fst (lk_engine L, ses))" "fits 8 (snd (lk_engine L, ses))"
        using C by (simp_all add: cut_ok_def sound_cut_def)
      have "cut_of cuts (lk_engine L, ses) d" using C g(1) d(1) key(2) by (simp add: cut_ok_def seg_key_def)
      note P = cut_piece [OF this S(2) d(2)]
      obtain c' where "c' \<in> set cuts" "seg_range c' = seg_range d'" using P(2) by blast
      then show ?thesis using rcv_data [OF G S(1) P(1) _ _ P(3,4) S(3-5)] step Seg_DS by blast
    next
      case (Seg_CAS a)
      then obtain a0 where a0: "g = Seg_CAS a0" using g(2) by (cases g) auto
      then have "has_cancelled L ses" using N(2) [of a0] g(1) key(2) by (simp add: seg_key_def)
      then show ?thesis using rcv_other [OF G key(1) _ step] Seg_CAS by simp
    next
      case (Seg_RS q)
      then show ?thesis using g(2) nr by (cases g) auto
    qed (use rcv_other [OF G key(1) _ step] g(2) in \<open>auto elim: arrives.elims\<close>)
    show "r = lk_receiver L \<and> posts out = {} \<and> \<not> cancels_in out \<and> (\<forall>q. Send (Seg_RS q) \<notin> set out)" if n: "lk_cut L ses = None"
    proof -
      note U = I(5) [OF n]
      have "g' \<noteq> Seg_DS d'" for d'
      proof
        assume "g' = Seg_DS d'"
        then obtain d where "g = Seg_DS d" using g(2) by (cases g) auto
        then show False using U g(1) key(2) by (auto simp: unknown_def seg_key_def)
      qed
      then show ?thesis using unknown_segment [OF _ _ _ step] U key(1) by (simp add: unknown_def)
    qed
  qed
  then show ?thesis by (simp add: ses_def)
qed

lemma receiver_nothing [simp]: "receiver_did ses [] (lk_receiver L) L = L"
  by (simp add: receiver_did_def)

lemma timer_linv:
  assumes inv: "linv ccsds contents L"
    and loc: "local_step False (lk_engine L, ses) (lk_receiver L) out r"
    and good: "\<And>blk cuts G posted cancels. rcv_inv blk cuts (lk_engine L, ses) G posted cancels (lk_receiver L) \<Longrightarrow>
      rcv_good blk cuts (lk_engine L, ses) G posted cancels out r"
    and none: "incoming_sessions (lk_receiver L) (lk_engine L, ses) = None \<Longrightarrow> out = [] \<and> r = lk_receiver L"
  shows "linv ccsds contents (receiver_did ses out r L)"
proof (cases "lk_cut L ses")
  case None
  then have "out = [] \<and> r = lk_receiver L" using linvD(5) [OF inv] none by (simp add: unknown_def)
  then show ?thesis using inv by simp
next
  case (Some p)
  then obtain bs cuts where "lk_cut L ses = Some (bs, cuts)" by (cases p) simp
  then have "ses \<le> eng_session_id (snd_engine (lk_sender L))" using linvD(4) [OF inv] by (simp add: cut_ok_def)
  from receiver_linv [OF inv loc this] show ?thesis using good Some by simp
qed

text \<open>
  The closeout timer. A session that was closed without a block becomes settled: from then on every byte may be
  claimed.
\<close>

lemma closeout_same_at:
  assumes "j \<noteq> ses"
  shows "same_at j L (closeout_did ses L)"
  using assms by (auto simp: closeout_did_def same_at_def closeout_timer_triggered_def has_cancelled_def live_session_def)

lemma closeout_agree:
  assumes "agree blk bs cuts ses L"
  shows "agree blk bs cuts ses (closeout_did ses L)"
proof -
  define L' where "L' = closeout_did ses L"
  obtain G where G: "rcv_inv blk cuts (lk_engine L, ses) G (settled_at L ses) (has_cancelled L ses) (lk_receiver L)"
      "\<forall>q. Seg_RS q \<in> lk_back L \<longrightarrow> session_id q = ses \<longrightarrow> true_report G q"
      "\<forall>x. live_session L ses x \<longrightarrow> snd_inv blk cuts (lk_engine L, ses) G (ss_sess x) \<and> set (ss_bundles x) \<subseteq> set bs"
    using assms(1) unfolding agree_def by blast
  note R = rcv_closeout [OF G(1)]
  have l: "live_session L' = live_session L" "has_cancelled L' = has_cancelled L" "lk_back L' = lk_back L" "lk_engine L' = lk_engine L"
    by (auto simp: L'_def closeout_did_def live_session_def has_cancelled_def fun_eq_iff)
  have r: "lk_receiver L' = closeout_timer_triggered ses (lk_receiver L)" by (simp add: L'_def closeout_did_def)
  have "agree blk bs cuts ses L'"
  proof (cases "closed_session_map (lk_receiver L) ses = None \<or> settled_at L ses")
    case True
    then have "settled_at L' ses = settled_at L ses" by (auto simp: L'_def closeout_did_def settled_at_def)
    then show ?thesis using G R(1) True unfolding agree_def l r by auto
  next
    case False
    then have s: "settled_at L' ses" by (auto simp: L'_def closeout_did_def settled_at_def)
    have sub: "G \<subseteq> all_bytes blk" by (rule rcv_invD(1) [OF G(1)])
    show ?thesis unfolding agree_def l r
      using s R(2) False G(2,3) true_report_mono [OF _ sub] snd_inv_mono [OF _ sub] by (intro exI [of _ "all_bytes blk"]) simp
  qed
  then show ?thesis by (simp add: L'_def)
qed

lemma closeout_linv:
  assumes inv: "linv ccsds contents L"
  shows "linv ccsds contents (closeout_did ses L)"
proof -
  define L' where "L' = closeout_did ses L"
  note I = linvD [OF inv]
  have l: "live_session L' = live_session L" "has_cancelled L' = has_cancelled L" "lk_sender L' = lk_sender L" "lk_back L' = lk_back L"
      "lk_forth L' = lk_forth L" "lk_cut L' = lk_cut L" "lk_events L' = lk_events L" "lk_posted L' = lk_posted L"
    by (auto simp: L'_def closeout_did_def live_session_def has_cancelled_def fun_eq_iff)
  have keep: "settled_at L' j" if "settled_at L j" for j using that by (auto simp: L'_def closeout_did_def settled_at_def)
  have other: "same_at j L L'" if "j \<noteq> ses" for j unfolding L'_def by (rule closeout_same_at [OF that])
  have "linv ccsds contents L'"
  proof (rule linvI)
    show "rcv_named (lk_receiver L')" using I(2) by (simp add: L'_def closeout_did_def rcv_named_def closeout_timer_triggered_def)
    show "names_ok L'" using I(3) by (simp add: names_ok_def l)
    show "cut_ok (session_block ccsds (map contents bs)) bs cuts j L'" if "lk_cut L' j = Some (bs, cuts)" for j bs cuts
    proof (cases "j = ses")
      case True
      note C = I(4) [of j bs cuts]
      then show ?thesis using that closeout_agree [of _ bs cuts ses L, folded L'_def] unfolding cut_ok_def l True by auto
    qed (use that l frame_cut [OF other I(4)] in simp)
    show "unknown j L'" if "lk_cut L' j = None" for j
    proof (cases "j = ses")
      case True
      have u: "unknown j L" using I(5) that l by simp
      then have "same_at j L L'" using l True by (simp add: same_at_def L'_def closeout_did_def unknown_def closeout_timer_triggered_def)
      then show ?thesis using u by (rule frame_unknown)
    qed (use that l frame_unknown [OF other I(5)] in simp)
    show "\<exists>j bs cuts. lk_cut L' j = Some (bs, cuts) \<and> b \<in> set bs \<and> settled_at L' j" if "Transmitted b True \<in> set (lk_events L')" for b
      using that I(6) keep l by metis
  qed (use I(1) l in simp)
  then show ?thesis by (simp add: L'_def)
qed

section \<open>Steps of the sender\<close>

lemma sender_same_at:
  assumes "find_session j s = find_session j (lk_sender L)" and "local_engine_id (snd_engine s) = lk_engine L"
    and "eng_session_id (snd_engine (lk_sender L)) \<le> eng_session_id (snd_engine s)"
    and "\<And>d. Wire d \<notin> set out" and "sends_only back (lk_sender L) out s"
  shows "same_at j L (sender_did out s L)"
proof -
  have "live_session (sender_did out s L) j x = live_session L j x" for x using assms(1) by (simp add: live_session_def)
  then show ?thesis using assms(2-4) sends_only_kinds(1) [OF assms(5)] by (auto simp: same_at_def sender_forth)
qed

lemma loading_unknown:
  assumes "linv ccsds contents L" and "loading_session (lk_sender L) = Some ses"
  shows "lk_cut L ses = None" and "\<exists>x. live_session L ses x"
proof -
  note I = linvD [OF assms(1)]
  obtain x where x: "find_session ses (lk_sender L) = Some x" using snd_okD(1) [OF I(1)] assms(2) by (auto simp: table_ok_def)
  have t: "ss_state x \<noteq> STATE_CS" "uncut (lk_sender L) ses x"
    using table_okD(1) [OF snd_okD(1) [OF I(1)] x] assms(2) by (simp_all add: session_ok_def uncut_def)
  then have live: "live_session L ses x" using x by (simp add: live_session_def)
  then show "\<exists>x. live_session L ses x" by blast
  show "lk_cut L ses = None"
  proof (rule ccontr)
    assume "lk_cut L ses \<noteq> None"
    then obtain bs cuts where "lk_cut L ses = Some (bs, cuts)" by auto
    from I(4) [OF this] show False using live t(2) cut_not_uncut unfolding cut_ok_def agree_def by blast
  qed
qed

lemma back_known:
  assumes "linv ccsds contents L"
  shows "Seg_RS q \<in> lk_back L \<Longrightarrow> lk_cut L (session_id q) \<noteq> None" and "Seg_CS c \<in> lk_back L \<Longrightarrow> lk_cut L (session_id c) \<noteq> None"
  using linvD(5) [OF assms] unfolding unknown_def has_cancelled_def by blast+

text \<open>A report names the session that it is about, also when it has been read.\<close>

lemma report_arrives:
  assumes "linv ccsds contents L" and "Seg_RS q \<in> lk_back L" and "report_in_range q"
    and "rs_parse_buffer (packet q) blank_report_segment = Inr (0, rpt)"
  shows "engine_id rpt = lk_engine L" and "session_id rpt = session_id q" and "session_id q \<le> eng_session_id (snd_engine (lk_sender L))"
proof -
  obtain bs cuts where c: "lk_cut L (session_id q) = Some (bs, cuts)" using back_known(1) [OF assms(1,2)] by auto
  let ?blk = "session_block ccsds (map contents bs)"
  note C = linvD(4) [OF assms(1) c]
  obtain G where G: "true_report G q" "G \<subseteq> all_bytes ?blk"
    using C assms(2) rcv_invD(1) unfolding cut_ok_def agree_def by blast
  have "length ?blk < 2 ^ 56" using C by (simp add: cut_ok_def sound_cut_def)
  note R = report_read(2,3) [OF G(1) assms(3) G(2) this assms(4)]
  have "fst (seg_key (Seg_RS q)) = lk_engine L" using names_okD(1) [OF linvD(3) [OF assms(1)]] assms(2) by blast
  then show "engine_id rpt = lk_engine L" "session_id rpt = session_id q" using R by (simp_all add: seg_key_def)
  show "session_id q \<le> eng_session_id (snd_engine (lk_sender L))" using C by (simp add: cut_ok_def)
qed

lemma arrival_facts:
  assumes inv: "linv ccsds contents L" and g: "g \<in> lk_back L" "arrives g g'"
  shows "op_ok env (Op_Segment g') (lk_sender L)" and "fst (seg_key g') = lk_engine L"
    and "snd (seg_key g') \<le> eng_session_id (snd_engine (lk_sender L))"
    and "g' = Seg_CS c \<Longrightarrow> \<exists>c'. Seg_CS c' \<in> lk_back L \<and> session_id c' = session_id c"
proof -
  note I = linvD [OF inv] and N = names_okD [OF linvD(3) [OF inv]]
  have ld: "loading_session (lk_sender L) \<noteq> Some j" if "lk_cut L j \<noteq> None \<or> (\<forall>x. \<not> live_session L j x)" for j
    using loading_unknown [OF inv, of j] that by metis
  have k: "fst (seg_key g) = lk_engine L" "snd (seg_key g) \<le> eng_session_id (snd_engine (lk_sender L))" using N(1) [of g] g(1) by simp_all
  have "op_ok env (Op_Segment g') (lk_sender L) \<and> fst (seg_key g') = lk_engine L \<and> snd (seg_key g') \<le> eng_session_id (snd_engine (lk_sender L))
    \<and> (\<forall>c. g' = Seg_CS c \<longrightarrow> (\<exists>c'. Seg_CS c' \<in> lk_back L \<and> session_id c' = session_id c))"
  proof (cases g)
    case (Seg_RS q)
    then obtain rpt where r: "g' = Seg_RS rpt" "report_in_range q" "rs_parse_buffer (packet q) blank_report_segment = Inr (0, rpt)"
      using g(2) by (cases g') auto
    note A = report_arrives [OF inv g(1) [unfolded Seg_RS] r(2,3)]
    show ?thesis using A ld back_known(1) [OF inv g(1) [unfolded Seg_RS]] r(1) by (simp add: seg_key_def)
  next
    case (Seg_CS c)
    then obtain c' where "g' = Seg_CS c'" "engine_id c' = engine_id c" "session_id c' = session_id c" using g(2) by (cases g') auto
    then show ?thesis using Seg_CS k ld back_known(2) [OF inv g(1) [unfolded Seg_CS]] g(1) by (auto simp: seg_key_def)
  next
    case (Seg_CAS a)
    then obtain a' where a: "g' = Seg_CAS a'" "engine_id a' = engine_id a" "session_id a' = session_id a" using g(2) by (cases g') auto
    have n: "\<not> live_session L (session_id a) x" for x using N(4) g(1) Seg_CAS by blast
    then have "\<forall>x. find_sender_session (seg_key g') (lk_sender L) = Some x \<longrightarrow> ss_state x = STATE_CS"
      using a by (auto simp: find_sender_session_def seg_key_def live_session_def split: if_splits)
    then show ?thesis using a k Seg_CAS ld [of "session_id a"] n by (auto simp: seg_key_def)
  qed (use N(6) [OF g(1)] g(2) in \<open>auto simp: reply_def\<close>)
  then show "op_ok env (Op_Segment g') (lk_sender L)" "fst (seg_key g') = lk_engine L" "snd (seg_key g') \<le> eng_session_id (snd_engine (lk_sender L))"
    "g' = Seg_CS c \<Longrightarrow> \<exists>c'. Seg_CS c' \<in> lk_back L \<and> session_id c' = session_id c" by blast+
qed

text \<open>A report for a session in the table reaches it.\<close>

lemma report_reaches:
  assumes "snd_ok s" and "find_session (session_id rpt) s = Some x" and "engine_id rpt = local_engine_id (snd_engine s)"
    and "segment_for_sender (Seg_RS rpt) s = Some (out, s')"
  shows "out = [] \<and> s' = s \<or> open_report rpt x s = Some (out, s')"
  using table_okD(3) [OF snd_okD(1) [OF assms(1)] assms(2)] assms(2-4)
  by (auto simp: segment_for_sender_def lookup_engine_def seg_key_def process_segment_def process_RS_def find_sender_session_def Let_def
      split: if_splits)

lemma open_reportE:
  assumes "open_report rpt x s = Some (out, s')"
  obtains complete sent sess o2 where "process_report False rpt (ss_sess x) = Some (complete, sent, sess)"
    "(if complete then cleanup_sender_session (session_id rpt) Session_completed (put_send_session (session_id rpt) (x\<lparr>ss_sess := sess\<rparr>) s)
      else ([], put_send_session (session_id rpt) (x\<lparr>ss_sess := sess\<rparr>) s)) = (o2, s')"
    "out = report_ack_for rpt # map Snd_Data sent @ o2"
  using assms by (auto simp: open_report_def Let_def split: if_splits prod.splits)

lemma report_ack_may: "engine_id rpt = local_engine_id (snd_engine s) \<Longrightarrow> session_id rpt \<le> eng_session_id (snd_engine s)
    \<Longrightarrow> may_send back s (Seg_RAS (new_report_ack (segment_base rpt) (serial_number rpt)))"
  by (simp add: may_send_def seg_key_def segment_base_def)

lemma completed_events:
  assumes "cleanup_sender_session ses Session_completed s = (out, s')" and "find_session ses s = Some x"
  shows "Transmitted b True \<in> set out \<Longrightarrow> b \<in> set (ss_bundles x)" and "Snd g \<notin> set out" and "Wire d \<notin> set out"
proof -
  have "out = fst (post_transmit (expired_in_queue s) True x)"
    using assms by (simp add: cleanup_sender_session_def Let_def case_prod_beta)
  then show "Transmitted b True \<in> set out \<Longrightarrow> b \<in> set (ss_bundles x)" "Snd g \<notin> set out" "Wire d \<notin> set out"
    by (auto simp: post_transmit_def Let_def split: if_splits)
qed

lemma report_linv:
  assumes inv: "linv ccsds contents L" and q: "Seg_RS q \<in> lk_back L" "report_in_range q"
    and rd: "rs_parse_buffer (packet q) blank_report_segment = Inr (0, rpt)" and ok: "snd_ok s"
    and x: "find_session (session_id rpt) (lk_sender L) = Some x" and st: "open_report rpt x (lk_sender L) = Some (out, s)"
  shows "linv ccsds contents (sender_did out s L)"
proof -
  let ?L = "sender_did out s L"
  note I = linvD [OF inv] and A = report_arrives [OF inv q rd]
  define ses where "ses = session_id q"
  have ses: "session_id rpt = ses" "session_id q = ses" using A(2) by (simp_all add: ses_def)
  obtain complete sent sess o2 where p: "process_report False rpt (ss_sess x) = Some (complete, sent, sess)"
      "(if complete then cleanup_sender_session ses Session_completed (put_send_session ses (x\<lparr>ss_sess := sess\<rparr>) (lk_sender L))
        else ([], put_send_session ses (x\<lparr>ss_sess := sess\<rparr>) (lk_sender L))) = (o2, s)"
      "out = report_ack_for rpt # map Snd_Data sent @ o2"
    using st unfolding ses(1) [symmetric] by (rule open_reportE)
  let ?t = "put_send_session ses (x\<lparr>ss_sess := sess\<rparr>) (lk_sender L)"
  have x': "find_session ses (lk_sender L) = Some x" "find_session ses ?t = Some (x\<lparr>ss_sess := sess\<rparr>)" using x ses by simp_all
  have s: "find_session j s = (if j = ses then (if complete then None else Some (x\<lparr>ss_sess := sess\<rparr>)) else find_session j (lk_sender L))"
      "local_engine_id (snd_engine s) = lk_engine L" "eng_session_id (snd_engine s) = eng_session_id (snd_engine (lk_sender L))" for j
    using p(2) x'(1) cleanup_facts [where ses = ses and ev = Session_completed and s = ?t] by (auto split: if_splits)
  have o2: "Transmitted b True \<in> set o2 \<Longrightarrow> complete \<and> b \<in> set (ss_bundles x)" "Snd g \<notin> set o2" "Wire d \<notin> set o2" for b g d
    using p(2) completed_events [OF _ x'(2), of o2 s] by (auto split: if_splits)
  have sends: "sends_only (lk_back L) (lk_sender L) out s"
    using o2(2,3) report_ack_may [of rpt s "lk_back L"] A s(2,3) ses by (auto simp: sends_only_def p(3) report_ack_for_def)
  have wire: "Wire d \<notin> set out" for d using o2(3) by (auto simp: p(3) report_ack_for_def)
  have tr: "Transmitted b True \<in> set out \<Longrightarrow> complete \<and> b \<in> set (ss_bundles x)" for b using o2(1) by (auto simp: p(3) report_ack_for_def)
  show ?thesis
  proof (cases "ss_state x = STATE_CS")
    case True
    have "ss_bundles x = []" using table_okD(1) [OF snd_okD(1) [OF I(1)] x'(1)] True by (simp add: session_ok_def)
    moreover have "keeps (lk_sender L) s"
      unfolding keeps_def using s True by (auto split: if_splits)
    ultimately have "quiet_step (lk_back L) (lk_sender L) out s" using sends tr by (auto simp: quiet_step_def)
    then show ?thesis by (rule quiet_linv [OF inv _ ok])
  next
    case False
    then have live: "live_session L ses x" using x'(1) by (simp add: live_session_def)
    obtain bs cuts where c: "lk_cut L ses = Some (bs, cuts)" using back_known(1) [OF inv q(1)] by (auto simp: ses_def)
    let ?blk = "session_block ccsds (map contents bs)"
    note C = I(4) [OF c]
    obtain G where G: "rcv_inv ?blk cuts (lk_engine L, ses) G (settled_at L ses) (has_cancelled L ses) (lk_receiver L)"
        "\<forall>q. Seg_RS q \<in> lk_back L \<longrightarrow> session_id q = ses \<longrightarrow> true_report G q"
        "snd_inv ?blk cuts (lk_engine L, ses) G (ss_sess x)" "set (ss_bundles x) \<subseteq> set bs"
      using C live unfolding cut_ok_def agree_def by blast
    have len: "length ?blk < 2 ^ 56" using C by (simp add: cut_ok_def sound_cut_def)
    have "true_report G q" using G(2) q(1) ses(2) by blast
    note R = report_step [OF G(3) this q(2) rcv_invD(1) [OF G(1)] len rd p(1)]
    have lives: "live_session ?L ses y \<Longrightarrow> \<not> complete \<and> y = x\<lparr>ss_sess := sess\<rparr>" for y using s(1) by (auto simp: live_session_def split: if_splits)
    have "snd_inv ?blk cuts (lk_engine L, ses) G (ss_sess y) \<and> set (ss_bundles y) \<subseteq> set bs" if "live_session ?L ses y" for y
      using lives [OF that] R(3) G(4) by simp
    then have "agree ?blk bs cuts ses ?L"
      unfolding agree_def using G(1,2) s(2) by (intro exI [of _ G]) simp
    then have cut: "cut_ok ?blk bs cuts ses ?L"
      using C s(2,3) wire sends_only_kinds(1) [OF sends] unfolding cut_ok_def by (auto simp: sender_forth)
    have same: "same_at j L ?L" if "j \<noteq> ses" for j by (rule sender_same_at [OF _ s(2) _ wire sends]) (use s that in simp_all)
    show ?thesis
    proof (rule linvI)
      show "names_ok ?L"
        by (rule sender_names [OF inv sends s(2)]) (use s live in \<open>auto simp: live_session_def split: if_splits\<close>)
      show "cut_ok (session_block ccsds (map contents bs')) bs' cuts' j ?L" if "lk_cut ?L j = Some (bs', cuts')" for j bs' cuts'
        using that cut c frame_cut [OF same I(4)] by (cases "j = ses") auto
      show "unknown j ?L" if "lk_cut ?L j = None" for j
        using that c frame_unknown [OF same I(5)] by (cases "j = ses") auto
      show "\<exists>j bs cuts. lk_cut ?L j = Some (bs, cuts) \<and> b \<in> set bs \<and> settled_at ?L j" if "Transmitted b True \<in> set (lk_events ?L)" for b
      proof (cases "Transmitted b True \<in> set out")
        case True
        then have "complete" "b \<in> set bs" using tr G(4) by blast+
        moreover have "settled_at L ses" using R(2) [OF \<open>complete\<close>] rcv_invD(2) [OF G(1)] by blast
        ultimately show ?thesis using c by auto
      qed (use that I(6) in auto)
    qed (use ok I(2) in simp_all)
  qed
qed

lemma loadE:
  assumes "find_session ses s = Some x" and "bs = filter (\<lambda>b. \<not> se_expired env b) (ss_bundles x)" and "bs \<noteq> []"
    and "process_loaded_session env ses s = Some (out, s')"
  obtains sent sess gone where
    "process_bundles (se_ccsds env) (se_seg_size env) (se_per_checkpoint env) (unat (ss_size x)) False (map (se_contents env) bs) (ss_sess x) = Some (sent, sess)"
    "out = map Del_Inflight gone @ map Snd_Data sent" "snd_engine s' = snd_engine s"
    "\<And>j. find_session j s' = (if j = ses then Some (x\<lparr>ss_bundles := bs, ss_sess := sess\<rparr>) else find_session j s)"
  using assms(1,3,4) by (auto simp: process_loaded_session_def remove_expired_bundles_def Let_def assms(2))

lemma cut_update [simp]:
  "cut_ok blk bs cuts j (L\<lparr>lk_cut := f\<rparr>) = cut_ok blk bs cuts j L" "unknown j (L\<lparr>lk_cut := f\<rparr>) = unknown j L"
  "names_ok (L\<lparr>lk_cut := f\<rparr>) = names_ok L" "settled_at (L\<lparr>lk_cut := f\<rparr>) j = settled_at L j"
proof -
  have l: "live_session (L\<lparr>lk_cut := f\<rparr>) = live_session L" by (simp add: live_session_def fun_eq_iff)
  have p: "settled_at (L\<lparr>lk_cut := f\<rparr>) = settled_at L" "has_cancelled (L\<lparr>lk_cut := f\<rparr>) = has_cancelled L"
    by (simp_all add: settled_at_def has_cancelled_def fun_eq_iff)
  show "cut_ok blk bs cuts j (L\<lparr>lk_cut := f\<rparr>) = cut_ok blk bs cuts j L" "unknown j (L\<lparr>lk_cut := f\<rparr>) = unknown j L"
    "names_ok (L\<lparr>lk_cut := f\<rparr>) = names_ok L" "settled_at (L\<lparr>lk_cut := f\<rparr>) j = settled_at L j"
    by (simp_all add: cut_ok_def agree_def unknown_def names_ok_def l p)
qed

lemma data_sent: "[d. Snd_Data d \<leftarrow> map Del_Inflight gone @ map Snd_Data sent] = sent"
proof -
  have "[d. Snd_Data d \<leftarrow> map Del_Inflight gone] = []" "[d. Snd_Data d \<leftarrow> map Snd_Data sent] = sent" by (induction gone, simp_all, induction sent, simp_all)
  then show ?thesis by simp
qed

lemma load_linv:
  assumes inv: "linv ccsds contents L" and op: "op_ok env (Op_Load ses) (lk_sender L)" and x: "find_session ses (lk_sender L) = Some x"
    and bs: "bs = filter (\<lambda>b. \<not> se_expired env b) (ss_bundles x)" "bs \<noteq> []" and env: "se_ccsds env = ccsds" "se_contents env = contents"
    and len: "length (session_block ccsds (map contents bs)) < 2 ^ 56" and fit: "fits 8 (lk_engine L)" "fits 8 ses"
    and st: "process_loaded_session env ses (lk_sender L) = Some (out, s)"
  shows "linv ccsds contents ((sender_did out s L)\<lparr>lk_cut := (lk_cut L)(ses \<mapsto> (bs, [d. Snd_Data d \<leftarrow> out]))\<rparr>)"
proof -
  let ?L = "sender_did out s L" and ?key = "(lk_engine L, ses)" and ?blk = "session_block ccsds (map contents bs)"
  note I = linvD [OF inv]
  have o: "uncut (lk_sender L) ses x" "load_ok env bs" using op x bs(1) by simp_all
  obtain ck sr where i: "ss_sess x = session_init (lk_engine L) ses ck sr" using o(1) by (auto simp: uncut_def)
  obtain sent sess gone where P: "process_bundles ccsds (se_seg_size env) (se_per_checkpoint env) (unat (ss_size x)) False (map contents bs)
        (session_init (lk_engine L) ses ck sr) = Some (sent, sess)" "out = map Del_Inflight gone @ map Snd_Data sent"
      "snd_engine s = snd_engine (lk_sender L)"
      "\<And>j. find_session j s = (if j = ses then Some (x\<lparr>ss_bundles := bs, ss_sess := sess\<rparr>) else find_session j (lk_sender L))"
    by (rule loadE [OF x bs st]) (use env i in simp)
  have cut: "[d. Snd_Data d \<leftarrow> out] = sent" unfolding P(2) by (rule data_sent)
  have nc: "ss_state x \<noteq> STATE_CS" using table_okD(1) [OF snd_okD(1) [OF I(1)] x] bs by (auto simp: session_ok_def)
  then have live: "live_session L ses x" using x by (simp add: live_session_def)
  have none: "lk_cut L ses = None"
  proof (rule ccontr)
    assume "lk_cut L ses \<noteq> None"
    then obtain bs' cuts where "lk_cut L ses = Some (bs', cuts)" by auto
    from I(4) [OF this] show False using live o(1) cut_not_uncut unfolding cut_ok_def agree_def by blast
  qed
  note U = I(5) [OF none]
  have f: "formatted (map contents bs)" "0 < se_seg_size env" "length ?blk < 2 ^ 63"
    using o(2) bs(2) env len by (auto simp: load_ok_def formatted_def)
  note C = session_cut [OF f P(1)]
  obtain G where G: "rcv_inv ?blk sent ?key G False False \<lparr>incoming_sessions = (\<lambda>_. None), closed_session_map = (\<lambda>_. None)\<rparr>" "snd_inv ?blk sent ?key G sess"
    using start_inv [OF f P(1)] by (auto simp: xinv_def xc_start_def)
  have G1: "rcv_inv ?blk sent ?key G False False (lk_receiver L)"
    using G(1) U by (subst rcv_inv_frame [of _ _ "\<lparr>incoming_sessions = (\<lambda>_. None), closed_session_map = (\<lambda>_. None)\<rparr>"]) (simp_all add: unknown_def)
  have sends: "sends_only (lk_back L) (lk_sender L) out s" by (auto simp: sends_only_def P(2))
  have wire: "Wire d \<notin> set out" for d by (auto simp: P(2))
  have same: "same_at j L ?L" if "j \<noteq> ses" for j by (rule sender_same_at [OF _ _ _ wire sends]) (use P(3,4) that in simp_all)
  have lv: "live_session ?L ses y \<longleftrightarrow> y = x\<lparr>ss_bundles := bs, ss_sess := sess\<rparr>" for y using P(4) nc by (auto simp: live_session_def)
  have ph: "settled_at L ses = False" "has_cancelled L ses = False" "\<forall>q. Seg_RS q \<in> lk_back L \<longrightarrow> session_id q \<noteq> ses"
    "\<forall>d. Seg_DS d \<in> lk_forth L \<longrightarrow> session_id d \<noteq> ses" using U by (simp_all add: unknown_def)
  have "agree ?blk bs sent ses ?L" unfolding agree_def using G1 G(2) ph P(3) lv by (intro exI [of _ G]) simp
  moreover have "sound_cut ?blk sent ?key" using C(2,3) session_same_cuts(2) [OF f P(1)] len fit by (simp add: sound_cut_def)
  moreover have "Seg_DS d \<in> lk_forth ?L \<Longrightarrow> session_id d \<noteq> ses" for d using ph(4) wire sends_only_kinds(1) [OF sends] by (auto simp: sender_forth)
  moreover have "ses \<le> eng_session_id (snd_engine (lk_sender L))" by (rule table_okD(2) [OF snd_okD(1) [OF I(1)] x])
  moreover have "(ses, p) \<notin> lk_posted L" for p using ph(1) unfolding settled_at_def by blast
  ultimately have cok: "cut_ok ?blk bs sent ses ?L" using P(3) unfolding cut_ok_def by auto
  have ok: "snd_ok s" using load_accounts [OF I(1) op st] by (simp add: accounts_def)
  show ?thesis unfolding cut
  proof (rule linvI)
    show "names_ok (?L\<lparr>lk_cut := (lk_cut L)(ses \<mapsto> (bs, sent))\<rparr>)" unfolding cut_update
      by (rule sender_names [OF inv sends]) (use P(3,4) live in \<open>auto simp: live_session_def split: if_splits\<close>)
    show "cut_ok (session_block ccsds (map contents bs')) bs' cuts' j (?L\<lparr>lk_cut := (lk_cut L)(ses \<mapsto> (bs, sent))\<rparr>)"
      if "lk_cut (?L\<lparr>lk_cut := (lk_cut L)(ses \<mapsto> (bs, sent))\<rparr>) j = Some (bs', cuts')" for j bs' cuts'
      using that cok frame_cut [OF same I(4)] by (cases "j = ses") auto
    show "unknown j (?L\<lparr>lk_cut := (lk_cut L)(ses \<mapsto> (bs, sent))\<rparr>)" if "lk_cut (?L\<lparr>lk_cut := (lk_cut L)(ses \<mapsto> (bs, sent))\<rparr>) j = None" for j
      using that frame_unknown [OF same I(5)] by (cases "j = ses") auto
    show "\<exists>j bs' cuts. lk_cut (?L\<lparr>lk_cut := (lk_cut L)(ses \<mapsto> (bs, sent))\<rparr>) j = Some (bs', cuts) \<and> b \<in> set bs'
        \<and> settled_at (?L\<lparr>lk_cut := (lk_cut L)(ses \<mapsto> (bs, sent))\<rparr>) j"
      if "Transmitted b True \<in> set (lk_events (?L\<lparr>lk_cut := (lk_cut L)(ses \<mapsto> (bs, sent))\<rparr>))" for b
    proof -
      have "Transmitted b True \<in> set (lk_events L)" using that by (auto simp: P(2))
      then obtain j bs' cuts where j: "lk_cut L j = Some (bs', cuts)" "b \<in> set bs'" "settled_at L j" using I(6) by blast
      then have "j \<noteq> ses" using none by auto
      then show ?thesis using j by (intro exI [of _ j]) simp
    qed
  qed (use ok I(2) in simp_all)
qed

section \<open>Runs of the link\<close>

lemma sender_gets_linv:
  assumes inv: "linv ccsds contents L" and g: "g \<in> lk_back L" "arrives g g'"
    and st: "segment_for_sender g' (lk_sender L) = Some (out, s)"
  shows "linv ccsds contents (sender_did out s L)"
proof -
  note I = linvD [OF inv] and A = arrival_facts [OF inv g]
  have ok: "snd_ok s" using segment_accounts [OF I(1) A(1) st] by (simp add: accounts_def)
  show ?thesis
  proof (cases "\<exists>rpt x. g' = Seg_RS rpt \<and> find_session (session_id rpt) (lk_sender L) = Some x")
    case True
    then obtain rpt x where r: "g' = Seg_RS rpt" "find_session (session_id rpt) (lk_sender L) = Some x" by blast
    then obtain q where q: "g = Seg_RS q" "report_in_range q" "rs_parse_buffer (packet q) blank_report_segment = Inr (0, rpt)"
      using g(2) by (cases g) auto
    note R = report_arrives [OF inv g(1) [unfolded q(1)] q(2,3)]
    from report_reaches [OF I(1) r(2) R(1) st [unfolded r(1)]] show ?thesis
    proof
      assume "out = [] \<and> s = lk_sender L"
      then show ?thesis using quiet_linv [OF inv _ I(1), of "[]"] by (simp add: silent_quiet)
    next
      assume "open_report rpt x (lk_sender L) = Some (out, s)"
      then show ?thesis by (rule report_linv [OF inv g(1) [unfolded q(1)] q(2,3) ok r(2)])
    qed
  next
    case False
    have "quiet_step (lk_back L) (lk_sender L) out s"
      by (rule segment_quiet [OF I(1) st A(2,3)]) (use A(4) False in auto)
    then show ?thesis by (rule quiet_linv [OF inv _ ok])
  qed
qed

lemma lstep_linv:
  assumes "lstep ccsds contents L L'" and inv: "linv ccsds contents L"
  shows "linv ccsds contents L'"
  using assms(1)
proof cases
  case (operation env op out s)
  have "snd_ok s" using step_accounts [OF linvD(1) [OF inv] operation(2,5)] by (simp add: accounts_def)
  then show ?thesis unfolding operation(1) using step_quiet [OF linvD(1) [OF inv] operation(2,5,3,4)] by (intro quiet_linv [OF inv])
next
  case (load env ses x bs out s)
  have st: "process_loaded_session env ses (lk_sender L) = Some (out, s)" using load(10) by simp
  show ?thesis
  proof (cases "bs = []")
    case True
    have "snd_ok s" using load_accounts [OF linvD(1) [OF inv] load(2) st] by (simp add: accounts_def)
    then have "linv ccsds contents (sender_did out s L)"
      using load_empty_quiet [OF load(3) _ st] load(4) True by (intro quiet_linv [OF inv]) simp_all
    moreover have "L' = sender_did out s L" unfolding load(1) using True by (simp add: sender_did_def)
    ultimately show ?thesis by (simp only:)
  next
    case False
    then show ?thesis unfolding load(1) using load_linv [OF inv load(2,3,4) False load(5,6,7,8,9) st] by simp
  qed
next
  case (sender_gets g g' env out s)
  show ?thesis unfolding sender_gets(1) using sender_gets(4) by (intro sender_gets_linv [OF inv sender_gets(2,3)]) simp
next
  case (receiver_gets g g' env out r)
  show ?thesis unfolding receiver_gets(1) by (rule receiver_gets_linv [OF inv receiver_gets(2-4)])
next
  case (report_timer retry serial ses out r)
  show ?thesis unfolding report_timer(1)
    by (rule timer_linv [OF inv timers_local(1) [OF linvD(2) [OF inv] report_timer(2)] rcv_report_timeout [OF _ report_timer(2)]])
      (use report_timer(2) in \<open>simp_all add: report_seg_timeout_def\<close>)
next
  case (cancel_timer retry ses out r)
  show ?thesis unfolding cancel_timer(1)
    by (rule timer_linv [OF inv timers_local(2) [OF linvD(2) [OF inv] cancel_timer(2)] rcv_cancel_timeout [OF _ cancel_timer(2)]])
      (use cancel_timer(2) in \<open>simp_all add: cancel_seg_timeout_def\<close>)
next
  case (inactivity_timer ses out r)
  show ?thesis unfolding inactivity_timer(1)
    by (rule timer_linv [OF inv timers_local(3) [OF linvD(2) [OF inv] inactivity_timer(2)] rcv_inactivity [OF _ inactivity_timer(2)]])
      (use inactivity_timer(2) in \<open>simp_all add: inactivity_timer_triggered_def\<close>)
next
  case (closeout_timer ses)
  show ?thesis unfolding closeout_timer by (rule closeout_linv [OF inv])
qed

lemma init_linv: "linv ccsds contents (link_init (sender_init e remote max_ses agg))"
proof (rule linvI)
  show "snd_ok (lk_sender (link_init (sender_init e remote max_ses agg)))" using init_ok by (simp add: link_init_def)
qed (simp_all add: link_init_def rcv_named_def names_ok_def unknown_def has_cancelled_def settled_at_def live_session_def sender_init_def om_find_def)

text \<open>What the sender does in the link is a run of the sender: the network brings it only segments that it can handle.\<close>

lemma lreach_run:
  assumes "lreach ccsds contents (link_init (sender_init e remote max_ses agg)) L"
  shows "linv ccsds contents L \<and> snd_run (sender_init e remote max_ses agg) (lk_events L) (lk_sender L)"
  using assms
proof (induction rule: lreach.induct)
  case start
  then show ?case using init_linv run_start [of "sender_init e remote max_ses agg"] by (simp add: link_init_def)
next
  case (step L L')
  note inv = step.IH [THEN conjunct1] and run = step.IH [THEN conjunct2]
  have "snd_run (sender_init e remote max_ses agg) (lk_events L') (lk_sender L')"
    using step.hyps(2)
  proof cases
    case (operation env op out s)
    then show ?thesis using run_step [OF run operation(2,5)] by simp
  next
    case (load env ses x bs out s)
    then show ?thesis using run_step [OF run load(2,10)] by simp
  next
    case (sender_gets g g' env out s)
    then show ?thesis using run_step [OF run arrival_facts(1) [OF inv sender_gets(2,3)] sender_gets(4)] by simp
  qed (use run in \<open>simp_all add: closeout_did_def\<close>)
  then show ?case using lstep_linv [OF step.hyps(2) inv] by blast
qed

section \<open>Properties\<close>

text \<open>
  C1. A red bundle that is reported as transmitted has been delivered, unless the receiver has forgotten its session. Let a
  sender take bundles, collect them in sessions, cut and send them, with any number of sessions at a time, by
  operations that keep to \<open>op_ok\<close>, while the network loses, repeats and reorders what either side sends and every timer
  may fire at any time. In every state that is reached, the red bundles taken are those held in a session and those
  reported; and for every red bundle reported as transmitted there is a session with this bundle among those it was
  cut from, such that either the receiver has handed over a block that is the encoding of the bundles of the session, or
  the receiver closed the session without a block and its closeout timer fired afterwards. If no closeout timer fired
  for such a session, every such bundle was delivered. (Green bundles are reported with another event as soon as they are sent;
  their segments are not followed. That the exception is real is \<open>forgotten_session_completes\<close>.)
\<close>
theorem reported_means_delivered:
  assumes "lreach ccsds contents (link_init (sender_init e remote max_ses agg)) L"
  shows "taken (lk_events L) = held_bundles (lk_sender L) + reported (lk_events L)
    \<and> (\<forall>b. Transmitted b True \<in> set (lk_events L) \<longrightarrow>
         (\<exists>ses bs cuts. lk_cut L ses = Some (bs, cuts) \<and> b \<in> set bs
            \<and> ((\<exists>segs n multi. (ses, segs, n, multi) \<in> lk_posted L
                  \<and> concat (map (payload \<circ> snd) segs) = session_block ccsds (map contents bs))
               \<or> ses \<in> lk_forgot L)))"
proof -
  have L: "linv ccsds contents L" "snd_run (sender_init e remote max_ses agg) (lk_events L) (lk_sender L)" using lreach_run [OF assms] by auto
  have "held_bundles (sender_init e remote max_ses agg) = {#}" by (simp add: held_bundles_def sender_init_def tot_def)
  then have acc: "taken (lk_events L) = held_bundles (lk_sender L) + reported (lk_events L)"
    using run_accounts [OF L(2) init_ok] by (simp add: accounts_def)
  have del: "\<exists>ses bs cuts. lk_cut L ses = Some (bs, cuts) \<and> b \<in> set bs
      \<and> ((\<exists>segs n multi. (ses, segs, n, multi) \<in> lk_posted L \<and> concat (map (payload \<circ> snd) segs) = session_block ccsds (map contents bs))
         \<or> ses \<in> lk_forgot L)"
    if tr: "Transmitted b True \<in> set (lk_events L)" for b
  proof -
    obtain ses bs cuts where c: "lk_cut L ses = Some (bs, cuts)" "b \<in> set bs" "settled_at L ses" using linvD(6) [OF L(1) tr] by blast
    then consider "ses \<in> lk_forgot L" | segs n multi where "(ses, segs, n, multi) \<in> lk_posted L" unfolding settled_at_def by (metis prod_cases3)
    then show ?thesis using linvD(4) [OF L(1) c(1)] c(1,2) unfolding cut_ok_def by cases blast+
  qed
  show ?thesis using acc del by blast
qed

text \<open>A session of one segment, sent and acknowledged.\<close>

definition link_contents :: "nat \<Rightarrow> ltp_bundle" where
  "link_contents b = (False, [10, 11, 12, 13], demo_blocks)"

definition link_env :: snd_env where
  "link_env = \<lparr>se_checkpoint = 10, se_serial = 20, se_time_up = False, se_contents = link_contents,
     se_expired = (\<lambda>_. False), se_ccsds = True, se_seg_size = 100, se_per_checkpoint = 0\<rparr>"

lemma link_taken:
  "snd_step link_env (Op_Bundle 7 9 False) demo_start = Some ([Add_Inflight 7, Dequeue 7, Load_Session 1], demo_taken)"
  "op_ok link_env (Op_Bundle 7 9 False) demo_start"
  by (simp_all add: demo_defs link_env_def held_bundles_def green_bundles_def tot_def)

lemma link_session:
  obtains x where "find_session 1 demo_taken = Some x" "ss_sess x = session_init 1 1 10 20" "ss_bundles x = [7]" "ss_size x = 9"
    "loading_session demo_taken = None" "local_engine_id (snd_engine demo_taken) = 1" "expired_in_queue demo_taken = {}"
    "session_to_engine (snd_engine demo_taken) 1 = Some 2" "remote_engine_id demo_taken = 2" "registered_engines (snd_engine demo_taken) = {2}"
  by (simp add: demo_defs)

abbreviation link_block :: bytes where
  "link_block \<equiv> session_block True [link_contents 7]"

lemma link_one_segment:
  obtains d sess where "process_bundles True 100 0 9 False [link_contents 7] (session_init 1 1 10 20) = Some ([d], sess)"
    "red_complete sess" "expected_red_bytes sess = of_nat (length link_block)" "om_find (red_segments sess) (start_byte d) = Some d"
    "piece link_block d" "is_checkpoint d" "addressed (1, 1) 2 d" "unat (checkpoint_id d) \<le> 11" "unat (start_byte d) = 0"
    "length (payload d) = length link_block" "same_cuts [d]"
proof -
  note D = demo_session(1,2)
  have f: "formatted [link_contents 7]" "length link_block < 2 ^ 63" "0 < (100 :: nat)" using D by (simp_all add: link_contents_def)
  obtain sent sess where p: "process_bundles True 100 0 9 False [link_contents 7] (session_init 1 1 10 20) = Some (sent, sess)"
    using formatted_cut [OF f(1,3,2)] by blast
  note C = session_cut [OF f(1,3,2) p]
  have "length (map payload sent) = 1" unfolding C(1) using D by (simp add: link_contents_def chunks.simps [of 100])
  then obtain d where d: "sent = [d]" by (auto simp: length_Suc_conv)
  have "om_find (red_segments sess) (start_byte d) = Some d" unfolding C(8) d by (simp add: om_find_def)
  moreover have "piece link_block d" "is_checkpoint d" using C(2,7) by (simp_all add: d)
  moreover have "addressed (1, 1) 2 d" "unat (checkpoint_id d) \<le> 11" using bundles_addressed [OF p, of d] by (simp_all add: d)
  moreover have one: "0 < length sent" "Suc 0 = length sent" "sent ! 0 = d" by (simp_all add: d)
  have "unat (start_byte d) = 0" using C(5) [OF one(1)] unfolding one(3) by simp
  moreover have "length (payload d) = length link_block"
    using session_cut_range(4) [OF f(1,3,2) p one(1,2)] unfolding one(3) by (simp only: mult_0_right add_0)
  ultimately show thesis
    using that p C(9,10) session_same_cuts(2) [OF f(1,3,2) p] unfolding d by blast
qed

text \<open>The session is cut and its segment sent.\<close>

lemma link_cut:
  obtains d x L where "lreach True link_contents (link_init demo_start) L" "Seg_DS d \<in> lk_forth L" "lk_receiver L = lk_receiver (link_init demo_start)" "lk_forgot L = {}"
    "find_session 1 (lk_sender L) = Some x" "red_complete (ss_sess x)" "expected_red_bytes (ss_sess x) = of_nat (length link_block)"
    "ss_bundles x = [7]" "expired_in_queue (lk_sender L) = {}" "snd_engine (lk_sender L) = snd_engine demo_taken" "remote_engine_id (lk_sender L) = 2"
    "piece link_block d" "is_checkpoint d" "addressed (1, 1) 2 d" "unat (checkpoint_id d) \<le> 11" "unat (start_byte d) = 0"
    "length (payload d) = length link_block" "same_cuts [d]"
proof -
  obtain x where x: "find_session 1 demo_taken = Some x" "ss_sess x = session_init 1 1 10 20" "ss_bundles x = [7]" "ss_size x = 9"
    "loading_session demo_taken = None" "local_engine_id (snd_engine demo_taken) = 1" "expired_in_queue demo_taken = {}"
    "session_to_engine (snd_engine demo_taken) 1 = Some 2" "remote_engine_id demo_taken = 2" "registered_engines (snd_engine demo_taken) = {2}"
    by (rule link_session)
  obtain d sess where d: "process_bundles True 100 0 9 False [link_contents 7] (session_init 1 1 10 20) = Some ([d], sess)"
    "red_complete sess" "expected_red_bytes sess = of_nat (length link_block)" "om_find (red_segments sess) (start_byte d) = Some d"
    "piece link_block d" "is_checkpoint d" "addressed (1, 1) 2 d" "unat (checkpoint_id d) \<le> 11" "unat (start_byte d) = 0"
    "length (payload d) = length link_block" "same_cuts [d]"
    by (rule link_one_segment)
  define L1 where "L1 = sender_did [Add_Inflight 7, Dequeue 7, Load_Session 1] demo_taken (link_init demo_start)"
  define y where "y = x\<lparr>ss_bundles := [7], ss_sess := sess\<rparr>"
  define s2 where "s2 = put_send_session 1 y ((put_send_session 1 (x\<lparr>ss_bundles := [7]\<rparr>) demo_taken)\<lparr>expired_in_queue := {}\<rparr>)"
  define L2 where "L2 = (sender_did [Snd_Data d] s2 L1)\<lparr>lk_cut := (lk_cut L1)(1 \<mapsto> ([7], [d]))\<rparr>"
  define z where "z = y\<lparr>ss_sess := sess\<lparr>red_segments := om_modify (start_byte d) (\<lambda>d. d\<lparr>queued_to_send := False\<rparr>) (red_segments sess)\<rparr>\<rparr>"
  define L3 where "L3 = sender_did [Wire d] (put_send_session 1 z (lk_sender L2)) L2"
  have 1: "lstep True link_contents (link_init demo_start) L1"
    unfolding L1_def by (rule operation [of link_env "Op_Bundle 7 9 False"]) (use link_taken in \<open>simp_all add: link_init_def\<close>)
  have ld: "load_ok link_env [7]" using demo_session(1,2) by (simp add: load_ok_def link_env_def link_contents_def formatted_def)
  have op: "op_ok link_env (Op_Load 1) (lk_sender L1)" using x ld by (auto simp: L1_def uncut_def link_env_def)
  have st: "snd_step link_env (Op_Load 1) (lk_sender L1) = Some ([Snd_Data d], s2)"
    using x(1-4,7) d(1) by (simp add: L1_def y_def s2_def process_loaded_session_def remove_expired_bundles_def link_env_def Let_def)
  have "lstep True link_contents L1 L2"
    using load [OF op _ refl _ _ _ _ _ st, of x True link_contents] x(1,3,6) demo_session(1)
    by (simp add: L2_def L1_def link_env_def link_contents_def fits_iff)
  moreover have "lstep True link_contents L2 L3"
    unfolding L3_def
    by (rule operation [of link_env "Op_Transmit 1 (start_byte d)"]) (use x(1) d(4,7) in \<open>simp_all add: L2_def s2_def link_transmits_def y_def z_def addressed_def\<close>)
  ultimately have "lreach True link_contents (link_init demo_start) L3" using 1 lreach.intros by metis
  then show thesis
    using that [of L3 d z] x d by (simp add: link_init_def L3_def L2_def L1_def s2_def z_def y_def sender_forth)
qed

text \<open>The receiver answers the segment, which is a checkpoint, with a report on the whole block.\<close>

lemma link_report:
  assumes "lk_receiver L = lk_receiver (link_init demo_start)" and "Seg_DS d \<in> lk_forth L" and "piece link_block d" and "is_checkpoint d"
    and "addressed (1, 1) 2 d" and "unat (checkpoint_id d) \<le> 11" and "unat (start_byte d) = 0"
    and "length (payload d) = length link_block" and "same_cuts [d]"
  obtains r out base ser where "lstep True link_contents L (receiver_did 1 out r L)" "rs_ready base" "fits 8 ser" "fits 8 (checkpoint_id d)"
    "engine_id base = 1" "session_id base = 1"
    "Send (Seg_RS (new_report_segment base ser (checkpoint_id d) 0 (of_nat (length link_block)) (of_nat (length link_block))
       [(0, of_nat (length link_block))])) \<in> set out"
proof -
  have key: "seg_key (Seg_DS d) = (1, 1)" and csid: "client_service_id d = 1 \<or> client_service_id d = 2"
    using assms(5) by (simp_all add: seg_key_def addressed_def)
  have blk: "link_block \<noteq> []" "length link_block = 10" using demo_session(1) by (simp_all add: link_contents_def)
  have one: "fits 8 (fst (1, 1) :: u64)" "fits 8 (snd (1, 1) :: u64)" by (simp_all add: fits_iff)
  have "ready link_block [d] (1, 1) 0 0 (lk_receiver L)" using assms(1) by (simp add: ready_def link_init_def)
  then obtain t where t: "got_first link_block [d] (1, 1) 0 0 t" "report_segments (rcv_sess t) = []"
      "process_segment_for_receiver calm (Seg_DS d) (lk_receiver L)
         = map_option (settle (1, 1) (put_session (1, 1) t (lk_receiver L))) (process_incoming_data_segment calm d t)"
    using ready_session [OF _ blk(1) one key] by blast
  have "d \<in> set [d]" and "0 + length (payload d) = length link_block" using assms(8) by simp_all
  from last_segment [OF t(1,2) assms(3) this(1) assms(7) csid assms(9) this(2) assms(4)]
  obtain out t' base ser where l: "process_incoming_data_segment calm d t = Some (out, t', False)" "unat ser \<le> Suc 0"
      "(engine_id base, session_id base) = (1, 1)"
      "Send (Seg_RS (new_report_segment base ser (checkpoint_id d) 0 (of_nat (length link_block)) (of_nat (length link_block))
         [(0, of_nat (length link_block))])) \<in> set out"
    by blast
  have "process_segment_for_receiver calm (Seg_DS d) (lk_receiver L) = Some (out, put_session (1, 1) t' (lk_receiver L))"
    using t(3) l(1) by (simp add: settle_def put_put)
  then have "lstep True link_contents L (receiver_did 1 out (put_session (1, 1) t' (lk_receiver L)) L)"
    using receiver_gets [OF assms(2), of "Seg_DS d" calm] key by simp
  moreover have "rs_ready base" "fits 8 ser" "fits 8 (checkpoint_id d)" using l(2,3) assms(6) by (simp_all add: rs_ready_def fits_iff)
  ultimately show thesis using that l(3,4) by blast
qed

text \<open>A report that completes the session reports its bundle.\<close>

lemma link_completes:
  assumes "find_session 1 s = Some x" and "red_complete (ss_sess x)" "expected_red_bytes (ss_sess x) = of_nat (length link_block)"
    and "ss_bundles x = [7]" "expired_in_queue s = {}" and "snd_engine s = snd_engine demo_taken" "remote_engine_id s = 2"
    and "engine_id rpt = 1" "session_id rpt = 1" and "process_report False rpt (ss_sess x) = Some (True, [], s')"
  shows "\<exists>out t. segment_for_sender (Seg_RS rpt) s = Some (out, t) \<and> Transmitted 7 True \<in> set out"
proof -
  obtain e where e: "local_engine_id (snd_engine demo_taken) = 1" "session_to_engine (snd_engine demo_taken) 1 = Some 2"
    "registered_engines (snd_engine demo_taken) = {2}" by (rule link_session) blast
  have "expected_red_bytes s' = 10"
    using process_report_eob [OF assms(10)] assms(3) demo_session(1) by (simp add: same_eob_def link_contents_def)
  then show ?thesis
    using assms e by (simp add: segment_for_sender_def lookup_engine_def lookup_remote_def seg_key_def process_segment_def process_RS_def
        find_sender_session_def open_report_def cleanup_sender_session_def post_transmit_def Let_def case_prod_beta)
qed

lemma link_run:
  obtains L where "lreach True link_contents (link_init demo_start) L" "Transmitted 7 True \<in> set (lk_events L)" "lk_forgot L = {}"
proof -
  obtain d x L where L: "lreach True link_contents (link_init demo_start) L" "Seg_DS d \<in> lk_forth L" "lk_receiver L = lk_receiver (link_init demo_start)"
    "lk_forgot L = {}"
    and x: "find_session 1 (lk_sender L) = Some x" "red_complete (ss_sess x)" "expected_red_bytes (ss_sess x) = of_nat (length link_block)"
      "ss_bundles x = [7]" "expired_in_queue (lk_sender L) = {}" "snd_engine (lk_sender L) = snd_engine demo_taken" "remote_engine_id (lk_sender L) = 2"
    and d: "piece link_block d" "is_checkpoint d" "addressed (1, 1) 2 d" "unat (checkpoint_id d) \<le> 11" "unat (start_byte d) = 0"
      "length (payload d) = length link_block" "same_cuts [d]"
    by (rule link_cut)
  define q where "q base ser = new_report_segment base ser (checkpoint_id d) 0 (of_nat (length link_block)) (of_nat (length link_block))
      [(0, of_nat (length link_block))]" for base ser
  obtain r out base ser where r: "lstep True link_contents L (receiver_did 1 out r L)" "rs_ready base" "fits 8 ser" "fits 8 (checkpoint_id d)"
      "engine_id base = 1" "session_id base = 1" "Send (Seg_RS (q base ser)) \<in> set out"
    unfolding q_def by (rule link_report [OF L(3,2) d])
  define L' where "L' = receiver_did 1 out r L"
  have L': "lreach True link_contents (link_init demo_start) L'" "Seg_RS (q base ser) \<in> lk_back L'" "lk_sender L' = lk_sender L" "lk_forgot L' = {}"
    using lreach.step [OF L(1) r(1)] r(7) L(4) by (simp_all add: L'_def receiver_did_def)
  have blk: "link_block \<noteq> []" "length link_block < 2 ^ 56" using demo_session(1) by (simp_all add: link_contents_def)
  note W = whole_report_completes [OF r(2-4) blk(2,1) x(2,3), folded q_def]
  obtain rpt s' where p: "rs_parse_buffer (packet (q base ser)) blank_report_segment = Inr (0, rpt)"
      "process_report False rpt (ss_sess x) = Some (True, [], s')"
    using W(2) by blast
  have inv: "linv True link_contents L'" using lreach_run [OF L'(1) [unfolded demo_start_def]] by blast
  have "lk_engine L' = 1" unfolding L'(3) x(6) by (rule link_session) blast
  moreover have "session_id (q base ser) = 1" using r(6) by (simp add: q_def new_report_fields [OF refl])
  ultimately have "engine_id rpt = 1" "session_id rpt = 1" using report_arrives [OF inv L'(2) W(1) p(1)] by simp_all
  then obtain o2 t where c: "segment_for_sender (Seg_RS rpt) (lk_sender L) = Some (o2, t)" "Transmitted 7 True \<in> set o2"
    using link_completes [OF x _ _ p(2)] by blast
  have "lstep True link_contents L' (sender_did o2 t L')"
    by (rule sender_gets [OF L'(2), of "Seg_RS rpt" link_env]) (use W(1) p(1) c(1) L'(3) in simp_all)
  then show thesis using that lreach.step [OF L'(1)] c(2) L'(4) by fastforce
qed

theorem reported_means_delivered_witness:
  "\<exists>L ses bs cuts segs n multi. lreach True link_contents (link_init demo_start) L \<and> Transmitted 7 True \<in> set (lk_events L)
     \<and> lk_cut L ses = Some (bs, cuts) \<and> 7 \<in> set bs
     \<and> (ses, segs, n, multi) \<in> lk_posted L \<and> concat (map (payload \<circ> snd) segs) = session_block True (map link_contents bs)"
proof -
  obtain L where L: "lreach True link_contents (link_init demo_start) L" "Transmitted 7 True \<in> set (lk_events L)" "lk_forgot L = {}" by (rule link_run)
  then show ?thesis using reported_means_delivered [OF L(1) [unfolded demo_start_def]] by blast
qed

end
