(* ===== verification/Fragmentation.thy ===== *)
theory Fragmentation
  imports SDNV Naming Cbor_Util
begin

text \<open>
  \<open>FragmentManager.cc\<close> and \<open>FragmentState.cc\<close> of \<open>src/servlib/bundling\<close>: cutting a bundle into fragments
  before it is sent (proactively) or after a transfer was interrupted (reactively), and reassembly at
  the destination. \<open>None\<close> is a failed assertion, a dereferenced null pointer, an impossible allocation
  or a loop that does not end. Lengths are \<open>size_t\<close> and wrap around.
\<close>

section \<open>Bundles and blocks\<close>

datatype block_kind = Primary_block | Payload_block | Extension_block

text \<open>A received block, and a block formatted for a link with the received block it comes from.\<close>

record recv_block =
  rb_kind :: block_kind
  rb_data_offset :: u64
  rb_data_length :: u64
  rb_complete :: bool
  rb_last :: bool

record xmit_block =
  xb_kind :: block_kind
  xb_contents_len :: u64
  xb_full_length :: u64
  xb_data_offset :: u64
  xb_replicate :: bool
  xb_last :: bool
  xb_source :: "recv_block option"

record dtn_bundle =
  b_id :: nat
  b_bpv6 :: bool
  b_secs :: u64
  b_seqno :: u64
  b_source :: string
  b_dest :: string
  b_is_fragment :: bool
  b_do_not_fragment :: bool
  b_orig_length :: u64
  b_frag_offset :: u64
  b_frag_length :: u64
  b_created_from :: nat
  b_local_custody :: bool
  b_accept_custody :: bool
  b_fragmented_incoming :: bool
  b_payload :: bytes
  b_recv_blocks :: "recv_block list"

definition payload_len :: "dtn_bundle \<Rightarrow> u64" where
  "payload_len b = of_nat (length (b_payload b))"

section \<open>Creating a fragment\<close>

definition frag_included :: "bool \<Rightarrow> bool \<Rightarrow> bool \<Rightarrow> xmit_block \<Rightarrow> bool" where
  "frag_included first is_last found_payload b \<longleftrightarrow> xb_kind b = Primary_block \<or> xb_kind b = Payload_block
     \<or> (\<not> found_payload \<and> first) \<or> (found_payload \<and> is_last) \<or> xb_source b = None \<or> xb_replicate b"

text \<open>The received blocks that go with the fragment, and the length of the blocks beside the payload.\<close>

fun frag_scan :: "bool \<Rightarrow> bool \<Rightarrow> bool \<Rightarrow> xmit_block list \<Rightarrow> recv_block list \<times> u64" where
  "frag_scan first is_last found_payload [] = ([], 0)"
| "frag_scan first is_last found_payload (b # bs) =
     (let (srcs, n) = frag_scan first is_last (found_payload \<or> xb_kind b = Payload_block) bs in
      if frag_included first is_last found_payload b
      then ((case xb_source b of None \<Rightarrow> srcs | Some r \<Rightarrow> r # srcs),
            if xb_kind b = Payload_block then n else xb_contents_len b + n)
      else (srcs, n))"

abbreviation frag_ext_len :: "bool \<Rightarrow> bool \<Rightarrow> xmit_block list \<Rightarrow> u64" where
  "frag_ext_len first is_last xmit \<equiv> snd (frag_scan first is_last False xmit)"

abbreviation sdnv_size :: "u64 \<Rightarrow> u64" where
  "sdnv_size v \<equiv> of_nat (sdnv_encoding_len v)"

abbreviation cbor_size :: "u64 \<Rightarrow> u64" where
  "cbor_size v \<equiv> of_nat (uint64_encoding_len v)"

text \<open>What the fragment fields of the new primary block take, for the two versions.\<close>

definition frag_extra_bp6 :: "dtn_bundle \<Rightarrow> u64 \<Rightarrow> u64" where
  "frag_extra_bp6 b off =
     (if \<not> b_is_fragment b then sdnv_size (payload_len b) + sdnv_size off
      else sdnv_size (b_frag_offset b + off) - sdnv_size (b_frag_offset b))"

definition frag_extra_bp7 :: "dtn_bundle \<Rightarrow> u64" where
  "frag_extra_bp7 b = (if \<not> b_is_fragment b then cbor_size (payload_len b) * 2 else cbor_size (b_orig_length b))"

definition clamp_length :: "u64 \<Rightarrow> u64 \<Rightarrow> u64 \<Rightarrow> bool \<Rightarrow> u64" where
  "clamp_length plen off len first =
     (if off + len \<ge> plen then
        let l = plen - off in
        if first then if l mod 2 = 0 then l div 2 else l div 2 + 1 else l
      else len)"

definition write_payload :: "bytes \<Rightarrow> u64 \<Rightarrow> u64 \<Rightarrow> bytes option" where
  "write_payload src off len =
     (if unat off + unat len \<le> length src then Some (take (unat len) (drop (unat off) src)) else None)"

text \<open>
  The common part: metadata, position and payload. A fragment of a bundle in local custody is taken
  into custody as well.
\<close>

definition make_fragment :: "nat \<Rightarrow> dtn_bundle \<Rightarrow> recv_block list \<Rightarrow> u64 \<Rightarrow> u64 \<Rightarrow> bool \<Rightarrow> dtn_bundle option" where
  "make_fragment new_id b srcs off len first =
     (let l = clamp_length (payload_len b) off len first in
      map_option (\<lambda>p. b\<lparr>b_id := new_id, b_is_fragment := True, b_do_not_fragment := False, b_created_from := b_id b,
          b_recv_blocks := srcs,
          b_orig_length := (if b_is_fragment b then b_orig_length b else payload_len b),
          b_frag_offset := (if b_is_fragment b then b_frag_offset b + off else off),
          b_frag_length := l, b_payload := p, b_local_custody := False, b_accept_custody := b_local_custody b,
          b_fragmented_incoming := False\<rparr>)
        (write_payload (b_payload b) off l))"

definition create_fragment_bp6 :: "nat \<Rightarrow> dtn_bundle \<Rightarrow> xmit_block list \<Rightarrow> u64 \<Rightarrow> u64 \<Rightarrow> bool \<Rightarrow> bool \<Rightarrow> dtn_bundle option" where
  "create_fragment_bp6 new_id b xmit off len first is_last =
     (let (srcs, ext) = frag_scan first is_last False xmit
      in make_fragment new_id b srcs off (len - ext - frag_extra_bp6 b off - 12) first)"

definition create_fragment_bp7 :: "nat \<Rightarrow> dtn_bundle \<Rightarrow> xmit_block list \<Rightarrow> u64 \<Rightarrow> u64 \<Rightarrow> bool \<Rightarrow> bool \<Rightarrow> dtn_bundle option" where
  "create_fragment_bp7 new_id b xmit off len first is_last =
     (let (srcs, ext) = frag_scan first is_last False xmit
      in make_fragment new_id b srcs off (len - ext - frag_extra_bp7 b - 12) first)"

definition create_fragment :: "nat \<Rightarrow> dtn_bundle \<Rightarrow> xmit_block list \<Rightarrow> u64 \<Rightarrow> u64 \<Rightarrow> bool \<Rightarrow> bool \<Rightarrow> dtn_bundle option" where
  "create_fragment new_id b xmit off len first is_last =
     (if b_bpv6 b then create_fragment_bp6 new_id b xmit off len first is_last
      else create_fragment_bp7 new_id b xmit off len first is_last)"

section \<open>Fragmentation state\<close>

record fragment_state =
  fs_bundle :: dtn_bundle
  fs_fragments :: "dtn_bundle list"

type_synonym fragment_table = "string \<Rightarrow> fragment_state option"

definition get_hash_key :: "dtn_bundle \<Rightarrow> string" where
  "get_hash_key b = dec_string (unat (b_secs b)) @ ''.'' @ dec_string (unat (b_seqno b)) @ b_source b @ b_dest b"

text \<open>\<open>BundleList::insert_sorted\<close> by fragment offset; a bundle that is on the list is not added again.\<close>

fun insert_by_offset :: "dtn_bundle \<Rightarrow> dtn_bundle list \<Rightarrow> dtn_bundle list" where
  "insert_by_offset b [] = [b]"
| "insert_by_offset b (c # cs) = (if b_frag_offset c > b_frag_offset b then b # c # cs else c # insert_by_offset b cs)"

definition add_fragment :: "dtn_bundle \<Rightarrow> fragment_state \<Rightarrow> fragment_state" where
  "add_fragment f st =
     (if b_id f \<in> set (map b_id (fs_fragments st)) then st else st\<lparr>fs_fragments := insert_by_offset f (fs_fragments st)\<rparr>)"

definition erase_fragment :: "dtn_bundle \<Rightarrow> fragment_state \<Rightarrow> bool \<times> fragment_state" where
  "erase_fragment f st =
     (b_id f \<in> set (map b_id (fs_fragments st)), st\<lparr>fs_fragments := filter (\<lambda>c. b_id c \<noteq> b_id f) (fs_fragments st)\<rparr>)"

text \<open>The loop of \<open>check_completed\<close>; \<open>None\<close> is the panic on a fragment of another length.\<close>

fun check_loop :: "u64 \<Rightarrow> u64 \<Rightarrow> dtn_bundle list \<Rightarrow> bool option" where
  "check_loop total_len done_up_to [] = Some (done_up_to = total_len)"
| "check_loop total_len done_up_to (f # fs) =
     (let f_len = payload_len f; f_offset = b_frag_offset f in
      if \<not> b_is_fragment f then None
      else if b_orig_length f \<noteq> total_len then None
      else if done_up_to = f_offset then check_loop total_len (done_up_to + f_len) fs
      else if done_up_to < f_offset then Some False
      else if done_up_to > f_offset + f_len then check_loop total_len done_up_to fs
      else check_loop total_len (done_up_to + (f_len - (done_up_to - f_offset))) fs)"

definition check_completed :: "fragment_state \<Rightarrow> bool option" where
  "check_completed st = check_loop (payload_len (fs_bundle st)) 0 (fs_fragments st)"

section \<open>Proactive fragmentation\<close>

text \<open>The overhead of the first and of the last fragment.\<close>

fun frag_lens :: "bool \<Rightarrow> xmit_block list \<Rightarrow> u64 \<times> u64" where
  "frag_lens found_payload [] = (0, 0)"
| "frag_lens found_payload (b # bs) =
     (let (f, l) = frag_lens (found_payload \<or> xb_kind b = Payload_block) bs; n = xb_contents_len b in
      if xb_kind b = Primary_block then (n + f, n + l)
      else if xb_kind b = Payload_block then (f, l)
      else if xb_replicate b \<or> xb_source b = None then (n + f, n + l)
      else if found_payload then (f, n + l)
      else (n + f, l))"

definition overhead_bp6 :: "dtn_bundle \<Rightarrow> u64" where
  "overhead_bp6 b = (if b_is_fragment b then sdnv_size (b_orig_length b) else sdnv_size (payload_len b * 2)) + 12"

definition overhead_bp7 :: "dtn_bundle \<Rightarrow> u64" where
  "overhead_bp7 b = 2 + (if b_is_fragment b then cbor_size (b_orig_length b) else cbor_size (payload_len b) * 2) + 12"

text \<open>The loop: the next bundle id, whether this is the first fragment, offset, bytes left, state.\<close>

partial_function (option) frag_loop ::
    "dtn_bundle \<Rightarrow> xmit_block list \<Rightarrow> u64 \<Rightarrow> u64 \<Rightarrow> nat \<Rightarrow> bool \<Rightarrow> u64 \<Rightarrow> u64 \<Rightarrow> fragment_state
      \<Rightarrow> (dtn_bundle \<times> nat \<times> fragment_state) option" where
  "frag_loop b xmit max_length last_len new_id first off todo st =
     (let is_last = (\<not> first \<and> todo + last_len \<le> max_length) in
      case create_fragment new_id b xmit off max_length first is_last of
        None \<Rightarrow> None
      | Some f \<Rightarrow>
          let st1 = add_fragment f st; todo1 = todo - payload_len f in
          if todo1 > 0 then frag_loop b xmit max_length last_len (new_id + 1) False (off + payload_len f) todo1 st1
          else Some (f, new_id + 1, st1))"

text \<open>
  The result: whether the bundle was fragmented, the state with the fragments, the next bundle id and
  the table. A bundle that is itself a fragment uses the state of its reassembly, which exists only
  when it is addressed to this node.
\<close>

definition proactively_fragment ::
    "dtn_bundle \<Rightarrow> xmit_block list \<Rightarrow> u64 \<Rightarrow> nat \<Rightarrow> fragment_table \<Rightarrow> (fragment_state option \<times> nat \<times> fragment_table) option" where
  "proactively_fragment b xmit max_length new_id tbl =
     (let state = (if \<not> b_is_fragment b then Some \<lparr>fs_bundle = b, fs_fragments = []\<rparr> else tbl (get_hash_key b));
          (f, l) = frag_lens False xmit;
          over = (if b_bpv6 b then overhead_bp6 b else overhead_bp7 b);
          first_len = f + over; last_len = l + over
      in if payload_len b \<le> 1 then Some (None, new_id, tbl)
         else if first_len \<ge> max_length \<or> last_len \<ge> max_length then Some (None, new_id, tbl)
         else
           let max1 = (if b_bpv6 b \<and> max_length > 10 then max_length - 10 else max_length) in
           case state of
             None \<Rightarrow> None
           | Some st \<Rightarrow>
               map_option (\<lambda>(frag, id', st'). (Some st', id', tbl(get_hash_key frag \<mapsto> st')))
                 (frag_loop b xmit max1 last_len new_id True 0 (payload_len b) st))"

section \<open>Reactive fragmentation\<close>

text \<open>A partly received bundle is turned into a fragment: the result and the bundle.\<close>

definition try_to_convert_to_fragment :: "dtn_bundle \<Rightarrow> (bool \<times> dtn_bundle) option" where
  "try_to_convert_to_fragment b =
     (case find (\<lambda>r. rb_kind r = Payload_block) (b_recv_blocks b) of
        None \<Rightarrow> Some (False, b)
      | Some pb \<Rightarrow>
          if rb_data_offset pb = 0 \<or> b_do_not_fragment b \<or> rb_data_length pb \<le> 1 then Some (False, b)
          else
            let rcvd = payload_len b; plen = rb_data_length pb;
                convert = (\<lambda>b1. (True, (if \<not> b_is_fragment b1 then b1\<lparr>b_is_fragment := True, b_orig_length := plen, b_frag_offset := 0\<rparr>
                             else b1)\<lparr>b_fragmented_incoming := True\<rparr>))
            in if rcvd \<ge> plen then
                 let lb = last (b_recv_blocks b) in
                 if \<not> rb_complete pb then None
                 else if \<not> b_bpv6 b \<or> rb_last pb then Some (False, b)
                 else if rb_data_offset lb \<noteq> 0 \<and> rb_complete lb \<and> rb_last lb then Some (False, b)
                 else Some (convert (b\<lparr>b_payload := butlast (b_payload b)\<rparr>))
               else Some (convert b))"

fun xmit_payload_offset :: "xmit_block list \<Rightarrow> u64" where
  "xmit_payload_offset [] = 0"
| "xmit_payload_offset (b # bs) =
     (if xb_kind b = Payload_block then xb_data_offset b else xb_full_length b + xmit_payload_offset bs)"

definition xmit_total_length :: "bool \<Rightarrow> xmit_block list \<Rightarrow> u64" where
  "xmit_total_length bpv6 bs = (if bpv6 then 0 else 2) + sum_list (map xb_full_length bs)"

text \<open>The tail that has not been sent, as a fragment that is handled like one that just arrived.\<close>

definition try_to_reactively_fragment :: "nat \<Rightarrow> dtn_bundle \<Rightarrow> xmit_block list \<Rightarrow> u64 \<Rightarrow> dtn_bundle option option" where
  "try_to_reactively_fragment new_id b blocks bytes_sent =
     (let poff = xmit_payload_offset blocks; plen = payload_len b in
      if b_do_not_fragment b \<or> bytes_sent \<le> poff \<or> bytes_sent \<ge> xmit_total_length (b_bpv6 b) blocks \<or> plen \<le> 1
      then Some None
      else
        let sent = min plen (bytes_sent - poff) in
        if sent \<ge> plen then
          case find (\<lambda>x. xb_kind x = Payload_block) blocks of
            None \<Rightarrow> None
          | Some pb \<Rightarrow> if xb_last pb then None
                       else map_option Some (create_fragment new_id b blocks (plen - 1) 1 False True)
        else map_option Some (create_fragment new_id b blocks sent (plen - sent) False True))"

section \<open>Reassembly\<close>

text \<open>
  Writing beyond the end of the payload fails an assertion; when the sum of offset and length wraps
  around, the assertion holds and the write leaves the payload.
\<close>

definition take_through :: "('a \<Rightarrow> bool) \<Rightarrow> 'a list \<Rightarrow> 'a list" where
  "take_through P xs = takeWhile (\<lambda>x. \<not> P x) xs @ take 1 (dropWhile (\<lambda>x. \<not> P x) xs)"

text \<open>
  The blocks of the reassembled bundle: those up to the payload from the first fragment, in front, and
  those behind the payload from the last one.
\<close>

definition merge_blocks :: "dtn_bundle \<Rightarrow> recv_block list \<Rightarrow> recv_block list" where
  "merge_blocks f blocks =
     (let is_payload = (\<lambda>r. rb_kind r = Payload_block); bs = b_recv_blocks f;
          blocks1 = (if b_frag_offset f = 0 then take_through is_payload bs @ blocks else blocks)
      in if b_frag_offset f + payload_len f = b_orig_length f
         then blocks1 @ tl (dropWhile (\<lambda>x. \<not> is_payload x) bs) else blocks1)"

definition overwrite :: "nat \<Rightarrow> bytes \<Rightarrow> bytes \<Rightarrow> bytes" where
  "overwrite k d p = take k p @ d @ drop (k + length d) p"

text \<open>
  A fragment for this node: the bundle when it is complete, with its fragments, and the table. The
  payload of a new reassembly has the length that the fragment announces; its bytes are not specified
  until they are written.
\<close>

definition new_reassembly :: "nat \<Rightarrow> dtn_bundle \<Rightarrow> fragment_state" where
  "new_reassembly new_id f =
     \<lparr>fs_bundle = f\<lparr>b_id := new_id, b_is_fragment := False, b_payload := replicate (unat (b_orig_length f)) 0,
        b_recv_blocks := [], b_local_custody := False\<rparr>,
      fs_fragments = []\<rparr>"

definition reassemble :: "dtn_bundle \<Rightarrow> fragment_state \<Rightarrow> (bool \<times> fragment_state) option" where
  "reassemble f st =
     (let st1 = add_fragment f st; whole = fs_bundle st1 in
      if length (b_payload whole) < unat (b_frag_offset f) + length (b_payload f) then None
      else
        let st2 = st1\<lparr>fs_bundle := whole\<lparr>b_payload := overwrite (unat (b_frag_offset f)) (b_payload f) (b_payload whole),
                      b_recv_blocks := merge_blocks f (b_recv_blocks whole)\<rparr>\<rparr>
        in map_option (\<lambda>c. (c, st2)) (check_completed st2))"

definition process_for_reassembly ::
    "nat \<Rightarrow> dtn_bundle \<Rightarrow> fragment_table \<Rightarrow> ((dtn_bundle \<times> dtn_bundle list) option \<times> fragment_table) option" where
  "process_for_reassembly new_id f tbl =
     (if \<not> b_is_fragment f then None
      else
        let key = get_hash_key f;
            st = (case tbl key of None \<Rightarrow> new_reassembly new_id f | Some s \<Rightarrow> s)
        in map_option (\<lambda>(complete, st').
             if complete then (Some (fs_bundle st', fs_fragments st'), tbl(key := None))
             else (None, tbl(key \<mapsto> st'))) (reassemble f st))"

definition delete_obsoleted_fragments :: "dtn_bundle \<Rightarrow> fragment_table \<Rightarrow> dtn_bundle list \<times> fragment_table" where
  "delete_obsoleted_fragments b tbl =
     (let key = get_hash_key b in
      case tbl key of None \<Rightarrow> ([], tbl) | Some st \<Rightarrow> (rev (fs_fragments st), tbl(key := None)))"

definition delete_fragment :: "dtn_bundle \<Rightarrow> fragment_table \<Rightarrow> fragment_table option" where
  "delete_fragment f tbl =
     (if \<not> b_is_fragment f then None
      else
        let key = get_hash_key f in
        case tbl key of
          None \<Rightarrow> Some tbl
        | Some st \<Rightarrow>
            let (erased, st') = erase_fragment f st in
            if \<not> erased then Some tbl
            else if fs_fragments st' = [] then Some (tbl(key := None))
            else Some (tbl(key \<mapsto> st')))"

section \<open>Fragments of a payload\<close>

definition frag_of :: "bytes \<Rightarrow> dtn_bundle \<Rightarrow> bool" where
  "frag_of P f \<longleftrightarrow> length P < 2 ^ 63 \<and> b_is_fragment f \<and> b_orig_length f = of_nat (length P)
     \<and> unat (b_frag_offset f) + length (b_payload f) \<le> length P
     \<and> b_payload f = take (length (b_payload f)) (drop (unat (b_frag_offset f)) P)"

definition frag_bytes :: "dtn_bundle \<Rightarrow> nat set" where
  "frag_bytes f = {unat (b_frag_offset f)..<unat (b_frag_offset f) + length (b_payload f)}"

definition covers :: "bytes \<Rightarrow> dtn_bundle list \<Rightarrow> bool" where
  "covers P fs \<longleftrightarrow> {0..<length P} \<subseteq> (\<Union>f \<in> set fs. frag_bytes f)"

lemma unat_of_nat_u64: "n < 2 ^ 64 \<Longrightarrow> unat (of_nat n :: u64) = n"
  by (simp add: unsigned_of_nat take_bit_nat_eq_self)

lemma unat_payload_len: "length (b_payload b) < 2 ^ 64 \<Longrightarrow> unat (payload_len b) = length (b_payload b)"
  by (simp add: payload_len_def unat_of_nat_u64)

lemma unat_add_u64: "unat (a :: u64) + unat b < 2 ^ 64 \<Longrightarrow> unat (a + b) = unat a + unat b"
  by (simp add: unat_word_ariths)

lemma unat_sub_u64: "unat (b :: u64) \<le> unat a \<Longrightarrow> unat (a - b) = unat a - unat b"
  by (simp add: unat_sub_if')

lemma frag_ofD:
  assumes "frag_of P f"
  shows "length P < 2 ^ 63" and "b_is_fragment f" and "b_orig_length f = of_nat (length P)"
    and "unat (b_frag_offset f) + length (b_payload f) \<le> length P"
    and "b_payload f = take (length (b_payload f)) (drop (unat (b_frag_offset f)) P)"
    and "unat (payload_len f) = length (b_payload f)"
    and "unat (b_frag_offset f + payload_len f) = unat (b_frag_offset f) + length (b_payload f)"
proof -
  show a: "length P < 2 ^ 63" "b_is_fragment f" "b_orig_length f = of_nat (length P)"
    "unat (b_frag_offset f) + length (b_payload f) \<le> length P"
    "b_payload f = take (length (b_payload f)) (drop (unat (b_frag_offset f)) P)"
    using assms unfolding frag_of_def by blast+
  show l: "unat (payload_len f) = length (b_payload f)" by (rule unat_payload_len) (use a(1,4) in simp)
  show "unat (b_frag_offset f + payload_len f) = unat (b_frag_offset f) + length (b_payload f)"
    using unat_add_u64 [of "b_frag_offset f" "payload_len f"] l a(1,4) by simp
qed

text \<open>The list is kept in the order of the offsets.\<close>

definition by_offset :: "dtn_bundle list \<Rightarrow> bool" where
  "by_offset fs \<longleftrightarrow> sorted (map (\<lambda>f. unat (b_frag_offset f)) fs)"

lemma set_insert_by_offset [simp]: "set (insert_by_offset f fs) = insert f (set fs)"
  by (induction fs) auto

lemma by_offset_insert: "by_offset fs \<Longrightarrow> by_offset (insert_by_offset f fs)"
  by (induction fs) (auto simp: by_offset_def word_less_nat_alt not_less)

lemma cover_advance:
  fixes a d e N :: nat
  assumes "a \<le> d"
  shows "{d..<N} \<subseteq> {a..<e} \<union> X \<longleftrightarrow> {max d e..<N} \<subseteq> X"
  using assms by (auto simp: subset_iff)

text \<open>What the loop of \<open>check_completed\<close> decides.\<close>

lemma check_loop_covers:
  assumes "\<forall>f \<in> set fs. frag_of P f" and "by_offset fs" and "unat d \<le> length P" and "length P < 2 ^ 63"
  shows "check_loop (of_nat (length P)) d fs = Some ({unat d..<length P} \<subseteq> (\<Union>f \<in> set fs. frag_bytes f))"
  using assms
proof (induction fs arbitrary: d)
  case Nil
  then show ?case by (auto simp: word_unat_eq_iff unat_of_nat_u64)
next
  case (Cons f fs)
  note F = frag_ofD [OF list.set_intros(1) [THEN bspec [OF Cons.prems(1)]]]
  let ?o = "unat (b_frag_offset f)" and ?l = "length (b_payload f)"
  have later: "?o \<le> unat (b_frag_offset g)" if "g \<in> set fs" for g using Cons.prems(2) that by (auto simp: by_offset_def)
  have IH: "check_loop (of_nat (length P)) e fs = Some ({unat e..<length P} \<subseteq> (\<Union>f \<in> set fs. frag_bytes f))"
    if "unat e \<le> length P" for e
    by (rule Cons.IH) (use Cons.prems that in \<open>auto simp: by_offset_def\<close>)
  have adv: "Some ({unat e..<length P} \<subseteq> (\<Union>f \<in> set fs. frag_bytes f)) = Some ({unat d..<length P} \<subseteq> (\<Union>f \<in> set (f # fs). frag_bytes f))"
    if "?o \<le> unat d" "unat e = max (unat d) (?o + ?l)" for e
    using cover_advance [OF that(1)] that(2) by (simp add: frag_bytes_def)
  consider (fit) "unat d = ?o" | (hole) "unat d < ?o" | (redundant) "?o + ?l < unat d" | (overlap) "?o < unat d" "unat d \<le> ?o + ?l"
    by linarith
  then show ?case
  proof cases
    case fit
    then have d: "d = b_frag_offset f" by (simp add: word_unat_eq_iff)
    have e: "unat (d + payload_len f) = ?o + ?l" using F(7) d by simp
    have "check_loop (of_nat (length P)) d (f # fs) = check_loop (of_nat (length P)) (d + payload_len f) fs"
      using F(2,3) d by simp
    also have "\<dots> = Some ({unat (d + payload_len f)..<length P} \<subseteq> (\<Union>f \<in> set fs. frag_bytes f))" by (rule IH) (use e F(4) in simp)
    also have "\<dots> = Some ({unat d..<length P} \<subseteq> (\<Union>f \<in> set (f # fs). frag_bytes f))" by (rule adv) (use fit e in simp_all)
    finally show ?thesis .
  next
    case hole
    then have "check_loop (of_nat (length P)) d (f # fs) = Some False"
      using F(2,3) by (auto simp: word_less_nat_alt Let_def)
    moreover have "unat d \<notin> (\<Union>f \<in> set (f # fs). frag_bytes f)" using hole later by (force simp: frag_bytes_def)
    moreover have "unat d < length P" using hole F(4) by simp
    ultimately show ?thesis by force
  next
    case redundant
    then have "check_loop (of_nat (length P)) d (f # fs) = check_loop (of_nat (length P)) d fs"
      using F(2,3,7) by (auto simp: word_less_nat_alt Let_def)
    also have "\<dots> = Some ({unat d..<length P} \<subseteq> (\<Union>f \<in> set fs. frag_bytes f))" by (rule IH) (use Cons.prems(3) in simp)
    also have "\<dots> = Some ({unat d..<length P} \<subseteq> (\<Union>f \<in> set (f # fs). frag_bytes f))" by (rule adv) (use redundant in simp_all)
    finally show ?thesis .
  next
    case overlap
    define e where "e = d + (payload_len f - (d - b_frag_offset f))"
    have ee: "e = b_frag_offset f + payload_len f" by (simp add: e_def)
    have e: "unat e = ?o + ?l" using F(7) ee by simp
    have "check_loop (of_nat (length P)) d (f # fs) = check_loop (of_nat (length P)) e fs"
      using F(2,3,7) overlap by (auto simp: word_less_nat_alt Let_def e_def)
    also have "\<dots> = Some ({unat e..<length P} \<subseteq> (\<Union>f \<in> set fs. frag_bytes f))" by (rule IH) (use e F(4) in simp)
    also have "\<dots> = Some ({unat d..<length P} \<subseteq> (\<Union>f \<in> set (f # fs). frag_bytes f))" by (rule adv) (use overlap e in simp_all)
    finally show ?thesis .
  qed
qed

section \<open>Reassembly\<close>

text \<open>The state after the fragments \<open>fs\<close>: their bytes are in place, and all of them are on the list.\<close>

definition reasm_inv :: "bytes \<Rightarrow> dtn_bundle list \<Rightarrow> fragment_state \<Rightarrow> bool" where
  "reasm_inv P fs st \<longleftrightarrow> length P < 2 ^ 63 \<and> length (b_payload (fs_bundle st)) = length P
     \<and> (\<forall>f \<in> set fs. \<forall>x \<in> frag_bytes f. b_payload (fs_bundle st) ! x = P ! x)
     \<and> (\<forall>f \<in> set fs. frag_of P f) \<and> set (fs_fragments st) = set fs \<and> by_offset (fs_fragments st)"

lemma overwrite_nth:
  assumes "k + length d \<le> length p" and "x < length p"
  shows "overwrite k d p ! x = (if x \<in> {k..<k + length d} then d ! (x - k) else p ! x)"
    and "length (overwrite k d p) = length p"
  using assms by (auto simp: overwrite_def nth_append min_def)

lemma reassemble_step:
  assumes "reasm_inv P fs st" and "frag_of P f" and "b_id f \<notin> b_id ` set fs"
  shows "\<exists>st'. reassemble f st = Some (covers P (fs @ [f]), st') \<and> reasm_inv P (fs @ [f]) st'"
proof -
  note F = frag_ofD [OF assms(2)]
  let ?w = "fs_bundle st" and ?o = "unat (b_frag_offset f)" and ?d = "b_payload f"
  have I: "length (b_payload ?w) = length P" "\<forall>f \<in> set fs. \<forall>x \<in> frag_bytes f. b_payload ?w ! x = P ! x"
    "\<forall>f \<in> set fs. frag_of P f" "set (fs_fragments st) = set fs" "by_offset (fs_fragments st)"
    using assms(1) unfolding reasm_inv_def by blast+
  have add: "add_fragment f st = st\<lparr>fs_fragments := insert_by_offset f (fs_fragments st)\<rparr>"
    using assms(3) I(4) by (simp add: add_fragment_def)
  define p where "p = overwrite ?o ?d (b_payload ?w)"
  define st' where "st' = st\<lparr>fs_fragments := insert_by_offset f (fs_fragments st),
    fs_bundle := ?w\<lparr>b_payload := p, b_recv_blocks := merge_blocks f (b_recv_blocks ?w)\<rparr>\<rparr>"
  have step: "reassemble f st = map_option (\<lambda>c. (c, st')) (check_completed st')"
    using F(4) I(1) by (simp add: reassemble_def add st'_def p_def Let_def)
  have fits: "?o + length ?d \<le> length (b_payload ?w)" using F(4) I(1) by simp
  have lp: "length p = length P" using I(1) F(4) by (simp add: p_def overwrite_def)
  have inside: "x < length P" if "g \<in> set (fs @ [f])" "x \<in> frag_bytes g" for g x
    using that I(3) assms(2) frag_ofD(4) [of P g] by (auto simp: frag_bytes_def)
  have nth: "p ! x = P ! x" if "g \<in> set (fs @ [f])" "x \<in> frag_bytes g" for g x
  proof (cases "x \<in> frag_bytes f")
    case True
    then have "p ! x = ?d ! (x - ?o)" using overwrite_nth(1) [OF fits, of x] inside [OF that] I(1) by (simp add: p_def frag_bytes_def)
    moreover have "?d ! (x - ?o) = take (length ?d) (drop ?o P) ! (x - ?o)" using F(5) by metis
    ultimately show ?thesis using True F(4) by (auto simp: frag_bytes_def)
  next
    case False
    then have "p ! x = b_payload ?w ! x" using overwrite_nth(1) [OF fits, of x] inside [OF that] I(1) by (auto simp: p_def frag_bytes_def)
    then show ?thesis using I(2) that False by auto
  qed
  have inv: "reasm_inv P (fs @ [f]) st'"
    unfolding reasm_inv_def using F(1) lp nth I(3-5) assms(2) by_offset_insert [OF I(5), of f] by (auto simp: st'_def)
  have "check_completed st' = Some ({unat (0 :: u64)..<length P} \<subseteq> (\<Union>f \<in> set (fs_fragments st'). frag_bytes f))"
    unfolding check_completed_def using check_loop_covers [of "fs_fragments st'" P 0] inv F(1) lp
    by (simp add: reasm_inv_def payload_len_def)
  then show ?thesis using step inv by (simp add: covers_def st'_def I(4) Un_commute)
qed

text \<open>A complete payload.\<close>

lemma covers_payload: "reasm_inv P fs st \<Longrightarrow> covers P fs \<Longrightarrow> b_payload (fs_bundle st) = P"
  by (rule nth_equalityI) (auto simp: reasm_inv_def covers_def subset_iff)

lemma new_reassembly_inv:
  assumes "frag_of P f"
  shows "reasm_inv P [] (new_reassembly n f)"
  using frag_ofD(1,3) [OF assms] by (simp add: reasm_inv_def new_reassembly_def by_offset_def unat_of_nat_u64)

text \<open>Fragments one after the other: the bundles that are completed.\<close>

fun receive_fragments ::
    "nat \<Rightarrow> dtn_bundle list \<Rightarrow> fragment_table \<Rightarrow> ((dtn_bundle \<times> dtn_bundle list) list \<times> fragment_table) option" where
  "receive_fragments new_id [] tbl = Some ([], tbl)"
| "receive_fragments new_id (f # fs) tbl =
     (case process_for_reassembly new_id f tbl of
        None \<Rightarrow> None
      | Some (r, tbl1) \<Rightarrow>
          map_option (\<lambda>(rs, t). (case r of None \<Rightarrow> rs | Some x \<Rightarrow> x # rs, t)) (receive_fragments (new_id + 1) fs tbl1))"

text \<open>The table after fragments that do not yet cover the payload.\<close>

definition pending :: "string \<Rightarrow> bytes \<Rightarrow> dtn_bundle list \<Rightarrow> fragment_table \<Rightarrow> bool" where
  "pending k P fs tbl \<longleftrightarrow> (case tbl k of None \<Rightarrow> fs = [] | Some st \<Rightarrow> reasm_inv P fs st)"

lemma process_step:
  assumes "pending k P fs tbl" and "frag_of P f" and "get_hash_key f = k" and "b_id f \<notin> b_id ` set fs"
  shows "\<exists>st. reasm_inv P (fs @ [f]) st \<and> process_for_reassembly n f tbl =
    Some (if covers P (fs @ [f]) then (Some (fs_bundle st, fs_fragments st), tbl(k := None)) else (None, tbl(k \<mapsto> st)))"
proof -
  define st where "st = (case tbl k of None \<Rightarrow> new_reassembly n f | Some s \<Rightarrow> s)"
  have "reasm_inv P fs st"
    using assms(1) new_reassembly_inv [OF assms(2), of n] by (auto simp: pending_def st_def split: option.splits)
  then obtain st' where "reassemble f st = Some (covers P (fs @ [f]), st')" "reasm_inv P (fs @ [f]) st'"
    using reassemble_step assms(2,4) by blast
  then show ?thesis using assms(3) frag_ofD(2) [OF assms(2)]
    by (intro exI [of _ st']) (simp add: process_for_reassembly_def st_def Let_def)
qed

text \<open>The bundles delivered and the table after the fragments \<open>fs\<close>.\<close>

definition outcome :: "string \<Rightarrow> bytes \<Rightarrow> dtn_bundle list \<Rightarrow> (dtn_bundle \<times> dtn_bundle list) list \<Rightarrow> fragment_table \<Rightarrow> bool" where
  "outcome k P fs rs tbl \<longleftrightarrow>
     (if covers P fs then tbl k = None \<and> (\<exists>b frs. rs = [(b, frs)] \<and> b_payload b = P \<and> set frs = set fs)
      else rs = [] \<and> pending k P fs tbl)"

lemma receive_pending:
  assumes "pending k P seen tbl" and "\<forall>f \<in> set fs. frag_of P f \<and> get_hash_key f = k"
    and "distinct (map b_id (seen @ fs))" and "\<forall>n < length fs. 0 < n \<longrightarrow> \<not> covers P (seen @ take n fs)" and "fs \<noteq> []"
  shows "\<exists>rs tbl'. receive_fragments n fs tbl = Some (rs, tbl') \<and> (\<forall>j. j \<noteq> k \<longrightarrow> tbl' j = tbl j) \<and> outcome k P (seen @ fs) rs tbl'"
  using assms
proof (induction fs arbitrary: seen tbl n)
  case (Cons f fs)
  have f: "frag_of P f" "get_hash_key f = k" "b_id f \<notin> b_id ` set seen" using Cons.prems(2,3) by auto
  obtain st where st: "reasm_inv P (seen @ [f]) st"
    "process_for_reassembly n f tbl = Some (if covers P (seen @ [f]) then (Some (fs_bundle st, fs_fragments st), tbl(k := None)) else (None, tbl(k \<mapsto> st)))"
    using process_step [OF Cons.prems(1) f] by blast
  show ?case
  proof (cases "fs = []")
    case True
    then show ?thesis using st covers_payload [OF st(1)] by (auto simp: reasm_inv_def pending_def outcome_def)
  next
    case False
    then have nc: "\<not> covers P (seen @ [f])" using Cons.prems(4) [rule_format, of 1] by simp
    have "\<not> covers P ((seen @ [f]) @ take m fs)" if "m < length fs" "0 < m" for m
      using Cons.prems(4) [rule_format, of "Suc m"] that by simp
    then have "\<exists>rs tbl'. receive_fragments (n + 1) fs (tbl(k \<mapsto> st)) = Some (rs, tbl')
        \<and> (\<forall>j. j \<noteq> k \<longrightarrow> tbl' j = (tbl(k \<mapsto> st)) j) \<and> outcome k P ((seen @ [f]) @ fs) rs tbl'"
      using Cons.prems False st(1) by (intro Cons.IH) (auto simp: pending_def)
    then show ?thesis using st(2) nc by auto
  qed
qed simp

section \<open>Properties\<close>

text \<open>
  C6. Reassembly of a bundle. Fragments of one bundle may arrive in any order, overlap and repeat
  bytes. Then no assertion fails; nothing is delivered as long as a byte is missing; and when the last
  missing byte arrives, exactly one bundle is delivered, its payload is the original one, it comes with
  all fragments received, and the reassembly state is removed. Other bundles are not affected.
\<close>
theorem fragments_reassemble:
  assumes "\<forall>f \<in> set fs. frag_of P f \<and> get_hash_key f = k" and "distinct (map b_id fs)" and "fs \<noteq> []"
    and "tbl k = None" and "\<forall>n < length fs. 0 < n \<longrightarrow> \<not> covers P (take n fs)"
  shows "\<exists>rs tbl'. receive_fragments n fs tbl = Some (rs, tbl') \<and> (\<forall>j. j \<noteq> k \<longrightarrow> tbl' j = tbl j)
    \<and> (if covers P fs then tbl' k = None \<and> (\<exists>b frs. rs = [(b, frs)] \<and> b_payload b = P \<and> set frs = set fs)
       else rs = [] \<and> (\<exists>st. tbl' k = Some st))"
proof -
  have "pending k P [] tbl" using assms(4) by (simp add: pending_def)
  from receive_pending [OF this assms(1) _ _ assms(3), of n] assms(2,5)
  obtain rs tbl' where r: "receive_fragments n fs tbl = Some (rs, tbl')" "\<forall>j. j \<noteq> k \<longrightarrow> tbl' j = tbl j" "outcome k P fs rs tbl'"
    by auto
  moreover have "\<exists>st. tbl' k = Some st" if "pending k P fs tbl'"
    using that assms(3) by (cases "tbl' k") (simp_all add: pending_def)
  ultimately show ?thesis by (cases "covers P fs") (auto simp: outcome_def)
qed

definition demo_bundle :: dtn_bundle where
  "demo_bundle = \<lparr>b_id = 1, b_bpv6 = False, b_secs = 7, b_seqno = 2, b_source = ''ipn:1.1'', b_dest = ''ipn:2.1'',
     b_is_fragment = False, b_do_not_fragment = False, b_orig_length = 0, b_frag_offset = 0, b_frag_length = 0,
     b_created_from = 0, b_local_custody = False, b_accept_custody = False, b_fragmented_incoming = False,
     b_payload = [10, 11, 12, 13, 14], b_recv_blocks = []\<rparr>"

definition demo_fragment :: "nat \<Rightarrow> u64 \<Rightarrow> nat \<Rightarrow> dtn_bundle" where
  "demo_fragment i off n = demo_bundle\<lparr>b_id := i, b_is_fragment := True, b_orig_length := 5, b_frag_offset := off,
     b_payload := take n (drop (unat off) [10, 11, 12, 13, 14])\<rparr>"

theorem fragments_reassemble_witness:
  "\<exists>rs tbl' b frs. receive_fragments 9 [demo_fragment 2 2 2, demo_fragment 3 0 3, demo_fragment 4 1 4] (\<lambda>_. None) = Some (rs, tbl')
     \<and> rs = [(b, frs)] \<and> b_payload b = [10, 11, 12, 13, 14]"
proof -
  let ?fs = "[demo_fragment 2 2 2, demo_fragment 3 0 3, demo_fragment 4 1 4]" and ?P = "[10, 11, 12, 13, 14] :: bytes"
  have b: "frag_bytes (demo_fragment 2 2 2) = {2..<4}" "frag_bytes (demo_fragment 3 0 3) = {0..<3}" "frag_bytes (demo_fragment 4 1 4) = {1..<5}"
    by (auto simp: frag_bytes_def demo_fragment_def)
  have "\<forall>f \<in> set ?fs. frag_of ?P f \<and> get_hash_key f = get_hash_key demo_bundle"
    by (simp add: frag_of_def demo_fragment_def get_hash_key_def)
  moreover have "distinct (map b_id ?fs)" by (simp add: demo_fragment_def)
  moreover have "covers ?P ?fs" by (auto simp: covers_def b)
  moreover have "\<not> covers ?P (take n ?fs)" if "n < length ?fs" "0 < n" for n
  proof -
    have n: "n = 1 \<or> n = 2" using that by auto
    then have "4 \<notin> (\<Union>f \<in> set (take n ?fs). frag_bytes f)" using b by auto
    moreover have "4 \<in> {0..<length ?P}" by simp
    ultimately show ?thesis unfolding covers_def by blast
  qed
  ultimately show ?thesis
    using fragments_reassemble [of ?fs ?P "get_hash_key demo_bundle" "\<lambda>_. None" 9] by auto
qed

section \<open>Cutting a bundle\<close>

text \<open>The lengths of the blocks that go with a fragment, as numbers.\<close>

fun ext_sum :: "bool \<Rightarrow> bool \<Rightarrow> bool \<Rightarrow> xmit_block list \<Rightarrow> nat" where
  "ext_sum first is_last found [] = 0"
| "ext_sum first is_last found (b # bs) =
     (if frag_included first is_last found b \<and> xb_kind b \<noteq> Payload_block then unat (xb_contents_len b) else 0)
     + ext_sum first is_last (found \<or> xb_kind b = Payload_block) bs"

abbreviation blocks_total :: "xmit_block list \<Rightarrow> nat" where
  "blocks_total xmit \<equiv> sum_list (map (\<lambda>b. unat (xb_contents_len b)) xmit)"

lemma ext_sum_le: "ext_sum first is_last found bs \<le> blocks_total bs"
  by (induction first is_last found bs rule: ext_sum.induct) auto

lemma frag_scan_sum:
  "blocks_total bs < 2 ^ 64 \<Longrightarrow> unat (snd (frag_scan first is_last found bs)) = ext_sum first is_last found bs"
proof (induction first is_last found bs rule: ext_sum.induct)
  case (2 first is_last found b bs)
  have "unat (xb_contents_len b) + ext_sum first is_last (found \<or> xb_kind b = Payload_block) bs < 2 ^ 64"
    using 2(2) ext_sum_le [of first is_last "found \<or> xb_kind b = Payload_block" bs] by simp
  then show ?case
    using 2 unat_add_u64 [of "xb_contents_len b" "snd (frag_scan first is_last (found \<or> xb_kind b = Payload_block) bs)"]
    by (cases "xb_kind b = Payload_block"; cases "frag_included first is_last found b") (auto simp: Let_def split: prod.splits)
qed simp

lemma frag_lens_sum:
  "blocks_total bs < 2 ^ 64 \<Longrightarrow> unat (fst (frag_lens found bs)) = ext_sum True False found bs
     \<and> unat (snd (frag_lens found bs)) = ext_sum False True found bs"
proof (induction found bs rule: frag_lens.induct)
  case (2 found b bs)
  let ?f = "found \<or> xb_kind b = Payload_block"
  have "unat (xb_contents_len b) + ext_sum True False ?f bs < 2 ^ 64" "unat (xb_contents_len b) + ext_sum False True ?f bs < 2 ^ 64"
    using 2(2) ext_sum_le [of True False ?f bs] ext_sum_le [of False True ?f bs] by simp_all
  then show ?case
    using 2 unat_add_u64 [of "xb_contents_len b" "fst (frag_lens ?f bs)"] unat_add_u64 [of "xb_contents_len b" "snd (frag_lens ?f bs)"]
    by (cases "xb_kind b") (auto simp: frag_included_def Let_def split: prod.splits)
qed simp

lemma ext_sum_middle: "ext_sum False False found bs \<le> ext_sum False True found bs"
proof (induction bs arbitrary: found)
  case (Cons b bs)
  then show ?case using Cons [of "found \<or> xb_kind b = Payload_block"] by (auto simp: frag_included_def intro: trans_le_add2)
qed simp

text \<open>The length of a fragment when at least one byte fits.\<close>

lemma clamp_length_ok:
  assumes "unat off < n" and "n < 2 ^ 63" and "0 < unat len" and "unat len < 2 ^ 63" and "first \<Longrightarrow> off = 0 \<and> 1 < n"
  defines "l \<equiv> unat (clamp_length (of_nat n) off len first)"
  shows "0 < l" and "unat off + l \<le> n" and "l \<le> unat len" and "first \<Longrightarrow> l < n"
proof -
  have n: "unat (of_nat n :: u64) = n" by (rule unat_of_nat_u64) (use assms(2) in simp)
  have sum: "unat (off + len) = unat off + unat len" by (rule unat_add_u64) (use assms(1,2,4) in simp)
  have d: "unat (of_nat n - off :: u64) = n - unat off" using unat_sub_u64 [of off "of_nat n"] n assms(1) by simp
  have h: "unat (if x mod 2 = 0 then x div 2 else x div 2 + 1) = (unat x + 1) div 2" for x :: u64
  proof -
    have "unat (x mod 2) = unat x mod 2" "unat (x div 2) = unat x div 2" by (simp_all add: unat_mod unat_div)
    moreover have "unat (x div 2 + 1) = unat x div 2 + 1"
      using unat_add_u64 [of "x div 2" 1] unat_lt_u64 [of x] by (simp add: unat_div)
    moreover have "x mod 2 = 0 \<longleftrightarrow> unat x mod 2 = 0" by (simp add: word_unat_eq_iff unat_mod)
    moreover have "m mod 2 = 0 \<Longrightarrow> m div 2 = (m + 1) div 2" "m mod 2 \<noteq> 0 \<Longrightarrow> m div 2 + 1 = (m + 1) div 2" for m :: nat
      by presburger+
    ultimately show ?thesis by (cases "unat x mod 2 = 0") (simp_all only: if_True if_False refl)
  qed
  have l: "l = (if n \<le> unat off + unat len then (if first then (n - unat off + 1) div 2 else n - unat off) else unat len)"
    unfolding l_def clamp_length_def Let_def using h [of "of_nat n - off"] sum n d by (simp add: word_le_nat_alt)
  show "0 < l" "unat off + l \<le> n" "l \<le> unat len" using l assms(1,3) by (auto split: if_splits)
  show "first \<Longrightarrow> l < n" using l assms(5) by (auto split: if_splits)
qed

definition frag_extra :: "dtn_bundle \<Rightarrow> u64 \<Rightarrow> u64" where
  "frag_extra b off = (if b_bpv6 b then frag_extra_bp6 b off else frag_extra_bp7 b)"

lemma create_fragment_eq:
  "create_fragment i b xmit off len first is_last =
     make_fragment i b (fst (frag_scan first is_last False xmit)) off (len - frag_ext_len first is_last xmit - frag_extra b off - 12) first"
  by (simp add: create_fragment_def create_fragment_bp6_def create_fragment_bp7_def frag_extra_def split: prod.splits)

text \<open>The payload of a fragment together with the blocks that go with it and the allowances.\<close>

definition frag_size :: "dtn_bundle \<Rightarrow> xmit_block list \<Rightarrow> bool \<Rightarrow> bool \<Rightarrow> dtn_bundle \<Rightarrow> nat" where
  "frag_size b xmit first is_last f =
     length (b_payload f) + ext_sum first is_last False xmit + unat (frag_extra b (b_frag_offset f)) + 12"

lemma create_fragment_ok:
  assumes "\<not> b_is_fragment b" and "length (b_payload b) < 2 ^ 63" and "unat off < length (b_payload b)" and "unat len < 2 ^ 63"
    and "ext_sum first is_last False xmit + unat (frag_extra b off) + 12 < unat len" and "blocks_total xmit < 2 ^ 64"
    and "first \<Longrightarrow> off = 0 \<and> 1 < length (b_payload b)"
  shows "\<exists>f. create_fragment i b xmit off len first is_last = Some f \<and> frag_of (b_payload b) f \<and> b_frag_offset f = off
    \<and> b_payload f \<noteq> [] \<and> b_id f = i \<and> get_hash_key f = get_hash_key b \<and> frag_size b xmit first is_last f \<le> unat len
    \<and> b_recv_blocks f = fst (frag_scan first is_last False xmit) \<and> (first \<longrightarrow> length (b_payload f) < length (b_payload b))"
proof -
  let ?P = "b_payload b"
  define room where "room = len - frag_ext_len first is_last xmit - frag_extra b off - 12"
  have e: "unat (frag_ext_len first is_last xmit) = ext_sum first is_last False xmit" by (rule frag_scan_sum [OF assms(6)])
  have r1: "unat (len - frag_ext_len first is_last xmit) = unat len - ext_sum first is_last False xmit"
    using unat_sub_u64 [of "frag_ext_len first is_last xmit" len] e assms(5) by simp
  then have "unat (len - frag_ext_len first is_last xmit - frag_extra b off) = unat len - ext_sum first is_last False xmit - unat (frag_extra b off)"
    using unat_sub_u64 [of "frag_extra b off" "len - frag_ext_len first is_last xmit"] assms(5) by simp
  then have room: "unat room = unat len - ext_sum first is_last False xmit - unat (frag_extra b off) - 12"
    using unat_sub_u64 [of 12 "len - frag_ext_len first is_last xmit - frag_extra b off"] assms(5) by (simp add: room_def)
  define l where "l = clamp_length (payload_len b) off room first"
  have C: "0 < unat l" "unat off + unat l \<le> length ?P" "unat l \<le> unat room" "first \<Longrightarrow> unat l < length ?P"
    using clamp_length_ok [OF assms(3,2), of room first] room assms(4,5,7) by (simp_all add: l_def payload_len_def)
  define f where "f = b\<lparr>b_id := i, b_is_fragment := True, b_do_not_fragment := False, b_created_from := b_id b,
    b_recv_blocks := fst (frag_scan first is_last False xmit), b_orig_length := payload_len b, b_frag_offset := off,
    b_frag_length := l, b_payload := take (unat l) (drop (unat off) ?P), b_local_custody := False,
    b_accept_custody := b_local_custody b, b_fragmented_incoming := False\<rparr>"
  have "create_fragment i b xmit off len first is_last = Some f"
    using assms(1) C(2) by (simp add: create_fragment_eq make_fragment_def write_payload_def Let_def f_def
        room_def [symmetric] l_def [symmetric])
  moreover have lf: "length (b_payload f) = unat l" using C(2) by (simp add: f_def)
  moreover have "frag_of ?P f" using assms(2) C(2) lf by (simp add: frag_of_def f_def payload_len_def)
  moreover have "frag_size b xmit first is_last f \<le> unat len"
    using lf C(3) room assms(5) by (simp add: frag_size_def f_def)
  ultimately show ?thesis using C(1,4) by (auto simp: f_def get_hash_key_def)
qed

text \<open>Fragments that follow one another.\<close>

fun tiles :: "bytes \<Rightarrow> nat \<Rightarrow> dtn_bundle list \<Rightarrow> bool" where
  "tiles P a [] \<longleftrightarrow> a = length P"
| "tiles P a (f # fs) \<longleftrightarrow> frag_of P f \<and> unat (b_frag_offset f) = a \<and> b_payload f \<noteq> [] \<and> tiles P (a + length (b_payload f)) fs"

lemma insert_at_end: "\<forall>g \<in> set fs. \<not> b_frag_offset g > b_frag_offset f \<Longrightarrow> insert_by_offset f fs = fs @ [f]"
  by (induction fs) auto

lemma frag_loop_ok:
  assumes "\<not> b_is_fragment b" and "length (b_payload b) < 2 ^ 63" and "unat len < 2 ^ 63" and "blocks_total xmit < 2 ^ 64"
    and room: "\<And>fi la o'. \<not> (fi \<and> la) \<Longrightarrow> unat o' < length (b_payload b) \<Longrightarrow> (fi \<longrightarrow> o' = 0)
       \<Longrightarrow> ext_sum fi la False xmit + unat (frag_extra b o') + 12 < unat len"
    and "unat off < length (b_payload b)" and "first \<Longrightarrow> off = 0 \<and> 1 < length (b_payload b)"
    and "todo = payload_len b - off" and "\<forall>g \<in> set (fs_fragments st). \<not> b_frag_offset g > off \<and> b_id g < i"
  shows "\<exists>f i' frs. frag_loop b xmit len last_len i first off todo st = Some (f, i', st\<lparr>fs_fragments := fs_fragments st @ frs\<rparr>)
    \<and> tiles (b_payload b) (unat off) frs \<and> get_hash_key f = get_hash_key b
    \<and> (\<forall>g \<in> set frs. get_hash_key g = get_hash_key b
         \<and> (\<exists>fi la. frag_size b xmit fi la g \<le> unat len \<and> b_recv_blocks g = fst (frag_scan fi la False xmit)))
    \<and> (first \<longrightarrow> 1 < length frs)"
  using assms(6-9)
proof (induction "length (b_payload b) - unat off" arbitrary: off todo st i first rule: less_induct)
  case less
  let ?P = "b_payload b"
  define la where "la = (\<not> first \<and> todo + last_len \<le> len)"
  obtain f where f: "create_fragment i b xmit off len first la = Some f" "frag_of ?P f" "b_frag_offset f = off" "b_payload f \<noteq> []"
      "b_id f = i" "get_hash_key f = get_hash_key b" "frag_size b xmit first la f \<le> unat len"
      "b_recv_blocks f = fst (frag_scan first la False xmit)" "first \<longrightarrow> length (b_payload f) < length ?P"
    using create_fragment_ok [OF assms(1,2) less(2) assms(3) room assms(4) less(3), of first la i] less(2,3) la_def by blast
  note F = frag_ofD [OF f(2)]
  define st1 where "st1 = st\<lparr>fs_fragments := fs_fragments st @ [f]\<rparr>"
  have add: "add_fragment f st = st1"
    using less(5) insert_at_end [of "fs_fragments st" f] f(3,5) by (auto simp: add_fragment_def st1_def)
  have P: "unat (payload_len b) = length ?P" by (rule unat_payload_len) (use assms(2) in simp)
  have todo: "unat todo = length ?P - unat off" using unat_sub_u64 [of off "payload_len b"] P less(2,4) by simp
  have todo1: "todo - payload_len f = payload_len b - (off + payload_len f)" using less(4) by simp
  have u1: "unat (todo - payload_len f) = length ?P - unat off - length (b_payload f)"
    using unat_sub_u64 [of "payload_len f" todo] todo F(4,6) f(3) by simp
  have off1: "unat (off + payload_len f) = unat off + length (b_payload f)" using F(7) f(3) by simp
  have step: "frag_loop b xmit len last_len i first off todo st =
      (if todo - payload_len f > 0 then frag_loop b xmit len last_len (i + 1) False (off + payload_len f) (todo - payload_len f) st1
       else Some (f, i + 1, st1))"
    using f(1) add by (subst frag_loop.simps) (simp add: la_def [symmetric] Let_def)
  show ?case
  proof (cases "todo - payload_len f > 0")
    case True
    then have lt: "unat (off + payload_len f) < length ?P" using u1 off1 by (simp add: word_less_nat_alt)
    have "\<forall>g \<in> set (fs_fragments st1). \<not> b_frag_offset g > off + payload_len f \<and> b_id g < i + 1"
      using less(5) f(3,5) off1 by (auto simp: st1_def word_less_nat_alt)
    moreover have "length ?P - unat (off + payload_len f) < length ?P - unat off"
      using lt off1 length_greater_0_conv [THEN iffD2, OF f(4)] by linarith
    ultimately obtain f' i' frs where R: "frag_loop b xmit len last_len (i + 1) False (off + payload_len f) (todo - payload_len f) st1
        = Some (f', i', st1\<lparr>fs_fragments := fs_fragments st1 @ frs\<rparr>)" "tiles ?P (unat (off + payload_len f)) frs"
        "get_hash_key f' = get_hash_key b" "\<forall>g \<in> set frs. get_hash_key g = get_hash_key b
         \<and> (\<exists>fi la. frag_size b xmit fi la g \<le> unat len \<and> b_recv_blocks g = fst (frag_scan fi la False xmit))"
      using less(1) [of "off + payload_len f" False "todo - payload_len f" st1 "i + 1"] lt todo1 by auto
    have "0 < length frs" using R(2) lt by (cases frs) auto
    then show ?thesis using step True R f off1
      by (intro exI [of _ f'] exI [of _ i'] exI [of _ "f # frs"]) (auto simp: st1_def)
  next
    case False
    then have e: "unat off + length (b_payload f) = length ?P" using u1 F(4) f(3) by (auto simp: word_less_nat_alt)
    then have "\<not> first" using f(9) less(3) by auto
    then show ?thesis using step False f e by (intro exI [of _ f] exI [of _ "i + 1"] exI [of _ "[f]"]) (auto simp: st1_def)
  qed
qed

text \<open>What the first and the last fragment need beside their blocks so that a byte of payload fits.\<close>

definition frag_need :: "dtn_bundle \<Rightarrow> nat" where
  "frag_need b =
     (if b_bpv6 b then sdnv_encoding_len (payload_len b * 2) + sdnv_encoding_len (payload_len b) + 22
      else 2 * uint64_encoding_len (payload_len b) + 14)"

lemma sdnv_len_mono: "unat v \<le> unat w \<Longrightarrow> sdnv_encoding_len v \<le> sdnv_encoding_len w"
proof -
  assume le: "unat v \<le> unat w"
  obtain k where k: "sdnv_encoding_len w = Suc k" using sdnv_val_len_pos [of w] by (cases "sdnv_val_len w") auto
  then have "unat w < 2 ^ (7 * Suc k)" using sdnv_val_len_le_iff [of w k] by simp
  then have "sdnv_val_len v \<le> Suc k" using le sdnv_val_len_le_iff [of v k] by simp
  then show ?thesis using k by simp
qed

lemma unat_small: "n \<le> 100 \<Longrightarrow> unat (of_nat n :: u64) = n"
  by (rule unat_of_nat_u64) simp

lemma sdnv_size_facts: "sdnv_encoding_len v \<le> 10" "unat (sdnv_size v) = sdnv_encoding_len v"
proof -
  show len: "sdnv_encoding_len v \<le> 10" using sdnv_val_len_le_MAX [of v] by (simp add: MAX_LENGTH_def)
  show "unat (sdnv_size v) = sdnv_encoding_len v" by (rule unat_small) (use len in linarith)
qed

lemma cbor_size_facts: "uint64_encoding_len v \<le> 9" "unat (cbor_size v * 2) = 2 * uint64_encoding_len v"
proof -
  show len: "uint64_encoding_len v \<le> 9" by (simp add: uint64_encoding_len_def)
  have "unat (cbor_size v) = uint64_encoding_len v" by (rule unat_small) (use len in linarith)
  then show "unat (cbor_size v * 2) = 2 * uint64_encoding_len v"
    using unat_add_u64 [of "cbor_size v" "cbor_size v"] len by (simp add: mult_2_right)
qed

lemma overhead_le:
  assumes "\<not> b_is_fragment b"
  defines "over \<equiv> (if b_bpv6 b then overhead_bp6 b else overhead_bp7 b)"
  shows "unat over \<le> frag_need b" and "unat over < 100"
proof -
  have "unat over = (if b_bpv6 b then sdnv_encoding_len (payload_len b * 2) + 12 else 2 * uint64_encoding_len (payload_len b) + 14)"
  proof (cases "b_bpv6 b")
    case True
    then show ?thesis using assms(1) sdnv_size_facts [of "payload_len b * 2"]
        unat_add_u64 [of "sdnv_size (payload_len b * 2)" 12] by (simp add: over_def overhead_bp6_def)
  next
    case False
    then have "over = cbor_size (payload_len b) * 2 + 14" using assms(1) by (simp add: over_def overhead_bp7_def)
    moreover have "unat (cbor_size (payload_len b) * 2 + 14) = unat (cbor_size (payload_len b) * 2) + unat (14 :: u64)"
      by (rule unat_add_u64) (use cbor_size_facts [of "payload_len b"] in simp)
    ultimately show ?thesis using False cbor_size_facts(2) [of "payload_len b"] by simp
  qed
  then show "unat over \<le> frag_need b" "unat over < 100"
    using sdnv_size_facts(1) [of "payload_len b * 2"] cbor_size_facts(1) [of "payload_len b"] by (auto simp: frag_need_def)
qed

lemma frag_extra_le:
  assumes "\<not> b_is_fragment b" and "length (b_payload b) < 2 ^ 63" and "unat off < length (b_payload b)"
  shows "unat (frag_extra b off) + 12 + (if b_bpv6 b then 10 else 2) \<le> frag_need b"
proof (cases "b_bpv6 b")
  case True
  have P: "unat (payload_len b) = length (b_payload b)" by (rule unat_payload_len) (use assms(2) in simp)
  have "unat (payload_len b * 2) = 2 * length (b_payload b)"
    using unat_add_u64 [of "payload_len b" "payload_len b"] P assms(2) by (simp add: mult_2_right)
  then have "sdnv_encoding_len off \<le> sdnv_encoding_len (payload_len b * 2)" using assms(3) by (intro sdnv_len_mono) simp
  moreover have "unat (sdnv_size (payload_len b) + sdnv_size off) = sdnv_encoding_len (payload_len b) + sdnv_encoding_len off"
    using unat_add_u64 [of "sdnv_size (payload_len b)" "sdnv_size off"] sdnv_size_facts [of "payload_len b"] sdnv_size_facts [of off] by simp
  ultimately show ?thesis using True assms(1) by (simp add: frag_need_def frag_extra_def frag_extra_bp6_def)
next
  case False
  then show ?thesis using assms(1) cbor_size_facts(2) [of "payload_len b"] by (simp add: frag_need_def frag_extra_def frag_extra_bp7_def)
qed

lemma frag_need_le: "frag_need b < 100"
  using sdnv_size_facts(1) [of "payload_len b * 2"] sdnv_size_facts(1) [of "payload_len b"] cbor_size_facts(1) [of "payload_len b"]
  by (simp add: frag_need_def)

lemma tiles_concat: "tiles P a fs \<Longrightarrow> a \<le> length P \<Longrightarrow> concat (map b_payload fs) = drop a P"
proof (induction fs arbitrary: a)
  case (Cons f fs)
  note F = frag_ofD [of P f]
  have f: "frag_of P f" "unat (b_frag_offset f) = a" "tiles P (a + length (b_payload f)) fs" using Cons.prems(1) by auto
  have "concat (map b_payload fs) = drop (a + length (b_payload f)) P" using Cons.IH [OF f(3)] F(4) [OF f(1)] f(2) by simp
  moreover have "b_payload f = take (length (b_payload f)) (drop a P)" using F(5) [OF f(1)] f(2) by simp
  ultimately have "concat (map b_payload (f # fs)) = take (length (b_payload f)) (drop a P) @ drop (length (b_payload f)) (drop a P)"
    by (simp add: add.commute)
  then show ?case by (simp only: append_take_drop_id)
qed simp

text \<open>
  C25. Proactive fragmentation. Let a bundle that is not a fragment have a payload of at least two
  bytes, and let the limit exceed the blocks of the first and of the last fragment by the allowances
  and, for version 6, by a further margin. Then the loop ends; there are at least two fragments; they
  follow one another without gap or overlap from the first to the last byte of the payload; each belongs
  to the same bundle and is not larger than the limit, its blocks and the allowances included; and the
  table holds them under the key of the bundle.
\<close>
theorem proactive_fragments_tile:
  assumes "\<not> b_is_fragment b" and "1 < length (b_payload b)" and "length (b_payload b) < 2 ^ 63"
    and "unat max_length < 2 ^ 63" and "blocks_total xmit < 2 ^ 62"
    and "ext_sum True False False xmit + frag_need b < unat max_length"
    and "ext_sum False True False xmit + frag_need b < unat max_length"
  shows "\<exists>st i'. proactively_fragment b xmit max_length i tbl = Some (Some st, i', tbl(get_hash_key b \<mapsto> st))
    \<and> tiles (b_payload b) 0 (fs_fragments st) \<and> concat (map b_payload (fs_fragments st)) = b_payload b
    \<and> 1 < length (fs_fragments st)
    \<and> (\<forall>f \<in> set (fs_fragments st). get_hash_key f = get_hash_key b \<and> (\<exists>first is_last. frag_size b xmit first is_last f \<le> unat max_length
         \<and> b_recv_blocks f = fst (frag_scan first is_last False xmit)))"
proof -
  let ?P = "b_payload b" and ?st = "\<lparr>fs_bundle = b, fs_fragments = []\<rparr>"
  define over where "over = (if b_bpv6 b then overhead_bp6 b else overhead_bp7 b)"
  define max1 where "max1 = (if b_bpv6 b \<and> max_length > 10 then max_length - 10 else max_length)"
  obtain fl ll where fl: "frag_lens False xmit = (fl, ll)" by (cases "frag_lens False xmit")
  have tot: "blocks_total xmit < 2 ^ 64" using assms(5) by simp
  have sums: "unat fl = ext_sum True False False xmit" "unat ll = ext_sum False True False xmit"
    using frag_lens_sum [OF tot, of False] fl by simp_all
  have small: "unat fl < 2 ^ 62" "unat ll < 2 ^ 62"
    using sums ext_sum_le [of True False False xmit] ext_sum_le [of False True False xmit] assms(5) by simp_all
  have ov: "unat over \<le> frag_need b" "unat over < 100" using overhead_le [OF assms(1)] by (simp_all add: over_def)
  have add: "unat (fl + over) = unat fl + unat over" "unat (ll + over) = unat ll + unat over"
    using small ov(2) by (simp_all add: unat_add_u64)
  then have guard: "\<not> (fl + over \<ge> max_length \<or> ll + over \<ge> max_length)"
    using assms(6,7) sums ov by (auto simp: word_le_nat_alt)
  have gt: "max_length > 10" if "b_bpv6 b" using assms(6) that by (simp add: frag_need_def word_less_nat_alt)
  have m1: "unat max1 = unat max_length - (if b_bpv6 b then 10 else 0)"
    using gt unat_sub_u64 [of 10 max_length] by (auto simp: max1_def word_less_nat_alt)
  have room: "ext_sum fi la False xmit + unat (frag_extra b o') + 12 < unat max1"
    if "\<not> (fi \<and> la)" "unat o' < length ?P" for fi la o'
  proof -
    have "ext_sum fi la False xmit \<le> max (ext_sum True False False xmit) (ext_sum False True False xmit)"
      using that(1) ext_sum_middle [of False xmit] by (cases fi; cases la) auto
    then show ?thesis using frag_extra_le [OF assms(1,3) that(2)] assms(6,7) m1 by (auto split: if_splits)
  qed
  have m63: "unat max1 < 2 ^ 63" using m1 assms(4) by simp
  have ne: "?P \<noteq> []" using assms(2) by auto
  obtain f i' frs where L: "frag_loop b xmit max1 (ll + over) i True 0 (payload_len b) ?st = Some (f, i', ?st\<lparr>fs_fragments := fs_fragments ?st @ frs\<rparr>)"
      "tiles ?P (unat (0 :: u64)) frs" "get_hash_key f = get_hash_key b"
      "\<forall>g \<in> set frs. get_hash_key g = get_hash_key b
         \<and> (\<exists>fi la. frag_size b xmit fi la g \<le> unat max1 \<and> b_recv_blocks g = fst (frag_scan fi la False xmit))" "1 < length frs"
    using frag_loop_ok [OF assms(1,3) m63 tot room, of 0 True "payload_len b" ?st i "ll + over"] assms(2) ne by auto
  have "payload_len b > 1" using assms(2,3) unat_payload_len [of b] by (simp add: word_less_nat_alt)
  then have run: "proactively_fragment b xmit max_length i tbl = Some (Some (?st\<lparr>fs_fragments := frs\<rparr>), i', tbl(get_hash_key b \<mapsto> ?st\<lparr>fs_fragments := frs\<rparr>))"
    using assms(1) guard L(1,3) fl by (simp add: proactively_fragment_def over_def [symmetric] max1_def [symmetric] Let_def)
  moreover have "unat max1 \<le> unat max_length" using m1 by simp
  then have "\<forall>g \<in> set frs. get_hash_key g = get_hash_key b \<and> (\<exists>first is_last. frag_size b xmit first is_last g \<le> unat max_length
         \<and> b_recv_blocks g = fst (frag_scan first is_last False xmit))" using L(4) by (meson order.trans)
  ultimately show ?thesis using L(2,5) tiles_concat [OF L(2)] by (intro exI [of _ "?st\<lparr>fs_fragments := frs\<rparr>"] exI [of _ i']) auto
qed

definition demo_xmit :: "xmit_block list" where
  "demo_xmit = [\<lparr>xb_kind = Primary_block, xb_contents_len = 20, xb_full_length = 20, xb_data_offset = 2, xb_replicate = False,
                 xb_last = False, xb_source = None\<rparr>,
                \<lparr>xb_kind = Payload_block, xb_contents_len = 8, xb_full_length = 13, xb_data_offset = 8, xb_replicate = False,
                 xb_last = True, xb_source = None\<rparr>]"

lemma demo_xmit_sums: "ext_sum first is_last False demo_xmit = 20" "blocks_total demo_xmit = 28"
  by (simp_all add: demo_xmit_def frag_included_def)

theorem proactive_fragments_tile_witness:
  "\<exists>st i' tbl'. proactively_fragment demo_bundle demo_xmit 37 5 (\<lambda>_. None) = Some (Some st, i', tbl')
     \<and> concat (map b_payload (fs_fragments st)) = [10, 11, 12, 13, 14] \<and> 1 < length (fs_fragments st)"
proof -
  have "frag_need demo_bundle = 16" by (simp add: frag_need_def demo_bundle_def payload_len_def uint64_encoding_len_def)
  then show ?thesis using proactive_fragments_tile [of demo_bundle 37 demo_xmit 5 "\<lambda>_. None"] demo_xmit_sums
    by (auto simp: demo_bundle_def)
qed

lemma unat_sub_wrap: "unat a < unat b \<Longrightarrow> unat (a - b :: u64) = 2 ^ 64 - (unat b - unat a)"
  using unsigned_less [of b] by (simp add: unat_sub_if')

text \<open>
  C37. The reactive tail is too short. When a transfer stops inside the payload, the rest of the payload
  is to become a fragment. Its length is passed where the length of a whole bundle is expected, so that
  the blocks and the allowances are taken off it: the tail ends early by that many bytes, which are then
  in no fragment; and when the rest is shorter than that, but the payload is not, the difference wraps
  around and the node fails.
\<close>
theorem reactive_tail_short:
  assumes "\<not> b_is_fragment b" and "\<not> b_do_not_fragment b" and "1 < length (b_payload b)" and "length (b_payload b) < 2 ^ 62"
    and "blocks_total xmit < 2 ^ 62" and "bytes_sent > xmit_payload_offset xmit" and "bytes_sent < xmit_total_length (b_bpv6 b) xmit"
    and "unat (bytes_sent - xmit_payload_offset xmit) < length (b_payload b)"
  defines "sent \<equiv> unat (bytes_sent - xmit_payload_offset xmit)"
  defines "lost \<equiv> ext_sum False True False xmit + unat (frag_extra b (of_nat sent)) + 12"
  shows "(lost < length (b_payload b) - sent \<longrightarrow>
      (\<exists>f. try_to_reactively_fragment i b xmit bytes_sent = Some (Some f) \<and> unat (b_frag_offset f) = sent
         \<and> b_payload f = take (length (b_payload b) - sent - lost) (drop sent (b_payload b))))
    \<and> (length (b_payload b) - sent < lost \<and> lost \<le> length (b_payload b) \<longrightarrow>
      try_to_reactively_fragment i b xmit bytes_sent = None)"
proof -
  let ?P = "b_payload b" and ?w = "bytes_sent - xmit_payload_offset xmit"
  have P: "unat (payload_len b) = length ?P" by (rule unat_payload_len) (use assms(4) in simp)
  have lt: "?w < payload_len b" using assms(8) P by (simp add: word_less_nat_alt)
  have one: "payload_len b > 1" using assms(3) P by (simp add: word_less_nat_alt)
  define len where "len = payload_len b - ?w"
  define L where "L = frag_ext_len False True xmit + frag_extra b ?w + 12"
  have ulen: "unat len = length ?P - sent" using unat_sub_u64 [of ?w "payload_len b"] P assms(8) by (simp add: len_def sent_def)
  have e: "unat (frag_ext_len False True xmit) = ext_sum False True False xmit" by (rule frag_scan_sum) (use assms(5) in simp)
  have "unat (frag_ext_len False True xmit) < 2 ^ 62" using e ext_sum_le [of False True False xmit] assms(5) by simp
  moreover have "unat (frag_extra b ?w) < 100" using frag_extra_le [OF assms(1) _ assms(8)] assms(4) frag_need_le [of b] by simp
  ultimately have L: "unat L = lost" and L63: "lost < 2 ^ 63"
    using e unat_add_u64 [of "frag_ext_len False True xmit" "frag_extra b ?w"] unat_add_u64 [of "frag_ext_len False True xmit + frag_extra b ?w" 12]
    by (simp_all add: L_def lost_def sent_def)
  have "\<not> bytes_sent \<le> xmit_payload_offset xmit" "\<not> xmit_total_length (b_bpv6 b) xmit \<le> bytes_sent" "\<not> payload_len b \<le> 1"
      "\<not> payload_len b \<le> ?w" using assms(6,7) lt one by (simp_all only: not_le simp_thms)
  moreover have "min (payload_len b) ?w = ?w" using lt by (intro min.absorb2 less_imp_le)
  ultimately have "try_to_reactively_fragment i b xmit bytes_sent = map_option Some (create_fragment i b xmit ?w len False True)"
    using assms(2) unfolding try_to_reactively_fragment_def Let_def len_def by simp
  then have step: "try_to_reactively_fragment i b xmit bytes_sent =
      map_option Some (make_fragment i b (fst (frag_scan False True False xmit)) ?w (len - L) False)"
    by (simp add: create_fragment_eq L_def algebra_simps)
  have clamp: "clamp_length (payload_len b) ?w (len - L) False = len - L" if "lost \<le> length ?P"
  proof -
    have sum: "?w + (len - L) = payload_len b - L" by (simp add: len_def)
    have "unat (payload_len b - L) < length ?P" using unat_sub_u64 [of L "payload_len b"] L P that assms(3) by (simp add: lost_def)
    then have "\<not> payload_len b \<le> payload_len b - L" using P by (simp add: word_le_nat_alt)
    then show ?thesis unfolding clamp_length_def sum by simp
  qed
  have "make_fragment i b srcs ?w (len - L) False = None" if "length ?P - sent < lost" "lost \<le> length ?P" for srcs
  proof -
    have "length ?P < unat (len - L)" using that(1) unat_sub_wrap [of len L] ulen L L63 assms(4) by simp
    then have "write_payload ?P ?w (len - L) = None" by (simp add: write_payload_def)
    then show ?thesis using clamp [OF that(2)] by (simp add: make_fragment_def Let_def)
  qed
  moreover have "unat (len - L) = length ?P - sent - lost" "lost \<le> length ?P" if "lost < length ?P - sent"
    using that unat_sub_u64 [of L len] ulen L by simp_all
  ultimately show ?thesis using step clamp assms(1) by (auto simp: make_fragment_def write_payload_def sent_def)
qed

definition demo_long :: dtn_bundle where
  "demo_long = demo_bundle\<lparr>b_payload := replicate 60 7\<rparr>"

definition demo_long_xmit :: "xmit_block list" where
  "demo_long_xmit = [demo_xmit ! 0, (demo_xmit ! 1)\<lparr>xb_full_length := 68\<rparr>]"

lemma demo_long_sums: "ext_sum first is_last False demo_long_xmit = 20" "blocks_total demo_long_xmit = 28"
    "xmit_payload_offset demo_long_xmit = 28" "xmit_total_length False demo_long_xmit = 90"
  by (simp_all add: demo_long_xmit_def demo_xmit_def frag_included_def xmit_total_length_def)

text \<open>Sixty bytes of which two were sent: the tail has 22 bytes instead of 58. After 30 sent bytes the node fails.\<close>

theorem reactive_tail_short_witness:
  "(\<exists>f. try_to_reactively_fragment 5 demo_long demo_long_xmit 30 = Some (Some f) \<and> b_payload f = replicate 22 7)
   \<and> try_to_reactively_fragment 5 demo_long demo_long_xmit 58 = None"
proof -
  have x: "unat (frag_extra demo_long off) = 4" for off
    by (simp add: frag_extra_def frag_extra_bp7_def demo_long_def demo_bundle_def payload_len_def uint64_encoding_len_def)
  have b: "b_payload demo_long = replicate 60 7" "\<not> b_is_fragment demo_long" "\<not> b_do_not_fragment demo_long" "\<not> b_bpv6 demo_long"
    by (simp_all add: demo_long_def demo_bundle_def)
  show ?thesis using reactive_tail_short [of demo_long demo_long_xmit 30 5] reactive_tail_short [of demo_long demo_long_xmit 58 5]
    by (auto simp: x b demo_long_sums)
qed

end
