(* ===== verification/Dtpc_Pdu.thy ===== *)
theory Dtpc_Pdu
  imports SDNV Ordered_Map
begin

text \<open>
  The protocol data units of the Delay Tolerant Payload Conditioning service (DTPC): how a payload aggregator
  (\<open>dtpc/DtpcPayloadAggregator.cc\<close>, \<open>DtpcTopicAggregator.cc\<close>) collects application data items by topic and
  builds a unit of them, and how the receiver (\<open>DtpcReceiver.cc\<close>) checks a unit that arrives.
\<close>

section \<open>Topic aggregators\<close>

record topic_aggregator =
  ta_topic_id :: u32
  ta_items :: "bytes list"
  ta_size :: int
  ta_pending_size_delta :: int
  ta_item_count :: u32

definition new_topic_aggregator :: "u32 \<Rightarrow> topic_aggregator" where
  "new_topic_aggregator topic = \<lparr>ta_topic_id = topic, ta_items = [], ta_size = 0, ta_pending_size_delta = 0, ta_item_count = 0\<rparr>"

text \<open>
  \<open>topic\<close> is what the topic table knows about the topic: whether a registration with an elision function is
  attached, if the topic exists. The result is the change of the size and whether the aggregator has to
  wait for the elision function.
\<close>

definition topic_send_data_item :: "bool option \<Rightarrow> bool \<Rightarrow> bytes \<Rightarrow> topic_aggregator \<Rightarrow> int \<times> bool \<times> topic_aggregator" where
  "topic_send_data_item topic optimize item a =
     (case topic of
        None \<Rightarrow> (0, False, a)
      | Some has_elision_func \<Rightarrow>
          let a1 = a\<lparr>ta_items := ta_items a @ [item], ta_item_count := ta_item_count a + 1\<rparr> in
          if optimize \<and> has_elision_func then (0, True, a1\<lparr>ta_pending_size_delta := int (length item)\<rparr>)
          else (int (length item), False, a1\<lparr>ta_size := ta_size a + int (length item)\<rparr>))"

text \<open>The answer of the elision function; \<open>None\<close> is the failed assertion on the number of items.\<close>

definition topic_elision_func_response :: "bool \<Rightarrow> bytes list \<Rightarrow> topic_aggregator \<Rightarrow> (int \<times> topic_aggregator) option" where
  "topic_elision_func_response modified new_items a =
     (if modified then
        if ta_item_count a - of_nat (length (ta_items a)) \<noteq> 0 then None
        else
          let new_size = int (sum_list (map length new_items)); delta = new_size - ta_size a
          in Some (delta, a\<lparr>ta_items := new_items, ta_item_count := of_nat (length new_items),
               ta_pending_size_delta := delta, ta_size := ta_size a + delta\<rparr>)
      else Some (ta_pending_size_delta a, a\<lparr>ta_size := ta_size a + ta_pending_size_delta a\<rparr>))"

text \<open>A number is appended to the buffer as an SDNV of exactly its length.\<close>

definition dtpc_append :: "u64 \<Rightarrow> bytes \<Rightarrow> bytes option" where
  "dtpc_append v buf =
     (case sdnv_encode v (sdnv_encoding_len v) of None \<Rightarrow> None | Some bs \<Rightarrow> if bs = [] then None else Some (buf @ bs))"

text \<open>
  The loop over the items of a topic. The length of an item is copied through an \<open>int\<close>; a negative one asks
  for more memory than there is.
\<close>

fun load_items :: "bytes list \<Rightarrow> bytes \<Rightarrow> bytes option" where
  "load_items [] buf = Some buf"
| "load_items (d # ds) buf =
     (case dtpc_append (of_nat (length d)) buf of
        None \<Rightarrow> None
      | Some buf1 \<Rightarrow>
          let len = signed_take_bit 31 (int (length d)) in
          if len < 0 then None else load_items ds (buf1 @ take (nat len) d))"

definition load_payload :: "bytes \<Rightarrow> topic_aggregator \<Rightarrow> (bytes \<times> topic_aggregator) option" where
  "load_payload buf a =
     (if ta_item_count a > 0 then
        (case dtpc_append (ucast (ta_topic_id a)) buf of
           None \<Rightarrow> None
         | Some buf1 \<Rightarrow>
             (case dtpc_append (of_nat (length (ta_items a))) buf1 of
                None \<Rightarrow> None
              | Some buf2 \<Rightarrow>
                  (case load_items (ta_items a) buf2 of
                     None \<Rightarrow> None
                   | Some buf3 \<Rightarrow>
                       if ta_item_count a - of_nat (length (ta_items a)) \<noteq> 0 then None
                       else Some (buf3, a\<lparr>ta_items := [], ta_item_count := 0, ta_size := 0\<rparr>))))
      else Some (buf, a\<lparr>ta_size := 0\<rparr>))"

section \<open>Payload aggregators\<close>

record dtpc_profile =
  expiration :: u64
  retransmission_limit :: int
  aggregation_size_limit :: u32
  aggregation_time_limit :: u32

text \<open>\<open>pa_timer\<close> is the sequence number with which the aggregation timer was started, if it is running.\<close>

record payload_aggregator =
  pa_profile_id :: u32
  pa_seq_ctr :: u64
  pa_size :: int
  pa_topics :: "(u32, topic_aggregator) omap"
  pa_timer :: "u64 option"
  pa_wait_for_elision_func :: bool

text \<open>What an aggregator does: it sends a bundle with the unit as payload, and it asks the daemon to keep the unit.\<close>

datatype agg_effect = Post_Bundle bytes | Pdu_Transmitted u64 bytes

definition DTPC_PDU_TYPE_DATA :: u8 where
  "DTPC_PDU_TYPE_DATA = 0"

definition DTPC_PDU_TYPE_ACK :: u8 where
  "DTPC_PDU_TYPE_ACK = 1"

definition dtpc_flags :: "u8 \<Rightarrow> u8" where
  "dtpc_flags pdu_type = push_bit 6 0 OR pdu_type"

definition dtpc_header :: "u8 \<Rightarrow> u32 \<Rightarrow> u64 \<Rightarrow> bytes option" where
  "dtpc_header pdu_type profile_id seq_ctr =
     (case dtpc_append (ucast profile_id) [dtpc_flags pdu_type] of None \<Rightarrow> None | Some buf \<Rightarrow> dtpc_append seq_ctr buf)"

definition transmit_pdu :: "dtpc_profile \<Rightarrow> bytes \<Rightarrow> payload_aggregator \<Rightarrow> agg_effect list \<times> payload_aggregator" where
  "transmit_pdu profile buf p =
     (Post_Bundle buf # (if retransmission_limit profile > 0 then [Pdu_Transmitted (pa_seq_ctr p) buf] else []), p\<lparr>pa_size := 0\<rparr>)"

fun load_topics :: "(u32, topic_aggregator) omap \<Rightarrow> bytes \<Rightarrow> (bytes \<times> (u32, topic_aggregator) omap) option" where
  "load_topics [] buf = Some (buf, [])"
| "load_topics ((k, a) # m) buf =
     (case load_payload buf a of
        None \<Rightarrow> None
      | Some (buf1, a1) \<Rightarrow> map_option (\<lambda>(buf2, m2). (buf2, (k, a1) # m2)) (load_topics m buf1))"

definition send_payload :: "dtpc_profile \<Rightarrow> payload_aggregator \<Rightarrow> (agg_effect list \<times> payload_aggregator) option" where
  "send_payload profile p =
     (let psn = (if retransmission_limit profile > 0 then pa_seq_ctr p else 0) in
      case dtpc_header DTPC_PDU_TYPE_DATA (pa_profile_id p) psn of
        None \<Rightarrow> None
      | Some header \<Rightarrow>
          (case load_topics (pa_topics p) header of
             None \<Rightarrow> None
           | Some (buf, topics) \<Rightarrow>
               let p1 = p\<lparr>pa_topics := topics\<rparr>;
                   (out, p2) = (if length buf > length header
                                then (case transmit_pdu profile buf p1 of (out, q) \<Rightarrow> (out, q\<lparr>pa_seq_ctr := pa_seq_ctr q + 1\<rparr>))
                                else ([], p1))
               in Some (out, if aggregation_time_limit profile > 0 then p2\<lparr>pa_timer := Some (pa_seq_ctr p2)\<rparr> else p2)))"

text \<open>
  The end of \<open>send_data_item\<close> and of \<open>elision_func_response\<close>: a full payload is sent, otherwise a timer runs.
\<close>

definition send_or_wait :: "bool \<Rightarrow> dtpc_profile \<Rightarrow> payload_aggregator \<Rightarrow> (agg_effect list \<times> payload_aggregator) option" where
  "send_or_wait waiting profile p =
     (if \<not> waiting \<and> pa_size p > uint (aggregation_size_limit profile) then send_payload profile (p\<lparr>pa_timer := None\<rparr>)
      else if pa_timer p = None \<and> aggregation_time_limit profile > 0 then Some ([], p\<lparr>pa_timer := Some (pa_seq_ctr p)\<rparr>)
      else Some ([], p))"

text \<open>
  \<open>profile\<close> is the profile of the aggregator if it is still defined, \<open>topic\<close> what the topic table knows. The
  first component is the result for the application.
\<close>

definition send_data_item :: "dtpc_profile option \<Rightarrow> bool option \<Rightarrow> u32 \<Rightarrow> bytes \<Rightarrow> payload_aggregator
    \<Rightarrow> (int \<times> agg_effect list \<times> payload_aggregator) option" where
  "send_data_item profile topic topic_id item p =
     (case profile of
        None \<Rightarrow> Some (- 3, [], p)
      | Some prof \<Rightarrow>
          if pa_wait_for_elision_func p then None
          else
            let a = (case om_find (pa_topics p) topic_id of Some a \<Rightarrow> a | None \<Rightarrow> new_topic_aggregator topic_id);
                (delta, waiting, a1) = topic_send_data_item topic (aggregation_size_limit prof \<noteq> 0) item a
            in map_option (\<lambda>(out, q). (0, out, q))
                 (send_or_wait waiting prof
                    (p\<lparr>pa_topics := om_assign topic_id a1 (pa_topics p), pa_size := pa_size p + delta, pa_wait_for_elision_func := waiting\<rparr>)))"

definition elision_func_response :: "dtpc_profile option \<Rightarrow> u32 \<Rightarrow> bool \<Rightarrow> bytes list \<Rightarrow> payload_aggregator
    \<Rightarrow> (agg_effect list \<times> payload_aggregator) option" where
  "elision_func_response profile topic_id modified items p =
     (case profile of
        None \<Rightarrow> Some ([], p)
      | Some prof \<Rightarrow>
          (case om_find (pa_topics p) topic_id of
             None \<Rightarrow> Some ([], p\<lparr>pa_wait_for_elision_func := False\<rparr>)
           | Some a \<Rightarrow>
               (case topic_elision_func_response modified items a of
                  None \<Rightarrow> None
                | Some (delta, a1) \<Rightarrow>
                    map_option (\<lambda>(out, q). (out, q\<lparr>pa_wait_for_elision_func := False\<rparr>))
                      (send_or_wait False prof (p\<lparr>pa_topics := om_assign topic_id a1 (pa_topics p), pa_size := pa_size p + delta\<rparr>)))))"

definition aggregation_timer_expired :: "dtpc_profile \<Rightarrow> u64 \<Rightarrow> payload_aggregator \<Rightarrow> (agg_effect list \<times> payload_aggregator) option" where
  "aggregation_timer_expired profile seq_ctr p =
     (if seq_ctr \<noteq> pa_seq_ctr p then Some ([], p) else send_payload profile (p\<lparr>pa_timer := None\<rparr>))"

definition new_payload_aggregator :: "u32 \<Rightarrow> payload_aggregator" where
  "new_payload_aggregator profile_id = \<lparr>pa_profile_id = profile_id, pa_seq_ctr = 1, pa_size = 0, pa_topics = [], pa_timer = None,
     pa_wait_for_elision_func = False\<rparr>"

section \<open>The receiver\<close>

text \<open>Numbers are decoded from the rest of the payload; -1 is an error.\<close>

definition dtpc_take64 :: "bytes \<Rightarrow> (u64 \<times> bytes) option" where
  "dtpc_take64 bs = (let (n, v) = sdnv_decode bs in if n = - 1 then None else Some (v, drop (nat n) bs))"

definition dtpc_take32 :: "bytes \<Rightarrow> (u32 \<times> bytes) option" where
  "dtpc_take32 bs = (let (n, v) = sdnv_decode32 0 bs in if n = - 1 then None else Some (v, drop (nat n) bs))"

text \<open>The items of a topic block, counted down from the record count.\<close>

function check_items :: "u64 \<Rightarrow> bytes \<Rightarrow> bytes option" where
  "check_items rec_count bs =
     (if rec_count = 0 then Some bs
      else
        (case dtpc_take64 bs of
           None \<Rightarrow> None
         | Some (adi_len, rest) \<Rightarrow>
             if unat adi_len > length rest then None else check_items (rec_count - 1) (drop (unat adi_len) rest)))"
  by pat_completeness auto
termination
  by (relation "measure (\<lambda>(n, bs). unat n)") (auto simp: unat_pred unat_gt_0)

declare check_items.simps [simp del]

lemma dtpc_take_shorter:
  "dtpc_take64 bs = Some (v, rest) \<Longrightarrow> length rest \<le> length bs"
  "dtpc_take32 bs = Some (w, rest) \<Longrightarrow> length rest \<le> length bs"
  by (auto simp: dtpc_take64_def dtpc_take32_def split: prod.splits if_splits)

lemma decode_positive: "bs \<noteq> [] \<Longrightarrow> sdnv_decode bs = (n, v) \<Longrightarrow> n = - 1 \<or> 0 < n"
proof -
  have "0 < m" if "sdnv_decode_loop bs v0 k = Inr (v, m)" for bs v0 k v m
    using that by (induction bs v0 k rule: sdnv_decode_loop.induct) (auto simp: Let_def split: if_splits)
  then show "sdnv_decode bs = (n, v) \<Longrightarrow> n = - 1 \<or> 0 < n"
    by (auto simp: sdnv_decode_def split: sum.splits if_splits)
qed

lemma dtpc_take32_less: "bs \<noteq> [] \<Longrightarrow> dtpc_take32 bs = Some (w, rest) \<Longrightarrow> length rest < length bs"
  using decode_positive [of bs] by (auto simp: dtpc_take32_def sdnv_decode32_def split: prod.splits if_splits)

lemma check_items_shorter: "check_items n bs = Some rest \<Longrightarrow> length rest \<le> length bs"
proof (induction n bs arbitrary: rest rule: check_items.induct)
  case (1 n bs)
  show ?case
  proof (cases "n = 0")
    case True
    then show ?thesis using "1.prems" by (simp add: check_items.simps [of 0])
  next
    case False
    then obtain l r where t: "dtpc_take64 bs = Some (l, r)" "unat l \<le> length r" "check_items (n - 1) (drop (unat l) r) = Some rest"
      using "1.prems" by (auto simp: check_items.simps [of n] split: option.splits if_splits)
    then have "length rest \<le> length (drop (unat l) r)" using "1.IH" [OF False t(1) refl] by simp
    then show ?thesis using dtpc_take_shorter(1) [OF t(1)] by simp
  qed
qed

function check_blocks :: "bytes \<Rightarrow> bool" where
  "check_blocks bs =
     (if bs = [] then True
      else
        (case dtpc_take32 bs of
           None \<Rightarrow> False
         | Some (topic_id, bs1) \<Rightarrow>
             (case dtpc_take64 bs1 of
                None \<Rightarrow> False
              | Some (rec_count, bs2) \<Rightarrow>
                  if rec_count = 0 then False
                  else (case check_items rec_count bs2 of None \<Rightarrow> False | Some rest \<Rightarrow> check_blocks rest))))"
  by pat_completeness auto
termination
  by (relation "measure length")
    (auto dest!: dtpc_take32_less dtpc_take_shorter(1) check_items_shorter)

declare check_blocks.simps [simp del]

text \<open>
  \<open>receive_bundle\<close>: an acknowledgement, or a data unit with the part of the buffer where the topic blocks
  start; \<open>None\<close> when the processing is aborted.
\<close>

datatype dtpc_received = Rcvd_Ack u32 u64 | Rcvd_Data u32 u64 bytes

definition receive_bundle :: "bytes \<Rightarrow> dtpc_received option" where
  "receive_bundle payload =
     (case payload of
        [] \<Rightarrow> None
      | flags # rest0 \<Rightarrow>
          if drop_bit 6 (flags AND 0xc0) \<noteq> 0 then None
          else
            let is_ack = (flags AND DTPC_PDU_TYPE_ACK = DTPC_PDU_TYPE_ACK) in
            (case dtpc_take32 rest0 of
               None \<Rightarrow> None
             | Some (profile_id, rest1) \<Rightarrow>
                 (case dtpc_take64 rest1 of
                    None \<Rightarrow> None
                  | Some (seq_ctr, rest2) \<Rightarrow>
                      if is_ack then (if rest2 = [] then Some (Rcvd_Ack profile_id seq_ctr) else None)
                      else if check_blocks rest2 then Some (Rcvd_Data profile_id seq_ctr rest2) else None)))"

section \<open>The bytes of a unit\<close>

definition data_item_bytes :: "bytes \<Rightarrow> bytes" where
  "data_item_bytes d = sdnv_groups 0 (of_nat (length d)) @ d"

definition topic_block :: "u32 \<times> bytes list \<Rightarrow> bytes" where
  "topic_block b = sdnv_groups 0 (ucast (fst b)) @ sdnv_groups 0 (of_nat (length (snd b))) @ concat (map data_item_bytes (snd b))"

text \<open>Blocks within the bounds of the code: lengths of items are copied through an \<open>int\<close>, their number is 32 bits wide.\<close>

definition item_fits :: "bytes \<Rightarrow> bool" where
  "item_fits d \<longleftrightarrow> length d < 2 ^ 31"

definition block_fits :: "u32 \<times> bytes list \<Rightarrow> bool" where
  "block_fits b \<longleftrightarrow> snd b \<noteq> [] \<and> length (snd b) < 2 ^ 32 \<and> (\<forall>d \<in> set (snd b). item_fits d)"

lemma unat_of_nat_word: "n < 2 ^ LENGTH('a) \<Longrightarrow> unat (of_nat n :: 'a::len word) = n"
  by (simp add: unsigned_of_nat take_bit_nat_eq_self)

lemma dtpc_append_eq [simp]: "dtpc_append v buf = Some (buf @ sdnv_groups 0 v)"
  by (simp add: dtpc_append_def sdnv_encode_def sdnv_fill_groups)

lemma take64_groups [simp]: "dtpc_take64 (sdnv_groups 0 v @ rest) = Some (v, rest)"
proof -
  have "sdnv_take (sdnv_groups 0 v @ rest) = Some (v, rest)" by (rule sdnv_take_groups)
  then show ?thesis by (auto simp: sdnv_take_def dtpc_take64_def split: prod.splits if_splits)
qed

lemma take32_groups [simp]: "dtpc_take32 (sdnv_groups 0 (ucast (t :: u32)) @ rest) = Some (t, rest)"
proof -
  obtain n v where d: "sdnv_decode (sdnv_groups 0 (ucast t) @ rest) = (n, v)" by fastforce
  then have v: "v = ucast t" "n \<noteq> - 1" "drop (nat n) (sdnv_groups 0 (ucast t) @ rest) = rest"
    using take64_groups [of "ucast t" rest] by (auto simp: dtpc_take64_def split: if_splits)
  have lt: "unat t < 2 ^ 32" using unsigned_less [of t] by simp
  then have "unat (ucast t :: u64) = unat t" by (simp add: unsigned_ucast_eq take_bit_nat_eq_self)
  then have "\<not> (0xffffffff :: u64) < ucast t" using lt by (simp add: word_less_nat_alt)
  moreover have "(ucast (ucast t :: u64) :: u32) = t" by (rule bit_word_eqI) (simp add: bit_simps)
  ultimately show ?thesis using d v by (simp add: dtpc_take32_def sdnv_decode32_def)
qed

lemma length_of_item: "item_fits d \<Longrightarrow> unat (of_nat (length d) :: u64) = length d"
  by (simp add: item_fits_def unat_of_nat_word)

lemma load_items_eq: "\<forall>d \<in> set ds. item_fits d \<Longrightarrow> load_items ds buf = Some (buf @ concat (map data_item_bytes ds))"
proof (induction ds arbitrary: buf)
  case (Cons d ds)
  have "signed_take_bit 31 (int (length d)) = int (length d)"
    using Cons.prems by (intro signed_take_bit_int_eq_self) (simp_all add: item_fits_def)
  then show ?case using Cons by (simp add: data_item_bytes_def)
qed simp

text \<open>Aggregators that count their items.\<close>

definition agg_ok :: "topic_aggregator \<Rightarrow> bool" where
  "agg_ok a \<longleftrightarrow> ta_item_count a = of_nat (length (ta_items a)) \<and> length (ta_items a) < 2 ^ 32 \<and> (\<forall>d \<in> set (ta_items a). item_fits d)"

definition agg_block :: "topic_aggregator \<Rightarrow> u32 \<times> bytes list" where
  "agg_block a = (ta_topic_id a, ta_items a)"

definition agg_emptied :: "topic_aggregator \<Rightarrow> topic_aggregator" where
  "agg_emptied a = a\<lparr>ta_items := [], ta_item_count := 0, ta_size := 0\<rparr>"

lemma load_payload_eq:
  assumes "agg_ok a"
  shows "load_payload buf a = Some (buf @ (if ta_items a = [] then [] else topic_block (agg_block a)), agg_emptied a)"
proof (cases "ta_items a = []")
  case True
  then show ?thesis using assms by (simp add: load_payload_def agg_ok_def agg_emptied_def)
next
  case False
  have "unat (ta_item_count a) = length (ta_items a)" using assms by (simp add: agg_ok_def unat_of_nat_word)
  then have "ta_item_count a > 0" using False by (metis length_greater_0_conv unat_gt_0 word_gt_0)
  then show ?thesis
    using assms False by (simp add: load_payload_def agg_ok_def load_items_eq topic_block_def agg_block_def agg_emptied_def)
qed

definition pending_blocks :: "(u32, topic_aggregator) omap \<Rightarrow> (u32 \<times> bytes list) list" where
  "pending_blocks m = map (agg_block \<circ> snd) (filter (\<lambda>e. ta_items (snd e) \<noteq> []) m)"

definition unit_blocks :: "(u32 \<times> bytes list) list \<Rightarrow> bytes" where
  "unit_blocks bs = concat (map topic_block bs)"

lemma unit_blocks_simps [simp]: "unit_blocks [] = []" "unit_blocks (b # bs) = topic_block b @ unit_blocks bs"
  by (simp_all add: unit_blocks_def)

lemma load_topics_eq:
  "\<forall>e \<in> set m. agg_ok (snd e) \<Longrightarrow>
     load_topics m buf = Some (buf @ unit_blocks (pending_blocks m), map (\<lambda>e. (fst e, agg_emptied (snd e))) m)"
  by (induction m arbitrary: buf) (auto simp: load_payload_eq pending_blocks_def)

lemma pending_fits: "\<forall>e \<in> set m. agg_ok (snd e) \<Longrightarrow> \<forall>b \<in> set (pending_blocks m). block_fits b"
  by (auto simp: pending_blocks_def block_fits_def agg_block_def agg_ok_def)

lemma topic_block_nonempty [simp]: "topic_block b \<noteq> []"
  by (simp add: topic_block_def)

lemma unit_blocks_empty_iff [simp]: "unit_blocks bs = [] \<longleftrightarrow> bs = []"
  by (cases bs) simp_all

section \<open>What is built is accepted\<close>

lemma check_items_eq:
  "\<forall>d \<in> set ds. item_fits d \<Longrightarrow> length ds < 2 ^ 64 \<Longrightarrow> check_items (of_nat (length ds)) (concat (map data_item_bytes ds) @ rest) = Some rest"
proof (induction ds)
  case Nil
  then show ?case by (simp add: check_items.simps [of 0])
next
  case (Cons d ds)
  have "unat (of_nat (length (d # ds)) :: u64) = length (d # ds)" by (rule unat_of_nat_word) (use Cons.prems(2) in simp)
  then have "(of_nat (length (d # ds)) :: u64) \<noteq> 0" by (metis list.size(3) neq_Nil_conv length_0_conv unat_0 list.distinct(1))
  moreover have "(of_nat (length (d # ds)) :: u64) - 1 = of_nat (length ds)" by simp
  moreover have "unat (of_nat (length d) :: u64) = length d" by (rule length_of_item) (use Cons.prems(1) in simp)
  ultimately show ?case
    using Cons by (simp add: check_items.simps [of "of_nat (Suc (length ds))"] data_item_bytes_def del: of_nat_Suc)
qed

lemma check_blocks_eq: "\<forall>b \<in> set bs. block_fits b \<Longrightarrow> check_blocks (unit_blocks bs)"
proof (induction bs)
  case Nil
  then show ?case by (simp add: check_blocks.simps [of "[]"])
next
  case (Cons b bs)
  have b: "snd b \<noteq> []" "length (snd b) < 2 ^ 32" "\<forall>d \<in> set (snd b). item_fits d" using Cons.prems by (simp_all add: block_fits_def)
  have "unat (of_nat (length (snd b)) :: u64) = length (snd b)" by (rule unat_of_nat_word) (use b(2) in simp)
  then have "(of_nat (length (snd b)) :: u64) \<noteq> 0" using b(1) by (metis length_0_conv unat_0)
  then show ?case
    using Cons b check_items_eq [OF b(3)] by (simp add: check_blocks.simps [of "topic_block b @ _"]) (simp add: topic_block_def)
qed

lemma header_eq: "dtpc_header t profile_id seq = Some (dtpc_flags t # sdnv_groups 0 (ucast profile_id) @ sdnv_groups 0 seq)"
  by (simp add: dtpc_header_def)

lemma flags_values: "dtpc_flags DTPC_PDU_TYPE_DATA = 0" "dtpc_flags DTPC_PDU_TYPE_ACK = 1"
  by (simp_all add: dtpc_flags_def DTPC_PDU_TYPE_DATA_def DTPC_PDU_TYPE_ACK_def)

definition data_unit :: "u32 \<Rightarrow> u64 \<Rightarrow> (u32 \<times> bytes list) list \<Rightarrow> bytes" where
  "data_unit profile_id seq bs =
     dtpc_flags DTPC_PDU_TYPE_DATA # sdnv_groups 0 (ucast profile_id) @ sdnv_groups 0 seq @ unit_blocks bs"

lemma receive_data_unit:
  "\<forall>b \<in> set bs. block_fits b \<Longrightarrow> receive_bundle (data_unit profile_id seq bs) = Some (Rcvd_Data profile_id seq (unit_blocks bs))"
  by (simp add: receive_bundle_def data_unit_def flags_values DTPC_PDU_TYPE_ACK_def Let_def check_blocks_eq)

lemma receive_ack:
  "dtpc_header DTPC_PDU_TYPE_ACK profile_id seq = Some buf \<Longrightarrow> receive_bundle buf = Some (Rcvd_Ack profile_id seq)"
proof -
  assume "dtpc_header DTPC_PDU_TYPE_ACK profile_id seq = Some buf"
  then have "buf = dtpc_flags DTPC_PDU_TYPE_ACK # sdnv_groups 0 (ucast profile_id) @ sdnv_groups 0 seq @ []" by (simp add: header_eq)
  moreover have "dtpc_take64 (sdnv_groups 0 seq) = Some (seq, [])" using take64_groups [of seq "[]"] by simp
  ultimately show ?thesis unfolding flags_values by (simp add: receive_bundle_def DTPC_PDU_TYPE_ACK_def Let_def)
qed

section \<open>Runs of an aggregator\<close>

definition aggs_ok :: "payload_aggregator \<Rightarrow> bool" where
  "aggs_ok p \<longleftrightarrow> om_wf (pa_topics p) \<and> (\<forall>(k, a) \<in> set (pa_topics p). agg_ok a \<and> ta_topic_id a = k) \<and> \<not> pa_wait_for_elision_func p"

definition items_of :: "u32 \<Rightarrow> (u32 \<times> bytes list) list \<Rightarrow> bytes list" where
  "items_of t bs = concat (map snd (filter (\<lambda>b. fst b = t) bs))"

definition psn_of :: "dtpc_profile \<Rightarrow> u64 \<Rightarrow> u64" where
  "psn_of profile seq = (if retransmission_limit profile > 0 then seq else 0)"

definition unit_effects :: "dtpc_profile \<Rightarrow> u32 \<Rightarrow> u64 \<Rightarrow> (u32 \<times> bytes list) list \<Rightarrow> agg_effect list" where
  "unit_effects profile profile_id seq bs =
     (let buf = data_unit profile_id (psn_of profile seq) bs
      in Post_Bundle buf # (if retransmission_limit profile > 0 then [Pdu_Transmitted seq buf] else []))"

lemma items_of_simps [simp]:
  "items_of t [] = []" "items_of t (b # bs) = (if fst b = t then snd b else []) @ items_of t bs" "items_of t (bs @ cs) = items_of t bs @ items_of t cs"
  by (simp_all add: items_of_def)

lemma send_payload_eq:
  assumes "aggs_ok p"
  defines "bs \<equiv> pending_blocks (pa_topics p)"
  obtains p' where "send_payload profile p = Some (if bs = [] then [] else unit_effects profile (pa_profile_id p) (pa_seq_ctr p) bs, p')"
    "aggs_ok p'" "pending_blocks (pa_topics p') = []" "pa_profile_id p' = pa_profile_id p"
    "pa_seq_ctr p' = (if bs = [] then pa_seq_ctr p else pa_seq_ctr p + 1)" "\<forall>b \<in> set bs. block_fits b"
proof -
  have ok: "\<forall>e \<in> set (pa_topics p). agg_ok (snd e)" using assms(1) by (auto simp: aggs_ok_def)
  let ?m = "map (\<lambda>e. (fst e, agg_emptied (snd e))) (pa_topics p)"
  have m: "om_wf ?m" "\<forall>(k, a) \<in> set ?m. agg_ok a \<and> ta_topic_id a = k" "pending_blocks ?m = []"
    using assms(1) by (auto simp: aggs_ok_def agg_ok_def agg_emptied_def pending_blocks_def om_wf_def comp_def)
  have fits: "\<forall>b \<in> set bs. block_fits b" unfolding bs_def by (rule pending_fits [OF ok])
  note load = load_topics_eq [OF ok, folded bs_def]
  define p2 where "p2 = (if bs = [] then p\<lparr>pa_topics := ?m\<rparr> else p\<lparr>pa_topics := ?m, pa_size := 0, pa_seq_ctr := pa_seq_ctr p + 1\<rparr>)"
  define p' where "p' = (if aggregation_time_limit profile > 0 then p2\<lparr>pa_timer := Some (pa_seq_ctr p2)\<rparr> else p2)"
  have "send_payload profile p = Some (if bs = [] then [] else unit_effects profile (pa_profile_id p) (pa_seq_ctr p) bs, p')"
    by (simp add: send_payload_def header_eq load transmit_pdu_def unit_effects_def data_unit_def psn_of_def p'_def p2_def Let_def)
  moreover have "aggs_ok p'" "pending_blocks (pa_topics p') = []" "pa_profile_id p' = pa_profile_id p"
      "pa_seq_ctr p' = (if bs = [] then pa_seq_ctr p else pa_seq_ctr p + 1)"
    using m assms(1) by (simp_all add: p'_def p2_def aggs_ok_def)
  ultimately show thesis using that fits by blast
qed

lemma items_of_pending:
  "om_wf m \<Longrightarrow> \<forall>(k, a) \<in> set m. ta_topic_id a = k \<Longrightarrow>
     items_of t (pending_blocks m) = (case om_find m t of None \<Rightarrow> [] | Some a \<Rightarrow> ta_items a)"
proof (induction m)
  case Nil
  then show ?case by (simp add: pending_blocks_def om_find_def)
next
  case (Cons e m)
  obtain k a where e: "e = (k, a)" by fastforce
  have IH: "items_of t (pending_blocks m) = (case om_find m t of None \<Rightarrow> [] | Some a \<Rightarrow> ta_items a)"
    using Cons unfolding e by simp
  have "k = t \<Longrightarrow> om_find m t = None" using Cons.prems(1) unfolding e by (auto simp: om_find_None_iff om_wf_def)
  then show ?case using IH Cons.prems(2) unfolding e by (auto simp: pending_blocks_def agg_block_def om_find_def)
qed

lemma count_succ: "agg_ok a \<Longrightarrow> Suc (length (ta_items a)) < 2 ^ 32 \<Longrightarrow> item_fits d \<Longrightarrow>
    agg_ok (a\<lparr>ta_items := ta_items a @ [d], ta_item_count := ta_item_count a + 1, ta_size := n\<rparr>)"
  by (simp add: agg_ok_def add.commute)

definition item_taken :: "u32 \<Rightarrow> bytes \<Rightarrow> payload_aggregator \<Rightarrow> payload_aggregator \<Rightarrow> bool" where
  "item_taken t d p q \<longleftrightarrow> aggs_ok q \<and> pa_profile_id q = pa_profile_id p \<and> pa_seq_ctr q = pa_seq_ctr p
     \<and> (\<forall>j. items_of j (pending_blocks (pa_topics q)) = items_of j (pending_blocks (pa_topics p)) @ (if j = t then [d] else []))"

lemma send_item_eq:
  assumes "aggs_ok p" and "item_fits d" and "Suc (length (items_of t (pending_blocks (pa_topics p)))) < 2 ^ 32"
  obtains q where "send_data_item (Some profile) (Some False) t d p = map_option (\<lambda>r. (0, r)) (send_or_wait False profile q)" "item_taken t d p q"
proof -
  define a where "a = (case om_find (pa_topics p) t of Some a \<Rightarrow> a | None \<Rightarrow> new_topic_aggregator t)"
  define a1 where "a1 = a\<lparr>ta_items := ta_items a @ [d], ta_item_count := ta_item_count a + 1, ta_size := ta_size a + int (length d)\<rparr>"
  define q where "q = p\<lparr>pa_topics := om_assign t a1 (pa_topics p), pa_size := pa_size p + int (length d), pa_wait_for_elision_func := False\<rparr>"
  have wf: "om_wf (pa_topics p)" and keys: "\<forall>(k, a) \<in> set (pa_topics p). ta_topic_id a = k"
    and oks: "\<forall>(k, a) \<in> set (pa_topics p). agg_ok a" using assms(1) by (auto simp: aggs_ok_def)
  note P = items_of_pending [OF wf keys]
  have a: "agg_ok a" "ta_topic_id a = t" "ta_items a = items_of t (pending_blocks (pa_topics p))"
    using oks keys P [of t] om_find_SomeD [of "pa_topics p" t]
    by (auto simp: a_def new_topic_aggregator_def agg_ok_def split: option.splits)
  have a1: "agg_ok a1" "ta_topic_id a1 = t" "ta_items a1 = ta_items a @ [d]"
    using count_succ [OF a(1) _ assms(2)] assms(3) a(2,3) by (simp_all add: a1_def)
  have q: "om_wf (pa_topics q)" "\<forall>(k, a) \<in> set (pa_topics q). agg_ok a \<and> ta_topic_id a = k"
  proof -
    show w: "om_wf (pa_topics q)" using wf om_wf_assign by (simp add: q_def)
    show "\<forall>(k, a) \<in> set (pa_topics q). agg_ok a \<and> ta_topic_id a = k"
    proof clarify
      fix k b assume "(k, b) \<in> set (pa_topics q)"
      then have "om_find (om_assign t a1 (pa_topics p)) k = Some b" using om_find_mem [OF w] by (simp add: q_def)
      then have "k = t \<and> b = a1 \<or> (k, b) \<in> set (pa_topics p)"
        using om_find_SomeD by (fastforce simp: om_find_assign split: if_splits)
      then show "agg_ok b \<and> ta_topic_id b = k" using a1 oks keys by auto
    qed
  qed
  have "items_of j (pending_blocks (pa_topics q)) = items_of j (pending_blocks (pa_topics p)) @ (if j = t then [d] else [])" for j
  proof -
    have "\<forall>(k, a) \<in> set (pa_topics q). ta_topic_id a = k" using q(2) by auto
    then show ?thesis using items_of_pending [OF q(1), of j] P [of j] P [of t] a1(3) a(3) by (simp add: q_def om_find_assign)
  qed
  then have "item_taken t d p q" using q assms(1) by (auto simp: item_taken_def aggs_ok_def q_def)
  moreover have "send_data_item (Some profile) (Some False) t d p = map_option (\<lambda>r. (0, r)) (send_or_wait False profile q)"
    using assms(1) by (simp add: send_data_item_def topic_send_data_item_def aggs_ok_def a_def [symmetric] q_def a1_def Let_def case_prod_beta)
  ultimately show thesis using that by blast
qed

text \<open>The runs: items for known topics without elision functions, and the aggregation timer.\<close>

inductive agg_run :: "dtpc_profile \<Rightarrow> u32 \<Rightarrow> (u32 \<times> bytes) list \<Rightarrow> agg_effect list \<Rightarrow> payload_aggregator \<Rightarrow> bool" for profile profile_id where
  agg_start: "agg_run profile profile_id [] [] (new_payload_aggregator profile_id)"
| agg_item: "agg_run profile profile_id given out p \<Longrightarrow> item_fits d \<Longrightarrow> Suc (length given) < 2 ^ 32
    \<Longrightarrow> send_data_item (Some profile) (Some False) t d p = Some (res, out', p')
    \<Longrightarrow> agg_run profile profile_id (given @ [(t, d)]) (out @ out') p'"
| agg_timer: "agg_run profile profile_id given out p \<Longrightarrow> aggregation_timer_expired profile seq p = Some (out', p')
    \<Longrightarrow> agg_run profile profile_id given (out @ out') p'"

fun number_units :: "dtpc_profile \<Rightarrow> u32 \<Rightarrow> u64 \<Rightarrow> (u32 \<times> bytes list) list list \<Rightarrow> agg_effect list" where
  "number_units profile profile_id seq [] = []"
| "number_units profile profile_id seq (bs # us) = unit_effects profile profile_id seq bs @ number_units profile profile_id (seq + 1) us"

lemma number_units_snoc:
  "number_units profile profile_id seq (us @ [bs]) =
     number_units profile profile_id seq us @ unit_effects profile profile_id (seq + of_nat (length us)) bs"
  by (induction us arbitrary: seq) (simp_all add: add.assoc)

text \<open>What an aggregator has done: the units are numbered from 1, and no item is lost, repeated or out of order.\<close>

definition agg_inv :: "dtpc_profile \<Rightarrow> u32 \<Rightarrow> (u32 \<times> bytes) list \<Rightarrow> agg_effect list \<Rightarrow> payload_aggregator \<Rightarrow> (u32 \<times> bytes list) list list \<Rightarrow> bool" where
  "agg_inv profile profile_id given out p us \<longleftrightarrow> aggs_ok p \<and> pa_profile_id p = profile_id
     \<and> out = number_units profile profile_id 1 us \<and> pa_seq_ctr p = 1 + of_nat (length us)
     \<and> (\<forall>bs \<in> set us. bs \<noteq> [] \<and> (\<forall>b \<in> set bs. block_fits b))
     \<and> (\<forall>t. map snd (filter (\<lambda>g. fst g = t) given) = concat (map (items_of t) us) @ items_of t (pending_blocks (pa_topics p)))
     \<and> length us + (if pending_blocks (pa_topics p) = [] then 0 else 1) \<le> length given \<and> length given < 2 ^ 32"

lemma agg_inv_send:
  assumes "agg_inv profile profile_id given out p us" and "send_payload profile p = Some (out', p')"
  shows "\<exists>us'. agg_inv profile profile_id given (out @ out') p' us'"
proof -
  let ?bs = "pending_blocks (pa_topics p)"
  have ok: "aggs_ok p" using assms(1) by (simp add: agg_inv_def)
  obtain q where q: "send_payload profile p = Some (if ?bs = [] then [] else unit_effects profile (pa_profile_id p) (pa_seq_ctr p) ?bs, q)"
    "aggs_ok q" "pending_blocks (pa_topics q) = []" "pa_profile_id q = pa_profile_id p"
    "pa_seq_ctr q = (if ?bs = [] then pa_seq_ctr p else pa_seq_ctr p + 1)" "\<forall>b \<in> set ?bs. block_fits b"
    by (rule send_payload_eq [OF ok])
  show ?thesis
    by (rule exI [of _ "if ?bs = [] then us else us @ [?bs]"]) (use assms q in \<open>auto simp: agg_inv_def number_units_snoc\<close>)
qed

lemma items_given_bound:
  assumes "agg_inv profile profile_id given out p us"
  shows "length (items_of t (pending_blocks (pa_topics p))) \<le> length given"
proof -
  have "length (items_of t (pending_blocks (pa_topics p))) \<le> length (map snd (filter (\<lambda>g. fst g = t) given))"
    using assms by (simp add: agg_inv_def)
  also have "\<dots> \<le> length given" by simp
  finally show ?thesis .
qed

lemma agg_inv_taken:
  assumes "agg_inv profile profile_id given out p us" and "item_taken t d p q" and "Suc (length given) < 2 ^ 32"
  shows "agg_inv profile profile_id (given @ [(t, d)]) out q us"
  using assms by (auto simp: agg_inv_def item_taken_def)

lemma agg_inv_timer: "agg_inv profile profile_id given out p us \<Longrightarrow> agg_inv profile profile_id given out (p\<lparr>pa_timer := x\<rparr>) us"
  by (simp add: agg_inv_def aggs_ok_def)

lemma send_or_wait_inv:
  assumes "agg_inv profile profile_id given out p us" and "send_or_wait False profile p = Some (out', p')"
  shows "\<exists>us'. agg_inv profile profile_id given (out @ out') p' us'"
proof (cases "pa_size p > uint (aggregation_size_limit profile)")
  case True
  then show ?thesis using assms(2) agg_inv_send [OF agg_inv_timer [OF assms(1)]] by (simp add: send_or_wait_def)
next
  case False
  then have "out' = [] \<and> (\<exists>x. p' = p\<lparr>pa_timer := x\<rparr>)" using assms(2) by (auto simp: send_or_wait_def intro: exI [of _ "pa_timer p"] split: if_splits)
  then show ?thesis using agg_inv_timer [OF assms(1)] by auto
qed

lemma agg_run_inv: "agg_run profile profile_id given out p \<Longrightarrow> \<exists>us. agg_inv profile profile_id given out p us"
proof (induction rule: agg_run.induct)
  case agg_start
  show ?case by (rule exI [of _ "[]"]) (simp add: agg_inv_def new_payload_aggregator_def aggs_ok_def pending_blocks_def om_wf_def)
next
  case (agg_item given out p d t res out' p')
  then obtain us where us: "agg_inv profile profile_id given out p us" by blast
  have "Suc (length (items_of t (pending_blocks (pa_topics p)))) < 2 ^ 32"
    using items_given_bound [OF us, of t] agg_item.hyps(3) by linarith
  then obtain q where q: "send_data_item (Some profile) (Some False) t d p = map_option (\<lambda>r. (0, r)) (send_or_wait False profile q)" "item_taken t d p q"
    using send_item_eq [of p d t profile] us agg_item.hyps(2) unfolding agg_inv_def by metis
  then have "send_or_wait False profile q = Some (out', p')" using agg_item.hyps(4) by (cases "send_or_wait False profile q") auto
  then show ?case using send_or_wait_inv [OF agg_inv_taken [OF us q(2) agg_item.hyps(3)]] by blast
next
  case (agg_timer given out p seq out' p')
  then obtain us where us: "agg_inv profile profile_id given out p us" by blast
  show ?case
    using agg_timer.hyps(2) us agg_inv_send [OF agg_inv_timer [OF us]] by (auto simp: aggregation_timer_expired_def split: if_splits)
qed

text \<open>The aggregator never fails an assertion.\<close>

lemma send_payload_total: "aggs_ok p \<Longrightarrow> send_payload profile p \<noteq> None"
  by (rule send_payload_eq) auto

lemma send_item_total:
  assumes "agg_run profile profile_id given out p" and "item_fits d" and "Suc (length given) < 2 ^ 32"
  shows "\<exists>out' p'. send_data_item (Some profile) (Some False) t d p = Some (0, out', p')"
proof -
  obtain us where us: "agg_inv profile profile_id given out p us" using agg_run_inv [OF assms(1)] by blast
  have "Suc (length (items_of t (pending_blocks (pa_topics p)))) < 2 ^ 32" using items_given_bound [OF us, of t] assms(3) by linarith
  then obtain q where q: "send_data_item (Some profile) (Some False) t d p = map_option (\<lambda>r. (0, r)) (send_or_wait False profile q)" "item_taken t d p q"
    using send_item_eq [of p d t profile] us assms(2) unfolding agg_inv_def by metis
  have "aggs_ok (q\<lparr>pa_timer := None\<rparr>)" using q(2) by (simp add: item_taken_def aggs_ok_def)
  then have "send_or_wait False profile q \<noteq> None" using send_payload_total by (auto simp: send_or_wait_def)
  then show ?thesis using q(1) by auto
qed

end
