(* ===== verification/Dtpc_Topic.thy ===== *)
theory Dtpc_Topic
  imports Dtpc_Pdu "HOL-Library.Sublist"
begin

text \<open>
  Topics at the receiving side (\<open>dtpc/DtpcTopic.cc\<close>, \<open>DtpcTopicTable.cc\<close>, \<open>DtpcTopicCollector.cc\<close>,
  \<open>DtpcTopicCollectorList.cc\<close>): the data items wait in collectors, one for each topic block, in the queue of the
  topic or, once an application has registered, in the queue of its registration. How the blocks of a unit
  reach their topics is the loop of \<open>DtpcDataPduCollector::deliver_pdu\<close>.
\<close>

section \<open>Queues of items\<close>

text \<open>
  The interface of a queue that takes items by the batch and gives them one by one: what comes out is what
  went in, in the same order.
\<close>

locale item_queue =
  fixes items :: "'q \<Rightarrow> 'a list" and load :: "'c \<Rightarrow> 'a list" and push :: "'c \<Rightarrow> 'q \<Rightarrow> 'q" and pop :: "'q \<Rightarrow> 'a option \<times> 'q"
  assumes items_push: "items (push c q) = items q @ load c"
    and items_pop: "pop q = (x, q') \<Longrightarrow> items q = (case x of None \<Rightarrow> [] | Some d \<Rightarrow> [d]) @ items q'"
    and pop_empty: "pop q = (None, q') \<Longrightarrow> items q = []"
begin

lemma pushes: "items (fold push cs q) = items q @ concat (map load cs)"
  by (induction cs arbitrary: q) (simp_all add: items_push)

lemma pop_head: "items q = d # ds \<Longrightarrow> \<exists>q'. pop q = (Some d, q') \<and> items q' = ds"
  using items_pop [of q] pop_empty [of q] by (cases "pop q") (fastforce split: option.splits)

end

fun pops :: "('q \<Rightarrow> 'a option \<times> 'q) \<Rightarrow> nat \<Rightarrow> 'q \<Rightarrow> 'a list \<times> 'q" where
  "pops pop 0 q = ([], q)"
| "pops pop (Suc n) q =
     (case pop q of (None, q1) \<Rightarrow> ([], q1) | (Some d, q1) \<Rightarrow> (case pops pop n q1 of (ds, q2) \<Rightarrow> (d # ds, q2)))"

context item_queue
begin

lemma pops_items: "pops pop n q = (ds, q') \<Longrightarrow> items q = ds @ items q'"
proof (induction n arbitrary: q ds q')
  case (Suc n)
  obtain x q1 where x: "pop q = (x, q1)" by fastforce
  show ?case
  proof (cases x)
    case None
    then show ?thesis using Suc.prems x items_pop [OF x] by simp
  next
    case (Some d)
    obtain es q2 where p: "pops pop n q1 = (es, q2)" by fastforce
    then show ?thesis using Suc.prems Suc.IH [OF p] x Some items_pop [OF x] by simp
  qed
qed simp

lemma pops_all: "pops pop n q = (ds, q') \<Longrightarrow> ds = take n (items q)"
proof (induction n arbitrary: q ds q')
  case (Suc n)
  show ?case
  proof (cases "items q")
    case Nil
    then have "fst (pop q) = None" using items_pop [of q] by (cases "pop q") (fastforce split: option.splits)
    then show ?thesis using Suc.prems Nil by (auto split: prod.splits option.splits)
  next
    case (Cons d ds1)
    then obtain q1 where q1: "pop q = (Some d, q1)" "items q1 = ds1" using pop_head by blast
    obtain es q2 where p: "pops pop n q1 = (es, q2)" by fastforce
    then show ?thesis using Suc.prems Suc.IH [OF p] q1 Cons by simp
  qed
qed simp

end

section \<open>Lists of topic collectors\<close>

text \<open>The number of items of a collector, which the code keeps, is the length of its list.\<close>

record topic_collector =
  tc_topic_id :: u32
  tc_remote_eid :: string
  tc_expiration_ts :: int
  tc_items :: "bytes list"

definition tc_expired :: "int \<Rightarrow> topic_collector \<Rightarrow> bool" where
  "tc_expired now c \<longleftrightarrow> now \<ge> tc_expiration_ts c"

fun pop_data_item :: "int \<Rightarrow> topic_collector list \<Rightarrow> bytes option \<times> topic_collector list" where
  "pop_data_item now [] = (None, [])"
| "pop_data_item now (c # cs) =
     (if tc_expired now c then pop_data_item now cs
      else
        (case tc_items c of
           [] \<Rightarrow> pop_data_item now cs
         | d # ds \<Rightarrow> (Some d, if ds = [] then cs else c\<lparr>tc_items := ds\<rparr> # cs)))"

text \<open>\<open>move_contents\<close> leaves nothing behind; collectors that have expired are deleted.\<close>

fun move_contents :: "int \<Rightarrow> topic_collector list \<Rightarrow> topic_collector list \<Rightarrow> topic_collector list" where
  "move_contents now [] other = other"
| "move_contents now (c # cs) other = move_contents now cs (if tc_expired now c then other else other @ [c])"

fun remove_expired_collectors :: "int \<Rightarrow> topic_collector list \<Rightarrow> topic_collector list" where
  "remove_expired_collectors now [] = []"
| "remove_expired_collectors now (c # cs) =
     (if tc_expired now c then remove_expired_collectors now cs else c # remove_expired_collectors now cs)"

section \<open>Topics\<close>

text \<open>\<open>registration\<close> is the queue of the registration, if there is one; \<open>topic_timer\<close> says that the check for expired items is scheduled.\<close>

record dtpc_topic =
  topic_user_defined :: bool
  collector_list :: "topic_collector list"
  registration :: "topic_collector list option"
  topic_timer :: bool

definition new_topic :: "bool \<Rightarrow> dtpc_topic" where
  "new_topic user_defined = \<lparr>topic_user_defined = user_defined, collector_list = [], registration = None, topic_timer = False\<rparr>"

definition topic_deliver_collector :: "topic_collector \<Rightarrow> dtpc_topic \<Rightarrow> dtpc_topic" where
  "topic_deliver_collector c t =
     (case registration t of
        Some reg \<Rightarrow> t\<lparr>registration := Some (reg @ [c])\<rparr>
      | None \<Rightarrow> t\<lparr>collector_list := collector_list t @ [c]\<rparr>)\<lparr>topic_timer := True\<rparr>"

definition remove_expired_items :: "int \<Rightarrow> dtpc_topic \<Rightarrow> dtpc_topic" where
  "remove_expired_items now t =
     (case registration t of
        Some reg \<Rightarrow> let reg' = remove_expired_collectors now reg in t\<lparr>registration := Some reg', topic_timer := reg' \<noteq> []\<rparr>
      | None \<Rightarrow> let cs = remove_expired_collectors now (collector_list t) in t\<lparr>collector_list := cs, topic_timer := cs \<noteq> []\<rparr>)"

text \<open>\<open>set_registration\<close>: with a new registration, whose queue is empty, or with a null pointer.\<close>

definition set_registration :: "int \<Rightarrow> bool \<Rightarrow> dtpc_topic \<Rightarrow> dtpc_topic" where
  "set_registration now attach t =
     (if attach then t\<lparr>registration := Some (move_contents now (collector_list t) []), collector_list := []\<rparr>
      else
        (case registration t of
           Some reg \<Rightarrow> t\<lparr>collector_list := move_contents now reg (collector_list t), registration := None\<rparr>
         | None \<Rightarrow> t\<lparr>registration := None\<rparr>))"

text \<open>What the application reads.\<close>

definition topic_pop :: "int \<Rightarrow> dtpc_topic \<Rightarrow> bytes option \<times> dtpc_topic" where
  "topic_pop now t =
     (case registration t of
        None \<Rightarrow> (None, t)
      | Some reg \<Rightarrow> (case pop_data_item now reg of (d, reg') \<Rightarrow> (d, t\<lparr>registration := Some reg'\<rparr>)))"

section \<open>The topic table\<close>

type_synonym topic_table = "u32 \<Rightarrow> dtpc_topic option"

definition topic_table_add :: "bool \<Rightarrow> u32 \<Rightarrow> bool \<Rightarrow> topic_table \<Rightarrow> bool \<times> topic_table" where
  "topic_table_add require_predefined topic_id user_defined tab =
     (if tab topic_id \<noteq> None then (False, tab)
      else if \<not> user_defined \<and> require_predefined then (False, tab)
      else (True, tab(topic_id \<mapsto> new_topic user_defined)))"

definition topic_table_del :: "u32 \<Rightarrow> topic_table \<Rightarrow> bool \<times> topic_table" where
  "topic_table_del topic_id tab = (if tab topic_id = None then (False, tab) else (True, tab(topic_id := None)))"

definition validate_topic_id :: "bool \<Rightarrow> u32 \<Rightarrow> topic_table \<Rightarrow> bool \<times> topic_table" where
  "validate_topic_id require_predefined topic_id tab =
     (if tab topic_id \<noteq> None then (True, tab)
      else if require_predefined then (False, tab)
      else topic_table_add require_predefined topic_id False tab)"

definition deliver_topic_collector :: "topic_collector \<Rightarrow> topic_table \<Rightarrow> topic_table" where
  "deliver_topic_collector c tab =
     (case tab (tc_topic_id c) of None \<Rightarrow> tab | Some t \<Rightarrow> tab(tc_topic_id c \<mapsto> topic_deliver_collector c t))"

section \<open>The blocks of a unit\<close>

function collect_items :: "u64 \<Rightarrow> bytes \<Rightarrow> (bytes list \<times> bytes) option" where
  "collect_items rec_count bs =
     (if rec_count = 0 then Some ([], bs)
      else
        (case dtpc_take64 bs of
           None \<Rightarrow> None
         | Some (adi_len, rest) \<Rightarrow>
             if unat adi_len > length rest then None
             else map_option (\<lambda>(ds, r). (take (unat adi_len) rest # ds, r)) (collect_items (rec_count - 1) (drop (unat adi_len) rest))))"
  by pat_completeness auto
termination
  by (relation "measure (\<lambda>(n, bs). unat n)") (auto simp: unat_pred unat_gt_0)

declare collect_items.simps [simp del]

text \<open>The second pass over the items reads the same structure as the first.\<close>

lemma collect_check: "map_option snd (collect_items n bs) = check_items n bs"
proof (induction n bs rule: collect_items.induct)
  case (1 n bs)
  show ?case
  proof (cases "n = 0")
    case True
    then show ?thesis by (simp add: collect_items.simps [of 0] check_items.simps [of 0])
  next
    case False
    then show ?thesis
      using 1 by (auto simp: collect_items.simps [of n] check_items.simps [of n] option.map_comp comp_def case_prod_beta
          split: option.splits)
  qed
qed

lemma collect_shorter: "collect_items n bs = Some (ds, rest) \<Longrightarrow> length rest \<le> length bs"
  using collect_check [of n bs] check_items_shorter [of n bs rest] by simp

text \<open>
  The loop of \<open>deliver_pdu\<close>. The items of an unknown topic are skipped; an error ends the loop, and the
  collector that was being filled is deleted.
\<close>

function deliver_blocks :: "bool \<Rightarrow> string \<Rightarrow> int \<Rightarrow> bytes \<Rightarrow> topic_table \<Rightarrow> topic_table" where
  "deliver_blocks require_predefined remote_eid expiration_ts bs tab =
     (if bs = [] then tab
      else
        (case dtpc_take32 bs of
           None \<Rightarrow> tab
         | Some (topic_id, bs1) \<Rightarrow>
             let (valid_topic, tab1) = validate_topic_id require_predefined topic_id tab in
             (case dtpc_take64 bs1 of
                None \<Rightarrow> tab1
              | Some (rec_count, bs2) \<Rightarrow>
                  if rec_count = 0 then tab1
                  else
                    (case collect_items rec_count bs2 of
                       None \<Rightarrow> tab1
                     | Some (ds, rest) \<Rightarrow>
                         deliver_blocks require_predefined remote_eid expiration_ts rest
                           (if valid_topic
                            then deliver_topic_collector \<lparr>tc_topic_id = topic_id, tc_remote_eid = remote_eid,
                                   tc_expiration_ts = expiration_ts, tc_items = ds\<rparr> tab1
                            else tab1)))))"
  by pat_completeness auto
termination
  by (relation "measure (\<lambda>(_, _, _, bs, _). length bs)")
    (auto dest!: dtpc_take32_less dtpc_take_shorter(1) collect_shorter)

declare deliver_blocks.simps [simp del]

section \<open>A topic is a queue of the items that have not expired\<close>

definition fresh_items :: "int \<Rightarrow> topic_collector \<Rightarrow> bytes list" where
  "fresh_items now c = (if tc_expired now c then [] else tc_items c)"

definition queue_items :: "int \<Rightarrow> topic_collector list \<Rightarrow> bytes list" where
  "queue_items now cs = concat (map (fresh_items now) cs)"

lemma queue_items_simps [simp]:
  "queue_items now [] = []" "queue_items now (c # cs) = fresh_items now c @ queue_items now cs"
  "queue_items now (cs @ ds) = queue_items now cs @ queue_items now ds"
  by (simp_all add: queue_items_def)

lemma pop_data_item_items: "pop_data_item now cs = (x, cs') \<Longrightarrow> queue_items now cs = (case x of None \<Rightarrow> [] | Some d \<Rightarrow> [d]) @ queue_items now cs'"
  by (induction now cs arbitrary: x cs' rule: pop_data_item.induct)
    (auto simp: fresh_items_def tc_expired_def split: if_splits list.splits)

lemma pop_data_item_empty: "pop_data_item now cs = (None, cs') \<Longrightarrow> queue_items now cs = []"
  by (induction now cs arbitrary: cs' rule: pop_data_item.induct) (auto simp: fresh_items_def split: if_splits list.splits)

interpretation collectors: item_queue "queue_items now" "fresh_items now" "\<lambda>c cs. cs @ [c]" "pop_data_item now" for now
proof
  show "queue_items now (cs @ [c]) = queue_items now cs @ fresh_items now c" for c cs by simp
qed (rule pop_data_item_items, assumption, rule pop_data_item_empty, assumption)

lemma read_many: "pops (pop_data_item now) n cs = (ds, cs') \<Longrightarrow> ds = take n (queue_items now cs) \<and> queue_items now cs' = drop n (queue_items now cs)"
  using collectors.pops_all [of now n cs ds cs'] collectors.pops_items [of now n cs ds cs'] by (metis append_take_drop_id same_append_eq)

lemma move_items: "queue_items now (move_contents now cs other) = queue_items now other @ queue_items now cs"
  by (induction now cs other rule: move_contents.induct) (auto simp: fresh_items_def)

lemma remove_items: "queue_items now (remove_expired_collectors now cs) = queue_items now cs"
  by (induction now cs rule: remove_expired_collectors.induct) (auto simp: fresh_items_def)

text \<open>While an application is registered, nothing waits in the queue of the topic itself.\<close>

definition topic_ok :: "dtpc_topic \<Rightarrow> bool" where
  "topic_ok t \<longleftrightarrow> (registration t \<noteq> None \<longrightarrow> collector_list t = [])"

definition topic_items :: "int \<Rightarrow> dtpc_topic \<Rightarrow> bytes list" where
  "topic_items now t = (case registration t of Some reg \<Rightarrow> queue_items now reg | None \<Rightarrow> queue_items now (collector_list t))"

lemma topic_ok_ops:
  assumes "topic_ok t"
  shows "topic_ok (new_topic u)" "topic_ok (topic_deliver_collector c t)" "topic_ok (remove_expired_items now t)"
    "topic_ok (set_registration now attach t)" "topic_ok (snd (topic_pop now t))"
  using assms by (auto simp: topic_ok_def new_topic_def topic_deliver_collector_def remove_expired_items_def set_registration_def
      topic_pop_def Let_def split: option.splits prod.splits)

lemma topic_deliver_items: "topic_items now (topic_deliver_collector c t) = topic_items now t @ fresh_items now c"
  by (simp add: topic_items_def topic_deliver_collector_def split: option.split)

lemma topic_remove_items: "topic_items now (remove_expired_items now t) = topic_items now t"
  by (simp add: topic_items_def remove_expired_items_def Let_def remove_items split: option.split)

lemma topic_register_items:
  assumes "topic_ok t" and "attach \<Longrightarrow> registration t = None"
  shows "topic_items now (set_registration now attach t) = topic_items now t"
  using assms by (auto simp: topic_items_def set_registration_def topic_ok_def move_items split: option.split)

lemma topic_pop_items:
  assumes "registration t \<noteq> None"
  shows "topic_pop now t = (x, t') \<Longrightarrow> topic_items now t = (case x of None \<Rightarrow> [] | Some d \<Rightarrow> [d]) @ topic_items now t' \<and> registration t' \<noteq> None"
    and "topic_pop now t = (None, t') \<Longrightarrow> topic_items now t = []"
  using assms collectors.items_pop collectors.pop_empty
  by (auto simp: topic_pop_def topic_items_def split: option.splits prod.splits)

section \<open>Delivering the blocks of a unit\<close>

definition block_collector :: "string \<Rightarrow> int \<Rightarrow> u32 \<times> bytes list \<Rightarrow> topic_collector" where
  "block_collector remote_eid ts b = \<lparr>tc_topic_id = fst b, tc_remote_eid = remote_eid, tc_expiration_ts = ts, tc_items = snd b\<rparr>"

definition deliver_block :: "bool \<Rightarrow> string \<Rightarrow> int \<Rightarrow> u32 \<times> bytes list \<Rightarrow> topic_table \<Rightarrow> topic_table" where
  "deliver_block req remote_eid ts b tab =
     (case validate_topic_id req (fst b) tab of
        (valid, tab1) \<Rightarrow> if valid then deliver_topic_collector (block_collector remote_eid ts b) tab1 else tab1)"

lemma collect_items_eq:
  "\<forall>d \<in> set ds. item_fits d \<Longrightarrow> length ds < 2 ^ 64 \<Longrightarrow> collect_items (of_nat (length ds)) (concat (map data_item_bytes ds) @ rest) = Some (ds, rest)"
proof (induction ds)
  case Nil
  then show ?case by (simp add: collect_items.simps [of 0])
next
  case (Cons d ds)
  have "unat (of_nat (length (d # ds)) :: u64) = length (d # ds)" by (rule unat_of_nat_word) (use Cons.prems(2) in simp)
  then have "(of_nat (length (d # ds)) :: u64) \<noteq> 0" by (metis list.size(3) neq_Nil_conv length_0_conv unat_0 list.distinct(1))
  moreover have "unat (of_nat (length d) :: u64) = length d" by (rule length_of_item) (use Cons.prems(1) in simp)
  ultimately show ?case
    using Cons by (simp add: collect_items.simps [of "of_nat (Suc (length ds))"] data_item_bytes_def del: of_nat_Suc) simp
qed

lemma deliver_blocks_eq:
  "\<forall>b \<in> set bs. block_fits b \<Longrightarrow> deliver_blocks req remote_eid ts (unit_blocks bs) tab = fold (deliver_block req remote_eid ts) bs tab"
proof (induction bs arbitrary: tab)
  case Nil
  then show ?case by (simp add: deliver_blocks.simps [of _ _ _ "[]"])
next
  case (Cons b bs)
  have b: "snd b \<noteq> []" "length (snd b) < 2 ^ 32" "\<forall>d \<in> set (snd b). item_fits d" using Cons.prems by (simp_all add: block_fits_def)
  have "unat (of_nat (length (snd b)) :: u64) = length (snd b)" by (rule unat_of_nat_word) (use b(2) in simp)
  then have n: "(of_nat (length (snd b)) :: u64) \<noteq> 0" using b(1) by (metis length_0_conv unat_0)
  have c: "collect_items (of_nat (length (snd b))) (concat (map data_item_bytes (snd b)) @ unit_blocks bs) = Some (snd b, unit_blocks bs)"
    by (rule collect_items_eq [OF b(3)]) (use b(2) in simp)
  have "deliver_blocks req remote_eid ts (topic_block b @ unit_blocks bs) tab = deliver_blocks req remote_eid ts (unit_blocks bs) (deliver_block req remote_eid ts b tab)"
    by (subst deliver_blocks.simps) (use n c in \<open>simp add: topic_block_def deliver_block_def block_collector_def Let_def case_prod_beta\<close>)
  then show ?case using Cons by simp
qed

text \<open>What a unit adds to a topic, seen at a time when it has not expired.\<close>

definition table_items :: "int \<Rightarrow> u32 \<Rightarrow> topic_table \<Rightarrow> bytes list" where
  "table_items now t tab = (case tab t of None \<Rightarrow> [] | Some topic \<Rightarrow> topic_items now topic)"

lemma new_topic_items: "topic_items now (new_topic u) = []"
  by (simp add: topic_items_def new_topic_def)

lemma block_fresh: "now < ts \<Longrightarrow> fresh_items now (block_collector remote_eid ts b) = snd b" "tc_topic_id (block_collector remote_eid ts b) = fst b"
  by (simp_all add: fresh_items_def block_collector_def tc_expired_def)

lemma deliver_block_items:
  assumes "now < ts" and "\<not> req \<or> tab (fst b) \<noteq> None"
  shows "table_items now t (deliver_block req remote_eid ts b tab) = table_items now t tab @ (if fst b = t then snd b else [])"
  using assms
  by (auto simp: deliver_block_def validate_topic_id_def topic_table_add_def deliver_topic_collector_def table_items_def
      block_fresh topic_deliver_items new_topic_items split: option.splits)

lemma deliver_block_other: "t \<noteq> fst b \<Longrightarrow> deliver_block req remote_eid ts b tab t = tab t"
  by (auto simp: deliver_block_def validate_topic_id_def topic_table_add_def deliver_topic_collector_def block_collector_def split: option.splits)

lemma deliver_block_dom: "tab t \<noteq> None \<Longrightarrow> deliver_block req remote_eid ts b tab t \<noteq> None"
  by (auto simp: deliver_block_def validate_topic_id_def topic_table_add_def deliver_topic_collector_def block_collector_def split: option.splits)

lemma deliver_unit_items:
  "now < ts \<Longrightarrow> \<forall>b \<in> set bs. \<not> req \<or> tab (fst b) \<noteq> None \<Longrightarrow>
     table_items now t (fold (deliver_block req remote_eid ts) bs tab) = table_items now t tab @ items_of t bs"
proof (induction bs arbitrary: tab)
  case (Cons b bs)
  have "\<forall>c \<in> set bs. \<not> req \<or> deliver_block req remote_eid ts b tab (fst c) \<noteq> None"
    using Cons.prems(2) deliver_block_dom [of tab] by auto
  then show ?case using Cons deliver_block_items [of now ts req tab b t remote_eid] by simp
qed simp

section \<open>Runs of a topic\<close>

text \<open>
  Everything that waits in a topic, with the time when it expires; items that have expired and have not been removed yet are
  among it.
\<close>

definition dated :: "topic_collector list \<Rightarrow> (int \<times> bytes) list" where
  "dated cs = concat (map (\<lambda>c. map (Pair (tc_expiration_ts c)) (tc_items c)) cs)"

definition waiting :: "dtpc_topic \<Rightarrow> (int \<times> bytes) list" where
  "waiting t = (case registration t of Some reg \<Rightarrow> dated reg | None \<Rightarrow> dated (collector_list t))"

definition unexpired :: "int \<Rightarrow> int \<times> bytes \<Rightarrow> bool" where
  "unexpired now e \<longleftrightarrow> now < fst e"

text \<open>
  Units arrive, applications come and go, the check for expired items runs and items are read, while the clock goes on. An
  application registers only when no other one is registered, which the daemon checks. The first number is the time that is reached; the lists are
  the items delivered, with the times when they expire, and the items read.
\<close>

inductive topic_run :: "int \<Rightarrow> (int \<times> bytes) list \<Rightarrow> bytes list \<Rightarrow> dtpc_topic \<Rightarrow> bool" where
  topic_new: "topic_run now [] [] (new_topic user_defined)"
| topic_clock: "topic_run now given read t \<Longrightarrow> now \<le> now' \<Longrightarrow> topic_run now' given read t"
| topic_arrival: "topic_run now given read t \<Longrightarrow> topic_run now (given @ dated [c]) read (topic_deliver_collector c t)"
| topic_register: "topic_run now given read t \<Longrightarrow> (attach \<Longrightarrow> registration t = None) \<Longrightarrow> topic_run now given read (set_registration now attach t)"
| topic_check: "topic_run now given read t \<Longrightarrow> topic_run now given read (remove_expired_items now t)"
| topic_read: "topic_run now given read t \<Longrightarrow> topic_pop now t = (x, t')
    \<Longrightarrow> topic_run now given (read @ (case x of None \<Rightarrow> [] | Some d \<Rightarrow> [d])) t'"

lemma dated_simps [simp]: "dated [] = []" "dated (c # cs) = map (Pair (tc_expiration_ts c)) (tc_items c) @ dated cs" "dated (cs @ ds) = dated cs @ dated ds"
  by (simp_all add: dated_def)

lemma fresh_dated: "map snd (filter (unexpired now) (map (Pair ts) ds)) = (if now < ts then ds else [])"
  by (induction ds) (auto simp: unexpired_def)

lemma queue_dated: "queue_items now cs = map snd (filter (unexpired now) (dated cs))"
  by (induction cs) (auto simp: fresh_items_def tc_expired_def fresh_dated)

lemma topic_dated: "topic_items now t = map snd (filter (unexpired now) (waiting t))"
  by (simp add: topic_items_def waiting_def queue_dated split: option.split)

text \<open>Only items that have expired are dropped.\<close>

definition drops :: "int \<Rightarrow> (int \<times> bytes) list \<Rightarrow> (int \<times> bytes) list \<Rightarrow> bool" where
  "drops now xs ys \<longleftrightarrow> subseq ys xs \<and> filter (unexpired now) ys = filter (unexpired now) xs"

lemma drops_refl [simp]: "drops now xs xs"
  by (simp add: drops_def)

lemma drops_append: "drops now xs ys \<Longrightarrow> drops now xs' ys' \<Longrightarrow> drops now (xs @ xs') (ys @ ys')"
  by (simp add: drops_def list_emb_append_mono)

lemma drops_trans: "drops now xs ys \<Longrightarrow> drops now ys zs \<Longrightarrow> drops now xs zs"
  unfolding drops_def by (metis subseq_order.order_trans)

lemma drops_later:
  assumes "drops now xs ys" and "now \<le> now'"
  shows "drops now' xs ys"
proof -
  have f: "filter (unexpired now') (filter (unexpired now) zs) = filter (unexpired now') zs" for zs
    using assms(2) by (auto simp: unexpired_def intro: filter_cong)
  have "filter (unexpired now) ys = filter (unexpired now) xs" using assms(1) by (simp add: drops_def)
  from arg_cong [OF this, of "filter (unexpired now')"] have "filter (unexpired now') ys = filter (unexpired now') xs" by (simp only: f)
  then show ?thesis using assms(1) by (simp add: drops_def)
qed

lemma drops_expired: "\<forall>e \<in> set xs. \<not> unexpired now e \<Longrightarrow> drops now (xs @ ys) ys"
  by (auto simp: drops_def filter_empty_conv)

lemma move_filter: "move_contents now cs other = other @ filter (\<lambda>c. \<not> tc_expired now c) cs"
  by (induction now cs other rule: move_contents.induct) auto

lemma remove_filter: "remove_expired_collectors now cs = filter (\<lambda>c. \<not> tc_expired now c) cs"
  by (induction now cs rule: remove_expired_collectors.induct) auto

lemma filter_drops: "drops now (dated cs) (dated (filter (\<lambda>c. \<not> tc_expired now c) cs))"
proof (induction cs)
  case (Cons c cs)
  let ?x = "map (Pair (tc_expiration_ts c)) (tc_items c)"
  show ?case
  proof (cases "tc_expired now c")
    case True
    then have "\<forall>e \<in> set ?x. \<not> unexpired now e" by (auto simp: tc_expired_def unexpired_def)
    then show ?thesis using True drops_trans [OF drops_expired Cons.IH] by simp
  next
    case False
    then show ?thesis using drops_append [OF drops_refl Cons.IH] by simp
  qed
qed simp

text \<open>An item that is read has not expired, and what came before it has.\<close>

lemma pop_dated:
  "pop_data_item now cs = (x, cs') \<Longrightarrow>
     \<exists>old hd. dated cs = old @ hd @ dated cs' \<and> (\<forall>e \<in> set old. \<not> unexpired now e) \<and> map snd hd = (case x of None \<Rightarrow> [] | Some d \<Rightarrow> [d])"
proof (induction now cs arbitrary: x cs' rule: pop_data_item.induct)
  case (2 now c cs)
  let ?x = "map (Pair (tc_expiration_ts c)) (tc_items c)"
  show ?case
  proof (cases "tc_expired now c \<or> tc_items c = []")
    case True
    then have "pop_data_item now cs = (x, cs')" using "2.prems" by (auto split: if_splits)
    then obtain old hd where o: "dated cs = old @ hd @ dated cs'" "\<forall>e \<in> set old. \<not> unexpired now e" "map snd hd = (case x of None \<Rightarrow> [] | Some d \<Rightarrow> [d])"
      using "2.IH" True by (cases "tc_expired now c") auto
    have "\<forall>e \<in> set ?x. \<not> unexpired now e" using True by (auto simp: tc_expired_def unexpired_def)
    then show ?thesis using o by (intro exI [of _ "?x @ old"] exI [of _ hd]) auto
  next
    case False
    then obtain d ds where "tc_items c = d # ds" by (cases "tc_items c") auto
    then show ?thesis using False "2.prems"
      by (intro exI [of _ "[]"] exI [of _ "[(tc_expiration_ts c, d)]"]) (auto split: if_splits)
  qed
qed simp

lemma waiting_ops:
  assumes "topic_ok t"
  shows "waiting (topic_deliver_collector c t) = waiting t @ dated [c]" "drops now (waiting t) (waiting (remove_expired_items now t))"
    "(attach \<Longrightarrow> registration t = None) \<Longrightarrow> drops now (waiting t) (waiting (set_registration now attach t))"
proof -
  show "waiting (topic_deliver_collector c t) = waiting t @ dated [c]" by (simp add: waiting_def topic_deliver_collector_def split: option.split)
  show "drops now (waiting t) (waiting (remove_expired_items now t))"
    by (simp add: waiting_def remove_expired_items_def remove_filter filter_drops Let_def split: option.split)
  show "(attach \<Longrightarrow> registration t = None) \<Longrightarrow> drops now (waiting t) (waiting (set_registration now attach t))"
    using assms by (auto simp: waiting_def set_registration_def move_filter filter_drops topic_ok_def split: option.splits)
qed

lemma waiting_pop:
  assumes "topic_pop now t = (x, t')"
  shows "\<exists>old hd. waiting t = old @ hd @ waiting t' \<and> (\<forall>e \<in> set old. \<not> unexpired now e) \<and> map snd hd = (case x of None \<Rightarrow> [] | Some d \<Rightarrow> [d])"
proof (cases "registration t")
  case None
  then show ?thesis using assms by (intro exI [of _ "[]"]) (simp add: topic_pop_def)
next
  case (Some reg)
  then obtain reg' where "pop_data_item now reg = (x, reg')" "registration t' = Some reg'" using assms by (auto simp: topic_pop_def split: prod.splits)
  then show ?thesis using pop_dated Some by (simp add: waiting_def)
qed

lemma topic_run_inv:
  "topic_run now given read t \<Longrightarrow> topic_ok t \<and> (\<exists>rd. map snd rd = read \<and> drops now given (rd @ waiting t))"
proof (induction rule: topic_run.induct)
  case (topic_new now user_defined)
  then show ?case by (simp add: topic_ok_def waiting_def) (simp add: new_topic_def)
next
  case (topic_clock now given read t now')
  then show ?case using drops_later by blast
next
  case (topic_arrival now given read t c)
  then obtain rd where rd: "topic_ok t" "map snd rd = read" "drops now given (rd @ waiting t)" by blast
  have "drops now (given @ dated [c]) (rd @ waiting (topic_deliver_collector c t))"
    using drops_append [OF rd(3) drops_refl, of "dated [c]"] waiting_ops(1) [OF rd(1)] by simp
  then show ?case using rd(1,2) topic_ok_ops(2) by blast
next
  case (topic_register now given read t attach)
  then obtain rd where rd: "topic_ok t" "map snd rd = read" "drops now given (rd @ waiting t)" by blast
  have "drops now given (rd @ waiting (set_registration now attach t))"
    by (rule drops_trans [OF rd(3) drops_append [OF drops_refl waiting_ops(3) [OF rd(1) topic_register.hyps(2)]]])
  then show ?case using rd(1,2) topic_ok_ops(4) by blast
next
  case (topic_check now given read t)
  then obtain rd where rd: "topic_ok t" "map snd rd = read" "drops now given (rd @ waiting t)" by blast
  have "drops now given (rd @ waiting (remove_expired_items now t))"
    by (rule drops_trans [OF rd(3) drops_append [OF drops_refl waiting_ops(2) [OF rd(1)]]])
  then show ?case using rd(1,2) topic_ok_ops(3) by blast
next
  case (topic_read now given read t x t')
  then obtain rd where rd: "topic_ok t" "map snd rd = read" "drops now given (rd @ waiting t)" by blast
  obtain old hd where h: "waiting t = old @ hd @ waiting t'" "\<forall>e \<in> set old. \<not> unexpired now e" "map snd hd = (case x of None \<Rightarrow> [] | Some d \<Rightarrow> [d])"
    using waiting_pop [OF topic_read.hyps(2)] by blast
  have "drops now given (rd @ hd @ waiting t')"
    using drops_trans [OF rd(3)] drops_append [OF drops_refl drops_expired [OF h(2)]] unfolding h(1) by blast
  then have "drops now given ((rd @ hd) @ waiting t')" by simp
  moreover have "topic_ok t'" using topic_ok_ops(5) [OF rd(1), of now] topic_read.hyps(2) by simp
  ultimately show ?case using rd(2) h(3) by (metis map_append)
qed

text \<open>
  C17. A topic is a queue from which only expired items are lost. Let applications register (when no other one is registered)
  and go, units arrive, the check for expired items run and items be read, while the clock goes on. What applications
  have read, followed by what still waits, is a part of what was delivered to the topic, in the same order, and every
  item that was delivered and has not expired by now is in it, as often as it was delivered. A
  registered application that asks now or later gets the first item of those waiting that has not expired by then, and
  nothing exactly when there is none.
\<close>

theorem topic_is_fifo:
  assumes "topic_run now given read t"
  shows "(\<exists>rd. map snd rd = read \<and> subseq (rd @ waiting t) given \<and> filter (unexpired now) (rd @ waiting t) = filter (unexpired now) given)
    \<and> (registration t \<noteq> None \<longrightarrow>
         (\<forall>now' \<ge> now. fst (topic_pop now' t) = (case filter (unexpired now') (waiting t) of [] \<Rightarrow> None | e # _ \<Rightarrow> Some (snd e))))"
proof -
  note I = topic_run_inv [OF assms]
  have "fst (topic_pop now' t) = (case filter (unexpired now') (waiting t) of [] \<Rightarrow> None | e # _ \<Rightarrow> Some (snd e))" if r: "registration t \<noteq> None" for now'
  proof -
    obtain x t' where x: "topic_pop now' t = (x, t')" by fastforce
    have "topic_items now' t = (case x of None \<Rightarrow> [] | Some d \<Rightarrow> [d]) @ topic_items now' t'" "x = None \<Longrightarrow> topic_items now' t = []"
      using topic_pop_items [OF r] x by auto
    then show ?thesis using x by (cases x) (auto simp: topic_dated [of now' t] split: list.splits)
  qed
  then show ?thesis using I unfolding drops_def by blast
qed

text \<open>Two units; the first one expires at 4, before the application asks.\<close>

theorem topic_is_fifo_witness:
  "\<exists>t. topic_run 5 [(4, [1]), (10, [2]), (10, [3])] [] t \<and> registration t \<noteq> None \<and> fst (topic_pop 6 t) = Some [2]
     \<and> (\<exists>rd. map snd rd = [] \<and> filter (unexpired 5) (rd @ waiting t) = [(10, [2]), (10, [3])])"
proof -
  let ?c = "\<lparr>tc_topic_id = 1, tc_remote_eid = [], tc_expiration_ts = 4, tc_items = [[1]]\<rparr>"
  let ?d = "\<lparr>tc_topic_id = 1, tc_remote_eid = [], tc_expiration_ts = 10, tc_items = [[2], [3]]\<rparr>"
  let ?t = "topic_deliver_collector ?d (set_registration 2 True (topic_deliver_collector ?c (new_topic False)))"
  have r: "registration (topic_deliver_collector ?c (new_topic False)) = None" by (simp add: topic_deliver_collector_def new_topic_def)
  have "topic_run 2 ([] @ dated [?c]) [] (set_registration 2 True (topic_deliver_collector ?c (new_topic False)))"
    by (rule topic_register [OF topic_arrival [OF topic_new] r])
  from topic_clock [OF topic_arrival [OF this, of ?d], of 5] have run: "topic_run 5 [(4, [1]), (10, [2]), (10, [3])] [] ?t" by simp
  have t: "registration ?t \<noteq> None" "waiting ?t = [(4, [1]), (10, [2]), (10, [3])]"
    by (simp_all add: set_registration_def topic_deliver_collector_def new_topic_def waiting_def tc_expired_def)
  have "fst (topic_pop 6 ?t) = Some [2]" using topic_is_fifo [OF run] t by (simp add: unexpired_def)
  moreover have "\<exists>rd. map snd rd = [] \<and> filter (unexpired 5) (rd @ waiting ?t) = [(10, [2]), (10, [3])]"
    using topic_is_fifo [OF run] by (auto simp: unexpired_def)
  ultimately show ?thesis using run t(1) by blast
qed

end
