(* ===== verification/Dtpc_Collector.thy ===== *)
theory Dtpc_Collector
  imports Dtpc_Topic Naming
begin

text \<open>
  The collector of data units (\<open>dtpc/DtpcDataPduCollector.cc\<close>): the units of one sender and profile are
  acknowledged, put in order and delivered to their topics. A unit that comes too early waits for those before
  it, until shortly before it expires.
\<close>

section \<open>Units and collectors\<close>

text \<open>
  \<open>pdu_blocks\<close> is the buffer of the unit from the first topic block on; \<open>pdu_remote_ipn\<close> are the numbers of the
  remote endpoint when it is of the ipn scheme.
\<close>

record dtpc_pdu =
  pdu_remote_eid :: string
  pdu_remote_ipn :: "(u64 \<times> u64) option"
  pdu_profile_id :: u32
  pdu_seq_ctr :: u64
  pdu_blocks :: bytes
  pdu_expiration_ts :: int
  pdu_app_ack :: bool

text \<open>\<open>dc_timer\<close> is the running delivery timer: the number of the unit it is for, and its time.\<close>

record pdu_collector =
  dc_profile_id :: u32
  dc_seq_ctr :: u64
  dc_pdu_map :: "(u64, dtpc_pdu) omap"
  dc_timer :: "(u64 \<times> int) option"

definition new_pdu_collector :: "u32 \<Rightarrow> pdu_collector" where
  "new_pdu_collector profile_id = \<lparr>dc_profile_id = profile_id, dc_seq_ctr = 1, dc_pdu_map = [], dc_timer = None\<rparr>"

definition start_deliver_timer :: "dtpc_pdu \<Rightarrow> pdu_collector \<Rightarrow> pdu_collector" where
  "start_deliver_timer pdu c = c\<lparr>dc_timer := Some (pdu_seq_ctr pdu, pdu_expiration_ts pdu - 1)\<rparr>"

text \<open>
  \<open>deliver_pdu\<close> and \<open>check_for_deliverable_pdu\<close>, which call each other. The result lists the units that were
  delivered.
\<close>

function deliver_pdu :: "bool \<Rightarrow> dtpc_pdu \<Rightarrow> pdu_collector \<Rightarrow> topic_table \<Rightarrow> dtpc_pdu list \<times> pdu_collector \<times> topic_table" where
  "deliver_pdu req pdu c tab =
     (let tab1 = deliver_blocks req (pdu_remote_eid pdu) (pdu_expiration_ts pdu) (pdu_blocks pdu) tab;
          c1 = c\<lparr>dc_seq_ctr := dc_seq_ctr c + 1\<rparr>
      in case dc_pdu_map c of
           [] \<Rightarrow> ([pdu], c1, tab1)
         | (k, p) # m \<Rightarrow>
             if pdu_seq_ctr p = dc_seq_ctr c1 then
               (case deliver_pdu req p (c1\<lparr>dc_pdu_map := m, dc_timer := None\<rparr>) tab1 of (ds, r) \<Rightarrow> (pdu # ds, r))
             else if dc_timer c1 = None then ([pdu], start_deliver_timer p c1, tab1)
             else ([pdu], c1, tab1))"
  by pat_completeness auto
termination
  by (relation "measure (\<lambda>(_, _, c, _). length (dc_pdu_map c))") auto

declare deliver_pdu.simps [simp del]

definition queue_pdu :: "dtpc_pdu \<Rightarrow> pdu_collector \<Rightarrow> pdu_collector" where
  "queue_pdu pdu c =
     (let m = om_insert (pdu_seq_ctr pdu) pdu (dc_pdu_map c); c1 = c\<lparr>dc_pdu_map := m\<rparr>
      in if fst (hd m) = pdu_seq_ctr pdu then start_deliver_timer pdu (c1\<lparr>dc_timer := None\<rparr>) else c1)"

text \<open>
  The acknowledgement: its payload, and where it is sent. A unit from the transmit service of an ION node is
  acknowledged to its receive service.
\<close>

definition ipn_transmit_service_number :: u64 where
  "ipn_transmit_service_number = 128"

definition ipn_receive_service_number :: u64 where
  "ipn_receive_service_number = 129"

definition send_ack :: "dtpc_pdu \<Rightarrow> pdu_collector \<Rightarrow> (string \<times> bytes) option" where
  "send_ack pdu c =
     map_option (Pair (case pdu_remote_ipn pdu of
         Some (node, service) \<Rightarrow>
           make_eid_ipn_str node (if service = ipn_transmit_service_number then ipn_receive_service_number else service)
       | None \<Rightarrow> pdu_remote_eid pdu))
       (dtpc_header DTPC_PDU_TYPE_ACK (dc_profile_id c) (pdu_seq_ctr pdu))"

text \<open>\<open>pdu_received\<close>: the acknowledgement, the units delivered, and the new state; \<open>None\<close> is a failed assertion.\<close>

definition pdu_received :: "bool \<Rightarrow> dtpc_pdu \<Rightarrow> pdu_collector \<Rightarrow> topic_table
    \<Rightarrow> ((string \<times> bytes) option \<times> dtpc_pdu list \<times> pdu_collector \<times> topic_table) option" where
  "pdu_received req pdu c tab =
     (if pdu_app_ack pdu \<and> send_ack pdu c = None then None
      else
        Some (if pdu_app_ack pdu then send_ack pdu c else None,
          if pdu_seq_ctr pdu = 0 then deliver_pdu req pdu c tab
          else if pdu_seq_ctr pdu < dc_seq_ctr c then ([], c, tab)
          else if pdu_seq_ctr pdu = dc_seq_ctr c then deliver_pdu req pdu c tab
          else ([], queue_pdu pdu c, tab)))"

definition deliver_timer_expired :: "bool \<Rightarrow> u64 \<Rightarrow> pdu_collector \<Rightarrow> topic_table \<Rightarrow> dtpc_pdu list \<times> pdu_collector \<times> topic_table" where
  "deliver_timer_expired req seq_ctr c tab =
     (case dc_pdu_map c of
        [] \<Rightarrow> ([], c, tab)
      | (k, pdu) # m \<Rightarrow>
          if pdu_seq_ctr pdu = seq_ctr
          then deliver_pdu req pdu (c\<lparr>dc_timer := None, dc_pdu_map := m, dc_seq_ctr := seq_ctr\<rparr>) tab
          else ([], c, tab))"

text \<open>
  After a restart: units that have expired are discarded, and the timer for the first of the others is started. This is
  \<open>ds_reload_post_processing\<close> alone. What reading a unit back from the datastore does to it is not modelled: the units
  are taken to be as they were stored, while \<open>DtpcProtocolDataUnit\<close> leaves the length of its buffer at 0.
\<close>

fun discard_expired :: "int \<Rightarrow> (u64, dtpc_pdu) omap \<Rightarrow> pdu_collector \<Rightarrow> pdu_collector" where
  "discard_expired now [] c = c\<lparr>dc_pdu_map := []\<rparr>"
| "discard_expired now ((k, pdu) # m) c =
     (if now > pdu_expiration_ts pdu then discard_expired now m (c\<lparr>dc_seq_ctr := pdu_seq_ctr pdu + 1\<rparr>)
      else start_deliver_timer pdu (c\<lparr>dc_pdu_map := (k, pdu) # m\<rparr>))"

definition collector_reload :: "int \<Rightarrow> pdu_collector \<Rightarrow> pdu_collector" where
  "collector_reload now c = discard_expired now (dc_pdu_map c) c"

section \<open>The invariant of a collector\<close>

text \<open>
  The units that wait are filed by their numbers, which are beyond the next one to be delivered, and the timer
  runs for the first of them.
\<close>

definition col_inv :: "pdu_collector \<Rightarrow> bool" where
  "col_inv c \<longleftrightarrow> om_wf (dc_pdu_map c) \<and> (\<forall>(k, p) \<in> set (dc_pdu_map c). pdu_seq_ctr p = k \<and> dc_seq_ctr c < k \<and> k \<noteq> - 1)
     \<and> (case dc_pdu_map c of [] \<Rightarrow> dc_timer c = None | (k, p) # m \<Rightarrow> map_option fst (dc_timer c) = Some k)"

abbreviation useq :: "dtpc_pdu \<Rightarrow> nat" where
  "useq p \<equiv> unat (pdu_seq_ctr p)"

definition deliver_table :: "bool \<Rightarrow> dtpc_pdu \<Rightarrow> topic_table \<Rightarrow> topic_table" where
  "deliver_table req pdu = deliver_blocks req (pdu_remote_eid pdu) (pdu_expiration_ts pdu) (pdu_blocks pdu)"

text \<open>What delivering leaves: consecutive units were taken from those that waited.\<close>

text \<open>The head of the list is the unit that was to be delivered, whatever its number.\<close>

definition delivers :: "bool \<Rightarrow> (u64, dtpc_pdu) omap \<Rightarrow> nat \<Rightarrow> topic_table \<Rightarrow> dtpc_pdu list \<Rightarrow> pdu_collector \<Rightarrow> topic_table \<Rightarrow> bool" where
  "delivers req m n tab ds c' tab' \<longleftrightarrow> map useq (tl ds) = [Suc n..<unat (dc_seq_ctr c')] \<and> n < unat (dc_seq_ctr c') \<and> col_inv c'
     \<and> set m = (\<lambda>p. (pdu_seq_ctr p, p)) ` set (tl ds) \<union> set (dc_pdu_map c') \<and> tab' = fold (deliver_table req) ds tab \<and> ds \<noteq> []"

lemma deliver_pdu_delivers:
  assumes "deliver_pdu req pdu c tab = (ds, c', tab')" and "dc_seq_ctr c \<noteq> - 1"
    and "om_wf (dc_pdu_map c)" and "\<forall>(k, p) \<in> set (dc_pdu_map c). pdu_seq_ctr p = k \<and> dc_seq_ctr c < k \<and> k \<noteq> - 1"
    and "dc_timer c = None \<or> map_option fst (dc_timer c) = Some (fst (hd (dc_pdu_map c))) \<and> dc_pdu_map c \<noteq> []"
  shows "delivers req (dc_pdu_map c) (unat (dc_seq_ctr c)) tab ds c' tab' \<and> hd ds = pdu"
  using assms
proof (induction req pdu c tab arbitrary: ds c' tab' rule: deliver_pdu.induct)
  case (1 req pdu c tab)
  let ?c1 = "c\<lparr>dc_seq_ctr := dc_seq_ctr c + 1\<rparr>" and ?tab1 = "deliver_blocks req (pdu_remote_eid pdu) (pdu_expiration_ts pdu) (pdu_blocks pdu) tab"
  have n: "unat (dc_seq_ctr c + 1) = Suc (unat (dc_seq_ctr c))" by (rule unat_succ [OF "1.prems"(2)])
  show ?case
  proof (cases "dc_pdu_map c")
    case Nil
    then show ?thesis using "1.prems" n by (auto simp: deliver_pdu.simps [of req pdu c] delivers_def col_inv_def deliver_table_def Let_def)
  next
    case (Cons e m)
    obtain k p where e: "e = (k, p)" by fastforce
    have kp: "pdu_seq_ctr p = k" "dc_seq_ctr c < k" "k \<noteq> - 1" using "1.prems"(4) unfolding Cons e by auto
    have m: "om_wf m" "\<forall>(j, q) \<in> set m. pdu_seq_ctr q = j \<and> k < j \<and> j \<noteq> - 1"
      using "1.prems"(3,4) unfolding Cons e by (auto simp: om_wf_def)
    show ?thesis
    proof (cases "pdu_seq_ctr p = dc_seq_ctr c + 1")
      case True
      let ?c2 = "?c1\<lparr>dc_pdu_map := m, dc_timer := None\<rparr>"
      obtain es c2 tab2 where r: "deliver_pdu req p ?c2 ?tab1 = (es, c2, tab2)" by (metis prod_cases3)
      have D: "delivers req (dc_pdu_map ?c2) (unat (dc_seq_ctr ?c2)) ?tab1 es c2 tab2 \<and> hd es = p"
        by (rule "1.IH" [OF refl refl Cons e [symmetric] _ r]) (use True kp m in auto)
      then have "es = p # tl es" "Suc (unat (dc_seq_ctr c)) < unat (dc_seq_ctr c2)" using n by (auto simp: delivers_def intro: list.collapse [symmetric])
      moreover have "ds = pdu # es" "c' = c2" "tab' = tab2"
        using "1.prems"(1) True r Cons e by (simp_all add: deliver_pdu.simps [of req pdu c] Let_def)
      ultimately show ?thesis
        using D kp(1) n Cons e True
        by (cases es) (auto simp: delivers_def deliver_table_def upt_rec [of "Suc (unat (dc_seq_ctr c))"])
    next
      case False
      then have "dc_seq_ctr c + 1 < k" using kp(1,2) "1.prems"(2) by (metis order_le_less inc_le)
      then have "\<forall>(j, q) \<in> set (dc_pdu_map c). pdu_seq_ctr q = j \<and> dc_seq_ctr c + 1 < j \<and> j \<noteq> - 1"
        using m(2) kp unfolding Cons e by auto
      then show ?thesis
        using "1.prems" False n Cons e
        by (auto simp: deliver_pdu.simps [of req pdu c] delivers_def col_inv_def deliver_table_def start_deliver_timer_def kp Let_def split: if_splits)
    qed
  qed
qed

section \<open>Runs of a collector\<close>

text \<open>
  Units arrive in any order, with repetitions, those of the transport service with their numbers and others with number 0;
  with \<open>timers\<close>, delivery timers expire as well. Neither a number that arrives nor the counter is the largest one of 64 bits, so that
  the counter does not wrap.
\<close>

inductive col_run :: "bool \<Rightarrow> bool \<Rightarrow> u32 \<Rightarrow> topic_table \<Rightarrow> dtpc_pdu list \<Rightarrow> dtpc_pdu list \<Rightarrow> pdu_collector \<Rightarrow> topic_table \<Rightarrow> bool"
  for req timers profile_id tab0 where
  col_start: "col_run req timers profile_id tab0 [] [] (new_pdu_collector profile_id) tab0"
| col_unit: "col_run req timers profile_id tab0 arr dlv c tab \<Longrightarrow> pdu_seq_ctr pdu \<noteq> - 1 \<Longrightarrow> dc_seq_ctr c \<noteq> - 1
    \<Longrightarrow> pdu_received req pdu c tab = Some (ack, ds, c', tab') \<Longrightarrow> col_run req timers profile_id tab0 (arr @ [pdu]) (dlv @ ds) c' tab'"
| col_timer: "col_run req timers profile_id tab0 arr dlv c tab \<Longrightarrow> timers
    \<Longrightarrow> deliver_timer_expired req seq_ctr c tab = (ds, c', tab') \<Longrightarrow> col_run req timers profile_id tab0 arr (dlv @ ds) c' tab'"

abbreviation numbered :: "dtpc_pdu \<Rightarrow> bool" where
  "numbered p \<equiv> pdu_seq_ctr p \<noteq> 0"

abbreviation unnumbered :: "dtpc_pdu \<Rightarrow> bool" where
  "unnumbered p \<equiv> pdu_seq_ctr p = 0"

definition col_facts :: "bool \<Rightarrow> bool \<Rightarrow> topic_table \<Rightarrow> dtpc_pdu list \<Rightarrow> dtpc_pdu list \<Rightarrow> pdu_collector \<Rightarrow> topic_table \<Rightarrow> bool" where
  "col_facts req timers tab0 arr dlv c tab \<longleftrightarrow> col_inv c \<and> 1 \<le> unat (dc_seq_ctr c)
     \<and> sorted_wrt (<) (map useq (filter numbered dlv)) \<and> (\<forall>p \<in> set dlv. useq p < unat (dc_seq_ctr c))
     \<and> set dlv \<union> snd ` set (dc_pdu_map c) \<subseteq> set arr
     \<and> (\<forall>p \<in> set arr. useq p < unat (dc_seq_ctr c) \<or> pdu_seq_ctr p \<in> fst ` set (dc_pdu_map c))
     \<and> (timers \<or> (\<exists>p \<in> set arr. unnumbered p) \<or> map useq dlv = [1..<unat (dc_seq_ctr c)]) \<and> tab = fold (deliver_table req) dlv tab0
     \<and> filter unnumbered dlv = filter unnumbered arr"

lemma col_factsD:
  assumes "col_facts req timers tab0 arr dlv c tab"
  shows "om_wf (dc_pdu_map c)" "\<forall>(k, p) \<in> set (dc_pdu_map c). pdu_seq_ctr p = k \<and> dc_seq_ctr c < k \<and> k \<noteq> - 1"
    "dc_timer c = None \<or> map_option fst (dc_timer c) = Some (fst (hd (dc_pdu_map c))) \<and> dc_pdu_map c \<noteq> []"
    "1 \<le> unat (dc_seq_ctr c)" "sorted_wrt (<) (map useq (filter numbered dlv))" "p \<in> set dlv \<Longrightarrow> useq p < unat (dc_seq_ctr c)"
    "set dlv \<subseteq> set arr" "snd ` set (dc_pdu_map c) \<subseteq> set arr"
    "p \<in> set arr \<Longrightarrow> useq p < unat (dc_seq_ctr c) \<or> pdu_seq_ctr p \<in> fst ` set (dc_pdu_map c)"
    "timers \<or> (\<exists>p \<in> set arr. unnumbered p) \<or> map useq dlv = [1..<unat (dc_seq_ctr c)]" "tab = fold (deliver_table req) dlv tab0" "col_inv c"
    "filter unnumbered dlv = filter unnumbered arr"
  using assms by (auto simp: col_facts_def col_inv_def split: list.splits)

text \<open>
  Units are delivered: one that was taken from the collector or has just arrived, which is unit \<open>n\<close> or has no number, and those after
  \<open>n\<close> that waited.
\<close>

lemma facts_deliver:
  assumes F: "col_facts req timers tab0 arr dlv c tab"
    and D: "delivers req m n tab ds c' tab'" and hd: "hd ds = pdu"
    and m: "set m \<union> {(pdu_seq_ctr pdu, pdu)} \<supseteq> set (dc_pdu_map c)" "set m \<subseteq> set (dc_pdu_map c)"
    and n: "unat (dc_seq_ctr c) \<le> n" "numbered pdu \<Longrightarrow> n = useq pdu" "timers \<or> n = unat (dc_seq_ctr c)"
    and arr: "set arr' = insert pdu (set arr)" "filter unnumbered arr' = filter unnumbered arr @ filter unnumbered [pdu]"
  shows "col_facts req timers tab0 arr' (dlv @ ds) c' tab'"
proof -
  note f = col_factsD [OF F]
  have d: "map useq (tl ds) = [Suc n..<unat (dc_seq_ctr c')]" "n < unat (dc_seq_ctr c')" "col_inv c'"
    "set m = (\<lambda>p. (pdu_seq_ctr p, p)) ` set (tl ds) \<union> set (dc_pdu_map c')"
    "tab' = fold (deliver_table req) ds tab" "ds \<noteq> []" using D by (auto simp: delivers_def)
  define es where "es = tl ds"
  have de: "ds = pdu # es" using hd d(6) by (cases ds) (auto simp: es_def)
  have es: "map useq es = [Suc n..<unat (dc_seq_ctr c')]" using d(1) by (simp add: es_def)
  have le: "useq pdu \<le> n" using n(2) by (cases "numbered pdu") auto
  have els: "useq p \<in> {Suc n..<unat (dc_seq_ctr c')}" if "p \<in> set es" for p
  proof -
    have "useq p \<in> set (map useq es)" using that by simp
    then show ?thesis unfolding es by simp
  qed
  have num: "filter numbered es = es" "filter unnumbered es = []" using els by (force simp: filter_id_conv filter_empty_conv)+
  have sub: "set ds \<subseteq> set arr'"
  proof -
    have "(pdu_seq_ctr p, p) \<in> set (dc_pdu_map c)" if "p \<in> set es" for p using that d(4) m(2) unfolding es_def by blast
    then have "set es \<subseteq> set arr" using f(8) by force
    then show ?thesis using arr(1) by (auto simp: de)
  qed
  have "sorted_wrt (<) (map useq (filter numbered (dlv @ ds)))"
  proof -
    have "sorted_wrt (<) (map useq es)" unfolding es by simp
    moreover have "useq p < useq q" if "p \<in> set dlv" "q \<in> set ds" "numbered q" for p q
    proof -
      have "n \<le> useq q" using that(2,3) els [of q] n(2) unfolding de by fastforce
      then show ?thesis using f(6) [OF that(1)] n(1) by linarith
    qed
    moreover have "useq pdu < useq q" if "q \<in> set es" for q using els [OF that] le by simp
    moreover have "useq p < useq q" if "p \<in> set dlv" "q \<in> set es" for p q using els [OF that(2)] f(6) [OF that(1)] n(1) by simp
    ultimately show ?thesis using f(5) num(1) by (auto simp: de sorted_wrt_append)
  qed
  moreover have "useq p < unat (dc_seq_ctr c')" if "p \<in> set (dlv @ ds)" for p
    using that f(6) [of p] n(1) d(2) els [of p] le unfolding de by fastforce
  moreover have "snd ` set (dc_pdu_map c') \<subseteq> set arr'"
  proof -
    have "set (dc_pdu_map c') \<subseteq> set (dc_pdu_map c)" using d(4) m(2) by blast
    then show ?thesis using f(8) arr(1) by blast
  qed
  moreover have "useq p < unat (dc_seq_ctr c') \<or> pdu_seq_ctr p \<in> fst ` set (dc_pdu_map c')" if p: "p \<in> set arr'" for p
  proof (cases "useq p \<le> n")
    case True
    then show ?thesis using d(2) by simp
  next
    case False
    then have "p \<in> set arr" "\<not> useq p < unat (dc_seq_ctr c)" using p arr(1) n(1) le by auto
    then obtain q where "(pdu_seq_ctr p, q) \<in> set (dc_pdu_map c)" using f(9) [of p] by auto
    then have "(pdu_seq_ctr p, q) \<in> set m" using m(1) False le by auto
    then have "(\<exists>r \<in> set es. pdu_seq_ctr r = pdu_seq_ctr p) \<or> pdu_seq_ctr p \<in> fst ` set (dc_pdu_map c')"
      using d(4) unfolding es_def by force
    then show ?thesis using els by force
  qed
  moreover have "timers \<or> (\<exists>p \<in> set arr'. unnumbered p) \<or> map useq (dlv @ ds) = [1..<unat (dc_seq_ctr c')]"
  proof (cases "timers \<or> (\<exists>p \<in> set arr'. unnumbered p)")
    case False
    then have "map useq dlv = [1..<n]" "1 \<le> n" "useq pdu = n" using f(4,10) n(2,3) arr(1) by auto
    then show ?thesis using es d(2) upt_conv_Cons [of n "unat (dc_seq_ctr c')"] upt_add_eq_append [of 1 n "unat (dc_seq_ctr c') - n"] by (simp add: de)
  qed blast
  moreover have "1 \<le> unat (dc_seq_ctr c')" using d(2) n(1) f(4) by linarith
  moreover have "filter unnumbered (dlv @ ds) = filter unnumbered arr'" using f(13) arr(2) num(2) by (simp add: de)
  ultimately show ?thesis
    using d(3,5) f(7,11) sub arr(1) unfolding col_facts_def by auto
qed

lemma om_hd_least: "om_wf m \<Longrightarrow> e \<in> set m \<Longrightarrow> fst (hd m) \<le> fst e"
  by (cases m) (auto simp: om_wf_def less_imp_le)

lemma insert_set: "om_wf m \<Longrightarrow> set (om_insert k v m) = (if om_find m k = None then insert (k, v) (set m) else set m)"
  by (simp add: om_insert_def om_set_assign om_find_None_iff split: option.split)

lemma insert_wf: "om_wf m \<Longrightarrow> om_wf (om_insert k v m)"
  by (simp add: om_insert_def om_wf_assign split: option.split)

lemma insert_nonempty: "om_insert k v m \<noteq> []"
  by (cases m) (auto simp: om_insert_def om_find_def split: if_splits)

lemma insert_hd:
  assumes "om_wf m" and "fst (hd (om_insert k v m)) \<noteq> k"
  shows "m \<noteq> []" and "fst (hd (om_insert k v m)) = fst (hd m)"
proof -
  let ?m = "om_insert k v m"
  have ne: "?m \<noteq> []" by (rule insert_nonempty)
  then have h: "hd ?m \<in> set ?m" by simp
  then have mem: "hd ?m \<in> set m" using insert_set [OF assms(1), of k v] assms(2) by (auto split: if_splits)
  then show m: "m \<noteq> []" by auto
  have "hd m \<in> set ?m" using insert_set [OF assms(1), of k v] m by (auto split: if_splits)
  then show "fst (hd ?m) = fst (hd m)" by (rule antisym [OF om_hd_least [OF insert_wf [OF assms(1)]] om_hd_least [OF assms(1) mem]])
qed

lemma facts_queue:
  assumes F: "col_facts req timers tab0 arr dlv c tab" and new: "dc_seq_ctr c < pdu_seq_ctr pdu" "pdu_seq_ctr pdu \<noteq> - 1"
  shows "col_facts req timers tab0 (arr @ [pdu]) dlv (queue_pdu pdu c) tab"
proof -
  note f = col_factsD [OF F]
  have num: "numbered pdu" using new(1) by auto
  let ?k = "pdu_seq_ctr pdu" let ?m = "om_insert ?k pdu (dc_pdu_map c)"
  have q: "dc_pdu_map (queue_pdu pdu c) = ?m" "dc_seq_ctr (queue_pdu pdu c) = dc_seq_ctr c"
    by (simp_all add: queue_pdu_def start_deliver_timer_def Let_def)
  have ne: "?m \<noteq> []" by (rule insert_nonempty)
  have keys: "fst ` set ?m = insert ?k (fst ` set (dc_pdu_map c))"
    using insert_set [OF f(1), of ?k pdu] by (force simp: om_find_None_iff split: if_splits)
  have t: "map_option fst (dc_timer (queue_pdu pdu c)) = Some (fst (hd ?m))"
    using insert_hd [OF f(1), of ?k pdu] f(12) by (auto simp: queue_pdu_def start_deliver_timer_def col_inv_def Let_def split: list.splits)
  have "\<forall>(k, p) \<in> set ?m. pdu_seq_ctr p = k \<and> dc_seq_ctr c < k \<and> k \<noteq> - 1"
    using f(2) new insert_set [OF f(1), of ?k pdu] by (auto split: if_splits)
  then have "col_inv (queue_pdu pdu c)"
    using insert_wf [OF f(1)] t ne by (auto simp: col_inv_def q split: list.splits)
  moreover have "snd ` set ?m \<subseteq> set (arr @ [pdu])" using f(8) insert_set [OF f(1), of ?k pdu] by (auto split: if_splits)
  moreover have "useq p < unat (dc_seq_ctr c) \<or> pdu_seq_ctr p \<in> fst ` set ?m" if "p \<in> set (arr @ [pdu])" for p
    using that f(9) [of p] keys by auto
  ultimately show ?thesis using f(4-7,10,11,13) num unfolding col_facts_def q by auto
qed

lemma col_run_facts: "col_run req timers profile_id tab0 arr dlv c tab \<Longrightarrow> col_facts req timers tab0 arr dlv c tab"
proof (induction rule: col_run.induct)
  case col_start
  then show ?case by (simp add: col_facts_def col_inv_def new_pdu_collector_def om_wf_def)
next
  case (col_unit arr dlv c tab pdu ack ds c' tab')
  note f = col_factsD [OF col_unit.IH]
  consider "unnumbered pdu \<or> pdu_seq_ctr pdu = dc_seq_ctr c" | "numbered pdu" "pdu_seq_ctr pdu < dc_seq_ctr c" | "numbered pdu" "dc_seq_ctr c < pdu_seq_ctr pdu" by force
  then show ?case
  proof cases
    case 1
    then have "deliver_pdu req pdu c tab = (ds, c', tab')" using col_unit.hyps(4) by (auto simp: pdu_received_def split: if_splits)
    then have D: "delivers req (dc_pdu_map c) (unat (dc_seq_ctr c)) tab ds c' tab' \<and> hd ds = pdu"
      by (rule deliver_pdu_delivers [OF _ col_unit.hyps(3) f(1-3)])
    show ?thesis
      by (rule facts_deliver [OF col_unit.IH conjunct1 [OF D] conjunct2 [OF D]]) (use 1 in auto)
  next
    case 2
    then have "ds = []" "c' = c" "tab' = tab" using col_unit.hyps(4) by (auto simp: pdu_received_def split: if_splits)
    moreover have "useq pdu < unat (dc_seq_ctr c)" using 2(2) by (simp add: word_less_nat_alt)
    ultimately show ?thesis using col_unit.IH 2(1) by (auto simp: col_facts_def)
  next
    case 3
    then have "ds = []" "c' = queue_pdu pdu c" "tab' = tab" using col_unit.hyps(4) by (auto simp: pdu_received_def split: if_splits)
    then show ?thesis using facts_queue [OF col_unit.IH 3(2) col_unit.hyps(2)] by simp
  qed
next
  case (col_timer arr dlv c tab seq_ctr ds c' tab')
  note f = col_factsD [OF col_timer.IH]
  show ?case
  proof (cases "\<exists>k pdu m. dc_pdu_map c = (k, pdu) # m \<and> pdu_seq_ctr pdu = seq_ctr")
    case False
    then have "ds = []" "c' = c" "tab' = tab" using col_timer.hyps(3) by (auto simp: deliver_timer_expired_def split: list.splits if_splits)
    then show ?thesis using col_timer.IH by simp
  next
    case True
    then obtain pdu m where m: "dc_pdu_map c = (seq_ctr, pdu) # m" "pdu_seq_ctr pdu = seq_ctr" using f(2) by force
    let ?c = "c\<lparr>dc_timer := None, dc_pdu_map := m, dc_seq_ctr := seq_ctr\<rparr>"
    have k: "dc_seq_ctr c < seq_ctr" "seq_ctr \<noteq> - 1" using f(2) m by auto
    have w: "om_wf m" "\<forall>(k, p) \<in> set m. pdu_seq_ctr p = k \<and> seq_ctr < k \<and> k \<noteq> - 1" using f(1,2) unfolding m by (auto simp: om_wf_def)
    have "deliver_pdu req pdu ?c tab = (ds, c', tab')" using col_timer.hyps(3) m by (simp add: deliver_timer_expired_def)
    then have D: "delivers req (dc_pdu_map ?c) (unat (dc_seq_ctr ?c)) tab ds c' tab' \<and> hd ds = pdu"
      by (rule deliver_pdu_delivers) (use m k w in auto)
    have "pdu \<in> set arr" using f(8) m by auto
    moreover have "numbered pdu" using k(1) m(2) by auto
    ultimately show ?thesis
      by (intro facts_deliver [OF col_timer.IH conjunct1 [OF D] conjunct2 [OF D]])
        (use k m col_timer.hyps(2) in \<open>auto simp: word_less_nat_alt\<close>)
  qed
qed

section \<open>Properties\<close>

text \<open>
  C16. The collector delivers the units of the transport service, which are numbered, in order and at most once, also when its
  timers expire: their numbers increase strictly; a unit without a number (0) is delivered at once and as often as
  it arrives. Every unit delivered has arrived, and the topics have received exactly the blocks of the delivered units.
  When no timer expires and no unit without a number has arrived, the numbers are 1, 2, 3 and so on without a gap, and
  they reach at least \<open>n\<close> when the units 1 to \<open>n\<close> have all arrived, in whatever order. (A unit without a number takes the
  place of the next number in the count, so that there may be gaps after it. The counter must not reach
  its largest value.)
\<close>

theorem units_delivered_in_order:
  assumes "col_run req timers profile_id tab0 arr dlv c tab"
  shows "sorted_wrt (<) (map useq (filter numbered dlv)) \<and> filter unnumbered dlv = filter unnumbered arr
    \<and> set dlv \<subseteq> set arr \<and> tab = fold (deliver_table req) dlv tab0
    \<and> (\<not> timers \<and> (\<forall>p \<in> set arr. numbered p) \<longrightarrow>
         map useq dlv = [1..<unat (dc_seq_ctr c)] \<and> (\<forall>n. {1..n} \<subseteq> useq ` set arr \<longrightarrow> prefix [1..<Suc n] (map useq dlv)))"
proof -
  note F = col_factsD [OF col_run_facts [OF assms]]
  have all: "prefix [1..<Suc n] [1..<unat (dc_seq_ctr c)]" if sub: "{1..n} \<subseteq> useq ` set arr" for n
  proof -
    have "n < unat (dc_seq_ctr c)"
    proof (rule ccontr)
      assume "\<not> n < unat (dc_seq_ctr c)"
      then have "unat (dc_seq_ctr c) \<in> {1..n}" using F(4) by simp
      then have "unat (dc_seq_ctr c) \<in> useq ` set arr" using sub by blast
      then obtain p where p: "p \<in> set arr" "unat (dc_seq_ctr c) = useq p" by blast
      then have "pdu_seq_ctr p = dc_seq_ctr c" by (simp add: word_unat_eq_iff)
      then show False using F(9) [OF p(1)] F(2) by auto
    qed
    then show ?thesis using upt_add_eq_append [of 1 "Suc n" "unat (dc_seq_ctr c) - Suc n"] by (simp add: prefixI)
  qed
  have "map useq dlv = [1..<unat (dc_seq_ctr c)]" if "\<not> timers \<and> (\<forall>p \<in> set arr. numbered p)" using F(10) that by blast
  then show ?thesis using F(5,7,11,13) all by metis
qed

text \<open>Two units arrive in the wrong order.\<close>

definition demo_pdu :: "u64 \<Rightarrow> dtpc_pdu" where
  "demo_pdu n = \<lparr>pdu_remote_eid = [], pdu_remote_ipn = None, pdu_profile_id = 1, pdu_seq_ctr = n, pdu_blocks = [], pdu_expiration_ts = 50,
     pdu_app_ack = False\<rparr>"

lemma demo_units:
  "pdu_received False (demo_pdu 2) (new_pdu_collector 1) (\<lambda>_. None)
     = Some (None, [], (new_pdu_collector 1)\<lparr>dc_pdu_map := [(2, demo_pdu 2)], dc_timer := Some (2, 49)\<rparr>, \<lambda>_. None)"
  "pdu_received False (demo_pdu 1) ((new_pdu_collector 1)\<lparr>dc_pdu_map := [(2, demo_pdu 2)], dc_timer := Some (2, 49)\<rparr>) (\<lambda>_. None)
     = Some (None, [demo_pdu 1, demo_pdu 2], (new_pdu_collector 1)\<lparr>dc_seq_ctr := 3\<rparr>, \<lambda>_. None)"
proof -
  have p: "pdu_seq_ctr (demo_pdu n) = n" "\<not> pdu_app_ack (demo_pdu n)" "pdu_expiration_ts (demo_pdu n) = 50" "pdu_blocks (demo_pdu n) = []" for n
    by (simp_all add: demo_pdu_def)
  have b: "deliver_blocks req r e [] tab = tab" for req r e tab by (simp add: deliver_blocks.simps [of _ _ _ "[]"])
  have "deliver_pdu False (demo_pdu 2) ((new_pdu_collector 1)\<lparr>dc_seq_ctr := 2\<rparr>) (\<lambda>_. None) = ([demo_pdu 2], (new_pdu_collector 1)\<lparr>dc_seq_ctr := 3\<rparr>, \<lambda>_. None)"
    by (subst deliver_pdu.simps) (simp add: p b new_pdu_collector_def)
  then have "deliver_pdu False (demo_pdu 1) ((new_pdu_collector 1)\<lparr>dc_pdu_map := [(2, demo_pdu 2)], dc_timer := Some (2, 49)\<rparr>) (\<lambda>_. None)
      = ([demo_pdu 1, demo_pdu 2], (new_pdu_collector 1)\<lparr>dc_seq_ctr := 3\<rparr>, \<lambda>_. None)"
    by (subst deliver_pdu.simps) (simp add: p b new_pdu_collector_def)
  then show "pdu_received False (demo_pdu 1) ((new_pdu_collector 1)\<lparr>dc_pdu_map := [(2, demo_pdu 2)], dc_timer := Some (2, 49)\<rparr>) (\<lambda>_. None)
     = Some (None, [demo_pdu 1, demo_pdu 2], (new_pdu_collector 1)\<lparr>dc_seq_ctr := 3\<rparr>, \<lambda>_. None)"
    by (simp add: pdu_received_def p new_pdu_collector_def)
  show "pdu_received False (demo_pdu 2) (new_pdu_collector 1) (\<lambda>_. None)
     = Some (None, [], (new_pdu_collector 1)\<lparr>dc_pdu_map := [(2, demo_pdu 2)], dc_timer := Some (2, 49)\<rparr>, \<lambda>_. None)"
    by (simp add: pdu_received_def queue_pdu_def start_deliver_timer_def p new_pdu_collector_def om_insert_def om_find_def Let_def)
qed

theorem units_delivered_in_order_witness:
  "\<exists>c tab. col_run False False 1 (\<lambda>_. None) [demo_pdu 2, demo_pdu 1] [demo_pdu 1, demo_pdu 2] c tab \<and> dc_seq_ctr c = 3
     \<and> prefix [1..<3] (map useq [demo_pdu 1, demo_pdu 2])"
proof -
  let ?c = "(new_pdu_collector 1)\<lparr>dc_pdu_map := [(2, demo_pdu 2)], dc_timer := Some (2, 49)\<rparr>" and ?d = "(new_pdu_collector 1)\<lparr>dc_seq_ctr := 3\<rparr>"
  have "col_run False False 1 (\<lambda>_. None) ([] @ [demo_pdu 2]) ([] @ []) ?c (\<lambda>_. None)"
    by (rule col_unit [OF col_start _ _ demo_units(1)]) (simp_all add: demo_pdu_def new_pdu_collector_def)
  then have "col_run False False 1 (\<lambda>_. None) (([] @ [demo_pdu 2]) @ [demo_pdu 1]) (([] @ []) @ [demo_pdu 1, demo_pdu 2]) ?d (\<lambda>_. None)"
    by (rule col_unit [OF _ _ _ demo_units(2)]) (simp_all add: demo_pdu_def new_pdu_collector_def)
  then have run: "col_run False False 1 (\<lambda>_. None) [demo_pdu 2, demo_pdu 1] [demo_pdu 1, demo_pdu 2] ?d (\<lambda>_. None)" by simp
  have "{1..2} \<subseteq> useq ` set [demo_pdu 2, demo_pdu 1]"
  proof
    fix x :: nat assume "x \<in> {1..2}"
    then have "x = 1 \<or> x = 2" by auto
    then show "x \<in> useq ` set [demo_pdu 2, demo_pdu 1]" by (auto simp: demo_pdu_def)
  qed
  then have "prefix [1..<Suc 2] (map useq [demo_pdu 1, demo_pdu 2])" using units_delivered_in_order [OF run] by (auto simp: demo_pdu_def)
  then show ?thesis using run by (intro exI [of _ ?d] exI [of _ "\<lambda>_. None"]) (simp add: numeral_3_eq_3)
qed

text \<open>
  C39. A restart breaks this: when expired units are discarded from the front of the waiting ones, the next unit
  may be the one that the collector now expects, but it is left to wait. If it arrives a second time it is
  delivered, and when its timer expires the expected number is set back and it is delivered again.
\<close>

theorem restart_delivers_twice:
  assumes "now > pdu_expiration_ts old" and "pdu_seq_ctr old = n" and "pdu_seq_ctr pdu = n + 1" and "now \<le> pdu_expiration_ts pdu"
    and "dc_pdu_map c = [(n, old), (n + 1, pdu)]"
  defines "c1 \<equiv> collector_reload now c"
  shows "\<exists>ack c2 tab2 c3 tab3. pdu_received req pdu c1 tab = Some (ack, [pdu], c2, tab2) \<and> dc_timer c2 = Some (n + 1, pdu_expiration_ts pdu - 1)
    \<and> deliver_timer_expired req (n + 1) c2 tab2 = ([pdu], c3, tab3)"
proof -
  have c1: "c1 = start_deliver_timer pdu (c\<lparr>dc_seq_ctr := n + 1, dc_pdu_map := [(n + 1, pdu)]\<rparr>)"
    using assms(1,2,4,5) by (simp add: c1_def collector_reload_def)
  have "n + 1 \<noteq> n + 1 + 1" and "send_ack pdu c1 \<noteq> None" by (simp_all add: send_ack_def header_eq)
  then show ?thesis
    using assms(3) by (simp add: c1 pdu_received_def start_deliver_timer_def deliver_timer_expired_def deliver_pdu.simps Let_def)
qed

theorem restart_delivers_twice_witness:
  "\<exists>ack c2 tab2 c3 tab3.
     pdu_received False (demo_pdu 4) (collector_reload 40 ((new_pdu_collector 1)\<lparr>dc_pdu_map := [(3, (demo_pdu 3)\<lparr>pdu_expiration_ts := 30\<rparr>), (4, demo_pdu 4)]\<rparr>))
       (\<lambda>_. None) = Some (ack, [demo_pdu 4], c2, tab2) \<and> deliver_timer_expired False 4 c2 tab2 = ([demo_pdu 4], c3, tab3)"
  using restart_delivers_twice [of "(demo_pdu 3)\<lparr>pdu_expiration_ts := 30\<rparr>" 40 3 "demo_pdu 4"
      "(new_pdu_collector 1)\<lparr>dc_pdu_map := [(3, (demo_pdu 3)\<lparr>pdu_expiration_ts := 30\<rparr>), (4, demo_pdu 4)]\<rparr>" False "\<lambda>_. None"]
  by (auto simp: demo_pdu_def)

end
