(* ===== verification/Dtpc_Exchange.thy ===== *)
theory Dtpc_Exchange
  imports Dtpc_Collector
begin

text \<open>
  A payload aggregator and the collector of its units, with a network between them that loses, repeats and
  reorders: what reaches a topic is a prefix of what was given to it.
\<close>

section \<open>From a bundle to a unit\<close>

text \<open>The end of \<open>receive_bundle\<close>: the unit that is passed on; \<open>exp\<close> is the time when the bundle expires.\<close>

definition received_pdu :: "string \<Rightarrow> (u64 \<times> u64) option \<Rightarrow> int \<Rightarrow> bytes \<Rightarrow> dtpc_pdu option" where
  "received_pdu remote ipn exp payload =
     (case receive_bundle payload of
        Some (Rcvd_Data profile_id seq_ctr blocks) \<Rightarrow>
          Some \<lparr>pdu_remote_eid = remote, pdu_remote_ipn = ipn, pdu_profile_id = profile_id, pdu_seq_ctr = seq_ctr,
            pdu_blocks = blocks, pdu_expiration_ts = exp, pdu_app_ack = (seq_ctr > 0)\<rparr>
      | _ \<Rightarrow> None)"

lemma number_units_posts:
  "Post_Bundle buf \<in> set (number_units profile profile_id seq us) \<longleftrightarrow>
     (\<exists>i < length us. buf = data_unit profile_id (psn_of profile (seq + of_nat i)) (us ! i))"
proof (induction us arbitrary: seq)
  case (Cons bs us)
  have head: "Post_Bundle buf \<in> set (unit_effects profile profile_id seq bs) \<longleftrightarrow> buf = data_unit profile_id (psn_of profile seq) bs"
    by (auto simp: unit_effects_def Let_def)
  show ?case
    unfolding number_units.simps set_append Un_iff head Cons.IH
    by (auto simp: less_Suc_eq_0_disj add.assoc)
qed simp

text \<open>A unit of the transport service that arrives is the unit of its number.\<close>

definition unit_number :: "(u32 \<times> bytes list) list list \<Rightarrow> dtpc_pdu \<Rightarrow> bool" where
  "unit_number us pdu \<longleftrightarrow> 0 < useq pdu \<and> useq pdu \<le> length us \<and> pdu_blocks pdu = unit_blocks (us ! (useq pdu - 1))"

lemma arrived_unit:
  assumes "agg_inv profile profile_id given out p us" and "retransmission_limit profile > 0"
    and "Post_Bundle payload \<in> set out" and "received_pdu remote ipn exp payload = Some pdu"
  shows "unit_number us pdu" and "pdu_expiration_ts pdu = exp"
proof -
  have I: "out = number_units profile profile_id 1 us" "length us < 2 ^ 32" "\<forall>bs \<in> set us. bs \<noteq> [] \<and> (\<forall>b \<in> set bs. block_fits b)"
    using assms(1) by (auto simp: agg_inv_def)
  obtain i where i: "i < length us" "payload = data_unit profile_id (1 + of_nat i) (us ! i)"
    using assms(2,3) unfolding I(1) number_units_posts by (auto simp: psn_of_def)
  have "\<forall>b \<in> set (us ! i). block_fits b" using I(3) i(1) by (meson nth_mem)
  then have "receive_bundle payload = Some (Rcvd_Data profile_id (1 + of_nat i) (unit_blocks (us ! i)))"
    unfolding i(2) by (rule receive_data_unit)
  moreover have "unat (1 + of_nat i :: u64) = Suc i"
    using unat_of_nat_word [where 'a = 64 and n = "Suc i"] i(1) I(2) by simp
  ultimately show "unit_number us pdu" "pdu_expiration_ts pdu = exp" using assms(4) i(1) by (auto simp: received_pdu_def unit_number_def)
qed

text \<open>The items of consecutive units, as they reach the topics.\<close>

lemma deliver_numbered:
  assumes "\<forall>pdu \<in> set dlv. unit_number us pdu \<and> now < pdu_expiration_ts pdu" and "map useq dlv = [Suc n..<Suc n + length dlv]"
    and "\<forall>bs \<in> set us. \<forall>b \<in> set bs. block_fits b"
  shows "table_items now t (fold (deliver_table False) dlv tab) = table_items now t tab @ concat (map (items_of t) (take (length dlv) (drop n us)))"
  using assms
proof (induction dlv arbitrary: n tab)
  case (Cons pdu dlv)
  have u: "useq pdu = Suc n" "map useq dlv = [Suc (Suc n)..<Suc (Suc n) + length dlv]"
    using Cons.prems(2) upt_conv_Cons [of "Suc n" "Suc n + length (pdu # dlv)"] by simp_all
  have n: "n < length us" "pdu_blocks pdu = unit_blocks (us ! n)" using Cons.prems(1) u(1) by (auto simp: unit_number_def)
  then have fits: "\<forall>b \<in> set (us ! n). block_fits b" using Cons.prems(3) by (meson nth_mem)
  have "table_items now t (deliver_table False pdu tab) = table_items now t tab @ items_of t (us ! n)"
    unfolding deliver_table_def n(2) deliver_blocks_eq [OF fits] by (rule deliver_unit_items) (use Cons.prems(1) in auto)
  then show ?case
    using Cons.IH [OF _ u(2) Cons.prems(3), of "deliver_table False pdu tab"] Cons.prems(1) n(1)
    by (simp add: Cons_nth_drop_Suc [symmetric])
qed simp

lemma concat_take_prefix: "prefix (concat (map f (take n xs))) (concat (map f xs) @ ys)"
  by (metis append_assoc append_take_drop_id concat_append map_append prefixI)

section \<open>The exchange\<close>

text \<open>
  C5. Delay tolerant payload conditioning with the transport service keeps order. Let a profile allow retransmissions (its
  units are then numbered), let items be given to its aggregator for topics that have no elision function, and
  let a collector at the receiving side take units of this aggregator only, whatever the network loses, repeats and
  reorders, creating topics as they come. As long as no delivery timer fires and none of the units that arrived has
  expired, the data items that wait in a topic are a prefix of the items that were given to the sender for this topic, in the same
  order, none twice. When every unit that was sent has arrived, only items that the sender still
  aggregates are missing.
\<close>

theorem dtpc_items_in_order:
  assumes send: "agg_run profile profile_id given out p" and "retransmission_limit profile > 0"
    and recv: "col_run False False profile_id (\<lambda>_. None) arr dlv c tab"
    and net: "\<forall>pdu \<in> set arr. now < pdu_expiration_ts pdu
      \<and> (\<exists>payload remote ipn exp. Post_Bundle payload \<in> set out \<and> received_pdu remote ipn exp payload = Some pdu)"
  shows "prefix (table_items now t tab) (map snd (filter (\<lambda>g. fst g = t) given))
    \<and> ((\<forall>payload. Post_Bundle payload \<in> set out \<longrightarrow> (\<exists>pdu \<in> set arr. \<exists>remote ipn exp. received_pdu remote ipn exp payload = Some pdu))
       \<longrightarrow> table_items now t tab @ items_of t (pending_blocks (pa_topics p)) = map snd (filter (\<lambda>g. fst g = t) given))"
proof -
  obtain us where us: "agg_inv profile profile_id given out p us" using agg_run_inv [OF send] by blast
  have I: "out = number_units profile profile_id 1 us" "length us < 2 ^ 32" "\<forall>bs \<in> set us. \<forall>b \<in> set bs. block_fits b"
    "map snd (filter (\<lambda>g. fst g = t) given) = concat (map (items_of t) us) @ items_of t (pending_blocks (pa_topics p))"
    using us by (auto simp: agg_inv_def)
  note F = col_factsD [OF col_run_facts [OF recv]]
  have num: "unit_number us pdu \<and> now < pdu_expiration_ts pdu" if "pdu \<in> set arr" for pdu
    using net that arrived_unit(1) [OF us assms(2)] by blast
  have "numbered pdu" if "pdu \<in> set arr" for pdu using num [OF that] by (auto simp: unit_number_def)
  then have seq: "map useq dlv = [1..<unat (dc_seq_ctr c)]" using F(10) by blast
  then have len: "length dlv = unat (dc_seq_ctr c) - 1" by (metis length_map length_upt)
  then have "map useq dlv = [Suc 0..<Suc 0 + length dlv]" using seq F(4) by simp
  then have "table_items now t tab = concat (map (items_of t) (take (length dlv) us))"
    using deliver_numbered [of dlv us now 0 t "\<lambda>_. None"] num F(7,11) I(3) by (auto simp: table_items_def)
  moreover have "take (length dlv) us = us"
    if all: "\<forall>payload. Post_Bundle payload \<in> set out \<longrightarrow> (\<exists>pdu \<in> set arr. \<exists>remote ipn exp. received_pdu remote ipn exp payload = Some pdu)"
  proof (rule ccontr)
    assume "take (length dlv) us \<noteq> us"
    then have i: "length dlv < length us" by (metis not_less take_all)
    let ?payload = "data_unit profile_id (1 + of_nat (length dlv)) (us ! length dlv)"
    have "Post_Bundle ?payload \<in> set out" unfolding I(1) number_units_posts using i assms(2) by (auto simp: psn_of_def)
    then obtain pdu remote ipn exp where a: "pdu \<in> set arr" "received_pdu remote ipn exp ?payload = Some pdu" using all by blast
    have "\<forall>b \<in> set (us ! length dlv). block_fits b" using I(3) i by (meson nth_mem)
    then have "pdu_seq_ctr pdu = 1 + of_nat (length dlv)" using a(2) receive_data_unit by (auto simp: received_pdu_def)
    moreover have "unat (1 + of_nat (length dlv) :: u64) = Suc (length dlv)"
      using unat_of_nat_word [where 'a = 64 and n = "Suc (length dlv)"] i I(2) by simp
    ultimately have "pdu_seq_ctr pdu = dc_seq_ctr c" using len F(4) by (simp add: word_unat_eq_iff)
    then show False using F(9) [OF a(1)] F(2) by auto
  qed
  ultimately show ?thesis unfolding I(4) using concat_take_prefix by auto
qed

text \<open>One item of two bytes, sent at once and delivered.\<close>

definition demo_profile :: dtpc_profile where
  "demo_profile = \<lparr>expiration = 100, retransmission_limit = 2, aggregation_size_limit = 0, aggregation_time_limit = 0\<rparr>"

lemma demo_sent:
  obtains out p where "agg_run demo_profile 1 [(5, [7, 8])] out p" "pending_blocks (pa_topics p) = []"
    "\<And>payload. Post_Bundle payload \<in> set out \<longleftrightarrow> payload = data_unit 1 1 [(5, [[7, 8]])]"
proof -
  obtain out p where s: "send_data_item (Some demo_profile) (Some False) 5 [7, 8] (new_payload_aggregator 1) = Some (0, out, p)"
      "pending_blocks (pa_topics p) = []" "\<And>payload. Post_Bundle payload \<in> set out \<longleftrightarrow> payload = data_unit 1 1 [(5, [[7, 8]])]"
    by (simp add: send_data_item_def new_payload_aggregator_def new_topic_aggregator_def topic_send_data_item_def send_or_wait_def
        send_payload_def header_eq load_payload_def transmit_pdu_def data_unit_def topic_block_def data_item_bytes_def demo_profile_def
        om_find_def pending_blocks_def signed_take_bit_int_eq_self Let_def)
  have "agg_run demo_profile 1 ([] @ [(5, [7, 8])]) ([] @ out) p" by (rule agg_item [OF agg_start _ _ s(1)]) (simp_all add: item_fits_def)
  then show thesis using that s(2,3) by simp
qed

theorem dtpc_items_in_order_witness:
  "\<exists>out p arr dlv c tab. agg_run demo_profile 1 [(5, [7, 8])] out p \<and> col_run False False 1 (\<lambda>_. None) arr dlv c tab
     \<and> length arr = 1 \<and> table_items 0 5 tab = [[7, 8]]"
proof -
  let ?payload = "data_unit 1 1 [(5, [[7, 8]])]"
  obtain out p where s: "agg_run demo_profile 1 [(5, [7, 8])] out p" "pending_blocks (pa_topics p) = []"
    "\<And>payload. Post_Bundle payload \<in> set out \<longleftrightarrow> payload = ?payload" by (rule demo_sent) blast
  have "\<forall>b \<in> set [(5, [[7, 8]])]. block_fits b" by (simp add: block_fits_def item_fits_def)
  from receive_data_unit [OF this] obtain pdu where r: "received_pdu [] None 1000 ?payload = Some pdu" "pdu_seq_ctr pdu = 1" "pdu_expiration_ts pdu = 1000"
    by (simp add: received_pdu_def)
  obtain ack ds c tab where c: "pdu_received False pdu (new_pdu_collector 1) (\<lambda>_. None) = Some (ack, ds, c, tab)"
    by (auto simp: pdu_received_def send_ack_def header_eq) (metis prod_cases3)
  have run: "col_run False False 1 (\<lambda>_. None) ([] @ [pdu]) ([] @ ds) c tab"
    by (rule col_unit [OF col_start _ _ c]) (simp_all add: r(2) new_pdu_collector_def)
  have "\<forall>pdu' \<in> set ([] @ [pdu]). 0 < pdu_expiration_ts pdu'
      \<and> (\<exists>payload remote ipn exp. Post_Bundle payload \<in> set out \<and> received_pdu remote ipn exp payload = Some pdu')"
    using r s(3) by auto
  from dtpc_items_in_order [OF s(1) _ run this, of 5] have "table_items 0 5 tab = [[7, 8]]"
    using s(2,3) r(1) by (fastforce simp: demo_profile_def)
  then show ?thesis using s(1) run by (intro exI conjI) (assumption | simp)+
qed

end
