(* ===== verification/Dtpc_Daemon.thy ===== *)
theory Dtpc_Daemon
  imports Dtpc_Exchange
begin

text \<open>
  The daemon of DTPC (\<open>dtpc/DtpcDaemon.cc\<close>): it has the aggregators and collectors by endpoint and profile, the
  units that are not yet acknowledged with their retransmission timers, and the topics. Every handler is a
  function of its state; \<open>None\<close> is a failed assertion.
\<close>

section \<open>Keys\<close>

text \<open>Profile ids are printed as signed numbers in the keys of units and collectors, and as unsigned ones in the keys of aggregators.\<close>

definition dec_signed :: "int \<Rightarrow> string" where
  "dec_signed i = (if i < 0 then ''-'' @ dec_string (nat (- i)) else dec_string (nat i))"

definition pdu_key :: "string \<Rightarrow> u32 \<Rightarrow> u64 \<Rightarrow> string" where
  "pdu_key eid profile_id seq_ctr = eid @ ''~'' @ dec_signed (sint profile_id) @ ''~'' @ dec_string (unat seq_ctr)"

definition collector_key :: "string \<Rightarrow> u32 \<Rightarrow> string" where
  "collector_key eid profile_id = eid @ ''~'' @ dec_signed (sint profile_id)"

definition ion_alt_key :: "(u64 \<times> u64) option \<Rightarrow> u32 \<Rightarrow> u64 \<Rightarrow> string option" where
  "ion_alt_key ipn profile_id seq_ctr =
     map_option (\<lambda>(node, service). pdu_key (make_eid_ipn_str node ipn_receive_service_number) profile_id seq_ctr) ipn"

text \<open>The key of an aggregator goes through a buffer of 256 bytes, of which \<open>snprintf\<close> is told 255.\<close>

definition aggregator_key :: "string \<Rightarrow> u32 \<Rightarrow> string" where
  "aggregator_key eid profile_id = take 254 (eid @ ''~'' @ dec_string (unat profile_id))"

section \<open>State\<close>

record sent_pdu =
  sp_dest :: string
  sp_profile_id :: u32
  sp_seq_ctr :: u64
  sp_buf :: bytes
  sp_creation_ts :: u64
  sp_retransmit_count :: int
  sp_timer :: bool

definition sent_key :: "sent_pdu \<Rightarrow> string" where
  "sent_key u = pdu_key (sp_dest u) (sp_profile_id u) (sp_seq_ctr u)"

text \<open>\<open>dd_registered\<close> are the topics with a registration, with whether it has an elision function.\<close>

record dtpc_daemon =
  dd_require_predefined_topics :: bool
  dd_profiles :: "u32 \<Rightarrow> dtpc_profile option"
  dd_topics :: topic_table
  dd_registered :: "u32 \<Rightarrow> bool option"
  dd_aggregators :: "string \<Rightarrow> (string \<times> payload_aggregator) option"
  dd_unacked :: "string \<Rightarrow> sent_pdu option"
  dd_collectors :: "string \<Rightarrow> pdu_collector option"

text \<open>What the daemon does: bundles for the bundle daemon, with destination and payload, and events for itself.\<close>

datatype dd_effect = Bundle_To string bytes | Transmitted_Event sent_pdu | Delete_Request sent_pdu

text \<open>The effects of an aggregator for the destination \<open>dest\<close>, at the time \<open>now\<close> in seconds since 2000.\<close>

definition agg_to_daemon :: "u64 \<Rightarrow> string \<Rightarrow> u32 \<Rightarrow> agg_effect \<Rightarrow> dd_effect" where
  "agg_to_daemon now dest profile_id e =
     (case e of
        Post_Bundle buf \<Rightarrow> Bundle_To dest buf
      | Pdu_Transmitted seq buf \<Rightarrow>
          Transmitted_Event \<lparr>sp_dest = dest, sp_profile_id = profile_id, sp_seq_ctr = seq, sp_buf = buf, sp_creation_ts = now,
            sp_retransmit_count = 0, sp_timer = False\<rparr>)"

section \<open>The application\<close>

definition handle_dtpc_topic_registration :: "int \<Rightarrow> u32 \<Rightarrow> bool \<Rightarrow> dtpc_daemon \<Rightarrow> int \<times> dtpc_daemon" where
  "handle_dtpc_topic_registration now topic_id has_elision_func s =
     (let (added, tab) = (if dd_topics s topic_id \<noteq> None then (True, dd_topics s)
                          else if dd_require_predefined_topics s then (False, dd_topics s)
                          else topic_table_add (dd_require_predefined_topics s) topic_id False (dd_topics s))
      in if \<not> added then (if dd_require_predefined_topics s then - 1 else - 2, s)
         else if dd_registered s topic_id \<noteq> None then (- 3, s\<lparr>dd_topics := tab\<rparr>)
         else (0, s\<lparr>dd_topics := tab(topic_id := map_option (set_registration now True) (tab topic_id)),
                 dd_registered := (dd_registered s)(topic_id \<mapsto> has_elision_func)\<rparr>))"

definition handle_dtpc_topic_unregistration :: "int \<Rightarrow> u32 \<Rightarrow> dtpc_daemon \<Rightarrow> int \<times> dtpc_daemon" where
  "handle_dtpc_topic_unregistration now topic_id s =
     (if dd_registered s topic_id = None then (- 1, s)
      else (0, s\<lparr>dd_topics := (dd_topics s)(topic_id := map_option (set_registration now False) (dd_topics s topic_id)),
               dd_registered := (dd_registered s)(topic_id := None)\<rparr>))"

text \<open>
  \<open>handle_dtpc_send_data_item\<close>, followed by the handler of the aggregator, to which the item is posted. The
  aggregator asks the topic table again. An aggregator that waits for an elision function takes no event, so
  that the item stays in its queue: there is no result.
\<close>

definition handle_dtpc_send_data_item :: "u64 \<Rightarrow> string \<Rightarrow> u32 \<Rightarrow> u32 \<Rightarrow> bytes \<Rightarrow> dtpc_daemon \<Rightarrow> (int \<times> dd_effect list \<times> dtpc_daemon) option" where
  "handle_dtpc_send_data_item now dest profile_id topic_id item s =
     (let (added, tab) = (if dd_topics s topic_id \<noteq> None then (True, dd_topics s)
                          else if dd_require_predefined_topics s then (False, dd_topics s)
                          else topic_table_add (dd_require_predefined_topics s) topic_id False (dd_topics s));
          s1 = s\<lparr>dd_topics := tab\<rparr>
      in if \<not> added then Some (if dd_require_predefined_topics s then - 1 else - 2, [], s)
         else if dd_profiles s profile_id = None then Some (- 1, [], s1)
         else
           let key = aggregator_key dest profile_id;
               (agg_dest, agg) = (case dd_aggregators s key of Some a \<Rightarrow> a | None \<Rightarrow> (dest, new_payload_aggregator profile_id));
               topic = map_option (\<lambda>_. case dd_registered s topic_id of Some e \<Rightarrow> e | None \<Rightarrow> False) (tab topic_id)
           in map_option (\<lambda>(res, out, agg'). (res, map (agg_to_daemon now agg_dest (pa_profile_id agg)) out,
                   s1\<lparr>dd_aggregators := (dd_aggregators s)(key \<mapsto> (agg_dest, agg'))\<rparr>))
                (send_data_item (dd_profiles s (pa_profile_id agg)) topic topic_id item agg))"

definition handle_dtpc_payload_aggregation_timer_expired :: "u64 \<Rightarrow> string \<Rightarrow> u64 \<Rightarrow> dtpc_daemon \<Rightarrow> (dd_effect list \<times> dtpc_daemon) option" where
  "handle_dtpc_payload_aggregation_timer_expired now key seq_ctr s =
     (case dd_aggregators s key of
        None \<Rightarrow> Some ([], s)
      | Some (dest, agg) \<Rightarrow>
          if seq_ctr \<noteq> pa_seq_ctr agg then Some ([], s)
          else
            (case dd_profiles s (pa_profile_id agg) of
               None \<Rightarrow> None
             | Some profile \<Rightarrow>
                 map_option (\<lambda>(out, agg'). (map (agg_to_daemon now dest (pa_profile_id agg)) out,
                     s\<lparr>dd_aggregators := (dd_aggregators s)(key \<mapsto> (dest, agg'))\<rparr>))
                   (aggregation_timer_expired profile seq_ctr agg)))"

definition handle_dtpc_elision_func_response :: "u64 \<Rightarrow> string \<Rightarrow> u32 \<Rightarrow> u32 \<Rightarrow> bool \<Rightarrow> bytes list \<Rightarrow> dtpc_daemon \<Rightarrow> (dd_effect list \<times> dtpc_daemon) option" where
  "handle_dtpc_elision_func_response now dest profile_id topic_id modified items s =
     (if dd_topics s topic_id = None \<or> dd_profiles s profile_id = None then Some ([], s)
      else
        (case dd_aggregators s (aggregator_key dest profile_id) of
           None \<Rightarrow> None
         | Some (agg_dest, agg) \<Rightarrow>
             map_option (\<lambda>(out, agg'). (map (agg_to_daemon now agg_dest (pa_profile_id agg)) out,
                 s\<lparr>dd_aggregators := (dd_aggregators s)(aggregator_key dest profile_id \<mapsto> (agg_dest, agg'))\<rparr>))
               (elision_func_response (dd_profiles s (pa_profile_id agg)) topic_id modified items agg)))"

section \<open>Units that wait for their acknowledgement\<close>

definition handle_dtpc_transmitted_event :: "sent_pdu \<Rightarrow> dtpc_daemon \<Rightarrow> dtpc_daemon option" where
  "handle_dtpc_transmitted_event u s =
     (if dd_profiles s (sp_profile_id u) = None then None
      else
        Some (s\<lparr>dd_unacked := (dd_unacked s)(sent_key u \<mapsto> (case dd_unacked s (sent_key u) of None \<Rightarrow> u | Some u' \<Rightarrow> u')\<lparr>sp_timer := True\<rparr>)\<rparr>))"

definition handle_dtpc_delete_request :: "sent_pdu \<Rightarrow> dtpc_daemon \<Rightarrow> dtpc_daemon" where
  "handle_dtpc_delete_request u s = s\<lparr>dd_unacked := (dd_unacked s)(sent_key u := None)\<rparr>"

text \<open>\<open>retransmit_pdu\<close> of the aggregator for \<open>dest\<close>; the time that remains is computed without sign.\<close>

definition retransmit_pdu :: "dtpc_profile \<Rightarrow> u64 \<Rightarrow> string \<Rightarrow> sent_pdu \<Rightarrow> dd_effect list" where
  "retransmit_pdu profile now dest u =
     (let expiration_remaining = sp_creation_ts u + expiration profile - now in
      if sp_retransmit_count u \<ge> retransmission_limit profile then [Delete_Request u]
      else if expiration_remaining \<ge> expiration profile then [Delete_Request u]
      else [Bundle_To dest (sp_buf u),
            if sp_retransmit_count u \<ge> retransmission_limit profile then Delete_Request u else Transmitted_Event u])"

definition handle_dtpc_retransmit_timer_expired :: "u64 \<Rightarrow> string \<Rightarrow> dtpc_daemon \<Rightarrow> (dd_effect list \<times> dtpc_daemon) option" where
  "handle_dtpc_retransmit_timer_expired now key s =
     (case dd_unacked s key of
        None \<Rightarrow> Some ([], s)
      | Some u \<Rightarrow>
          let u1 = u\<lparr>sp_timer := False\<rparr>;
              agg_key = aggregator_key (sp_dest u) (sp_profile_id u);
              (agg_dest, agg) = (case dd_aggregators s agg_key of Some a \<Rightarrow> a | None \<Rightarrow> (sp_dest u, new_payload_aggregator (sp_profile_id u)));
              s1 = s\<lparr>dd_unacked := (dd_unacked s)(key \<mapsto> u1), dd_aggregators := (dd_aggregators s)(agg_key \<mapsto> (agg_dest, agg))\<rparr>
          in (case dd_profiles s (pa_profile_id agg) of
                None \<Rightarrow> None
              | Some profile \<Rightarrow> Some (retransmit_pdu profile now agg_dest u1, s1)))"

text \<open>An acknowledgement names its unit by the endpoint that sent it, or by the receive service of an ION node.\<close>

definition handle_dtpc_ack_received_event :: "string \<Rightarrow> (u64 \<times> u64) option \<Rightarrow> u32 \<Rightarrow> u64 \<Rightarrow> dtpc_daemon \<Rightarrow> dtpc_daemon" where
  "handle_dtpc_ack_received_event source ipn profile_id seq_ctr s =
     (let key = pdu_key source profile_id seq_ctr in
      if dd_unacked s key \<noteq> None then s\<lparr>dd_unacked := (dd_unacked s)(key := None)\<rparr>
      else
        (case ion_alt_key ipn profile_id seq_ctr of
           None \<Rightarrow> s
         | Some alt \<Rightarrow> s\<lparr>dd_unacked := (dd_unacked s)(alt := None)\<rparr>))"

section \<open>Units that arrive\<close>

definition handle_dtpc_data_received_event :: "dtpc_pdu \<Rightarrow> dtpc_daemon \<Rightarrow> (dd_effect list \<times> dtpc_pdu list \<times> dtpc_daemon) option" where
  "handle_dtpc_data_received_event pdu s =
     (let key = collector_key (pdu_remote_eid pdu) (pdu_profile_id pdu);
          c = (case dd_collectors s key of Some c \<Rightarrow> c | None \<Rightarrow> new_pdu_collector (pdu_profile_id pdu))
      in map_option (\<lambda>(ack, ds, c', tab). (case ack of None \<Rightarrow> [] | Some (dest, buf) \<Rightarrow> [Bundle_To dest buf], ds,
             s\<lparr>dd_collectors := (dd_collectors s)(key \<mapsto> c'), dd_topics := tab\<rparr>))
           (pdu_received (dd_require_predefined_topics s) pdu c (dd_topics s)))"

definition handle_dtpc_deliver_pdu_event :: "string \<Rightarrow> u64 \<Rightarrow> dtpc_daemon \<Rightarrow> dtpc_pdu list \<times> dtpc_daemon" where
  "handle_dtpc_deliver_pdu_event key seq_ctr s =
     (case dd_collectors s key of
        None \<Rightarrow> ([], s)
      | Some c \<Rightarrow>
          (case deliver_timer_expired (dd_require_predefined_topics s) seq_ctr c (dd_topics s) of
             (ds, c', tab) \<Rightarrow> (ds, s\<lparr>dd_collectors := (dd_collectors s)(key \<mapsto> c'), dd_topics := tab\<rparr>)))"

definition handle_dtpc_topic_expiration_check :: "int \<Rightarrow> u32 \<Rightarrow> dtpc_daemon \<Rightarrow> dtpc_daemon" where
  "handle_dtpc_topic_expiration_check now topic_id s =
     s\<lparr>dd_topics := (dd_topics s)(topic_id := map_option (remove_expired_items now) (dd_topics s topic_id))\<rparr>"

section \<open>Keys name their units\<close>

lemma dec_string_inject: "dec_string m = dec_string n \<longleftrightarrow> m = n"
  by (metis dec_value_string)

lemma dec_no_tilde: "CHR ''~'' \<notin> set (dec_string n)" "CHR ''~'' \<notin> set (dec_signed i)"
proof -
  show d: "CHR ''~'' \<notin> set (dec_string n)" for n using dec_string_digits [of n] by (auto simp: c_isdigit_def)
  show "CHR ''~'' \<notin> set (dec_signed i)" using d by (auto simp: dec_signed_def)
qed

lemma dec_signed_inject: "dec_signed i = dec_signed j \<longleftrightarrow> i = j"
proof
  assume eq: "dec_signed i = dec_signed j"
  have sign: "hd (dec_signed k) = CHR ''-'' \<longleftrightarrow> k < 0" for k
  proof -
    obtain c cs where c: "dec_string (nat k) = c # cs" by (cases "dec_string (nat k)") auto
    then have "c_isdigit c" using dec_string_digits [of "nat k"] by simp
    then show ?thesis using c digit_not_special(2) [of c] by (auto simp: dec_signed_def)
  qed
  have "i < 0 \<longleftrightarrow> j < 0" using sign [of i] sign [of j] eq by simp
  then show "i = j" using eq by (auto simp: dec_signed_def dec_string_inject split: if_splits)
qed simp

lemma split_last_tilde:
  assumes "xs @ CHR ''~'' # a = ys @ CHR ''~'' # b" and "CHR ''~'' \<notin> set a" "CHR ''~'' \<notin> set b"
  shows "xs = ys \<and> a = b"
proof -
  have "rev a @ CHR ''~'' # rev xs = rev b @ CHR ''~'' # rev ys" using arg_cong [OF assms(1), of rev] by simp
  moreover have "takeWhile (\<lambda>c. c \<noteq> CHR ''~'') (rev z @ CHR ''~'' # zs) = rev z" if "CHR ''~'' \<notin> set z" for z zs :: string
    using that by (subst takeWhile_append2) auto
  ultimately have "rev a = rev b" using assms(2,3) by metis
  then show ?thesis using assms(1) by simp
qed

lemma pdu_key_inject: "pdu_key e p s = pdu_key e' p' s' \<longleftrightarrow> e = e' \<and> p = p' \<and> s = s'"
proof
  assume "pdu_key e p s = pdu_key e' p' s'"
  then have "(e @ CHR ''~'' # dec_signed (sint p)) @ CHR ''~'' # dec_string (unat s) = (e' @ CHR ''~'' # dec_signed (sint p')) @ CHR ''~'' # dec_string (unat s')"
    by (simp add: pdu_key_def)
  from split_last_tilde [OF this dec_no_tilde(1) dec_no_tilde(1)]
  have "e @ CHR ''~'' # dec_signed (sint p) = e' @ CHR ''~'' # dec_signed (sint p')" "dec_string (unat s) = dec_string (unat s')" by auto
  then have "e = e'" "sint p = sint p'" "unat s = unat s'"
    using split_last_tilde [OF _ dec_no_tilde(2) dec_no_tilde(2)] by (auto simp: dec_string_inject dec_signed_inject)
  then show "e = e' \<and> p = p' \<and> s = s'" using signed_word_eqI [of p p'] by (simp add: word_unat_eq_iff)
qed simp

section \<open>Runs of the sending side\<close>

text \<open>
  Items, timers, answers of elision functions and acknowledgements, in any order; the events that the daemon
  posts to itself are handled at any later time.
\<close>

inductive dtpc_run :: "dtpc_daemon \<Rightarrow> dd_effect set \<Rightarrow> dtpc_daemon \<Rightarrow> bool" for s0 where
  run_begin: "(\<And>key. dd_unacked s0 key = None) \<Longrightarrow> dtpc_run s0 {} s0"
| run_item: "dtpc_run s0 ev s \<Longrightarrow> handle_dtpc_send_data_item now dest profile_id topic_id item s = Some (res, out, s')
    \<Longrightarrow> dtpc_run s0 (ev \<union> set out) s'"
| run_agg_timer: "dtpc_run s0 ev s \<Longrightarrow> handle_dtpc_payload_aggregation_timer_expired now key seq_ctr s = Some (out, s') \<Longrightarrow> dtpc_run s0 (ev \<union> set out) s'"
| run_elision: "dtpc_run s0 ev s \<Longrightarrow> handle_dtpc_elision_func_response now dest profile_id topic_id modified items s = Some (out, s')
    \<Longrightarrow> dtpc_run s0 (ev \<union> set out) s'"
| run_transmitted: "dtpc_run s0 ev s \<Longrightarrow> Transmitted_Event u \<in> ev \<Longrightarrow> handle_dtpc_transmitted_event u s = Some s' \<Longrightarrow> dtpc_run s0 ev s'"
| run_delete: "dtpc_run s0 ev s \<Longrightarrow> Delete_Request u \<in> ev \<Longrightarrow> dtpc_run s0 ev (handle_dtpc_delete_request u s)"
| run_retransmit: "dtpc_run s0 ev s \<Longrightarrow> handle_dtpc_retransmit_timer_expired now key s = Some (out, s') \<Longrightarrow> dtpc_run s0 (ev \<union> set out) s'"
| run_ack: "dtpc_run s0 ev s \<Longrightarrow> dtpc_run s0 ev (handle_dtpc_ack_received_event source ipn profile_id seq_ctr s)"

definition unit_ok :: "sent_pdu \<Rightarrow> bool" where
  "unit_ok u \<longleftrightarrow> sp_retransmit_count u = 0"

definition units_ok :: "dd_effect set \<Rightarrow> dtpc_daemon \<Rightarrow> bool" where
  "units_ok ev s \<longleftrightarrow> (\<forall>key u. dd_unacked s key = Some u \<longrightarrow> key = sent_key u \<and> unit_ok u) \<and> (\<forall>u. Transmitted_Event u \<in> ev \<longrightarrow> unit_ok u)"

lemma agg_event_ok: "Transmitted_Event u = agg_to_daemon now dest profile_id e \<Longrightarrow> unit_ok u"
  by (auto simp: agg_to_daemon_def unit_ok_def split: agg_effect.splits)

lemma units_ok_agg:
  assumes "units_ok ev s" and "dd_unacked s' = dd_unacked s" and "\<forall>u. Transmitted_Event u \<in> set out \<longrightarrow> unit_ok u"
  shows "units_ok (ev \<union> set out) s'"
  using assms unfolding units_ok_def by (metis UnE)

lemma sent_key_timer [simp]: "sent_key (u\<lparr>sp_timer := b\<rparr>) = sent_key u" "unit_ok (u\<lparr>sp_timer := b\<rparr>) = unit_ok u"
  by (simp_all add: sent_key_def unit_ok_def)

lemma retransmit_events: "Transmitted_Event v \<in> set (retransmit_pdu profile now dest u) \<Longrightarrow> v = u"
  by (auto simp: retransmit_pdu_def Let_def split: if_splits)

lemma run_units_ok: "dtpc_run s0 ev s \<Longrightarrow> units_ok ev s"
proof (induction rule: dtpc_run.induct)
  case run_begin
  then show ?case by (simp add: units_ok_def)
next
  case (run_item ev s now dest profile_id topic_id item res out s')
  have "dd_unacked s' = dd_unacked s \<and> (\<forall>u. Transmitted_Event u \<in> set out \<longrightarrow> unit_ok u)"
    using run_item.hyps(2) by (auto simp: handle_dtpc_send_data_item_def Let_def dest: agg_event_ok split: if_splits prod.splits option.splits)
  then show ?case using units_ok_agg [OF run_item.IH] by blast
next
  case (run_agg_timer ev s now key seq_ctr out s')
  have "dd_unacked s' = dd_unacked s \<and> (\<forall>u. Transmitted_Event u \<in> set out \<longrightarrow> unit_ok u)"
    using run_agg_timer.hyps(2) by (auto simp: handle_dtpc_payload_aggregation_timer_expired_def dest: agg_event_ok split: if_splits prod.splits option.splits)
  then show ?case using units_ok_agg [OF run_agg_timer.IH] by blast
next
  case (run_elision ev s now dest profile_id topic_id modified items out s')
  have "dd_unacked s' = dd_unacked s \<and> (\<forall>u. Transmitted_Event u \<in> set out \<longrightarrow> unit_ok u)"
    using run_elision.hyps(2) by (auto simp: handle_dtpc_elision_func_response_def dest: agg_event_ok split: if_splits prod.splits option.splits)
  then show ?case using units_ok_agg [OF run_elision.IH] by blast
next
  case (run_transmitted ev s u s')
  then show ?case by (auto simp: handle_dtpc_transmitted_event_def units_ok_def split: if_splits option.splits)
next
  case (run_delete ev s u)
  then show ?case by (auto simp: handle_dtpc_delete_request_def units_ok_def split: if_splits)
next
  case (run_retransmit ev s now key out s')
  show ?case
  proof (cases "dd_unacked s key")
    case None
    then show ?thesis using run_retransmit by (simp add: handle_dtpc_retransmit_timer_expired_def)
  next
    case (Some u)
    then have u: "key = sent_key u" "unit_ok u" using run_retransmit.IH by (auto simp: units_ok_def)
    obtain profile d where "out = retransmit_pdu profile now d (u\<lparr>sp_timer := False\<rparr>)" "dd_unacked s' = (dd_unacked s)(key \<mapsto> u\<lparr>sp_timer := False\<rparr>)"
      using run_retransmit.hyps(2) Some by (auto simp: handle_dtpc_retransmit_timer_expired_def Let_def split: option.splits prod.splits)
    then show ?thesis using run_retransmit.IH u by (auto simp: units_ok_def dest: retransmit_events)
  qed
next
  case (run_ack ev s source ipn profile_id seq_ctr)
  then show ?case by (auto simp: handle_dtpc_ack_received_event_def units_ok_def Let_def split: option.splits if_splits)
qed

section \<open>Properties\<close>

text \<open>The window: with a lifetime that does not wrap around, a unit is sent again after its first second and until it expires.\<close>

lemma remaining_window:
  fixes cr ex now :: u64
  assumes "unat cr + unat ex < 2 ^ 64" and "0 < ex"
  shows "cr + ex - now \<ge> ex \<longleftrightarrow> now \<le> cr \<or> cr + ex < now"
proof -
  have s: "unat (cr + ex) = unat cr + unat ex" using assms(1) by (simp add: unat_word_ariths)
  show ?thesis
  proof (cases "now \<le> cr + ex")
    case True
    then have "unat (cr + ex - now) = unat cr + unat ex - unat now" using s by (simp add: unat_sub_if_size word_le_nat_alt)
    then show ?thesis using True s by (auto simp: word_le_nat_alt word_less_nat_alt)
  next
    case False
    then have "unat (cr + ex - now) = unat cr + unat ex + 2 ^ 64 - unat now" using s by (simp add: unat_sub_if_size word_le_nat_alt word_size)
    then show ?thesis using False unat_lt_u64 [of now] by (auto simp: word_le_nat_alt word_less_nat_alt s)
  qed
qed

text \<open>
  C38. The retransmission limit of a profile has no effect: in every run of the daemon, the count of
  retransmissions of a unit is zero, so that a unit which is not acknowledged is sent again at every expiry of
  its timer as long as its lifetime lasts, whatever the (positive) limit is.
\<close>

theorem retransmissions_unlimited:
  assumes "dtpc_run s0 ev s" and "dd_unacked s key = Some u"
    and "dd_aggregators s (aggregator_key (sp_dest u) (sp_profile_id u)) = Some (dest, agg)"
    and "dd_profiles s (pa_profile_id agg) = Some profile" and "retransmission_limit profile > 0"
    and "unat (sp_creation_ts u) + unat (expiration profile) < 2 ^ 64" and "sp_creation_ts u < now" and "now \<le> sp_creation_ts u + expiration profile"
  shows "\<exists>s'. handle_dtpc_retransmit_timer_expired now key s
      = Some ([Bundle_To dest (sp_buf u), Transmitted_Event (u\<lparr>sp_timer := False\<rparr>)], s')"
proof -
  have "sp_retransmit_count u = 0" using run_units_ok [OF assms(1)] assms(2) by (auto simp: units_ok_def unit_ok_def)
  moreover have "0 < expiration profile"
  proof (rule ccontr)
    assume "\<not> 0 < expiration profile"
    then have "expiration profile = 0" by (simp add: word_gt_0)
    then show False using assms(7,8) by simp
  qed
  ultimately show ?thesis
    using assms remaining_window [OF assms(6), of now]
    by (simp add: handle_dtpc_retransmit_timer_expired_def retransmit_pdu_def Let_def not_le)
qed

text \<open>
  C20. An acknowledgement settles exactly its unit: the payload that a collector sends for a unit is received as
  the acknowledgement of that profile and number. When it arrives from an endpoint \<open>source\<close>, of scheme ipn or not, it takes
  the unit with destination \<open>source\<close>, this profile and this number off the list of those to be sent again; and when the
  list has no such unit and the source is \<open>ipn:x.y\<close>, it takes off the unit for the receive service \<open>ipn:x.129\<close> with this
  profile and number (ION sends its acknowledgements from \<open>ipn:x.128\<close>). Every other unit stays on the list as it was.
\<close>

theorem dtpc_ack_settles:
  assumes "send_ack pdu c = Some (dest, buf)" and "dtpc_run s0 ev s" and "dd_unacked s key = Some u"
    and "s' = handle_dtpc_ack_received_event source ipn (dc_profile_id c) (pdu_seq_ctr pdu) s"
  shows "receive_bundle buf = Some (Rcvd_Ack (dc_profile_id c) (pdu_seq_ctr pdu))
    \<and> dd_unacked s' key =
        (if (sp_profile_id u, sp_seq_ctr u) = (dc_profile_id c, pdu_seq_ctr pdu)
            \<and> (sp_dest u = source
               \<or> dd_unacked s (pdu_key source (dc_profile_id c) (pdu_seq_ctr pdu)) = None
                 \<and> (\<exists>x y. ipn = Some (x, y) \<and> sp_dest u = make_eid_ipn_str x 129))
         then None else Some u)"
proof -
  have key: "key = pdu_key (sp_dest u) (sp_profile_id u) (sp_seq_ctr u)"
    using run_units_ok [OF assms(2)] assms(3) by (auto simp: units_ok_def sent_key_def)
  have "receive_bundle buf = Some (Rcvd_Ack (dc_profile_id c) (pdu_seq_ctr pdu))"
    using assms(1) receive_ack by (auto simp: send_ack_def)
  then show ?thesis
    using assms(3) unfolding assms(4)
    by (cases ipn) (auto simp: handle_dtpc_ack_received_event_def ion_alt_key_def key pdu_key_inject ipn_receive_service_number_def Let_def)
qed

text \<open>A unit of one item is sent and handed to the list of units that wait.\<close>

definition demo_dtpc_daemon :: dtpc_daemon where
  "demo_dtpc_daemon = \<lparr>dd_require_predefined_topics = False, dd_profiles = (\<lambda>_. Some demo_profile), dd_topics = (\<lambda>_. None),
     dd_registered = (\<lambda>_. None), dd_aggregators = (\<lambda>_. None), dd_unacked = (\<lambda>_. None), dd_collectors = (\<lambda>_. None)\<rparr>"

lemma demo_waiting:
  obtains ev s u agg where "dtpc_run demo_dtpc_daemon ev s" "dd_unacked s (pdu_key dest 1 1) = Some u"
    "sp_dest u = dest" "sp_profile_id u = 1" "sp_seq_ctr u = 1" "sp_creation_ts u = 1000"
    "dd_aggregators s (aggregator_key dest 1) = Some (dest, agg)" "dd_profiles s (pa_profile_id agg) = Some demo_profile"
    "\<forall>k. k \<noteq> pdu_key dest 1 1 \<longrightarrow> dd_unacked s k = None"
proof -
  obtain out p where s: "send_data_item (Some demo_profile) (Some False) 5 [7, 8] (new_payload_aggregator 1) = Some (0, out, p)"
      "\<exists>buf. Pdu_Transmitted 1 buf \<in> set out"
    by (simp add: send_data_item_def new_payload_aggregator_def new_topic_aggregator_def topic_send_data_item_def send_or_wait_def
        send_payload_def header_eq load_payload_def transmit_pdu_def demo_profile_def om_find_def signed_take_bit_int_eq_self Let_def)
  then obtain buf where buf: "Pdu_Transmitted 1 buf \<in> set out" by blast
  define u where "u = \<lparr>sp_dest = dest, sp_profile_id = 1, sp_seq_ctr = 1, sp_buf = buf, sp_creation_ts = 1000, sp_retransmit_count = 0, sp_timer = False\<rparr>"
  define s1 where "s1 = demo_dtpc_daemon\<lparr>dd_topics := (\<lambda>_. None)(5 \<mapsto> new_topic False), dd_aggregators := (\<lambda>_. None)(aggregator_key dest 1 \<mapsto> (dest, p))\<rparr>"
  let ?out = "map (agg_to_daemon 1000 dest 1) out"
  have "handle_dtpc_send_data_item 1000 dest 1 5 [7, 8] demo_dtpc_daemon = Some (0, ?out, s1)"
    using s(1) by (simp add: handle_dtpc_send_data_item_def demo_dtpc_daemon_def topic_table_add_def s1_def new_payload_aggregator_def Let_def)
  from run_item [OF run_begin this] have r1: "dtpc_run demo_dtpc_daemon (set ?out) s1" by (simp add: demo_dtpc_daemon_def)
  have "Transmitted_Event u \<in> set ?out" using buf by (auto simp: u_def agg_to_daemon_def image_iff intro: bexI [of _ "Pdu_Transmitted 1 buf"])
  moreover have "handle_dtpc_transmitted_event u s1 = Some (s1\<lparr>dd_unacked := (\<lambda>_. None)(sent_key u \<mapsto> u\<lparr>sp_timer := True\<rparr>)\<rparr>)"
    by (simp add: handle_dtpc_transmitted_event_def s1_def demo_dtpc_daemon_def)
  ultimately have "dtpc_run demo_dtpc_daemon (set ?out) (s1\<lparr>dd_unacked := (\<lambda>_. None)(sent_key u \<mapsto> u\<lparr>sp_timer := True\<rparr>)\<rparr>)"
    using run_transmitted [OF r1] by blast
  then show thesis
    by (rule that [of _ _ "u\<lparr>sp_timer := True\<rparr>" p]) (simp_all add: sent_key_def u_def s1_def demo_dtpc_daemon_def)
qed

theorem retransmissions_unlimited_witness:
  "\<exists>ev s u out s'. dtpc_run demo_dtpc_daemon ev s \<and> handle_dtpc_retransmit_timer_expired 1050 (pdu_key ''ipn:2.1'' 1 1) s = Some (out, s')
     \<and> out = [Bundle_To ''ipn:2.1'' (sp_buf u), Transmitted_Event (u\<lparr>sp_timer := False\<rparr>)]"
proof -
  obtain ev s u agg where w: "dtpc_run demo_dtpc_daemon ev s" "dd_unacked s (pdu_key ''ipn:2.1'' 1 1) = Some u"
    "sp_dest u = ''ipn:2.1''" "sp_profile_id u = 1" "sp_seq_ctr u = 1" "sp_creation_ts u = 1000"
    "dd_aggregators s (aggregator_key ''ipn:2.1'' 1) = Some (''ipn:2.1'', agg)" "dd_profiles s (pa_profile_id agg) = Some demo_profile"
    "\<forall>k. k \<noteq> pdu_key ''ipn:2.1'' 1 1 \<longrightarrow> dd_unacked s k = None"
    by (rule demo_waiting [of "''ipn:2.1''"])
  show ?thesis using retransmissions_unlimited [OF w(1,2), of "''ipn:2.1''" agg demo_profile 1050] w by (auto simp: demo_profile_def)
qed

theorem dtpc_ack_settles_witness:
  "\<exists>ev s u dest buf. dtpc_run demo_dtpc_daemon ev s \<and> dd_unacked s (pdu_key ''ipn:2.129'' 1 1) = Some u
     \<and> send_ack (demo_pdu 1) (new_pdu_collector 1) = Some (dest, buf) \<and> receive_bundle buf = Some (Rcvd_Ack 1 1)
     \<and> dd_unacked (handle_dtpc_ack_received_event ''ipn:2.129'' (Some (2, 129)) 1 1 s) (pdu_key ''ipn:2.129'' 1 1) = None
     \<and> dd_unacked (handle_dtpc_ack_received_event ''ipn:2.128'' (Some (2, 128)) 1 1 s) (pdu_key ''ipn:2.129'' 1 1) = None
     \<and> dd_unacked (handle_dtpc_ack_received_event ''ipn:3.128'' (Some (3, 128)) 1 1 s) (pdu_key ''ipn:2.129'' 1 1) = Some u"
proof -
  obtain ev s u agg where w: "dtpc_run demo_dtpc_daemon ev s" "dd_unacked s (pdu_key ''ipn:2.129'' 1 1) = Some u"
    "sp_dest u = ''ipn:2.129''" "sp_profile_id u = 1" "sp_seq_ctr u = 1" "sp_creation_ts u = 1000"
    "dd_aggregators s (aggregator_key ''ipn:2.129'' 1) = Some (''ipn:2.129'', agg)" "dd_profiles s (pa_profile_id agg) = Some demo_profile"
    and only: "\<forall>k. k \<noteq> pdu_key ''ipn:2.129'' 1 1 \<longrightarrow> dd_unacked s k = None"
    by (rule demo_waiting [of "''ipn:2.129''"])
  obtain dest buf where a: "send_ack (demo_pdu 1) (new_pdu_collector 1) = Some (dest, buf)" by (simp add: send_ack_def header_eq)
  have none: "dd_unacked s (pdu_key ''ipn:2.128'' 1 1) = None" using only by (simp add: pdu_key_inject)
  have eid: "make_eid_ipn_str 2 129 = ''ipn:2.129''" "make_eid_ipn_str 3 129 = ''ipn:3.129''"
    by code_simp+
  note settles = dtpc_ack_settles [OF a w(1,2) refl]
  have "receive_bundle buf = Some (Rcvd_Ack 1 1)"
    using settles by (simp add: demo_pdu_def new_pdu_collector_def)
  then show ?thesis
    using w a settles [of "''ipn:2.129''" "Some (2, 129)"] settles [of "''ipn:2.128''" "Some (2, 128)"] settles [of "''ipn:3.128''" "Some (3, 128)"]
    by (intro exI conjI) (assumption | simp add: demo_pdu_def new_pdu_collector_def eid none)+
qed

end
