(* ===== verification/Spec2Isabelle.thy ===== *)
theory Spec2Isabelle
  imports Acs_Daemon Ltp_Link Fragmentation Dtpc_Daemon
begin

text \<open>
  A verification development for DTNME, NASA's implementation of Delay Tolerant Networking.

  The program. A DTNME node (\<open>src/daemon\<close>, \<open>src/servlib\<close>) stores bundles, forwards them over
  convergence layers and, on request, takes custody of them: it keeps a bundle until the next
  custodian has acknowledged it. This development follows one chain through the node, from the bytes
  on the wire to the custody state, and the transport protocol below it.

  Parts, theories and sources.

  \<^item> \<open>Prelude\<close>: types of machine words and bytes, the collections of facts, list and word lemmas, the
    interface \<open>field_codec\<close> of a self-delimiting field encoding, and the interface \<open>id_store\<close> of a
    store to which ids are added.
  \<^item> \<open>Ordered_Map\<close>: \<open>std::map\<close> as a sorted association list, behind the interface \<open>ordered_map\<close>.
  \<^item> \<open>SDNV\<close> (\<open>bundling/SDNV.cc\<close>): self-delimiting numeric values; an instance of \<open>field_codec\<close>.
  \<^item> \<open>Naming\<close> (\<open>naming/*.cc\<close>): endpoint names of the dtn, ipn, imc and wildcard schemes, their
    validation, classification and matching.
  \<^item> \<open>Pending_Acs\<close> (\<open>BundleDaemonACS.cc\<close>, \<open>determine_acs_changes\<close> and \<open>apply_acs_changes\<close>): the
    run-length encoded set of custody ids of a pending aggregate custody signal (ACS); an instance of
    \<open>id_store\<close>.
  \<^item> \<open>Cbor_Util\<close> (\<open>bundling/CborUtil.cc\<close>): CBOR heads, an instance of \<open>field_codec\<close>, and the CRCs.
  \<^item> \<open>Acs_Signal\<close> (\<open>bundling/AggregateCustodySignal.cc\<close>): the payloads of custody signals.
  \<^item> \<open>Custody_List\<close> (\<open>bundling/CustodyList.cc\<close>): the bundles in custody by destination and custody id.
  \<^item> \<open>Acs_Daemon\<close> (\<open>bundling/BundleDaemonACS.cc\<close>): the daemon that aggregates, sends and processes
    custody signals. Its state is the record \<open>acs_daemon\<close>; each handler is a function on it, and
    \<open>None\<close> is a failed assertion.
  \<^item> \<open>Fragmentation\<close> (\<open>bundling/FragmentManager.cc\<close>, \<open>FragmentState.cc\<close>): creating fragments, proactive and
    reactive fragmentation, and reassembly. The table of reassembly states is a map by hash key.
  \<^item> \<open>Bundle_Produce\<close> (\<open>bundling/BundleProtocolVersion6.cc\<close>, \<open>BundleProtocolVersion7.cc\<close>, the payload block
    processors and the stream buffer of oasys): the bytes of a formatted bundle, asked for in pieces.
  \<^item> \<open>Ltp_Segment\<close> (\<open>ltp/LTPCommon.cc\<close>): the segments of the Licklider Transmission Protocol (LTP), their
    encoders, parsers and the dispatcher. A read outside the received datagram is the value
    \<open>Bad_Read\<close>.
  \<^item> \<open>Ltp_Contig\<close>, \<open>Ltp_Session\<close>, \<open>Ltp_Report\<close> (\<open>LTPSession\<close> in \<open>ltp/LTPCommon.cc\<close>): the contiguous blocks of
    bytes received, the segments of a session, and the reports that answer a checkpoint.
  \<^item> \<open>Ltp_Sender\<close>, \<open>Ltp_Segmenter\<close> (\<open>LTPNode::Sender\<close> in \<open>ltp/LTPEngine.cc\<close>): what a report makes the sender
    forget and send again, and how the bundles of a session are cut into segments.
  \<^item> \<open>Ltp_Receiver\<close> (\<open>LTPNode::Receiver\<close> in \<open>ltp/LTPEngine.cc\<close>): the handler of every segment and timer of the
    receiving side. Its state is the record \<open>ltp_receiver\<close>; what it sends and hands over is the type
    \<open>rcv_effect\<close>.
  \<^item> \<open>Ltp_Sender_Node\<close> (\<open>LTPNode::Sender\<close> and the tables of \<open>LTPEngine\<close> in \<open>ltp/LTPEngine.cc\<close>): the sender with
    all its sessions, from a bundle that is sent to the event that reports it. Its state is the record
    \<open>ltp_sender\<close>, its operations are the type \<open>snd_op\<close> with the function \<open>snd_step\<close>, which takes every operation in
    every state. \<open>snd_run\<close> are the runs in which each operation meets \<open>op_ok\<close>: among other conditions, no cancel acknowledgement for
    a session that is not being cancelled, and nothing that closes the session which still collects bundles. The code does not
    check these conditions; \<open>unsolicited_ack_loses\<close> shows what happens outside them. A green session, in no table, is
    cut by \<open>Op_Green\<close>, which reports its bundles at once.
  \<^item> \<open>Ltp_Exchange\<close>: sender and receiver composed over a network that loses, repeats and reorders. The
    relation \<open>xstep\<close> has one rule for each arrival and each timer, over the operations above, and every timer may fire
    at any time; \<open>xreach\<close> are the states that are reached. The receiver forgets a closed session when its closeout timer
    fires; \<open>xc_forgot\<close> records that this happened to a session that was closed without being handed over.
  \<^item> \<open>Ltp_Local\<close>: what one operation of the receiver or of the sender leaves alone, and what it may send.
  \<^item> \<open>Ltp_Link\<close>: the sender with all its sessions and the receiver, over the same network. \<open>lstep\<close> has a rule for
    every operation of the sender that meets \<open>op_ok\<close>, every arrival and every timer, with the sessions that the receiver
    forgot before they were handed over in \<open>lk_forgot\<close>. The segments of green sessions are not followed over the link; \<open>lreach\<close> are the states that are reached, and
    \<open>linv\<close> is the invariant that ties the table of the sender, the segments under way and the sessions of the
    receiver together.
  \<^item> \<open>Dtpc_Pdu\<close> (\<open>dtpc/DtpcTopicAggregator.cc\<close>, \<open>DtpcPayloadAggregator.cc\<close>, \<open>DtpcReceiver.cc\<close>): delay tolerant
    payload conditioning (DTPC), by which applications send data items over bundles: how items are aggregated into
    protocol data units, and how a received unit is checked. The state is the record \<open>payload_aggregator\<close>.
  \<^item> \<open>Dtpc_Topic\<close> (\<open>dtpc/DtpcTopic.cc\<close>, \<open>DtpcTopicTable.cc\<close>, \<open>DtpcTopicCollectorList.cc\<close>): the queues of items of the
    topics and of their registrations, behind the interface \<open>item_queue\<close>.
  \<^item> \<open>Dtpc_Collector\<close> (\<open>dtpc/DtpcDataPduCollector.cc\<close>): the collector that puts units in order, acknowledges them
    and suppresses duplicates. \<open>Dtpc_Exchange\<close> composes an aggregator with a collector over a network that loses,
    repeats and reorders.
  \<^item> \<open>Dtpc_Daemon\<close> (\<open>dtpc/DtpcDaemon.cc\<close>): the daemon with its registrations, its aggregators and collectors and the
    units that wait for their acknowledgement. Its state is the record \<open>dtpc_daemon\<close>, \<open>dtpc_run\<close> are its runs.

  What is shown. For the codecs: round trips, exact lengths, exactly which inputs the decoders
  accept, and for the table-driven CRC-32C the equality with the bitwise definition for every input
  and every alignment of the buffer. For the pending ACS: inserting a fresh id in any order yields
  the run-length encoding of the set of ids with its exact wire size, up to the handling of
  duplicates. For the custody list and the daemon: ids are never lost between the pending signal and
  the wire, a pending signal stays within the size configured for its custodian, stale timers do nothing, and a received signal
  releases exactly the bundles it names. For fragmentation: fragments that arrive in any order and
  overlap are reassembled to the bundle exactly when they cover it, and proactive fragments tile the
  payload within the limit. For LTP: every segment built within the ranges the encoders support is parsed
  back; the map of contiguous blocks refines the set of bytes received; the segments of a session are the
  chunks of its bundles; reports claim exactly what was received; a report for an open checkpoint makes the sender drop
  what is claimed and send again the rest of its range, and one for another checkpoint is ignored. From these follow the
  properties of the exchange: what is handed over is the block that was sent; a session is completed at the sender only
  when it has been handed over, unless the receiver gave the session up and forgot it in between, and then it may indeed be
  completed with nothing handed over; and there is a run without losses that completes it. For the sender with all its sessions, in the runs of
  \<open>snd_run\<close>: every bundle it takes for a red session is in exactly one session or has been reported, once, and the limit
  on sessions and the counters of their states hold. The sessions of a receiver do not disturb one another. For
  the link as a whole: a bundle of a red session that is reported as transmitted was in a block that the receiver has handed
  over, byte for byte, with the same exception for sessions that were forgotten. For DTPC: units are received as they were built; with
  the transport service and without elision functions, the items that reach a topic are a prefix of the items given for it, and
  the whole of them once every unit has arrived; a collector delivers numbered units in order and at most once, and
  unnumbered ones as they come; topics are queues from which items are dropped when they expire; an
  acknowledgement settles exactly the unit with its source as destination, or else that of the ION receive service of the
  same node. Where the code departs from its
  comments or aborts, the departures that matter most are theorems as well, and the properties above state the condition
  under which it cannot happen.

  Bounds and recursion. Machine integers keep their width (64-bit custody ids and offsets, 32-bit payload
  lengths), with wrap-around where the code wraps. Recursions over data are shown to terminate. Three loops
  of the code need not end: \<open>CheckAndTrim\<close> has fuel (\<open>trim_loop\<close>; it is entered only for segments
  that overlap others in part, and \<open>trim_never_ends\<close> shows that no fuel is enough then), the loops of
  \<open>process_bundles\<close> and of proactive fragmentation are partial functions whose value \<open>None\<close> stands for an
  assertion that fails or a loop that does not end; the properties show that they yield a result.
  The bounds of the exchange (a block below two to the 55 or 56 bytes, engine and session ids below two to the
  56) are those of \<open>Encode_Field\<close>.

  Not modelled. Threads, locks, queues and logging; sockets and files, including sessions kept in files;
  the durable store, which is a map in the state; the URI splitter and the glob matcher of oasys, which are
  arguments of the definitions that use them; TinyCBOR, so that the CBOR decoders and the formatting and
  parsing of version 7 blocks are left out; security extensions of LTP; the
  stores of DTPC and the fields of its bundles other than destination and payload. The other components of the
  node are listed in the manifest with their reasons: the event dispatch of the bundle daemon, the bundle lists
  and the forwarding log, the routers, the links and the other convergence layers share state between threads,
  sockets and the datastore, and the restaging daemon keeps accounts of files on disk; their decisions depend on
  link and contact state that has no model here.
\<close>

end
